(* ===== verification/Prelude.thy ===== *)
theory Prelude
  imports Main "HOL-Library.Word"
begin

text \<open>
  Shared vocabulary of the development.

  \<^item> \<open>'a run\<close> is the result of running a piece of C code: \<open>ret x\<close> when it returns \<open>x\<close>,
    \<open>fault e\<close> when it performs an access that C leaves undefined (a null pointer, a freed
    address, an index outside an object), and \<open>None\<close> when it never returns.
  \<^item> \<open>bnd\<close> runs one piece of code after another; loops that may run forever are
    \<^theory_text>\<open>partial_function (option)\<close> over it.
  \<^item> \<open>wp\<close> (returns, and the result satisfies a predicate) and \<open>safe\<close> (never faults, and if it
    returns, the result satisfies a predicate) are the two judgements the components use.
  \<^item> \<open>size_t_of_int\<close> is the conversion of a C \<open>int\<close> to \<open>size_t\<close> on a 64-bit machine.
\<close>

section \<open>Running C code\<close>

datatype fault = Null_Deref | Dangling | Out_Of_Bounds

type_synonym 'a run = "(fault + 'a) option"

type_synonym addr = nat

abbreviation ret :: "'a \<Rightarrow> 'a run" where
  "ret x \<equiv> Some (Inr x)"

abbreviation fault :: "fault \<Rightarrow> 'a run" where
  "fault e \<equiv> Some (Inl e)"

abbreviation diverges :: "'a run \<Rightarrow> bool" where
  "diverges m \<equiv> m = None"

definition bnd :: "'a run \<Rightarrow> ('a \<Rightarrow> 'b run) \<Rightarrow> 'b run" where
  "bnd m k = (case m of None \<Rightarrow> None
     | Some r \<Rightarrow> (case r of Inl e \<Rightarrow> Some (Inl e) | Inr x \<Rightarrow> k x))"

lemma bnd_simps [simp]:
  "bnd (ret x) k = k x" "bnd (fault e) k = fault e" "bnd None k = None"
  by (simp_all add: bnd_def)

lemma bnd_assoc: "bnd (bnd m k) l = bnd m (\<lambda>x. bnd (k x) l)"
  by (auto simp: bnd_def split: option.splits sum.splits)

lemma bnd_weak_cong: "m = m' \<Longrightarrow> bnd m k = bnd m' k"
  by simp

lemma bnd_mono [partial_function_mono]:
  assumes "mono_option B" and "\<And>y. mono_option (\<lambda>f. C y f)"
  shows "mono_option (\<lambda>f. bnd (B f) (\<lambda>y. C y f))"
proof (rule monotoneI)
  fix f g :: "'a \<Rightarrow> 'b option"
  assume fg: "fun_ord option_ord f g"
  with assms have "option_ord (B f) (B g)" and "\<And>y. option_ord (C y f) (C y g)"
    by (blast dest: monotoneD)+
  then show "option_ord (bnd (B f) (\<lambda>y. C y f)) (bnd (B g) (\<lambda>y. C y g))"
    by (auto simp: bnd_def flat_ord_def split: option.splits sum.splits) metis+
qed

section \<open>Total and partial correctness\<close>

definition wp :: "'a run \<Rightarrow> ('a \<Rightarrow> bool) \<Rightarrow> bool" where
  "wp m Q \<longleftrightarrow> (\<exists>x. m = ret x \<and> Q x)"

definition safe :: "'a run \<Rightarrow> ('a \<Rightarrow> bool) \<Rightarrow> bool" where
  "safe m Q \<longleftrightarrow> m = None \<or> (\<exists>x. m = ret x \<and> Q x)"

lemma wp_simps [simp]:
  "wp (ret x) Q = Q x" "\<not> wp (fault e) Q" "\<not> wp None Q"
  by (simp_all add: wp_def)

lemma safe_simps [simp]:
  "safe (ret x) Q = Q x" "\<not> safe (fault e) Q" "safe None Q"
  by (simp_all add: safe_def)

lemma wp_bnd [simp]: "wp (bnd m k) Q = wp m (\<lambda>x. wp (k x) Q)"
  by (auto simp: wp_def bnd_def split: option.splits sum.splits)

lemma safe_bnd [simp]: "safe (bnd m k) Q = safe m (\<lambda>x. safe (k x) Q)"
  by (auto simp: safe_def bnd_def split: option.splits sum.splits)

lemma wp_mono: "wp m P \<Longrightarrow> (\<And>x. P x \<Longrightarrow> Q x) \<Longrightarrow> wp m Q"
  by (auto simp: wp_def)

lemma safe_mono: "safe m P \<Longrightarrow> (\<And>x. P x \<Longrightarrow> Q x) \<Longrightarrow> safe m Q"
  by (auto simp: safe_def)

lemma wp_safe: "wp m Q \<Longrightarrow> safe m Q"
  by (auto simp: safe_def wp_def)

lemma wp_conj: "wp m P \<Longrightarrow> wp m Q \<Longrightarrow> wp m (\<lambda>x. P x \<and> Q x)"
  by (auto simp: wp_def)

lemma wpD: "wp m Q \<Longrightarrow> m = ret x \<Longrightarrow> Q x"
  by (simp add: wp_def)

lemma wpE: "wp m Q \<Longrightarrow> (\<And>x. m = ret x \<Longrightarrow> Q x \<Longrightarrow> R) \<Longrightarrow> R"
  by (auto simp: wp_def)

section \<open>Machine integers\<close>

definition size_t_of_int :: "int \<Rightarrow> nat" where
  "size_t_of_int i = nat (i mod 2 ^ 64)"

lemma size_t_of_int_nonneg [simp]:
  "0 \<le> i \<Longrightarrow> i < 2 ^ 64 \<Longrightarrow> size_t_of_int i = nat i"
  by (simp add: size_t_of_int_def)

definition size_t_add :: "nat \<Rightarrow> nat \<Rightarrow> nat" where
  "size_t_add a b = (a + b) mod 2 ^ 64"

lemma size_t_add_small: "a + b < 2 ^ 64 \<Longrightarrow> size_t_add a b = a + b"
  by (simp add: size_t_add_def)

section \<open>Bytes in memory\<close>

text \<open>
  A byte of a freshly allocated object has no value yet: memory is a list of
  \<open>char option\<close>, \<open>None\<close> for a byte that nobody has written. \<open>blit\<close> is \<open>memcpy\<close> into
  the middle of an object.
\<close>

definition blit :: "'a list \<Rightarrow> nat \<Rightarrow> 'a list \<Rightarrow> 'a list" where
  "blit mem pos xs = take pos mem @ xs @ drop (pos + length xs) mem"

lemma length_blit [simp]: "pos + length xs \<le> length mem \<Longrightarrow> length (blit mem pos xs) = length mem"
  by (simp add: blit_def)

lemma take_blit_end:
  "pos \<le> length mem \<Longrightarrow> take (pos + length xs) (blit mem pos xs) = take pos mem @ xs"
  by (simp add: blit_def)

lemma take_blit_beyond:
  assumes "pos + length xs \<le> n" and "n \<le> length mem"
  shows "take n (blit mem pos xs) = blit (take n mem) pos xs"
  using assms by (simp add: blit_def drop_take)

lemma blit_Nil [simp]: "blit mem pos [] = mem"
  by (simp add: blit_def)

lemma length_blit_max:
  "pos \<le> length mem \<Longrightarrow> length (blit mem pos xs) = max (length mem) (pos + length xs)"
  by (simp add: blit_def)

lemma take_max_blit:
  assumes "pos \<le> n" and "n \<le> length mem" and "pos + length xs \<le> length mem"
  shows "take (max n (pos + length xs)) (blit mem pos xs) = blit (take n mem) pos xs"
  using assms by (cases "n \<le> pos + length xs") (simp_all add: blit_def max_def drop_take)

lemma blit_blit_adjacent:
  assumes "pos \<le> length mem"
  shows "blit (blit mem pos xs) (pos + length xs) ys = blit mem pos (xs @ ys)"
  using assms by (simp add: blit_def ac_simps)

lemma blit_append_right:
  "blit (as @ bs) (length as + k) xs = as @ blit bs k xs"
  by (simp add: blit_def add.assoc)

section \<open>Counting in a table\<close>

lemma count_update:
  "i < length xs \<Longrightarrow> int (length (filter P (xs[i := y]))) =
     int (length (filter P xs)) - (if P (xs ! i) then 1 else 0) + (if P y then 1 else 0)"
proof (induction xs arbitrary: i)
  case Nil
  then show ?case by simp
next
  case (Cons x xs)
  show ?case
  proof (cases i)
    case 0
    then show ?thesis by simp
  next
    case (Suc j)
    with Cons.prems have "j < length xs" by simp
    from Cons.IH[OF this] Suc show ?thesis by (auto split: if_splits)
  qed
qed

lemma filter_count_pos:
  "i < length xs \<Longrightarrow> P (xs ! i) \<Longrightarrow> 0 < length (filter P xs)"
  by (auto simp: length_greater_0_conv filter_empty_conv intro: nth_mem)

lemma filter_count_full: "length (filter P xs) = length xs \<longleftrightarrow> (\<forall>x \<in> set xs. P x)"
  using length_filter_less[of _ xs P] by (auto simp: filter_id_conv [THEN iffD2] nat_less_le)

end
