(* ===== verification/Linked.thy ===== *)
theory Linked
  imports Prelude
begin

text \<open>
  Linked lists in a store. \<open>nx a = Some n\<close> says that address \<open>a\<close> holds a live node whose
  next pointer is \<open>n\<close>; \<open>chain nx p as q\<close> says that following next pointers from \<open>p\<close> visits
  exactly the nodes \<open>as\<close> and ends at \<open>q\<close>. The locales state, once for every list of the
  program, what a search loop and a walk along a chain compute.
\<close>

section \<open>Chains\<close>

type_synonym next_map = "addr \<Rightarrow> addr option option"

fun chain :: "next_map \<Rightarrow> addr option \<Rightarrow> addr list \<Rightarrow> addr option \<Rightarrow> bool" where
  "chain nx p [] q = (p = q)"
| "chain nx p (a # as) q =
     (p = Some a \<and> (case nx a of None \<Rightarrow> False | Some n \<Rightarrow> chain nx n as q))"

lemma chain_Cons_iff [simp]:
  "chain nx p (a # as) q \<longleftrightarrow> p = Some a \<and> (\<exists>n. nx a = Some n \<and> chain nx n as q)"
  by (auto split: option.splits)

declare chain.simps(2) [simp del]

lemma chain_None_start [simp]: "chain nx None as None \<longleftrightarrow> as = []"
  by (cases as) auto

lemma chain_append:
  "chain nx p (as @ bs) q \<longleftrightarrow> (\<exists>r. chain nx p as r \<and> chain nx r bs q)"
  by (induction as arbitrary: p) (auto split: option.splits)

lemma chain_nodes: "chain nx p as q \<Longrightarrow> a \<in> set as \<Longrightarrow> \<exists>n. nx a = Some n"
  by (induction as arbitrary: p) (auto split: option.splits)

lemma chain_unique: "chain nx p as None \<Longrightarrow> chain nx p bs None \<Longrightarrow> as = bs"
proof (induction as arbitrary: p bs)
  case Nil
  then show ?case by (cases bs) auto
next
  case (Cons a as)
  then show ?case by (cases bs) (auto split: option.splits)
qed

lemma chain_distinct: "chain nx p as None \<Longrightarrow> distinct as"
proof (induction as arbitrary: p)
  case Nil
  then show ?case by simp
next
  case (Cons a as)
  then obtain n where n: "nx a = Some n" "chain nx n as None" and p: "p = Some a"
    by auto
  have "a \<notin> set as"
  proof
    assume "a \<in> set as"
    then obtain us vs where as: "as = us @ a # vs" by (meson split_list)
    with n have "chain nx (Some a) (a # vs) None" by (auto simp: chain_append)
    with Cons.prems p as have "a # vs = a # us @ a # vs" by (metis chain_unique)
    then show False by simp
  qed
  with n Cons.IH show ?case by auto
qed

lemma chain_cong: "(\<And>a. a \<in> set as \<Longrightarrow> nx' a = nx a) \<Longrightarrow> chain nx' p as q = chain nx p as q"
  by (induction as arbitrary: p) (auto split: option.splits)

lemma chain_upd [simp]: "a \<notin> set as \<Longrightarrow> chain (nx(a := v)) p as q = chain nx p as q"
  by (rule chain_cong) auto

lemma chain_snoc:
  "chain nx p as (Some a) \<Longrightarrow> nx a = Some n \<Longrightarrow> chain nx p (as @ [a]) n"
  by (simp add: chain_append)

lemma chain_nth:
  "chain nx p as None \<Longrightarrow> i < length as \<Longrightarrow>
     nx (as ! i) = Some (if Suc i < length as then Some (as ! Suc i) else None)"
proof (induction as arbitrary: p i)
  case Nil
  then show ?case by simp
next
  case (Cons a as)
  then obtain n where n: "nx a = Some n" "chain nx n as None"
    by auto
  show ?case
  proof (cases i)
    case 0
    with n show ?thesis by (cases as) auto
  next
    case (Suc j)
    with n Cons.IH[of n j] Cons.prems show ?thesis by simp
  qed
qed

lemma chain_start: "chain nx p as None \<Longrightarrow> p = (if as = [] then None else Some (hd as))"
  by (cases as) auto

text \<open>Cutting a chain after its first \<open>Suc n\<close> nodes.\<close>

lemma chain_cut:
  assumes "chain nx p as None" and "n < length as"
  shows "chain (nx(as ! n := Some None)) p (take (Suc n) as) None"
    and "chain nx (the (nx (as ! n))) (drop (Suc n) as) None"
proof -
  have as: "take n as @ as ! n # drop (Suc n) as = as"
    using assms(2) by (rule id_take_nth_drop [symmetric])
  have "chain nx p (take n as @ as ! n # drop (Suc n) as) None"
    using assms(1) by (simp add: as)
  then obtain m where m: "chain nx p (take n as) (Some (as ! n))" "nx (as ! n) = Some m"
      "chain nx m (drop (Suc n) as) None"
    by (auto simp: chain_append)
  have "as ! n \<notin> set (take n as)"
    using chain_distinct[OF assms(1)] assms(2) by (simp add: distinct_conv_nth in_set_conv_nth)
  with m(1) have "chain (nx(as ! n := Some None)) p (take n as @ [as ! n]) None"
    by (simp add: chain_append)
  then show "chain (nx(as ! n := Some None)) p (take (Suc n) as) None"
    using assms(2) by (simp add: take_Suc_conv_app_nth)
  from m show "chain nx (the (nx (as ! n))) (drop (Suc n) as) None" by simp
qed

lemma chain_append_node:
  assumes "chain nx p as None" and "as \<noteq> []" and "a \<notin> set as"
  shows "chain (nx(last as := Some (Some a), a := Some None)) p (as @ [a]) None"
proof -
  obtain bs b where as: "as = bs @ [b]" using assms(2) by (metis append_butlast_last_id)
  with assms chain_distinct[OF assms(1)] show ?thesis
    by (auto simp: chain_append)
qed

section \<open>Doubly linked chains\<close>

text \<open>
  \<open>dseg nx pv q p as q' p'\<close>: from \<open>p\<close> the next pointers visit \<open>as\<close> and end at \<open>p'\<close>, while
  the previous pointers run back to \<open>q\<close>; \<open>q'\<close> is the last node visited. \<open>dll\<close> is the
  whole list, from a NULL previous pointer to a NULL next pointer.
\<close>

fun dseg :: "next_map \<Rightarrow> next_map \<Rightarrow> addr option \<Rightarrow> addr option \<Rightarrow> addr list \<Rightarrow>
    addr option \<Rightarrow> addr option \<Rightarrow> bool" where
  "dseg nx pv q p [] q' p' = (q' = q \<and> p' = p)"
| "dseg nx pv q p (a # as) q' p' =
     (p = Some a \<and> pv a = Some q \<and>
      (case nx a of None \<Rightarrow> False | Some n \<Rightarrow> dseg nx pv (Some a) n as q' p'))"

lemma dseg_Cons_iff [simp]:
  "dseg nx pv q p (a # as) q' p' \<longleftrightarrow> p = Some a \<and> pv a = Some q \<and>
     (\<exists>n. nx a = Some n \<and> dseg nx pv (Some a) n as q' p')"
  by (auto split: option.splits)

declare dseg.simps(2) [simp del]

lemma dseg_append:
  "dseg nx pv q p (as @ bs) q' p' \<longleftrightarrow>
     (\<exists>r n. dseg nx pv q p as r n \<and> dseg nx pv r n bs q' p')"
  by (induction as arbitrary: q p) auto

lemma dseg_cong:
  "(\<And>a. a \<in> set as \<Longrightarrow> nx' a = nx a \<and> pv' a = pv a) \<Longrightarrow>
     dseg nx' pv' q p as q' p' = dseg nx pv q p as q' p'"
  by (induction as arbitrary: q p) auto

lemma dseg_upd [simp]:
  "a \<notin> set as \<Longrightarrow> dseg (nx(a := v)) pv q p as q' p' = dseg nx pv q p as q' p'"
  "a \<notin> set as \<Longrightarrow> dseg nx (pv(a := v)) q p as q' p' = dseg nx pv q p as q' p'"
  by (auto intro!: dseg_cong)

lemma dseg_chain: "dseg nx pv q p as q' p' \<Longrightarrow> chain nx p as p'"
  by (induction as arbitrary: q p) auto

lemma dseg_last: "dseg nx pv q p as q' p' \<Longrightarrow> q' = (if as = [] then q else Some (last as))"
  by (induction as arbitrary: q p) auto

lemma dseg_retarget:
  assumes "dseg nx pv q p as r (Some a)" and "distinct as" and "as \<noteq> []"
  shows "dseg (nx(last as := Some n)) pv q p as r n"
proof -
  obtain bs b where as: "as = bs @ [b]" using assms(3) by (metis append_butlast_last_id)
  with assms(1,2) show ?thesis by (auto simp: dseg_append)
qed

definition dll :: "next_map \<Rightarrow> next_map \<Rightarrow> addr list \<Rightarrow> addr option \<Rightarrow> bool" where
  "dll nx pv as p \<longleftrightarrow> dseg nx pv None p as (if as = [] then None else Some (last as)) None"

lemma dll_iff: "dll nx pv as p \<longleftrightarrow> (\<exists>r. dseg nx pv None p as r None)"
  using dseg_last unfolding dll_def by metis

lemma dll_chain: "dll nx pv as p \<Longrightarrow> chain nx p as None"
  unfolding dll_iff using dseg_chain by blast

lemma dll_distinct: "dll nx pv as p \<Longrightarrow> distinct as"
  by (rule chain_distinct [OF dll_chain])

lemma dll_cong:
  "(\<And>a. a \<in> set as \<Longrightarrow> nx' a = nx a \<and> pv' a = pv a) \<Longrightarrow> dll nx' pv' as p = dll nx pv as p"
  unfolding dll_def by (rule dseg_cong)

lemma dll_empty [simp]: "dll nx pv [] p \<longleftrightarrow> p = None"
  by (auto simp: dll_def)

text \<open>The neighbours of a member, as the code reads them from the member itself.\<close>

lemma dll_neighbours:
  assumes "dll nx pv (as @ a # bs) p"
  shows "pv a = Some (if as = [] then None else Some (last as))"
    and "nx a = Some (if bs = [] then None else Some (hd bs))"
  using assms dseg_last[of nx pv None p as] chain_start[OF dseg_chain]
  by (fastforce simp: dll_iff dseg_append)+

text \<open>Pushing a node at the front, and unlinking a member.\<close>

lemma dll_push:
  assumes "dll nx pv as p" and "a \<notin> set as"
  shows "dll (nx(a := Some p)) ((if as = [] then pv else pv(hd as := Some (Some a)))(a := Some None))
           (a # as) (Some a)"
  using assms dll_distinct[OF assms(1)] by (cases as) (auto simp: dll_iff)

lemma dll_unlink:
  assumes "dll nx pv (as @ a # bs) p"
  shows "dll (if as = [] then nx else nx(last as := nx a))
             (if bs = [] then pv else pv(hd bs := pv a))
             (as @ bs) (if as = [] then the (nx a) else p)"
proof -
  have d: "distinct (as @ a # bs)" by (rule dll_distinct [OF assms])
  obtain r n l where r: "dseg nx pv None p as r (Some a)" "pv a = Some r" "nx a = Some n"
      and bs: "dseg nx pv (Some a) n bs l None"
    using assms by (auto simp: dll_iff dseg_append)
  let ?nx = "if as = [] then nx else nx(last as := nx a)"
  let ?pv = "if bs = [] then pv else pv(hd bs := pv a)"
  let ?p = "if as = [] then n else p"
  have "dseg ?nx pv None ?p as r n"
    using r d dseg_retarget[of nx pv None p as r a n] by auto
  moreover have "hd bs \<notin> set as" if "bs \<noteq> []" using d that by (cases bs) auto
  ultimately have 1: "dseg ?nx ?pv None ?p as r n" by auto
  have "last as \<notin> set bs" if "as \<noteq> []" using d that by (auto dest: last_in_set)
  with bs have "dseg ?nx pv (Some a) n bs l None" by auto
  then have "\<exists>l. dseg ?nx ?pv r n bs l None"
    using r(2) d by (cases bs) (auto simp del: fun_upd_apply simp: fun_upd_same)
  with 1 have "\<exists>l. dseg ?nx ?pv None ?p (as @ bs) l None"
    unfolding dseg_append by blast
  then have "dll ?nx ?pv (as @ bs) ?p" by (simp only: dll_iff)
  with r(3) show ?thesis by (auto split: if_splits)
qed

section \<open>Search along a chain\<close>

text \<open>
  Every search loop of the program has the shape
  \<open>for (p = head; p != NULL; p = p->next) if (P(p)) return p; return NULL;\<close>.
  A loop that satisfies this equation finds the first node of the chain that satisfies
  the test, and touches live nodes only.
\<close>

locale list_search =
  fixes load :: "addr option \<Rightarrow> 's \<Rightarrow> 'n run"
    and node :: "'s \<Rightarrow> addr \<Rightarrow> 'n option"
    and nxt :: "'n \<Rightarrow> addr option"
    and test :: "'n \<Rightarrow> bool"
    and search :: "addr option \<Rightarrow> 's \<Rightarrow> addr option run"
  assumes load_live: "node s a = Some n \<Longrightarrow> load (Some a) s = ret n"
    and search_unfold: "search p s = (case p of None \<Rightarrow> ret None
          | Some a \<Rightarrow> bnd (load p s) (\<lambda>n. if test n then ret (Some a) else search (nxt n) s))"
begin

definition nexts :: "'s \<Rightarrow> next_map" where
  "nexts s a = map_option nxt (node s a)"

lemma nexts_Some: "nexts s a = Some m \<longleftrightarrow> (\<exists>n. node s a = Some n \<and> m = nxt n)"
  by (auto simp: nexts_def)

definition hit :: "'s \<Rightarrow> addr \<Rightarrow> bool" where
  "hit s a = (case node s a of None \<Rightarrow> False | Some n \<Rightarrow> test n)"

lemma hit_Some: "node s a = Some n \<Longrightarrow> hit s a = test n"
  by (simp add: hit_def)

lemma search_finds:
  "chain (nexts s) p as None \<Longrightarrow> search p s = ret (find (hit s) as)"
proof (induction as arbitrary: p)
  case Nil
  then show ?case by (simp add: search_unfold)
next
  case (Cons a as)
  then obtain n where n: "node s a = Some n" "chain (nexts s) (nxt n) as None" "p = Some a"
    by (auto simp: nexts_Some)
  with Cons.IH[of "nxt n"] show ?case
    by (subst search_unfold) (simp add: load_live hit_Some)
qed

lemma search_Some:
  assumes "chain (nexts s) p as None" and "search p s = ret (Some a)"
  shows "a \<in> set as \<and> hit s a"
  using assms by (auto simp: search_finds find_Some_iff)

lemma search_None:
  assumes "chain (nexts s) p as None" and "search p s = ret None" and "a \<in> set as"
  shows "\<not> hit s a"
  using assms by (auto simp: search_finds find_None_iff)

end

end
