(* ===== verification/UserFS.thy ===== *)
theory UserFS
  imports Linked
begin

text \<open>
  The in-memory file system of \<^verbatim>\<open>3/userfs.c\<close> and \<^verbatim>\<open>3/userfs.h\<close>, pointer by pointer: blocks and
  files live in two stores indexed by address, the descriptor table is an array of
  optional descriptors, and every function of the API takes the state and returns the new
  one. A block address is live while the block store holds it; \<open>free\<close> removes it, so an
  access through a stale pointer is the fault \<open>Dangling\<close>.

  \<^verbatim>\<open>malloc\<close> and \<^verbatim>\<open>realloc\<close> always succeed here and hand out addresses never used before
  (\<open>next_addr\<close>); the source does not check them either. Bytes of a new block are \<open>None\<close>
  until they are written. Counters that the code keeps in an \<^verbatim>\<open>int\<close> and never decrements
  below zero are naturals, and lengths stay far below \<open>2 ^ 31\<close> because a file holds at most
  \<open>MAX_FILE_SIZE\<close> bytes. A descriptor is named by its index in the table.
\<close>

section \<open>Constants and data\<close>

definition BLOCK_SIZE :: nat where
  "BLOCK_SIZE = 512"

definition MAX_FILE_SIZE :: nat where
  "MAX_FILE_SIZE = 1024 * 1024 * 1024"

type_synonym flags = "32 word"

definition UFS_CREATE :: flags where "UFS_CREATE = 1"

definition UFS_READ_ONLY :: flags where "UFS_READ_ONLY = 2"

definition UFS_WRITE_ONLY :: flags where "UFS_WRITE_ONLY = 4"

definition UFS_READ_WRITE :: flags where "UFS_READ_WRITE = 8"

datatype ufs_error_code =
    UFS_ERR_NO_ERR
  | UFS_ERR_NO_FILE
  | UFS_ERR_NO_MEM
  | UFS_ERR_NOT_IMPLEMENTED
  | UFS_ERR_NO_PERMISSION

record block =
  memory :: "char option list"
  occupied :: nat
  b_next :: "addr option"
  b_prev :: "addr option"

record ufs_file =
  block_list :: "addr option"
  last_block :: "addr option"
  refs :: int
  fname :: string
  f_next :: "addr option"
  f_prev :: "addr option"
  deleted :: bool
  num_blocks :: nat

record filedesc =
  fd_file :: addr
  block_num :: nat
  block_pos :: nat
  rw_flags :: flags
  curr_block :: "addr option"

record ufs =
  ufs_errcode :: ufs_error_code
  blocks :: "addr \<Rightarrow> block option"
  files :: "addr \<Rightarrow> ufs_file option"
  next_addr :: addr
  file_list :: "addr option"
  file_descriptors :: "filedesc option list"
  file_descriptor_count :: int
  file_descriptor_capacity :: nat

definition ufs_init :: ufs where
  "ufs_init = \<lparr>ufs_errcode = UFS_ERR_NO_ERR, blocks = Map.empty, files = Map.empty,
     next_addr = 0, file_list = None, file_descriptors = [],
     file_descriptor_count = 0, file_descriptor_capacity = 0\<rparr>"

section \<open>Loads and stores\<close>

definition load_block :: "addr option \<Rightarrow> ufs \<Rightarrow> block run" where
  "load_block p s = (case p of None \<Rightarrow> fault Null_Deref
     | Some a \<Rightarrow> (case blocks s a of None \<Rightarrow> fault Dangling | Some b \<Rightarrow> ret b))"

definition store_block :: "addr \<Rightarrow> block \<Rightarrow> ufs \<Rightarrow> ufs" where
  "store_block a b s = s\<lparr>blocks := (blocks s)(a \<mapsto> b)\<rparr>"

definition load_file :: "addr option \<Rightarrow> ufs \<Rightarrow> ufs_file run" where
  "load_file p s = (case p of None \<Rightarrow> fault Null_Deref
     | Some a \<Rightarrow> (case files s a of None \<Rightarrow> fault Dangling | Some f \<Rightarrow> ret f))"

definition store_file :: "addr \<Rightarrow> ufs_file \<Rightarrow> ufs \<Rightarrow> ufs" where
  "store_file a f s = s\<lparr>files := (files s)(a \<mapsto> f)\<rparr>"

definition load_slot :: "nat \<Rightarrow> ufs \<Rightarrow> filedesc option run" where
  "load_slot i s = (if i < length (file_descriptors s) then ret (file_descriptors s ! i)
     else fault Out_Of_Bounds)"

definition load_fd :: "nat \<Rightarrow> ufs \<Rightarrow> filedesc run" where
  "load_fd i s = bnd (load_slot i s)
     (\<lambda>d. case d of None \<Rightarrow> fault Null_Deref | Some d \<Rightarrow> ret d)"

definition store_fd :: "nat \<Rightarrow> filedesc option \<Rightarrow> ufs \<Rightarrow> ufs" where
  "store_fd i d s = s\<lparr>file_descriptors := (file_descriptors s)[i := d]\<rparr>"

definition set_err :: "ufs_error_code \<Rightarrow> ufs \<Rightarrow> ufs" where
  "set_err e s = s\<lparr>ufs_errcode := e\<rparr>"

section \<open>Blocks and files\<close>

definition new_block :: "ufs \<Rightarrow> addr \<times> ufs" where
  "new_block s = (next_addr s,
     (store_block (next_addr s)
        \<lparr>memory = replicate BLOCK_SIZE None, occupied = 0, b_next = None, b_prev = None\<rparr> s)
     \<lparr>next_addr := Suc (next_addr s)\<rparr>)"

definition new_file :: "string \<Rightarrow> ufs \<Rightarrow> addr \<times> ufs" where
  "new_file filename s = (next_addr s,
     (store_file (next_addr s)
        \<lparr>block_list = None, last_block = None, refs = 0, fname = filename, f_next = None,
         f_prev = None, deleted = False, num_blocks = 0\<rparr> s)
     \<lparr>next_addr := Suc (next_addr s)\<rparr>)"

definition unlink_file :: "addr \<Rightarrow> ufs \<Rightarrow> ufs run" where
  "unlink_file file s =
     bnd (load_file (Some file) s) (\<lambda>f.
     bnd (case f_prev f of None \<Rightarrow> ret s
          | Some p \<Rightarrow> bnd (load_file (Some p) s)
              (\<lambda>pf. ret (store_file p (pf\<lparr>f_next := f_next f\<rparr>) s))) (\<lambda>s.
     bnd (case f_next f of None \<Rightarrow> ret s
          | Some n \<Rightarrow> bnd (load_file (Some n) s)
              (\<lambda>nf. ret (store_file n (nf\<lparr>f_prev := f_prev f\<rparr>) s))) (\<lambda>s.
     ret (if file_list s = Some file then s\<lparr>file_list := f_next f\<rparr> else s))))"

partial_function (option) free_blocks :: "addr option \<Rightarrow> ufs \<Rightarrow> ufs run" where
  [code]: "free_blocks p s = (case p of None \<Rightarrow> ret s
     | Some a \<Rightarrow> bnd (load_block p s)
         (\<lambda>b. free_blocks (b_next b) (s\<lparr>blocks := (blocks s)(a := None)\<rparr>)))"

definition delete_file :: "addr \<Rightarrow> ufs \<Rightarrow> ufs run" where
  "delete_file file s =
     bnd (load_file (Some file) s) (\<lambda>f.
     bnd (free_blocks (block_list f) s) (\<lambda>s.
     ret (s\<lparr>files := (files s)(file := None)\<rparr>)))"

definition insert_file :: "addr \<Rightarrow> ufs \<Rightarrow> ufs run" where
  "insert_file file s = (case file_list s of
       None \<Rightarrow> ret (s\<lparr>file_list := Some file\<rparr>)
     | Some h \<Rightarrow>
         bnd (load_file (Some h) s) (\<lambda>hf.
         let s = store_file h (hf\<lparr>f_prev := Some file\<rparr>) s in
         bnd (load_file (Some file) s) (\<lambda>f.
         let s = store_file file (f\<lparr>f_next := file_list s\<rparr>) s in
         ret (s\<lparr>file_list := Some file\<rparr>))))"

definition increase_file :: "addr \<Rightarrow> ufs \<Rightarrow> (addr \<times> ufs) run" where
  "increase_file file s = (let (block, s) = new_block s in
     bnd (load_file (Some file) s) (\<lambda>f.
     bnd (case block_list f of
            None \<Rightarrow> ret (store_file file (f\<lparr>block_list := Some block, last_block := Some block\<rparr>) s)
          | Some _ \<Rightarrow>
              bnd (load_block (last_block f) s) (\<lambda>l.
              let s = store_block (the (last_block f)) (l\<lparr>b_next := Some block\<rparr>) s in
              bnd (load_block (Some block) s) (\<lambda>b.
              let s = store_block block (b\<lparr>b_prev := last_block f\<rparr>) s in
              ret (store_file file (f\<lparr>last_block := Some block\<rparr>) s)))) (\<lambda>s.
     bnd (load_file (Some file) s) (\<lambda>f.
     ret (block, store_file file (f\<lparr>num_blocks := num_blocks f + 1\<rparr>) s)))))"

section \<open>Descriptors\<close>

definition new_fd :: "addr \<Rightarrow> flags \<Rightarrow> ufs \<Rightarrow> (filedesc \<times> ufs) run" where
  "new_fd file flags s =
     bnd (load_file (Some file) s) (\<lambda>f.
     ret (\<lparr>fd_file = file, block_num = 0, block_pos = 0, rw_flags = flags, curr_block = None\<rparr>,
          store_file file (f\<lparr>refs := refs f + 1\<rparr>) s))"

fun first_null :: "filedesc option list \<Rightarrow> nat \<Rightarrow> nat option" where
  "first_null [] i = None"
| "first_null (d # ds) i = (if d = None then Some i else first_null ds (Suc i))"

definition insert_fd :: "filedesc \<Rightarrow> ufs \<Rightarrow> int \<times> ufs" where
  "insert_fd fd s =
     (let s = (if file_descriptor_count s = int (file_descriptor_capacity s)
         then let new_capacity = (file_descriptor_capacity s + 1) * 2 in
           s\<lparr>file_descriptors := take (file_descriptor_capacity s) (file_descriptors s)
               @ replicate (new_capacity - file_descriptor_capacity s) None,
             file_descriptor_capacity := new_capacity\<rparr>
         else s)
      in case first_null (take (file_descriptor_capacity s) (file_descriptors s)) 0 of
           Some i \<Rightarrow> (int i, (store_fd i (Some fd) s)
               \<lparr>file_descriptor_count := file_descriptor_count s + 1\<rparr>)
         | None \<Rightarrow> (- 1, s))"

definition delete_fd :: "nat \<Rightarrow> ufs \<Rightarrow> ufs run" where
  "delete_fd fd s =
     bnd (load_fd fd s) (\<lambda>d. let file = fd_file d in
     bnd (load_file (Some file) s) (\<lambda>f.
     let f = f\<lparr>refs := refs f - 1\<rparr>; s = store_file file f s in
     bnd (if refs f = 0 \<and> deleted f then delete_file file s else ret s) (\<lambda>s.
     ret ((store_fd fd None s)\<lparr>file_descriptor_count := file_descriptor_count s - 1\<rparr>))))"

definition ufs_errno :: "ufs \<Rightarrow> ufs_error_code" where
  "ufs_errno s = ufs_errcode s"

text \<open>The descriptor structure of a 1-based identifier, as its index in the table.\<close>

definition ufs_get_fd :: "int \<Rightarrow> ufs \<Rightarrow> nat option run" where
  "ufs_get_fd fd s = (let fd = fd - 1 in
     if fd \<ge> int (file_descriptor_capacity s) \<or> fd < 0 then ret None
     else bnd (load_slot (nat fd) s) (\<lambda>d.
       ret (if d = None then None else Some (nat fd))))"

section \<open>The file system calls\<close>

unbundle bit_operations_syntax

text \<open>The search loop of \<^verbatim>\<open>ufs_open\<close> and \<^verbatim>\<open>ufs_delete\<close> along the list of files.\<close>

partial_function (option) find_file ::
    "string \<Rightarrow> addr option \<Rightarrow> ufs \<Rightarrow> addr option run" where
  [code]: "find_file filename p s = (case p of None \<Rightarrow> ret None
     | Some a \<Rightarrow> bnd (load_file p s) (\<lambda>f.
         if fname f = filename then ret (Some a) else find_file filename (f_next f) s))"

definition ufs_open :: "string \<Rightarrow> flags \<Rightarrow> ufs \<Rightarrow> (int \<times> ufs) run" where
  "ufs_open filename flags s =
     (let is_create = flags AND UFS_CREATE;
          fd_flags = flags AND (UFS_READ_ONLY OR UFS_WRITE_ONLY OR UFS_READ_WRITE);
          fd_flags = (if fd_flags = 0 then UFS_READ_WRITE else fd_flags)
      in bnd (find_file filename (file_list s) s) (\<lambda>found.
         case found of
           Some file \<Rightarrow>
             bnd (new_fd file fd_flags (set_err UFS_ERR_NO_ERR s)) (\<lambda>(d, s).
             let (i, s) = insert_fd d s in ret (i + 1, s))
         | None \<Rightarrow>
             if is_create \<noteq> 0 then
               let (file, s) = new_file filename s in
               bnd (insert_file file s) (\<lambda>s.
               bnd (new_fd file fd_flags s) (\<lambda>(d, s).
               let (i, s) = insert_fd d (set_err UFS_ERR_NO_ERR s) in ret (i + 1, s)))
             else ret (- 1, set_err UFS_ERR_NO_FILE s)))"

text \<open>
  One pass of the loop of \<^verbatim>\<open>ufs_write\<close>: \<open>write_advance\<close> moves a descriptor at the end of its
  block to the next one, \<open>write_chunk\<close> copies as much as fits and returns how much it
  copied. The C code computes \<^verbatim>\<open>free_b\<close> as an \<^verbatim>\<open>int\<close> and compares it with a \<^verbatim>\<open>size_t\<close>.
\<close>

definition write_advance :: "nat \<Rightarrow> ufs \<Rightarrow> ufs run" where
  "write_advance i s =
     bnd (load_fd i s) (\<lambda>d.
     if block_pos d = BLOCK_SIZE then
       bnd (load_block (curr_block d) s) (\<lambda>b.
       bnd (if b_next b = None then bnd (increase_file (fd_file d) s) (\<lambda>(_, s). ret s)
            else ret s) (\<lambda>s.
       bnd (load_block (curr_block d) s) (\<lambda>b.
       ret (store_fd i (Some (d\<lparr>block_pos := 0, block_num := block_num d + 1,
              curr_block := b_next b\<rparr>)) s))))
     else ret s)"

definition write_chunk :: "nat \<Rightarrow> char list \<Rightarrow> ufs \<Rightarrow> (nat \<times> ufs) run" where
  "write_chunk i buf s =
     bnd (load_fd i s) (\<lambda>d.
     bnd (load_block (curr_block d) s) (\<lambda>b.
     let free_b = int BLOCK_SIZE - int (occupied b);
         sz = length buf;
         b_to_write = (if sz > size_t_of_int free_b then size_t_of_int free_b else sz)
     in if block_pos d + b_to_write > length (memory b) then fault Out_Of_Bounds
        else
          let b = b\<lparr>memory := blit (memory b) (block_pos d) (map Some (take b_to_write buf))\<rparr>;
              d = d\<lparr>block_pos := block_pos d + b_to_write\<rparr>;
              b = (if block_pos d > occupied b then b\<lparr>occupied := block_pos d\<rparr> else b)
          in ret (b_to_write, store_fd i (Some d) (store_block (the (curr_block d)) b s))))"

partial_function (option) write_loop :: "nat \<Rightarrow> char list \<Rightarrow> nat \<Rightarrow> ufs \<Rightarrow> (nat \<times> ufs) run" where
  [code]: "write_loop i buf b_written s =
     (if buf = [] then ret (b_written, s)
      else bnd (write_advance i s) (\<lambda>s.
           bnd (write_chunk i buf s) (\<lambda>(n, s).
           write_loop i (drop n buf) (b_written + n) s)))"

definition fd_curr_size :: "filedesc \<Rightarrow> nat" where
  "fd_curr_size d = (if block_num d = 0 then 0
     else (block_num d - 1) * BLOCK_SIZE + block_pos d)"

definition write_start :: "nat \<Rightarrow> ufs \<Rightarrow> ufs run" where
  "write_start i s =
     bnd (load_fd i s) (\<lambda>d.
     if curr_block d = None then
       bnd (load_file (Some (fd_file d)) s) (\<lambda>f.
       bnd (case block_list f of
              Some b \<Rightarrow> ret (Some b, s)
            | None \<Rightarrow> bnd (increase_file (fd_file d) s) (\<lambda>(b, s). ret (Some b, s))) (\<lambda>(cb, s).
       ret (store_fd i (Some (d\<lparr>curr_block := cb, block_num := 1\<rparr>)) s)))
     else ret s)"

definition ufs_write :: "int \<Rightarrow> char list \<Rightarrow> ufs \<Rightarrow> (int \<times> ufs) run" where
  "ufs_write fd buf s =
     bnd (ufs_get_fd fd s) (\<lambda>filedesc.
     case filedesc of
       None \<Rightarrow> ret (- 1, set_err UFS_ERR_NO_FILE s)
     | Some i \<Rightarrow>
         bnd (load_fd i s) (\<lambda>d.
         if rw_flags d AND (UFS_WRITE_ONLY OR UFS_READ_WRITE) = 0
         then ret (- 1, set_err UFS_ERR_NO_PERMISSION s)
         else if size_t_add (fd_curr_size d) (length buf) > MAX_FILE_SIZE
         then ret (- 1, set_err UFS_ERR_NO_MEM s)
         else
           bnd (write_start i s) (\<lambda>s.
           bnd (write_loop i buf 0 s) (\<lambda>(b_written, s).
           ret (int b_written, set_err UFS_ERR_NO_ERR s)))))"

text \<open>
  The loop of \<^verbatim>\<open>ufs_read\<close> returns the bytes it copied; the flag says whether it left through
  one of the two early returns (the second of which does not touch the error code).
\<close>

definition read_chunk :: "nat \<Rightarrow> nat \<Rightarrow> ufs \<Rightarrow> (char option list \<times> ufs) run" where
  "read_chunk i sz s =
     bnd (load_fd i s) (\<lambda>d.
     bnd (load_block (curr_block d) s) (\<lambda>b.
     let free_b = int (occupied b) - int (block_pos d);
         b_to_read = (if sz > size_t_of_int free_b then size_t_of_int free_b else sz)
     in if block_pos d + b_to_read > length (memory b) then fault Out_Of_Bounds
        else ret (take b_to_read (drop (block_pos d) (memory b)),
                  store_fd i (Some (d\<lparr>block_pos := block_pos d + b_to_read\<rparr>)) s)))"

definition read_advance :: "nat \<Rightarrow> ufs \<Rightarrow> (bool \<times> ufs) run" where
  "read_advance i s =
     bnd (load_fd i s) (\<lambda>d.
     if block_pos d = BLOCK_SIZE then
       bnd (load_block (curr_block d) s) (\<lambda>b.
       if b_next b = None then ret (False, set_err UFS_ERR_NO_ERR s)
       else ret (True, store_fd i (Some (d\<lparr>block_pos := 0, block_num := block_num d + 1,
              curr_block := b_next b\<rparr>)) s))
     else ret (True, s))"

partial_function (option) read_loop ::
    "nat \<Rightarrow> nat \<Rightarrow> char option list \<Rightarrow> ufs \<Rightarrow> (char option list \<times> ufs) run" where
  [code]: "read_loop i sz acc s =
     (if sz = 0 then ret (acc, set_err UFS_ERR_NO_ERR s)
      else bnd (read_advance i s) (\<lambda>(go, s).
        if \<not> go then ret (acc, s)
        else
          bnd (load_fd i s) (\<lambda>d.
          bnd (load_block (curr_block d) s) (\<lambda>b.
          if block_pos d = occupied b then ret (acc, s)
          else bnd (read_chunk i sz s) (\<lambda>(xs, s).
               read_loop i (sz - length xs) (acc @ xs) s)))))"

definition read_start :: "nat \<Rightarrow> ufs \<Rightarrow> (bool \<times> ufs) run" where
  "read_start i s =
     bnd (load_fd i s) (\<lambda>d.
     if curr_block d = None then
       bnd (load_file (Some (fd_file d)) s) (\<lambda>f.
       if block_list f = None then ret (False, set_err UFS_ERR_NO_ERR s)
       else ret (True, store_fd i (Some (d\<lparr>curr_block := block_list f, block_num := 1\<rparr>)) s))
     else ret (True, s))"

text \<open>The result of \<^verbatim>\<open>ufs_read\<close> is the return value and what was copied into the buffer.\<close>

definition ufs_read :: "int \<Rightarrow> nat \<Rightarrow> ufs \<Rightarrow> (int \<times> char option list \<times> ufs) run" where
  "ufs_read fd sz s =
     bnd (ufs_get_fd fd s) (\<lambda>filedesc.
     case filedesc of
       None \<Rightarrow> ret (- 1, [], set_err UFS_ERR_NO_FILE s)
     | Some i \<Rightarrow>
         bnd (load_fd i s) (\<lambda>d.
         if rw_flags d AND (UFS_READ_ONLY OR UFS_READ_WRITE) = 0
         then ret (- 1, [], set_err UFS_ERR_NO_PERMISSION s)
         else
           bnd (read_start i s) (\<lambda>(go, s).
           if \<not> go then ret (0, [], s)
           else bnd (read_loop i sz [] s) (\<lambda>(xs, s). ret (int (length xs), xs, s)))))"

definition ufs_close :: "int \<Rightarrow> ufs \<Rightarrow> (int \<times> ufs) run" where
  "ufs_close fd s =
     bnd (ufs_get_fd fd s) (\<lambda>filedesc.
     case filedesc of
       None \<Rightarrow> ret (- 1, set_err UFS_ERR_NO_FILE s)
     | Some i \<Rightarrow> bnd (delete_fd i s) (\<lambda>s. ret (0, set_err UFS_ERR_NO_ERR s)))"

definition ufs_delete :: "string \<Rightarrow> ufs \<Rightarrow> (int \<times> ufs) run" where
  "ufs_delete filename s =
     bnd (find_file filename (file_list s) s) (\<lambda>found.
     case found of
       None \<Rightarrow> ret (- 1, set_err UFS_ERR_NO_FILE s)
     | Some file \<Rightarrow>
         bnd (unlink_file file s) (\<lambda>s.
         bnd (load_file (Some file) s) (\<lambda>f.
         let f = f\<lparr>deleted := True\<rparr>; s = store_file file f s in
         bnd (if refs f = 0 then delete_file file s else ret s) (\<lambda>s.
         ret (0, set_err UFS_ERR_NO_ERR s)))))"

section \<open>Resizing\<close>

fun walk_blocks :: "nat \<Rightarrow> addr option \<Rightarrow> ufs \<Rightarrow> addr option run" where
  "walk_blocks 0 p s = ret p"
| "walk_blocks (Suc n) p s = bnd (load_block p s) (\<lambda>b. walk_blocks n (b_next b) s)"

partial_function (option) grow_file :: "addr \<Rightarrow> nat \<Rightarrow> ufs \<Rightarrow> ufs run" where
  [code]: "grow_file file new_num_blocks s =
     bnd (load_file (Some file) s) (\<lambda>f.
     if num_blocks f < new_num_blocks
     then bnd (increase_file file s) (\<lambda>(_, s). grow_file file new_num_blocks s)
     else ret s)"

text \<open>The adjustment of one descriptor of the resized file (\<open>occ\<close> is the occupied count of
  its new last block).\<close>

definition clamp_fd :: "addr \<Rightarrow> ufs_file \<Rightarrow> nat \<Rightarrow> filedesc option \<Rightarrow> filedesc option" where
  "clamp_fd file f occ slot = (case slot of None \<Rightarrow> None
     | Some d \<Rightarrow> if fd_file d = file \<and> block_num d \<ge> num_blocks f
         then Some (d\<lparr>block_num := num_blocks f, curr_block := last_block f,
                     block_pos := (if last_block f = None then 0 else occ)\<rparr>)
         else Some d)"

definition file_old_size :: "ufs_file \<Rightarrow> ufs \<Rightarrow> nat run" where
  "file_old_size f s = (if num_blocks f = 0 then ret 0
     else bnd (load_block (last_block f) s)
       (\<lambda>l. ret ((num_blocks f - 1) * BLOCK_SIZE + occupied l)))"

definition shrink_file :: "addr \<Rightarrow> nat \<Rightarrow> nat \<Rightarrow> ufs \<Rightarrow> ufs run" where
  "shrink_file file new_num_blocks new_block_pos s =
     bnd (load_file (Some file) s) (\<lambda>f.
     bnd (walk_blocks (new_num_blocks - 1)
            (if new_num_blocks > 0 then block_list f else None) s) (\<lambda>new_last_block.
     bnd (load_block new_last_block s) (\<lambda>l.
     bnd (free_blocks (b_next l) s) (\<lambda>s.
     let f = f\<lparr>last_block := new_last_block, num_blocks := new_num_blocks\<rparr> in
     bnd (case new_last_block of
            None \<Rightarrow> ret (store_file file (f\<lparr>block_list := None\<rparr>) s)
          | Some a \<Rightarrow> bnd (load_block new_last_block s) (\<lambda>l.
              ret (store_block a (l\<lparr>occupied := new_block_pos, b_next := None\<rparr>)
                     (store_file file f s)))) (\<lambda>s.
     ret (s\<lparr>file_descriptors := map (clamp_fd file f new_block_pos)
               (file_descriptors s)\<rparr>))))))"

definition ufs_resize :: "int \<Rightarrow> nat \<Rightarrow> ufs \<Rightarrow> (int \<times> ufs) run" where
  "ufs_resize fd new_size s =
     bnd (ufs_get_fd fd s) (\<lambda>filedesc.
     case filedesc of
       None \<Rightarrow> ret (- 1, set_err UFS_ERR_NO_FILE s)
     | Some i \<Rightarrow>
         if new_size > MAX_FILE_SIZE then ret (- 1, set_err UFS_ERR_NO_MEM s)
         else
           bnd (load_fd i s) (\<lambda>d. let file = fd_file d in
           bnd (load_file (Some file) s) (\<lambda>f.
           bnd (file_old_size f s) (\<lambda>old_size.
           let new_num_blocks = new_size div BLOCK_SIZE + 1;
               new_block_pos = new_size mod BLOCK_SIZE;
               (new_num_blocks, new_block_pos) =
                 (if new_block_pos = 0 then (new_num_blocks - 1, 512)
                  else (new_num_blocks, new_block_pos))
           in if new_size \<ge> old_size
              then bnd (grow_file file new_num_blocks s)
                     (\<lambda>s. ret (0, set_err UFS_ERR_NO_ERR s))
              else bnd (shrink_file file new_num_blocks new_block_pos s)
                     (\<lambda>s. ret (0, set_err UFS_ERR_NO_ERR s))))))"

end
