(* ===== verification/UserFS_Inv.thy ===== *)
theory UserFS_Inv
  imports UserFS
begin

text \<open>
  The well-formedness invariant of the file system state and the proof that every call keeps
  it. The invariant is stated with two ghosts: \<open>B\<close> gives the block addresses of each live
  file, \<open>L\<close> the addresses of the files on the global list. It says that the linked
  structures are sound (no sharing, no leak, no stale pointer), that the reference counts
  are exact, and that each descriptor points into its file.
\<close>

section \<open>The invariant\<close>

definition block_next :: "ufs \<Rightarrow> next_map" where
  "block_next s a = map_option b_next (blocks s a)"

definition file_next :: "ufs \<Rightarrow> next_map" where
  "file_next s a = map_option f_next (files s a)"

definition file_prev :: "ufs \<Rightarrow> next_map" where
  "file_prev s a = map_option f_prev (files s a)"

lemma next_Some:
  "block_next s a = Some m \<longleftrightarrow> (\<exists>b. blocks s a = Some b \<and> m = b_next b)"
  "file_next s a = Some m \<longleftrightarrow> (\<exists>f. files s a = Some f \<and> m = f_next f)"
  "file_prev s a = Some m \<longleftrightarrow> (\<exists>f. files s a = Some f \<and> m = f_prev f)"
  by (auto simp: block_next_def file_next_def file_prev_def)

definition blocks_ok :: "ufs \<Rightarrow> bool" where
  "blocks_ok s \<longleftrightarrow> (\<forall>a b. blocks s a = Some b \<longrightarrow>
     length (memory b) = BLOCK_SIZE \<and> occupied b \<le> BLOCK_SIZE)"

definition file_ok :: "ufs \<Rightarrow> ufs_file \<Rightarrow> addr list \<Rightarrow> bool" where
  "file_ok s f as \<longleftrightarrow> chain (block_next s) (block_list f) as None \<and>
     last_block f = (if as = [] then None else Some (last as)) \<and> num_blocks f = length as"

definition files_ok :: "ufs \<Rightarrow> (addr \<Rightarrow> addr list) \<Rightarrow> bool" where
  "files_ok s B \<longleftrightarrow> (\<forall>fa f. files s fa = Some f \<longrightarrow> file_ok s f (B fa))"

definition owners_ok :: "ufs \<Rightarrow> (addr \<Rightarrow> addr list) \<Rightarrow> bool" where
  "owners_ok s B \<longleftrightarrow>
     (\<forall>fa ga. fa \<in> dom (files s) \<longrightarrow> ga \<in> dom (files s) \<longrightarrow> fa \<noteq> ga \<longrightarrow>
        set (B fa) \<inter> set (B ga) = {}) \<and>
     dom (blocks s) = (\<Union>fa \<in> dom (files s). set (B fa))"

definition list_ok :: "ufs \<Rightarrow> addr list \<Rightarrow> bool" where
  "list_ok s L \<longleftrightarrow> dll (file_next s) (file_prev s) L (file_list s) \<and>
     (\<forall>fa f. files s fa = Some f \<longrightarrow> (fa \<in> set L) = (\<not> deleted f)) \<and>
     (\<forall>fa ga f g. fa \<in> set L \<longrightarrow> ga \<in> set L \<longrightarrow> files s fa = Some f \<longrightarrow> files s ga = Some g \<longrightarrow>
        fname f = fname g \<longrightarrow> fa = ga)"

definition opens :: "addr \<Rightarrow> filedesc option \<Rightarrow> bool" where
  "opens fa slot \<longleftrightarrow> (case slot of None \<Rightarrow> False | Some d \<Rightarrow> fd_file d = fa)"

definition refs_ok :: "ufs \<Rightarrow> bool" where
  "refs_ok s \<longleftrightarrow> (\<forall>fa f. files s fa = Some f \<longrightarrow>
     refs f = int (length (filter (opens fa) (file_descriptors s))))"

text \<open>A file that has been deleted is kept only while somebody still has it open.\<close>

definition ghosts_ok :: "ufs \<Rightarrow> bool" where
  "ghosts_ok s \<longleftrightarrow> (\<forall>fa f. files s fa = Some f \<longrightarrow> deleted f \<longrightarrow> 0 < refs f)"

definition table_ok :: "ufs \<Rightarrow> bool" where
  "table_ok s \<longleftrightarrow> length (file_descriptors s) = file_descriptor_capacity s \<and>
     file_descriptor_count s = int (length (filter (\<lambda>d. d \<noteq> None) (file_descriptors s)))"

definition pos_ok :: "ufs \<Rightarrow> addr list \<Rightarrow> filedesc \<Rightarrow> bool" where
  "pos_ok s as d \<longleftrightarrow>
     (if curr_block d = None then block_num d = 0 \<and> block_pos d = 0
      else 0 < block_num d \<and> block_num d \<le> length as \<and>
        curr_block d = Some (as ! (block_num d - 1)) \<and>
        (\<exists>b. blocks s (as ! (block_num d - 1)) = Some b \<and> block_pos d \<le> occupied b))"

definition fds_ok :: "ufs \<Rightarrow> (addr \<Rightarrow> addr list) \<Rightarrow> bool" where
  "fds_ok s B \<longleftrightarrow> (\<forall>d. Some d \<in> set (file_descriptors s) \<longrightarrow>
     fd_file d \<in> dom (files s) \<and> pos_ok s (B (fd_file d)) d)"

definition addrs_ok :: "ufs \<Rightarrow> bool" where
  "addrs_ok s \<longleftrightarrow> (\<forall>a. a \<in> dom (blocks s) \<union> dom (files s) \<longrightarrow> a < next_addr s)"

definition ufs_inv :: "(addr \<Rightarrow> addr list) \<Rightarrow> addr list \<Rightarrow> ufs \<Rightarrow> bool" where
  "ufs_inv B L s \<longleftrightarrow> blocks_ok s \<and> files_ok s B \<and> owners_ok s B \<and> list_ok s L \<and>
     refs_ok s \<and> table_ok s \<and> fds_ok s B \<and> addrs_ok s"

definition ufs_ok :: "ufs \<Rightarrow> bool" where
  "ufs_ok s \<longleftrightarrow> (\<exists>B L. ufs_inv B L s) \<and> ghosts_ok s"

lemmas inv_defs = blocks_ok_def files_ok_def file_ok_def owners_ok_def list_ok_def refs_ok_def
  table_ok_def fds_ok_def addrs_ok_def

lemma ufs_invI:
  "blocks_ok s \<Longrightarrow> files_ok s B \<Longrightarrow> owners_ok s B \<Longrightarrow> list_ok s L \<Longrightarrow> refs_ok s \<Longrightarrow>
     table_ok s \<Longrightarrow> fds_ok s B \<Longrightarrow> addrs_ok s \<Longrightarrow> ufs_inv B L s"
  by (simp add: ufs_inv_def)

lemma ufs_invD:
  assumes "ufs_inv B L s"
  shows "blocks_ok s" "files_ok s B" "owners_ok s B" "list_ok s L" "refs_ok s" "table_ok s"
    "fds_ok s B" "addrs_ok s"
  using assms by (simp_all add: ufs_inv_def)

lemma BLOCK_SIZE_pos [simp]: "0 < BLOCK_SIZE"
  by (simp add: BLOCK_SIZE_def)

lemma ufs_init_inv: "ufs_inv (\<lambda>_. []) [] ufs_init"
  by (simp add: ufs_inv_def inv_defs ufs_init_def)

lemma ufs_init_ok: "ufs_ok ufs_init"
  using ufs_init_inv by (auto simp: ufs_ok_def ghosts_ok_def ufs_init_def)

section \<open>Loads, stores and frames\<close>

lemma load_simps [simp]:
  "blocks s a = Some b \<Longrightarrow> load_block (Some a) s = ret b"
  "files s a = Some f \<Longrightarrow> load_file (Some a) s = ret f"
  "i < length (file_descriptors s) \<Longrightarrow> load_slot i s = ret (file_descriptors s ! i)"
  by (simp_all add: load_block_def load_file_def load_slot_def)

lemma load_fd_live [simp]:
  "i < length (file_descriptors s) \<Longrightarrow> file_descriptors s ! i = Some d \<Longrightarrow> load_fd i s = ret d"
  by (simp add: load_fd_def)

lemma store_simps [simp]:
  "blocks (store_block a b s) = (blocks s)(a \<mapsto> b)"
  "files (store_block a b s) = files s"
  "file_descriptors (store_block a b s) = file_descriptors s"
  "blocks (store_file a f s) = blocks s"
  "files (store_file a f s) = (files s)(a \<mapsto> f)"
  "file_descriptors (store_file a f s) = file_descriptors s"
  "blocks (store_fd i d s) = blocks s"
  "files (store_fd i d s) = files s"
  "file_descriptors (store_fd i d s) = (file_descriptors s)[i := d]"
  "blocks (set_err e s) = blocks s"
  "files (set_err e s) = files s"
  "file_descriptors (set_err e s) = file_descriptors s"
  "next_addr (store_block a b s) = next_addr s"
  "next_addr (store_file a f s) = next_addr s"
  "next_addr (store_fd i d s) = next_addr s"
  "next_addr (set_err e s) = next_addr s"
  "file_list (store_block a b s) = file_list s"
  "file_list (store_file a f s) = file_list s"
  "file_list (store_fd i d s) = file_list s"
  "file_list (set_err e s) = file_list s"
  "file_descriptor_count (store_block a b s) = file_descriptor_count s"
  "file_descriptor_count (store_file a f s) = file_descriptor_count s"
  "file_descriptor_count (store_fd i d s) = file_descriptor_count s"
  "file_descriptor_count (set_err e s) = file_descriptor_count s"
  "file_descriptor_capacity (store_block a b s) = file_descriptor_capacity s"
  "file_descriptor_capacity (store_file a f s) = file_descriptor_capacity s"
  "file_descriptor_capacity (store_fd i d s) = file_descriptor_capacity s"
  "file_descriptor_capacity (set_err e s) = file_descriptor_capacity s"
  "ufs_errcode (set_err e s) = e"
  by (simp_all add: store_block_def store_file_def store_fd_def set_err_def)

lemma next_maps_simps [simp]:
  "block_next (store_file a f s) = block_next s"
  "block_next (store_fd i d s) = block_next s"
  "block_next (set_err e s) = block_next s"
  "file_next (store_block a b s) = file_next s"
  "file_next (store_fd i d s) = file_next s"
  "file_next (set_err e s) = file_next s"
  "file_prev (store_block a b s) = file_prev s"
  "file_prev (store_fd i d s) = file_prev s"
  "file_prev (set_err e s) = file_prev s"
  "block_next (store_block a b s) = (block_next s)(a := Some (b_next b))"
  "file_next (store_file a f s) = (file_next s)(a := Some (f_next f))"
  "file_prev (store_file a f s) = (file_prev s)(a := Some (f_prev f))"
  by (auto simp: block_next_def file_next_def file_prev_def)

lemma set_err_inv [simp]: "ufs_inv B L (set_err e s) = ufs_inv B L s"
proof -
  have "block_next (set_err e s) = block_next s" "file_next (set_err e s) = file_next s"
    "file_prev (set_err e s) = file_prev s"
    by (auto simp: block_next_def file_next_def file_prev_def)
  then show ?thesis by (simp add: ufs_inv_def inv_defs pos_ok_def)
qed

lemma set_err_ghosts [simp]: "ghosts_ok (set_err e s) = ghosts_ok s"
  by (simp add: ghosts_ok_def)

text \<open>What the invariant says of one live file and one descriptor.\<close>

lemma inv_file:
  assumes "ufs_inv B L s" and "files s fa = Some f"
  shows "chain (block_next s) (block_list f) (B fa) None"
    and "last_block f = (if B fa = [] then None else Some (last (B fa)))"
    and "num_blocks f = length (B fa)" and "distinct (B fa)"
    and "block_list f = (if B fa = [] then None else Some (hd (B fa)))"
proof -
  have f: "file_ok s f (B fa)"
    using ufs_invD(2)[OF assms(1)] assms(2) by (simp add: files_ok_def)
  then show c: "chain (block_next s) (block_list f) (B fa) None"
    and "last_block f = (if B fa = [] then None else Some (last (B fa)))"
    and "num_blocks f = length (B fa)"
    by (simp_all add: file_ok_def)
  from c show "distinct (B fa)" by (rule chain_distinct)
  from c show "block_list f = (if B fa = [] then None else Some (hd (B fa)))"
    by (rule chain_start)
qed

lemma inv_block:
  assumes "ufs_inv B L s" and "files s fa = Some f" and "a \<in> set (B fa)"
  shows "\<exists>b. blocks s a = Some b \<and> length (memory b) = BLOCK_SIZE \<and> occupied b \<le> BLOCK_SIZE"
proof -
  have "a \<in> dom (blocks s)"
    using ufs_invD(3)[OF assms(1)] assms(2,3) by (auto simp: owners_ok_def)
  then show ?thesis using ufs_invD(1)[OF assms(1)] by (auto simp: blocks_ok_def)
qed

lemma inv_fd:
  assumes "ufs_inv B L s" and "i < length (file_descriptors s)"
    and "file_descriptors s ! i = Some d"
  shows "\<exists>f. files s (fd_file d) = Some f" and "pos_ok s (B (fd_file d)) d"
proof -
  have "Some d \<in> set (file_descriptors s)" using assms(2,3) by (metis nth_mem)
  then show "\<exists>f. files s (fd_file d) = Some f" and "pos_ok s (B (fd_file d)) d"
    using ufs_invD(7)[OF assms(1)] by (auto simp: fds_ok_def)
qed

lemma inv_fresh:
  assumes "ufs_inv B L s"
  shows "blocks s (next_addr s) = None" and "files s (next_addr s) = None"
    and "\<And>fa f. files s fa = Some f \<Longrightarrow> next_addr s \<notin> set (B fa)"
proof -
  have a: "\<And>a. a \<in> dom (blocks s) \<union> dom (files s) \<Longrightarrow> a < next_addr s"
    using ufs_invD(8)[OF assms] unfolding addrs_ok_def by blast
  then show b: "blocks s (next_addr s) = None" and "files s (next_addr s) = None"
    by (metis Un_iff domIff less_irrefl)+
  show "next_addr s \<notin> set (B fa)" if "files s fa = Some f" for fa f
    using inv_block[OF assms that] b by fastforce
qed

lemma pos_ok_cases:
  assumes "pos_ok s as d"
  obtains (fresh) "curr_block d = None" "block_num d = 0" "block_pos d = 0"
  | (at) b where "curr_block d = Some (as ! (block_num d - 1))" "0 < block_num d"
      "block_num d \<le> length as" "blocks s (as ! (block_num d - 1)) = Some b"
      "block_pos d \<le> occupied b"
proof (cases "curr_block d = None")
  case True
  with assms fresh show ?thesis by (simp add: pos_ok_def)
next
  case False
  with assms at show ?thesis unfolding pos_ok_def by metis
qed

lemma pos_ok_mono:
  assumes "pos_ok s as d"
    and "\<And>a b. a \<in> set as \<Longrightarrow> blocks s a = Some b \<Longrightarrow>
           \<exists>b'. blocks s' a = Some b' \<and> occupied b \<le> occupied b'"
  shows "pos_ok s' (as @ bs) d"
  using assms(1)
proof (cases rule: pos_ok_cases)
  case fresh
  then show ?thesis by (simp add: pos_ok_def)
next
  case (at b)
  then have "block_num d - 1 < length as" by arith
  moreover from this obtain b' where "blocks s' (as ! (block_num d - 1)) = Some b'"
    "occupied b \<le> occupied b'"
    using assms(2) at(4) nth_mem by meson
  ultimately show ?thesis using at by (auto simp: pos_ok_def nth_append)
qed

end
