(* ===== verification/UserFS_Ops.thy ===== *)
theory UserFS_Ops
  imports UserFS_Inv
begin

text \<open>
  What the internal operations of the file system do, as equations under the invariant:
  growing a file, creating, linking and unlinking a file, freeing it, and the descriptor
  table. Each lemma names the state the operation returns and the ghosts of its invariant.
\<close>

section \<open>Growing a file by one block\<close>

definition grown :: "addr \<Rightarrow> ufs_file \<Rightarrow> ufs \<Rightarrow> ufs" where
  "grown fa f s = (let n = next_addr s in
     s\<lparr>blocks := (case last_block f of None \<Rightarrow> blocks s
          | Some l \<Rightarrow> (blocks s)(l \<mapsto> (the (blocks s l))\<lparr>b_next := Some n\<rparr>))
          (n \<mapsto> \<lparr>memory = replicate BLOCK_SIZE None, occupied = 0, b_next = None,
                 b_prev = last_block f\<rparr>),
       files := (files s)(fa \<mapsto> f\<lparr>block_list := (if block_list f = None then Some n else block_list f),
                 last_block := Some n, num_blocks := num_blocks f + 1\<rparr>),
       next_addr := Suc n\<rparr>)"

lemma increase_file_eq:
  assumes inv: "ufs_inv B L s" and f: "files s fa = Some f"
  shows "increase_file fa s = ret (next_addr s, grown fa f s)"
proof (cases "B fa")
  case Nil
  then have "block_list f = None" "last_block f = None" "num_blocks f = 0"
    using inv_file[OF inv f] by simp_all
  with f show ?thesis
    by (simp add: increase_file_def new_block_def load_file_def store_block_def store_file_def
        grown_def Let_def)
next
  case (Cons a as)
  then have l: "block_list f = Some a" "last_block f = Some (last (B fa))"
    using inv_file[OF inv f] by simp_all
  have "last (B fa) \<in> set (B fa)" using Cons by simp
  then obtain b where b: "blocks s (last (B fa)) = Some b" using inv_block[OF inv f] by blast
  then have "last (B fa) \<noteq> next_addr s" using inv_fresh[OF inv] by auto
  with b l f show ?thesis
    by (simp add: increase_file_def new_block_def load_file_def load_block_def store_block_def
        store_file_def grown_def Let_def fun_upd_twist)
      (auto intro!: ufs.equality ufs_file.equality)
qed

lemma grown_blocks:
  assumes inv: "ufs_inv B L s" and f: "files s fa = Some f"
  shows "blocks s a = Some b \<Longrightarrow>
      \<exists>b'. blocks (grown fa f s) a = Some b' \<and> memory b' = memory b \<and> occupied b' = occupied b"
    and "\<exists>b. blocks (grown fa f s) (next_addr s) = Some b \<and>
      memory b = replicate BLOCK_SIZE None \<and> occupied b = 0"
    and "dom (blocks (grown fa f s)) = insert (next_addr s) (dom (blocks s))"
proof -
  have n: "blocks s (next_addr s) = None" by (rule inv_fresh [OF inv])
  have l: "\<exists>b. blocks s l = Some b" if "last_block f = Some l" for l
    using inv_file(2)[OF inv f] inv_block[OF inv f, of l] that by (auto split: if_splits)
  show "blocks s a = Some b \<Longrightarrow>
      \<exists>b'. blocks (grown fa f s) a = Some b' \<and> memory b' = memory b \<and> occupied b' = occupied b"
    using n by (auto simp: grown_def Let_def split: option.splits)
  show "\<exists>b. blocks (grown fa f s) (next_addr s) = Some b \<and>
      memory b = replicate BLOCK_SIZE None \<and> occupied b = 0"
    by (simp add: grown_def Let_def)
  show "dom (blocks (grown fa f s)) = insert (next_addr s) (dom (blocks s))"
    using l by (cases "last_block f") (auto simp: grown_def Let_def)
qed

lemma grown_chain:
  assumes inv: "ufs_inv B L s" and f: "files s fa = Some f"
  shows "block_next (grown fa f s) =
    (if B fa = [] then block_next s else (block_next s)(last (B fa) := Some (Some (next_addr s))))
      (next_addr s := Some None)"
proof (cases "B fa = []")
  case True
  then show ?thesis
    using inv_file(2)[OF inv f] by (auto simp: block_next_def grown_def Let_def)
next
  case False
  then have "last_block f = Some (last (B fa))" using inv_file(2)[OF inv f] by simp
  with False show ?thesis by (auto simp: block_next_def grown_def Let_def)
qed

lemma grown_file_ok:
  assumes inv: "ufs_inv B L s" and f: "files s fa = Some f" and g: "files s ga = Some g"
    and "ga \<noteq> fa"
  shows "file_ok (grown fa f s) g (B ga)"
proof -
  have "last (B fa) \<notin> set (B ga)" if "B fa \<noteq> []"
    using ufs_invD(3)[OF inv] f g assms(4) that last_in_set[OF that]
    unfolding owners_ok_def by blast
  moreover have "next_addr s \<notin> set (B ga)" by (rule inv_fresh(3) [OF inv g])
  ultimately have "chain (block_next (grown fa f s)) (block_list g) (B ga) None"
    using inv_file(1)[OF inv g] by (auto simp: grown_chain[OF inv f])
  with inv_file[OF inv g] show ?thesis by (simp add: file_ok_def)
qed

lemma grown_file_ok_self:
  assumes inv: "ufs_inv B L s" and f: "files s fa = Some f"
  shows "file_ok (grown fa f s) (the (files (grown fa f s) fa)) (B fa @ [next_addr s])"
proof -
  have n: "next_addr s \<notin> set (B fa)" by (rule inv_fresh(3) [OF inv f])
  have "chain (block_next (grown fa f s)) (if block_list f = None then Some (next_addr s) else block_list f)
      (B fa @ [next_addr s]) None"
  proof (cases "B fa = []")
    case True
    then show ?thesis using inv_file(5)[OF inv f] by (simp add: grown_chain[OF inv f])
  next
    case False
    then show ?thesis
      using chain_append_node[OF inv_file(1)[OF inv f] False n] inv_file(5)[OF inv f]
      by (simp add: grown_chain[OF inv f])
  qed
  then show ?thesis using inv_file(3)[OF inv f] by (simp add: file_ok_def grown_def Let_def)
qed

lemma grown_inv:
  assumes inv: "ufs_inv B L s" and f: "files s fa = Some f"
  shows "ufs_inv (B(fa := B fa @ [next_addr s])) L (grown fa f s)" (is "ufs_inv ?B L ?s")
proof (rule ufs_invI)
  note D = ufs_invD[OF inv]
  have fs: "files ?s = (files s)(fa \<mapsto> the (files ?s fa))" by (auto simp: grown_def Let_def)
  have dfs: "dom (files ?s) = dom (files s)" using f by (auto simp: grown_def Let_def)
  have fds: "file_descriptors ?s = file_descriptors s" "file_list ?s = file_list s"
    "file_descriptor_count ?s = file_descriptor_count s"
    "file_descriptor_capacity ?s = file_descriptor_capacity s"
    by (simp_all add: grown_def Let_def)
  have ff: "refs (the (files ?s fa)) = refs f" "deleted (the (files ?s fa)) = deleted f"
    "fname (the (files ?s fa)) = fname f" "f_next (the (files ?s fa)) = f_next f"
    "f_prev (the (files ?s fa)) = f_prev f"
    by (simp_all add: grown_def Let_def)
  show "blocks_ok ?s"
    unfolding blocks_ok_def
  proof (intro allI impI)
    fix a b assume ab: "blocks ?s a = Some b"
    show "length (memory b) = BLOCK_SIZE \<and> occupied b \<le> BLOCK_SIZE"
    proof (cases "a = next_addr s")
      case True
      with ab grown_blocks(2)[OF inv f] show ?thesis by auto
    next
      case False
      with ab grown_blocks(3)[OF inv f] obtain b0 where "blocks s a = Some b0" by blast
      with grown_blocks(1)[OF inv f this] ab D(1) show ?thesis
        by (auto simp: blocks_ok_def)
    qed
  qed
  show "files_ok ?s ?B"
    unfolding files_ok_def
  proof (intro allI impI)
    fix ga g assume g: "files ?s ga = Some g"
    show "file_ok ?s g (?B ga)"
    proof (cases "ga = fa")
      case True
      with g grown_file_ok_self[OF inv f] show ?thesis by simp
    next
      case False
      with g fs have "files s ga = Some g" by (metis fun_upd_other)
      with False grown_file_ok[OF inv f] show ?thesis by simp
    qed
  qed
  have n: "\<And>ga. ga \<in> dom (files s) \<Longrightarrow> next_addr s \<notin> set (B ga)" using inv_fresh(3)[OF inv] by blast
  show "owners_ok ?s ?B"
    unfolding owners_ok_def dfs grown_blocks(3)[OF inv f]
    using D(3) n f unfolding owners_ok_def by (auto simp: domI disjoint_iff split: if_splits)
  have "file_next ?s = file_next s" "file_prev ?s = file_prev s"
    using f by (auto simp: file_next_def file_prev_def grown_def Let_def)
  then show "list_ok ?s L"
    using D(4) f fs ff unfolding list_ok_def fds
    by (smt (verit) fun_upd_apply option.inject)
  show "refs_ok ?s"
    using D(5) f fs ff unfolding refs_ok_def fds
    by (smt (verit) fun_upd_apply option.inject)
  show "table_ok ?s" using D(6) by (simp add: table_ok_def fds)
  show "fds_ok ?s ?B"
    unfolding fds_ok_def fds dfs
  proof (intro allI impI conjI)
    fix d assume "Some d \<in> set (file_descriptors s)"
    with D(7) have d: "fd_file d \<in> dom (files s)" "pos_ok s (B (fd_file d)) d"
      by (auto simp: fds_ok_def)
    then show "fd_file d \<in> dom (files s)" by simp
    have "pos_ok ?s (B (fd_file d) @ bs) d" for bs
      using d(2) by (rule pos_ok_mono) (use grown_blocks(1)[OF inv f] in fastforce)
    from this[of "[]"] this[of "[next_addr s]"] show "pos_ok ?s (?B (fd_file d)) d" by auto
  qed
  show "addrs_ok ?s"
    using D(8) unfolding addrs_ok_def dfs grown_blocks(3)[OF inv f]
    by (auto simp: grown_def Let_def)
qed

section \<open>The descriptor table\<close>

text \<open>Rewriting one file record without touching its block list.\<close>

lemma files_ok_frame:
  assumes "files_ok s B" and "block_next s' = block_next s"
    and "files s' = (files s)(fa \<mapsto> f')" and "files s fa = Some f"
    and "block_list f' = block_list f" "last_block f' = last_block f" "num_blocks f' = num_blocks f"
  shows "files_ok s' B"
  unfolding files_ok_def
proof (intro allI impI)
  fix ga g assume g: "files s' ga = Some g"
  show "file_ok s' g (B ga)"
  proof (cases "ga = fa")
    case True
    with g assms(3) have "g = f'" by simp
    moreover have "file_ok s f (B fa)" using assms(1,4) unfolding files_ok_def by blast
    ultimately show ?thesis using True by (simp add: file_ok_def assms(2,5-7))
  next
    case False
    with g assms(3) have "files s ga = Some g" by simp
    with assms(1) have "file_ok s g (B ga)" unfolding files_ok_def by blast
    then show ?thesis unfolding file_ok_def assms(2) .
  qed
qed

lemma first_null_Some:
  "first_null ds k = Some i \<Longrightarrow> k \<le> i \<and> i - k < length ds \<and> ds ! (i - k) = None"
proof (induction ds arbitrary: k)
  case Nil
  then show ?case by simp
next
  case (Cons d ds)
  show ?case
  proof (cases "d = None")
    case True
    with Cons.prems show ?thesis by simp
  next
    case False
    with Cons.prems Cons.IH[of "Suc k"] have
      "Suc k \<le> i" "i - Suc k < length ds" "ds ! (i - Suc k) = None" by auto
    then show ?thesis by (simp add: nth_Cons' Suc_diff_Suc)
  qed
qed

lemma first_null_None: "first_null ds k = None \<longleftrightarrow> None \<notin> set ds"
  by (induction ds arbitrary: k) auto

lemma insert_fd_eq:
  assumes t: "table_ok s"
  shows "\<exists>i ext k. insert_fd d s = (int i, s\<lparr>file_descriptors := ext[i := Some d],
      file_descriptor_count := file_descriptor_count s + 1,
      file_descriptor_capacity := length ext\<rparr>) \<and>
    i < length ext \<and> ext ! i = None \<and> ext = file_descriptors s @ replicate k None"
proof -
  let ?fds = "file_descriptors s" and ?n = "file_descriptor_capacity s"
  define k where "k = (if file_descriptor_count s = int ?n then (?n + 1) * 2 - ?n else 0)"
  define ext where "ext = ?fds @ replicate k None"
  have len: "length ?fds = ?n" using t by (simp add: table_ok_def)
  have "None \<in> set ext"
  proof (cases "file_descriptor_count s = int ?n")
    case True
    then show ?thesis by (simp add: ext_def k_def)
  next
    case False
    then have "length (filter (\<lambda>d. d \<noteq> None) ?fds) \<noteq> length ?fds"
      using t by (simp add: table_ok_def)
    then show ?thesis by (auto simp: filter_count_full ext_def)
  qed
  then obtain i where i: "first_null ext 0 = Some i"
    using first_null_None[of ext 0] by (cases "first_null ext 0") auto
  have "insert_fd d s = (int i, s\<lparr>file_descriptors := ext[i := Some d],
      file_descriptor_count := file_descriptor_count s + 1,
      file_descriptor_capacity := length ext\<rparr>)"
  proof (cases "file_descriptor_count s = int ?n")
    case True
    with i len show ?thesis
      by (simp add: insert_fd_def ext_def k_def Let_def store_fd_def)
  next
    case False
    with i len show ?thesis
      by (simp add: insert_fd_def ext_def k_def Let_def store_fd_def)
  qed
  with first_null_Some[OF i] show ?thesis
    by (intro exI [of _ i] exI [of _ ext] exI [of _ k]) (simp add: ext_def)
qed

lemma slot_opened_inv:
  assumes inv: "ufs_inv B L s" and f: "files s fa = Some f"
    and ext: "ext = file_descriptors s @ replicate k None" and i: "i < length ext" "ext ! i = None"
    and d: "fd_file d = fa" "curr_block d = None" "block_num d = 0" "block_pos d = 0"
    and s': "s' = s\<lparr>files := (files s)(fa \<mapsto> f\<lparr>refs := refs f + 1\<rparr>),
      file_descriptors := ext[i := Some d], file_descriptor_count := file_descriptor_count s + 1,
      file_descriptor_capacity := length ext\<rparr>"
  shows "ufs_inv B L s'"
proof (rule ufs_invI)
  note D = ufs_invD[OF inv]
  have maps: "block_next s' = block_next s" "file_next s' = file_next s" "file_prev s' = file_prev s"
    using f by (auto simp: s' block_next_def file_next_def file_prev_def)
  have cnt: "length (filter P ext) = length (filter P (file_descriptors s))" if "\<not> P None" for P
    using that by (simp add: ext)
  show "blocks_ok s'" using D(1) by (simp add: blocks_ok_def s')
  show "files_ok s' B"
    by (rule files_ok_frame [OF D(2) maps(1) _ f, where f' = "f\<lparr>refs := refs f + 1\<rparr>"])
      (simp_all add: s')
  show "owners_ok s' B" using D(3) f by (simp add: owners_ok_def s' insert_absorb domI)
  show "list_ok s' L"
    using D(4) f unfolding list_ok_def maps by (auto simp: s')
  show "refs_ok s'"
    unfolding refs_ok_def
  proof (intro allI impI)
    fix ga g assume g: "files s' ga = Some g"
    have "int (length (filter (opens ga) (ext[i := Some d]))) =
        int (length (filter (opens ga) (file_descriptors s))) + (if fa = ga then 1 else 0)"
      using count_update[OF i(1), of "opens ga" "Some d"] i(2) d(1) cnt[of "opens ga"]
      by (simp add: opens_def)
    with g f D(5) show "refs g = int (length (filter (opens ga) (file_descriptors s')))"
      by (auto simp: refs_ok_def s' split: if_splits)
  qed
  show "table_ok s'"
    using D(6) count_update[OF i(1), of "\<lambda>d. d \<noteq> None" "Some d"] i(2) cnt[of "\<lambda>d. d \<noteq> None"]
    by (simp add: table_ok_def s')
  show "fds_ok s' B"
    unfolding fds_ok_def
  proof (intro allI impI)
    fix e assume "Some e \<in> set (file_descriptors s')"
    then have "e = d \<or> Some e \<in> set (file_descriptors s)"
      using set_update_subset_insert[of ext i "Some d"] by (auto simp: s' ext)
    then show "fd_file e \<in> dom (files s') \<and> pos_ok s' (B (fd_file e)) e"
      using D(7) f d by (auto simp: fds_ok_def s' pos_ok_def)
  qed
  show "addrs_ok s'" using D(8) f by (simp add: addrs_ok_def s' insert_absorb domI)
qed

text \<open>Clearing a slot: the reference is dropped with it.\<close>

definition slot_closed :: "nat \<Rightarrow> addr \<Rightarrow> ufs_file \<Rightarrow> ufs \<Rightarrow> ufs" where
  "slot_closed i fa f s = s\<lparr>files := (files s)(fa \<mapsto> f\<lparr>refs := refs f - 1\<rparr>),
     file_descriptors := (file_descriptors s)[i := None],
     file_descriptor_count := file_descriptor_count s - 1\<rparr>"

lemma slot_closed_inv:
  assumes inv: "ufs_inv B L s" and i: "i < length (file_descriptors s)"
    and d: "file_descriptors s ! i = Some d" "fd_file d = fa" and f: "files s fa = Some f"
  shows "ufs_inv B L (slot_closed i fa f s)" (is "ufs_inv B L ?s")
proof (rule ufs_invI)
  note D = ufs_invD[OF inv]
  have maps: "block_next ?s = block_next s" "file_next ?s = file_next s" "file_prev ?s = file_prev s"
    using f by (auto simp: slot_closed_def block_next_def file_next_def file_prev_def)
  show "blocks_ok ?s" using D(1) by (simp add: blocks_ok_def slot_closed_def)
  show "files_ok ?s B"
    by (rule files_ok_frame [OF D(2) maps(1) _ f, where f' = "f\<lparr>refs := refs f - 1\<rparr>"])
      (simp_all add: slot_closed_def)
  show "owners_ok ?s B" using D(3) f by (simp add: owners_ok_def slot_closed_def insert_absorb domI)
  show "list_ok ?s L" using D(4) f unfolding list_ok_def maps by (auto simp: slot_closed_def)
  show "refs_ok ?s"
    using D(5) f d count_update[OF i, of _ None] by (auto simp: refs_ok_def slot_closed_def opens_def)
  show "table_ok ?s"
    using D(6) d(1) count_update[OF i, of "\<lambda>d. d \<noteq> None" None]
    by (simp add: table_ok_def slot_closed_def)
  show "fds_ok ?s B"
    unfolding fds_ok_def
  proof (intro allI impI)
    fix e assume "Some e \<in> set (file_descriptors ?s)"
    then have "Some e \<in> set (file_descriptors s)"
      using set_update_subset_insert[of "file_descriptors s" i None] by (auto simp: slot_closed_def)
    then show "fd_file e \<in> dom (files ?s) \<and> pos_ok ?s (B (fd_file e)) e"
      using D(7) f by (auto simp: fds_ok_def slot_closed_def pos_ok_def)
  qed
  show "addrs_ok ?s" using D(8) f by (simp add: addrs_ok_def slot_closed_def insert_absorb domI)
qed

lemma open_refs_pos:
  assumes inv: "ufs_inv B L s" and i: "i < length (file_descriptors s)"
    and d: "file_descriptors s ! i = Some d" "fd_file d = fa" and f: "files s fa = Some f"
  shows "0 < refs f"
proof -
  have "0 < length (filter (opens fa) (file_descriptors s))"
    by (rule filter_count_pos [OF i]) (simp add: d opens_def)
  with ufs_invD(5)[OF inv] f show ?thesis by (simp add: refs_ok_def)
qed

section \<open>Freeing a file\<close>

lemma free_blocks_eq:
  "chain (block_next s) p as None \<Longrightarrow>
     free_blocks p s = ret (s\<lparr>blocks := (\<lambda>a. if a \<in> set as then None else blocks s a)\<rparr>)"
proof (induction as arbitrary: p s)
  case Nil
  then show ?case by (simp add: free_blocks.simps)
next
  case (Cons a as)
  then obtain b where b: "p = Some a" "blocks s a = Some b" "chain (block_next s) (b_next b) as None"
    by (auto simp: next_Some)
  let ?s = "s\<lparr>blocks := (blocks s)(a := None)\<rparr>"
  have "a \<notin> set as" using chain_distinct[OF Cons.prems] by simp
  moreover have "block_next ?s = (block_next s)(a := None)" by (auto simp: block_next_def)
  ultimately have "chain (block_next ?s) (b_next b) as None" using b(3) by simp
  from Cons.IH[OF this] b(1,2) show ?case
    by (subst free_blocks.simps) (auto intro!: ufs.equality)
qed

definition dropped :: "addr \<Rightarrow> addr list \<Rightarrow> ufs \<Rightarrow> ufs" where
  "dropped fa as s = s\<lparr>blocks := (\<lambda>a. if a \<in> set as then None else blocks s a),
     files := (files s)(fa := None)\<rparr>"

lemma delete_file_eq:
  assumes "files s fa = Some f" and "chain (block_next s) (block_list f) as None"
  shows "delete_file fa s = ret (dropped fa as s)"
  using assms by (simp add: delete_file_def free_blocks_eq dropped_def)

lemma dropped_inv:
  assumes inv: "ufs_inv B L s" and f: "files s fa = Some f" "deleted f" "refs f = 0"
  shows "ufs_inv B L (dropped fa (B fa) s)" (is "ufs_inv B L ?s")
proof (rule ufs_invI)
  note D = ufs_invD[OF inv]
  have dom: "dom (files ?s) = dom (files s) - {fa}" by (auto simp: dropped_def)
  have apart: "set (B ga) \<inter> set (B fa) = {}" if "ga \<noteq> fa" "files s ga = Some g" for ga g
    using D(3) f(1) that unfolding owners_ok_def by blast
  have keep: "blocks ?s a = blocks s a" if "a \<in> set (B ga)" "ga \<noteq> fa" "files s ga = Some g" for a ga g
    using apart[OF that(2,3)] that(1) by (auto simp: dropped_def)
  show "blocks_ok ?s" using D(1) by (simp add: blocks_ok_def dropped_def)
  show "files_ok ?s B"
    unfolding files_ok_def
  proof (intro allI impI)
    fix ga g assume "files ?s ga = Some g"
    then have g: "ga \<noteq> fa" "files s ga = Some g" by (auto simp: dropped_def split: if_splits)
    have "chain (block_next ?s) (block_list g) (B ga) None"
      using inv_file(1)[OF inv g(2)] keep[OF _ g]
      by (subst chain_cong [of _ _ "block_next s"]) (auto simp: block_next_def)
    with inv_file[OF inv g(2)] show "file_ok ?s g (B ga)" by (simp add: file_ok_def)
  qed
  have "dom (blocks ?s) = dom (blocks s) - set (B fa)" by (auto simp: dropped_def split: if_splits)
  also have "\<dots> = (\<Union>ga \<in> dom (files ?s). set (B ga))"
    using D(3) f(1) apart unfolding owners_ok_def dom by blast
  finally show "owners_ok ?s B" using D(3) unfolding owners_ok_def dom by blast
  have "fa \<notin> set L" using D(4) f by (auto simp: list_ok_def)
  then have "dll (file_next ?s) (file_prev ?s) L (file_list s) = dll (file_next s) (file_prev s) L (file_list s)"
    by (intro dll_cong) (auto simp: file_next_def file_prev_def dropped_def)
  with D(4) \<open>fa \<notin> set L\<close> show "list_ok ?s L" by (auto simp: list_ok_def dropped_def)
  show "refs_ok ?s" using D(5) by (auto simp: refs_ok_def dropped_def)
  show "table_ok ?s" using D(6) by (simp add: table_ok_def dropped_def)
  have noref: "fd_file d \<noteq> fa" if d: "Some d \<in> set (file_descriptors s)" for d
  proof
    assume "fd_file d = fa"
    with d have "filter (opens fa) (file_descriptors s) \<noteq> []"
      by (force simp: filter_empty_conv opens_def)
    with D(5) f show False by (simp add: refs_ok_def)
  qed
  show "fds_ok ?s B"
    unfolding fds_ok_def
  proof (intro allI impI)
    fix d assume "Some d \<in> set (file_descriptors ?s)"
    then have d: "Some d \<in> set (file_descriptors s)" by (simp add: dropped_def)
    with D(7) noref[OF d] obtain g where g: "files s (fd_file d) = Some g" "pos_ok s (B (fd_file d)) d"
      by (auto simp: fds_ok_def)
    have "pos_ok ?s (B (fd_file d) @ []) d"
      using g(2) by (rule pos_ok_mono) (use keep[OF _ noref[OF d] g(1)] in auto)
    with g noref[OF d] show "fd_file d \<in> dom (files ?s) \<and> pos_ok ?s (B (fd_file d)) d"
      by (auto simp: dropped_def)
  qed
  have "dom (blocks ?s) \<subseteq> dom (blocks s)" "next_addr ?s = next_addr s"
    by (auto simp: dropped_def split: if_splits)
  with D(8) dom show "addrs_ok ?s" unfolding addrs_ok_def by (metis DiffD1 UnCI UnE subsetD)
qed

section \<open>The list of files\<close>

definition same_core :: "ufs_file \<Rightarrow> ufs_file \<Rightarrow> bool" where
  "same_core f g \<longleftrightarrow> block_list f = block_list g \<and> last_block f = last_block g \<and>
     num_blocks f = num_blocks g \<and> refs f = refs g"

lemma same_core_refl [simp]: "same_core f f"
  by (simp add: same_core_def)

text \<open>Changing only link fields, names and the deletion mark keeps everything but the list.\<close>

lemma relinked_inv:
  assumes inv: "ufs_inv B L s" and "blocks s' = blocks s"
    and "file_descriptors s' = file_descriptors s"
    and "file_descriptor_count s' = file_descriptor_count s"
    and "file_descriptor_capacity s' = file_descriptor_capacity s"
    and "next_addr s' = next_addr s"
    and core: "\<And>a. rel_option same_core (files s' a) (files s a)"
    and "list_ok s' L'"
  shows "ufs_inv B L' s'"
proof (rule ufs_invI)
  note D = ufs_invD[OF inv]
  note eqs = assms(2-6)
  have dom: "dom (files s') = dom (files s)"
  proof (rule set_eqI)
    fix a show "a \<in> dom (files s') \<longleftrightarrow> a \<in> dom (files s)"
      using core[of a] by (cases "files s a"; cases "files s' a") auto
  qed
  have nx: "block_next s' = block_next s" by (auto simp: block_next_def eqs)
  have get: "\<exists>g. files s a = Some g \<and> same_core f g" if "files s' a = Some f" for a f
    using core[of a] that by (cases "files s a") auto
  show "blocks_ok s'" using D(1) by (simp add: blocks_ok_def eqs)
  show "files_ok s' B"
    unfolding files_ok_def
  proof (intro allI impI)
    fix a f assume "files s' a = Some f"
    with get obtain g where g: "files s a = Some g" "same_core f g" by blast
    with D(2) have "file_ok s g (B a)" by (simp add: files_ok_def)
    with g(2) show "file_ok s' f (B a)" by (simp add: file_ok_def nx same_core_def)
  qed
  show "owners_ok s' B" using D(3) by (simp add: owners_ok_def dom eqs)
  show "list_ok s' L'" by fact
  show "refs_ok s'" using D(5) get unfolding refs_ok_def eqs same_core_def by metis
  show "table_ok s'" using D(6) by (simp add: table_ok_def eqs)
  show "fds_ok s' B" using D(7) unfolding fds_ok_def pos_ok_def dom eqs .
  show "addrs_ok s'" using D(8) by (simp add: addrs_ok_def dom eqs)
qed

interpretation ff: list_search load_file files f_next "\<lambda>f. fname f = nm" "find_file nm" for nm
proof unfold_locales
  show "find_file nm p s = (case p of None \<Rightarrow> ret None
      | Some a \<Rightarrow> bnd (load_file p s) (\<lambda>n. if fname n = nm then ret (Some a) else find_file nm (f_next n) s))"
    for p s by (rule find_file.simps)
qed simp

lemma ff_nexts: "ff.nexts s = file_next s"
  by (rule ext) (simp add: ff.nexts_def file_next_def)

lemma find_file_eq:
  assumes "ufs_inv B L s"
  shows "find_file nm (file_list s) s = ret (find (ff.hit nm s) L)"
  using ff.search_finds[of s "file_list s" L nm] dll_chain ufs_invD(4)[OF assms]
  by (auto simp: ff_nexts list_ok_def)

lemma find_file_Some:
  assumes inv: "ufs_inv B L s" and r: "find_file nm (file_list s) s = ret (Some fa)"
  shows "\<exists>f. fa \<in> set L \<and> files s fa = Some f \<and> fname f = nm \<and> \<not> deleted f"
proof -
  have "fa \<in> set L" "ff.hit nm s fa"
    using r by (auto simp: find_file_eq[OF inv] find_Some_iff)
  with ufs_invD(4)[OF inv] show ?thesis by (auto simp: ff.hit_def list_ok_def split: option.splits)
qed

lemma find_file_None:
  assumes inv: "ufs_inv B L s" and r: "find_file nm (file_list s) s = ret None"
    and "fa \<in> set L" "files s fa = Some f"
  shows "fname f \<noteq> nm"
  using assms by (auto simp: find_file_eq find_None_iff ff.hit_def)

text \<open>Creating a file and pushing it at the front of the list.\<close>

definition blank_file :: "string \<Rightarrow> bool \<Rightarrow> addr option \<Rightarrow> ufs_file" where
  "blank_file nm del nx = \<lparr>block_list = None, last_block = None, refs = 0, fname = nm,
     f_next = nx, f_prev = None, deleted = del, num_blocks = 0\<rparr>"

lemma blank_inv:
  assumes inv: "ufs_inv B L s"
  shows "ufs_inv (B(next_addr s := [])) L
    (s\<lparr>files := (files s)(next_addr s \<mapsto> blank_file nm True nx), next_addr := Suc (next_addr s)\<rparr>)"
    (is "ufs_inv ?B L ?s")
proof (rule ufs_invI)
  note D = ufs_invD[OF inv]
  let ?n = "next_addr s"
  have fresh: "files s ?n = None" "?n \<notin> dom (files s)" using inv_fresh(2)[OF inv] by auto
  have nx: "block_next ?s = block_next s" by (auto simp: block_next_def)
  show "blocks_ok ?s" using D(1) by (simp add: blocks_ok_def)
  show "files_ok ?s ?B"
    using D(2) by (simp add: files_ok_def file_ok_def nx) (simp add: blank_file_def)
  have same: "?B ga = B ga" if "ga \<in> dom (files s)" for ga using that fresh(2) by auto
  then have "(\<Union>ga \<in> dom (files s). set (?B ga)) = (\<Union>ga \<in> dom (files s). set (B ga))"
    by (intro SUP_cong) simp_all
  with D(3) same show "owners_ok ?s ?B" unfolding owners_ok_def by simp
  have nL: "?n \<notin> set L"
    using D(4) dll_chain chain_nodes fresh(1) by (fastforce simp: list_ok_def next_Some)
  then have "dll (file_next ?s) (file_prev ?s) L (file_list s) = dll (file_next s) (file_prev s) L (file_list s)"
    by (intro dll_cong) (auto simp: file_next_def file_prev_def)
  with D(4) nL show "list_ok ?s L" by (auto simp: list_ok_def blank_file_def)
  have none: "\<not> opens ?n slot" if "slot \<in> set (file_descriptors s)" for slot
    using D(7) fresh(2) that by (auto simp: fds_ok_def opens_def split: option.splits)
  then have "filter (opens ?n) (file_descriptors s) = []" by (simp add: filter_empty_conv)
  with D(5) show "refs_ok ?s" by (simp add: refs_ok_def blank_file_def)
  show "table_ok ?s" using D(6) by (simp add: table_ok_def)
  show "fds_ok ?s ?B"
    using D(7) fresh(2) by (auto simp: fds_ok_def pos_ok_def)
  show "addrs_ok ?s" using D(8) by (auto simp: addrs_ok_def)
qed

definition created :: "string \<Rightarrow> ufs \<Rightarrow> ufs" where
  "created nm s = s\<lparr>files := (case file_list s of None \<Rightarrow> files s
         | Some h \<Rightarrow> (files s)(h \<mapsto> (the (files s h))\<lparr>f_prev := Some (next_addr s)\<rparr>))
       (next_addr s \<mapsto> blank_file nm False (file_list s)),
     file_list := Some (next_addr s), next_addr := Suc (next_addr s)\<rparr>"

lemma list_head:
  assumes "list_ok s L"
  shows "file_list s = (if L = [] then None else Some (hd L))"
    and "a \<in> set L \<Longrightarrow> \<exists>f. files s a = Some f" and "distinct L"
proof -
  have c: "chain (file_next s) (file_list s) L None"
    using assms by (auto simp: list_ok_def intro: dll_chain)
  then show "file_list s = (if L = [] then None else Some (hd L))" by (rule chain_start)
  show "a \<in> set L \<Longrightarrow> \<exists>f. files s a = Some f"
    using chain_nodes[OF c] by (fastforce simp: next_Some)
  show "distinct L" by (rule chain_distinct [OF c])
qed

lemma insert_file_eq:
  assumes inv: "ufs_inv B L s"
  shows "(let (fa, s) = new_file nm s in insert_file fa s) = ret (created nm s)"
proof (cases "file_list s")
  case None
  then show ?thesis
    by (simp add: new_file_def insert_file_def created_def store_file_def blank_file_def)
next
  case (Some h)
  then have "h \<in> set L" using list_head(1)[OF ufs_invD(4)[OF inv]] by (auto split: if_splits)
  then obtain f where f: "files s h = Some f" using list_head(2)[OF ufs_invD(4)[OF inv]] by blast
  then have "h \<noteq> next_addr s" using inv_fresh(2)[OF inv] by auto
  with Some f show ?thesis
    by (simp add: new_file_def insert_file_def created_def store_file_def load_file_def
        blank_file_def Let_def fun_upd_twist)
qed

lemma list_okD:
  assumes "list_ok s L"
  shows "dll (file_next s) (file_prev s) L (file_list s)"
    and "files s a = Some f \<Longrightarrow> (a \<in> set L) = (\<not> deleted f)"
    and "a \<in> set L \<Longrightarrow> b \<in> set L \<Longrightarrow> files s a = Some f \<Longrightarrow> files s b = Some g \<Longrightarrow>
      fname f = fname g \<Longrightarrow> a = b"
  using assms unfolding list_ok_def by blast+

lemma created_inv:
  assumes inv: "ufs_inv B L s" and new: "\<And>a f. a \<in> set L \<Longrightarrow> files s a = Some f \<Longrightarrow> fname f \<noteq> nm"
  shows "ufs_inv (B(next_addr s := [])) (next_addr s # L) (created nm s)" (is "ufs_inv _ (?n # L) ?s")
proof (rule relinked_inv [OF blank_inv [OF inv, of nm None]])
  note hd = list_head[OF ufs_invD(4)[OF inv]]
  have nL: "?n \<notin> set L" using hd(2) inv_fresh(2)[OF inv] by fastforce
  obtain h where h: "L = [] \<and> file_list s = None \<or> file_list s = Some h \<and> L \<noteq> [] \<and> h = hd L"
    using hd(1) by (cases L) auto
  have fs: "files ?s a = (if a = ?n then Some (blank_file nm False (file_list s))
      else if file_list s = Some a then map_option (\<lambda>f. f\<lparr>f_prev := Some ?n\<rparr>) (files s a) else files s a)" for a
    using hd(1) hd(2)[of a] by (cases L) (auto simp: created_def)
  show "rel_option same_core (files ?s a)
      (files (s\<lparr>files := (files s)(?n \<mapsto> blank_file nm True None), next_addr := Suc ?n\<rparr>) a)" for a
    by (cases "files s a") (auto simp: fs same_core_def blank_file_def)
  have nx: "file_next ?s = (file_next s)(?n := Some (file_list s))"
    using fs by (auto simp: file_next_def blank_file_def option.map_comp comp_def)
  have pv: "file_prev ?s = (if L = [] then file_prev s else (file_prev s)(hd L := Some (Some ?n)))(?n := Some None)"
    using fs hd(1) hd(2)[of "hd L"] by (cases L) (auto simp: file_prev_def blank_file_def fun_eq_iff)
  have "dll (file_next ?s) (file_prev ?s) (?n # L) (Some ?n)"
    unfolding nx pv by (rule dll_push [OF _ nL]) (use ufs_invD(4)[OF inv] in \<open>simp add: list_ok_def\<close>)
  then have "dll (file_next ?s) (file_prev ?s) (?n # L) (file_list ?s)" by (simp add: created_def)
  moreover have old: "\<exists>f0. files s a = Some f0 \<and> fname f = fname f0 \<and> deleted f = deleted f0"
    if "files ?s a = Some f" "a \<noteq> ?n" for a f
    using that by (auto simp: fs split: if_splits)
  moreover have mine: "fname f = nm \<and> \<not> deleted f" if "files ?s ?n = Some f" for f
    using that by (auto simp: fs blank_file_def)
  moreover have "(a \<in> set (?n # L)) = (\<not> deleted f)" if "files ?s a = Some f" for a f
  proof (cases "a = ?n")
    case True
    with mine that show ?thesis by simp
  next
    case False
    from old[OF that this] obtain f0 where "files s a = Some f0" "deleted f = deleted f0" by blast
    with False list_okD(2)[OF ufs_invD(4)[OF inv]] show ?thesis by simp
  qed
  moreover have "a = b" if ab: "a \<in> set (?n # L)" "b \<in> set (?n # L)" and f: "files ?s a = Some f"
      and g: "files ?s b = Some g" and fg: "fname f = fname g" for a b f g
  proof -
    have nm: "fname f' \<noteq> nm" if "c \<in> set L" "files ?s c = Some f'" for c f'
    proof -
      have "c \<noteq> ?n" using that(1) nL by blast
      from old[OF that(2) this] new[OF that(1)] show ?thesis by auto
    qed
    consider "a = ?n" "b = ?n" | "a = ?n" "b \<in> set L" | "a \<in> set L" "b = ?n"
      | "a \<in> set L" "b \<in> set L" using ab by auto
    then show ?thesis
    proof cases
      case 2
      with mine[of f] f nm[OF _ g] fg show ?thesis by simp
    next
      case 3
      with mine[of g] g nm[OF _ f] fg show ?thesis by simp
    next
      case 4
      then have "a \<noteq> ?n" "b \<noteq> ?n" using nL by auto
      with old[OF f] old[OF g] fg 4 list_okD(3)[OF ufs_invD(4)[OF inv]] show ?thesis by metis
    qed simp
  qed
  ultimately show "list_ok ?s (?n # L)" unfolding list_ok_def by blast
qed (simp_all add: created_def)

text \<open>Unlinking a file and marking it deleted.\<close>

definition unlinked :: "addr \<Rightarrow> ufs_file \<Rightarrow> ufs \<Rightarrow> ufs" where
  "unlinked fa f s =
     (let h = (case f_prev f of None \<Rightarrow> files s
                | Some p \<Rightarrow> (files s)(p \<mapsto> (the (files s p))\<lparr>f_next := f_next f\<rparr>));
          h = (case f_next f of None \<Rightarrow> h
                | Some n \<Rightarrow> h(n \<mapsto> (the (h n))\<lparr>f_prev := f_prev f\<rparr>))
      in s\<lparr>files := h, file_list := (if file_list s = Some fa then f_next f else file_list s)\<rparr>)"

lemma dll_member:
  assumes inv: "ufs_inv B L s" and f: "files s fa = Some f" and L: "L = as @ fa # bs"
  shows "f_prev f = (if as = [] then None else Some (last as))"
    and "f_next f = (if bs = [] then None else Some (hd bs))"
    and "distinct (as @ fa # bs)" and "\<And>a. a \<in> set as \<union> set bs \<Longrightarrow> \<exists>g. files s a = Some g"
proof -
  have d: "dll (file_next s) (file_prev s) (as @ fa # bs) (file_list s)"
    using ufs_invD(4)[OF inv] L by (simp add: list_ok_def)
  from dll_neighbours[OF d] f show "f_prev f = (if as = [] then None else Some (last as))"
    and "f_next f = (if bs = [] then None else Some (hd bs))"
    by (simp_all add: file_prev_def file_next_def)
  show "distinct (as @ fa # bs)" by (rule dll_distinct [OF d])
  show "\<exists>g. files s a = Some g" if "a \<in> set as \<union> set bs" for a
    using list_head(2)[OF ufs_invD(4)[OF inv], of a] that L by auto
qed

lemma unlink_file_eq:
  assumes inv: "ufs_inv B L s" and f: "files s fa = Some f" and "fa \<in> set L"
  shows "unlink_file fa s = ret (unlinked fa f s)"
proof -
  obtain as bs where L: "L = as @ fa # bs" using assms(3) by (meson split_list)
  note m = dll_member[OF inv f L]
  have p: "\<exists>g. files s p = Some g" if "f_prev f = Some p" for p
    using m(1) m(4)[of p] that by (auto split: if_splits)
  have n: "\<exists>g. files s n = Some g" if "f_next f = Some n" for n
    using m(2) m(4)[of n] that by (auto split: if_splits)
  show ?thesis
  proof (cases "f_prev f")
    case None
    with f n show ?thesis
      by (cases "f_next f") (auto simp: unlink_file_def unlinked_def load_file_def store_file_def)
  next
    case (Some p)
    with f n p[OF Some] show ?thesis
      by (cases "f_next f") (auto simp: unlink_file_def unlinked_def load_file_def store_file_def)
  qed
qed

lemma unlinked_file:
  assumes inv: "ufs_inv B L s" and f: "files s fa = Some f" and L: "L = as @ fa # bs"
  shows "files (unlinked fa f s) a =
    (if as \<noteq> [] \<and> a = last as then map_option (\<lambda>g. g\<lparr>f_next := f_next f\<rparr>) (files s a)
     else if bs \<noteq> [] \<and> a = hd bs then map_option (\<lambda>g. g\<lparr>f_prev := f_prev f\<rparr>) (files s a)
     else files s a)"
proof -
  note m = dll_member[OF inv f L]
  have apart: "last as \<noteq> hd bs" if "as \<noteq> []" "bs \<noteq> []"
    using m(3) that last_in_set[OF that(1)] list.set_sel(1)[OF that(2)] by fastforce
  show ?thesis
  proof (cases "as = []"; cases "bs = []")
    assume "as = []" "bs = []"
    with m show ?thesis by (simp add: unlinked_def)
  next
    assume *: "as = []" "bs \<noteq> []"
    then obtain g where "files s (hd bs) = Some g" using m(4)[of "hd bs"] by auto
    with * m(1,2) show ?thesis by (simp add: unlinked_def)
  next
    assume *: "as \<noteq> []" "bs = []"
    then obtain g where "files s (last as) = Some g" using m(4)[of "last as"] by auto
    with * m(1,2) show ?thesis by (simp add: unlinked_def)
  next
    assume *: "as \<noteq> []" "bs \<noteq> []"
    then obtain g h where "files s (last as) = Some g" "files s (hd bs) = Some h"
      using m(4)[of "last as"] m(4)[of "hd bs"] by auto
    with * apart m(1,2) show ?thesis by (auto simp: unlinked_def Let_def)
  qed
qed

lemma unlinked_inv:
  assumes inv: "ufs_inv B L s" and f: "files s fa = Some f" and L: "L = as @ fa # bs"
    and s': "s' = store_file fa (f\<lparr>deleted := True\<rparr>) (unlinked fa f s)"
  shows "ufs_inv B (as @ bs) s'"
proof (rule relinked_inv [OF inv])
  note m = dll_member[OF inv f L]
  note uf = unlinked_file[OF inv f L]
  have ne: "as \<noteq> [] \<Longrightarrow> last as \<noteq> fa" "bs \<noteq> [] \<Longrightarrow> hd bs \<noteq> fa" using m(3) by auto
  have fs: "files s' a = (if a = fa then Some (f\<lparr>deleted := True\<rparr>) else files (unlinked fa f s) a)" for a
    by (simp add: s')
  show "rel_option same_core (files s' a) (files s a)" for a
    using f by (cases "files s a") (auto simp: fs uf same_core_def)
  have dl: "dll (file_next s) (file_prev s) (as @ fa # bs) (file_list s)"
    using ufs_invD(4)[OF inv] L by (simp add: list_ok_def)
  have hf: "file_list s = Some (hd L)" using list_head(1)[OF ufs_invD(4)[OF inv]] L by simp
  have fl: "file_list s' = (if as = [] then the (file_next s fa) else file_list s)"
  proof (cases as)
    case Nil
    then show ?thesis using L f hf by (simp add: s' unlinked_def Let_def file_next_def)
  next
    case (Cons a as')
    then have "hd L = a" "a \<noteq> fa" using L m(3) by auto
    with Cons hf show ?thesis by (simp add: s' unlinked_def Let_def)
  qed
  have "dll (file_next s') (file_prev s') (as @ bs) (file_list s')"
  proof -
    have nx: "file_next s' a = (if as = [] then file_next s else (file_next s)(last as := file_next s fa)) a"
      if "a \<noteq> fa" for a
    proof (cases "as \<noteq> [] \<and> a = last as")
      case True
      then obtain g where "files s a = Some g" using m(4)[of a] by auto
      with True that f show ?thesis by (simp add: file_next_def fs uf)
    next
      case False
      with that have "file_next s' a = file_next s a"
        by (cases "files s a") (auto simp: file_next_def fs uf)
      with False show ?thesis by auto
    qed
    have pv: "file_prev s' a = (if bs = [] then file_prev s else (file_prev s)(hd bs := file_prev s fa)) a"
      if "a \<noteq> fa" for a
    proof (cases "bs \<noteq> [] \<and> a = hd bs")
      case True
      then have "\<not> (as \<noteq> [] \<and> a = last as)"
        using m(3) last_in_set[of as] list.set_sel(1)[of bs]
        by (metis distinct_append disjoint_iff list.set_intros(2))
      moreover obtain g where "files s a = Some g" using True m(4)[of a] by auto
      ultimately show ?thesis using True that f by (auto simp: file_prev_def fs uf)
    next
      case False
      with that have "file_prev s' a = file_prev s a"
        by (cases "files s a") (auto simp: file_prev_def fs uf)
      with False show ?thesis by auto
    qed
    have "a \<noteq> fa" if "a \<in> set (as @ bs)" for a using m(3) that by auto
    then have "dll (file_next s') (file_prev s') (as @ bs) (file_list s') =
        dll (if as = [] then file_next s else (file_next s)(last as := file_next s fa))
          (if bs = [] then file_prev s else (file_prev s)(hd bs := file_prev s fa)) (as @ bs) (file_list s')"
      by (intro dll_cong conjI nx pv) blast+
    with dll_unlink[OF dl] show ?thesis by (simp only: fl)
  qed
  moreover have old: "\<exists>g0. files s a = Some g0 \<and> fname g = fname g0 \<and> (a \<noteq> fa \<longrightarrow> deleted g = deleted g0) \<and>
      (a = fa \<longrightarrow> deleted g)" if "files s' a = Some g" for a g
    using that f by (auto simp: fs uf split: if_splits)
  moreover have "(a \<in> set (as @ bs)) = (\<not> deleted g)" if "files s' a = Some g" for a g
  proof (cases "a = fa")
    case True
    with old[OF that] m(3) show ?thesis by auto
  next
    case False
    with old[OF that] list_okD(2)[OF ufs_invD(4)[OF inv]] L show ?thesis by fastforce
  qed
  moreover have "a = b" if "a \<in> set (as @ bs)" "b \<in> set (as @ bs)" "files s' a = Some g"
      "files s' b = Some h" "fname g = fname h" for a b g h
  proof -
    have ab: "a \<in> set L" "b \<in> set L" using that(1,2) L by auto
    note eq = that(5) and old4 = old[OF that(4)]
    from old[OF that(3)] obtain g0 where g: "files s a = Some g0" "fname g = fname g0" by blast
    from old4 obtain h0 where h: "files s b = Some h0" "fname h = fname h0" by blast
    show ?thesis
      by (rule list_okD(3)[OF ufs_invD(4)[OF inv] ab g(1) h(1)]) (use eq g(2) h(2) in simp)
  qed
  ultimately show "list_ok s' (as @ bs)" unfolding list_ok_def by blast
qed (simp_all add: s' unlinked_def Let_def)

end
