(* ===== verification/UserFS_IO.thy ===== *)
theory UserFS_IO
  imports UserFS_Ops
begin

text \<open>
  Reading and writing. A file is seen as the list of its segments, the occupied bytes of each
  block. \<open>stream\<close> is what a reader gets from the start of the file, \<open>put\<close> is what a writer
  makes of the segments; the lemmas show that the loops of \<^verbatim>\<open>ufs_read\<close> and \<^verbatim>\<open>ufs_write\<close>
  compute exactly these, including the case in which the write never returns.
\<close>

section \<open>Segments\<close>

definition seg :: "ufs \<Rightarrow> addr \<Rightarrow> char option list" where
  "seg s a = (case blocks s a of None \<Rightarrow> [] | Some b \<Rightarrow> take (occupied b) (memory b))"

definition segs :: "ufs \<Rightarrow> addr list \<Rightarrow> char option list list" where
  "segs s as = map (seg s) as"

lemma segs_simps [simp]:
  "segs s [] = []" "segs s (a # as) = seg s a # segs s as" "segs s (as @ bs) = segs s as @ segs s bs"
  "length (segs s as) = length as" "k < length as \<Longrightarrow> segs s as ! k = seg s (as ! k)"
  by (simp_all add: segs_def)

lemma seg_frame:
  "blocks s' = blocks s \<Longrightarrow> seg s' = seg s"
  by (auto simp: seg_def)

lemma segs_frame [simp]:
  "seg (store_fd i d s) = seg s" "segs (store_fd i d s) as = segs s as"
  "seg (store_file a f s) = seg s" "segs (store_file a f s) as = segs s as"
  "seg (set_err e s) = seg s" "segs (set_err e s) as = segs s as"
  by (simp_all add: segs_def seg_def fun_eq_iff)

lemma segs_cong: "(\<And>a. a \<in> set as \<Longrightarrow> seg s' a = seg s a) \<Longrightarrow> segs s' as = segs s as"
  by (simp add: segs_def)

lemma seg_live:
  assumes "ufs_inv B L s" and "blocks s a = Some b"
  shows "seg s a = take (occupied b) (memory b)" "length (seg s a) = occupied b"
    "occupied b \<le> BLOCK_SIZE" "length (memory b) = BLOCK_SIZE"
proof -
  from ufs_invD(1)[OF assms(1)] assms(2) show 1: "occupied b \<le> BLOCK_SIZE" "length (memory b) = BLOCK_SIZE"
    by (auto simp: blocks_ok_def)
  show "seg s a = take (occupied b) (memory b)" using assms(2) by (simp add: seg_def)
  with 1 show "length (seg s a) = occupied b" by simp
qed

lemma pos_ok_frame: "blocks s' = blocks s \<Longrightarrow> pos_ok s' as d = pos_ok s as d"
  by (simp add: pos_ok_def)

lemma segs_update:
  assumes "distinct as" and "k < length as" and "\<And>a. a \<noteq> as ! k \<Longrightarrow> seg s' a = seg s a"
  shows "segs s' as = (segs s as)[k := seg s' (as ! k)]"
proof (rule nth_equalityI)
  fix j assume "j < length (segs s' as)"
  with assms show "segs s' as ! j = (segs s as)[k := seg s' (as ! k)] ! j"
    by (cases "j = k") (simp_all add: nth_eq_iff_index_eq)
qed simp

section \<open>Moving a descriptor and rewriting a block\<close>

lemma fd_moved_inv:
  assumes inv: "ufs_inv B L s" and i: "i < length (file_descriptors s)"
    and d: "file_descriptors s ! i = Some d" and d': "fd_file d' = fd_file d"
    and p: "pos_ok s (B (fd_file d)) d'"
  shows "ufs_inv B L (store_fd i (Some d') s)" (is "ufs_inv B L ?s")
proof (rule ufs_invI)
  note D = ufs_invD[OF inv]
  have cnt: "length (filter P ((file_descriptors s)[i := Some d'])) = length (filter P (file_descriptors s))"
    if "P (Some d') = P (Some d)" for P
    using count_update[OF i, of P "Some d'"] that d by simp
  show "blocks_ok ?s" using D(1) by (simp add: blocks_ok_def)
  show "files_ok ?s B" using D(2) by (simp add: files_ok_def file_ok_def)
  show "owners_ok ?s B" using D(3) by (simp add: owners_ok_def)
  show "list_ok ?s L" using D(4) by (simp add: list_ok_def)
  show "refs_ok ?s" using D(5) d' by (simp add: refs_ok_def cnt opens_def)
  show "table_ok ?s" using D(6) cnt[of "\<lambda>d. d \<noteq> None"] by (simp add: table_ok_def)
  show "fds_ok ?s B"
    unfolding fds_ok_def
  proof (intro allI impI)
    fix e assume "Some e \<in> set (file_descriptors ?s)"
    then have "e = d' \<or> Some e \<in> set (file_descriptors s)"
      using set_update_subset_insert[of "file_descriptors s" i "Some d'"] by auto
    then show "fd_file e \<in> dom (files ?s) \<and> pos_ok ?s (B (fd_file e)) e"
    proof
      assume "e = d'"
      with inv_fd(1)[OF inv i d] d' p show ?thesis by (auto simp: pos_ok_def)
    next
      assume "Some e \<in> set (file_descriptors s)"
      with D(7) show ?thesis by (simp add: fds_ok_def pos_ok_frame[of ?s s])
    qed
  qed
  show "addrs_ok ?s" using D(8) by (simp add: addrs_ok_def)
qed

lemma block_rewritten_inv:
  assumes inv: "ufs_inv B L s" and b: "blocks s a = Some b"
    and b': "b_next b' = b_next b" "length (memory b') = BLOCK_SIZE"
      "occupied b \<le> occupied b'" "occupied b' \<le> BLOCK_SIZE"
  shows "ufs_inv B L (store_block a b' s)" (is "ufs_inv B L ?s")
proof (rule ufs_invI)
  note D = ufs_invD[OF inv]
  have nx: "block_next ?s = block_next s" using b b'(1) by (auto simp: block_next_def)
  have dom: "dom (blocks ?s) = dom (blocks s)" using b by auto
  show "blocks_ok ?s" using D(1) b' by (simp add: blocks_ok_def)
  show "files_ok ?s B" using D(2) unfolding files_ok_def file_ok_def nx by simp
  show "owners_ok ?s B" using D(3) unfolding owners_ok_def dom by simp
  show "list_ok ?s L" using D(4) by (simp add: list_ok_def)
  show "refs_ok ?s" using D(5) by (simp add: refs_ok_def)
  show "table_ok ?s" using D(6) by (simp add: table_ok_def)
  show "fds_ok ?s B"
    unfolding fds_ok_def
  proof (intro allI impI)
    fix d assume "Some d \<in> set (file_descriptors ?s)"
    with D(7) have d: "fd_file d \<in> dom (files s)" "pos_ok s (B (fd_file d)) d"
      by (simp_all add: fds_ok_def)
    have "pos_ok ?s (B (fd_file d) @ []) d"
      by (rule pos_ok_mono [OF d(2)]) (use b b'(3) in auto)
    with d(1) show "fd_file d \<in> dom (files ?s) \<and> pos_ok ?s (B (fd_file d)) d" by simp
  qed
  show "addrs_ok ?s" using D(8) unfolding addrs_ok_def dom by simp
qed

section \<open>Cursors\<close>

text \<open>Descriptor \<open>i\<close> stands in block \<open>k\<close> of its file, at offset \<open>block_pos d\<close>.\<close>

definition cursor :: "ufs \<Rightarrow> (addr \<Rightarrow> addr list) \<Rightarrow> nat \<Rightarrow> filedesc \<Rightarrow> nat \<Rightarrow> bool" where
  "cursor s B i d k \<longleftrightarrow> i < length (file_descriptors s) \<and> file_descriptors s ! i = Some d \<and>
     k < length (B (fd_file d)) \<and> curr_block d = Some (B (fd_file d) ! k) \<and>
     block_num d = Suc k \<and> block_pos d \<le> length (seg s (B (fd_file d) ! k))"

lemma cursorD:
  assumes inv: "ufs_inv B L s" and c: "cursor s B i d k"
  obtains f b where "files s (fd_file d) = Some f" "blocks s (B (fd_file d) ! k) = Some b"
    "load_fd i s = ret d" "load_block (curr_block d) s = ret b"
    "block_pos d \<le> occupied b" "occupied b \<le> BLOCK_SIZE" "length (memory b) = BLOCK_SIZE"
    "b_next b = (if Suc k < length (B (fd_file d)) then Some (B (fd_file d) ! Suc k) else None)"
    "seg s (B (fd_file d) ! k) = take (occupied b) (memory b)"
    "length (seg s (B (fd_file d) ! k)) = occupied b"
proof -
  note c' = c[unfolded cursor_def]
  obtain f where f: "files s (fd_file d) = Some f" using inv_fd(1)[OF inv] c' by blast
  have "B (fd_file d) ! k \<in> set (B (fd_file d))" using c' by simp
  then obtain b where b: "blocks s (B (fd_file d) ! k) = Some b" using inv_block[OF inv f] by blast
  have "block_next s (B (fd_file d) ! k) =
      Some (if Suc k < length (B (fd_file d)) then Some (B (fd_file d) ! Suc k) else None)"
    using chain_nth[OF inv_file(1)[OF inv f]] c' by blast
  with b have "b_next b = (if Suc k < length (B (fd_file d)) then Some (B (fd_file d) ! Suc k) else None)"
    by (simp add: block_next_def)
  with that[OF f b] c' b seg_live[OF inv b] show ?thesis by simp
qed

lemma cursor_pos_ok: "ufs_inv B L s \<Longrightarrow> cursor s B i d k \<Longrightarrow> pos_ok s (B (fd_file d)) d"
  by (elim cursorD, assumption) (auto simp: cursor_def pos_ok_def)

lemma pos_ok_cursor:
  assumes inv: "ufs_inv B L s" and i: "i < length (file_descriptors s)"
    and d: "file_descriptors s ! i = Some d" and "curr_block d \<noteq> None"
  shows "cursor s B i d (block_num d - 1)"
  using inv_fd(2)[OF inv i d]
proof (cases rule: pos_ok_cases)
  case fresh
  with assms(4) show ?thesis by simp
next
  case (at b)
  with seg_live[OF inv at(4)] i d show ?thesis by (simp add: cursor_def)
qed

lemma cursor_moved:
  assumes c: "cursor s B i d k" and "fd_file d' = fd_file d" and "k' < length (B (fd_file d))"
    and "curr_block d' = Some (B (fd_file d) ! k')" and "block_num d' = Suc k'"
    and "block_pos d' \<le> length (seg s (B (fd_file d) ! k'))"
  shows "cursor (store_fd i (Some d') s) B i d' k'"
  using assms by (simp add: cursor_def)

lemma cursor_moved_inv:
  assumes inv: "ufs_inv B L s" and c: "cursor s B i d k" and "fd_file d' = fd_file d"
    and c': "cursor (store_fd i (Some d') s) B i d' k'"
  shows "ufs_inv B L (store_fd i (Some d') s)"
proof -
  obtain f where f: "files s (fd_file d) = Some f" by (rule cursorD[OF inv c])
  have a: "B (fd_file d) ! k' \<in> set (B (fd_file d))" using c' assms(3) by (simp add: cursor_def)
  obtain b where b: "blocks s (B (fd_file d) ! k') = Some b" using inv_block[OF inv f a] by blast
  have "pos_ok s (B (fd_file d)) d'"
    using c' assms(3) seg_live(2)[OF inv b] b by (simp add: cursor_def pos_ok_def)
  with c assms(3) show ?thesis by (intro fd_moved_inv [OF inv]) (auto simp: cursor_def)
qed

lemma store_fd_twice [simp]: "store_fd i e (store_fd i d s) = store_fd i e s"
  by (simp add: store_fd_def)

lemma store_fd_same: "file_descriptors s ! i = d \<Longrightarrow> store_fd i d s = s"
  by (auto simp: store_fd_def intro!: ufs.equality)

lemma set_err_same [simp]: "set_err (ufs_errcode s) s = s" "ufs_errcode (store_fd i d s) = ufs_errcode s"
  by (simp_all add: set_err_def store_fd_def)

section \<open>Reading\<close>

fun stream :: "'a list list \<Rightarrow> 'a list" where
  "stream [] = []"
| "stream (x # xs) = x @ (if length x = BLOCK_SIZE then stream xs else [])"

text \<open>The bytes that a descriptor has still to read.\<close>

definition rest :: "ufs \<Rightarrow> addr list \<Rightarrow> filedesc \<Rightarrow> char option list" where
  "rest s as d = (if curr_block d = None then stream (segs s as)
     else drop (block_pos d) (stream (segs s (drop (block_num d - 1) as))))"

lemma rest_cursor:
  assumes "cursor s B i d k"
  shows "rest s (B (fd_file d)) d = drop (block_pos d) (seg s (B (fd_file d) ! k)) @
    (if length (seg s (B (fd_file d) ! k)) = BLOCK_SIZE
     then stream (segs s (drop (Suc k) (B (fd_file d)))) else [])"
  using assms by (auto simp: rest_def cursor_def simp flip: Cons_nth_drop_Suc)

lemma rest_frame [simp]:
  "rest (store_fd i e s) as d = rest s as d" "rest (set_err e' s) as d = rest s as d"
  by (simp_all add: rest_def)

lemma read_chunk_eq:
  assumes inv: "ufs_inv B L s" and c: "cursor s B i d k"
  defines "x \<equiv> drop (block_pos d) (seg s (B (fd_file d) ! k))"
  shows "read_chunk i sz s = ret (take sz x,
    store_fd i (Some (d\<lparr>block_pos := block_pos d + length (take sz x)\<rparr>)) s)"
proof -
  obtain b where b: "load_fd i s = ret d" "load_block (curr_block d) s = ret b"
    "block_pos d \<le> occupied b" "occupied b \<le> BLOCK_SIZE" "length (memory b) = BLOCK_SIZE"
    "seg s (B (fd_file d) ! k) = take (occupied b) (memory b)"
    by (rule cursorD[OF inv c])
  have "size_t_of_int (int (occupied b) - int (block_pos d)) = occupied b - block_pos d"
    using b(3,4) by (simp add: BLOCK_SIZE_def)
  moreover have "take sz x = take (min sz (occupied b - block_pos d)) (drop (block_pos d) (memory b))"
    using b(4-6) by (simp add: x_def drop_take)
  moreover have "length (take sz x) = min sz (occupied b - block_pos d)"
    using b(4-6) by (simp add: x_def)
  ultimately show ?thesis using b(1-5)
    by (cases "sz \<le> occupied b - block_pos d") (simp_all add: read_chunk_def)
qed

lemma read_advance_eq:
  assumes inv: "ufs_inv B L s" and c: "cursor s B i d k"
  shows "read_advance i s =
    (if block_pos d < BLOCK_SIZE then ret (True, s)
     else if Suc k < length (B (fd_file d)) then ret (True, store_fd i (Some (d\<lparr>block_pos := 0,
        block_num := block_num d + 1, curr_block := Some (B (fd_file d) ! Suc k)\<rparr>)) s)
     else ret (False, set_err UFS_ERR_NO_ERR s))"
  by (rule cursorD[OF inv c]) (simp add: read_advance_def)

text \<open>The advance moves to a place with the same bytes ahead, or finds that there are none.\<close>

lemma read_advance_rest:
  assumes inv: "ufs_inv B L s" and c: "cursor s B i d k"
  obtains (stop) "read_advance i s = ret (False, set_err UFS_ERR_NO_ERR s)"
      "rest s (B (fd_file d)) d = []"
  | (go) d' k' where "read_advance i s = ret (True, store_fd i (Some d') s)"
      "fd_file d' = fd_file d" "rw_flags d' = rw_flags d"
      "cursor (store_fd i (Some d') s) B i d' k'" "block_pos d' < BLOCK_SIZE"
      "rest s (B (fd_file d)) d' = rest s (B (fd_file d)) d"
proof (cases "block_pos d < BLOCK_SIZE")
  case True
  then have "read_advance i s = ret (True, store_fd i (Some d) s)"
    using c by (simp add: read_advance_eq[OF inv c] cursor_def store_fd_same)
  moreover have "cursor (store_fd i (Some d) s) B i d k" using c by (simp add: cursor_def)
  ultimately show ?thesis using True go[of d k] by blast
next
  case False
  with c cursorD[OF inv c] have full: "length (seg s (B (fd_file d) ! k)) = BLOCK_SIZE"
      "block_pos d = BLOCK_SIZE"
    by (metis le_antisym le_trans linorder_not_less)+
  show ?thesis
  proof (cases "Suc k < length (B (fd_file d))")
    case True
    let ?d = "d\<lparr>block_pos := 0, block_num := block_num d + 1, curr_block := Some (B (fd_file d) ! Suc k)\<rparr>"
    have c': "cursor (store_fd i (Some ?d) s) B i ?d (Suc k)"
      by (rule cursor_moved[OF c]) (use c True in \<open>auto simp: cursor_def\<close>)
    have "rest s (B (fd_file d)) ?d = rest s (B (fd_file d)) d"
      using c True full by (simp add: rest_cursor[OF c]) (simp add: rest_def cursor_def)
    with go[OF _ _ _ c'] True False show ?thesis by (simp add: read_advance_eq[OF inv c])
  next
    case False
    with stop full show ?thesis
      by (simp add: read_advance_eq[OF inv c] rest_cursor[OF c])
  qed
qed

definition moved :: "filedesc \<Rightarrow> filedesc \<Rightarrow> bool" where
  "moved d d' \<longleftrightarrow> fd_file d' = fd_file d \<and> rw_flags d' = rw_flags d"

lemma moved_refl [simp]: "moved d d" by (simp add: moved_def)

lemma moved_trans: "moved d e \<Longrightarrow> moved e f \<Longrightarrow> moved d f" by (simp add: moved_def)

lemma read_loop_eq:
  assumes "ufs_inv B L s" and "cursor s B i d k"
  shows "\<exists>d' e k'. read_loop i sz acc s = ret (acc @ take sz (rest s (B (fd_file d)) d),
      set_err e (store_fd i (Some d') s)) \<and> moved d d' \<and>
    cursor (store_fd i (Some d') s) B i d' k' \<and>
    rest s (B (fd_file d)) d' = drop sz (rest s (B (fd_file d)) d)"
  using assms
proof (induction sz arbitrary: acc s d k rule: less_induct)
  case (less sz)
  note inv = less.prems(1) and c = less.prems(2)
  have same: "store_fd i (Some d) s = s" using c by (simp add: store_fd_same cursor_def)
  show ?case
  proof (cases "sz = 0")
    case True
    with c same show ?thesis
      by (subst read_loop.simps) (intro exI[of _ d] exI[of _ UFS_ERR_NO_ERR] exI[of _ k], simp)
  next
    case False
    from inv c show ?thesis
    proof (cases rule: read_advance_rest)
      case stop
      with False c same show ?thesis
        by (subst read_loop.simps) (intro exI[of _ d] exI[of _ UFS_ERR_NO_ERR] exI[of _ k], simp)
    next
      case (go d1 k1)
      let ?s = "store_fd i (Some d1) s" and ?as = "B (fd_file d)"
      note inv1 = cursor_moved_inv[OF inv c go(2,4)]
      obtain b where b: "load_fd i ?s = ret d1" "load_block (curr_block d1) ?s = ret b"
        "length (seg ?s (B (fd_file d1) ! k1)) = occupied b" "occupied b \<le> BLOCK_SIZE"
        "block_pos d1 \<le> occupied b"
        by (rule cursorD[OF inv1 go(4)])
      let ?x = "drop (block_pos d1) (seg s (?as ! k1))"
      have r: "rest s ?as d = ?x @ (if occupied b = BLOCK_SIZE
          then stream (segs s (drop (Suc k1) ?as)) else [])"
        using rest_cursor[OF go(4)] b(3) go(2,6) by simp
      show ?thesis
      proof (cases "block_pos d1 = occupied b")
        case True
        with go(5) b(3) have "rest s ?as d = []" by (simp add: r go(2))
        with True False go b show ?thesis
          by (subst read_loop.simps)
            (intro exI[of _ d1] exI[of _ "ufs_errcode s"] exI[of _ k1], simp add: moved_def)
      next
        case neq: False
        let ?d = "d1\<lparr>block_pos := block_pos d1 + length (take sz ?x)\<rparr>"
        have chunk: "read_chunk i sz ?s = ret (take sz ?x, store_fd i (Some ?d) s)"
          using read_chunk_eq[OF inv1 go(4)] go(2) by simp
        have c2: "cursor (store_fd i (Some ?d) s) B i ?d k1"
          using cursor_moved[OF go(4), of ?d k1] go(2,4) b(3,5) by (simp add: cursor_def min_def) arith
        have inv2: "ufs_inv B L (store_fd i (Some ?d) s)"
          by (rule cursor_moved_inv[OF inv c _ c2]) (simp add: go(2))
        have pos: "0 < length (take sz ?x)" using neq b(3,5) False go(2) by simp
        have le: "length (take sz ?x) \<le> sz" by simp
        have tx: "take (length (take sz ?x)) (rest s ?as d) = take sz ?x"
          by (cases "length ?x \<le> sz") (simp_all add: r min_def)
        have "sz - length (take sz ?x) < sz" using pos False by linarith
        from less.IH[OF this inv2 c2, of "acc @ take sz ?x"] obtain d' e k' where
          IH: "read_loop i (sz - length (take sz ?x)) (acc @ take sz ?x) (store_fd i (Some ?d) s) =
            ret (acc @ take sz ?x @ take (sz - length (take sz ?x)) (rest s ?as ?d),
              set_err e (store_fd i (Some d') s))"
          "moved ?d d'" "cursor (store_fd i (Some d') s) B i d' k'"
          "rest s ?as d' = drop (sz - length (take sz ?x)) (rest s ?as ?d)"
          by (auto simp: go(2))
        have r2: "rest s ?as ?d = drop (length (take sz ?x)) (rest s ?as d)"
          using rest_cursor[OF c2] b(3) go(2) by (simp add: r drop_drop add.commute)
        have "take sz (rest s ?as d) = take sz ?x @ take (sz - length (take sz ?x)) (rest s ?as ?d)"
          unfolding r2 using take_add[of "length (take sz ?x)" "sz - length (take sz ?x)" "rest s ?as d"]
            le tx by (simp only: le_add_diff_inverse)
        moreover have "drop sz (rest s ?as d) = rest s ?as d'"
          unfolding IH(4) r2 using le by (simp only: drop_drop le_add_diff_inverse2)
        moreover have "moved d d'" using IH(2) go(2,3) by (simp add: moved_def)
        ultimately show ?thesis
          using IH(1,3) go(1) b neq chunk False
          by (subst read_loop.simps)
            (intro exI[of _ d'] exI[of _ e] exI[of _ k'], simp)
      qed
    qed
  qed
qed

section \<open>Looking up a descriptor\<close>

text \<open>The descriptor that an identifier of the API names.\<close>

definition open_fd :: "ufs \<Rightarrow> int \<Rightarrow> filedesc option" where
  "open_fd s fd = (if 1 \<le> fd \<and> fd \<le> int (length (file_descriptors s))
     then file_descriptors s ! nat (fd - 1) else None)"

lemma get_fd_eq:
  assumes "ufs_inv B L s"
  shows "ufs_get_fd fd s = ret (if open_fd s fd = None then None else Some (nat (fd - 1)))"
  using ufs_invD(6)[OF assms] by (auto simp: ufs_get_fd_def open_fd_def table_ok_def Let_def)

lemma open_fdD:
  assumes "open_fd s fd = Some d"
  shows "nat (fd - 1) < length (file_descriptors s)" "file_descriptors s ! nat (fd - 1) = Some d"
    "load_fd (nat (fd - 1)) s = ret d"
proof -
  show 1: "nat (fd - 1) < length (file_descriptors s)" "file_descriptors s ! nat (fd - 1) = Some d"
    using assms by (auto simp: open_fd_def split: if_splits)
  then show "load_fd (nat (fd - 1)) s = ret d" by simp
qed

lemma open_fd_store [simp]:
  "open_fd s fd \<noteq> None \<Longrightarrow> open_fd (store_fd (nat (fd - 1)) d' s) fd = d'"
  "open_fd (set_err e s) fd = open_fd s fd"
  by (auto simp: open_fd_def nth_list_update split: if_splits)

lemma open_fd_other:
  assumes "open_fd s fd \<noteq> None" and "fd' \<noteq> fd"
  shows "open_fd (store_fd (nat (fd - 1)) d' s) fd' = open_fd s fd'"
proof -
  have "nat (fd' - 1) \<noteq> nat (fd - 1)" if "1 \<le> fd'"
    using assms that by (auto simp: open_fd_def nat_eq_iff split: if_splits)
  then show ?thesis by (auto simp: open_fd_def nth_list_update)
qed

section \<open>The read call\<close>

definition may_read :: "filedesc \<Rightarrow> bool" where
  "may_read d \<longleftrightarrow> rw_flags d AND (UFS_READ_ONLY OR UFS_READ_WRITE) \<noteq> 0"

definition may_write :: "filedesc \<Rightarrow> bool" where
  "may_write d \<longleftrightarrow> rw_flags d AND (UFS_WRITE_ONLY OR UFS_READ_WRITE) \<noteq> 0"

lemma fresh_cursor:
  assumes inv: "ufs_inv B L s" and i: "i < length (file_descriptors s)"
    and d: "file_descriptors s ! i = Some d" "curr_block d = None" and ne: "B (fd_file d) \<noteq> []"
  defines "d' \<equiv> d\<lparr>curr_block := Some (hd (B (fd_file d))), block_num := 1\<rparr>"
  shows "cursor (store_fd i (Some d') s) B i d' 0" "ufs_inv B L (store_fd i (Some d') s)"
    "rest s (B (fd_file d)) d' = rest s (B (fd_file d)) d"
proof -
  have z: "block_pos d = 0" using inv_fd(2)[OF inv i d(1)] d(2) by (simp add: pos_ok_def)
  show c: "cursor (store_fd i (Some d') s) B i d' 0"
    using i ne z by (simp add: cursor_def d'_def hd_conv_nth)
  show "rest s (B (fd_file d)) d' = rest s (B (fd_file d)) d"
    using d(2) z by (simp add: rest_def d'_def)
  obtain f where f: "files s (fd_file d) = Some f" using inv_fd(1)[OF inv i d(1)] by blast
  obtain b where b: "blocks s (hd (B (fd_file d))) = Some b"
    using inv_block[OF inv f list.set_sel(1)[OF ne]] by blast
  show "ufs_inv B L (store_fd i (Some d') s)"
    by (rule fd_moved_inv[OF inv i d(1)])
      (use z ne b in \<open>simp_all add: d'_def pos_ok_def hd_conv_nth Suc_le_eq\<close>)
qed

lemma ufs_read_spec:
  assumes inv: "ufs_inv B L s" and d: "open_fd s fd = Some d" and m: "may_read d"
  defines "r \<equiv> rest s (B (fd_file d)) d"
  shows "\<exists>d' e. ufs_read fd n s = ret (int (length (take n r)), take n r,
      set_err e (store_fd (nat (fd - 1)) (Some d') s)) \<and> moved d d' \<and>
    ufs_inv B L (store_fd (nat (fd - 1)) (Some d') s) \<and> rest s (B (fd_file d)) d' = drop n r"
proof -
  let ?i = "nat (fd - 1)" and ?as = "B (fd_file d)"
  note i = open_fdD[OF d]
  have start: "ufs_read fd n s = bnd (read_start ?i s) (\<lambda>(go, s). if \<not> go then ret (0, [], s)
      else bnd (read_loop ?i n [] s) (\<lambda>(xs, s). ret (int (length xs), xs, s)))"
    using d i(3) m by (simp add: ufs_read_def get_fd_eq[OF inv] may_read_def)
  obtain f where f: "files s (fd_file d) = Some f" using inv_fd(1)[OF inv i(1,2)] by blast
  have loop: ?thesis if inv1: "ufs_inv B L (store_fd ?i (Some d1) s)"
    and c1: "cursor (store_fd ?i (Some d1) s) B ?i d1 k"
    and s1: "read_start ?i s = ret (True, store_fd ?i (Some d1) s)"
    and r1: "rest s ?as d1 = r" "moved d d1" for d1 k
  proof -
    have fd1: "fd_file d1 = fd_file d" using r1(2) by (simp add: moved_def)
    obtain d' e k' where l: "read_loop ?i n [] (store_fd ?i (Some d1) s) = ret (take n r,
        set_err e (store_fd ?i (Some d') s))" "moved d1 d'"
      "cursor (store_fd ?i (Some d') s) B ?i d' k'" "rest s ?as d' = drop n r"
      using read_loop_eq[OF inv1 c1, of n "[]"] r1 fd1 by auto
    have "ufs_inv B L (store_fd ?i (Some d') s)"
      using cursor_moved_inv[OF inv1 c1, of d' k'] l(2,3) by (simp add: moved_def)
    with l r1(2) start s1 moved_trans show ?thesis by (fastforce simp del: length_take)
  qed
  show ?thesis
  proof (cases "curr_block d")
    case None
    show ?thesis
    proof (cases "?as = []")
      case True
      then have "r = []" "block_list f = None"
        using None inv_file(5)[OF inv f] by (simp_all add: r_def rest_def)
      with None i f start inv show ?thesis
        by (intro exI[of _ d] exI[of _ UFS_ERR_NO_ERR])
          (simp add: read_start_def store_fd_same r_def)
    next
      case False
      note fc = fresh_cursor[OF inv i(1,2) None False]
      from loop[OF fc(2,1)] show ?thesis
        using None i f inv_file(5)[OF inv f] False fc(3)
        by (simp add: read_start_def r_def moved_def)
    qed
  next
    case (Some a)
    have "store_fd ?i (Some d) s = s" using i(2) by (simp add: store_fd_same)
    with loop[of d "block_num d - 1"] Some pos_ok_cursor[OF inv i(1,2)] inv i show ?thesis
      by (simp add: read_start_def r_def)
  qed
qed

section \<open>What a write does to the segments\<close>

text \<open>
  \<open>put xs k p buf\<close> writes \<open>buf\<close> at offset \<open>p\<close> of segment \<open>k\<close> and continues in the next
  segments, appending empty ones at the end of the file; the result is the new segments and
  the final place. There is no result when the bytes would have to go into the middle of a
  segment that is already full.
\<close>

function put :: "'a list list \<Rightarrow> nat \<Rightarrow> nat \<Rightarrow> 'a list \<Rightarrow> ('a list list \<times> nat \<times> nat) option" where
  "put xs k p buf =
     (if buf = [] then Some (xs, k, p)
      else if BLOCK_SIZE \<le> p then put (if Suc k < length xs then xs else xs @ [[]]) (Suc k) 0 buf
      else if length (xs ! k) = BLOCK_SIZE then None
      else let n = min (length buf) (BLOCK_SIZE - p)
        in put (xs[k := blit (xs ! k) p (take n buf)]) k (p + n) (drop n buf))"
  by pat_completeness auto
termination
  by (relation "measures [\<lambda>(xs, k, p, buf). length buf, \<lambda>(xs, k, p, buf). p]")
    (auto simp: BLOCK_SIZE_def)

declare put.simps [simp del]

lemma put_Nil [simp]: "put xs k p [] = Some (xs, k, p)"
  by (simp add: put.simps)

lemma put_next: "buf \<noteq> [] \<Longrightarrow>
    put xs k BLOCK_SIZE buf = put (if Suc k < length xs then xs else xs @ [[]]) (Suc k) 0 buf"
  by (subst put.simps) simp

lemma put_full: "buf \<noteq> [] \<Longrightarrow> p < BLOCK_SIZE \<Longrightarrow> length (xs ! k) = BLOCK_SIZE \<Longrightarrow>
    put xs k p buf = None"
  by (subst put.simps) simp

text \<open>A write may be done in pieces.\<close>

lemma put_chunk:
  assumes "0 < c" and "c \<le> length buf" and "p + c \<le> BLOCK_SIZE" and "k < length xs"
    and "length (xs ! k) < BLOCK_SIZE" and "p \<le> length (xs ! k)"
  shows "put xs k p buf = put (xs[k := blit (xs ! k) p (take c buf)]) k (p + c) (drop c buf)"
proof -
  let ?n = "min (length buf) (BLOCK_SIZE - p)"
  have lhs: "put xs k p buf = put (xs[k := blit (xs ! k) p (take ?n buf)]) k (p + ?n) (drop ?n buf)"
    using assms by (subst put.simps) (auto simp: Let_def)
  show ?thesis
  proof (cases "c = ?n")
    case True
    with lhs show ?thesis by simp
  next
    case False
    let ?x = "blit (xs ! k) p (take c buf)" and ?m = "min (length (drop c buf)) (BLOCK_SIZE - (p + c))"
    from False assms(2,3) have lt: "c < length buf" "p + c < BLOCK_SIZE" by auto
    have "length ?x < BLOCK_SIZE"
      using assms lt by (simp add: length_blit_max)
    with lt assms(4) have "put (xs[k := ?x]) k (p + c) (drop c buf) =
      put (xs[k := blit ?x (p + c) (take ?m (drop c buf))]) k (p + c + ?m) (drop ?m (drop c buf))"
      by (subst put.simps) (auto simp: Let_def)
    moreover have "?n = c + ?m" using lt by auto
    moreover have "blit ?x (p + c) (take ?m (drop c buf)) = blit (xs ! k) p (take (c + ?m) buf)"
      using blit_blit_adjacent[OF assms(6), of "take c buf"] lt(1) by (simp add: take_add min_def)
    ultimately show ?thesis using lhs by (simp add: ac_simps)
  qed
qed

section \<open>The steps of a write\<close>

text \<open>Growing a file does not change what its other descriptors and readers see.\<close>

lemma grown_segs:
  assumes inv: "ufs_inv B L s" and f: "files s fa = Some f"
  shows "a \<in> dom (blocks s) \<Longrightarrow> seg (grown fa f s) a = seg s a"
    and "seg (grown fa f s) (next_addr s) = []"
proof -
  show "seg (grown fa f s) a = seg s a" if "a \<in> dom (blocks s)"
    using that grown_blocks(1)[OF inv f] by (fastforce simp: seg_def)
  show "seg (grown fa f s) (next_addr s) = []"
    using grown_blocks(2)[OF inv f] by (auto simp: seg_def)
qed

text \<open>What a write to file \<open>fa\<close> through descriptor \<open>i\<close> leaves alone.\<close>

definition wrote :: "nat \<Rightarrow> addr \<Rightarrow> (addr \<Rightarrow> addr list) \<Rightarrow> ufs \<Rightarrow> (addr \<Rightarrow> addr list) \<Rightarrow> ufs \<Rightarrow> bool" where
  "wrote i fa B s B' s' \<longleftrightarrow>
     (\<forall>ga \<in> dom (files s). ga \<noteq> fa \<longrightarrow>
        files s' ga = files s ga \<and> B' ga = B ga \<and> segs s' (B ga) = segs s (B ga)) \<and>
     dom (files s') = dom (files s) \<and>
     (\<exists>new. B' fa = B fa @ new) \<and>
     map_option fname (files s' fa) = map_option fname (files s fa) \<and>
     map_option deleted (files s' fa) = map_option deleted (files s fa) \<and>
     map_option refs (files s' fa) = map_option refs (files s fa) \<and>
     length (file_descriptors s') = length (file_descriptors s) \<and>
     (\<forall>j. j \<noteq> i \<longrightarrow> file_descriptors s' ! j = file_descriptors s ! j)"

lemma wrote_refl [simp]: "wrote i fa B s B s"
  by (simp add: wrote_def)

lemma wrote_trans:
  assumes 1: "wrote i fa B s B' s'" and 2: "wrote i fa B' s' B'' s''"
  shows "wrote i fa B s B'' s''"
proof -
  obtain xs ys where "B' fa = B fa @ xs" "B'' fa = B' fa @ ys" using 1 2 by (auto simp: wrote_def)
  then have "\<exists>new. B'' fa = B fa @ new" by simp
  with 1 2 show ?thesis unfolding wrote_def by auto
qed

lemma grown_wrote:
  assumes inv: "ufs_inv B L s" and f: "files s fa = Some f"
  shows "wrote i fa B s (B(fa := B fa @ [next_addr s])) (grown fa f s)"
proof -
  have "segs (grown fa f s) (B ga) = segs s (B ga)" if "files s ga = Some g" for ga g
    by (rule segs_cong) (use inv_block[OF inv that] grown_segs(1)[OF inv f] in blast)
  moreover have "files (grown fa f s) ga = files s ga" if "ga \<noteq> fa" for ga
    using that by (simp add: grown_def Let_def)
  moreover obtain g where "files (grown fa f s) fa = Some g" "fname g = fname f" "deleted g = deleted f"
      "refs g = refs f"
    by (simp add: grown_def Let_def)
  moreover from this f have "dom (files (grown fa f s)) = dom (files s)"
    by (auto simp: dom_def) (metis calculation(2) option.distinct(1))+
  moreover have "file_descriptors (grown fa f s) = file_descriptors s"
    by (simp add: grown_def Let_def)
  ultimately show ?thesis using f by (simp add: wrote_def) blast
qed

lemma rewritten_wrote:
  assumes inv: "ufs_inv B L s" and f: "files s fa = Some f" and a: "a \<in> set (B fa)"
  shows "wrote i fa B s B (store_block a b' s)"
proof -
  have "segs (store_block a b' s) (B ga) = segs s (B ga)" if "ga \<noteq> fa" "files s ga = Some g" for ga g
  proof (rule segs_cong)
    fix c assume "c \<in> set (B ga)"
    then have "c \<noteq> a" using ufs_invD(3)[OF inv] f a that unfolding owners_ok_def by blast
    then show "seg (store_block a b' s) c = seg s c" by (simp add: seg_def)
  qed
  then show ?thesis by (auto simp: wrote_def)
qed

lemma wrote_store_fd: "wrote i fa B s B' s' \<Longrightarrow> wrote i fa B s B' (store_fd i d s')"
  by (simp add: wrote_def)

lemma write_chunk_spec:
  fixes buf :: "char list"
  assumes inv: "ufs_inv B L s" and c: "cursor s B i d k"
  defines "a \<equiv> B (fd_file d) ! k"
  defines "n \<equiv> min (length buf) (BLOCK_SIZE - length (seg s a))"
  obtains s1 d1 where "write_chunk i buf s = ret (n, s1)" "ufs_inv B L s1"
    "wrote i (fd_file d) B s B s1" "cursor s1 B i d1 k" "moved d d1" "block_pos d1 = block_pos d + n"
    "segs s1 (B (fd_file d)) = (segs s (B (fd_file d)))[k := blit (seg s a) (block_pos d) (map Some (take n buf))]"
proof -
  obtain f b where f: "files s (fd_file d) = Some f" and b: "blocks s a = Some b"
    "load_fd i s = ret d" "load_block (curr_block d) s = ret b"
    "block_pos d \<le> occupied b" "occupied b \<le> BLOCK_SIZE" "length (memory b) = BLOCK_SIZE"
    "seg s a = take (occupied b) (memory b)" "length (seg s a) = occupied b"
    by (rule cursorD[OF inv c, folded a_def])
  let ?xs = "map Some (take n buf)"
  let ?b = "b\<lparr>memory := blit (memory b) (block_pos d) ?xs, occupied := max (occupied b) (block_pos d + n)\<rparr>"
  let ?d = "d\<lparr>block_pos := block_pos d + n\<rparr>"
  let ?s = "store_block a ?b s"
  have n: "n = (if length buf > BLOCK_SIZE - occupied b then BLOCK_SIZE - occupied b else length buf)"
    and len: "length ?xs = n" and fit: "block_pos d + n \<le> BLOCK_SIZE"
    using b(5,6,8) b(4) by (auto simp: n_def min_def)
  have ca: "curr_block d = Some a" "a \<in> set (B (fd_file d))" using c by (auto simp: cursor_def a_def)
  have "size_t_of_int (int BLOCK_SIZE - int (occupied b)) = BLOCK_SIZE - occupied b"
    using b(5) by (simp add: BLOCK_SIZE_def)
  then have m: "(if size_t_of_int (int BLOCK_SIZE - int (occupied b)) < length buf
      then size_t_of_int (int BLOCK_SIZE - int (occupied b)) else length buf) = n"
    by (simp add: n)
  have 1: "write_chunk i buf s = ret (n, store_fd i (Some ?d) ?s)"
    unfolding write_chunk_def b(2) bnd_simps b(3) Let_def
    using b(4-6) fit ca(1) by (simp add: m max_def)
  have inv1: "ufs_inv B L ?s"
    by (rule block_rewritten_inv[OF inv b(1)]) (use b(4-6) fit len in auto)
  have seg1: "seg ?s a = blit (seg s a) (block_pos d) ?xs"
    using take_max_blit[of "block_pos d" "occupied b" "memory b" ?xs] b(4-7) fit len
    by (simp add: seg_def)
  then have len1: "length (seg ?s a) = max (occupied b) (block_pos d + n)"
    using b(4,8) len by (simp add: length_blit_max)
  have c1: "cursor ?s B i d k" using c len1 b(4) by (simp add: cursor_def a_def)
  then have c2: "cursor (store_fd i (Some ?d) ?s) B i ?d k"
    by (rule cursor_moved) (use c len1 in \<open>auto simp: cursor_def a_def\<close>)
  have inv2: "ufs_inv B L (store_fd i (Some ?d) ?s)"
    by (rule cursor_moved_inv[OF inv1 c1 _ c2]) simp
  have w: "wrote i (fd_file d) B s B (store_fd i (Some ?d) ?s)"
    by (intro wrote_store_fd rewritten_wrote[OF inv f ca(2)])
  have "segs ?s (B (fd_file d)) = (segs s (B (fd_file d)))[k := seg ?s a]"
    unfolding a_def by (rule segs_update[OF inv_file(4)[OF inv f]])
      (use c in \<open>auto simp: cursor_def seg_def\<close>)
  with that[OF 1 inv2 w c2] seg1 show ?thesis by (simp add: moved_def)
qed

lemma write_advance_spec:
  assumes inv: "ufs_inv B L s" and c: "cursor s B i d k"
  defines "xs \<equiv> segs s (B (fd_file d))"
  shows "block_pos d < BLOCK_SIZE \<Longrightarrow> write_advance i s = ret s"
    and "block_pos d = BLOCK_SIZE \<Longrightarrow> \<exists>s1 B1 d1. write_advance i s = ret s1 \<and> ufs_inv B1 L s1 \<and>
      wrote i (fd_file d) B s B1 s1 \<and> cursor s1 B1 i d1 (Suc k) \<and> moved d d1 \<and> block_pos d1 = 0 \<and>
      segs s1 (B1 (fd_file d)) = (if Suc k < length xs then xs else xs @ [[]])"
proof -
  obtain f b where f: "files s (fd_file d) = Some f" and b: "blocks s (B (fd_file d) ! k) = Some b"
    "load_fd i s = ret d" "load_block (curr_block d) s = ret b"
    "b_next b = (if Suc k < length (B (fd_file d)) then Some (B (fd_file d) ! Suc k) else None)"
    by (rule cursorD[OF inv c])
  show "block_pos d < BLOCK_SIZE \<Longrightarrow> write_advance i s = ret s"
    using b(2) by (simp add: write_advance_def)
  assume full: "block_pos d = BLOCK_SIZE"
  show "\<exists>s1 B1 d1. write_advance i s = ret s1 \<and> ufs_inv B1 L s1 \<and>
      wrote i (fd_file d) B s B1 s1 \<and> cursor s1 B1 i d1 (Suc k) \<and> moved d d1 \<and> block_pos d1 = 0 \<and>
      segs s1 (B1 (fd_file d)) = (if Suc k < length xs then xs else xs @ [[]])"
  proof (cases "Suc k < length (B (fd_file d))")
    case True
    let ?d = "d\<lparr>block_pos := 0, block_num := block_num d + 1, curr_block := Some (B (fd_file d) ! Suc k)\<rparr>"
    have c1: "cursor (store_fd i (Some ?d) s) B i ?d (Suc k)"
      by (rule cursor_moved[OF c]) (use c True in \<open>auto simp: cursor_def\<close>)
    have "write_advance i s = ret (store_fd i (Some ?d) s)"
      using full True b(2-4) by (simp add: write_advance_def)
    with cursor_moved_inv[OF inv c _ c1] c1 True show ?thesis
      by (intro exI[of _ "store_fd i (Some ?d) s"] exI[of _ B] exI[of _ ?d])
        (simp add: wrote_store_fd moved_def xs_def)
  next
    case False
    let ?n = "next_addr s" and ?s = "grown (fd_file d) f s"
    let ?B = "B(fd_file d := B (fd_file d) @ [next_addr s])"
    let ?d = "d\<lparr>block_pos := 0, block_num := block_num d + 1, curr_block := Some ?n\<rparr>"
    have k: "length (B (fd_file d)) = Suc k" using False c by (simp add: cursor_def)
    have fds: "file_descriptors ?s = file_descriptors s" by (simp add: grown_def Let_def)
    have old: "seg ?s a = seg s a" if "a \<in> set (B (fd_file d))" for a
      using inv_block[OF inv f that] grown_segs(1)[OF inv f] by blast
    note inv1 = grown_inv[OF inv f]
    have c1: "cursor ?s ?B i d k"
      using c k old[of "B (fd_file d) ! k"] by (simp add: cursor_def fds nth_append)
    obtain g b1 where b1: "load_block (curr_block d) ?s = ret b1" "b_next b1 = Some ?n"
      by (rule cursorD[OF inv1 c1]) (use k in \<open>auto simp: nth_append\<close>)
    have 1: "write_advance i s = ret (store_fd i (Some ?d) ?s)"
      using full False b(2-4) b1 by (simp add: write_advance_def increase_file_eq[OF inv f])
    have c2: "cursor (store_fd i (Some ?d) ?s) ?B i ?d (Suc k)"
      by (rule cursor_moved[OF c1]) (use c k in \<open>auto simp: cursor_def nth_append\<close>)
    have "ufs_inv ?B L (store_fd i (Some ?d) ?s)" by (rule cursor_moved_inv[OF inv1 c1 _ c2]) simp
    moreover have "wrote i (fd_file d) B s ?B (store_fd i (Some ?d) ?s)"
      by (intro wrote_store_fd grown_wrote[OF inv f])
    moreover have "segs ?s (B (fd_file d)) = xs" unfolding xs_def by (rule segs_cong) (rule old)
    ultimately show ?thesis using 1 c2 grown_segs(2)[OF inv f] k
      by (intro exI[of _ "store_fd i (Some ?d) ?s"] exI[of _ ?B] exI[of _ ?d])
        (simp add: moved_def xs_def)
  qed
qed

section \<open>The write loop\<close>

definition stuck :: "nat \<Rightarrow> ufs \<Rightarrow> bool" where
  "stuck i s \<longleftrightarrow> (\<exists>B L d k. ufs_inv B L s \<and> cursor s B i d k \<and> block_pos d < BLOCK_SIZE \<and>
     length (seg s (B (fd_file d) ! k)) = BLOCK_SIZE)"

lemma stuck_step:
  assumes "stuck i s" and "buf \<noteq> []"
  shows "write_advance i s = ret s"
    and "\<exists>s1. write_chunk i buf s = ret (0, s1) \<and> stuck i s1"
proof -
  from assms(1) obtain B L d k where inv: "ufs_inv B L s" and c: "cursor s B i d k"
    and p: "block_pos d < BLOCK_SIZE" and x: "length (seg s (B (fd_file d) ! k)) = BLOCK_SIZE"
    unfolding stuck_def by blast
  show "write_advance i s = ret s" by (rule write_advance_spec(1)[OF inv c p])
  have k: "k < length (B (fd_file d))" using c by (simp add: cursor_def)
  let ?n = "min (length buf) (BLOCK_SIZE - length (seg s (B (fd_file d) ! k)))"
  obtain s1 d1 where s1': "write_chunk i buf s = ret (?n, s1)" "ufs_inv B L s1"
    "cursor s1 B i d1 k" "moved d d1" "block_pos d1 = block_pos d + ?n"
    "segs s1 (B (fd_file d)) = (segs s (B (fd_file d)))[k := blit (seg s (B (fd_file d) ! k)) (block_pos d)
      (map Some (take ?n buf))]"
    by (rule write_chunk_spec[OF inv c])
  have "?n = 0" by (simp add: x)
  note s1 = s1'[unfolded this]
  have "segs s1 (B (fd_file d)) ! k = segs s (B (fd_file d)) ! k" using s1(6) k by simp
  then have "seg s1 (B (fd_file d) ! k) = seg s (B (fd_file d) ! k)" using k by simp
  with s1 p x have "stuck i s1" unfolding stuck_def moved_def
    by (intro exI[of _ B] exI[of _ L] exI[of _ d1] exI[of _ k]) simp
  with s1(1) show "\<exists>s1. write_chunk i buf s = ret (0, s1) \<and> stuck i s1" by blast
qed

text \<open>In the middle of a full block the loop copies nothing and never ends.\<close>

lemma write_stuck:
  assumes "stuck i s" and "buf \<noteq> []"
  shows "write_loop i buf w s = None"
proof -
  have "\<not> (stuck i s \<and> buf \<noteq> [])" if "write_loop i buf w s = Some r" for r
    using that
  proof (rule write_loop.raw_induct [rotated])
    fix f i buf w s r
    assume IH: "\<And>i buf w s r. f i buf w s = Some r \<Longrightarrow> \<not> (stuck i s \<and> buf \<noteq> [])"
      and r: "(if buf = [] then ret (w, s)
        else bnd (write_advance i s) (\<lambda>s. bnd (write_chunk i buf s) (\<lambda>(n, s). f i (drop n buf) (w + n) s))) = Some r"
    show "\<not> (stuck i s \<and> buf \<noteq> [])"
    proof
      assume *: "stuck i s \<and> buf \<noteq> []"
      then obtain s1 where s1: "write_chunk i buf s = ret (0, s1)" "stuck i s1"
        using stuck_step(2) by blast
      moreover from * have "write_advance i s = ret s" using stuck_step(1) by blast
      ultimately have "f i buf w s1 = Some r" using * r by simp
      from IH[OF this] s1(2) * show False by blast
    qed
  qed
  with assms show ?thesis by (cases "write_loop i buf w s") auto
qed

definition writes_as :: "nat \<Rightarrow> char list \<Rightarrow> ufs \<Rightarrow> (addr \<Rightarrow> addr list) \<Rightarrow> addr list \<Rightarrow> filedesc \<Rightarrow>
    (nat \<times> ufs) run \<Rightarrow> nat \<Rightarrow> (char option list list \<times> nat \<times> nat) option \<Rightarrow> bool" where
  "writes_as i buf s B L d m w r \<longleftrightarrow> (case r of None \<Rightarrow> m = None
     | Some (ys, k, p) \<Rightarrow> \<exists>s' B' d'. m = ret (w + length buf, s') \<and> ufs_inv B' L s' \<and>
         wrote i (fd_file d) B s B' s' \<and> cursor s' B' i d' k \<and> moved d d' \<and> block_pos d' = p \<and>
         segs s' (B' (fd_file d)) = ys)"

lemma writes_as_step:
  assumes w: "wrote i (fd_file d) B s B1 s1" and "moved d d1"
    and "writes_as i (drop n buf) s1 B1 L d1 m (w + n) r" and "n \<le> length buf"
  shows "writes_as i buf s B L d m w r"
proof -
  have fd: "fd_file d1 = fd_file d" using assms(2) by (simp add: moved_def)
  show ?thesis
  proof (cases r)
    case None
    with assms(3) show ?thesis by (simp add: writes_as_def)
  next
    case (Some q)
    then obtain ys k p where r: "r = Some (ys, k, p)" by (cases q) auto
    with assms(3,4) fd obtain s' B' d' where "m = ret (w + length buf, s')" "ufs_inv B' L s'"
      "wrote i (fd_file d) B1 s1 B' s'" "cursor s' B' i d' k" "moved d1 d'" "block_pos d' = p"
      "segs s' (B' (fd_file d)) = ys" by (auto simp: writes_as_def)
    moreover from this have "wrote i (fd_file d) B s B' s'" "moved d d'"
      using wrote_trans[OF w] moved_trans[OF assms(2)] by blast+
    ultimately show ?thesis
      unfolding writes_as_def r by (simp, intro exI[of _ B'] conjI exI[of _ d']) simp_all
  qed
qed

lemma write_loop_put:
  assumes "ufs_inv B L s" and "cursor s B i d k"
  shows "writes_as i buf s B L d (write_loop i buf w s) w
    (put (segs s (B (fd_file d))) k (block_pos d) (map Some buf))"
  using assms
proof (induction buf arbitrary: w s B d k rule: length_induct)
  case (1 buf)
  have mid: "writes_as i buf s B L d (write_loop i buf w s) w
      (put (segs s (B (fd_file d))) k (block_pos d) (map Some buf))"
    if inv: "ufs_inv B L s" and c: "cursor s B i d k" and ne: "buf \<noteq> []" and p: "block_pos d < BLOCK_SIZE"
    for w s B d k
  proof (cases "length (seg s (B (fd_file d) ! k)) = BLOCK_SIZE")
    case True
    with inv c p have "stuck i s" unfolding stuck_def by blast
    with True p ne c show ?thesis
      by (simp add: writes_as_def write_stuck put_full cursor_def)
  next
    case False
    let ?x = "seg s (B (fd_file d) ! k)"
    let ?n = "min (length buf) (BLOCK_SIZE - length ?x)"
    have x: "block_pos d \<le> length ?x" "k < length (B (fd_file d))" using c by (simp_all add: cursor_def)
    have xl: "length ?x < BLOCK_SIZE" by (rule cursorD[OF inv c]) (use False in linarith)
    obtain s1 d1 where s1: "write_chunk i buf s = ret (?n, s1)" "ufs_inv B L s1"
      "wrote i (fd_file d) B s B s1" "cursor s1 B i d1 k" "moved d d1" "block_pos d1 = block_pos d + ?n"
      "segs s1 (B (fd_file d)) = (segs s (B (fd_file d)))[k := blit ?x (block_pos d) (map Some (take ?n buf))]"
      by (rule write_chunk_spec[OF inv c])
    have fd: "fd_file d1 = fd_file d" using s1(5) by (simp add: moved_def)
    have l: "write_loop i buf w s = write_loop i (drop ?n buf) (w + ?n) s1"
      using ne write_advance_spec(1)[OF inv c p] s1(1) by (subst write_loop.simps) simp
    have "length (drop ?n buf) < length buf" using xl ne by simp
    with 1 s1(2,4) have "writes_as i (drop ?n buf) s1 B L d1 (write_loop i (drop ?n buf) (w + ?n) s1) (w + ?n)
      (put (segs s1 (B (fd_file d1))) k (block_pos d1) (map Some (drop ?n buf)))" by blast
    moreover have "put (segs s1 (B (fd_file d1))) k (block_pos d1) (map Some (drop ?n buf)) =
        put (segs s (B (fd_file d))) k (block_pos d) (map Some buf)"
      using put_chunk[of ?n "map Some buf" "block_pos d" k "segs s (B (fd_file d))"] x xl ne s1(6,7)
      by (simp add: fd take_map drop_map)
    ultimately show ?thesis
      unfolding l by (intro writes_as_step[OF s1(3,5), of ?n]) simp_all
  qed
  show ?case
  proof (cases "buf = []")
    case True
    with "1.prems" show ?thesis
      by (simp add: writes_as_def write_loop.simps)
        (intro exI[of _ B] exI[of _ d] conjI, simp_all)
  next
    case ne: False
    note inv = "1.prems"(1) and c = "1.prems"(2)
    show ?thesis
    proof (cases "block_pos d < BLOCK_SIZE")
      case True
      with mid inv c ne show ?thesis by blast
    next
      case False
      have full: "block_pos d = BLOCK_SIZE" by (rule cursorD[OF inv c]) (use False in linarith)
      obtain s1 B1 d1 where s1: "write_advance i s = ret s1" "ufs_inv B1 L s1"
        "wrote i (fd_file d) B s B1 s1" "cursor s1 B1 i d1 (Suc k)" "moved d d1" "block_pos d1 = 0"
        "segs s1 (B1 (fd_file d)) = (if Suc k < length (segs s (B (fd_file d))) then segs s (B (fd_file d))
          else segs s (B (fd_file d)) @ [[]])"
        using write_advance_spec(2)[OF inv c full] by blast
      have fd: "fd_file d1 = fd_file d" using s1(5) by (simp add: moved_def)
      have p1: "block_pos d1 < BLOCK_SIZE" using s1(6) by simp
      have "write_loop i buf w s = bnd (write_chunk i buf s1) (\<lambda>(n, s). write_loop i (drop n buf) (w + n) s)"
        using ne s1(1) by (subst write_loop.simps) simp
      also have "\<dots> = write_loop i buf w s1"
        using ne write_advance_spec(1)[OF s1(2,4) p1] by (subst (2) write_loop.simps) simp
      finally have "write_loop i buf w s = write_loop i buf w s1" .
      moreover have "put (segs s (B (fd_file d))) k (block_pos d) (map Some buf) =
          put (segs s1 (B1 (fd_file d1))) (Suc k) (block_pos d1) (map Some buf)"
        using ne full s1(6,7) fd by (simp add: put_next)
      ultimately show ?thesis
        using writes_as_step[OF s1(3,5), of 0 buf L] mid[OF s1(2,4) ne p1, of w] by simp
    qed
  qed
qed

section \<open>The write call\<close>

lemma wrote_ghosts:
  assumes w: "wrote i fa B s B' s'" and g: "ghosts_ok s"
  shows "ghosts_ok s'"
  unfolding ghosts_ok_def
proof (intro allI impI)
  fix ga f' assume f': "files s' ga = Some f'" "deleted f'"
  have "dom (files s') = dom (files s)" using w by (simp add: wrote_def)
  with f'(1) obtain f where f: "files s ga = Some f" by blast
  have "deleted f = deleted f' \<and> refs f = refs f'"
  proof (cases "ga = fa")
    case True
    with w f f' show ?thesis by (simp add: wrote_def)
  next
    case False
    with w f f' show ?thesis by (auto simp: wrote_def)
  qed
  with g f f'(2) show "0 < refs f'" unfolding ghosts_ok_def by metis
qed

text \<open>The segments a writer starts from, and its place in them.\<close>

definition write_segs :: "ufs \<Rightarrow> addr list \<Rightarrow> char option list list" where
  "write_segs s as = (if as = [] then [[]] else segs s as)"

definition place :: "filedesc \<Rightarrow> nat \<times> nat" where
  "place d = (if curr_block d = None then (0, 0) else (block_num d - 1, block_pos d))"

lemma write_start_spec:
  assumes inv: "ufs_inv B L s" and d: "open_fd s fd = Some d"
  obtains s1 B1 d1 where "write_start (nat (fd - 1)) s = ret s1" "ufs_inv B1 L s1"
    "wrote (nat (fd - 1)) (fd_file d) B s B1 s1" "cursor s1 B1 (nat (fd - 1)) d1 (fst (place d))"
    "moved d d1" "block_pos d1 = snd (place d)"
    "segs s1 (B1 (fd_file d)) = write_segs s (B (fd_file d))"
proof -
  let ?i = "nat (fd - 1)" and ?fa = "fd_file d"
  note i = open_fdD[OF d]
  obtain f where f: "files s ?fa = Some f" using inv_fd(1)[OF inv i(1,2)] by blast
  have z: "block_pos d = 0" if "curr_block d = None"
    using inv_fd(2)[OF inv i(1,2)] that by (simp add: pos_ok_def)
  show thesis
  proof (cases "curr_block d")
    case (Some a)
    then have "B ?fa \<noteq> []" using pos_ok_cursor[OF inv i(1,2)] by (auto simp: cursor_def)
    then have "segs s (B ?fa) = write_segs s (B ?fa)" by (simp add: write_segs_def)
    moreover have "write_start ?i s = ret s" using Some i(3) by (simp add: write_start_def)
    moreover have "place d = (block_num d - 1, block_pos d)" using Some by (simp add: place_def)
    moreover have "cursor s B ?i d (block_num d - 1)" using Some pos_ok_cursor[OF inv i(1,2)] by simp
    ultimately show thesis using inv by (intro that[of s B d]) simp_all
  next
    case None
    show thesis
    proof (cases "B ?fa = []")
      case False
      note fc = fresh_cursor[OF inv i(1,2) None False]
      have w: "wrote ?i ?fa B s B (store_fd ?i e s)" for e by (intro wrote_store_fd) simp
      have 1: "write_start ?i s = ret (store_fd ?i (Some (d\<lparr>curr_block := Some (hd (B ?fa)), block_num := 1\<rparr>)) s)"
        using None False i f inv_file(5)[OF inv f] by (simp add: write_start_def)
      show thesis
        by (rule that[of _ _ "d\<lparr>curr_block := Some (hd (B ?fa)), block_num := 1\<rparr>", OF 1 fc(2) w])
          (use fc(1) None False z in \<open>simp_all add: place_def write_segs_def moved_def\<close>)
    next
      case True
      let ?s = "grown ?fa f s" and ?B = "B(?fa := B ?fa @ [next_addr s])"
      note inv1 = grown_inv[OF inv f]
      have fds: "file_descriptors ?s = file_descriptors s" by (simp add: grown_def Let_def)
      have ne: "?B ?fa \<noteq> []" by simp
      have i1: "?i < length (file_descriptors ?s)" "file_descriptors ?s ! ?i = Some d" using i fds by simp_all
      note fc = fresh_cursor[OF inv1 i1 None ne]
      have "block_list f = None" using True inv_file(5)[OF inv f] by simp
      then have 1: "write_start ?i s = ret (store_fd ?i (Some (d\<lparr>curr_block := Some (next_addr s), block_num := 1\<rparr>)) ?s)"
        using None i f by (simp add: write_start_def increase_file_eq[OF inv f])
      have w: "wrote ?i ?fa B s ?B (store_fd ?i e ?s)" for e
        by (intro wrote_store_fd grown_wrote[OF inv f])
      have hd: "hd (?B ?fa) = next_addr s" using True by simp
      note fc' = fc(1,2)[unfolded hd]
      show thesis
        by (rule that[of _ _ "d\<lparr>curr_block := Some (next_addr s), block_num := 1\<rparr>", OF 1 fc'(2) w])
          (use fc'(1) None True z grown_segs(2)[OF inv f] in
            \<open>simp_all add: place_def write_segs_def moved_def fun_upd_def\<close>)
    qed
  qed
qed

definition write_allowed :: "filedesc \<Rightarrow> nat \<Rightarrow> bool" where
  "write_allowed d n \<longleftrightarrow> may_write d \<and> fd_curr_size d + n \<le> MAX_FILE_SIZE"

lemma ufs_write_spec:
  assumes inv: "ufs_inv B L s" and d: "open_fd s fd = Some d" and ok: "write_allowed d (length buf)"
  shows "case put (write_segs s (B (fd_file d))) (fst (place d)) (snd (place d)) (map Some buf) of
      None \<Rightarrow> ufs_write fd buf s = None
    | Some (ys, k, p) \<Rightarrow> \<exists>s' B' d'. ufs_write fd buf s = ret (int (length buf), set_err UFS_ERR_NO_ERR s') \<and>
        ufs_inv B' L s' \<and> wrote (nat (fd - 1)) (fd_file d) B s B' s' \<and>
        cursor s' B' (nat (fd - 1)) d' k \<and> moved d d' \<and> block_pos d' = p \<and>
        segs s' (B' (fd_file d)) = ys"
proof -
  let ?i = "nat (fd - 1)"
  obtain s1 B1 d1 where s1: "write_start ?i s = ret s1" "ufs_inv B1 L s1"
    "wrote ?i (fd_file d) B s B1 s1" "cursor s1 B1 ?i d1 (fst (place d))"
    "moved d d1" "block_pos d1 = snd (place d)"
    "segs s1 (B1 (fd_file d)) = write_segs s (B (fd_file d))"
    by (rule write_start_spec[OF inv d])
  have "size_t_add (fd_curr_size d) (length buf) = fd_curr_size d + length buf"
    using ok by (intro size_t_add_small) (simp add: write_allowed_def MAX_FILE_SIZE_def)
  then have w: "ufs_write fd buf s = bnd (write_loop ?i buf 0 s1)
      (\<lambda>(n, s). ret (int n, set_err UFS_ERR_NO_ERR s))"
    using d open_fdD(3)[OF d] ok s1(1)
    by (simp add: ufs_write_def get_fd_eq[OF inv] write_allowed_def may_write_def)
  have fd: "fd_file d1 = fd_file d" using s1(5) by (simp add: moved_def)
  have "writes_as ?i buf s B L d (write_loop ?i buf 0 s1) 0
      (put (write_segs s (B (fd_file d))) (fst (place d)) (snd (place d)) (map Some buf))"
    using writes_as_step[OF s1(3,5), of 0 buf L] write_loop_put[OF s1(2,4), of buf 0] s1(6,7) fd by simp
  then show ?thesis
    unfolding writes_as_def w
    by (simp only: split: option.splits prod.splits) (auto 0 4)
qed

end
