(* ===== verification/UserFS_API.thy ===== *)
theory UserFS_API
  imports UserFS_IO
begin

text \<open>
  The calls of \<^verbatim>\<open>userfs.h\<close> under the invariant: what \<open>put\<close> means for the bytes of a file, and
  for open, close, delete and resize the state they return and the proof that the
  invariant holds there.
\<close>

section \<open>Appending and overwriting\<close>

text \<open>A file without holes: every segment but the last is full.\<close>

definition dense :: "'a list list \<Rightarrow> bool" where
  "dense xs \<longleftrightarrow> (\<forall>j. Suc j < length xs \<longrightarrow> length (xs ! j) = BLOCK_SIZE) \<and>
     (\<forall>x \<in> set xs. length x \<le> BLOCK_SIZE)"

lemma dense_Nil [simp]: "dense []" "length x \<le> BLOCK_SIZE \<Longrightarrow> dense [x]"
  by (simp_all add: dense_def)

lemma dense_Cons: "dense (x # y # ys) \<longleftrightarrow> length x = BLOCK_SIZE \<and> dense (y # ys)"
  by (auto simp: dense_def nth_Cons split: nat.splits)

lemma stream_dense: "dense xs \<Longrightarrow> stream xs = concat xs"
proof (induction xs)
  case (Cons x xs)
  then show ?case by (cases xs) (auto simp: dense_Cons)
qed simp

lemma dense_snoc: "dense (xs @ [x]) \<longleftrightarrow> (\<forall>y \<in> set xs. length y = BLOCK_SIZE) \<and> length x \<le> BLOCK_SIZE"
proof (induction xs)
  case (Cons y ys)
  then show ?case by (cases ys) (auto simp: dense_Cons)
qed (simp add: dense_def)

lemma put_at_end:
  assumes "dense (xs @ [x])"
  shows "\<exists>ys y. put (xs @ [x]) (length xs) (length x) buf = Some (ys @ [y], length ys, length y) \<and>
    dense (ys @ [y]) \<and> concat (ys @ [y]) = concat (xs @ [x]) @ buf"
  using assms
proof (induction buf arbitrary: xs x rule: length_induct)
  case (1 buf)
  have step: "\<exists>ys y. put (xs @ [x]) (length xs) (length x) buf = Some (ys @ [y], length ys, length y) \<and>
    dense (ys @ [y]) \<and> concat (ys @ [y]) = concat (xs @ [x]) @ buf"
    if d: "dense (xs @ [x])" and x: "length x < BLOCK_SIZE" and ne: "buf \<noteq> []" for xs x
  proof -
    let ?n = "min (length buf) (BLOCK_SIZE - length x)"
    let ?x = "x @ take ?n buf"
    have "put (xs @ [x]) (length xs) (length x) buf =
        put (xs @ [?x]) (length xs) (length ?x) (drop ?n buf)"
      using x ne by (subst put.simps) (simp add: Let_def blit_def)
    moreover have "dense (xs @ [?x])" using d x by (auto simp: dense_snoc)
    moreover have "length (drop ?n buf) < length buf" using x ne by simp
    moreover have "concat (xs @ [?x]) @ drop ?n buf = concat (xs @ [x]) @ buf" by simp
    ultimately show ?thesis using 1(1) by (metis append.assoc)
  qed
  show ?case
  proof (cases "buf = []")
    case True
    with "1.prems" show ?thesis by (intro exI[of _ xs] exI[of _ x]) simp
  next
    case ne: False
    show ?thesis
    proof (cases "length x = BLOCK_SIZE")
      case True
      with ne have "put (xs @ [x]) (length xs) (length x) buf =
          put ((xs @ [x]) @ [[]]) (length (xs @ [x])) (length ([] :: 'a list)) buf"
        by (simp add: put_next)
      moreover have "dense ((xs @ [x]) @ [[]])"
        using "1.prems" True unfolding dense_snoc[of "xs @ [x]"] by (auto simp: dense_snoc)
      ultimately show ?thesis using step[of "xs @ [x]" "[]"] ne by simp
    next
      case False
      with "1.prems" ne step show ?thesis by (simp add: dense_snoc)
    qed
  qed
qed

lemma put_overwrite:
  assumes "p + length buf \<le> BLOCK_SIZE" and "length (xs ! k) < BLOCK_SIZE" and "buf \<noteq> []"
  shows "put xs k p buf = Some (xs[k := blit (xs ! k) p buf], k, p + length buf)"
proof -
  have "0 < length buf" using assms(3) by simp
  with assms(1) have "p < BLOCK_SIZE" by linarith
  moreover have "min (length buf) (BLOCK_SIZE - p) = length buf" using assms(1) by simp
  ultimately show ?thesis using assms(2,3) by (subst put.simps) (simp add: Let_def)
qed

section \<open>Opening\<close>

definition fd_rights :: "flags \<Rightarrow> flags" where
  "fd_rights fl = (let r = fl AND (UFS_READ_ONLY OR UFS_WRITE_ONLY OR UFS_READ_WRITE)
     in if r = 0 then UFS_READ_WRITE else r)"

definition fresh_fd :: "addr \<Rightarrow> flags \<Rightarrow> filedesc" where
  "fresh_fd fa r = \<lparr>fd_file = fa, block_num = 0, block_pos = 0, rw_flags = r, curr_block = None\<rparr>"

text \<open>The file that a name denotes.\<close>

definition names :: "ufs \<Rightarrow> string \<Rightarrow> addr \<Rightarrow> bool" where
  "names s nm fa \<longleftrightarrow> (\<exists>f. files s fa = Some f \<and> fname f = nm \<and> \<not> deleted f)"

lemma find_file_names:
  assumes inv: "ufs_inv B L s"
  obtains (found) fa where "find_file nm (file_list s) s = ret (Some fa)" "names s nm fa" "fa \<in> set L"
  | (absent) "find_file nm (file_list s) s = ret None" "\<And>fa. \<not> names s nm fa"
proof (cases "find (ff.hit nm s) L")
  case None
  then have r: "find_file nm (file_list s) s = ret None" by (simp add: find_file_eq[OF inv])
  have "\<not> names s nm fa" for fa
    using find_file_None[OF inv r] list_okD(2)[OF ufs_invD(4)[OF inv]] by (auto simp: names_def)
  with r absent show ?thesis by blast
next
  case (Some fa)
  then have r: "find_file nm (file_list s) s = ret (Some fa)" by (simp add: find_file_eq[OF inv])
  with find_file_Some[OF inv r] found show ?thesis by (auto simp: names_def)
qed

lemma names_unique:
  assumes inv: "ufs_inv B L s" and "names s nm fa" "names s nm ga"
  shows "fa = ga"
proof -
  obtain f g where fg: "files s fa = Some f" "fname f = nm" "\<not> deleted f"
    "files s ga = Some g" "fname g = nm" "\<not> deleted g"
    using assms(2,3) by (auto simp: names_def)
  note l = list_okD[OF ufs_invD(4)[OF inv]]
  have "fa \<in> set L" "ga \<in> set L" using l(2)[OF fg(1)] l(2)[OF fg(4)] fg by auto
  from l(3)[OF this fg(1,4)] fg(2,5) show ?thesis by simp
qed

lemma open_slot:
  assumes inv: "ufs_inv B L s" and f: "files s fa = Some f"
  obtains rc s' where
    "bnd (new_fd fa r s) (\<lambda>(d, s). let (i, s) = insert_fd d (set_err e s) in ret (i + 1, s)) = ret (rc, s')"
    "ufs_inv B L s'" "1 \<le> rc" "open_fd s rc = None" "open_fd s' rc = Some (fresh_fd fa r)"
    "\<forall>g. g \<noteq> rc \<longrightarrow> open_fd s' g = open_fd s g" "blocks s' = blocks s"
    "files s' = (files s)(fa \<mapsto> f\<lparr>refs := refs f + 1\<rparr>)" "ufs_errcode s' = e"
proof -
  let ?s = "set_err e (store_file fa (f\<lparr>refs := refs f + 1\<rparr>) s)"
  have t: "table_ok ?s" using ufs_invD(6)[OF inv] by (simp add: table_ok_def)
  obtain i ext k where ins: "insert_fd (fresh_fd fa r) ?s = (int i,
      ?s\<lparr>file_descriptors := ext[i := Some (fresh_fd fa r)],
         file_descriptor_count := file_descriptor_count ?s + 1, file_descriptor_capacity := length ext\<rparr>)"
    and i: "i < length ext" "ext ! i = None" and ext: "ext = file_descriptors s @ replicate k None"
    using insert_fd_eq[OF t, of "fresh_fd fa r"] by auto
  let ?s' = "?s\<lparr>file_descriptors := ext[i := Some (fresh_fd fa r)],
         file_descriptor_count := file_descriptor_count ?s + 1, file_descriptor_capacity := length ext\<rparr>"
  have core: "ufs_inv B L (s\<lparr>files := (files s)(fa \<mapsto> f\<lparr>refs := refs f + 1\<rparr>),
      file_descriptors := ext[i := Some (fresh_fd fa r)], file_descriptor_count := file_descriptor_count s + 1,
      file_descriptor_capacity := length ext\<rparr>)"
    by (rule slot_opened_inv[OF inv f ext i, of "fresh_fd fa r"]) (simp_all add: fresh_fd_def)
  have "?s' = set_err e (s\<lparr>files := (files s)(fa \<mapsto> f\<lparr>refs := refs f + 1\<rparr>),
      file_descriptors := ext[i := Some (fresh_fd fa r)], file_descriptor_count := file_descriptor_count s + 1,
      file_descriptor_capacity := length ext\<rparr>)"
    by (simp add: set_err_def store_file_def)
  with core have inv': "ufs_inv B L ?s'" by (metis set_err_inv)
  have "bnd (new_fd fa r s) (\<lambda>(d, s). let (i, s) = insert_fd d (set_err e s) in ret (i + 1, s)) =
      ret (int i + 1, ?s')"
    using f ins by (simp add: new_fd_def fresh_fd_def)
  moreover have "open_fd s (int i + 1) = None"
    using i(2) ext by (auto simp: open_fd_def nth_append)
  moreover have "open_fd ?s' (int i + 1) = Some (fresh_fd fa r)"
    using i(1) by (simp add: open_fd_def)
  moreover have "open_fd ?s' g = open_fd s g" if "g \<noteq> int i + 1" for g
  proof -
    have "nat (g - 1) \<noteq> i" if "1 \<le> g" using \<open>g \<noteq> int i + 1\<close> that by linarith
    then show ?thesis by (auto simp: open_fd_def ext nth_append nth_list_update)
  qed
  ultimately show ?thesis using that[of "int i + 1" ?s'] inv'
    by (simp add: set_err_def)
qed

lemma open_slot_ghosts:
  assumes "ghosts_ok s" and "files s' = (files s)(fa \<mapsto> f\<lparr>refs := refs f + 1\<rparr>)" and "files s fa = Some f"
    and "0 \<le> refs f"
  shows "ghosts_ok s'"
  using assms by (auto simp: ghosts_ok_def)

lemma refs_nonneg: "ufs_inv B L s \<Longrightarrow> files s fa = Some f \<Longrightarrow> 0 \<le> refs f"
  using ufs_invD(5) by (fastforce simp: refs_ok_def)

lemma ufs_open_absent:
  assumes "ufs_inv B L s" and "\<And>fa. \<not> names s nm fa" and "fl AND UFS_CREATE = 0"
  shows "ufs_open nm fl s = ret (- 1, set_err UFS_ERR_NO_FILE s)"
  using assms(1)
proof (cases rule: find_file_names[of _ _ _ nm])
  case (found fa)
  with assms(2) show ?thesis by blast
next
  case absent
  with assms(3) show ?thesis by (simp add: ufs_open_def Let_def)
qed

lemma ufs_open_existing:
  assumes inv: "ufs_inv B L s" and g: "ghosts_ok s" and nm: "names s nm fa"
  obtains rc s' where "ufs_open nm fl s = ret (rc, s')" "ufs_inv B L s'" "ghosts_ok s'" "1 \<le> rc"
    "open_fd s rc = None" "open_fd s' rc = Some (fresh_fd fa (fd_rights fl))"
    "\<forall>g. g \<noteq> rc \<longrightarrow> open_fd s' g = open_fd s g" "blocks s' = blocks s" "names s' = names s"
    "ufs_errcode s' = UFS_ERR_NO_ERR"
    "\<exists>f. files s fa = Some f \<and> files s' = (files s)(fa \<mapsto> f\<lparr>refs := refs f + 1\<rparr>)"
  using inv
proof (cases rule: find_file_names[of _ _ _ nm])
  case absent
  with nm show ?thesis by blast
next
  case (found fa')
  then have fa: "find_file nm (file_list s) s = ret (Some fa)" using names_unique[OF inv nm] by simp
  obtain f where f: "files s fa = Some f" using nm by (auto simp: names_def)
  have inv0: "ufs_inv B L (set_err UFS_ERR_NO_ERR s)" using inv by simp
  have f0: "files (set_err UFS_ERR_NO_ERR s) fa = Some f" using f by simp
  obtain rc s' where s': "bnd (new_fd fa (fd_rights fl) (set_err UFS_ERR_NO_ERR s))
      (\<lambda>(d, s). let (i, s) = insert_fd d (set_err UFS_ERR_NO_ERR s) in ret (i + 1, s)) = ret (rc, s')"
    "ufs_inv B L s'" "1 \<le> rc" "open_fd (set_err UFS_ERR_NO_ERR s) rc = None"
    "open_fd s' rc = Some (fresh_fd fa (fd_rights fl))"
    "\<forall>g. g \<noteq> rc \<longrightarrow> open_fd s' g = open_fd (set_err UFS_ERR_NO_ERR s) g"
    "blocks s' = blocks (set_err UFS_ERR_NO_ERR s)"
    "files s' = (files (set_err UFS_ERR_NO_ERR s))(fa \<mapsto> f\<lparr>refs := refs f + 1\<rparr>)"
    "ufs_errcode s' = UFS_ERR_NO_ERR"
    by (rule open_slot[OF inv0 f0, of "fd_rights fl" UFS_ERR_NO_ERR])
  have "set_err UFS_ERR_NO_ERR (store_file fa g (set_err UFS_ERR_NO_ERR s)) =
      store_file fa g (set_err UFS_ERR_NO_ERR s)" for g
    by (simp add: set_err_def store_file_def)
  then have "ufs_open nm fl s = ret (rc, s')"
    using s'(1) f by (simp add: ufs_open_def fa Let_def fd_rights_def new_fd_def)
  moreover have "ghosts_ok s'"
    by (rule open_slot_ghosts[of s, OF g _ f refs_nonneg[OF inv f]]) (use s'(8) in simp)
  moreover have "names s' = names s"
    using s'(8) f by (auto simp: names_def fun_eq_iff)
  ultimately show ?thesis using that[of rc s'] s' f by simp
qed

lemma created_names:
  assumes inv: "ufs_inv B L s" and "\<And>fa. \<not> names s nm fa"
  shows "names (created nm s) nm' fa \<longleftrightarrow> (if fa = next_addr s then nm' = nm else names s nm' fa)"
    and "files (created nm s) (next_addr s) = Some (blank_file nm False (file_list s))"
    and "blocks (created nm s) = blocks s" "file_descriptors (created nm s) = file_descriptors s"
    and "ghosts_ok s \<Longrightarrow> ghosts_ok (created nm s)"
    and "dom (files (created nm s)) = insert (next_addr s) (dom (files s))"
proof -
  have h: "\<exists>f. files s h = Some f" if "file_list s = Some h" for h
    using list_head(1,2)[OF ufs_invD(4)[OF inv]] that by (auto split: if_splits)
  show "files (created nm s) (next_addr s) = Some (blank_file nm False (file_list s))"
    "blocks (created nm s) = blocks s" "file_descriptors (created nm s) = file_descriptors s"
    by (simp_all add: created_def)
  show "names (created nm s) nm' fa \<longleftrightarrow> (if fa = next_addr s then nm' = nm else names s nm' fa)"
    using h by (cases "file_list s") (auto simp: created_def names_def blank_file_def)
  show "ghosts_ok s \<Longrightarrow> ghosts_ok (created nm s)"
    using h by (cases "file_list s") (auto simp: created_def ghosts_ok_def blank_file_def)
  show "dom (files (created nm s)) = insert (next_addr s) (dom (files s))"
    using h by (cases "file_list s") (auto simp: created_def)
qed

lemma ufs_open_created:
  assumes inv: "ufs_inv B L s" and g: "ghosts_ok s" and new: "\<And>fa. \<not> names s nm fa"
    and c: "fl AND UFS_CREATE \<noteq> 0"
  obtains rc s' where "ufs_open nm fl s = ret (rc, s')"
    "ufs_inv (B(next_addr s := [])) (next_addr s # L) s'" "ghosts_ok s'" "1 \<le> rc"
    "open_fd s rc = None" "open_fd s' rc = Some (fresh_fd (next_addr s) (fd_rights fl))"
    "\<forall>g. g \<noteq> rc \<longrightarrow> open_fd s' g = open_fd s g" "blocks s' = blocks s"
    "\<forall>nm' fa. names s' nm' fa \<longleftrightarrow> (if fa = next_addr s then nm' = nm else names s nm' fa)"
    "ufs_errcode s' = UFS_ERR_NO_ERR" "files s (next_addr s) = None"
    "dom (files s') = insert (next_addr s) (dom (files s))"
  using inv
proof (cases rule: find_file_names[of _ _ _ nm])
  case (found fa)
  with new show ?thesis by blast
next
  case absent
  let ?n = "next_addr s" and ?s = "created nm s" and ?B = "B(next_addr s := [])"
  note cr = created_names[OF inv new]
  have free: "fname f \<noteq> nm" if "a \<in> set L" "files s a = Some f" for a f
    using new[of a] that list_okD(2)[OF ufs_invD(4)[OF inv]] by (auto simp: names_def)
  have inv1: "ufs_inv ?B (?n # L) ?s" by (rule created_inv[OF inv free])
  obtain rc s' where s': "bnd (new_fd ?n (fd_rights fl) ?s)
      (\<lambda>(d, s). let (i, s) = insert_fd d (set_err UFS_ERR_NO_ERR s) in ret (i + 1, s)) = ret (rc, s')"
    "ufs_inv ?B (?n # L) s'" "1 \<le> rc" "open_fd ?s rc = None"
    "open_fd s' rc = Some (fresh_fd ?n (fd_rights fl))"
    "\<forall>g. g \<noteq> rc \<longrightarrow> open_fd s' g = open_fd ?s g" "blocks s' = blocks ?s"
    "files s' = (files ?s)(?n \<mapsto> blank_file nm False (file_list s)
       \<lparr>refs := refs (blank_file nm False (file_list s)) + 1\<rparr>)"
    "ufs_errcode s' = UFS_ERR_NO_ERR"
    by (rule open_slot[OF inv1 cr(2), of "fd_rights fl" UFS_ERR_NO_ERR])
  have op: "open_fd ?s g = open_fd s g" for g by (simp add: open_fd_def cr(4))
  obtain fa0 s0 where n0: "new_file nm s = (fa0, s0)" by fastforce
  then have "fa0 = ?n" "insert_file fa0 s0 = ret ?s"
    using insert_file_eq[OF inv, of nm] by (auto simp: new_file_def)
  with n0 absent(1) c s'(1) have "ufs_open nm fl s = ret (rc, s')"
    by (simp add: ufs_open_def Let_def fd_rights_def)
  moreover have "ghosts_ok s'"
    by (rule open_slot_ghosts[OF cr(5)[OF g] s'(8) cr(2)]) (simp add: blank_file_def)
  moreover have "names s' nm' fa \<longleftrightarrow> (if fa = ?n then nm' = nm else names s nm' fa)" for nm' fa
    using cr(1)[of nm' fa] cr(2) s'(8) by (auto simp: names_def blank_file_def)
  moreover have "files s ?n = None" by (rule inv_fresh(2)[OF inv])
  moreover have "dom (files s') = insert ?n (dom (files s))" using s'(8) cr(6) by auto
  ultimately show ?thesis using that[of rc s'] s' op cr(3) by simp
qed

section \<open>Closing\<close>

lemma ufs_bad_fd:
  assumes "ufs_inv B L s" and "open_fd s fd = None"
  shows "ufs_close fd s = ret (- 1, set_err UFS_ERR_NO_FILE s)"
    and "ufs_read fd n s = ret (- 1, [], set_err UFS_ERR_NO_FILE s)"
    and "ufs_write fd buf s = ret (- 1, set_err UFS_ERR_NO_FILE s)"
    and "ufs_resize fd n s = ret (- 1, set_err UFS_ERR_NO_FILE s)"
  using assms by (simp_all add: ufs_close_def ufs_read_def ufs_write_def ufs_resize_def get_fd_eq)

definition closed :: "int \<Rightarrow> addr list \<Rightarrow> filedesc \<Rightarrow> ufs_file \<Rightarrow> ufs \<Rightarrow> ufs" where
  "closed fd as d f s = (let s' = slot_closed (nat (fd - 1)) (fd_file d) f s in
     if refs f = 1 \<and> deleted f then dropped (fd_file d) as s' else s')"

lemma ufs_close_eq:
  assumes inv: "ufs_inv B L s" and d: "open_fd s fd = Some d" and f: "files s (fd_file d) = Some f"
  shows "ufs_close fd s = ret (0, set_err UFS_ERR_NO_ERR (closed fd (B (fd_file d)) d f s))"
proof -
  let ?fa = "fd_file d" and ?i = "nat (fd - 1)"
  let ?s = "store_file ?fa (f\<lparr>refs := refs f - 1\<rparr>) s"
  have "delete_file ?fa ?s = ret (dropped ?fa (B ?fa) ?s)"
    by (rule delete_file_eq[of _ _ "f\<lparr>refs := refs f - 1\<rparr>"]) (use inv_file(1)[OF inv f] in simp_all)
  moreover have "(store_fd ?i None (dropped ?fa (B ?fa) ?s))\<lparr>file_descriptor_count := file_descriptor_count s - 1\<rparr> =
      dropped ?fa (B ?fa) (slot_closed ?i ?fa f s)"
    by (auto simp: store_fd_def store_file_def dropped_def slot_closed_def intro!: ufs.equality)
  moreover have "(store_fd ?i None ?s)\<lparr>file_descriptor_count := file_descriptor_count s - 1\<rparr> = slot_closed ?i ?fa f s"
    by (simp add: store_fd_def store_file_def slot_closed_def)
  moreover have "file_descriptor_count (dropped ?fa (B ?fa) ?s) = file_descriptor_count s"
    by (simp add: dropped_def)
  ultimately have "delete_fd ?i s = ret (closed fd (B ?fa) d f s)"
    using open_fdD(3)[OF d] f by (auto simp: delete_fd_def closed_def Let_def)
  then show ?thesis using d by (simp add: ufs_close_def get_fd_eq[OF inv])
qed

lemma closed_inv:
  assumes inv: "ufs_inv B L s" and g: "ghosts_ok s" and d: "open_fd s fd = Some d"
    and f: "files s (fd_file d) = Some f"
  shows "ufs_inv B L (closed fd (B (fd_file d)) d f s)"
    and "ghosts_ok (closed fd (B (fd_file d)) d f s)"
proof -
  let ?fa = "fd_file d" and ?i = "nat (fd - 1)"
  let ?s = "slot_closed ?i ?fa f s"
  note i = open_fdD[OF d]
  have inv1: "ufs_inv B L ?s" by (rule slot_closed_inv[OF inv i(1,2) refl f])
  have f1: "files ?s ?fa = Some (f\<lparr>refs := refs f - 1\<rparr>)" by (simp add: slot_closed_def)
  show "ufs_inv B L (closed fd (B ?fa) d f s)"
    using inv1 dropped_inv[OF inv1 f1] by (auto simp: closed_def Let_def)
  have "0 < refs f" by (rule open_refs_pos[OF inv i(1,2) refl f])
  with g f show "ghosts_ok (closed fd (B ?fa) d f s)"
    by (auto simp: closed_def Let_def ghosts_ok_def slot_closed_def dropped_def)
qed

lemma closed_open_fd:
  assumes d: "open_fd s fd = Some d"
  shows "open_fd (closed fd as d f s) fd = None"
    and "g \<noteq> fd \<Longrightarrow> open_fd (closed fd as d f s) g = open_fd s g"
proof -
  have "file_descriptors (closed fd as d f s) = file_descriptors (store_fd (nat (fd - 1)) None s)"
    by (simp add: closed_def Let_def slot_closed_def dropped_def)
  then have e: "open_fd (closed fd as d f s) g = open_fd (store_fd (nat (fd - 1)) None s) g" for g
    by (simp add: open_fd_def)
  show "open_fd (closed fd as d f s) fd = None" unfolding e using d by simp
  show "g \<noteq> fd \<Longrightarrow> open_fd (closed fd as d f s) g = open_fd s g"
    unfolding e using d by (intro open_fd_other) simp_all
qed

section \<open>Deleting\<close>

definition removed :: "addr \<Rightarrow> addr list \<Rightarrow> ufs_file \<Rightarrow> ufs \<Rightarrow> ufs" where
  "removed fa as f s = (let s' = store_file fa (f\<lparr>deleted := True\<rparr>) (unlinked fa f s) in
     if refs f = 0 then dropped fa as s' else s')"

lemma ufs_delete_eq:
  assumes inv: "ufs_inv B L s" and g: "ghosts_ok s" and nm: "names s nm fa"
    and f: "files s fa = Some f"
  shows "ufs_delete nm s = ret (0, set_err UFS_ERR_NO_ERR (removed fa (B fa) f s))"
    and "\<exists>L'. ufs_inv B L' (removed fa (B fa) f s)" and "ghosts_ok (removed fa (B fa) f s)"
proof -
  let ?f = "f\<lparr>deleted := True\<rparr>"
  let ?s = "store_file fa ?f (unlinked fa f s)"
  have fa: "find_file nm (file_list s) s = ret (Some fa)" "fa \<in> set L"
    using find_file_names[OF inv, of nm] names_unique[OF inv nm] nm by metis+
  obtain as bs where L: "L = as @ fa # bs" using fa(2) by (meson split_list)
  note uf = unlinked_file[OF inv f L] and m = dll_member[OF inv f L]
  have "as \<noteq> [] \<Longrightarrow> last as \<noteq> fa" "bs \<noteq> [] \<Longrightarrow> hd bs \<noteq> fa" using m(3) by auto
  then have f1: "files (unlinked fa f s) fa = Some f" using f by (auto simp: uf)
  have inv1: "ufs_inv B (as @ bs) ?s" by (rule unlinked_inv[OF inv f L refl])
  have "delete_file fa ?s = ret (dropped fa (B fa) ?s)"
    by (rule delete_file_eq[of _ _ ?f]) (use inv_file(1)[OF inv1, of fa ?f] in simp_all)
  then show "ufs_delete nm s = ret (0, set_err UFS_ERR_NO_ERR (removed fa (B fa) f s))"
    using fa(1) unlink_file_eq[OF inv f fa(2)] f1
    by (simp add: ufs_delete_def removed_def Let_def)
  have "ufs_inv B (as @ bs) (removed fa (B fa) f s)"
    using inv1 dropped_inv[OF inv1, of fa ?f] by (simp add: removed_def Let_def)
  then show "\<exists>L'. ufs_inv B L' (removed fa (B fa) f s)" by blast
  have old: "\<exists>h0. files s a = Some h0 \<and> refs h = refs h0 \<and> deleted h = deleted h0"
    if "files (unlinked fa f s) a = Some h" for a h
    using that by (auto simp: uf split: if_splits)
  show "ghosts_ok (removed fa (B fa) f s)"
    unfolding ghosts_ok_def
  proof (intro allI impI)
    fix a h assume h: "files (removed fa (B fa) f s) a = Some h" "deleted h"
    show "0 < refs h"
    proof (cases "a = fa")
      case True
      with h refs_nonneg[OF inv f] show ?thesis
        by (auto simp: removed_def Let_def dropped_def split: if_splits)
    next
      case False
      with h(1) have "files (unlinked fa f s) a = Some h"
        by (auto simp: removed_def Let_def dropped_def split: if_splits)
      from old[OF this] g h(2) show ?thesis by (auto simp: ghosts_ok_def)
    qed
  qed
qed

lemma removed_frame:
  assumes inv: "ufs_inv B L s" and f: "files s fa = Some f" and nd: "\<not> deleted f"
  shows "open_fd (removed fa as f s) = open_fd s"
    and "\<not> names (removed fa as f s) nm fa"
    and "ga \<noteq> fa \<Longrightarrow> names (removed fa as f s) nm ga = names s nm ga"
    and "seg (removed fa as f s) a = (if refs f = 0 \<and> a \<in> set as then [] else seg s a)"
proof -
  have "fa \<in> set L" using list_okD(2)[OF ufs_invD(4)[OF inv] f] nd by simp
  then obtain cs ds where L: "L = cs @ fa # ds" by (meson split_list)
  note uf = unlinked_file[OF inv f L]
  show "open_fd (removed fa as f s) = open_fd s"
    by (auto simp: fun_eq_iff open_fd_def removed_def Let_def dropped_def unlinked_def)
  show "\<not> names (removed fa as f s) nm fa"
    by (simp add: names_def removed_def Let_def dropped_def)
  show "ga \<noteq> fa \<Longrightarrow> names (removed fa as f s) nm ga = names s nm ga"
    by (cases "files s ga") (auto simp: names_def removed_def Let_def dropped_def uf)
  show "seg (removed fa as f s) a = (if refs f = 0 \<and> a \<in> set as then [] else seg s a)"
    by (simp add: seg_def removed_def Let_def dropped_def unlinked_def)
qed

end
