(* ===== verification/UserFS_Resize.thy ===== *)
theory UserFS_Resize
  imports UserFS_API
begin

text \<open>
  \<^verbatim>\<open>ufs_resize\<close>: growing appends empty blocks; shrinking cuts the chain of blocks, frees the
  tail and moves the descriptors that stand in or beyond the new last block. Shrinking a
  file to nothing dereferences a null pointer.
\<close>

section \<open>Growing\<close>

lemma grow_file_spec:
  assumes "ufs_inv B L s" and "files s fa = Some f"
  shows "\<exists>s' B'. grow_file fa n s = ret s' \<and> ufs_inv B' L s' \<and> wrote i fa B s B' s' \<and>
    file_descriptors s' = file_descriptors s \<and>
    segs s' (B' fa) = segs s (B fa) @ replicate (n - length (B fa)) []"
  using assms
proof (induction "n - length (B fa)" arbitrary: s B f)
  case 0
  then have "\<not> num_blocks f < n" using inv_file(3) by simp
  then have g: "grow_file fa n s = ret s" using 0 by (subst grow_file.simps) simp
  show ?case
    by (rule exI[of _ s], rule exI[of _ B]) (use 0 g in simp)
next
  case (Suc m)
  note inv = Suc.prems(1) and f = Suc.prems(2)
  let ?s = "grown fa f s" and ?B = "B(fa := B fa @ [next_addr s])"
  note inv1 = grown_inv[OF inv f]
  obtain f1 where f1: "files ?s fa = Some f1" by (simp add: grown_def Let_def)
  have "m = n - length (?B fa)" using Suc.hyps(2) by simp
  from Suc.hyps(1)[OF this inv1 f1] obtain s' B' where IH: "grow_file fa n ?s = ret s'" "ufs_inv B' L s'"
    "wrote i fa ?B ?s B' s'" "file_descriptors s' = file_descriptors ?s"
    "segs s' (B' fa) = segs ?s (?B fa) @ replicate (n - length (?B fa)) []" by blast
  have "num_blocks f < n" using Suc.hyps(2) inv_file(3)[OF inv f] by simp
  then have "grow_file fa n s = grow_file fa n ?s"
    using f by (subst grow_file.simps) (simp add: increase_file_eq[OF inv f])
  moreover have "file_descriptors ?s = file_descriptors s" by (simp add: grown_def Let_def)
  moreover have "segs ?s (B fa) = segs s (B fa)"
    by (rule segs_cong) (use inv_block[OF inv f] grown_segs(1)[OF inv f] in blast)
  moreover have "n - length (B fa) = Suc (n - length (?B fa))" using Suc.hyps(2) by simp
  ultimately show ?case
    using IH grown_segs(2)[OF inv f] wrote_trans[OF grown_wrote[OF inv f] IH(3)]
    by (intro exI[of _ s'] exI[of _ B']) simp
qed

section \<open>Shrinking\<close>

lemma walk_blocks_chain:
  "chain (block_next s) p as None \<Longrightarrow> n < length as \<Longrightarrow> walk_blocks n p s = ret (Some (as ! n))"
proof (induction n arbitrary: p as)
  case 0
  then show ?case by (cases as) auto
next
  case (Suc n)
  then obtain a as' where as: "as = a # as'" by (cases as) auto
  with Suc.prems obtain b where "blocks s a = Some b" "chain (block_next s) (b_next b) as' None" "p = Some a"
    by (auto simp: next_Some)
  with Suc as show ?case by simp
qed

definition cut_file :: "nat \<Rightarrow> addr list \<Rightarrow> ufs_file \<Rightarrow> ufs_file" where
  "cut_file n as f = f\<lparr>last_block := Some (as ! (n - 1)), num_blocks := n\<rparr>"

definition shrunk :: "addr \<Rightarrow> ufs_file \<Rightarrow> nat \<Rightarrow> nat \<Rightarrow> addr list \<Rightarrow> ufs \<Rightarrow> ufs" where
  "shrunk fa f n pos as s = s\<lparr>
     blocks := (\<lambda>a. if a \<in> set (drop n as) then None else blocks s a)
       (as ! (n - 1) \<mapsto> (the (blocks s (as ! (n - 1))))\<lparr>occupied := pos, b_next := None\<rparr>),
     files := (files s)(fa \<mapsto> cut_file n as f),
     file_descriptors := map (clamp_fd fa (cut_file n as f) pos) (file_descriptors s)\<rparr>"

lemma nth_not_dropped: "distinct as \<Longrightarrow> 0 < n \<Longrightarrow> n \<le> length as \<Longrightarrow> as ! (n - 1) \<notin> set (drop n as)"
  by (auto simp: in_set_conv_nth nth_eq_iff_index_eq)

lemma shrink_file_eq:
  assumes inv: "ufs_inv B L s" and f: "files s fa = Some f" and n: "0 < n" "n \<le> length (B fa)"
  shows "shrink_file fa n pos s = ret (shrunk fa f n pos (B fa) s)"
proof -
  let ?as = "B fa" and ?l = "B fa ! (n - 1)"
  note ch = inv_file(1)[OF inv f]
  have n1: "n - 1 < length ?as" using n by linarith
  then obtain b where b: "blocks s ?l = Some b" using inv_block[OF inv f, of ?l] by auto
  have nx: "b_next b = the (block_next s ?l)" using b by (simp add: block_next_def)
  have "chain (block_next s) (b_next b) (drop n ?as) None"
    using chain_cut(2)[OF ch n1] n(1) by (simp add: nx)
  note fr = free_blocks_eq[OF this]
  have w: "walk_blocks (n - 1) (block_list f) s = ret (Some ?l)" by (rule walk_blocks_chain[OF ch n1])
  have "?l \<notin> set (drop n ?as)" by (rule nth_not_dropped[OF inv_file(4)[OF inv f] n])
  with b f n w fr show ?thesis
    by (simp add: shrink_file_def Let_def load_block_def)
      (auto simp: shrunk_def store_block_def store_file_def cut_file_def intro!: ufs.equality)
qed

lemma clamp_opens: "opens ga (clamp_fd fa f pos slot) = opens ga slot"
  by (auto simp: clamp_fd_def opens_def split: option.splits)

lemma clamp_None: "(clamp_fd fa f pos slot = None) = (slot = None)"
  by (auto simp: clamp_fd_def split: option.splits)

lemma filter_map_same: "(\<And>x. P (g x) = P x) \<Longrightarrow> length (filter P (map g xs)) = length (filter P xs)"
  by (simp add: filter_map comp_def)

lemma shrunk_blocks:
  fixes pos :: nat
  assumes inv: "ufs_inv B L s" and f: "files s fa = Some f" and n: "0 < n" "n \<le> length (B fa)"
  defines "s' \<equiv> shrunk fa f n pos (B fa) s" and "l \<equiv> B fa ! (n - 1)"
  shows "\<exists>b. blocks s l = Some b \<and> blocks s' l = Some (b\<lparr>occupied := pos, b_next := None\<rparr>)"
    and "a \<noteq> l \<Longrightarrow> a \<notin> set (drop n (B fa)) \<Longrightarrow> blocks s' a = blocks s a"
    and "dom (blocks s') = dom (blocks s) - set (drop n (B fa))"
    and "block_next s' l = Some None"
    and "a \<noteq> l \<Longrightarrow> a \<notin> set (drop n (B fa)) \<Longrightarrow> block_next s' a = block_next s a"
proof -
  have n1: "n - 1 < length (B fa)" using n by linarith
  then obtain b where b: "blocks s l = Some b"
    using inv_block[OF inv f, of l] by (auto simp: l_def)
  have nd: "l \<notin> set (drop n (B fa))"
    unfolding l_def by (rule nth_not_dropped[OF inv_file(4)[OF inv f] n])
  show "\<exists>b. blocks s l = Some b \<and> blocks s' l = Some (b\<lparr>occupied := pos, b_next := None\<rparr>)"
    using b by (simp add: s'_def shrunk_def l_def)
  show "a \<noteq> l \<Longrightarrow> a \<notin> set (drop n (B fa)) \<Longrightarrow> blocks s' a = blocks s a"
    by (simp add: s'_def shrunk_def l_def)
  show "dom (blocks s') = dom (blocks s) - set (drop n (B fa))"
    using b nd by (auto simp: s'_def shrunk_def l_def split: if_splits)
  show "block_next s' l = Some None"
    by (simp add: s'_def shrunk_def l_def block_next_def)
  show "a \<noteq> l \<Longrightarrow> a \<notin> set (drop n (B fa)) \<Longrightarrow> block_next s' a = block_next s a"
    by (simp add: s'_def shrunk_def l_def block_next_def)
qed

lemma shrunk_pos_ok:
  fixes pos :: nat
  assumes inv: "ufs_inv B L s" and f: "files s fa = Some f" and n: "0 < n" "n \<le> length (B fa)"
    and e: "pos_ok s (B (fd_file e)) e" "fd_file e \<in> dom (files s)"
  defines "e' \<equiv> the (clamp_fd fa (cut_file n (B fa) f) pos (Some e))"
  shows "pos_ok (shrunk fa f n pos (B fa) s) ((B(fa := take n (B fa))) (fd_file e')) e'"
    and "fd_file e' = fd_file e"
proof -
  let ?as = "B fa" and ?l = "B fa ! (n - 1)" and ?s = "shrunk fa f n pos (B fa) s"
  note sb = shrunk_blocks[OF inv f n, where pos = pos]
  have n1: "n - 1 < length ?as" using n by linarith
  show fd: "fd_file e' = fd_file e" by (simp add: e'_def clamp_fd_def)
  have keep: "blocks ?s a = blocks s a" if "a \<in> set (B (fd_file e))" "fd_file e \<noteq> fa" for a
  proof -
    have "a \<notin> set ?as" using ufs_invD(3)[OF inv] that e(2) f unfolding owners_ok_def by blast
    then have "a \<noteq> ?l" "a \<notin> set (drop n ?as)" using n1 by (auto dest: in_set_dropD)
    then show ?thesis by (rule sb(2))
  qed
  consider "fd_file e \<noteq> fa" | "fd_file e = fa" "n \<le> block_num e"
    | "fd_file e = fa" "block_num e < n" by linarith
  then show "pos_ok ?s ((B(fa := take n ?as)) (fd_file e')) e'"
  proof cases
    case 1
    then have "e' = e" by (simp add: e'_def clamp_fd_def)
    moreover have "pos_ok ?s (B (fd_file e) @ []) e"
      by (rule pos_ok_mono[OF e(1)]) (use keep 1 in auto)
    ultimately show ?thesis using 1 by simp
  next
    case 2
    with n1 n sb(1) show ?thesis by (auto simp: e'_def clamp_fd_def cut_file_def pos_ok_def)
  next
    case 3
    then have e': "e' = e" by (simp add: e'_def clamp_fd_def cut_file_def)
    from e(1) show ?thesis
    proof (cases rule: pos_ok_cases)
      case fresh
      then show ?thesis by (simp add: e' pos_ok_def)
    next
      case (at b)
      let ?a = "?as ! (block_num e - 1)"
      have k: "block_num e - 1 < n - 1" using at(2) 3(2) by linarith
      then have "?a \<noteq> ?l" using inv_file(4)[OF inv f] n1 by (simp add: nth_eq_iff_index_eq)
      moreover have "?a \<notin> set (drop n ?as)"
        using inv_file(4)[OF inv f] k n by (auto simp: in_set_conv_nth nth_eq_iff_index_eq)
      ultimately have "blocks ?s ?a = blocks s ?a" by (rule sb(2))
      with at 3 k n show ?thesis by (simp add: e' pos_ok_def)
    qed
  qed
qed

lemma shrunk_inv:
  assumes inv: "ufs_inv B L s" and f: "files s fa = Some f" and n: "0 < n" "n \<le> length (B fa)"
    and pos: "pos \<le> BLOCK_SIZE"
  shows "ufs_inv (B(fa := take n (B fa))) L (shrunk fa f n pos (B fa) s)" (is "ufs_inv ?B L ?s")
proof (rule ufs_invI)
  let ?as = "B fa" and ?l = "B fa ! (n - 1)"
  note D = ufs_invD[OF inv] and sb = shrunk_blocks[OF inv f n, where pos = pos]
  have n1: "n - 1 < length ?as" using n by linarith
  have fs: "files ?s = (files s)(fa \<mapsto> cut_file n ?as f)" by (simp add: shrunk_def)
  then have dfs: "dom (files ?s) = dom (files s)" using f by auto
  have fds: "file_descriptors ?s = map (clamp_fd fa (cut_file n ?as f) pos) (file_descriptors s)"
    "file_descriptor_count ?s = file_descriptor_count s" "file_list ?s = file_list s"
    "file_descriptor_capacity ?s = file_descriptor_capacity s" "next_addr ?s = next_addr s"
    by (simp_all add: shrunk_def)
  show "blocks_ok ?s"
    using D(1) pos sb(1) unfolding blocks_ok_def by (auto simp: shrunk_def split: if_splits)
  show "files_ok ?s ?B"
    unfolding files_ok_def
  proof (intro allI impI)
    fix ga g assume g: "files ?s ga = Some g"
    show "file_ok ?s g (?B ga)"
    proof (cases "ga = fa")
      case True
      have "chain (block_next ?s) (block_list f) (take n ?as) None"
      proof (subst chain_cong)
        show "block_next ?s a = ((block_next s)(?l := Some None)) a" if "a \<in> set (take n ?as)" for a
          using sb(4) sb(5)[where a = a] that set_take_disj_set_drop_if_distinct[OF inv_file(4)[OF inv f], of n n]
          by auto
        show "chain ((block_next s)(?l := Some None)) (block_list f) (take n ?as) None"
          using chain_cut(1)[OF inv_file(1)[OF inv f] n1] n(1) by simp
      qed
      moreover have ne: "take n ?as \<noteq> []" using n by auto
      moreover have "last (take n ?as) = ?l"
        using n n1 by (simp add: last_conv_nth[OF ne] min_def)
      ultimately show ?thesis using g True fs n by (auto simp: file_ok_def cut_file_def)
    next
      case False
      with g fs have g': "files s ga = Some g" by simp
      have "block_next ?s a = block_next s a" if "a \<in> set (B ga)" for a
      proof -
        have "a \<notin> set ?as" using D(3) f g' False that unfolding owners_ok_def by blast
        then show ?thesis using n1 by (intro sb(5)) (auto dest: in_set_dropD)
      qed
      then have "chain (block_next ?s) (block_list g) (B ga) None"
        using inv_file(1)[OF inv g'] by (subst chain_cong) auto
      with False inv_file[OF inv g'] show ?thesis by (simp add: file_ok_def)
    qed
  qed
  have apart: "set (B ga) \<inter> set ?as = {}" if "ga \<in> dom (files s)" "ga \<noteq> fa" for ga
    using D(3) f that unfolding owners_ok_def by blast
  have td: "set ?as = set (take n ?as) \<union> set (drop n ?as)" by (metis append_take_drop_id set_append)
  have tdd: "set (take n ?as) \<inter> set (drop n ?as) = {}"
    by (rule set_take_disj_set_drop_if_distinct[OF inv_file(4)[OF inv f]]) simp
  have "dom (blocks ?s) = (\<Union>ga \<in> dom (files s). set (B ga)) - set (drop n ?as)"
    using sb(3) D(3) by (simp add: owners_ok_def)
  also have "\<dots> = (\<Union>ga \<in> dom (files s). set (B ga) - set (drop n ?as))" by blast
  also have "\<dots> = (\<Union>ga \<in> dom (files s). set (?B ga))"
    by (rule SUP_cong) (use apart td tdd in \<open>auto\<close>)
  finally have dom: "dom (blocks ?s) = (\<Union>ga \<in> dom (files s). set (?B ga))" .
  have sub: "set (?B ga) \<subseteq> set (B ga)" for ga by (auto dest: in_set_takeD)
  have "set (?B ga) \<inter> set (?B ha) = {}" if "ga \<in> dom (files s)" "ha \<in> dom (files s)" "ga \<noteq> ha" for ga ha
  proof -
    have "set (B ga) \<inter> set (B ha) = {}" using D(3) that unfolding owners_ok_def by blast
    with sub[of ga] sub[of ha] show ?thesis by blast
  qed
  with dom show "owners_ok ?s ?B" unfolding owners_ok_def dfs by blast
  have maps: "file_next ?s = file_next s" "file_prev ?s = file_prev s"
    using f by (auto simp: file_next_def file_prev_def fs cut_file_def)
  show "list_ok ?s L"
    using D(4) f unfolding list_ok_def maps fds fs by (auto simp: cut_file_def)
  have "length (filter (opens ga) (file_descriptors ?s)) = length (filter (opens ga) (file_descriptors s))" for ga
    unfolding fds by (rule filter_map_same) (rule clamp_opens)
  with D(5) f show "refs_ok ?s" by (auto simp: refs_ok_def fs cut_file_def)
  have "length (filter (\<lambda>d. d \<noteq> None) (file_descriptors ?s)) =
      length (filter (\<lambda>d. d \<noteq> None) (file_descriptors s))"
    unfolding fds by (rule filter_map_same) (simp add: clamp_None)
  with D(6) show "table_ok ?s" by (simp add: table_ok_def fds)
  show "fds_ok ?s ?B"
    unfolding fds_ok_def
  proof (intro allI impI)
    fix d assume "Some d \<in> set (file_descriptors ?s)"
    then obtain slot where slot: "slot \<in> set (file_descriptors s)"
      "Some d = clamp_fd fa (cut_file n ?as f) pos slot" by (auto simp: fds)
    have "slot \<noteq> None" using slot(2) clamp_None[of fa "cut_file n ?as f" pos slot] by (cases slot) simp_all
    then obtain e where se: "slot = Some e" by blast
    have e: "Some e \<in> set (file_descriptors s)" "d = the (clamp_fd fa (cut_file n ?as f) pos (Some e))"
      using slot(1) slot(2)[symmetric] se by simp_all
    with D(7) have "pos_ok s (B (fd_file e)) e" "fd_file e \<in> dom (files s)" by (auto simp: fds_ok_def)
    with shrunk_pos_ok[OF inv f n this, of pos] e(2)
    show "fd_file d \<in> dom (files ?s) \<and> pos_ok ?s (?B (fd_file d)) d" using dfs by simp
  qed
  show "addrs_ok ?s" using D(8) unfolding addrs_ok_def dfs sb(3) fds by blast
qed

section \<open>The resize call\<close>

definition stored_size :: "ufs \<Rightarrow> addr list \<Rightarrow> nat" where
  "stored_size s as = (if as = [] then 0 else (length as - 1) * BLOCK_SIZE + length (seg s (last as)))"

definition blocks_for :: "nat \<Rightarrow> nat" where
  "blocks_for n = n div BLOCK_SIZE + (if n mod BLOCK_SIZE = 0 then 0 else 1)"

definition tail_for :: "nat \<Rightarrow> nat" where
  "tail_for n = (if n mod BLOCK_SIZE = 0 then BLOCK_SIZE else n mod BLOCK_SIZE)"

lemma blocks_for_alt:
  "(if n mod BLOCK_SIZE = 0 then (n div BLOCK_SIZE + 1 - 1, 512) else (n div BLOCK_SIZE + 1, n mod BLOCK_SIZE))
    = (blocks_for n, tail_for n)"
  by (simp add: blocks_for_def tail_for_def) (simp add: BLOCK_SIZE_def)

lemma blocks_for_bounds:
  assumes "0 < n"
  shows "0 < blocks_for n" "(blocks_for n - 1) * BLOCK_SIZE + tail_for n = n" "tail_for n \<le> BLOCK_SIZE"
    "0 < tail_for n"
proof -
  have n: "n = n div BLOCK_SIZE * BLOCK_SIZE + n mod BLOCK_SIZE" by simp
  have z: "0 < n div BLOCK_SIZE" if "n mod BLOCK_SIZE = 0" using that assms n by (cases "n div BLOCK_SIZE") auto
  then show "0 < blocks_for n" by (simp add: blocks_for_def)
  show "(blocks_for n - 1) * BLOCK_SIZE + tail_for n = n"
  proof (cases "n mod BLOCK_SIZE = 0")
    case True
    with z obtain m where "n div BLOCK_SIZE = Suc m" by (cases "n div BLOCK_SIZE") auto
    with True n show ?thesis by (simp add: blocks_for_def tail_for_def)
  qed (simp add: blocks_for_def tail_for_def)
  show "tail_for n \<le> BLOCK_SIZE" "0 < tail_for n"
    by (auto simp: tail_for_def less_imp_le)
qed

lemma file_old_size_eq:
  assumes inv: "ufs_inv B L s" and f: "files s fa = Some f"
  shows "file_old_size f s = ret (stored_size s (B fa))"
proof (cases "B fa = []")
  case True
  then show ?thesis using inv_file(3)[OF inv f] by (simp add: file_old_size_def stored_size_def)
next
  case False
  then obtain b where b: "blocks s (last (B fa)) = Some b"
    using inv_block[OF inv f, of "last (B fa)"] by auto
  with False seg_live(2)[OF inv b] inv_file(2,3)[OF inv f] show ?thesis
    by (simp add: file_old_size_def stored_size_def)
qed

lemma stored_size_blocks:
  assumes inv: "ufs_inv B L s" and f: "files s fa = Some f" and n: "0 < n" "n < stored_size s (B fa)"
  shows "blocks_for n \<le> length (B fa)"
proof -
  have ne: "B fa \<noteq> []" using n by (auto simp: stored_size_def)
  then obtain b where "blocks s (last (B fa)) = Some b"
    using inv_block[OF inv f, of "last (B fa)"] by auto
  then have "length (seg s (last (B fa))) \<le> BLOCK_SIZE" using seg_live(2,3)[OF inv] by simp
  with n(2) ne have "n < (length (B fa) - 1) * BLOCK_SIZE + BLOCK_SIZE"
    by (simp add: stored_size_def)
  also have "\<dots> = length (B fa) * BLOCK_SIZE" using ne by (cases "length (B fa)") simp_all
  finally have lt: "n < length (B fa) * BLOCK_SIZE" .
  have "(blocks_for n - 1) * BLOCK_SIZE < n" using blocks_for_bounds(2,4)[OF n(1)] by linarith
  with lt have "(blocks_for n - 1) * BLOCK_SIZE < length (B fa) * BLOCK_SIZE" by linarith
  then show ?thesis using blocks_for_bounds(1)[OF n(1)] by simp
qed

lemma ufs_resize_unfold:
  assumes inv: "ufs_inv B L s" and d: "open_fd s fd = Some d" and n: "n \<le> MAX_FILE_SIZE"
  shows "ufs_resize fd n s =
    (if n \<ge> stored_size s (B (fd_file d))
     then bnd (grow_file (fd_file d) (blocks_for n) s) (\<lambda>s. ret (0, set_err UFS_ERR_NO_ERR s))
     else bnd (shrink_file (fd_file d) (blocks_for n) (tail_for n) s) (\<lambda>s. ret (0, set_err UFS_ERR_NO_ERR s)))"
proof -
  obtain f where f: "files s (fd_file d) = Some f" using inv_fd(1)[OF inv open_fdD(1,2)[OF d]] by blast
  show ?thesis
    unfolding ufs_resize_def get_fd_eq[OF inv] bnd_simps
    using d n open_fdD(3)[OF d] f file_old_size_eq[OF inv f] blocks_for_alt[of n]
    by (auto simp: Let_def split: if_splits)
qed

lemma ufs_resize_grow:
  assumes inv: "ufs_inv B L s" and d: "open_fd s fd = Some d"
    and n: "n \<le> MAX_FILE_SIZE" "stored_size s (B (fd_file d)) \<le> n"
  obtains s' B' where "ufs_resize fd n s = ret (0, set_err UFS_ERR_NO_ERR s')" "ufs_inv B' L s'"
    "wrote i (fd_file d) B s B' s'" "file_descriptors s' = file_descriptors s"
    "segs s' (B' (fd_file d)) = segs s (B (fd_file d)) @ replicate (blocks_for n - length (B (fd_file d))) []"
proof -
  obtain f where f: "files s (fd_file d) = Some f" using inv_fd(1)[OF inv open_fdD(1,2)[OF d]] by blast
  from grow_file_spec[OF inv f, of "blocks_for n" i] that n(2) show ?thesis
    by (auto simp: ufs_resize_unfold[OF inv d n(1)])
qed

lemma ufs_resize_shrink:
  assumes inv: "ufs_inv B L s" and d: "open_fd s fd = Some d" and f: "files s (fd_file d) = Some f"
    and n: "0 < n" "n < stored_size s (B (fd_file d))" "n \<le> MAX_FILE_SIZE"
  defines "s' \<equiv> shrunk (fd_file d) f (blocks_for n) (tail_for n) (B (fd_file d)) s"
  shows "ufs_resize fd n s = ret (0, set_err UFS_ERR_NO_ERR s')"
    and "ufs_inv (B(fd_file d := take (blocks_for n) (B (fd_file d)))) L s'"
proof -
  note le = stored_size_blocks[OF inv f n(1,2)]
  show "ufs_resize fd n s = ret (0, set_err UFS_ERR_NO_ERR s')"
    using n shrink_file_eq[OF inv f blocks_for_bounds(1)[OF n(1)] le]
    by (simp add: ufs_resize_unfold[OF inv d n(3)] s'_def)
  show "ufs_inv (B(fd_file d := take (blocks_for n) (B (fd_file d)))) L s'"
    unfolding s'_def
    by (rule shrunk_inv[OF inv f blocks_for_bounds(1)[OF n(1)] le blocks_for_bounds(3)[OF n(1)]])
qed

lemma ufs_resize_to_zero:
  assumes inv: "ufs_inv B L s" and d: "open_fd s fd = Some d"
    and n: "0 < stored_size s (B (fd_file d))"
  shows "ufs_resize fd 0 s = fault Null_Deref"
proof -
  obtain f where f: "files s (fd_file d) = Some f" using inv_fd(1)[OF inv open_fdD(1,2)[OF d]] by blast
  have "blocks_for 0 = 0" by (simp add: blocks_for_def BLOCK_SIZE_def)
  with n f show ?thesis
    by (simp add: ufs_resize_unfold[OF inv d] shrink_file_def load_block_def)
qed

lemma shrunk_ghosts: "ghosts_ok s \<Longrightarrow> files s fa = Some f \<Longrightarrow> ghosts_ok (shrunk fa f n pos as s)"
  by (auto simp: ghosts_ok_def shrunk_def cut_file_def)

end
