(* ===== verification/UserFS_Spec.thy ===== *)
theory UserFS_Spec
  imports UserFS_Resize
begin

text \<open>
  What the file system promises to its callers, without the ghosts of the invariant:
  reachable states, the only faulting call, and the effect of every call on the bytes of the
  files, the names and the open descriptors.
\<close>

section \<open>Files as their callers see them\<close>

fun block_walk :: "nat \<Rightarrow> addr option \<Rightarrow> ufs \<Rightarrow> addr list" where
  "block_walk 0 p s = []"
| "block_walk (Suc n) p s = (case p of None \<Rightarrow> []
     | Some a \<Rightarrow> a # (case blocks s a of None \<Rightarrow> [] | Some b \<Rightarrow> block_walk n (b_next b) s))"

definition blocks_of :: "ufs \<Rightarrow> addr \<Rightarrow> addr list" where
  "blocks_of s fa = (case files s fa of None \<Rightarrow> []
     | Some f \<Rightarrow> block_walk (num_blocks f) (block_list f) s)"

definition contents :: "ufs \<Rightarrow> addr \<Rightarrow> char option list list" where
  "contents s fa = segs s (blocks_of s fa)"

text \<open>The bytes that the next reads of a descriptor return.\<close>

definition ahead :: "ufs \<Rightarrow> filedesc \<Rightarrow> char option list" where
  "ahead s d = rest s (blocks_of s (fd_file d)) d"

text \<open>The segments a writer works on: writing to an empty file first gives it a block.\<close>

definition write_from :: "ufs \<Rightarrow> addr \<Rightarrow> char option list list" where
  "write_from s fa = (if contents s fa = [] then [[]] else contents s fa)"

lemma block_walk_chain: "chain (block_next s) p as None \<Longrightarrow> block_walk (length as) p s = as"
  by (induction as arbitrary: p) (auto simp: next_Some)

lemma blocks_of_eq:
  assumes "ufs_inv B L s" and "fa \<in> dom (files s)"
  shows "blocks_of s fa = B fa"
  using assms(2) inv_file(1,3)[OF assms(1)] block_walk_chain by (fastforce simp: blocks_of_def)

lemma blocks_of_frame: "blocks s' = blocks s \<Longrightarrow> files s' = files s \<Longrightarrow> blocks_of s' = blocks_of s"
proof -
  assume 1: "blocks s' = blocks s" and 2: "files s' = files s"
  have "block_walk n p s' = block_walk n p s" for n p
    by (induction n arbitrary: p) (auto simp: 1 split: option.splits)
  then show ?thesis by (intro ext) (simp add: blocks_of_def 2 split: option.splits)
qed

lemma contents_frame: "blocks s' = blocks s \<Longrightarrow> files s' = files s \<Longrightarrow> contents s' = contents s"
  by (intro ext) (simp add: contents_def blocks_of_frame[of s' s] segs_def seg_frame[of s' s])

lemma ahead_frame: "blocks s' = blocks s \<Longrightarrow> files s' = files s \<Longrightarrow> ahead s' = ahead s"
  by (intro ext) (simp add: ahead_def rest_def blocks_of_frame[of s' s] segs_def seg_frame[of s' s])

lemma contents_eq:
  "ufs_inv B L s \<Longrightarrow> fa \<in> dom (files s) \<Longrightarrow> contents s fa = segs s (B fa)"
  by (simp add: contents_def blocks_of_eq)

lemma ufs_okE:
  assumes "ufs_ok s"
  obtains B L where "ufs_inv B L s" "ghosts_ok s"
  using assms by (auto simp: ufs_ok_def)

lemma ufs_okI: "ufs_inv B L s \<Longrightarrow> ghosts_ok s \<Longrightarrow> ufs_ok s"
  by (auto simp: ufs_ok_def)

lemma ufs_ok_set_err [simp]: "ufs_ok (set_err e s) = ufs_ok s"
  by (simp add: ufs_ok_def)

lemma open_fd_file:
  assumes "ufs_inv B L s" and "open_fd s fd = Some d"
  shows "fd_file d \<in> dom (files s)"
  using inv_fd(1)[OF assms(1) open_fdD(1,2)[OF assms(2)]] by blast

lemma frame_set_err [simp]:
  "contents (set_err e s) = contents s" "ahead (set_err e s) = ahead s" "names (set_err e s) = names s"
  "blocks_of (set_err e s) = blocks_of s"
  by (rule contents_frame ahead_frame blocks_of_frame; simp; fail | simp add: names_def fun_eq_iff)+

lemma frame_store_fd [simp]:
  "contents (store_fd i d s) = contents s" "ahead (store_fd i d s) = ahead s"
  by (rule contents_frame ahead_frame; simp)+

lemma ahead_eq: "ufs_inv B L s \<Longrightarrow> open_fd s fd = Some d \<Longrightarrow> ahead s d = rest s (B (fd_file d)) d"
  by (simp add: ahead_def blocks_of_eq open_fd_file)

section \<open>Calls and reachable states\<close>

datatype ufs_call =
    Open string flags
  | Close int
  | Write int "char list"
  | Read int nat
  | Delete string
  | Resize int nat

definition ufs_call_run :: "ufs_call \<Rightarrow> ufs \<Rightarrow> ufs run" where
  "ufs_call_run c s = (case c of
       Open nm fl \<Rightarrow> bnd (ufs_open nm fl s) (\<lambda>(_, s). ret s)
     | Close fd \<Rightarrow> bnd (ufs_close fd s) (\<lambda>(_, s). ret s)
     | Write fd buf \<Rightarrow> bnd (ufs_write fd buf s) (\<lambda>(_, s). ret s)
     | Read fd n \<Rightarrow> bnd (ufs_read fd n s) (\<lambda>(_, _, s). ret s)
     | Delete nm \<Rightarrow> bnd (ufs_delete nm s) (\<lambda>(_, s). ret s)
     | Resize fd n \<Rightarrow> bnd (ufs_resize fd n s) (\<lambda>(_, s). ret s))"

inductive ufs_reachable :: "ufs \<Rightarrow> bool" where
  init: "ufs_reachable ufs_init"
| call: "ufs_reachable s \<Longrightarrow> ufs_call_run c s = ret s' \<Longrightarrow> ufs_reachable s'"

text \<open>Resizing a file that holds bytes to nothing.\<close>

definition empties :: "ufs_call \<Rightarrow> ufs \<Rightarrow> bool" where
  "empties c s = (case c of Resize fd n \<Rightarrow> (case open_fd s fd of None \<Rightarrow> False
       | Some d \<Rightarrow> n = 0 \<and> 0 < stored_size s (blocks_of s (fd_file d))) | _ \<Rightarrow> False)"

lemma open_call_ok:
  assumes "ufs_ok s"
  shows "wp (ufs_open nm fl s) (\<lambda>(_, s'). ufs_ok s')"
proof -
  from assms obtain B L where inv: "ufs_inv B L s" and g: "ghosts_ok s" by (rule ufs_okE)
  show ?thesis
  proof (cases "\<exists>fa. names s nm fa")
    case True
    then obtain fa where "names s nm fa" ..
    then obtain rc s' where "ufs_open nm fl s = ret (rc, s')" "ufs_inv B L s'" "ghosts_ok s'"
      by (rule ufs_open_existing[OF inv g, of _ _ fl])
    then show ?thesis by (auto intro: ufs_okI)
  next
    case False
    then have new: "\<And>fa. \<not> names s nm fa" by blast
    show ?thesis
    proof (cases "fl AND UFS_CREATE = 0")
      case True
      from ufs_open_absent[OF inv new this] assms show ?thesis by simp
    next
      case False
      obtain rc s' where "ufs_open nm fl s = ret (rc, s')"
        "ufs_inv (B(next_addr s := [])) (next_addr s # L) s'" "ghosts_ok s'"
        by (rule ufs_open_created[OF inv g new False])
      then show ?thesis by (auto intro: ufs_okI)
    qed
  qed
qed

lemma close_call_ok:
  assumes "ufs_ok s"
  shows "wp (ufs_close fd s) (\<lambda>(_, s'). ufs_ok s')"
proof -
  from assms obtain B L where inv: "ufs_inv B L s" and g: "ghosts_ok s" by (rule ufs_okE)
  show ?thesis
  proof (cases "open_fd s fd")
    case None
    with ufs_bad_fd(1)[OF inv this] assms show ?thesis by simp
  next
    case (Some d)
    then obtain f where f: "files s (fd_file d) = Some f" using open_fd_file[OF inv] by blast
    from ufs_close_eq[OF inv Some f] closed_inv[OF inv g Some f] show ?thesis
      by (auto intro: ufs_okI)
  qed
qed

lemma write_denied:
  assumes inv: "ufs_inv B L s" and d: "open_fd s fd = Some d"
  shows "\<not> may_write d \<Longrightarrow> ufs_write fd buf s = ret (- 1, set_err UFS_ERR_NO_PERMISSION s)"
    and "may_write d \<Longrightarrow> size_t_add (fd_curr_size d) (length buf) > MAX_FILE_SIZE \<Longrightarrow>
      ufs_write fd buf s = ret (- 1, set_err UFS_ERR_NO_MEM s)"
    and "\<not> may_read d \<Longrightarrow> ufs_read fd n s = ret (- 1, [], set_err UFS_ERR_NO_PERMISSION s)"
  using d open_fdD(3)[OF d]
  by (simp_all add: ufs_write_def ufs_read_def get_fd_eq[OF inv] may_write_def may_read_def)

lemma read_call_ok:
  assumes "ufs_ok s"
  shows "wp (ufs_read fd n s) (\<lambda>(_, _, s'). ufs_ok s')"
proof -
  from assms obtain B L where inv: "ufs_inv B L s" and g: "ghosts_ok s" by (rule ufs_okE)
  show ?thesis
  proof (cases "open_fd s fd")
    case None
    with ufs_bad_fd(2)[OF inv this] assms show ?thesis by simp
  next
    case (Some d)
    have gs: "ghosts_ok (store_fd i e s)" for i e using g by (simp add: ghosts_ok_def)
    show ?thesis
    proof (cases "may_read d")
      case True
      from ufs_read_spec[OF inv Some True, of n] obtain d' e out where
        "ufs_read fd n s = ret (int (length out), out, set_err e (store_fd (nat (fd - 1)) (Some d') s))"
        "ufs_inv B L (store_fd (nat (fd - 1)) (Some d') s)" by blast
      with gs show ?thesis by (auto intro: ufs_okI)
    next
      case False
      with write_denied(3)[OF inv Some] assms show ?thesis by simp
    qed
  qed
qed

lemma put_choice:
  assumes inv: "ufs_inv B L s" and d: "open_fd s fd = Some d" and ok: "write_allowed d (length buf)"
  obtains (hang) "put (write_segs s (B (fd_file d))) (fst (place d)) (snd (place d)) (map Some buf) = None"
      "ufs_write fd buf s = None"
  | (return) ys k p s' B' d' where
      "put (write_segs s (B (fd_file d))) (fst (place d)) (snd (place d)) (map Some buf) = Some (ys, k, p)"
      "ufs_write fd buf s = ret (int (length buf), set_err UFS_ERR_NO_ERR s')"
      "ufs_inv B' L s'" "wrote (nat (fd - 1)) (fd_file d) B s B' s'"
      "cursor s' B' (nat (fd - 1)) d' k" "moved d d'" "block_pos d' = p"
      "segs s' (B' (fd_file d)) = ys"
proof -
  note w = ufs_write_spec[OF inv d ok]
  show ?thesis
  proof (cases "put (write_segs s (B (fd_file d))) (fst (place d)) (snd (place d)) (map Some buf)")
    case None
    with w hang show ?thesis by simp
  next
    case (Some q)
    obtain ys k p where q: "q = (ys, k, p)" by (cases q) auto
    from w return[of ys k p] Some q show ?thesis by auto
  qed
qed

lemma write_call_ok:
  assumes "ufs_ok s"
  shows "safe (ufs_write fd buf s) (\<lambda>(_, s'). ufs_ok s')"
proof -
  from assms obtain B L where inv: "ufs_inv B L s" and g: "ghosts_ok s" by (rule ufs_okE)
  show ?thesis
  proof (cases "open_fd s fd")
    case None
    with ufs_bad_fd(3)[OF inv this] assms show ?thesis by simp
  next
    case d: (Some d)
    show ?thesis
    proof (cases "may_write d \<and> size_t_add (fd_curr_size d) (length buf) \<le> MAX_FILE_SIZE")
      case False
      with write_denied(1,2)[OF inv d, of buf] assms show ?thesis
        by (cases "may_write d") auto
    next
      case True
      show ?thesis
      proof (cases "write_allowed d (length buf)")
        case True
        with inv d show ?thesis
        proof (cases rule: put_choice)
          case hang
          then show ?thesis by simp
        next
          case (return ys k p s' B' d')
          with wrote_ghosts[OF return(4) g] show ?thesis by (auto intro: ufs_okI)
        qed
      next
        case False
        \<comment> \<open>the sum wrapped around \<^verbatim>\<open>size_t\<close>: the code writes anyway\<close>
        let ?i = "nat (fd - 1)"
        obtain s1 B1 d1 where s1: "write_start ?i s = ret s1" "ufs_inv B1 L s1"
          "wrote ?i (fd_file d) B s B1 s1" "cursor s1 B1 ?i d1 (fst (place d))" "moved d d1"
          by (rule write_start_spec[OF inv d])
        have fd: "fd_file d1 = fd_file d" using s1(5) by (simp add: moved_def)
        have w: "ufs_write fd buf s = bnd (write_loop ?i buf 0 s1)
            (\<lambda>(n, s). ret (int n, set_err UFS_ERR_NO_ERR s))"
          using d open_fdD(3)[OF d] \<open>may_write d \<and> _\<close> s1(1)
          by (simp add: ufs_write_def get_fd_eq[OF inv] may_write_def)
        show ?thesis
        proof (cases "put (segs s1 (B1 (fd_file d1))) (fst (place d)) (block_pos d1) (map Some buf)")
          case None
          with write_loop_put[OF s1(2,4), of buf 0] w show ?thesis by (simp add: writes_as_def)
        next
          case (Some q)
          then obtain ys k p where "put (segs s1 (B1 (fd_file d1))) (fst (place d)) (block_pos d1) (map Some buf)
            = Some (ys, k, p)" by (cases q) auto
          with write_loop_put[OF s1(2,4), of buf 0] obtain s' B' where
            s': "write_loop ?i buf 0 s1 = ret (length buf, s')" "ufs_inv B' L s'"
            "wrote ?i (fd_file d) B1 s1 B' s'" by (auto simp: writes_as_def fd)
          have "ghosts_ok s'" by (rule wrote_ghosts[OF wrote_trans[OF s1(3) s'(3)] g])
          with s' w show ?thesis by (auto intro: ufs_okI)
        qed
      qed
    qed
  qed
qed

lemma delete_call_ok:
  assumes "ufs_ok s"
  shows "wp (ufs_delete nm s) (\<lambda>(_, s'). ufs_ok s')"
proof -
  from assms obtain B L where inv: "ufs_inv B L s" and g: "ghosts_ok s" by (rule ufs_okE)
  show ?thesis
  proof (cases "\<exists>fa. names s nm fa")
    case True
    then obtain fa f where nm: "names s nm fa" "files s fa = Some f" by (auto simp: names_def)
    from ufs_delete_eq[OF inv g nm] show ?thesis by (auto intro: ufs_okI)
  next
    case False
    then have "find_file nm (file_list s) s = ret None"
      using find_file_names[OF inv, of nm] by metis
    with assms show ?thesis by (simp add: ufs_delete_def)
  qed
qed

lemma resize_call_ok:
  assumes ok: "ufs_ok s"
  shows "if empties (Resize fd n) s then ufs_resize fd n s = fault Null_Deref
    else wp (ufs_resize fd n s) (\<lambda>(_, s'). ufs_ok s')"
proof -
  from ok obtain B L where inv: "ufs_inv B L s" and g: "ghosts_ok s" by (rule ufs_okE)
  show ?thesis
  proof (cases "open_fd s fd")
    case None
    with ufs_bad_fd(4)[OF inv this] ok show ?thesis by (simp add: empties_def)
  next
    case d: (Some d)
    have B: "blocks_of s (fd_file d) = B (fd_file d)"
      by (rule blocks_of_eq[OF inv open_fd_file[OF inv d]])
    obtain f where f: "files s (fd_file d) = Some f" using open_fd_file[OF inv d] by blast
    consider "MAX_FILE_SIZE < n" | "n \<le> MAX_FILE_SIZE" "stored_size s (B (fd_file d)) \<le> n"
      | "n = 0" "0 < stored_size s (B (fd_file d))"
      | "0 < n" "n < stored_size s (B (fd_file d))" "n \<le> MAX_FILE_SIZE" by linarith
    then show ?thesis
    proof cases
      case 1
      with d ok show ?thesis by (simp add: empties_def ufs_resize_def get_fd_eq[OF inv])
    next
      case 2
      obtain s' B' where s': "ufs_resize fd n s = ret (0, set_err UFS_ERR_NO_ERR s')" "ufs_inv B' L s'"
        "wrote 0 (fd_file d) B s B' s'" by (rule ufs_resize_grow[OF inv d 2])
      with 2 d B wrote_ghosts[OF s'(3) g] show ?thesis by (auto simp: empties_def intro: ufs_okI)
    next
      case 3
      with d B ufs_resize_to_zero[OF inv d] show ?thesis by (simp add: empties_def)
    next
      case 4
      with ufs_resize_shrink[OF inv d f 4] shrunk_ghosts[OF g f] d show ?thesis
        by (auto simp: empties_def intro: ufs_okI)
    qed
  qed
qed

lemma call_ok:
  assumes "ufs_ok s"
  shows "if empties c s then ufs_call_run c s = fault Null_Deref else safe (ufs_call_run c s) ufs_ok"
proof (cases c)
  case (Open nm fl)
  with wp_safe[OF open_call_ok[OF assms, of nm fl]] show ?thesis
    by (simp add: empties_def ufs_call_run_def case_prod_unfold)
next
  case (Close fd)
  with wp_safe[OF close_call_ok[OF assms, of fd]] show ?thesis
    by (simp add: empties_def ufs_call_run_def case_prod_unfold)
next
  case (Write fd buf)
  with write_call_ok[OF assms, of fd buf] show ?thesis
    by (simp add: empties_def ufs_call_run_def case_prod_unfold)
next
  case (Read fd n)
  with wp_safe[OF read_call_ok[OF assms, of fd n]] show ?thesis
    by (simp add: empties_def ufs_call_run_def case_prod_unfold)
next
  case (Delete nm)
  with wp_safe[OF delete_call_ok[OF assms, of nm]] show ?thesis
    by (simp add: empties_def ufs_call_run_def case_prod_unfold)
next
  case (Resize fd n)
  with resize_call_ok[OF assms, of fd n] show ?thesis
    by (cases "empties c s") (auto dest: wp_safe simp: ufs_call_run_def case_prod_unfold)
qed

lemma reachable_ok: "ufs_reachable s \<Longrightarrow> ufs_ok s"
proof (induction rule: ufs_reachable.induct)
  case init
  show ?case by (rule ufs_init_ok)
next
  case (call s c s')
  from call_ok[OF call.IH, of c] call.hyps(2) show ?case by (auto split: if_splits)
qed

end
