(* ===== verification/UserFS_Tests.thy ===== *)
theory UserFS_Tests
  imports UserFS
begin

text \<open>
  The unit tests of \<^verbatim>\<open>3/test.c\<close> as functions on the file system state: a test is \<open>ret (Some s)\<close>
  when every check passes and \<open>ret None\<close> when the program exits at a failed check. The
  theorems run them on the model.
\<close>

section \<open>The test programs\<close>

definition unit_check :: "bool \<Rightarrow> 'a option run \<Rightarrow> 'a option run" where
  "unit_check cond k = (if cond then k else ret None)"

definition unit_fail_if :: "bool \<Rightarrow> 'a option run \<Rightarrow> 'a option run" where
  "unit_fail_if cond k = (if cond then ret None else k)"

text \<open>A C string literal with its terminating zero byte.\<close>

definition cstr :: "string \<Rightarrow> char list" where
  "cstr s = s @ [CHR 0x00]"

definition test_open :: "ufs \<Rightarrow> ufs option run" where
  "test_open s =
     bnd (ufs_open ''file'' 0 s) (\<lambda>(fd, s).
     unit_check (fd = - 1) (
     unit_check (ufs_errno s = UFS_ERR_NO_FILE) (
     bnd (ufs_open ''file'' UFS_CREATE s) (\<lambda>(fd, s).
     unit_check (fd \<noteq> - 1) (
     bnd (ufs_close fd s) (\<lambda>(rc, s).
     unit_check (rc = 0) (
     bnd (ufs_open ''file'' 0 s) (\<lambda>(fd, s).
     unit_check (fd \<noteq> - 1) (
     bnd (ufs_close fd s) (\<lambda>(rc, s).
     unit_fail_if (rc \<noteq> 0) (
     bnd (ufs_open ''file'' UFS_CREATE s) (\<lambda>(fd, s).
     unit_check (fd \<noteq> - 1) (
     bnd (ufs_open ''file'' 0 s) (\<lambda>(fd2, s).
     unit_check (fd2 \<noteq> - 1) (
     unit_check (fd2 \<noteq> fd) (
     bnd (ufs_close fd2 s) (\<lambda>(rc, s).
     unit_check (rc = 0) (
     bnd (ufs_close fd s) (\<lambda>(rc, s).
     unit_check (rc = 0) (
     bnd (ufs_delete ''file'' s) (\<lambda>(rc, s).
     unit_check (rc = 0) (
     bnd (ufs_open ''file'' 0 s) (\<lambda>(fd, s).
     unit_check (fd = - 1) (
     ret (Some s)))))))))))))))))))))))))"

definition INT_MAX :: int where
  "INT_MAX = 2147483647"

definition test_close :: "ufs \<Rightarrow> ufs option run" where
  "test_close s =
     bnd (ufs_close (- 1) s) (\<lambda>(rc, s).
     unit_check (rc = - 1) (
     unit_check (ufs_errno s = UFS_ERR_NO_FILE) (
     bnd (ufs_close 0 s) (\<lambda>(rc, s).
     unit_check (rc = - 1) (
     unit_fail_if (ufs_errno s \<noteq> UFS_ERR_NO_FILE) (
     bnd (ufs_close INT_MAX s) (\<lambda>(rc, s).
     unit_check (rc = - 1) (
     unit_fail_if (ufs_errno s \<noteq> UFS_ERR_NO_FILE) (
     bnd (ufs_open ''file'' UFS_CREATE s) (\<lambda>(fd, s).
     unit_fail_if (fd = - 1) (
     bnd (ufs_close fd s) (\<lambda>(rc, s).
     unit_check (rc = 0) (
     bnd (ufs_close fd s) (\<lambda>(rc, s).
     unit_check (rc = - 1) (
     unit_check (ufs_errno s = UFS_ERR_NO_FILE) (
     ret (Some s)))))))))))))))))"

definition test_io :: "ufs \<Rightarrow> ufs option run" where
  "test_io s =
     bnd (ufs_write (- 1) [] s) (\<lambda>(rc, s).
     unit_check (rc = - 1) (
     unit_check (ufs_errno s = UFS_ERR_NO_FILE) (
     bnd (ufs_write 0 [] s) (\<lambda>(rc, s).
     unit_check (rc = - 1) (
     unit_fail_if (ufs_errno s \<noteq> UFS_ERR_NO_FILE) (
     bnd (ufs_read (- 1) 0 s) (\<lambda>(rc, _, s).
     unit_check (rc = - 1) (
     unit_check (ufs_errno s = UFS_ERR_NO_FILE) (
     bnd (ufs_read 0 0 s) (\<lambda>(rc, _, s).
     unit_check (rc = - 1) (
     unit_fail_if (ufs_errno s \<noteq> UFS_ERR_NO_FILE) (
     bnd (ufs_open ''file'' UFS_CREATE s) (\<lambda>(fd1, s).
     bnd (ufs_open ''file'' 0 s) (\<lambda>(fd2, s).
     unit_fail_if (fd1 = - 1 \<or> fd2 = - 1) (
     let data = cstr ''123'' in
     bnd (ufs_write fd1 data s) (\<lambda>(rc, s).
     unit_check (rc = int (length data)) (
     bnd (ufs_read fd2 2048 s) (\<lambda>(rc, buffer, s).
     unit_check (rc = int (length data)) (
     unit_check (buffer = map Some data) (
     bnd (ufs_close fd1 s) (\<lambda>(_, s).
     bnd (ufs_close fd2 s) (\<lambda>(_, s).
     bnd (ufs_delete ''file'' s) (\<lambda>(_, s).
     ret (Some s))))))))))))))))))))))))"

definition test_delete :: "ufs \<Rightarrow> ufs option run" where
  "test_delete s =
     bnd (ufs_open ''file'' UFS_CREATE s) (\<lambda>(fd1, s).
     bnd (ufs_open ''file'' 0 s) (\<lambda>(fd2, s).
     bnd (ufs_open ''file'' 0 s) (\<lambda>(fd3, s).
     unit_fail_if (fd1 = - 1 \<or> fd2 = - 1 \<or> fd3 = - 1) (
     bnd (ufs_delete ''file'' s) (\<lambda>(rc, s).
     unit_check (rc = 0) (
     bnd (ufs_write fd2 ''a'' s) (\<lambda>(rc, s).
     unit_check (rc = 1) (
     bnd (ufs_read fd3 1 s) (\<lambda>(rc, c1, s).
     unit_check (rc = 1) (
     unit_check (c1 = [Some CHR ''a'']) (
     bnd (ufs_write fd3 ''bc'' s) (\<lambda>(rc, s).
     unit_check (rc = 2) (
     bnd (ufs_read fd1 1 s) (\<lambda>(rc, c1, s).
     unit_check (rc = 1) (
     bnd (ufs_read fd1 1 s) (\<lambda>(rc, c2, s).
     unit_check (rc = 1) (
     unit_check (c1 = [Some CHR ''a''] \<and> c2 = [Some CHR ''b'']) (
     bnd (ufs_open ''file'' 0 s) (\<lambda>(fd4, s).
     unit_check (fd4 = - 1) (
     unit_check (ufs_errno s = UFS_ERR_NO_FILE) (
     bnd (ufs_open ''file'' UFS_CREATE s) (\<lambda>(fd4, s).
     unit_fail_if (fd4 = - 1) (
     bnd (ufs_read fd4 1 s) (\<lambda>(rc, _, s).
     unit_check (rc = 0) (
     bnd (ufs_read fd1 1 s) (\<lambda>(rc, c2, s).
     unit_check (rc = 1) (
     unit_check (c2 = [Some CHR ''c'']) (
     bnd (ufs_delete ''file'' s) (\<lambda>(rc, s).
     unit_check (rc = 0) (
     bnd (ufs_close fd1 s) (\<lambda>(rc, s). unit_fail_if (rc \<noteq> 0) (
     bnd (ufs_close fd2 s) (\<lambda>(rc, s). unit_fail_if (rc \<noteq> 0) (
     bnd (ufs_close fd3 s) (\<lambda>(rc, s). unit_fail_if (rc \<noteq> 0) (
     bnd (ufs_close fd4 s) (\<lambda>(rc, s). unit_fail_if (rc \<noteq> 0) (
     ret (Some s)))))))))))))))))))))))))))))))))))))))"

text \<open>
  The body of \<^verbatim>\<open>test_rights\<close> is compiled only when the macro \<open>NEED_OPEN_FLAGS\<close> is defined, here a
  parameter. The repository defines it in \<^verbatim>\<open>userfs.c\<close>, not in the header as \<^verbatim>\<open>userfs.h\<close> asks, so its
  \<^verbatim>\<open>Makefile\<close> builds the test program without the body.
\<close>

definition test_rights :: "bool \<Rightarrow> ufs \<Rightarrow> ufs option run" where
  "test_rights need_open_flags s = (if \<not> need_open_flags then ret (Some s) else
     bnd (ufs_open ''file'' UFS_CREATE s) (\<lambda>(fd, s).
     unit_check (fd \<noteq> - 1) (
     let buf1 = cstr ''hello''; buf1_size = length buf1 in
     bnd (ufs_read fd buf1_size s) (\<lambda>(rc, _, s).
     unit_check (rc = 0) (
     bnd (ufs_write fd buf1 s) (\<lambda>(rc, s).
     unit_check (rc = int buf1_size) (
     bnd (ufs_close fd s) (\<lambda>(rc, s). unit_fail_if (rc \<noteq> 0) (
     bnd (ufs_open ''file'' 0 s) (\<lambda>(fd, s).
     unit_check (fd \<noteq> - 1) (
     bnd (ufs_read fd 128 s) (\<lambda>(rc, buf2, s).
     unit_check (rc = int buf1_size) (
     unit_fail_if (buf2 \<noteq> map Some buf1) (
     bnd (ufs_write fd buf1 s) (\<lambda>(rc, s).
     unit_check (rc = int buf1_size) (
     bnd (ufs_close fd s) (\<lambda>(rc, s). unit_fail_if (rc \<noteq> 0) (
     bnd (ufs_open ''file'' UFS_READ_ONLY s) (\<lambda>(fd, s).
     unit_check (fd \<noteq> - 1) (
     bnd (ufs_read fd buf1_size s) (\<lambda>(rc, buf2, s).
     unit_check (rc = int buf1_size) (
     unit_fail_if (buf2 \<noteq> map Some buf1) (
     bnd (ufs_write fd (cstr ''bad'') s) (\<lambda>(rc, s).
     unit_check (rc = - 1) (
     unit_check (ufs_errno s = UFS_ERR_NO_PERMISSION) (
     bnd (ufs_read fd 128 s) (\<lambda>(rc, buf2, s).
     unit_check (rc = int buf1_size) (
     unit_check (buf2 = map Some buf1) (
     bnd (ufs_close fd s) (\<lambda>(rc, s). unit_fail_if (rc \<noteq> 0) (
     bnd (ufs_open ''file'' UFS_WRITE_ONLY s) (\<lambda>(fd, s).
     unit_check (fd \<noteq> - 1) (
     bnd (ufs_read fd 128 s) (\<lambda>(rc, buf2, s).
     unit_check (rc = - 1) (
     unit_check (ufs_errno s = UFS_ERR_NO_PERMISSION) (
     let buf3 = cstr ''new data which rewrites previous''; buf3_size = length buf3 in
     bnd (ufs_write fd buf3 s) (\<lambda>(rc, s).
     unit_check (rc = int buf3_size) (
     bnd (ufs_close fd s) (\<lambda>(rc, s). unit_fail_if (rc \<noteq> 0) (
     bnd (ufs_open ''file'' UFS_READ_WRITE s) (\<lambda>(fd, s).
     unit_check (fd \<noteq> - 1) (
     bnd (ufs_read fd 128 s) (\<lambda>(rc, buf2, s).
     unit_check (rc = int buf3_size) (
     unit_check (buf2 = map Some buf3) (
     bnd (ufs_write fd buf1 s) (\<lambda>(rc, s).
     unit_check (rc = int buf1_size) (
     bnd (ufs_close fd s) (\<lambda>(rc, s). unit_fail_if (rc \<noteq> 0) (
     bnd (ufs_delete ''file'' s) (\<lambda>(rc, s). unit_fail_if (rc \<noteq> 0) (
     ret (Some s))))))))))))))))))))))))))))))))))))))))))))))))))))"

end
