(* ===== verification/UserFS_Theorems.thy ===== *)
theory UserFS_Theorems
  imports UserFS_Spec UserFS_Tests
begin

text \<open>
  The properties of the file system, each with a run of the model at which its hypotheses
  hold.
\<close>

section \<open>Runs of the model\<close>

lemma replicate_small: "replicate 2 x = [x, x]" "replicate 4 x = [x, x, x, x]"
  by (simp_all add: numeral_eq_Suc)

lemmas store_defs = load_block_def load_file_def load_slot_def load_fd_def store_block_def
  store_file_def store_fd_def set_err_def

lemmas call_defs = new_block_def new_file_def unlink_file_def delete_file_def insert_file_def
  increase_file_def new_fd_def insert_fd_def delete_fd_def ufs_errno_def ufs_get_fd_def
  ufs_open_def ufs_write_def write_advance_def write_chunk_def write_start_def
  fd_curr_size_def read_chunk_def read_advance_def read_start_def ufs_read_def
  ufs_close_def ufs_delete_def

lemmas loop_eqs = free_blocks.simps find_file.simps write_loop.simps read_loop.simps

lemmas constant_defs = UFS_CREATE_def UFS_READ_ONLY_def UFS_WRITE_ONLY_def UFS_READ_WRITE_def
  BLOCK_SIZE_def MAX_FILE_SIZE_def INT_MAX_def size_t_add_def size_t_of_int_def
  unit_check_def unit_fail_if_def ufs_init_def blit_def

lemmas run_defs = replicate_small store_defs call_defs loop_eqs constant_defs

fun run_calls :: "ufs_call list \<Rightarrow> ufs \<Rightarrow> ufs run" where
  "run_calls [] s = ret s"
| "run_calls (c # cs) s = bnd (ufs_call_run c s) (run_calls cs)"

lemma run_calls_ok: "ufs_ok s \<Longrightarrow> run_calls cs s = ret s' \<Longrightarrow> ufs_ok s'"
proof (induction cs arbitrary: s)
  case (Cons c cs)
  then obtain s1 where "ufs_call_run c s = ret s1" "run_calls cs s1 = ret s'"
    by (auto simp: bnd_def split: option.splits sum.splits)
  with Cons call_ok[of s c] show ?case by (auto split: if_splits)
qed simp

definition result :: "ufs run \<Rightarrow> ufs" where
  "result m = (case m of Some (Inr s) \<Rightarrow> s | _ \<Rightarrow> ufs_init)"

text \<open>Two descriptors of an empty file, and the same after two bytes were written.\<close>

definition demo0 :: ufs where
  "demo0 = result (run_calls [Open ''f'' UFS_CREATE, Open ''f'' 0] ufs_init)"

definition demo :: ufs where
  "demo = result (run_calls [Open ''f'' UFS_CREATE, Open ''f'' 0, Write 1 ''hi''] ufs_init)"

lemma result_ok: "ufs_ok (result (run_calls cs ufs_init))"
  using run_calls_ok[OF ufs_init_ok, of cs] ufs_init_ok
  by (auto simp: result_def split: option.splits sum.splits)

lemma demo_ok: "ufs_ok demo0" "ufs_ok demo"
  unfolding demo0_def demo_def by (rule result_ok)+

lemma demo0_facts:
  "open_fd demo0 1 = Some (fresh_fd 0 UFS_READ_WRITE)" "open_fd demo0 2 = Some (fresh_fd 0 UFS_READ_WRITE)"
  "contents demo0 0 = []"
  by (simp_all add: demo0_def result_def ufs_call_run_def run_defs open_fd_def fresh_fd_def
      contents_def blocks_of_def cong: bnd_weak_cong)

lemma demo_facts:
  "open_fd demo 1 = Some (fresh_fd 0 UFS_READ_WRITE\<lparr>curr_block := Some 1, block_num := 1, block_pos := 2\<rparr>)"
  "open_fd demo 2 = Some (fresh_fd 0 UFS_READ_WRITE)"
  "contents demo 0 = [[Some CHR ''h'', Some CHR ''i'']]"
  by (simp_all add: demo_def result_def ufs_call_run_def run_defs open_fd_def fresh_fd_def
      contents_def blocks_of_def seg_def cong: bnd_weak_cong)

lemma fresh_fd_simps [simp]:
  "fd_file (fresh_fd fa r) = fa" "curr_block (fresh_fd fa r) = None" "rw_flags (fresh_fd fa r) = r"
  "block_num (fresh_fd fa r) = 0" "block_pos (fresh_fd fa r) = 0"
  by (simp_all add: fresh_fd_def)

section \<open>The invariant and safety\<close>

lemma run_calls_reachable: "ufs_reachable s \<Longrightarrow> run_calls cs s = ret s' \<Longrightarrow> ufs_reachable s'"
proof (induction cs arbitrary: s)
  case (Cons c cs)
  then obtain s1 where "ufs_call_run c s = ret s1" "run_calls cs s1 = ret s'"
    by (auto simp: bnd_def split: option.splits sum.splits)
  with Cons show ?case by (auto intro: ufs_reachable.call)
qed simp

lemma demo_run: "run_calls [Open ''f'' UFS_CREATE, Open ''f'' 0, Write 1 ''hi''] ufs_init = ret demo"
  by (simp add: demo_def result_def ufs_call_run_def run_defs cong: bnd_weak_cong)

text \<open>C1: every state that a sequence of calls can reach is well formed: the lists of blocks and
  of files are sound, no block is shared, no reference count is wrong, every descriptor points
  into its file, and a deleted file is kept only while it is open.\<close>

theorem ufs_reachable_ok: "ufs_reachable s \<Longrightarrow> ufs_ok s"
  by (rule reachable_ok)

theorem ufs_reachable_ok_witness: "ufs_ok demo \<and> contents demo 0 = [[Some CHR ''h'', Some CHR ''i'']]"
  using ufs_reachable_ok[OF run_calls_reachable[OF ufs_reachable.init demo_run]] demo_facts(3) by blast

text \<open>C2: in a well-formed state no call dereferences a null or stale pointer or leaves the
  bounds of an object, and every call that returns keeps the state well formed. The one
  exception is \<^verbatim>\<open>ufs_resize\<close> to zero bytes of a file that holds some: it always dereferences NULL.\<close>

theorem ufs_call_outcome:
  assumes "ufs_ok s"
  shows "if empties c s then ufs_call_run c s = fault Null_Deref else safe (ufs_call_run c s) ufs_ok"
  by (rule call_ok[OF assms])

theorem ufs_call_outcome_witness: "ufs_call_run (Resize 1 0) demo = fault Null_Deref"
proof -
  have "empties (Resize 1 0) demo"
    using demo_facts(1,3) by (auto simp: empties_def stored_size_def contents_def segs_def)
  with ufs_call_outcome[OF demo_ok(2), of "Resize 1 0"] show ?thesis by simp
qed

lemma block_owner:
  assumes "ufs_ok s" and "a \<in> dom (blocks s)"
  shows "\<exists>!fa. fa \<in> dom (files s) \<and> a \<in> set (blocks_of s fa)"
proof -
  obtain B L where inv: "ufs_inv B L s" using assms(1) by (rule ufs_okE)
  note own = ufs_invD(3)[OF inv, unfolded owners_ok_def]
  from own assms(2) obtain fa where fa: "fa \<in> dom (files s)" "a \<in> set (B fa)" by auto
  show ?thesis
  proof (rule ex1I[of _ fa])
    show "fa \<in> dom (files s) \<and> a \<in> set (blocks_of s fa)" using fa blocks_of_eq[OF inv] by simp
    show "ga = fa" if "ga \<in> dom (files s) \<and> a \<in> set (blocks_of s ga)" for ga
      using that own fa blocks_of_eq[OF inv, of ga] by auto
  qed
qed

lemma file_in_use:
  assumes "ufs_ok s" and "fa \<in> dom (files s)"
  shows "(\<exists>nm. names s nm fa) \<or> (\<exists>fd d. open_fd s fd = Some d \<and> fd_file d = fa)"
proof -
  obtain B L where inv: "ufs_inv B L s" and g: "ghosts_ok s" using assms(1) by (rule ufs_okE)
  obtain f where f: "files s fa = Some f" using assms(2) by blast
  show ?thesis
  proof (cases "deleted f")
    case False
    with f show ?thesis by (auto simp: names_def)
  next
    case True
    with g f ufs_invD(5)[OF inv] have "filter (opens fa) (file_descriptors s) \<noteq> []"
      by (fastforce simp: ghosts_ok_def refs_ok_def)
    then obtain slot where "slot \<in> set (file_descriptors s)" "opens fa slot"
      by (auto simp: filter_empty_conv)
    then obtain i d where "i < length (file_descriptors s)" "file_descriptors s ! i = Some d" "fd_file d = fa"
      by (auto simp: in_set_conv_nth opens_def split: option.splits)
    then have "open_fd s (int i + 1) = Some d" by (simp add: open_fd_def)
    with \<open>fd_file d = fa\<close> show ?thesis by blast
  qed
qed

text \<open>C3: nothing leaks and nothing is shared, after whatever calls the client has made: walking the
  pointers of the live files meets every allocated block, and each in exactly one file; every live
  file has a name or is still open. So once the client has closed every descriptor and deleted
  every name, all memory of files and of blocks has been freed.\<close>

theorem ufs_no_leak:
  assumes "run_calls cs ufs_init = ret s"
  shows "(\<forall>a \<in> dom (blocks s). \<exists>!fa. fa \<in> dom (files s) \<and> a \<in> set (blocks_of s fa)) \<and>
    (\<forall>fa \<in> dom (files s). (\<exists>nm. names s nm fa) \<or>
       (\<exists>fd d. open_fd s fd = Some d \<and> fd_file d = fa)) \<and>
    ((\<forall>nm fa. \<not> names s nm fa) \<and> (\<forall>fd. open_fd s fd = None) \<longrightarrow>
       files s = Map.empty \<and> blocks s = Map.empty)"
proof -
  have ok: "ufs_ok s" by (rule run_calls_ok[OF ufs_init_ok assms])
  have "files s = Map.empty \<and> blocks s = Map.empty" if "\<forall>nm fa. \<not> names s nm fa" "\<forall>fd. open_fd s fd = None"
  proof -
    have "dom (files s) = {}" using file_in_use[OF ok] that by auto
    moreover from this have "dom (blocks s) = {}" using block_owner[OF ok] by blast
    ultimately show ?thesis by simp
  qed
  with block_owner[OF ok] file_in_use[OF ok] show ?thesis by blast
qed

definition deleting :: "ufs_call list" where
  "deleting = [Open ''f'' UFS_CREATE, Write 1 ''hi'', Delete ''f'']"

definition demo2 :: ufs where
  "demo2 = result (run_calls deleting ufs_init)"

definition demo3 :: ufs where
  "demo3 = result (run_calls (deleting @ [Close 1]) ufs_init)"

lemma demo2_facts: "run_calls deleting ufs_init = ret demo2" "blocks demo2 \<noteq> Map.empty"
  by (simp_all add: demo2_def deleting_def result_def ufs_call_run_def run_defs cong: bnd_weak_cong)

lemma demo3_facts: "run_calls (deleting @ [Close 1]) ufs_init = ret demo3"
    "\<forall>nm fa. \<not> names demo3 nm fa" "\<forall>fd. open_fd demo3 fd = None"
  by (simp_all add: demo3_def deleting_def result_def ufs_call_run_def run_defs names_def open_fd_def nth_Cons'
      cong: bnd_weak_cong)

text \<open>A file is created, written, deleted while it is open, and closed: with its last descriptor it goes.\<close>

theorem ufs_no_leak_witness:
  "\<exists>s. run_calls deleting ufs_init = ret demo2 \<and> blocks demo2 \<noteq> Map.empty \<and>
     run_calls (deleting @ [Close 1]) ufs_init = ret s \<and> files s = Map.empty \<and> blocks s = Map.empty"
  using ufs_no_leak[of "deleting @ [Close 1]"] demo2_facts demo3_facts by blast

section \<open>Reading and writing\<close>

lemma read_bytes:
  assumes "ufs_ok s" and "open_fd s fd = Some d" and "may_read d"
  shows "\<exists>s' d'. ufs_read fd n s = ret (int (length (take n (ahead s d))), take n (ahead s d), s') \<and>
    ufs_ok s' \<and> open_fd s' fd = Some d' \<and> moved d d' \<and> ahead s' d' = drop n (ahead s d) \<and>
    (\<forall>g. g \<noteq> fd \<longrightarrow> open_fd s' g = open_fd s g) \<and> contents s' = contents s"
proof -
  obtain B L where inv: "ufs_inv B L s" and g: "ghosts_ok s" using assms(1) by (rule ufs_okE)
  from ufs_read_spec[OF inv assms(2,3), of n] ahead_eq[OF inv assms(2)] obtain d' e where
    r: "ufs_read fd n s = ret (int (length (take n (ahead s d))), take n (ahead s d),
        set_err e (store_fd (nat (fd - 1)) (Some d') s))" "moved d d'"
      "ufs_inv B L (store_fd (nat (fd - 1)) (Some d') s)"
      "rest s (B (fd_file d)) d' = drop n (ahead s d)" by auto
  have "ghosts_ok (store_fd (nat (fd - 1)) (Some d') s)" using g by (simp add: ghosts_ok_def)
  moreover have "ahead s d' = drop n (ahead s d)"
    using r(2,4) open_fd_file[OF inv assms(2)] by (simp add: ahead_def moved_def blocks_of_eq[OF inv])
  ultimately show ?thesis
    using r(1-3) assms(2) open_fd_other[of s fd]
    by (intro exI[of _ "set_err e (store_fd (nat (fd - 1)) (Some d') s)"] exI[of _ d'])
      (auto intro: ufs_okI)
qed

text \<open>C5: a read returns exactly the next bytes ahead of the descriptor, as many as asked for and
  available, moves this descriptor past them, and changes no file and no other descriptor.\<close>

theorem ufs_read_bytes:
  assumes "ufs_ok s" and "open_fd s fd = Some d" and "may_read d"
  shows "\<exists>s' d'. ufs_read fd n s = ret (int (length (take n (ahead s d))), take n (ahead s d), s') \<and>
    ufs_ok s' \<and> open_fd s' fd = Some d' \<and> moved d d' \<and> ahead s' d' = drop n (ahead s d) \<and>
    (\<forall>g. g \<noteq> fd \<longrightarrow> open_fd s' g = open_fd s g) \<and> contents s' = contents s"
  by (rule read_bytes[OF assms])

theorem ufs_read_bytes_witness:
  "\<exists>s'. ufs_read 2 5 demo = ret (2, [Some CHR ''h'', Some CHR ''i''], s')"
proof -
  have "may_read (fresh_fd 0 UFS_READ_WRITE)"
    by (simp add: may_read_def UFS_READ_WRITE_def UFS_READ_ONLY_def)
  moreover have "ahead demo (fresh_fd 0 UFS_READ_WRITE) = [Some CHR ''h'', Some CHR ''i'']"
    using demo_facts(3) by (simp add: ahead_def rest_def contents_def BLOCK_SIZE_def)
  ultimately show ?thesis using ufs_read_bytes[OF demo_ok(2) demo_facts(2), of 5] by auto
qed

lemma write_from_eq:
  assumes "ufs_inv B L s" and "open_fd s fd = Some d"
  shows "write_from s (fd_file d) = write_segs s (B (fd_file d))"
  using contents_eq[OF assms(1) open_fd_file[OF assms]]
  by (auto simp: write_from_def write_segs_def segs_def)

lemma write_bytes:
  assumes "ufs_ok s" and "open_fd s fd = Some d" and "write_allowed d (length buf)"
  shows "case put (write_from s (fd_file d)) (fst (place d)) (snd (place d)) (map Some buf) of
      None \<Rightarrow> ufs_write fd buf s = None
    | Some (ys, k, p) \<Rightarrow> \<exists>s' d'. ufs_write fd buf s = ret (int (length buf), s') \<and> ufs_ok s' \<and>
        contents s' (fd_file d) = ys \<and> open_fd s' fd = Some d' \<and> moved d d' \<and> place d' = (k, p) \<and>
        (\<forall>g. g \<noteq> fd \<longrightarrow> open_fd s' g = open_fd s g) \<and>
        (\<forall>ga \<in> dom (files s). ga \<noteq> fd_file d \<longrightarrow> contents s' ga = contents s ga)"
proof -
  obtain B L where inv: "ufs_inv B L s" and g: "ghosts_ok s" using assms(1) by (rule ufs_okE)
  note wf = write_from_eq[OF inv assms(2)] and fa = open_fd_file[OF inv assms(2)]
  from inv assms(2,3) show ?thesis
  proof (cases rule: put_choice)
    case hang
    then show ?thesis by (simp add: wf)
  next
    case (return ys k p s' B' d')
    note w = return(4)[unfolded wrote_def]
    have fa': "fd_file d \<in> dom (files s')" using fa w by blast
    have i: "nat (fd - 1) < length (file_descriptors s)" and fd: "1 \<le> fd"
      using open_fdD(1)[OF assms(2)] assms(2) by (auto simp: open_fd_def split: if_splits)
    have "ufs_ok s'" using return(3) wrote_ghosts[OF return(4) g] by (rule ufs_okI)
    moreover have "contents s' (fd_file d) = ys" using return(8) contents_eq[OF return(3) fa'] by simp
    moreover have "open_fd s' fd = Some d'"
      using return(5) fd by (auto simp: cursor_def open_fd_def)
    moreover have "open_fd s' h = open_fd s h" if "h \<noteq> fd" for h
    proof -
      have "nat (h - 1) \<noteq> nat (fd - 1)" if "1 \<le> h" using that fd \<open>h \<noteq> fd\<close> by linarith
      with w show ?thesis by (auto simp: open_fd_def)
    qed
    moreover have "contents s' ga = contents s ga" if "ga \<in> dom (files s)" "ga \<noteq> fd_file d" for ga
      using that w contents_eq[OF return(3), of ga] contents_eq[OF inv, of ga] by simp
    moreover have "place d' = (k, p)" using return(5,7) by (simp add: cursor_def place_def)
    ultimately show ?thesis
      unfolding wf return(1) option.case prod.case using return(2,6)
      by (intro exI[of _ "set_err UFS_ERR_NO_ERR s'"] exI[of _ d']) simp
  qed
qed

text \<open>C4: \<^verbatim>\<open>ufs_write\<close> computes exactly \<open>put\<close> on the segments of the file, from the place of the
  descriptor. It returns the number of bytes written when \<open>put\<close> has a result, and never
  returns when the bytes would go into the middle of a full block; no other file changes.\<close>

theorem ufs_write_bytes:
  assumes "ufs_ok s" and "open_fd s fd = Some d" and "write_allowed d (length buf)"
  shows "case put (write_from s (fd_file d)) (fst (place d)) (snd (place d)) (map Some buf) of
      None \<Rightarrow> ufs_write fd buf s = None
    | Some (ys, k, p) \<Rightarrow> \<exists>s' d'. ufs_write fd buf s = ret (int (length buf), s') \<and> ufs_ok s' \<and>
        contents s' (fd_file d) = ys \<and> open_fd s' fd = Some d' \<and> moved d d' \<and> place d' = (k, p) \<and>
        (\<forall>g. g \<noteq> fd \<longrightarrow> open_fd s' g = open_fd s g) \<and>
        (\<forall>ga \<in> dom (files s). ga \<noteq> fd_file d \<longrightarrow> contents s' ga = contents s ga)"
  by (rule write_bytes[OF assms])

theorem ufs_write_bytes_witness:
  "\<exists>s'. ufs_write 1 ''hi'' demo0 = ret (2, s') \<and> contents s' 0 = [[Some CHR ''h'', Some CHR ''i'']]"
proof -
  have "write_allowed (fresh_fd 0 UFS_READ_WRITE) (length ''hi'')"
    by (simp add: write_allowed_def may_write_def fd_curr_size_def UFS_READ_WRITE_def
        UFS_WRITE_ONLY_def MAX_FILE_SIZE_def)
  moreover have "put [[]] 0 0 (map Some ''hi'') = Some ([[Some CHR ''h'', Some CHR ''i'']], 0, 2)"
    using put_overwrite[of 0 "map Some ''hi''" "[[]]" 0] by (simp add: BLOCK_SIZE_def blit_def)
  ultimately show ?thesis
    using ufs_write_bytes[OF demo_ok(1) demo0_facts(1), of "''hi''"] demo0_facts(3)
    by (auto simp: write_from_def place_def)
qed

text \<open>Files without holes: the place of a descriptor is an offset into the bytes of the file.\<close>

definition offset :: "filedesc \<Rightarrow> nat" where
  "offset d = fst (place d) * BLOCK_SIZE + snd (place d)"

definition at_end :: "ufs \<Rightarrow> filedesc \<Rightarrow> bool" where
  "at_end s d \<longleftrightarrow> place d = (length (write_from s (fd_file d)) - 1, length (last (write_from s (fd_file d))))"

lemma dense_drop: "dense xs \<Longrightarrow> dense (drop k xs)"
  by (auto simp: dense_def dest: in_set_dropD)

lemma dense_take_length:
  assumes "dense xs" and "k < length xs"
  shows "length (concat (take k xs)) = k * BLOCK_SIZE"
  using assms(2)
proof (induction k)
  case (Suc k)
  with assms(1) show ?case by (simp add: take_Suc_conv_app_nth dense_def)
qed simp

lemma place_bound:
  assumes inv: "ufs_inv B L s" and d: "open_fd s fd = Some d" and ne: "B (fd_file d) \<noteq> []"
  shows "fst (place d) < length (B (fd_file d))"
  using ne pos_ok_cursor[OF inv open_fdD(1,2)[OF d]] by (cases "curr_block d") (auto simp: place_def cursor_def)

lemma segs_drop: "segs s (drop k as) = drop k (segs s as)"
  by (simp add: segs_def drop_map)

lemma place_le:
  assumes inv: "ufs_inv B L s" and d: "open_fd s fd = Some d"
  shows "fst (place d) \<le> length (B (fd_file d))"
proof (cases "curr_block d")
  case None
  then show ?thesis by (simp add: place_def)
next
  case (Some a)
  with pos_ok_cursor[OF inv open_fdD(1,2)[OF d]] have "B (fd_file d) \<noteq> []" by (auto simp: cursor_def)
  from place_bound[OF inv d this] show ?thesis by simp
qed

lemma rest_place:
  assumes inv: "ufs_inv B L s" and d: "open_fd s fd = Some d"
  shows "rest s as d = drop (snd (place d)) (stream (segs s (drop (fst (place d)) as)))"
  by (simp add: rest_def place_def)

lemma ahead_dense:
  assumes ok: "ufs_ok s" and d: "open_fd s fd = Some d" and de: "dense (contents s (fd_file d))"
  shows "ahead s d = drop (offset d) (concat (contents s (fd_file d)))"
proof -
  obtain B L where inv: "ufs_inv B L s" using ok by (rule ufs_okE)
  let ?as = "B (fd_file d)"
  have c: "contents s (fd_file d) = segs s ?as" by (rule contents_eq[OF inv open_fd_file[OF inv d]])
  have r: "ahead s d = drop (snd (place d)) (concat (drop (fst (place d)) (segs s ?as)))"
    using stream_dense[OF dense_drop[OF de[unfolded c]]] rest_place[OF inv d] ahead_eq[OF inv d]
    by (simp add: segs_def drop_map)
  show ?thesis
  proof (cases "?as = []")
    case True
    then show ?thesis using r c by simp
  next
    case False
    have k: "fst (place d) < length (segs s ?as)" using place_bound[OF inv d False] by simp
    have "concat (segs s ?as) = concat (take (fst (place d)) (segs s ?as)) @ concat (drop (fst (place d)) (segs s ?as))"
      by (metis append_take_drop_id concat_append)
    with r c show ?thesis
      using dense_take_length[OF de[unfolded c] k] by (simp add: offset_def)
  qed
qed

lemma dense_write_from: "dense (write_from s fa) = dense (contents s fa)"
  "concat (write_from s fa) = concat (contents s fa)"
  by (simp_all add: write_from_def)

lemma write_appends:
  assumes "ufs_ok s" and "open_fd s fd = Some d" and "write_allowed d (length buf)"
    and "dense (contents s (fd_file d))" and "at_end s d"
  shows "\<exists>s' d'. ufs_write fd buf s = ret (int (length buf), s') \<and> ufs_ok s' \<and>
    concat (contents s' (fd_file d)) = concat (contents s (fd_file d)) @ map Some buf \<and>
    dense (contents s' (fd_file d)) \<and> open_fd s' fd = Some d' \<and> at_end s' d' \<and> moved d d' \<and>
    (\<forall>g. g \<noteq> fd \<longrightarrow> open_fd s' g = open_fd s g)"
proof -
  have "write_from s (fd_file d) \<noteq> []" by (simp add: write_from_def)
  then obtain xs x where x: "write_from s (fd_file d) = xs @ [x]" by (metis append_butlast_last_id)
  have "dense (xs @ [x])" using assms(4) x by (metis dense_write_from(1))
  then obtain ys y where y: "put (xs @ [x]) (length xs) (length x) (map Some buf) =
      Some (ys @ [y], length ys, length y)" "dense (ys @ [y])"
      "concat (ys @ [y]) = concat (xs @ [x]) @ map Some buf"
    using put_at_end by metis
  have p: "place d = (length xs, length x)" using assms(5) x by (simp add: at_end_def)
  from write_bytes[OF assms(1-3)] obtain s' d' where w:
    "ufs_write fd buf s = ret (int (length buf), s')" "ufs_ok s'" "contents s' (fd_file d) = ys @ [y]"
    "open_fd s' fd = Some d'" "moved d d'" "place d' = (length ys, length y)"
    "\<forall>g. g \<noteq> fd \<longrightarrow> open_fd s' g = open_fd s g"
    by (auto simp: x p y(1))
  have "at_end s' d'" using w(3,5,6) by (simp add: at_end_def write_from_def moved_def)
  with w y(2,3) show ?thesis
    using dense_write_from(2)[of s "fd_file d"] x by (intro exI[of _ s'] exI[of _ d']) simp
qed

lemma demo_write_allowed: "write_allowed (fresh_fd 0 UFS_READ_WRITE) (length ''hi'')" "may_read (fresh_fd 0 UFS_READ_WRITE)"
  by (simp_all add: write_allowed_def may_write_def may_read_def fd_curr_size_def UFS_READ_WRITE_def
      UFS_READ_ONLY_def UFS_WRITE_ONLY_def MAX_FILE_SIZE_def)

lemma at_end_offset:
  assumes ok: "ufs_ok s" and d: "open_fd s fd = Some d" and de: "dense (contents s (fd_file d))"
    and "at_end s d"
  shows "offset d = length (concat (contents s (fd_file d)))"
proof -
  have ne: "write_from s (fd_file d) \<noteq> []" by (simp add: write_from_def)
  then obtain xs x where x: "write_from s (fd_file d) = xs @ [x]" by (metis append_butlast_last_id)
  have "dense (xs @ [x])" using de x by (metis dense_write_from(1))
  from dense_take_length[OF this, of "length xs"] have "length (concat xs) = length xs * BLOCK_SIZE" by simp
  with assms(4) x show ?thesis
    using dense_write_from(2)[of s "fd_file d"] by (simp add: at_end_def offset_def flip: dense_write_from(2))
qed

lemma offset_bound:
  assumes ok: "ufs_ok s" and d: "open_fd s fd = Some d" and de: "dense (contents s (fd_file d))"
  shows "offset d \<le> length (concat (contents s (fd_file d)))"
proof -
  obtain B L where inv: "ufs_inv B L s" using ok by (rule ufs_okE)
  have c: "contents s (fd_file d) = segs s (B (fd_file d))"
    by (rule contents_eq[OF inv open_fd_file[OF inv d]])
  show ?thesis
  proof (cases "curr_block d")
    case None
    then show ?thesis by (simp add: offset_def place_def)
  next
    case (Some a)
    let ?k = "block_num d - 1"
    have cu: "cursor s B (nat (fd - 1)) d ?k"
      using pos_ok_cursor[OF inv open_fdD(1,2)[OF d]] Some by simp
    then have k: "?k < length (contents s (fd_file d))" "block_pos d \<le> length (contents s (fd_file d) ! ?k)"
      by (auto simp: cursor_def c)
    have "length (concat (take (Suc ?k) (contents s (fd_file d)))) \<le> length (concat (contents s (fd_file d)))"
      by (metis append_take_drop_id concat_append length_append le_add1)
    then have "length (concat (take ?k (contents s (fd_file d)))) + length (contents s (fd_file d) ! ?k)
        \<le> length (concat (contents s (fd_file d)))"
      unfolding take_Suc_conv_app_nth[OF k(1)] by (simp del: One_nat_def)
    with k(2) Some dense_take_length[OF de k(1)] show ?thesis
      by (simp add: offset_def place_def del: One_nat_def)
  qed
qed

text \<open>C6: what one descriptor appends, another one reads: after a write at the end of a file without
  holes, any other descriptor of the file reads what it had ahead followed by the new bytes.\<close>

theorem ufs_write_then_read:
  assumes "ufs_ok s" and "open_fd s w = Some d" and "write_allowed d (length buf)"
    and "dense (contents s (fd_file d))" and "at_end s d"
    and "open_fd s r = Some e" and "r \<noteq> w" and "fd_file e = fd_file d" and "may_read e"
  shows "\<exists>s1 s2. ufs_write w buf s = ret (int (length buf), s1) \<and>
    ufs_read r n s1 = ret (int (length (take n (ahead s e @ map Some buf))),
      take n (ahead s e @ map Some buf), s2)"
proof -
  obtain s1 d1 where s1: "ufs_write w buf s = ret (int (length buf), s1)" "ufs_ok s1"
    "concat (contents s1 (fd_file d)) = concat (contents s (fd_file d)) @ map Some buf"
    "dense (contents s1 (fd_file d))" "open_fd s1 r = open_fd s r"
    using write_appends[OF assms(1-5)] assms(7) by metis
  have e1: "open_fd s1 r = Some e" using s1(5) assms(6) by simp
  have "ahead s1 e = drop (offset e) (concat (contents s (fd_file d)) @ map Some buf)"
    using ahead_dense[OF s1(2) e1] s1(3,4) assms(8) by simp
  also have "\<dots> = ahead s e @ map Some buf"
    using ahead_dense[OF assms(1,6)] offset_bound[OF assms(1,6)] assms(4,8) by simp
  finally have a: "ahead s1 e = ahead s e @ map Some buf" .
  from read_bytes[OF s1(2) e1 assms(9), of n] a s1(1) show ?thesis by auto
qed

theorem ufs_write_then_read_witness:
  "\<exists>s1 s2. ufs_write 1 ''hi'' demo0 = ret (2, s1) \<and> ufs_read 2 9 s1 = ret (2, map Some ''hi'', s2)"
proof -
  have "at_end demo0 (fresh_fd 0 UFS_READ_WRITE)" "ahead demo0 (fresh_fd 0 UFS_READ_WRITE) = []"
    using demo0_facts(3) by (simp_all add: at_end_def place_def write_from_def ahead_def rest_def contents_def)
  with ufs_write_then_read[OF demo_ok(1) demo0_facts(1) demo_write_allowed(1) _ _ demo0_facts(2), of 9]
    demo0_facts(3) demo_write_allowed(2) show ?thesis by auto
qed

text \<open>Overwriting inside a block that is not full replaces exactly the bytes at the place of the
  descriptor and keeps the others.\<close>

lemma ufs_overwrite:
  assumes "ufs_ok s" and "open_fd s fd = Some d" and "write_allowed d (length buf)" and "buf \<noteq> []"
    and "length (contents s (fd_file d) ! fst (place d)) < BLOCK_SIZE" and "contents s (fd_file d) \<noteq> []"
    and "snd (place d) + length buf \<le> BLOCK_SIZE"
  shows "\<exists>s'. ufs_write fd buf s = ret (int (length buf), s') \<and> ufs_ok s' \<and>
    contents s' (fd_file d) = (contents s (fd_file d))[fst (place d) :=
      blit (contents s (fd_file d) ! fst (place d)) (snd (place d)) (map Some buf)]"
proof -
  have "write_from s (fd_file d) = contents s (fd_file d)" using assms(6) by (simp add: write_from_def)
  moreover from this have "put (write_from s (fd_file d)) (fst (place d)) (snd (place d)) (map Some buf) =
      Some ((contents s (fd_file d))[fst (place d) :=
        blit (contents s (fd_file d) ! fst (place d)) (snd (place d)) (map Some buf)],
        fst (place d), snd (place d) + length buf)"
    using put_overwrite[of "snd (place d)" "map Some buf"] assms(4-7) by simp
  ultimately show ?thesis using write_bytes[OF assms(1-3)] by auto
qed

text \<open>C7: a write whose descriptor stands inside a full block never returns.\<close>

theorem ufs_overwrite_hangs:
  assumes "ufs_ok s" and "open_fd s fd = Some d" and "write_allowed d (length buf)" and "buf \<noteq> []"
    and "length (contents s (fd_file d) ! fst (place d)) = BLOCK_SIZE" and "contents s (fd_file d) \<noteq> []"
    and "snd (place d) < BLOCK_SIZE"
  shows "diverges (ufs_write fd buf s)"
proof -
  have "write_from s (fd_file d) = contents s (fd_file d)" using assms(6) by (simp add: write_from_def)
  with assms(4,5,7) have "put (write_from s (fd_file d)) (fst (place d)) (snd (place d)) (map Some buf) = None"
    by (intro put_full) simp_all
  with write_bytes[OF assms(1-3)] show ?thesis by simp
qed

text \<open>One block is filled through the first descriptor, then the second one writes a byte.\<close>

theorem ufs_overwrite_hangs_witness:
  "\<exists>s. ufs_write 1 (replicate 512 CHR ''x'') demo0 = ret (512, s) \<and> diverges (ufs_write 2 ''y'' s)"
proof -
  let ?buf = "replicate 512 CHR ''x''" and ?d = "fresh_fd 0 UFS_READ_WRITE"
  have al: "write_allowed ?d n" if "n \<le> 512" for n
    using that by (simp add: write_allowed_def may_write_def fd_curr_size_def UFS_READ_WRITE_def
        UFS_WRITE_ONLY_def MAX_FILE_SIZE_def)
  have "put [[]] 0 0 (map Some ?buf) = Some ([map Some ?buf], 0, 512)"
    using put_overwrite[of 0 "map Some ?buf" "[[]]" 0]
    by (simp add: BLOCK_SIZE_def blit_def)
  with write_bytes[OF demo_ok(1) demo0_facts(1), of ?buf] al[of 512] demo0_facts(3) obtain s d where
    s: "ufs_write 1 ?buf demo0 = ret (512, s)" "ufs_ok s" "contents s 0 = [map Some ?buf]"
      "open_fd s 2 = open_fd demo0 2"
    by (auto simp: write_from_def place_def)
  have o2: "open_fd s 2 = Some ?d" using s(4) demo0_facts(2) by simp
  have "diverges (ufs_write 2 ''y'' s)"
    by (rule ufs_overwrite_hangs[OF s(2) o2 al]) (use s(3) in \<open>simp_all add: place_def BLOCK_SIZE_def\<close>)
  with s(1) show ?thesis by blast
qed

section \<open>Opening, closing and deleting\<close>

lemma contents_same_blocks:
  assumes inv: "ufs_inv B L s" and inv': "ufs_inv B' L' s'" and "blocks s' = blocks s"
    and "fa \<in> dom (files s)" "fa \<in> dom (files s')" "B' fa = B fa"
  shows "contents s' fa = contents s fa"
  using assms by (simp add: contents_eq segs_def seg_frame[of s' s])

lemma contents_kept:
  assumes inv: "ufs_inv B L s" and inv': "ufs_inv B' L' s'" and b: "blocks s' = blocks s"
    and old: "dom (files s) \<subseteq> dom (files s')" "\<And>fa. fa \<in> dom (files s) \<Longrightarrow> B' fa = B fa"
    and new: "\<And>fa. fa \<in> dom (files s') \<Longrightarrow> fa \<notin> dom (files s) \<Longrightarrow> B' fa = []"
  shows "contents s' = contents s"
proof (rule ext)
  fix fa
  consider "fa \<in> dom (files s)" | "fa \<in> dom (files s')" "fa \<notin> dom (files s)" | "fa \<notin> dom (files s')" by blast
  then show "contents s' fa = contents s fa"
  proof cases
    case 1
    with old show ?thesis by (intro contents_same_blocks[OF inv inv' b]) auto
  next
    case 2
    then have "files s fa = None" by blast
    with contents_eq[OF inv' 2(1)] new[OF 2] show ?thesis by (simp add: contents_def blocks_of_def segs_def)
  next
    case 3
    with old have "files s' fa = None" "files s fa = None" by blast+
    then show ?thesis by (simp add: contents_def blocks_of_def)
  qed
qed

text \<open>C8: \<^verbatim>\<open>ufs_open\<close> without \<open>UFS_CREATE\<close> of a name that does not exist fails with
  \<open>UFS_ERR_NO_FILE\<close>. Otherwise it returns an identifier that was not in use, for a descriptor at the
  start of the file with the rights asked for. When the name exists, with or without \<open>UFS_CREATE\<close>, the
  descriptor is one of that file and no file is made; when it does not, one new file, empty, has
  that name. All other descriptors and names and the bytes of all files that were there stay.\<close>

theorem ufs_open_result:
  assumes "ufs_ok s"
  shows "if (\<forall>fa. \<not> names s nm fa) \<and> fl AND UFS_CREATE = 0
    then ufs_open nm fl s = ret (- 1, set_err UFS_ERR_NO_FILE s)
    else \<exists>rc s' fa. ufs_open nm fl s = ret (rc, s') \<and> ufs_ok s' \<and> ufs_errno s' = UFS_ERR_NO_ERR \<and>
      1 \<le> rc \<and> open_fd s rc = None \<and> open_fd s' rc = Some (fresh_fd fa (fd_rights fl)) \<and>
      (\<forall>g. g \<noteq> rc \<longrightarrow> open_fd s' g = open_fd s g) \<and>
      (if \<exists>ga. names s nm ga
       then names s nm fa \<and> names s' = names s \<and> dom (files s') = dom (files s) \<and> contents s' = contents s
       else files s fa = None \<and> names s' = (names s)(nm := (\<lambda>ga. ga = fa)) \<and>
         dom (files s') = insert fa (dom (files s)) \<and> contents s' = (contents s)(fa := []))"
proof -
  obtain B L where inv: "ufs_inv B L s" and g: "ghosts_ok s" using assms by (rule ufs_okE)
  show ?thesis
  proof (cases "\<exists>fa. names s nm fa")
    case True
    then obtain fa where nm: "names s nm fa" ..
    obtain rc s' where s': "ufs_open nm fl s = ret (rc, s')" "ufs_inv B L s'" "ghosts_ok s'" "1 \<le> rc"
      "open_fd s rc = None" "open_fd s' rc = Some (fresh_fd fa (fd_rights fl))"
      "\<forall>g. g \<noteq> rc \<longrightarrow> open_fd s' g = open_fd s g" "blocks s' = blocks s" "names s' = names s"
      "ufs_errcode s' = UFS_ERR_NO_ERR"
      and f: "\<exists>f. files s fa = Some f \<and> files s' = (files s)(fa \<mapsto> f\<lparr>refs := refs f + 1\<rparr>)"
      by (rule ufs_open_existing[OF inv g nm, of fl])
    have dom: "dom (files s') = dom (files s)" using f by (auto split: if_splits)
    then have "contents s' = contents s" by (intro contents_kept[OF inv s'(2,8)]) simp_all
    with True nm s' dom ufs_okI[OF s'(2,3)] show ?thesis by (auto simp: ufs_errno_def)
  next
    case False
    then have new: "\<And>fa. \<not> names s nm fa" by blast
    show ?thesis
    proof (cases "fl AND UFS_CREATE = 0")
      case True
      with new ufs_open_absent[OF inv new True] show ?thesis by simp
    next
      case c: False
      let ?n = "next_addr s" and ?B = "B(next_addr s := [])"
      obtain rc s' where s': "ufs_open nm fl s = ret (rc, s')" "ufs_inv ?B (?n # L) s'" "ghosts_ok s'"
        "1 \<le> rc" "open_fd s rc = None" "open_fd s' rc = Some (fresh_fd ?n (fd_rights fl))"
        "\<forall>g. g \<noteq> rc \<longrightarrow> open_fd s' g = open_fd s g" "blocks s' = blocks s" "ufs_errcode s' = UFS_ERR_NO_ERR"
        "files s ?n = None"
        and nms: "\<forall>nm' fa. names s' nm' fa \<longleftrightarrow> (if fa = ?n then nm' = nm else names s nm' fa)"
        and dom: "dom (files s') = insert ?n (dom (files s))"
        by (rule ufs_open_created[OF inv g new c])
      have "\<not> names s nm' ?n" for nm' using s'(10) by (simp add: names_def)
      then have "names s' = (names s)(nm := (\<lambda>ga. ga = ?n))" using nms new by (auto simp: fun_eq_iff)
      moreover have "contents s' = contents s"
        by (rule contents_kept[OF inv s'(2,8)]) (use dom s'(10) in auto)
      moreover from this have "contents s' = (contents s)(?n := [])"
        using s'(10) by (auto simp: contents_def blocks_of_def segs_def)
      ultimately have "\<exists>rc s' fa. ufs_open nm fl s = ret (rc, s') \<and> ufs_ok s' \<and> ufs_errno s' = UFS_ERR_NO_ERR \<and>
          1 \<le> rc \<and> open_fd s rc = None \<and> open_fd s' rc = Some (fresh_fd fa (fd_rights fl)) \<and>
          (\<forall>g. g \<noteq> rc \<longrightarrow> open_fd s' g = open_fd s g) \<and> files s fa = None \<and>
          names s' = (names s)(nm := (\<lambda>ga. ga = fa)) \<and>
          dom (files s') = insert fa (dom (files s)) \<and> contents s' = (contents s)(fa := [])"
        using s' dom ufs_okI[OF s'(2,3)]
        by (intro exI[of _ rc] exI[of _ s'] exI[of _ ?n]) (simp add: ufs_errno_def)
      with c False show ?thesis by simp
    qed
  qed
qed

lemma demo_names: "names demo nm fa \<longleftrightarrow> nm = ''f'' \<and> fa = 0"
  by (auto simp: names_def demo_def result_def ufs_call_run_def run_defs cong: bnd_weak_cong)

text \<open>The three outcomes: a name that is not there, a name that is there and keeps its bytes, and a
  new file beside it.\<close>

theorem ufs_open_result_witness:
  "ufs_open ''g'' 0 demo = ret (- 1, set_err UFS_ERR_NO_FILE demo) \<and>
   (\<exists>rc s'. ufs_open ''f'' UFS_CREATE demo = ret (rc, s') \<and> open_fd demo rc = None \<and>
      open_fd s' rc = Some (fresh_fd 0 UFS_READ_WRITE) \<and> contents s' 0 = [[Some CHR ''h'', Some CHR ''i'']]) \<and>
   (\<exists>rc s' fa. ufs_open ''g'' UFS_CREATE demo = ret (rc, s') \<and> fa \<noteq> 0 \<and> names s' ''g'' fa \<and> contents s' fa = [] \<and>
      contents s' 0 = [[Some CHR ''h'', Some CHR ''i'']])"
proof (intro conjI)
  have g: "\<not> names demo ''g'' fa" and f: "names demo ''f'' fa \<longleftrightarrow> fa = 0" for fa
    by (simp_all add: demo_names)
  have r: "fd_rights UFS_CREATE = UFS_READ_WRITE" by (simp add: fd_rights_def constant_defs)
  have c: "UFS_CREATE AND UFS_CREATE \<noteq> 0" by (simp add: UFS_CREATE_def)
  show "ufs_open ''g'' 0 demo = ret (- 1, set_err UFS_ERR_NO_FILE demo)"
    using ufs_open_result[OF demo_ok(2), of "''g''" 0] g by simp
  show "\<exists>rc s'. ufs_open ''f'' UFS_CREATE demo = ret (rc, s') \<and> open_fd demo rc = None \<and>
      open_fd s' rc = Some (fresh_fd 0 UFS_READ_WRITE) \<and> contents s' 0 = [[Some CHR ''h'', Some CHR ''i'']]"
  proof -
    have n: "(\<exists>ga. names demo ''f'' ga) = True" "(\<forall>fa. \<not> names demo ''f'' fa) = False" using f by blast+
    obtain rc s' fa where s': "ufs_open ''f'' UFS_CREATE demo = ret (rc, s')" "open_fd demo rc = None"
      "open_fd s' rc = Some (fresh_fd fa UFS_READ_WRITE)" "names demo ''f'' fa" "contents s' = contents demo"
      using ufs_open_result[OF demo_ok(2), of "''f''" UFS_CREATE] by (auto simp: n r)
    with f demo_facts(3) show ?thesis by (intro exI[of _ rc] exI[of _ s']) simp
  qed
  show "\<exists>rc s' fa. ufs_open ''g'' UFS_CREATE demo = ret (rc, s') \<and> fa \<noteq> 0 \<and> names s' ''g'' fa \<and> contents s' fa = [] \<and>
      contents s' 0 = [[Some CHR ''h'', Some CHR ''i'']]"
  proof -
    have n: "(\<exists>ga. names demo ''g'' ga) = False" "(UFS_CREATE AND UFS_CREATE = 0) = False" using g c by simp_all
    obtain rc s' fa where s': "ufs_open ''g'' UFS_CREATE demo = ret (rc, s')" "files demo fa = None"
      "names s' = (names demo)(''g'' := (\<lambda>ga. ga = fa))" "contents s' = (contents demo)(fa := [])"
      using ufs_open_result[OF demo_ok(2), of "''g''" UFS_CREATE] unfolding n if_False simp_thms by blast
    have "files demo 0 \<noteq> None" using f[of 0] by (auto simp: names_def)
    with s'(2) have "fa \<noteq> 0" by metis
    with s' demo_facts(3) show ?thesis by (intro exI[of _ rc] exI[of _ s'] exI[of _ fa]) simp
  qed
qed

lemma close_result:
  assumes "ufs_ok s" and "open_fd s fd = Some d" and "files s (fd_file d) = Some f"
  shows "\<exists>s'. ufs_close fd s = ret (0, s') \<and> ufs_ok s' \<and> open_fd s' fd = None \<and>
    (\<forall>g. g \<noteq> fd \<longrightarrow> open_fd s' g = open_fd s g) \<and>
    (if refs f = 1 \<and> deleted f
     then files s' (fd_file d) = None \<and> (\<forall>a \<in> set (blocks_of s (fd_file d)). blocks s' a = None)
     else files s' = (files s)(fd_file d \<mapsto> f\<lparr>refs := refs f - 1\<rparr>) \<and> contents s' = contents s)"
proof -
  obtain B L where inv: "ufs_inv B L s" and g: "ghosts_ok s" using assms(1) by (rule ufs_okE)
  let ?fa = "fd_file d" and ?s = "closed fd (B (fd_file d)) d f s"
  note ci = closed_inv[OF inv g assms(2,3)]
  have B: "blocks_of s ?fa = B ?fa" by (rule blocks_of_eq[OF inv]) (use assms(3) in blast)
  have keep: "files ?s = (files s)(?fa \<mapsto> f\<lparr>refs := refs f - 1\<rparr>) \<and> contents ?s = contents s"
    if "\<not> (refs f = 1 \<and> deleted f)"
  proof -
    have f: "files ?s = (files s)(?fa \<mapsto> f\<lparr>refs := refs f - 1\<rparr>)" and b: "blocks ?s = blocks s"
      using that by (auto simp: closed_def Let_def slot_closed_def)
    have dom: "dom (files ?s) = dom (files s)" using f assms(3) by auto
    have "contents ?s ga = contents s ga" for ga
    proof (cases "ga \<in> dom (files s)")
      case True
      with dom show ?thesis by (intro contents_same_blocks[OF inv ci(1) b]) simp_all
    next
      case False
      with dom have "files ?s ga = None" "files s ga = None" by blast+
      then show ?thesis by (simp add: contents_def blocks_of_def)
    qed
    with f show ?thesis by blast
  qed
  have "files ?s ?fa = None \<and> (\<forall>a \<in> set (blocks_of s ?fa). blocks ?s a = None)"
    if "refs f = 1 \<and> deleted f"
    using that B by (simp add: closed_def Let_def dropped_def)
  with keep show ?thesis
    using ufs_close_eq[OF inv assms(2,3)] ufs_okI[OF ci] closed_open_fd[OF assms(2)]
    by (intro exI[of _ "set_err UFS_ERR_NO_ERR ?s"]) (auto simp del: fun_upd_apply)
qed

text \<open>C9: closing a descriptor frees its identifier and leaves the others. The last close of a deleted
  file frees the file and all its blocks; otherwise every file keeps its bytes.\<close>

theorem ufs_close_result:
  assumes "ufs_ok s" and "open_fd s fd = Some d" and "files s (fd_file d) = Some f"
  shows "\<exists>s'. ufs_close fd s = ret (0, s') \<and> ufs_ok s' \<and> open_fd s' fd = None \<and>
    (\<forall>g. g \<noteq> fd \<longrightarrow> open_fd s' g = open_fd s g) \<and>
    (if refs f = 1 \<and> deleted f
     then files s' (fd_file d) = None \<and> (\<forall>a \<in> set (blocks_of s (fd_file d)). blocks s' a = None)
     else files s' = (files s)(fd_file d \<mapsto> f\<lparr>refs := refs f - 1\<rparr>) \<and> contents s' = contents s)"
  by (rule close_result[OF assms])

theorem ufs_close_result_witness: "\<exists>s'. ufs_close 1 demo = ret (0, s') \<and> open_fd s' 1 = None"
proof -
  obtain B L where "ufs_inv B L demo" using demo_ok(2) by (rule ufs_okE)
  from open_fd_file[OF this demo_facts(1)] obtain f where f: "files demo 0 = Some f" by auto
  show ?thesis using ufs_close_result[OF demo_ok(2) demo_facts(1), of f] f by auto
qed

lemma delete_result:
  assumes "ufs_ok s" and "names s nm fa" and "files s fa = Some f"
  shows "\<exists>s'. ufs_delete nm s = ret (0, s') \<and> ufs_ok s' \<and> (\<forall>ga. \<not> names s' nm ga) \<and>
    (\<forall>nm'. nm' \<noteq> nm \<longrightarrow> names s' nm' = names s nm') \<and> open_fd s' = open_fd s \<and>
    (\<forall>fd d. open_fd s fd = Some d \<longrightarrow> ahead s' d = ahead s d) \<and>
    (refs f = 0 \<longrightarrow> files s' fa = None \<and> (\<forall>a \<in> set (blocks_of s fa). blocks s' a = None))"
proof -
  obtain B L where inv: "ufs_inv B L s" and g: "ghosts_ok s" using assms(1) by (rule ufs_okE)
  let ?s = "removed fa (B fa) f s"
  note del = ufs_delete_eq[OF inv g assms(2,3)]
  have nd: "\<not> deleted f" "fname f = nm" using assms(2,3) by (simp_all add: names_def)
  note fr = removed_frame[OF inv assms(3) nd(1), where as = "B fa"]
  obtain L' where inv': "ufs_inv B L' ?s" using del(2) by blast
  have gone: "\<not> names ?s nm ga" for ga
    using fr(2)[of nm] fr(3)[of ga nm] names_unique[OF inv assms(2), of ga] by (cases "ga = fa") auto
  have other: "names ?s nm' = names s nm'" if "nm' \<noteq> nm" for nm'
  proof (rule ext)
    fix ga show "names ?s nm' ga = names s nm' ga"
      using fr(2)[of nm'] fr(3)[of ga nm'] assms(3) nd(2) that by (cases "ga = fa") (auto simp: names_def)
  qed
  have ah: "ahead ?s d = ahead s d" if d: "open_fd s fd = Some d" for fd d
  proof -
    have d': "open_fd ?s fd = Some d" using d fr(1) by simp
    have "0 < refs f" if "fd_file d = fa"
      using open_refs_pos[OF inv open_fdD(1,2)[OF d] that assms(3)] .
    moreover have "set (B (fd_file d)) \<inter> set (B fa) = {}" if "fd_file d \<noteq> fa"
      using ufs_invD(3)[OF inv] open_fd_file[OF inv d] assms(3) that unfolding owners_ok_def by blast
    ultimately have "seg ?s a = seg s a" if "a \<in> set (B (fd_file d))" for a
      using that fr(4)[of a] by (cases "fd_file d = fa") auto
    then have "segs ?s (B (fd_file d)) = segs s (B (fd_file d))"
      "segs ?s (drop k (B (fd_file d))) = segs s (drop k (B (fd_file d)))" for k
      by (auto intro!: segs_cong dest: in_set_dropD)
    with ahead_eq[OF inv d] ahead_eq[OF inv' d'] show ?thesis by (simp add: rest_def)
  qed
  have "files ?s fa = None \<and> (\<forall>a \<in> set (blocks_of s fa). blocks ?s a = None)" if "refs f = 0"
    using that blocks_of_eq[OF inv domI[of "files s", OF assms(3)]] by (simp add: removed_def Let_def dropped_def)
  with del(1) ufs_okI[OF inv' del(3)] gone other fr(1) ah show ?thesis
    by (intro exI[of _ "set_err UFS_ERR_NO_ERR ?s"]) (simp add: fun_eq_iff)
qed

section \<open>Errors and limits\<close>

text \<open>An identifier that is not open is refused with \<open>UFS_ERR_NO_FILE\<close> by every call, and nothing
  else changes.\<close>

lemma ufs_bad_descriptor:
  assumes "ufs_ok s" and "open_fd s fd = None"
  shows "ufs_close fd s = ret (- 1, set_err UFS_ERR_NO_FILE s) \<and>
    ufs_read fd n s = ret (- 1, [], set_err UFS_ERR_NO_FILE s) \<and>
    ufs_write fd buf s = ret (- 1, set_err UFS_ERR_NO_FILE s) \<and>
    ufs_resize fd n s = ret (- 1, set_err UFS_ERR_NO_FILE s)"
proof -
  obtain B L where "ufs_inv B L s" using assms(1) by (rule ufs_okE)
  from ufs_bad_fd[OF this assms(2)] show ?thesis by simp
qed

text \<open>A call that the rights of the descriptor do not allow fails with
  \<open>UFS_ERR_NO_PERMISSION\<close>, a write that would make the file larger than \<open>MAX_FILE_SIZE\<close> with
  \<open>UFS_ERR_NO_MEM\<close>, as long as the sum does not wrap around \<^verbatim>\<open>size_t\<close>; nothing else changes.\<close>

lemma ufs_denied:
  assumes "ufs_ok s" and "open_fd s fd = Some d"
  shows "(\<not> may_read d \<longrightarrow> ufs_read fd n s = ret (- 1, [], set_err UFS_ERR_NO_PERMISSION s)) \<and>
    (\<not> may_write d \<longrightarrow> ufs_write fd buf s = ret (- 1, set_err UFS_ERR_NO_PERMISSION s)) \<and>
    (may_write d \<and> MAX_FILE_SIZE < fd_curr_size d + length buf \<and> fd_curr_size d + length buf < 2 ^ 64 \<longrightarrow>
       ufs_write fd buf s = ret (- 1, set_err UFS_ERR_NO_MEM s)) \<and>
    (MAX_FILE_SIZE < n \<longrightarrow> ufs_resize fd n s = ret (- 1, set_err UFS_ERR_NO_MEM s))"
proof -
  obtain B L where inv: "ufs_inv B L s" using assms(1) by (rule ufs_okE)
  from write_denied[OF inv assms(2)] show ?thesis
    using assms(2) by (simp add: size_t_add_small ufs_resize_def get_fd_eq[OF inv])
qed

lemma ufs_delete_absent:
  assumes "ufs_ok s" and "\<forall>fa. \<not> names s nm fa"
  shows "ufs_delete nm s = ret (- 1, set_err UFS_ERR_NO_FILE s)"
proof -
  obtain B L where inv: "ufs_inv B L s" using assms(1) by (rule ufs_okE)
  have "find_file nm (file_list s) s = ret None"
    using find_file_names[OF inv, of nm] assms(2) by metis
  then show ?thesis by (simp add: ufs_delete_def)
qed

text \<open>C10: refused calls. With an identifier that is not open every call fails with \<open>UFS_ERR_NO_FILE\<close>, and
  so does \<^verbatim>\<open>ufs_delete\<close> of a name that does not exist; a read or write that the rights of the
  descriptor do not allow fails with \<open>UFS_ERR_NO_PERMISSION\<close>; a write that would make the file
  larger than \<open>MAX_FILE_SIZE\<close>, as long as the sum of position and length does not wrap around
  \<^verbatim>\<open>size_t\<close>, and a \<^verbatim>\<open>ufs_resize\<close> to more than \<open>MAX_FILE_SIZE\<close> bytes fail with \<open>UFS_ERR_NO_MEM\<close>. Nothing but
  the error code changes.\<close>

theorem ufs_refusals:
  assumes "ufs_ok s"
  shows "(case open_fd s fd of
    None \<Rightarrow> ufs_close fd s = ret (- 1, set_err UFS_ERR_NO_FILE s) \<and>
      ufs_read fd n s = ret (- 1, [], set_err UFS_ERR_NO_FILE s) \<and>
      ufs_write fd buf s = ret (- 1, set_err UFS_ERR_NO_FILE s) \<and>
      ufs_resize fd n s = ret (- 1, set_err UFS_ERR_NO_FILE s)
  | Some d \<Rightarrow> (\<not> may_read d \<longrightarrow> ufs_read fd n s = ret (- 1, [], set_err UFS_ERR_NO_PERMISSION s)) \<and>
      (\<not> may_write d \<longrightarrow> ufs_write fd buf s = ret (- 1, set_err UFS_ERR_NO_PERMISSION s)) \<and>
      (may_write d \<and> MAX_FILE_SIZE < fd_curr_size d + length buf \<and> fd_curr_size d + length buf < 2 ^ 64 \<longrightarrow>
        ufs_write fd buf s = ret (- 1, set_err UFS_ERR_NO_MEM s)) \<and>
      (MAX_FILE_SIZE < n \<longrightarrow> ufs_resize fd n s = ret (- 1, set_err UFS_ERR_NO_MEM s))) \<and>
    ((\<forall>fa. \<not> names s nm fa) \<longrightarrow> ufs_delete nm s = ret (- 1, set_err UFS_ERR_NO_FILE s))"
  using ufs_bad_descriptor[OF assms, of fd n buf] ufs_denied[OF assms, of fd _ n buf] ufs_delete_absent[OF assms, of nm]
  by (cases "open_fd s fd") simp_all

theorem ufs_refusals_witness:
  "ufs_close 9 demo0 = ret (- 1, set_err UFS_ERR_NO_FILE demo0) \<and>
   ufs_write 1 (replicate (MAX_FILE_SIZE + 1) CHR ''x'') demo0 = ret (- 1, set_err UFS_ERR_NO_MEM demo0) \<and>
   ufs_resize 1 (MAX_FILE_SIZE + 1) demo0 = ret (- 1, set_err UFS_ERR_NO_MEM demo0)"
proof (intro conjI)
  have "open_fd demo0 9 = None" by code_simp
  with ufs_refusals[OF demo_ok(1), of 9] show "ufs_close 9 demo0 = ret (- 1, set_err UFS_ERR_NO_FILE demo0)" by simp
  have r: "may_write (fresh_fd 0 UFS_READ_WRITE)" "may_read (fresh_fd 0 UFS_READ_WRITE)"
    by (simp_all add: may_write_def may_read_def UFS_READ_WRITE_def UFS_WRITE_ONLY_def UFS_READ_ONLY_def)
  show "ufs_write 1 (replicate (MAX_FILE_SIZE + 1) CHR ''x'') demo0 = ret (- 1, set_err UFS_ERR_NO_MEM demo0)"
    using ufs_refusals[OF demo_ok(1), of 1 0 "replicate (MAX_FILE_SIZE + 1) CHR ''x''"] demo0_facts(1) r
    by (simp add: fd_curr_size_def) (simp add: MAX_FILE_SIZE_def)
  show "ufs_resize 1 (MAX_FILE_SIZE + 1) demo0 = ret (- 1, set_err UFS_ERR_NO_MEM demo0)"
    using ufs_refusals[OF demo_ok(1), of 1 "MAX_FILE_SIZE + 1" "[]"] demo0_facts(1) r by simp
qed

section \<open>Resizing\<close>

lemma stream_empties: "stream (xs @ replicate m []) = stream xs"
proof -
  have "stream (replicate m [] :: 'a list list) = []" by (cases m) (simp_all add: BLOCK_SIZE_def)
  then show ?thesis by (induction xs) simp_all
qed

text \<open>Growing a file appends empty blocks up to the number that the new size needs and moves no
  descriptor. It adds nothing to read: every descriptor has the same bytes ahead as before.\<close>

lemma ufs_resize_grows:
  assumes "ufs_ok s" and "open_fd s fd = Some d" and "n \<le> MAX_FILE_SIZE"
    and "stored_size s (blocks_of s (fd_file d)) \<le> n"
  shows "\<exists>s'. ufs_resize fd n s = ret (0, s') \<and> ufs_ok s' \<and> open_fd s' = open_fd s \<and>
    contents s' (fd_file d) = contents s (fd_file d) @
      replicate (blocks_for n - length (contents s (fd_file d))) [] \<and>
    (\<forall>g e. open_fd s g = Some e \<longrightarrow> ahead s' e = ahead s e)"
proof -
  obtain B L where inv: "ufs_inv B L s" and g: "ghosts_ok s" using assms(1) by (rule ufs_okE)
  let ?fa = "fd_file d"
  have B: "blocks_of s ?fa = B ?fa" by (rule blocks_of_eq[OF inv open_fd_file[OF inv assms(2)]])
  obtain s' B' where s': "ufs_resize fd n s = ret (0, set_err UFS_ERR_NO_ERR s')" "ufs_inv B' L s'"
    "wrote 0 ?fa B s B' s'" "file_descriptors s' = file_descriptors s"
    "segs s' (B' ?fa) = segs s (B ?fa) @ replicate (blocks_for n - length (B ?fa)) []"
    by (rule ufs_resize_grow[OF inv assms(2,3)]) (use assms(4) B in simp)
  note w = s'(3)[unfolded wrote_def]
  have op: "open_fd s' = open_fd s" using s'(4) by (simp add: open_fd_def fun_eq_iff)
  have ah: "ahead s' e = ahead s e" if e: "open_fd s h = Some e" for h e
  proof (cases "fd_file e = ?fa")
    case True
    obtain new where new: "B' ?fa = B ?fa @ new" using w by blast
    have old: "segs s' (B ?fa) = segs s (B ?fa)" "segs s' new = replicate (blocks_for n - length (B ?fa)) []"
      using s'(5) new by (simp_all add: append_eq_append_conv)
    have le: "fst (place e) \<le> length (B ?fa)"
      using place_le[OF inv e] True by simp
    have "segs s' (drop (fst (place e)) (B' ?fa)) =
        segs s (drop (fst (place e)) (B ?fa)) @ replicate (blocks_for n - length (B ?fa)) []"
      using le old by (simp add: new segs_drop)
    then show ?thesis
      using ahead_eq[OF inv e] ahead_eq[OF s'(2), of h e] e op True
      by (simp add: rest_place[OF inv e] rest_place[OF s'(2), of h e] stream_empties)
  next
    case False
    have "B' (fd_file e) = B (fd_file e)" "segs s' (B (fd_file e)) = segs s (B (fd_file e))"
      using w False open_fd_file[OF inv e] by auto
    then show ?thesis
      using ahead_eq[OF inv e] ahead_eq[OF s'(2), of h e] e op
      by (simp add: rest_place[OF inv e] rest_place[OF s'(2), of h e] segs_drop)
  qed
  have "contents s' ?fa = segs s' (B' ?fa)"
    by (rule contents_eq[OF s'(2)]) (use w open_fd_file[OF inv assms(2)] in blast)
  moreover have "contents s ?fa = segs s (B ?fa)"
    by (rule contents_eq[OF inv open_fd_file[OF inv assms(2)]])
  ultimately show ?thesis
    using s'(1,5) op ah ufs_okI[OF s'(2) wrote_ghosts[OF s'(3) g]]
    by (intro exI[of _ "set_err UFS_ERR_NO_ERR s'"]) (simp add: fun_eq_iff)
qed

lemma cut_seg:
  assumes inv: "ufs_inv B L s" and f: "files s fa = Some f" and n: "0 < n" "n < stored_size s (B fa)"
    and de: "dense (segs s (B fa))" and m: "blocks_for n = Suc m"
  shows "m < length (B fa)" "tail_for n \<le> length (seg s (B fa ! m))" "m * BLOCK_SIZE + tail_for n = n"
proof -
  show lt: "m < length (B fa)" using stored_size_blocks[OF inv f n] m by simp
  show eq: "m * BLOCK_SIZE + tail_for n = n" using blocks_for_bounds(2)[OF n(1)] m by simp
  show "tail_for n \<le> length (seg s (B fa ! m))"
  proof (cases "Suc m = length (B fa)")
    case True
    then have "B fa \<noteq> []" "length (B fa) - 1 = m" by auto
    then have "last (B fa) = B fa ! m" by (simp add: last_conv_nth)
    with n(2) eq \<open>length (B fa) - 1 = m\<close> \<open>B fa \<noteq> []\<close> show ?thesis by (simp add: stored_size_def)
  next
    case False
    then have "length (seg s (B fa ! m)) = BLOCK_SIZE" using de lt by (simp add: dense_def)
    with blocks_for_bounds(3)[OF n(1)] show ?thesis by simp
  qed
qed

lemma shrunk_segs:
  assumes inv: "ufs_inv B L s" and f: "files s fa = Some f" and n: "0 < n" "n < stored_size s (B fa)"
    and de: "dense (segs s (B fa))"
  shows "concat (segs (shrunk fa f (blocks_for n) (tail_for n) (B fa) s) (take (blocks_for n) (B fa))) =
    take n (concat (segs s (B fa)))"
proof -
  let ?as = "B fa" and ?s = "shrunk fa f (blocks_for n) (tail_for n) (B fa) s"
  obtain m where m: "blocks_for n = Suc m" using blocks_for_bounds(1)[OF n(1)] by (cases "blocks_for n") auto
  note cs = cut_seg[OF inv f n de m]
  note sb = shrunk_blocks[OF inv f blocks_for_bounds(1)[OF n(1)] stored_size_blocks[OF inv f n],
      where pos = "tail_for n"]
  have dist: "distinct ?as" by (rule inv_file(4)[OF inv f])
  have keep: "seg ?s a = seg s a" if "a \<in> set (take m ?as)" for a
  proof -
    from that obtain j where j: "j < m" "a = ?as ! j" using cs(1) by (auto simp: in_set_conv_nth)
    have "a \<noteq> ?as ! (blocks_for n - 1)" using j cs(1) m dist by (simp add: nth_eq_iff_index_eq)
    moreover have "a \<notin> set (drop (blocks_for n) ?as)"
      using set_take_disj_set_drop_if_distinct[OF dist, of m "blocks_for n"] that m by auto
    ultimately show ?thesis using sb(2) by (simp add: seg_def)
  qed
  have last: "seg ?s (?as ! m) = take (tail_for n) (seg s (?as ! m))"
    using sb(1) cs(2) m by (auto simp: seg_def)
  have "segs ?s (take (blocks_for n) ?as) = segs ?s (take m ?as) @ [seg ?s (?as ! m)]"
    unfolding m take_Suc_conv_app_nth[OF cs(1)] by simp
  also have "segs ?s (take m ?as) = segs s (take m ?as)" by (rule segs_cong) (rule keep)
  finally have "segs ?s (take (blocks_for n) ?as) = segs s (take m ?as) @ [take (tail_for n) (seg s (?as ! m))]"
    by (simp only: last)
  moreover have "length (concat (segs s (take m ?as))) = m * BLOCK_SIZE"
    using dense_take_length[OF de, of m] cs(1) by (simp add: segs_def take_map)
  moreover have "segs s ?as = segs s (take m ?as) @ seg s (?as ! m) # segs s (drop (Suc m) ?as)"
    by (subst id_take_nth_drop[OF cs(1)]) simp
  moreover have "n - m * BLOCK_SIZE = tail_for n" "m * BLOCK_SIZE \<le> n" using cs(3) by linarith+
  ultimately show ?thesis using cs(2) by simp
qed

text \<open>C12: shrinking a file without holes keeps exactly its first \<open>n\<close> bytes. Of the descriptors of the
  file, those in blocks before the new last block stay; every other one is moved to the new end,
  also when it stood before the new end.\<close>

theorem ufs_resize_shrinks:
  assumes "ufs_ok s" and "open_fd s fd = Some d" and "n \<le> MAX_FILE_SIZE" and "0 < n"
    and "n < stored_size s (blocks_of s (fd_file d))" and "dense (contents s (fd_file d))"
  shows "\<exists>s'. ufs_resize fd n s = ret (0, s') \<and> ufs_ok s' \<and>
    concat (contents s' (fd_file d)) = take n (concat (contents s (fd_file d))) \<and>
    (\<forall>g e. open_fd s g = Some e \<longrightarrow> (\<exists>e'. open_fd s' g = Some e' \<and> moved e e' \<and>
       (if fd_file e = fd_file d \<and> blocks_for n \<le> block_num e then offset e' = n else e' = e)))"
proof -
  obtain B L where inv: "ufs_inv B L s" and g: "ghosts_ok s" using assms(1) by (rule ufs_okE)
  let ?fa = "fd_file d" and ?m = "blocks_for n"
  have fa: "?fa \<in> dom (files s)" by (rule open_fd_file[OF inv assms(2)])
  then obtain f where f: "files s ?fa = Some f" by blast
  have B: "blocks_of s ?fa = B ?fa" by (rule blocks_of_eq[OF inv fa])
  have c: "contents s ?fa = segs s (B ?fa)" by (rule contents_eq[OF inv fa])
  have n: "n < stored_size s (B ?fa)" using assms(5) B by simp
  let ?s = "shrunk ?fa f ?m (tail_for n) (B ?fa) s"
  note sh = ufs_resize_shrink[OF inv assms(2) f assms(4) n assms(3)]
  have "contents ?s ?fa = segs ?s (take ?m (B ?fa))"
    using contents_eq[OF sh(2), of ?fa] by (simp add: shrunk_def)
  then have bytes: "concat (contents ?s ?fa) = take n (concat (contents s ?fa))"
    using shrunk_segs[OF inv f assms(4) n] assms(6) c by simp
  have "\<exists>e'. open_fd ?s h = Some e' \<and> moved e e' \<and>
       (if fd_file e = ?fa \<and> ?m \<le> block_num e then offset e' = n else e' = e)"
    if e: "open_fd s h = Some e" for h e
  proof -
    let ?e = "the (clamp_fd ?fa (cut_file ?m (B ?fa) f) (tail_for n) (Some e))"
    have "open_fd ?s h = clamp_fd ?fa (cut_file ?m (B ?fa) f) (tail_for n) (Some e)"
      using e by (auto simp: open_fd_def shrunk_def split: if_splits)
    then have "open_fd ?s h = Some ?e" by (simp add: clamp_fd_def)
    moreover have "moved e ?e" by (simp add: clamp_fd_def moved_def)
    moreover have "offset ?e = n" if "fd_file e = ?fa \<and> ?m \<le> block_num e"
      using that blocks_for_bounds(2)[OF assms(4)]
      by (simp add: clamp_fd_def cut_file_def offset_def place_def)
    moreover have "?e = e" if "\<not> (fd_file e = ?fa \<and> ?m \<le> block_num e)"
      using that by (auto simp: clamp_fd_def cut_file_def)
    ultimately show ?thesis by (intro exI[of _ ?e]) (auto simp del: option.sel)
  qed
  with sh(1) bytes ufs_okI[OF sh(2) shrunk_ghosts[OF g f]] show ?thesis
    by (intro exI[of _ "set_err UFS_ERR_NO_ERR ?s"]) simp
qed

text \<open>A descriptor of block 1 that stands at offset 0 is dragged to the new end; here that is the
  descriptor that wrote, and a fresh one stays.\<close>

theorem ufs_resize_shrinks_witness:
  "\<exists>s'. ufs_resize 1 1 demo = ret (0, s') \<and> concat (contents s' 0) = [Some CHR ''h''] \<and>
     open_fd s' 2 = Some (fresh_fd 0 UFS_READ_WRITE)"
proof -
  obtain a where a: "blocks_of demo 0 = [a]" "length (seg demo a) = 2"
    using demo_facts(3) by (auto simp: contents_def segs_def)
  have "blocks_for 1 = 1" by (simp add: blocks_for_def BLOCK_SIZE_def)
  moreover have "dense (contents demo 0)" using demo_facts(3) by (simp add: BLOCK_SIZE_def)
  moreover have "1 < stored_size demo (blocks_of demo 0)" using a by (simp add: stored_size_def)
  ultimately obtain s' where s': "ufs_resize 1 1 demo = ret (0, s')"
    "concat (contents s' 0) = take 1 (concat (contents demo 0))"
    "\<forall>g e. open_fd demo g = Some e \<longrightarrow> (\<exists>e'. open_fd s' g = Some e' \<and> moved e e' \<and>
       (if fd_file e = 0 \<and> 1 \<le> block_num e then offset e' = 1 else e' = e))"
    using ufs_resize_shrinks[OF demo_ok(2) demo_facts(1), of 1] by (auto simp: MAX_FILE_SIZE_def)
  from s'(3) demo_facts(2) have "open_fd s' 2 = Some (fresh_fd 0 UFS_READ_WRITE)"
    by (metis fresh_fd_simps(4) not_one_le_zero)
  with s'(1,2) demo_facts(3) show ?thesis by auto
qed

end
