(* ===== verification/UserFS_Client.thy ===== *)
theory UserFS_Client
  imports UserFS_Theorems
begin

text \<open>
  The file system as a client sees it: for every call what happens to \<^emph>\<open>all\<close> names, to all open descriptors
  and to the bytes ahead of them. The long tests of \<^verbatim>\<open>3/test.c\<close> (theory \<^verbatim>\<open>UserFS_Stress\<close>) are proved from these facts alone.
\<close>

lemma ahead_contents:
  "ahead s d = drop (snd (place d)) (stream (drop (fst (place d)) (contents s (fd_file d))))"
  by (simp add: ahead_def rest_def contents_def place_def segs_def drop_map)

definition bound_name :: "string \<Rightarrow> ufs \<Rightarrow> bool" where
  "bound_name nm s \<longleftrightarrow> (\<exists>fa. names s nm fa)"

text \<open>A descriptor from which the bytes \<open>bs\<close> can be read, and one that is open on the file \<open>nm\<close>.\<close>

definition readable :: "int \<Rightarrow> char option list \<Rightarrow> ufs \<Rightarrow> bool" where
  "readable fd bs s \<longleftrightarrow> (\<exists>d. open_fd s fd = Some d \<and> may_read d \<and> ahead s d = bs)"

definition opened_as :: "int \<Rightarrow> string \<Rightarrow> ufs \<Rightarrow> bool" where
  "opened_as fd nm s \<longleftrightarrow> (\<exists>d. open_fd s fd = Some d \<and> names s nm (fd_file d))"

text \<open>Nothing changes but the descriptors in \<open>F\<close> and the bytes ahead of descriptors of the files in \<open>A\<close>.\<close>

definition others_keep :: "int set \<Rightarrow> addr set \<Rightarrow> ufs \<Rightarrow> ufs \<Rightarrow> bool" where
  "others_keep F A s s' \<longleftrightarrow> (\<forall>g. g \<notin> F \<longrightarrow> open_fd s' g = open_fd s g \<and>
     (\<forall>d. open_fd s g = Some d \<longrightarrow> fd_file d \<notin> A \<longrightarrow> ahead s' d = ahead s d))"

lemma others_keepI:
  assumes "\<And>g. g \<notin> F \<Longrightarrow> open_fd s' g = open_fd s g"
    and "\<And>g d. g \<notin> F \<Longrightarrow> open_fd s g = Some d \<Longrightarrow> fd_file d \<notin> A \<Longrightarrow> contents s' (fd_file d) = contents s (fd_file d)"
  shows "others_keep F A s s'"
  using assms by (auto simp: others_keep_def ahead_contents)

lemma others_keepD:
  assumes "others_keep F A s s'" and "g \<notin> F"
  shows "open_fd s' g = open_fd s g" "open_fd s g = Some d \<Longrightarrow> fd_file d \<notin> A \<Longrightarrow> ahead s' d = ahead s d"
  using assms by (auto simp: others_keep_def)

lemma others_keep_trans:
  "others_keep F A s s' \<Longrightarrow> others_keep G C s' s'' \<Longrightarrow> others_keep (F \<union> G) (A \<union> C) s s''"
  unfolding others_keep_def by (metis UnCI)

lemma others_keep_closed:
  "others_keep F A s s' \<Longrightarrow> (\<And>g. g \<in> F \<Longrightarrow> g \<notin> G \<Longrightarrow> open_fd s g = None \<and> open_fd s' g = None) \<Longrightarrow>
   (\<And>g d. open_fd s g = Some d \<Longrightarrow> fd_file d \<notin> A) \<Longrightarrow> others_keep G {} s s'"
  by (fastforce simp: others_keep_def)

lemma open_file_exists:
  assumes "ufs_ok s" and "open_fd s fd = Some d"
  shows "fd_file d \<in> dom (files s)"
  using assms open_fd_file by (metis ufs_okE)

text \<open>The same blocks: every open file has the same bytes.\<close>

lemma same_blocks_keep:
  assumes inv: "ufs_inv B L s" and inv': "ufs_inv B' L' s'" and b: "blocks s' = blocks s"
    and same: "\<And>ga. ga \<in> dom (files s) \<Longrightarrow> B' ga = B ga" and others: "\<And>g. g \<notin> F \<Longrightarrow> open_fd s' g = open_fd s g"
  shows "others_keep F {} s s'"
proof (rule others_keepI[OF others])
  fix g d assume g: "g \<notin> F" and d: "open_fd s g = Some d"
  have "open_fd s' g = Some d" using others[OF g] d by simp
  from open_fd_file[OF inv d] open_fd_file[OF inv' this] same
  show "contents s' (fd_file d) = contents s (fd_file d)" by (intro contents_same_blocks[OF inv inv' b]) auto
qed

lemma rights [simp]: "may_read (fresh_fd fa (fd_rights UFS_CREATE))" "may_write (fresh_fd fa (fd_rights UFS_CREATE))"
  "may_read (fresh_fd fa (fd_rights 0))" "may_write (fresh_fd fa (fd_rights 0))"
  by (simp_all add: may_read_def may_write_def fd_rights_def UFS_CREATE_def UFS_READ_ONLY_def UFS_WRITE_ONLY_def UFS_READ_WRITE_def)

lemma fresh_places [simp]: "place (fresh_fd fa r) = (0, 0)" "fd_curr_size (fresh_fd fa r) = 0"
  by (simp_all add: place_def fd_curr_size_def)

section \<open>What every call does\<close>

lemma client_create:
  assumes ok: "ufs_ok s" and new: "\<not> bound_name nm s" and fl: "fl AND UFS_CREATE \<noteq> 0"
  obtains fd s' fa where "ufs_open nm fl s = ret (fd, s')" "ufs_ok s'" "1 \<le> fd" "open_fd s fd = None"
    "open_fd s' fd = Some (fresh_fd fa (fd_rights fl))" "contents s' fa = []" "names s' nm fa" "fa \<notin> dom (files s)"
    "\<And>nm'. nm' \<noteq> nm \<Longrightarrow> names s' nm' = names s nm'" "others_keep {fd} {} s s'"
proof -
  obtain B L where inv: "ufs_inv B L s" and g: "ghosts_ok s" using ok by (rule ufs_okE)
  let ?n = "next_addr s" and ?B = "B(next_addr s := [])"
  have abs: "\<And>fa. \<not> names s nm fa" using new by (simp add: bound_name_def)
  obtain fd s' where s': "ufs_open nm fl s = ret (fd, s')" "ufs_inv ?B (?n # L) s'" "ghosts_ok s'"
    "1 \<le> fd" "open_fd s fd = None" "open_fd s' fd = Some (fresh_fd ?n (fd_rights fl))"
    "\<forall>g. g \<noteq> fd \<longrightarrow> open_fd s' g = open_fd s g" "blocks s' = blocks s" "files s ?n = None"
    and nms: "\<forall>nm' fa. names s' nm' fa \<longleftrightarrow> (if fa = ?n then nm' = nm else names s nm' fa)"
    by (rule ufs_open_created[OF inv g abs fl])
  have n: "names s' nm ?n" using nms by simp
  have c: "contents s' ?n = []" using n contents_eq[OF s'(2), of ?n] by (auto simp: names_def segs_def)
  have "\<not> names s nm' ?n" for nm' using s'(9) by (simp add: names_def)
  then have other: "names s' nm' = names s nm'" if "nm' \<noteq> nm" for nm' using nms that by (auto simp: fun_eq_iff)
  have "others_keep {fd} {} s s'"
    by (rule same_blocks_keep[OF inv s'(2,8)]) (use s'(7,9) in auto)
  with that[OF s'(1) ufs_okI[OF s'(2,3)] s'(4-6) c n _ other] s'(9) show ?thesis by blast
qed

lemma client_reopen:
  assumes ok: "ufs_ok s" and nm: "names s nm fa"
  obtains fd s' where "ufs_open nm fl s = ret (fd, s')" "ufs_ok s'" "1 \<le> fd" "open_fd s fd = None"
    "open_fd s' fd = Some (fresh_fd fa (fd_rights fl))" "contents s' fa = contents s fa" "names s' = names s" "others_keep {fd} {} s s'"
proof -
  obtain B L where inv: "ufs_inv B L s" and g: "ghosts_ok s" using ok by (rule ufs_okE)
  obtain fd s' where s': "ufs_open nm fl s = ret (fd, s')" "ufs_inv B L s'" "ghosts_ok s'" "1 \<le> fd"
    "open_fd s fd = None" "open_fd s' fd = Some (fresh_fd fa (fd_rights fl))"
    "\<forall>g. g \<noteq> fd \<longrightarrow> open_fd s' g = open_fd s g" "blocks s' = blocks s" "names s' = names s"
    by (rule ufs_open_existing[OF inv g nm])
  have "others_keep {fd} {} s s'" by (rule same_blocks_keep[OF inv s'(2,8)]) (use s'(7) in auto)
  moreover have "contents s' fa = contents s fa"
  proof (rule contents_same_blocks[OF inv s'(2,8)])
    show "fa \<in> dom (files s)" using nm by (auto simp: names_def)
    have "names s' nm fa" using nm s'(9) by simp
    then show "fa \<in> dom (files s')" by (auto simp: names_def)
  qed simp
  ultimately show ?thesis using that[OF s'(1) ufs_okI[OF s'(2,3)] s'(4-6)] s'(9) by blast
qed

lemma client_read:
  assumes ok: "ufs_ok s" and r: "readable fd bs s"
  obtains s' where "ufs_read fd n s = ret (int (length (take n bs)), take n bs, s')" "ufs_ok s'" "readable fd (drop n bs) s'"
    "names s' = names s" "others_keep {fd} {} s s'" "\<And>nm. opened_as fd nm s \<Longrightarrow> opened_as fd nm s'"
proof -
  from r obtain d where d: "open_fd s fd = Some d" "may_read d" "ahead s d = bs" by (auto simp: readable_def)
  obtain B L where inv: "ufs_inv B L s" and g: "ghosts_ok s" using ok by (rule ufs_okE)
  from ufs_read_spec[OF inv d(1,2), of n] ahead_eq[OF inv d(1)] d(3) obtain d' e where
    s': "ufs_read fd n s = ret (int (length (take n bs)), take n bs, set_err e (store_fd (nat (fd - 1)) (Some d') s))"
      "moved d d'" "ufs_inv B L (store_fd (nat (fd - 1)) (Some d') s)" "rest s (B (fd_file d)) d' = drop n bs" by auto
  let ?s = "set_err e (store_fd (nat (fd - 1)) (Some d') s)"
  have "ghosts_ok (store_fd (nat (fd - 1)) (Some d') s)" using g by (simp add: ghosts_ok_def)
  then have "ufs_ok ?s" using s'(3) by (simp add: ufs_okI)
  moreover have "ahead s d' = drop n bs"
    using s'(2,4) open_fd_file[OF inv d(1)] by (simp add: ahead_def moved_def blocks_of_eq[OF inv])
  then have "readable fd (drop n bs) ?s"
    using d(1,2) s'(2) by (auto simp: readable_def moved_def may_read_def)
  moreover have "names ?s = names s" by (simp add: names_def fun_eq_iff)
  moreover have "others_keep {fd} {} s ?s"
    using open_fd_other[of s fd] d(1) by (intro others_keepI) auto
  moreover have "opened_as fd nm ?s" if "opened_as fd nm s" for nm
    using that d(1) s'(2) by (auto simp: opened_as_def moved_def names_def)
  ultimately show ?thesis using that s'(1) by blast
qed

lemma write_names:
  assumes ok: "ufs_ok s" and d: "open_fd s fd = Some d" and al: "write_allowed d (length buf)"
    and w: "ufs_write fd buf s = ret (rc, s')"
  shows "names s' = names s"
proof -
  obtain B L where inv: "ufs_inv B L s" using ok by (rule ufs_okE)
  from inv d al show ?thesis
  proof (cases rule: put_choice)
    case hang
    with w show ?thesis by simp
  next
    case (return ys k p s1 B1 d1)
    note wr = return(4)[unfolded wrote_def]
    have "names s1 nm ga = names s nm ga" for nm ga
    proof (cases "ga = fd_file d")
      case True
      with wr show ?thesis by (cases "files s1 ga"; cases "files s ga") (auto simp: names_def)
    next
      case False
      with wr have "files s1 ga = files s ga" by (cases "ga \<in> dom (files s)") auto
      then show ?thesis by (simp add: names_def)
    qed
    then have "names s1 = names s" by (simp add: fun_eq_iff)
    with return(2) w show ?thesis by simp
  qed
qed

lemma client_write:
  assumes ok: "ufs_ok s" and d: "open_fd s fd = Some d" and al: "write_allowed d (length buf)"
    and de: "dense (contents s (fd_file d))" and e: "at_end s d"
  obtains s' d' where "ufs_write fd buf s = ret (int (length buf), s')" "ufs_ok s'"
    "concat (contents s' (fd_file d)) = concat (contents s (fd_file d)) @ map Some buf"
    "dense (contents s' (fd_file d))" "open_fd s' fd = Some d'" "at_end s' d'" "moved d d'" "names s' = names s"
    "\<And>g. g \<noteq> fd \<Longrightarrow> open_fd s' g = open_fd s g" "others_keep {fd} {fd_file d} s s'"
proof -
  obtain B L where inv: "ufs_inv B L s" using ok by (rule ufs_okE)
  obtain s' d' where s': "ufs_write fd buf s = ret (int (length buf), s')" "ufs_ok s'"
    "concat (contents s' (fd_file d)) = concat (contents s (fd_file d)) @ map Some buf"
    "dense (contents s' (fd_file d))" "open_fd s' fd = Some d'" "at_end s' d'" "moved d d'"
    "\<And>g. g \<noteq> fd \<Longrightarrow> open_fd s' g = open_fd s g"
    using write_appends[OF assms] by blast
  have "contents s' ga = contents s ga" if "ga \<in> dom (files s)" "ga \<noteq> fd_file d" for ga
    using write_bytes[OF ok d al] s'(1) that by (auto split: option.splits)
  then have "others_keep {fd} {fd_file d} s s'"
    using s'(8) open_fd_file[OF inv] by (intro others_keepI) auto
  with that[OF s'(1-7) write_names[OF ok d al s'(1)] s'(8)] show ?thesis by blast
qed

lemma client_close:
  assumes ok: "ufs_ok s" and o: "opened_as fd nm s"
  obtains s' where "ufs_close fd s = ret (0, s')" "ufs_ok s'" "open_fd s' fd = None" "names s' = names s"
    "others_keep {fd} {} s s'" "contents s' = contents s"
proof -
  from o obtain d where d: "open_fd s fd = Some d" "names s nm (fd_file d)" by (auto simp: opened_as_def)
  then obtain f where f: "files s (fd_file d) = Some f" "\<not> deleted f" by (auto simp: names_def)
  from close_result[OF ok d(1) f(1)] f(2) obtain s' where s': "ufs_close fd s = ret (0, s')" "ufs_ok s'" "open_fd s' fd = None"
    "\<And>g. g \<noteq> fd \<Longrightarrow> open_fd s' g = open_fd s g" "files s' = (files s)(fd_file d \<mapsto> f\<lparr>refs := refs f - 1\<rparr>)" "contents s' = contents s"
    by auto
  have "names s' = names s" using s'(5) f(1) by (auto simp: names_def fun_eq_iff)
  moreover have "others_keep {fd} {} s s'" using s'(4,6) by (intro others_keepI) auto
  ultimately show ?thesis using that s'(1-3,6) by blast
qed

lemma client_delete:
  assumes ok: "ufs_ok s" and b: "bound_name nm s"
  obtains s' where "ufs_delete nm s = ret (0, s')" "ufs_ok s'" "\<not> bound_name nm s'"
    "\<And>nm'. nm' \<noteq> nm \<Longrightarrow> names s' nm' = names s nm'" "others_keep {} {} s s'"
proof -
  from b obtain fa f where "names s nm fa" "files s fa = Some f" by (auto simp: bound_name_def names_def)
  from delete_result[OF ok this] that show ?thesis by (auto simp: bound_name_def others_keep_def)
qed

end
