(* ===== verification/C_Text.thy ===== *)
theory C_Text
  imports Prelude
begin

text \<open>
  Text files and decimal numbers: what \<^verbatim>\<open>atoi\<close>, \<^verbatim>\<open>fscanf(..., "%d", ...)\<close> and
  \<^verbatim>\<open>fprintf(..., "%d ", ...)\<close> of the C library do. A number that \<^verbatim>\<open>fscanf\<close> reads goes through
  \<^verbatim>\<open>strtol\<close> (clamped to 64 bits) and is then cut to 32 bits, as in glibc.
\<close>

definition is_space :: "char \<Rightarrow> bool" where
  "is_space c \<longleftrightarrow> c \<in> set [CHR '' '', CHR 0x09, CHR 0x0A, CHR 0x0B, CHR 0x0C, CHR 0x0D]"

definition digit :: "char \<Rightarrow> bool" where
  "digit c \<longleftrightarrow> of_char c \<ge> (48 :: nat) \<and> of_char c \<le> (57 :: nat)"

definition sign_split :: "string \<Rightarrow> bool \<times> string" where
  "sign_split w = (case w of [] \<Rightarrow> (False, [])
     | c # cs \<Rightarrow> if c = CHR ''-'' then (True, cs) else if c = CHR ''+'' then (False, cs) else (False, w))"

definition number :: "string \<Rightarrow> int" where
  "number ds = foldl (\<lambda>n c. 10 * n + (of_char c - 48)) 0 ds"

definition atoi :: "string \<Rightarrow> int" where
  "atoi w = (let (neg, ds) = sign_split (dropWhile is_space w); n = number (takeWhile digit ds)
     in if neg then - n else n)"

definition int_min :: int where "int_min = - (2 ^ 31)"

definition int_max :: int where "int_max = 2 ^ 31 - 1"

definition fits_int :: "int \<Rightarrow> bool" where
  "fits_int i \<longleftrightarrow> int_min \<le> i \<and> i \<le> int_max"

text \<open>Arithmetic on \<^verbatim>\<open>int\<close> wraps around.\<close>

definition wrap_int :: "int \<Rightarrow> int" where
  "wrap_int z = (z + 2 ^ 31) mod 2 ^ 32 - 2 ^ 31"

definition to_int :: "int \<Rightarrow> int" where
  "to_int z = (max (- (2 ^ 63)) (min (2 ^ 63 - 1) z) + 2 ^ 31) mod 2 ^ 32 - 2 ^ 31"

definition scan_int :: "string \<Rightarrow> (int \<times> string) option" where
  "scan_int t = (let (neg, ds) = sign_split (dropWhile is_space t); n = number (takeWhile digit ds)
     in if takeWhile digit ds = [] then None
        else Some (to_int (if neg then - n else n), dropWhile digit ds))"

definition digit_char :: "nat \<Rightarrow> char" where
  "digit_char n = char_of (48 + n)"

fun show_nat :: "nat \<Rightarrow> string" where
  "show_nat n = (if n < 10 then [digit_char n] else show_nat (n div 10) @ [digit_char (n mod 10)])"

declare show_nat.simps [simp del]

definition show_int :: "int \<Rightarrow> string" where
  "show_int i = (if i < 0 then CHR ''-'' # show_nat (nat (- i)) else show_nat (nat i))"

lemma digit_chars [simp]:
  "digit_char 0 = CHR ''0''" "digit_char (Suc 0) = CHR ''1''" "digit_char 2 = CHR ''2''"
  "digit_char 3 = CHR ''3''" "digit_char 4 = CHR ''4''" "digit_char 5 = CHR ''5''"
  "digit_char 6 = CHR ''6''" "digit_char 7 = CHR ''7''" "digit_char 8 = CHR ''8''" "digit_char 9 = CHR ''9''"
  by code_simp+

section \<open>Reading back what was printed\<close>

lemma wrap_int_id: "fits_int z \<Longrightarrow> wrap_int z = z"
  by (simp add: wrap_int_def fits_int_def int_min_def int_max_def)

lemma to_int_id: "fits_int i \<Longrightarrow> to_int i = i"
  by (simp add: to_int_def fits_int_def int_min_def int_max_def)

lemma to_int_fits: "fits_int (to_int i)"
  using pos_mod_bound[of "2 ^ 32 :: int" "max (- (2 ^ 63)) (min (2 ^ 63 - 1) i) + 2 ^ 31"]
    pos_mod_sign[of "2 ^ 32 :: int" "max (- (2 ^ 63)) (min (2 ^ 63 - 1) i) + 2 ^ 31"]
  by (simp add: to_int_def fits_int_def int_min_def int_max_def)

lemma of_digit_char: "n < 10 \<Longrightarrow> of_char (digit_char n) = (48 + n :: nat)"
  by (simp add: digit_char_def)

lemma of_digit_char_int: "n < 10 \<Longrightarrow> of_char (digit_char n) = (48 + int n :: int)"
  using arg_cong[OF of_digit_char[of n], of int] by (simp add: of_nat_of_char)

lemma digit_digit_char: "n < 10 \<Longrightarrow> digit (digit_char n)"
  by (simp add: digit_def of_digit_char)

lemma show_nat_digits: "\<forall>c \<in> set (show_nat n). digit c"
proof (induction n rule: show_nat.induct)
  case (1 n)
  show ?case
  proof (cases "n < 10")
    case True
    then show ?thesis by (subst show_nat.simps) (simp add: digit_digit_char)
  next
    case False
    with 1 show ?thesis by (subst show_nat.simps) (simp add: digit_digit_char)
  qed
qed

lemma number_show_nat: "number (show_nat n) = int n"
proof (induction n rule: show_nat.induct)
  case (1 n)
  show ?case
  proof (cases "n < 10")
    case True
    then show ?thesis by (subst show_nat.simps) (simp add: number_def of_digit_char_int)
  next
    case False
    with 1 have "number (show_nat (n div 10)) = int (n div 10)" by simp
    moreover have "10 * int (n div 10) + int (n mod 10) = int n"
      by (metis div_mult_mod_eq mult.commute of_nat_add of_nat_mult of_nat_numeral)
    ultimately show ?thesis using False
      by (subst show_nat.simps) (simp add: number_def of_digit_char_int)
  qed
qed

lemma show_nat_nonempty [simp]: "show_nat n \<noteq> []"
  by (subst show_nat.simps) simp

lemma digit_plain: "digit c \<Longrightarrow> \<not> is_space c \<and> c \<noteq> CHR ''-'' \<and> c \<noteq> CHR ''+''"
  by (auto simp: digit_def is_space_def)

lemma sign_split_show: "sign_split (show_int i @ t) = (i < 0, show_nat (nat \<bar>i\<bar>) @ t)"
proof (cases "i < 0")
  case False
  obtain c cs where c: "show_nat (nat i) = c # cs" by (meson show_nat_nonempty neq_Nil_conv)
  with show_nat_digits[of "nat i"] have "digit c" by simp
  from digit_plain[OF this] c False show ?thesis by (simp add: sign_split_def show_int_def)
qed (simp add: sign_split_def show_int_def)

lemma show_int_no_space: "dropWhile is_space (show_int i @ t) = show_int i @ t"
proof -
  obtain c cs where c: "show_int i = c # cs" "\<not> is_space c"
  proof (cases "i < 0")
    case True
    then show ?thesis using that by (simp add: show_int_def is_space_def)
  next
    case False
    obtain c cs where c: "show_nat (nat i) = c # cs" by (meson show_nat_nonempty neq_Nil_conv)
    with show_nat_digits[of "nat i"] have "digit c" by simp
    from digit_plain[OF this] c False that show ?thesis by (simp add: show_int_def)
  qed
  then show ?thesis by simp
qed

lemma scan_show:
  assumes "fits_int i" and "t = [] \<or> \<not> digit (hd t)"
  shows "scan_int (show_int i @ t) = Some (i, t)"
proof -
  have tw: "takeWhile digit (show_nat n @ t) = show_nat n" "dropWhile digit (show_nat n @ t) = t" for n
    using assms(2) show_nat_digits[of n] by (cases t; auto simp: takeWhile_append dropWhile_append)+
  then show ?thesis
    by (simp add: scan_int_def show_int_no_space sign_split_show number_show_nat Let_def to_int_id[OF assms(1)])
qed

lemma scan_space: "is_space c \<Longrightarrow> scan_int (c # t) = scan_int t"
  by (simp add: scan_int_def)

lemma sign_split_length: "length (snd (sign_split w)) \<le> length w"
  by (auto simp: sign_split_def split: list.splits)

lemma scan_shorter: "scan_int t = Some (i, t') \<Longrightarrow> length t' < length t"
proof -
  assume a: "scan_int t = Some (i, t')"
  obtain neg ds where s: "sign_split (dropWhile is_space t) = (neg, ds)" by (metis surj_pair)
  with a have ne: "takeWhile digit ds \<noteq> []" and t': "t' = dropWhile digit ds"
    by (auto simp: scan_int_def Let_def split: if_splits)
  have "length t' < length ds" unfolding t'
    using ne by (metis add_lessD1 length_append length_greater_0_conv less_add_same_cancel2 takeWhile_dropWhile_id)
  also have "length ds \<le> length t"
    using sign_split_length[of "dropWhile is_space t"] s length_dropWhile_le[of is_space t] by simp
  finally show ?thesis .
qed

lemma scan_suffix:
  assumes "scan_int t = Some (i, t')"
  shows "drop (length t - length t') t = t'"
proof -
  obtain neg ds where s: "sign_split (dropWhile is_space t) = (neg, ds)" by (metis surj_pair)
  with assms have t': "t' = dropWhile digit ds"
    by (auto simp: scan_int_def Let_def split: if_splits)
  have "\<exists>u. ds = u @ t'" unfolding t' by (metis takeWhile_dropWhile_id)
  moreover have "\<exists>u. dropWhile is_space t = u @ ds"
    using s by (cases "dropWhile is_space t") (auto simp: sign_split_def split: if_splits)
  moreover have "\<exists>u. t = u @ dropWhile is_space t" by (metis takeWhile_dropWhile_id)
  ultimately obtain u where "t = u @ t'" by (metis append.assoc)
  then show ?thesis by simp
qed

lemma scan_fits: "scan_int t = Some (i, t') \<Longrightarrow> fits_int i"
  by (auto simp: scan_int_def Let_def to_int_fits split: prod.splits if_splits)

text \<open>All the numbers that repeated calls read.\<close>

function scan_all :: "string \<Rightarrow> int list" where
  "scan_all t = (case scan_int t of None \<Rightarrow> [] | Some (i, t') \<Rightarrow> i # scan_all t')"
  by auto
termination by (relation "measure length") (auto dest: scan_shorter)

declare scan_all.simps [simp del]

definition print_ints :: "int list \<Rightarrow> string" where
  "print_ints xs = concat (map (\<lambda>x. show_int x @ '' '') xs)"

lemma print_ints_simps [simp]:
  "print_ints [] = []" "print_ints (x # xs) = show_int x @ '' '' @ print_ints xs"
  "print_ints (xs @ ys) = print_ints xs @ print_ints ys"
  by (simp_all add: print_ints_def)

lemma scan_all_space: "is_space c \<Longrightarrow> scan_all (c # t) = scan_all t"
  by (simp add: scan_all.simps[of "c # t"] scan_all.simps[of t] scan_space)

lemma not_digit_space: "\<not> digit CHR '' ''"
  by (simp add: digit_def)

lemma scan_all_print: "\<forall>x \<in> set xs. fits_int x \<Longrightarrow> scan_all (print_ints xs @ t) = xs @ scan_all t"
proof (induction xs)
  case (Cons x xs)
  then have "scan_int (print_ints (x # xs) @ t) = Some (x, '' '' @ print_ints xs @ t)"
    using scan_show[of x "'' '' @ print_ints xs @ t"] by (simp add: not_digit_space)
  with Cons show ?case by (simp add: scan_all.simps[of "_ @ _"] scan_all_space is_space_def)
qed simp

lemma scan_all_fits: "\<forall>x \<in> set (scan_all t). fits_int x"
proof (induction t rule: scan_all.induct)
  case (1 t)
  show ?case
  proof (cases "scan_int t")
    case None
    then show ?thesis by (simp add: scan_all.simps[of t])
  next
    case (Some p)
    then obtain i t' where "scan_int t = Some (i, t')" by (cases p) simp
    with 1[of "(i, t')" i t'] scan_fits[of t i t'] show ?thesis by (simp add: scan_all.simps[of t])
  qed
qed

end
