(* ===== verification/UserFS_Stress.thy ===== *)
theory UserFS_Stress
  imports UserFS_Client C_Text
begin

text \<open>
  The two long tests of \<^verbatim>\<open>3/test.c\<close> (\<open>test_stress_open\<close>, \<open>test_max_file_size\<close>) and its \<^verbatim>\<open>main\<close>. They make thousands of
  calls and write a gigabyte, so they are not run on the model: the theorems are proved from what theory \<^verbatim>\<open>UserFS_Client\<close>
  says of every call, for any number of files, any buffer and any state of the file system to start from.
\<close>

section \<open>The test programs\<close>

text \<open>\<^verbatim>\<open>sprintf(name, "file%d", i)\<close> into an array of 16 characters.\<close>

definition file_name :: "nat \<Rightarrow> string" where
  "file_name i = ''file'' @ show_nat i"

definition print_name :: "nat \<Rightarrow> string run" where
  "print_name i = (if length (cstr (file_name i)) \<le> 16 then ret (file_name i) else fault Out_Of_Bounds)"

function stress_fill :: "nat \<Rightarrow> nat \<Rightarrow> (int \<times> int) list \<Rightarrow> ufs \<Rightarrow> ((int \<times> int) list \<times> ufs) option run" where
  "stress_fill count i fd s = (if i < count then
     bnd (print_name i) (\<lambda>name.
     let name_len = length (cstr name) in
     bnd (ufs_open name UFS_CREATE s) (\<lambda>(inp, s).
     bnd (ufs_open name 0 s) (\<lambda>(out, s).
     unit_fail_if (inp = - 1 \<or> out = - 1) (
     bnd (ufs_write out (cstr name) s) (\<lambda>(rc, s).
     unit_fail_if (rc \<noteq> int name_len) (
     stress_fill count (Suc i) (fd @ [(inp, out)]) s))))))
   else ret (Some (fd, s)))"
  by pat_completeness auto
termination
  by (relation "measure (\<lambda>(count, i, _). count - i)") auto

function stress_drain :: "nat \<Rightarrow> nat \<Rightarrow> (int \<times> int) list \<Rightarrow> ufs \<Rightarrow> ufs option run" where
  "stress_drain count i fd s = (if i < count then
     bnd (print_name i) (\<lambda>name.
     let name_len = length (cstr name); inp = fst (fd ! i); out = snd (fd ! i) in
     bnd (ufs_read inp 16 s) (\<lambda>(rc, buf, s).
     unit_fail_if (rc \<noteq> int name_len) (
     unit_fail_if (take (nat rc) buf \<noteq> map Some (take (nat rc) (cstr name))) (
     bnd (ufs_close inp s) (\<lambda>(rc, s). unit_fail_if (rc \<noteq> 0) (
     bnd (ufs_close out s) (\<lambda>(rc, s). unit_fail_if (rc \<noteq> 0) (
     bnd (ufs_delete name s) (\<lambda>(rc, s). unit_fail_if (rc \<noteq> 0) (
     stress_drain count (Suc i) fd s))))))))))
   else ret (Some s))"
  by pat_completeness auto
termination
  by (relation "measure (\<lambda>(count, i, _). count - i)") auto

declare stress_fill.simps [simp del] stress_drain.simps [simp del]

definition then_test :: "'a option run \<Rightarrow> ('a \<Rightarrow> 'b option run) \<Rightarrow> 'b option run" where
  "then_test m k = bnd m (\<lambda>r. case r of None \<Rightarrow> ret None | Some x \<Rightarrow> k x)"

definition stress_open :: "nat \<Rightarrow> ufs \<Rightarrow> ufs option run" where
  "stress_open count s = then_test (stress_fill count 0 [] s) (\<lambda>(fd, s). stress_drain count 0 fd s)"

definition test_stress_open :: "ufs \<Rightarrow> ufs option run" where
  "test_stress_open = stress_open 1000"

text \<open>The loops of \<^verbatim>\<open>test_max_file_size\<close>: \<open>n\<close> writes and \<open>n\<close> reads of one buffer.\<close>

fun write_bufs :: "nat \<Rightarrow> int \<Rightarrow> string \<Rightarrow> ufs \<Rightarrow> ufs option run" where
  "write_bufs 0 fd buf s = ret (Some s)"
| "write_bufs (Suc n) fd buf s =
     bnd (ufs_write fd buf s) (\<lambda>(rc, s).
     unit_fail_if (rc \<noteq> int (length buf)) (write_bufs n fd buf s))"

fun read_bufs :: "nat \<Rightarrow> int \<Rightarrow> string \<Rightarrow> ufs \<Rightarrow> ufs option run" where
  "read_bufs 0 fd buf s = ret (Some s)"
| "read_bufs (Suc n) fd buf s =
     bnd (ufs_read fd (length buf) s) (\<lambda>(rc, buf2, s).
     unit_fail_if (rc \<noteq> int (length buf)) (
     unit_fail_if (buf2 \<noteq> map Some buf) (read_bufs n fd buf s)))"

definition max_file_size :: "string \<Rightarrow> nat \<Rightarrow> nat \<Rightarrow> ufs \<Rightarrow> ufs option run" where
  "max_file_size buf writes reads s =
     bnd (ufs_open ''file'' UFS_CREATE s) (\<lambda>(fd, s).
     unit_fail_if (fd = - 1) (
     then_test (write_bufs writes fd buf s) (\<lambda>s.
     bnd (ufs_write fd ''a'' s) (\<lambda>(rc, s).
     unit_check (rc = - 1) (
     unit_check (ufs_errno s = UFS_ERR_NO_MEM) (
     bnd (ufs_close fd s) (\<lambda>(rc, s). unit_fail_if (rc \<noteq> 0) (
     bnd (ufs_open ''file'' 0 s) (\<lambda>(fd, s).
     unit_fail_if (fd = - 1) (
     then_test (read_bufs reads fd buf s) (\<lambda>s.
     bnd (ufs_close fd s) (\<lambda>(rc, s). unit_fail_if (rc = - 1) (
     bnd (ufs_delete ''file'' s) (\<lambda>(rc, s). unit_fail_if (rc = - 1) (
     ret (Some s))))))))))))))))"

text \<open>The buffer: \<^verbatim>\<open>buf[i] = 'a' + i % 26\<close>.\<close>

definition alphabet :: "nat \<Rightarrow> string" where
  "alphabet n = map (\<lambda>i. char_of (97 + i mod 26 :: nat)) [0..<n]"

definition test_max_file_size :: "ufs \<Rightarrow> ufs option run" where
  "test_max_file_size = max_file_size (alphabet (1024 * 1024)) 1024 1014"

definition test_main :: "bool \<Rightarrow> ufs \<Rightarrow> ufs option run" where
  "test_main need_open_flags s =
     then_test (test_open s) (\<lambda>s. then_test (test_close s) (\<lambda>s. then_test (test_io s) (\<lambda>s. then_test (test_delete s) (\<lambda>s.
     then_test (test_stress_open s) (\<lambda>s. then_test (test_max_file_size s) (test_rights need_open_flags))))))"

section \<open>Names\<close>

lemma show_nat_length: "0 < k \<Longrightarrow> i < 10 ^ k \<Longrightarrow> length (show_nat i) \<le> k"
proof (induction k arbitrary: i)
  case (Suc k)
  show ?case
  proof (cases "i < 10")
    case False
    with Suc.prems have k: "0 < k" by (cases k) auto
    have "i div 10 < 10 ^ k" using Suc.prems(2) by (simp add: less_mult_imp_div_less mult.commute)
    from Suc.IH[OF k this] False show ?thesis by (subst show_nat.simps) simp
  qed (subst show_nat.simps, simp)
qed simp

lemma print_name_ok: "i < 10 ^ 11 \<Longrightarrow> print_name i = ret (file_name i)"
  using show_nat_length[of 11 i] by (simp add: print_name_def file_name_def cstr_def)

lemma length_file_name: "i < 10 ^ 11 \<Longrightarrow> length (file_name i) < 16"
  using show_nat_length[of 11 i] by (simp add: file_name_def)

lemma file_name_inj [simp]: "file_name i = file_name j \<longleftrightarrow> i = j"
proof
  assume "file_name i = file_name j"
  then have "number (show_nat i) = number (show_nat j)" by (simp add: file_name_def)
  then show "i = j" by (simp add: number_show_nat)
qed simp

section \<open>A round of each loop\<close>

lemma write_round:
  assumes ok: "ufs_ok s" and new: "\<not> bound_name nm s" and len: "length (cstr nm) \<le> MAX_FILE_SIZE"
  obtains inp s1 out s2 s3 where "ufs_open nm UFS_CREATE s = ret (inp, s1)" "ufs_open nm 0 s1 = ret (out, s2)"
    "ufs_write out (cstr nm) s2 = ret (int (length (cstr nm)), s3)" "ufs_ok s3" "1 \<le> inp" "1 \<le> out" "inp \<noteq> out"
    "open_fd s inp = None" "open_fd s out = None" "readable inp (map Some (cstr nm)) s3" "opened_as inp nm s3"
    "opened_as out nm s3" "\<And>nm'. nm' \<noteq> nm \<Longrightarrow> names s3 nm' = names s nm'" "others_keep {inp, out} {} s s3"
proof -
  have "UFS_CREATE AND UFS_CREATE \<noteq> 0" by (simp add: UFS_CREATE_def)
  from client_create[OF ok new this] obtain inp s1 fa where
    c: "ufs_open nm UFS_CREATE s = ret (inp, s1)" "ufs_ok s1" "1 \<le> inp" "open_fd s inp = None"
      "open_fd s1 inp = Some (fresh_fd fa (fd_rights UFS_CREATE))" "contents s1 fa = []" "names s1 nm fa" "fa \<notin> dom (files s)"
      "\<And>nm'. nm' \<noteq> nm \<Longrightarrow> names s1 nm' = names s nm'" "others_keep {inp} {} s s1"
    by metis
  from client_reopen[OF c(2,7), of 0] obtain out s2 where
    r: "ufs_open nm 0 s1 = ret (out, s2)" "ufs_ok s2" "1 \<le> out" "open_fd s1 out = None"
      "open_fd s2 out = Some (fresh_fd fa (fd_rights 0))" "contents s2 fa = contents s1 fa" "names s2 = names s1" "others_keep {out} {} s1 s2"
    by metis
  let ?d = "fresh_fd fa (fd_rights 0)" and ?i = "fresh_fd fa (fd_rights UFS_CREATE)"
  have al: "write_allowed ?d (length (cstr nm))" using len by (simp add: write_allowed_def)
  have de: "dense (contents s2 (fd_file ?d))" and e: "at_end s2 ?d"
    using r(6) c(6) by (simp_all add: at_end_def write_from_def)
  from client_write[OF r(2,5) al de e] obtain s3 d' where
    w: "ufs_write out (cstr nm) s2 = ret (int (length (cstr nm)), s3)" "ufs_ok s3"
      "concat (contents s3 fa) = concat (contents s2 fa) @ map Some (cstr nm)" "dense (contents s3 fa)"
      "open_fd s3 out = Some d'" "moved ?d d'" "names s3 = names s2" "\<And>g. g \<noteq> out \<Longrightarrow> open_fd s3 g = open_fd s2 g"
      "others_keep {out} {fa} s2 s3"
    by (metis fresh_fd_simps(1))
  have ne: "inp \<noteq> out" using c(5) r(4) by auto
  have i3: "open_fd s3 inp = Some ?i" using w(8)[OF ne] others_keepD(1)[OF r(8), of inp] c(5) ne by simp
  have "ahead s3 ?i = map Some (cstr nm)"
    using stream_dense[OF w(4)] w(3) r(6) c(6) by (simp add: ahead_contents)
  then have "readable inp (map Some (cstr nm)) s3" using i3 by (simp add: readable_def)
  moreover have "opened_as inp nm s3" "opened_as out nm s3"
    using i3 w(5-7) r(7) c(7) by (auto simp: opened_as_def moved_def)
  moreover have o: "open_fd s out = None"
    using others_keepD(1)[OF c(10), of out] r(4) ne by simp
  moreover have "others_keep {inp, out} {} s s3"
    by (rule others_keep_closed[OF others_keep_trans[OF c(10) others_keep_trans[OF r(8) w(9)]]])
      (use c(8) open_file_exists[OF ok] in auto)
  moreover have "names s3 nm' = names s nm'" if "nm' \<noteq> nm" for nm' using c(9)[OF that] r(7) w(7) by simp
  ultimately show ?thesis using that c(1,3,4) r(1,3) w(1,2) ne by blast
qed

lemma read_round:
  assumes ok: "ufs_ok s" and r: "readable inp (map Some (cstr nm)) s" and o: "opened_as inp nm s" "opened_as out nm s"
    and ne: "inp \<noteq> out" and len: "length (cstr nm) \<le> 16"
  obtains s1 s2 s3 s4 where "ufs_read inp 16 s = ret (int (length (cstr nm)), map Some (cstr nm), s1)"
    "ufs_close inp s1 = ret (0, s2)" "ufs_close out s2 = ret (0, s3)" "ufs_delete nm s3 = ret (0, s4)" "ufs_ok s4"
    "\<not> bound_name nm s4" "\<And>nm'. nm' \<noteq> nm \<Longrightarrow> names s4 nm' = names s nm'" "others_keep {inp, out} {} s s4"
    "open_fd s4 inp = None" "open_fd s4 out = None"
proof -
  from client_read[OF ok r, of 16] len o obtain s1 where
    a: "ufs_read inp 16 s = ret (int (length (cstr nm)), map Some (cstr nm), s1)" "ufs_ok s1" "names s1 = names s"
      "others_keep {inp} {} s s1" "opened_as inp nm s1"
    by (auto simp: min_def)
  have keeps: "opened_as out nm s'" if "others_keep {inp} {} t s'" "names s' = names t" "opened_as out nm t" for s' t
    using that ne others_keepD(1)[OF that(1)] by (auto simp: opened_as_def)
  from client_close[OF a(2,5)] obtain s2 where
    b: "ufs_close inp s1 = ret (0, s2)" "ufs_ok s2" "names s2 = names s1" "others_keep {inp} {} s1 s2" "open_fd s2 inp = None"
    by metis
  have o2: "opened_as out nm s2" by (rule keeps[OF b(4,3) keeps[OF a(4,3) o(2)]])
  from client_close[OF b(2) o2] obtain s3 where
    c: "ufs_close out s2 = ret (0, s3)" "ufs_ok s3" "names s3 = names s2" "others_keep {out} {} s2 s3" "open_fd s3 out = None"
    by metis
  have "bound_name nm s3" using o(1) a(3) b(3) c(3) by (auto simp: bound_name_def opened_as_def)
  from client_delete[OF c(2) this] obtain s4 where
    d: "ufs_delete nm s3 = ret (0, s4)" "ufs_ok s4" "\<not> bound_name nm s4" "\<And>nm'. nm' \<noteq> nm \<Longrightarrow> names s4 nm' = names s3 nm'"
      "others_keep {} {} s3 s4"
    by metis
  have "others_keep {inp, out} {} s s4"
    using others_keep_trans[OF others_keep_trans[OF a(4) b(4)] others_keep_trans[OF c(4) d(5)]] by (simp add: insert_commute)
  moreover have "names s4 nm' = names s nm'" if "nm' \<noteq> nm" for nm' using d(4)[OF that] a(3) b(3) c(3) by simp
  moreover have "open_fd s4 inp = None" "open_fd s4 out = None"
    using others_keepD(1)[OF d(5)] others_keepD(1)[OF c(4), of inp] b(5) c(5) ne by simp_all
  ultimately show ?thesis using that a(1) b(1) c(1) d(1-3) by blast
qed

section \<open>Many files\<close>

text \<open>What the first loop leaves for the second: files under their names, each with two descriptors that were not open in \<open>s0\<close>.\<close>

definition held_fds :: "(string \<times> int \<times> int) list \<Rightarrow> int list" where
  "held_fds xs = concat (map (\<lambda>(_, a, b). [a, b]) xs)"

definition held :: "ufs \<Rightarrow> (string \<times> int \<times> int) list \<Rightarrow> ufs \<Rightarrow> bool" where
  "held s0 xs s \<longleftrightarrow> distinct (held_fds xs) \<and> (\<forall>g \<in> set (held_fds xs). open_fd s0 g = None \<and> open_fd s g \<noteq> None) \<and>
     (\<forall>(nm, a, b) \<in> set xs. readable a (map Some (cstr nm)) s \<and> opened_as a nm s \<and> opened_as b nm s)"

lemma held_fds_simps [simp]: "held_fds [] = []" "held_fds ((nm, a, b) # xs) = a # b # held_fds xs"
  "held_fds (xs @ ys) = held_fds xs @ held_fds ys"
  by (simp_all add: held_fds_def)

lemma held_fds_in: "(nm, a, b) \<in> set xs \<Longrightarrow> a \<in> set (held_fds xs) \<and> b \<in> set (held_fds xs)"
  by (force simp: held_fds_def)

lemma held_keep:
  assumes h: "held s0 xs s" and k: "others_keep F {} s s'" and F: "F \<inter> set (held_fds xs) = {}"
    and nms: "\<And>nm. nm \<in> fst ` set xs \<Longrightarrow> names s' nm = names s nm"
  shows "held s0 xs s'"
proof -
  have o: "open_fd s' g = Some d \<and> ahead s' d = ahead s d" if "g \<in> set (held_fds xs)" "open_fd s g = Some d" for g d
    using others_keepD[OF k, of g] that F by auto
  have "readable a (map Some (cstr nm)) s' \<and> opened_as a nm s' \<and> opened_as b nm s'" if m: "(nm, a, b) \<in> set xs" for nm a b
  proof -
    have "names s' nm = names s nm" using nms m by force
    moreover have "readable a (map Some (cstr nm)) s \<and> opened_as a nm s \<and> opened_as b nm s"
      using h m by (auto simp: held_def)
    ultimately show ?thesis using held_fds_in[OF m] o unfolding readable_def opened_as_def by metis
  qed
  moreover have "open_fd s' g \<noteq> None" if "g \<in> set (held_fds xs)" for g
    using h o that by (force simp: held_def)
  ultimately show ?thesis using h by (auto simp: held_def)
qed

definition items :: "nat \<Rightarrow> (int \<times> int) list \<Rightarrow> (string \<times> int \<times> int) list" where
  "items i fd = map (\<lambda>j. (file_name j, fd ! j)) [i..<length fd]"

lemma items_snoc: "items 0 (fd @ [p]) = items 0 fd @ [(file_name (length fd), p)]"
  by (simp add: items_def nth_append)

lemma items_Cons: "i < length fd \<Longrightarrow> items i fd = (file_name i, fd ! i) # items (Suc i) fd"
  by (simp add: items_def upt_conv_Cons)

lemma names_of_items: "fst ` set (items i fd) = file_name ` {i..<length fd}"
  by (force simp: items_def)

definition taken :: "nat \<Rightarrow> string set" where
  "taken count = file_name ` {..<count}"

lemma fill_spec:
  assumes few: "count \<le> 10 ^ 11"
  shows "i = length fd \<Longrightarrow> i \<le> count \<Longrightarrow> ufs_ok s \<Longrightarrow> held s0 (items 0 fd) s \<Longrightarrow>
    others_keep (set (held_fds (items 0 fd))) {} s0 s \<Longrightarrow>
    (\<And>j. i \<le> j \<Longrightarrow> j < count \<Longrightarrow> \<not> bound_name (file_name j) s) \<Longrightarrow>
    \<exists>fd' s'. stress_fill count i fd s = ret (Some (fd', s')) \<and> length fd' = count \<and> ufs_ok s' \<and> held s0 (items 0 fd') s' \<and>
      others_keep (set (held_fds (items 0 fd'))) {} s0 s' \<and> (\<forall>nm. nm \<notin> taken count \<longrightarrow> names s' nm = names s nm)"
proof (induction "count - i" arbitrary: i fd s)
  case 0
  then show ?case by (auto simp: stress_fill.simps)
next
  case (Suc n)
  let ?nm = "file_name i"
  have i: "i < count" "i < 10 ^ 11" using Suc.hyps(2) few by simp_all
  have new: "\<not> bound_name ?nm s" using Suc.prems(6)[of i] i by simp
  have len: "length (cstr ?nm) \<le> MAX_FILE_SIZE" using length_file_name[OF i(2)] by (simp add: cstr_def MAX_FILE_SIZE_def)
  from write_round[OF Suc.prems(3) new len] obtain inp s1 out s2 s3 where
    r: "ufs_open ?nm UFS_CREATE s = ret (inp, s1)" "ufs_open ?nm 0 s1 = ret (out, s2)"
      "ufs_write out (cstr ?nm) s2 = ret (int (length (cstr ?nm)), s3)" "ufs_ok s3" "1 \<le> inp" "1 \<le> out" "inp \<noteq> out"
      "open_fd s inp = None" "open_fd s out = None" "readable inp (map Some (cstr ?nm)) s3" "opened_as inp ?nm s3"
      "opened_as out ?nm s3" "\<And>nm'. nm' \<noteq> ?nm \<Longrightarrow> names s3 nm' = names s nm'" "others_keep {inp, out} {} s s3"
    by metis
  have "stress_fill count i fd s = stress_fill count (Suc i) (fd @ [(inp, out)]) s3"
    using i r(1-3,5,6) by (subst stress_fill.simps) (simp add: print_name_ok unit_fail_if_def)
  moreover have "held s0 (items 0 (fd @ [(inp, out)])) s3"
  proof -
    have n: "inp \<notin> set (held_fds (items 0 fd))" "out \<notin> set (held_fds (items 0 fd))"
      using Suc.prems(4) r(8,9) by (auto simp: held_def)
    have "held s0 (items 0 fd) s3"
      using Suc.prems(1) n by (intro held_keep[OF Suc.prems(4) r(14)] r(13)) (auto simp: names_of_items)
    with n show ?thesis
      using r(7-12) Suc.prems(1) others_keepD(1)[OF Suc.prems(5)] by (auto simp: held_def items_snoc opened_as_def)
  qed
  moreover have "others_keep (set (held_fds (items 0 (fd @ [(inp, out)])))) {} s0 s3"
    using others_keep_trans[OF Suc.prems(5) r(14)] by (simp add: items_snoc insert_commute)
  moreover have "\<not> bound_name (file_name j) s3" if "Suc i \<le> j" "j < count" for j
    using Suc.prems(6)[of j] that r(13)[of "file_name j"] by (simp add: bound_name_def)
  ultimately have "\<exists>fd' s'. stress_fill count i fd s = ret (Some (fd', s')) \<and> length fd' = count \<and> ufs_ok s' \<and> held s0 (items 0 fd') s' \<and>
      others_keep (set (held_fds (items 0 fd'))) {} s0 s' \<and> (\<forall>nm. nm \<notin> taken count \<longrightarrow> names s' nm = names s3 nm)"
    using Suc.hyps(1)[of "Suc i" "fd @ [(inp, out)]" s3] Suc.hyps(2) Suc.prems(1) i r(4) by simp
  moreover have "names s3 nm = names s nm" if "nm \<notin> taken count" for nm
    using r(13)[of nm] that i by (auto simp: taken_def)
  ultimately show ?case by metis
qed

lemma drain_spec:
  assumes few: "count \<le> 10 ^ 11" and fd: "length fd = count"
  shows "i \<le> count \<Longrightarrow> ufs_ok s \<Longrightarrow> held s0 (items i fd) s \<Longrightarrow>
    others_keep (set (held_fds (items i fd))) {} s0 s \<Longrightarrow>
    \<exists>s'. stress_drain count i fd s = ret (Some s') \<and> ufs_ok s' \<and> others_keep {} {} s0 s' \<and>
      (\<forall>nm. names s' nm = (if nm \<in> file_name ` {i..<count} then (\<lambda>_. False) else names s nm))"
proof (induction "count - i" arbitrary: i s)
  case 0
  then show ?case using fd by (auto simp: stress_drain.simps items_def)
next
  case (Suc n)
  let ?nm = "file_name i"
  obtain inp out where p: "fd ! i = (inp, out)" by fastforce
  have i: "i < count" "i < 10 ^ 11" using Suc.hyps(2) few by simp_all
  have it: "items i fd = (?nm, inp, out) # items (Suc i) fd" using items_Cons[of i fd] i fd p by simp
  have len: "length (cstr ?nm) \<le> 16" using length_file_name[OF i(2)] by (simp add: cstr_def)
  have h: "readable inp (map Some (cstr ?nm)) s" "opened_as inp ?nm s" "opened_as out ?nm s" "inp \<noteq> out"
    "open_fd s0 inp = None" "open_fd s0 out = None" "held s0 (items (Suc i) fd) s" "{inp, out} \<inter> set (held_fds (items (Suc i) fd)) = {}"
    using Suc.prems(3) by (auto simp: held_def it)
  from read_round[OF Suc.prems(2) h(1-4) len] obtain s1 s2 s3 s4 where
    r: "ufs_read inp 16 s = ret (int (length (cstr ?nm)), map Some (cstr ?nm), s1)"
      "ufs_close inp s1 = ret (0, s2)" "ufs_close out s2 = ret (0, s3)" "ufs_delete ?nm s3 = ret (0, s4)" "ufs_ok s4"
      "\<not> bound_name ?nm s4" "\<And>nm'. nm' \<noteq> ?nm \<Longrightarrow> names s4 nm' = names s nm'" "others_keep {inp, out} {} s s4"
      "open_fd s4 inp = None" "open_fd s4 out = None"
    by metis
  have "stress_drain count i fd s = stress_drain count (Suc i) fd s4"
    using i p r(1-4) by (subst stress_drain.simps) (simp add: print_name_ok unit_fail_if_def)
  moreover have "held s0 (items (Suc i) fd) s4"
    by (rule held_keep[OF h(7) r(8) h(8)]) (auto simp: names_of_items r(7))
  moreover have "others_keep (set (held_fds (items (Suc i) fd))) {} s0 s4"
    by (rule others_keep_closed[OF others_keep_trans[OF Suc.prems(4) r(8)]]) (use h(5,6) r(9,10) it in auto)
  ultimately have "\<exists>s'. stress_drain count i fd s = ret (Some s') \<and> ufs_ok s' \<and> others_keep {} {} s0 s' \<and>
      (\<forall>nm. names s' nm = (if nm \<in> file_name ` {Suc i..<count} then (\<lambda>_. False) else names s4 nm))"
    using Suc.hyps(1)[of "Suc i" s4] Suc.hyps(2) i r(5) by simp
  moreover have "names s4 ?nm = (\<lambda>_. False)" using r(6) by (auto simp: bound_name_def)
  moreover have "{i..<count} = insert i {Suc i..<count}" using i by auto
  ultimately show ?case using r(7) by (auto split: if_splits)
qed

text \<open>The test passes in every state in which none of its names is in use, and then nothing has changed for anybody
  else: the same names denote the same files, and every descriptor open before has the same bytes ahead.\<close>

lemma stress_open_passes:
  assumes "ufs_ok s" and few: "count \<le> 10 ^ 11" and new: "\<And>j. j < count \<Longrightarrow> \<not> bound_name (file_name j) s"
  shows "\<exists>s'. stress_open count s = ret (Some s') \<and> ufs_ok s' \<and> names s' = names s \<and> others_keep {} {} s s'"
proof -
  have "held s (items 0 []) s" by (simp add: held_def items_def)
  moreover have "others_keep (set (held_fds (items 0 []))) {} s s" by (simp add: others_keep_def)
  ultimately obtain fd s1 where f: "stress_fill count 0 [] s = ret (Some (fd, s1))" "length fd = count" "ufs_ok s1"
    "held s (items 0 fd) s1" "others_keep (set (held_fds (items 0 fd))) {} s s1" "\<And>nm. nm \<notin> taken count \<Longrightarrow> names s1 nm = names s nm"
    using fill_spec[OF few, of 0 "[]" s s] assms(1) new by auto
  from drain_spec[OF few f(2) _ f(3,4,5)] obtain s' where d: "stress_drain count 0 fd s1 = ret (Some s')" "ufs_ok s'"
    "others_keep {} {} s s'" "\<And>nm. names s' nm = (if nm \<in> file_name ` {0..<count} then (\<lambda>_. False) else names s1 nm)"
    by blast
  have "names s' nm = names s nm" for nm
    using d(4) f(6)[of nm] new by (auto simp: taken_def bound_name_def image_iff)
  with f(1) d(1-3) show ?thesis by (intro exI[of _ s']) (simp add: stress_open_def then_test_def fun_eq_iff)
qed

section \<open>A file of the largest size\<close>

lemma curr_size_offset:
  assumes "ufs_ok s" and d: "open_fd s fd = Some d"
  shows "fd_curr_size d = offset d"
proof -
  obtain B L where inv: "ufs_inv B L s" using assms(1) by (rule ufs_okE)
  from inv_fd(2)[OF inv open_fdD(1,2)[OF d]] show ?thesis
    by (cases rule: pos_ok_cases) (auto simp: fd_curr_size_def offset_def place_def)
qed

lemma write_bufs_spec:
  "ufs_ok s \<Longrightarrow> open_fd s fd = Some d \<Longrightarrow> may_write d \<Longrightarrow> dense (contents s (fd_file d)) \<Longrightarrow> at_end s d \<Longrightarrow>
   length (concat (contents s (fd_file d))) + n * length buf \<le> MAX_FILE_SIZE \<Longrightarrow>
   \<exists>s' d'. write_bufs n fd buf s = ret (Some s') \<and> ufs_ok s' \<and> open_fd s' fd = Some d' \<and> moved d d' \<and> at_end s' d' \<and>
     dense (contents s' (fd_file d)) \<and> names s' = names s \<and> others_keep {fd} {fd_file d} s s' \<and>
     concat (contents s' (fd_file d)) = concat (contents s (fd_file d)) @ concat (replicate n (map Some buf))"
proof (induction n arbitrary: s d)
  case 0
  then show ?case by (simp add: others_keep_def)
next
  case (Suc n)
  let ?c = "contents s (fd_file d)"
  have al: "write_allowed d (length buf)"
    using Suc.prems(3,6) curr_size_offset[OF Suc.prems(1,2)] at_end_offset[OF Suc.prems(1,2,4,5)] by (simp add: write_allowed_def)
  from client_write[OF Suc.prems(1,2) al Suc.prems(4,5)] obtain s1 d1 where
    w: "ufs_write fd buf s = ret (int (length buf), s1)" "ufs_ok s1" "concat (contents s1 (fd_file d)) = concat ?c @ map Some buf"
      "dense (contents s1 (fd_file d))" "open_fd s1 fd = Some d1" "at_end s1 d1" "moved d d1" "names s1 = names s"
      "others_keep {fd} {fd_file d} s s1"
    by metis
  have m: "fd_file d1 = fd_file d" "may_write d1" using w(7) Suc.prems(3) by (simp_all add: moved_def may_write_def)
  have "length (concat (contents s1 (fd_file d1))) + n * length buf \<le> MAX_FILE_SIZE"
    unfolding m(1) w(3) using Suc.prems(6) by simp
  with Suc.IH[OF w(2,5) m(2) _ w(6)] w(4) m(1) obtain s' d' where
    r: "write_bufs n fd buf s1 = ret (Some s')" "ufs_ok s'" "open_fd s' fd = Some d'" "moved d1 d'" "at_end s' d'"
      "dense (contents s' (fd_file d))" "names s' = names s1" "others_keep {fd} {fd_file d} s1 s'"
      "concat (contents s' (fd_file d)) = concat (contents s1 (fd_file d)) @ concat (replicate n (map Some buf))"
    by auto
  have "others_keep {fd} {fd_file d} s s'" using others_keep_trans[OF w(9) r(8)] by simp
  moreover have "write_bufs (Suc n) fd buf s = ret (Some s')" using w(1) r(1) by (simp add: unit_fail_if_def)
  ultimately show ?case
    using r(2,3,5,6,7,9) moved_trans[OF w(7) r(4)] w(3,8) by (intro exI[of _ s'] exI[of _ d']) simp
qed

lemma read_bufs_spec:
  "ufs_ok s \<Longrightarrow> readable fd (concat (replicate m (map Some buf))) s \<Longrightarrow> n \<le> m \<Longrightarrow> opened_as fd nm s \<Longrightarrow>
   \<exists>s'. read_bufs n fd buf s = ret (Some s') \<and> ufs_ok s' \<and> opened_as fd nm s' \<and> names s' = names s \<and> others_keep {fd} {} s s'"
proof (induction n arbitrary: s m)
  case 0
  then show ?case by (simp add: others_keep_def)
next
  case (Suc n)
  then obtain k where k: "m = Suc k" "n \<le> k" by (cases m) auto
  let ?bs = "concat (replicate m (map Some buf))"
  have t: "take (length buf) ?bs = map Some buf" "drop (length buf) ?bs = concat (replicate k (map Some buf))"
    using k by simp_all
  from client_read[OF Suc.prems(1,2), of "length buf"] Suc.prems(4) obtain s1 where
    r: "ufs_read fd (length buf) s = ret (int (length buf), map Some buf, s1)" "ufs_ok s1"
      "readable fd (concat (replicate k (map Some buf))) s1" "names s1 = names s" "others_keep {fd} {} s s1" "opened_as fd nm s1"
    unfolding t by (metis length_map)
  from Suc.IH[OF r(2,3) k(2) r(6)] obtain s' where
    i: "read_bufs n fd buf s1 = ret (Some s')" "ufs_ok s'" "opened_as fd nm s'" "names s' = names s1" "others_keep {fd} {} s1 s'"
    by blast
  have "others_keep {fd} {} s s'" using others_keep_trans[OF r(5) i(5)] by simp
  with r(1,4) i show ?case by (intro exI[of _ s']) (simp add: unit_fail_if_def)
qed

text \<open>One writer fills the file to the last byte, one byte more is refused, a reader finds every buffer; then the file is
  gone and nothing else has changed.\<close>

lemma set_err_keeps: "others_keep {} {} s (set_err e s)"
  by (simp add: others_keep_def)

lemma max_file_size_passes:
  assumes ok: "ufs_ok s" and new: "\<not> bound_name ''file'' s" and full: "writes * length buf = MAX_FILE_SIZE" and le: "reads \<le> writes"
  shows "\<exists>s'. max_file_size buf writes reads s = ret (Some s') \<and> ufs_ok s' \<and> names s' = names s \<and> others_keep {} {} s s'"
proof -
  let ?bs = "concat (replicate writes (map Some buf))"
  have cr: "UFS_CREATE AND UFS_CREATE \<noteq> 0" by (simp add: UFS_CREATE_def)
  obtain fd s1 fa where
    c: "ufs_open ''file'' UFS_CREATE s = ret (fd, s1)" "ufs_ok s1" "1 \<le> fd" "open_fd s fd = None"
      "open_fd s1 fd = Some (fresh_fd fa (fd_rights UFS_CREATE))" "contents s1 fa = []" "names s1 ''file'' fa" "fa \<notin> dom (files s)"
      "\<And>nm'. nm' \<noteq> ''file'' \<Longrightarrow> names s1 nm' = names s nm'" "others_keep {fd} {} s s1"
    by (rule client_create[OF ok new cr]) blast
  let ?d = "fresh_fd fa (fd_rights UFS_CREATE)"
  have "at_end s1 ?d" "dense (contents s1 (fd_file ?d))" "length (concat (contents s1 (fd_file ?d))) + writes * length buf \<le> MAX_FILE_SIZE"
    using c(6) full by (simp_all add: at_end_def write_from_def)
  from write_bufs_spec[OF c(2,5) rights(2) this(2,1,3)] obtain s2 d where
    w: "write_bufs writes fd buf s1 = ret (Some s2)" "ufs_ok s2" "open_fd s2 fd = Some d" "moved ?d d" "at_end s2 d"
      "dense (contents s2 fa)" "names s2 = names s1" "others_keep {fd} {fa} s1 s2" "concat (contents s2 fa) = ?bs"
    unfolding fresh_fd_simps(1) c(6) concat.simps append_Nil by blast
  have d: "fd_file d = fa" "may_write d" using w(4) rights(2)[of fa] by (simp_all add: moved_def may_write_def)
  have "length ?bs = MAX_FILE_SIZE" using full by (simp add: length_concat sum_list_replicate)
  then have "fd_curr_size d = MAX_FILE_SIZE"
    using curr_size_offset[OF w(2,3)] at_end_offset[OF w(2,3) _ w(5)] w(6,9) d(1) by simp
  then have "ufs_write fd ''a'' s2 = ret (- 1, set_err UFS_ERR_NO_MEM s2)"
    using ufs_denied[OF w(2,3), of 0 "''a''"] d(2) by (simp add: MAX_FILE_SIZE_def)
  then obtain s3 where n: "ufs_write fd ''a'' s2 = ret (- 1, s3)" and s3: "s3 = set_err UFS_ERR_NO_MEM s2" by simp
  have o3: "opened_as fd ''file'' s3" "ufs_ok s3" using w(2,3,7) d(1) c(7) by (auto simp: opened_as_def s3)
  obtain s4 where
    cl: "ufs_close fd s3 = ret (0, s4)" "ufs_ok s4" "open_fd s4 fd = None" "names s4 = names s3" "others_keep {fd} {} s3 s4"
      "contents s4 = contents s3"
    by (rule client_close[OF o3(2,1)])
  have s4: "names s4 ''file'' fa" "contents s4 fa = contents s2 fa" using cl(4,6) w(7) c(7) by (simp_all add: s3)
  obtain fd' s5 where
    r: "ufs_open ''file'' 0 s4 = ret (fd', s5)" "ufs_ok s5" "1 \<le> fd'" "open_fd s4 fd' = None"
      "open_fd s5 fd' = Some (fresh_fd fa (fd_rights 0))" "contents s5 fa = contents s4 fa" "names s5 = names s4"
      "others_keep {fd'} {} s4 s5"
    by (rule client_reopen[OF cl(2) s4(1), of 0])
  have "readable fd' ?bs s5" using r(5,6) s4(2) stream_dense[OF w(6)] w(9) by (simp add: readable_def ahead_contents)
  moreover have "opened_as fd' ''file'' s5" using r(5,7) s4(1) by (simp add: opened_as_def)
  ultimately obtain s6 where
    b: "read_bufs reads fd' buf s5 = ret (Some s6)" "ufs_ok s6" "opened_as fd' ''file'' s6" "names s6 = names s5" "others_keep {fd'} {} s5 s6"
    using read_bufs_spec[OF r(2) _ le] by blast
  obtain s7 where
    e: "ufs_close fd' s6 = ret (0, s7)" "ufs_ok s7" "open_fd s7 fd' = None" "names s7 = names s6" "others_keep {fd'} {} s6 s7"
    by (rule client_close[OF b(2,3)])
  have nm7: "names s7 = names s1" using e(4) b(4) r(7) cl(4) w(7) by (simp add: s3)
  then have b7: "bound_name ''file'' s7" using c(7) by (auto simp: bound_name_def)
  obtain s8 where
    x: "ufs_delete ''file'' s7 = ret (0, s8)" "ufs_ok s8" "\<not> bound_name ''file'' s8"
      "\<And>nm'. nm' \<noteq> ''file'' \<Longrightarrow> names s8 nm' = names s7 nm'" "others_keep {} {} s7 s8"
    by (rule client_delete[OF e(2) b7]) blast
  have "max_file_size buf writes reads s = ret (Some s8)"
    using c(1,3) w(1) n cl(1) r(1,3) b(1) e(1) x(1)
    by (simp add: max_file_size_def then_test_def unit_check_def unit_fail_if_def s3 ufs_errno_def set_err_def)
  moreover have "names s8 nm = names s nm" for nm
    using x(3) new x(4)[of nm] c(9)[of nm] nm7 by (cases "nm = ''file''") (auto simp: bound_name_def)
  moreover have "others_keep {} {} s s8"
  proof -
    have k1: "others_keep {fd} {fa} s s4"
      using others_keep_trans[OF others_keep_trans[OF others_keep_trans[OF c(10) w(8)] set_err_keeps] cl(5)[unfolded s3]] by simp
    have k2: "others_keep {fd'} {} s4 s8"
      using others_keep_trans[OF others_keep_trans[OF others_keep_trans[OF r(8) b(5)] e(5)] x(5)] by simp
    have "open_fd s fd' = None" using c(4) others_keepD(1)[OF k1, of fd'] r(4) by (cases "fd' = fd") simp_all
    moreover have "open_fd s8 fd' = None" using others_keepD(1)[OF x(5), of fd'] e(3) by simp
    moreover have "open_fd s8 fd = None"
      using calculation(2) others_keepD(1)[OF k2, of fd] cl(3) by (cases "fd' = fd") simp_all
    ultimately show ?thesis
      by (intro others_keep_closed[OF others_keep_trans[OF k1 k2]]) (use c(4,8) open_file_exists[OF ok] in auto)
  qed
  ultimately show ?thesis using x(2) by (auto simp: fun_eq_iff)
qed

section \<open>The whole program\<close>

text \<open>A file system with no file and no open descriptor, as the tests find it and leave it.\<close>

definition empty_ufs :: "nat \<Rightarrow> addr \<Rightarrow> ufs_error_code \<Rightarrow> ufs" where
  "empty_ufs m n e = \<lparr>ufs_errcode = e, blocks = Map.empty, files = Map.empty, next_addr = n, file_list = None,
     file_descriptors = replicate m None, file_descriptor_count = 0, file_descriptor_capacity = m\<rparr>"

lemma empty_ufs_quiet: "ufs_ok (empty_ufs m n e)" "\<not> bound_name nm (empty_ufs m n e)" "open_fd (empty_ufs m n e) g = None"
proof -
  have "ufs_inv (\<lambda>_. []) [] (empty_ufs m n e)" by (auto simp: ufs_inv_def inv_defs empty_ufs_def)
  then show "ufs_ok (empty_ufs m n e)" by (rule ufs_okI) (simp add: ghosts_ok_def empty_ufs_def)
qed (auto simp: bound_name_def names_def empty_ufs_def open_fd_def)

lemma quiet_empty:
  assumes "ufs_ok s" and "\<And>nm. \<not> bound_name nm s" and closed: "\<And>g. open_fd s g = None"
  obtains m n e where "s = empty_ufs m n e"
proof -
  obtain B L where inv: "ufs_inv B L s" and g: "ghosts_ok s" using assms(1) by (rule ufs_okE)
  have slots: "file_descriptors s ! i = None" if "i < length (file_descriptors s)" for i
    using closed[of "int i + 1"] that by (simp add: open_fd_def)
  then have fds: "file_descriptors s = replicate (length (file_descriptors s)) None" by (simp add: list_eq_iff_nth_eq)
  then have none: "Some d \<notin> set (file_descriptors s)" for d by (metis in_set_replicate option.distinct(1))
  have f: "files s fa = None" for fa
  proof (rule ccontr)
    assume "files s fa \<noteq> None"
    then obtain f where f: "files s fa = Some f" by blast
    with assms(2)[of "fname f"] have "deleted f" by (auto simp: bound_name_def names_def)
    with g f have "0 < refs f" by (auto simp: ghosts_ok_def)
    with ufs_invD(5)[OF inv] f have "filter (opens fa) (file_descriptors s) \<noteq> []" by (force simp: refs_ok_def)
    with none show False by (auto simp: filter_empty_conv opens_def split: option.splits)
  qed
  then have files: "files s = Map.empty" by (simp add: fun_eq_iff)
  have b: "blocks s = Map.empty" using ufs_invD(3)[OF inv] files by (auto simp: owners_ok_def fun_eq_iff)
  have "L = []" using ufs_invD(4)[OF inv] files by (cases L) (auto simp: list_ok_def dll_iff file_next_def)
  with ufs_invD(4)[OF inv] have l: "file_list s = None" by (auto simp: list_ok_def)
  have "s = empty_ufs (length (file_descriptors s)) (next_addr s) (ufs_errcode s)"
    using fds files b l ufs_invD(6)[OF inv] by (cases s) (auto simp: empty_ufs_def table_ok_def filter_empty_conv)
  with that show ?thesis .
qed

lemma rights_passes: "\<exists>m' n'. test_rights True (empty_ufs m n e) = ret (Some (empty_ufs m' n' UFS_ERR_NO_ERR))"
  by (cases m) (simp_all add: test_rights_def cstr_def run_defs empty_ufs_def cong: bnd_weak_cong)

lemma first_tests_pass:
  "\<exists>m n e. then_test (test_open ufs_init) (\<lambda>s. then_test (test_close s) (\<lambda>s. then_test (test_io s) test_delete)) =
     ret (Some (empty_ufs m n e))"
  by (simp add: test_open_def test_close_def test_io_def test_delete_def then_test_def cstr_def run_defs empty_ufs_def
      cong: bnd_weak_cong) (simp add: eval_nat_numeral)

lemma then_test_simps [simp]: "then_test (ret (Some x)) k = k x" "then_test (then_test m k) l = then_test m (\<lambda>x. then_test (k x) l)"
  by (simp add: then_test_def) (simp add: then_test_def bnd_def split: option.splits sum.splits)

lemma passes_empty:
  assumes "\<exists>s'. m = ret (Some s') \<and> ufs_ok s' \<and> names s' = names (empty_ufs k n e) \<and> others_keep {} {} (empty_ufs k n e) s'"
  shows "\<exists>k' n' e'. m = ret (Some (empty_ufs k' n' e'))"
proof -
  from assms obtain s' where s': "m = ret (Some s')" "ufs_ok s'" "names s' = names (empty_ufs k n e)"
    "others_keep {} {} (empty_ufs k n e) s'" by blast
  have "\<not> bound_name nm s'" for nm using s'(3) empty_ufs_quiet(2)[of nm k n e] by (simp add: bound_name_def)
  moreover have "open_fd s' g = None" for g using others_keepD(1)[OF s'(4), of g] empty_ufs_quiet(3) by simp
  ultimately obtain k' n' e' where "s' = empty_ufs k' n' e'" by (rule quiet_empty[OF s'(2)])
  with s'(1) show ?thesis by blast
qed

text \<open>C11: the test program of the repository passes on the model, with its thousand files open twice at once and its file
  of the largest size, and leaves no file and no open descriptor behind, both with \<^verbatim>\<open>test_rights\<close> compiled
  and, as the repository builds it, with an empty \<^verbatim>\<open>test_rights\<close>.\<close>

theorem test_program_passes:
  "(\<exists>m n. test_main True ufs_init = ret (Some (empty_ufs m n UFS_ERR_NO_ERR))) \<and>
   (\<exists>m n e. test_main False ufs_init = ret (Some (empty_ufs m n e)))"
proof -
  obtain m n e where f: "then_test (test_open ufs_init) (\<lambda>s. then_test (test_close s) (\<lambda>s. then_test (test_io s) test_delete)) =
     ret (Some (empty_ufs m n e))" using first_tests_pass by blast
  obtain m1 n1 e1 where s: "test_stress_open (empty_ufs m n e) = ret (Some (empty_ufs m1 n1 e1))"
    using passes_empty[OF stress_open_passes, of m n e 1000] empty_ufs_quiet by (auto simp: test_stress_open_def)
  have full: "1024 * length (alphabet (1024 * 1024)) = MAX_FILE_SIZE" by (simp add: alphabet_def MAX_FILE_SIZE_def)
  obtain m2 n2 e2 where x: "test_max_file_size (empty_ufs m1 n1 e1) = ret (Some (empty_ufs m2 n2 e2))"
    using passes_empty[OF max_file_size_passes[OF empty_ufs_quiet(1,2) full], of 1014 m1 n1 e1] by (auto simp: test_max_file_size_def)
  have "test_main fl ufs_init = then_test (then_test (test_open ufs_init) (\<lambda>s. then_test (test_close s) (\<lambda>s. then_test (test_io s) test_delete)))
      (\<lambda>s. then_test (test_stress_open s) (\<lambda>s. then_test (test_max_file_size s) (test_rights fl)))" for fl
    by (simp add: test_main_def)
  then have "test_main fl ufs_init = test_rights fl (empty_ufs m2 n2 e2)" for fl using f s x by simp
  moreover have "test_rights False (empty_ufs m2 n2 e2) = ret (Some (empty_ufs m2 n2 e2))" by (simp add: test_rights_def)
  ultimately show ?thesis using rights_passes[of m2 n2 e2] by metis
qed

end
