(* ===== verification/Buffers.thy ===== *)
theory Buffers
  imports Prelude
begin

text \<open>
  The growable array that \<^verbatim>\<open>2/shell.c\<close> (characters) and \<^verbatim>\<open>1/main.c\<close> (integers) both
  implement. The locale states what the clients rely on: an insert never writes outside the
  allocation and appends exactly one element.
\<close>

locale growable =
  fixes create :: "nat \<Rightarrow> 'b"
    and insert :: "'b \<Rightarrow> 'a \<Rightarrow> 'b run"
    and content :: "'b \<Rightarrow> 'a list"
    and ok :: "'b \<Rightarrow> bool"
  assumes create_ok: "0 < n \<Longrightarrow> ok (create n)"
    and create_content: "content (create n) = []"
    and insert_spec: "ok b \<Longrightarrow> wp (insert b x) (\<lambda>b'. ok b' \<and> content b' = content b @ [x])"
begin

fun insert_all :: "'b \<Rightarrow> 'a list \<Rightarrow> 'b run" where
  "insert_all b [] = ret b"
| "insert_all b (x # xs) = bnd (insert b x) (\<lambda>b. insert_all b xs)"

lemma insert_all_spec:
  "ok b \<Longrightarrow> wp (insert_all b xs) (\<lambda>b'. ok b' \<and> content b' = content b @ xs)"
proof (induction xs arbitrary: b)
  case (Cons x xs)
  show ?case
    by (simp, rule wp_mono[OF insert_spec[OF Cons.prems]], rule wp_mono[OF Cons.IH]) auto
qed simp

lemma fill_created: "0 < n \<Longrightarrow> wp (insert_all (create n) xs) (\<lambda>b. ok b \<and> content b = xs)"
  using insert_all_spec[OF create_ok] by (simp add: create_content)

lemma insert_ret:
  assumes "ok b"
  obtains b' where "insert b x = ret b'" "ok b'" "content b' = content b @ [x]"
  using insert_spec[OF assms] by (auto elim: wpE)

end

end
