(* ===== verification/Shell_Lexer.thy ===== *)
theory Shell_Lexer
  imports Buffers
begin

text \<open>
  The reader of \<^verbatim>\<open>2/shell.c\<close>: the character buffer, the list of words, and the state machine of
  \<^verbatim>\<open>main\<close> that turns input characters into words and operators, one character per step.
  A command line that is ready is handed over in \<open>lx_out\<close>.
\<close>

section \<open>The character buffer\<close>

record buffer =
  buf_len :: nat
  buf_pos :: nat
  buf_array :: "char option list"

definition create_buffer :: "nat \<Rightarrow> buffer" where
  "create_buffer n = \<lparr>buf_len = n, buf_pos = 0, buf_array = replicate n None\<rparr>"

text \<open>\<open>arr[i] = x\<close> inside an allocation.\<close>

definition store_cell :: "'a option list \<Rightarrow> nat \<Rightarrow> 'a \<Rightarrow> 'a option list run" where
  "store_cell arr i x = (if i < length arr then ret (arr[i := Some x]) else fault Out_Of_Bounds)"

definition double_buffer :: "buffer \<Rightarrow> buffer run" where
  "double_buffer b = (let new = create_buffer (2 * buf_len b) in
     if buf_pos b > length (buf_array b) \<or> buf_pos b > length (buf_array new) then fault Out_Of_Bounds
     else ret (new\<lparr>buf_array := take (buf_pos b) (buf_array b) @ drop (buf_pos b) (buf_array new),
                  buf_pos := buf_pos b\<rparr>))"

definition insert_buffer :: "buffer \<Rightarrow> char \<Rightarrow> buffer run" where
  "insert_buffer b c =
     bnd (if buf_pos b = buf_len b then double_buffer b else ret b) (\<lambda>b.
     bnd (store_cell (buf_array b) (buf_pos b) c) (\<lambda>arr.
     ret (b\<lparr>buf_array := arr, buf_pos := buf_pos b + 1\<rparr>)))"

definition buf_ok :: "buffer \<Rightarrow> bool" where
  "buf_ok b \<longleftrightarrow> 0 < buf_len b \<and> length (buf_array b) = buf_len b \<and> buf_pos b \<le> buf_len b \<and>
     None \<notin> set (take (buf_pos b) (buf_array b))"

definition buf_content :: "buffer \<Rightarrow> char list" where
  "buf_content b = map the (take (buf_pos b) (buf_array b))"

interpretation cb: growable create_buffer insert_buffer buf_content buf_ok
proof
  show "buf_ok (create_buffer n)" if "0 < n" for n using that by (simp add: buf_ok_def create_buffer_def)
  show "buf_content (create_buffer n) = []" for n by (simp add: buf_content_def create_buffer_def)
  show "wp (insert_buffer b x) (\<lambda>b'. buf_ok b' \<and> buf_content b' = buf_content b @ [x])"
    if "buf_ok b" for b x
  proof (cases "buf_pos b = buf_len b")
    case True
    with that show ?thesis
      by (auto simp: insert_buffer_def double_buffer_def create_buffer_def store_cell_def Let_def buf_ok_def
          buf_content_def take_Suc_conv_app_nth nth_append list_update_append)
  next
    case False
    with that show ?thesis
      by (auto simp: insert_buffer_def store_cell_def buf_ok_def buf_content_def take_Suc_conv_app_nth)
  qed
qed

section \<open>The list of words\<close>

datatype spec_value = SPEC_DEFAULT | SPEC_FIRST | SPEC_SECOND

record token =
  word :: string
  spec :: spec_value

abbreviation Tok :: "string \<Rightarrow> spec_value \<Rightarrow> token" where
  "Tok w k \<equiv> \<lparr>word = w, spec = k\<rparr>"

text \<open>A word ends at its first zero byte for \<^verbatim>\<open>strcmp\<close>; \<open>first_char\<close> is \<open>word[0]\<close>.\<close>

definition c_str :: "string \<Rightarrow> string" where
  "c_str w = takeWhile (\<lambda>c. c \<noteq> CHR 0x00) w"

definition word_is :: "token \<Rightarrow> string \<Rightarrow> bool" where
  "word_is t w \<longleftrightarrow> c_str (word t) = w"

definition first_char :: "string \<Rightarrow> char" where
  "first_char w = hd (w @ [CHR 0x00])"

text \<open>\<^verbatim>\<open>insert_list\<close> appends the buffer as a word and empties it; an empty buffer is no word.\<close>

definition insert_list :: "token list \<Rightarrow> buffer \<Rightarrow> spec_value \<Rightarrow> token list \<times> buffer" where
  "insert_list l b k = (if buf_pos b = 0 then (l, b)
     else (l @ [Tok (buf_content b) k], b\<lparr>buf_pos := 0\<rparr>))"

fun len_list :: "token list \<Rightarrow> nat" where
  "len_list [] = 0"
| "len_list (t # p) = Suc (len_list p)"

fun strip_from :: "token list \<Rightarrow> token list" where
  "strip_from [] = []"
| "strip_from [t] = [t]"
| "strip_from (t # u # p) = (if first_char (word u) = CHR ''#'' then [t] else t # strip_from (u # p))"

definition strip_comment :: "token list \<Rightarrow> token list" where
  "strip_comment l = (case l of [] \<Rightarrow> []
     | t # p \<Rightarrow> if first_char (word t) = CHR ''#'' then [] else strip_from (t # p))"

definition nl :: char where
  "nl = CHR 0x0A"

definition quote_s :: char where
  "quote_s = CHR 0x27"

definition need_escape :: "char \<Rightarrow> bool" where
  "need_escape c \<longleftrightarrow> c \<in> set [nl, quote_s, CHR 0x22, CHR 0x5C, CHR '' '', CHR ''>'', CHR ''<'', CHR ''|'', CHR ''&'']"

definition spec_symbol :: "char \<Rightarrow> bool" where
  "spec_symbol c \<longleftrightarrow> c \<in> set ''<>|&''"

section \<open>The state machine\<close>

record lexer =
  lx_buf :: buffer
  lx_list :: "token list"
  is_quote_d :: bool
  is_quote_s :: bool
  is_escape :: bool
  is_prev_spec :: bool
  lx_out :: "token list list"

definition lex_init :: lexer where
  "lex_init = \<lparr>lx_buf = create_buffer 32, lx_list = [], is_quote_d = False, is_quote_s = False,
     is_escape = False, is_prev_spec = False, lx_out = []\<rparr>"

definition put_char :: "char \<Rightarrow> lexer \<Rightarrow> lexer run" where
  "put_char c s = bnd (insert_buffer (lx_buf s) c) (\<lambda>b. ret (s\<lparr>lx_buf := b\<rparr>))"

definition end_word :: "spec_value \<Rightarrow> lexer \<Rightarrow> lexer" where
  "end_word k s = (let (l, b) = insert_list (lx_list s) (lx_buf s) k in s\<lparr>lx_list := l, lx_buf := b\<rparr>)"

definition lex_escaped :: "char \<Rightarrow> lexer \<Rightarrow> lexer run" where
  "lex_escaped c s =
     bnd (if \<not> need_escape c then put_char CHR 0x5C s else ret s) (\<lambda>s.
     bnd (if c \<noteq> nl then put_char c s else ret s) (\<lambda>s.
     ret (s\<lparr>is_escape := False\<rparr>)))"

definition lex_special :: "char \<Rightarrow> lexer \<Rightarrow> lexer run" where
  "lex_special c s =
     (if is_quote_s s \<or> is_quote_d s then put_char c s
      else let s = end_word SPEC_DEFAULT s in
        if spec_symbol c then
          bnd (store_cell (buf_array (lx_buf s)) 0 c) (\<lambda>arr.
          let s = s\<lparr>lx_buf := (lx_buf s)\<lparr>buf_pos := 1, buf_array := arr\<rparr>\<rparr>;
              s = end_word (if is_prev_spec s then SPEC_SECOND else SPEC_FIRST) s
          in ret (s\<lparr>is_prev_spec := True\<rparr>))
        else
          let s = (if c = nl then
              let l = strip_comment (lx_list s) in
              s\<lparr>lx_list := [], lx_out := (if l = [] then lx_out s else lx_out s @ [l])\<rparr>
            else s)
          in ret (s\<lparr>is_prev_spec := False\<rparr>))"

definition lex_char :: "char \<Rightarrow> lexer \<Rightarrow> lexer run" where
  "lex_char c s =
     (if is_escape s then lex_escaped c s
      else if c = CHR 0x22 then
        bnd (if \<not> is_quote_s s then ret (s\<lparr>is_quote_d := \<not> is_quote_d s\<rparr>) else put_char c s)
          (\<lambda>s. ret (s\<lparr>is_prev_spec := False\<rparr>))
      else if c = quote_s then
        bnd (if \<not> is_quote_d s then ret (s\<lparr>is_quote_s := \<not> is_quote_s s\<rparr>) else put_char c s)
          (\<lambda>s. ret (s\<lparr>is_prev_spec := False\<rparr>))
      else if c = CHR 0x5C then
        bnd (if \<not> is_quote_s s then ret (s\<lparr>is_escape := True\<rparr>) else put_char c s)
          (\<lambda>s. ret (s\<lparr>is_prev_spec := False\<rparr>))
      else if c \<in> set [CHR '' '', nl, CHR ''>'', CHR ''<'', CHR ''&'', CHR ''|''] then lex_special c s
      else bnd (put_char c s) (\<lambda>s. ret (s\<lparr>is_prev_spec := False\<rparr>)))"

fun lex_input :: "char list \<Rightarrow> lexer \<Rightarrow> lexer run" where
  "lex_input [] s = ret s"
| "lex_input (c # cs) s = bnd (lex_char c s) (lex_input cs)"

section \<open>The reader without its buffer\<close>

text \<open>
  The specification: the same automaton on the word read so far. \<open>reads s r\<close> relates a state of
  the program to it.
\<close>

record reader =
  rd_word :: string
  rd_list :: "token list"
  rd_dq :: bool
  rd_sq :: bool
  rd_esc :: bool
  rd_prev :: bool
  rd_out :: "token list list"

definition rd_init :: reader where
  "rd_init = \<lparr>rd_word = [], rd_list = [], rd_dq = False, rd_sq = False, rd_esc = False,
     rd_prev = False, rd_out = []\<rparr>"

definition rd_put :: "string \<Rightarrow> reader \<Rightarrow> reader" where
  "rd_put w r = r\<lparr>rd_word := rd_word r @ w\<rparr>"

definition rd_end :: "reader \<Rightarrow> reader" where
  "rd_end r = (if rd_word r = [] then r
     else r\<lparr>rd_list := rd_list r @ [Tok (rd_word r) SPEC_DEFAULT], rd_word := []\<rparr>)"

definition rd_line :: "reader \<Rightarrow> reader" where
  "rd_line r = (let l = strip_comment (rd_list r) in
     r\<lparr>rd_list := [], rd_out := (if l = [] then rd_out r else rd_out r @ [l])\<rparr>)"

definition rd_char :: "char \<Rightarrow> reader \<Rightarrow> reader" where
  "rd_char c r =
     (if rd_esc r then (rd_put ((if need_escape c then [] else [CHR 0x5C]) @ (if c = nl then [] else [c])) r)
         \<lparr>rd_esc := False\<rparr>
      else if c = CHR 0x22 \<and> \<not> rd_sq r then r\<lparr>rd_dq := \<not> rd_dq r, rd_prev := False\<rparr>
      else if c = quote_s \<and> \<not> rd_dq r then r\<lparr>rd_sq := \<not> rd_sq r, rd_prev := False\<rparr>
      else if c = CHR 0x5C \<and> \<not> rd_sq r then r\<lparr>rd_esc := True, rd_prev := False\<rparr>
      else if c = CHR '' '' \<or> c = nl \<or> spec_symbol c then
        (if rd_sq r \<or> rd_dq r then rd_put [c] r
         else if spec_symbol c then (rd_end r)\<lparr>rd_list := rd_list (rd_end r) @
             [Tok [c] (if rd_prev r then SPEC_SECOND else SPEC_FIRST)], rd_prev := True\<rparr>
         else if c = nl then (rd_line (rd_end r))\<lparr>rd_prev := False\<rparr>
         else (rd_end r)\<lparr>rd_prev := False\<rparr>)
      else (rd_put [c] r)\<lparr>rd_prev := False\<rparr>)"

fun rd_input :: "char list \<Rightarrow> reader \<Rightarrow> reader" where
  "rd_input [] r = r"
| "rd_input (c # cs) r = rd_input cs (rd_char c r)"

definition reads :: "lexer \<Rightarrow> reader \<Rightarrow> bool" where
  "reads s r \<longleftrightarrow> buf_ok (lx_buf s) \<and> r = \<lparr>rd_word = buf_content (lx_buf s), rd_list = lx_list s,
     rd_dq = is_quote_d s, rd_sq = is_quote_s s, rd_esc = is_escape s, rd_prev = is_prev_spec s,
     rd_out = lx_out s\<rparr>"

lemma reads_init: "reads lex_init rd_init"
  by (simp add: reads_def lex_init_def rd_init_def cb.create_ok cb.create_content)

lemma put_char_reads:
  assumes "reads s r"
  shows "wp (put_char c s) (\<lambda>s'. reads s' (rd_put [c] r))"
proof -
  have "buf_ok (lx_buf s)" using assms by (simp add: reads_def)
  then obtain b where "insert_buffer (lx_buf s) c = ret b" "buf_ok b"
    "buf_content b = buf_content (lx_buf s) @ [c]" by (rule cb.insert_ret)
  with assms show ?thesis by (simp add: put_char_def reads_def rd_put_def)
qed

lemma buf_content_Nil: "buf_ok b \<Longrightarrow> buf_content b = [] \<longleftrightarrow> buf_pos b = 0"
  by (auto simp: buf_content_def buf_ok_def)

lemma buf_reset: "buf_ok b \<Longrightarrow> buf_ok (b\<lparr>buf_pos := 0\<rparr>)" "buf_content (b\<lparr>buf_pos := 0\<rparr>) = []"
  by (simp_all add: buf_ok_def buf_content_def)

lemma end_word_reads:
  assumes "reads s r"
  shows "reads (end_word SPEC_DEFAULT s) (rd_end r)"
proof -
  from assms have b: "buf_ok (lx_buf s)" and r: "rd_word r = buf_content (lx_buf s)"
    by (simp_all add: reads_def)
  show ?thesis
    using assms buf_content_Nil[OF b] buf_reset[of "lx_buf s"]
    by (cases "buf_pos (lx_buf s) = 0") (auto simp: end_word_def insert_list_def rd_end_def reads_def)
qed

lemma end_spec_reads:
  assumes "reads s r" and "rd_word r = []"
  shows "wp (store_cell (buf_array (lx_buf s)) 0 c) (\<lambda>arr.
    reads (end_word k (s\<lparr>lx_buf := (lx_buf s)\<lparr>buf_pos := 1, buf_array := arr\<rparr>\<rparr>))
      (r\<lparr>rd_list := rd_list r @ [Tok [c] k]\<rparr>))"
proof -
  from assms have b: "buf_ok (lx_buf s)" by (simp add: reads_def)
  then obtain x xs where "buf_array (lx_buf s) = x # xs" by (cases "buf_array (lx_buf s)") (auto simp: buf_ok_def)
  with assms b show ?thesis
    by (auto simp: store_cell_def end_word_def insert_list_def reads_def buf_ok_def buf_content_def)
qed

lemma reads_upd:
  "reads s r \<Longrightarrow> reads (s\<lparr>is_prev_spec := p\<rparr>) (r\<lparr>rd_prev := p\<rparr>)"
  "reads s r \<Longrightarrow> reads (s\<lparr>is_escape := p\<rparr>) (r\<lparr>rd_esc := p\<rparr>)"
  "reads s r \<Longrightarrow> reads (s\<lparr>is_quote_d := p\<rparr>) (r\<lparr>rd_dq := p\<rparr>)"
  "reads s r \<Longrightarrow> reads (s\<lparr>is_quote_s := p\<rparr>) (r\<lparr>rd_sq := p\<rparr>)"
  by (simp_all add: reads_def)

lemma reads_flags:
  "reads s r \<Longrightarrow> is_escape s = rd_esc r \<and> is_quote_s s = rd_sq r \<and> is_quote_d s = rd_dq r \<and>
     is_prev_spec s = rd_prev r"
  by (simp add: reads_def)

lemma rd_end_flags [simp]:
  "rd_prev (rd_end r) = rd_prev r" "rd_word (rd_end r) = []" "rd_sq (rd_end r) = rd_sq r"
  "rd_dq (rd_end r) = rd_dq r" "rd_esc (rd_end r) = rd_esc r" "rd_out (rd_end r) = rd_out r"
  by (simp_all add: rd_end_def)

lemma lex_escaped_reads:
  assumes "reads s r"
  shows "wp (lex_escaped c s) (\<lambda>s'. reads s' ((rd_put ((if need_escape c then [] else [CHR 0x5C]) @
    (if c = nl then [] else [c])) r)\<lparr>rd_esc := False\<rparr>))"
proof -
  have two: "rd_put [d] (rd_put [c] r) = rd_put [c, d] r" for c d r by (simp add: rd_put_def)
  have none: "rd_put [] r = r" by (simp add: rd_put_def)
  have "need_escape nl" by (simp add: need_escape_def)
  then have w: "wp (bnd (if \<not> need_escape c then put_char CHR 0x5C s else ret s) (\<lambda>s.
     if c \<noteq> nl then put_char c s else ret s))
     (\<lambda>s'. reads s' (rd_put ((if need_escape c then [] else [CHR 0x5C]) @ (if c = nl then [] else [c])) r))"
    using assms put_char_reads[OF assms, of c] put_char_reads[OF assms, of "CHR 0x5C"]
    by (auto simp: none elim!: wp_mono dest: put_char_reads[of _ "rd_put [CHR 0x5C] r" c] simp: two)
  show ?thesis
    unfolding lex_escaped_def using wp_mono[OF w, of "\<lambda>s. reads (s\<lparr>is_escape := False\<rparr>) _"] reads_upd(2)
    by (simp add: bnd_assoc[symmetric])
qed

definition rd_special :: "char \<Rightarrow> reader \<Rightarrow> reader" where
  "rd_special c r =
     (if rd_sq r \<or> rd_dq r then rd_put [c] r
      else if spec_symbol c then (rd_end r)\<lparr>rd_list := rd_list (rd_end r) @
          [Tok [c] (if rd_prev r then SPEC_SECOND else SPEC_FIRST)], rd_prev := True\<rparr>
      else if c = nl then (rd_line (rd_end r))\<lparr>rd_prev := False\<rparr>
      else (rd_end r)\<lparr>rd_prev := False\<rparr>)"

lemma lex_special_reads:
  assumes r: "reads s r"
  shows "wp (lex_special c s) (\<lambda>s'. reads s' (rd_special c r))"
proof -
  let ?s = "end_word SPEC_DEFAULT s" and ?r = "rd_end r"
  note e = end_word_reads[OF r]
  have fl: "is_quote_s s = rd_sq r" "is_quote_d s = rd_dq r" "is_prev_spec ?s = rd_prev r"
    using reads_flags[OF r] reads_flags[OF e] by simp_all
  consider "rd_sq r \<or> rd_dq r" | "\<not> (rd_sq r \<or> rd_dq r)" "spec_symbol c"
    | "\<not> (rd_sq r \<or> rd_dq r)" "\<not> spec_symbol c" by blast
  then show ?thesis
  proof cases
    case 1
    with put_char_reads[OF r, of c] fl show ?thesis by (simp add: lex_special_def rd_special_def)
  next
    case 2
    let ?k = "if rd_prev r then SPEC_SECOND else SPEC_FIRST"
    have "wp (store_cell (buf_array (lx_buf ?s)) 0 c) (\<lambda>arr.
      reads (end_word ?k (?s\<lparr>lx_buf := (lx_buf ?s)\<lparr>buf_pos := 1, buf_array := arr\<rparr>\<rparr>))
        (?r\<lparr>rd_list := rd_list ?r @ [Tok [c] ?k]\<rparr>))"
      by (rule end_spec_reads[OF e]) simp
    then have "wp (store_cell (buf_array (lx_buf ?s)) 0 c) (\<lambda>arr.
      reads ((end_word ?k (?s\<lparr>lx_buf := (lx_buf ?s)\<lparr>buf_pos := 1, buf_array := arr\<rparr>\<rparr>))\<lparr>is_prev_spec := True\<rparr>)
        (?r\<lparr>rd_list := rd_list ?r @ [Tok [c] ?k], rd_prev := True\<rparr>))"
      by (rule wp_mono) (auto dest: reads_upd(1)[of _ _ True])
    with 2 fl show ?thesis by (simp add: lex_special_def rd_special_def Let_def)
  next
    case 3
    have "reads (?s\<lparr>lx_list := [], lx_out := (let l = strip_comment (lx_list ?s) in
        if l = [] then lx_out ?s else lx_out ?s @ [l])\<rparr>) (rd_line ?r)"
      using e by (auto simp: reads_def rd_line_def Let_def)
    with 3 fl e reads_upd(1)[of _ _ False] show ?thesis
      by (auto simp: lex_special_def rd_special_def Let_def)
  qed
qed

lemma rd_char_special:
  assumes "\<not> rd_esc r" and "c = CHR '' '' \<or> c = nl \<or> spec_symbol c"
  shows "rd_char c r = rd_special c r"
proof -
  have "c \<noteq> CHR 0x22" "c \<noteq> quote_s" "c \<noteq> CHR 0x5C"
    using assms(2) by (auto simp: nl_def quote_s_def spec_symbol_def)
  with assms show ?thesis by (simp add: rd_char_def rd_special_def)
qed

lemma put_then_clear:
  assumes "reads s r"
  shows "wp (bnd (put_char c s) (\<lambda>s. ret (s\<lparr>is_prev_spec := False\<rparr>)))
    (\<lambda>s'. reads s' ((rd_put [c] r)\<lparr>rd_prev := False\<rparr>))"
  using wp_mono[OF put_char_reads[OF assms, of c],
      of "\<lambda>s. reads (s\<lparr>is_prev_spec := False\<rparr>) ((rd_put [c] r)\<lparr>rd_prev := False\<rparr>)"]
    reads_upd(1)[of _ _ False] by simp

lemma lex_char_reads:
  assumes r: "reads s r"
  shows "wp (lex_char c s) (\<lambda>s'. reads s' (rd_char c r))"
proof (cases "rd_esc r")
  case True
  with lex_escaped_reads[OF r, of c] reads_flags[OF r] show ?thesis
    by (simp add: lex_char_def rd_char_def)
next
  case False
  note fl = reads_flags[OF r] and p = put_then_clear[OF r, of c]
  consider (special) "c = CHR '' '' \<or> c = nl \<or> spec_symbol c"
    | (dq) "c = CHR 0x22" | (sq) "c = quote_s" | (bs) "c = CHR 0x5C"
    | (other) "c \<noteq> CHR 0x22" "c \<noteq> quote_s" "c \<noteq> CHR 0x5C" "\<not> (c = CHR '' '' \<or> c = nl \<or> spec_symbol c)" by blast
  then show ?thesis
  proof cases
    case special
    then have "c \<in> set [CHR '' '', nl, CHR ''>'', CHR ''<'', CHR ''&'', CHR ''|'']"
      "c \<noteq> CHR 0x22" "c \<noteq> quote_s" "c \<noteq> CHR 0x5C"
      by (auto simp: spec_symbol_def nl_def quote_s_def)
    with lex_special_reads[OF r, of c] rd_char_special[OF False special] fl False show ?thesis
      by (simp add: lex_char_def)
  next
    case dq
    with False fl p reads_upd(1)[OF reads_upd(3)[OF r, of "\<not> rd_dq r"], of False] show ?thesis
      by (auto simp: lex_char_def rd_char_def nl_def quote_s_def spec_symbol_def)
  next
    case sq
    with False fl p reads_upd(1)[OF reads_upd(4)[OF r, of "\<not> rd_sq r"], of False] show ?thesis
      by (auto simp: lex_char_def rd_char_def nl_def quote_s_def spec_symbol_def)
  next
    case bs
    with False fl p reads_upd(1)[OF reads_upd(2)[OF r, of True], of False] show ?thesis
      by (auto simp: lex_char_def rd_char_def nl_def quote_s_def spec_symbol_def)
  next
    case other
    then have "c \<notin> set [CHR '' '', nl, CHR ''>'', CHR ''<'', CHR ''&'', CHR ''|'']"
      by (auto simp: spec_symbol_def)
    with other False fl p show ?thesis by (simp add: lex_char_def rd_char_def)
  qed
qed

lemma lex_input_reads: "reads s r \<Longrightarrow> wp (lex_input cs s) (\<lambda>s'. reads s' (rd_input cs r))"
proof (induction cs arbitrary: s r)
  case (Cons c cs)
  show ?case
    by simp (rule wp_mono[OF lex_char_reads[OF Cons.prems]], rule Cons.IH)
qed simp

lemma rd_input_append: "rd_input (xs @ ys) r = rd_input ys (rd_input xs r)"
  by (induction xs arbitrary: r) simp_all

lemma readsD:
  "reads s r \<Longrightarrow> buf_ok (lx_buf s) \<and> lx_out s = rd_out r \<and> lx_list s = rd_list r \<and> buf_content (lx_buf s) = rd_word r"
  by (simp add: reads_def)

section \<open>Printing and reading back\<close>

text \<open>
  A word can be written in pieces, each bare with backslashes before the special characters, in
  single quotes, where nothing is special, or in double quotes, where a backslash stands before a
  double quote and a backslash. The pieces stand together without a gap; the choice of the pieces
  is free.
\<close>

datatype quoting = Bare | Single | Double

definition esc :: "char \<Rightarrow> string" where
  "esc c = (if need_escape c then [CHR 0x5C, c] else [c])"

definition esc_d :: "char \<Rightarrow> string" where
  "esc_d c = (if c = CHR 0x22 \<or> c = CHR 0x5C then [CHR 0x5C, c] else [c])"

fun quoted :: "quoting \<Rightarrow> string \<Rightarrow> string" where
  "quoted Bare w = concat (map esc w)"
| "quoted Single w = quote_s # w @ [quote_s]"
| "quoted Double w = CHR 0x22 # concat (map esc_d w) @ [CHR 0x22]"

fun quotable :: "quoting \<Rightarrow> string \<Rightarrow> bool" where
  "quotable Bare w = (nl \<notin> set w)"
| "quotable Single w = (quote_s \<notin> set w)"
| "quotable Double w = True"

type_synonym pieces = "(quoting \<times> string) list"

definition render :: "token \<Rightarrow> pieces \<Rightarrow> string" where
  "render t ps = (case spec t of
      SPEC_DEFAULT \<Rightarrow> CHR '' '' # concat (map (\<lambda>(q, w). quoted q w) ps)
    | SPEC_FIRST \<Rightarrow> CHR '' '' # word t
    | SPEC_SECOND \<Rightarrow> word t)"

definition written_as :: "token \<Rightarrow> pieces \<Rightarrow> bool" where
  "written_as t ps \<longleftrightarrow> spec t = SPEC_DEFAULT \<longrightarrow>
     word t = concat (map snd ps) \<and> (\<forall>(q, w) \<in> set ps. quotable q w)"

text \<open>The lines that have a rendering: words that are not comments, and operator characters; a second
  operator character follows another one. A word that starts with \<open>#\<close> has none: \<^verbatim>\<open>strip_comment\<close>
  takes it for a comment even when the character was quoted.\<close>

fun printable :: "bool \<Rightarrow> token list \<Rightarrow> bool" where
  "printable prev [] = True"
| "printable prev (t # ts) = (case spec t of
      SPEC_DEFAULT \<Rightarrow> word t \<noteq> [] \<and> hd (word t) \<noteq> CHR ''#'' \<and> printable False ts
    | SPEC_FIRST \<Rightarrow> (\<exists>c. word t = [c] \<and> spec_symbol c) \<and> printable True ts
    | SPEC_SECOND \<Rightarrow> prev \<and> (\<exists>c. word t = [c] \<and> spec_symbol c) \<and> printable True ts)"

definition clean :: "reader \<Rightarrow> bool" where
  "clean r \<longleftrightarrow> \<not> rd_esc r \<and> \<not> rd_sq r \<and> \<not> rd_dq r"

lemma rd_escaped_word:
  assumes "clean r" and "nl \<notin> set w"
  shows "\<exists>p. rd_input (concat (map esc w)) r = (rd_put w r)\<lparr>rd_prev := p\<rparr> \<and> (w \<noteq> [] \<longrightarrow> \<not> p)"
  using assms
proof (induction w arbitrary: r)
  case Nil
  show ?case by (auto simp: rd_put_def intro: exI[of _ "rd_prev r"])
next
  case (Cons c w)
  have one: "rd_input (esc c) r = (rd_put [c] r)\<lparr>rd_prev := False\<rparr>"
  proof (cases "need_escape c")
    case True
    with Cons.prems show ?thesis
      by (auto simp: esc_def rd_char_def clean_def quote_s_def nl_def rd_put_def spec_symbol_def)
  next
    case False
    then have "c \<noteq> CHR 0x22" "c \<noteq> quote_s" "c \<noteq> CHR 0x5C" "c \<noteq> CHR '' ''" "c \<noteq> nl" "\<not> spec_symbol c"
      by (auto simp: need_escape_def spec_symbol_def)
    with False Cons.prems show ?thesis by (simp add: esc_def rd_char_def clean_def)
  qed
  let ?r = "(rd_put [c] r)\<lparr>rd_prev := False\<rparr>"
  have "clean ?r" using Cons.prems(1) by (simp add: clean_def rd_put_def)
  with Cons.IH[of ?r] Cons.prems(2) obtain p where
    p: "rd_input (concat (map esc w)) ?r = (rd_put w ?r)\<lparr>rd_prev := p\<rparr>" "w \<noteq> [] \<longrightarrow> \<not> p" by auto
  show ?case
  proof (cases "w = []")
    case True
    then show ?thesis by (intro exI[of _ False]) (simp add: one)
  next
    case False
    with p show ?thesis
      by (intro exI[of _ False]) (simp add: rd_input_append one rd_put_def)
  qed
qed

lemma rd_put_put [simp]: "rd_put v (rd_put w r) = rd_put (w @ v) r" "rd_put [] r = r"
  by (simp_all add: rd_put_def)

lemma rd_in_single:
  assumes "rd_sq r" and "\<not> rd_dq r" and "\<not> rd_esc r" and "\<not> rd_prev r" and "quote_s \<notin> set w"
  shows "rd_input w r = rd_put w r"
  using assms
proof (induction w arbitrary: r)
  case (Cons c w)
  then have one: "rd_char c r = rd_put [c] r"
    by (auto simp: rd_char_def rd_put_def)
  have "rd_input w (rd_put [c] r) = rd_put w (rd_put [c] r)"
    by (rule Cons.IH) (use Cons.prems in \<open>simp_all add: rd_put_def\<close>)
  then show ?case by (simp add: one)
qed simp

lemma rd_in_double:
  assumes "rd_dq r" and "\<not> rd_sq r" and "\<not> rd_esc r" and "\<not> rd_prev r"
  shows "rd_input (concat (map esc_d w)) r = rd_put w r"
  using assms
proof (induction w arbitrary: r)
  case (Cons c w)
  then have one: "rd_input (esc_d c) r = rd_put [c] r"
    by (auto simp: esc_d_def rd_char_def rd_put_def need_escape_def nl_def quote_s_def)
  have "rd_input (concat (map esc_d w)) (rd_put [c] r) = rd_put w (rd_put [c] r)"
    by (rule Cons.IH) (use Cons.prems in \<open>simp_all add: rd_put_def\<close>)
  then show ?case by (simp add: one rd_input_append)
qed simp

lemma rd_piece:
  assumes "clean r" and "quotable q w"
  shows "\<exists>p. rd_input (quoted q w) r = (rd_put w r)\<lparr>rd_prev := p\<rparr>"
proof (cases q)
  case Bare
  with rd_escaped_word[OF assms(1), of w] assms(2) show ?thesis by auto
next
  case Single
  let ?r = "r\<lparr>rd_sq := True, rd_prev := False\<rparr>"
  have "rd_char quote_s r = ?r" using assms(1) by (simp add: rd_char_def clean_def quote_s_def)
  moreover have "rd_input w ?r = rd_put w ?r"
    using assms Single by (intro rd_in_single) (simp_all add: clean_def)
  moreover have "rd_char quote_s (rd_put w ?r) = (rd_put w r)\<lparr>rd_prev := False\<rparr>"
    using assms(1) by (simp add: rd_char_def clean_def quote_s_def rd_put_def)
  ultimately show ?thesis using Single by (auto simp: rd_input_append)
next
  case Double
  let ?r = "r\<lparr>rd_dq := True, rd_prev := False\<rparr>"
  have "rd_char CHR 0x22 r = ?r" using assms(1) by (simp add: rd_char_def clean_def)
  moreover have "rd_input (concat (map esc_d w)) ?r = rd_put w ?r"
    using assms by (intro rd_in_double) (simp_all add: clean_def)
  moreover have "rd_char CHR 0x22 (rd_put w ?r) = (rd_put w r)\<lparr>rd_prev := False\<rparr>"
    using assms(1) by (simp add: rd_char_def clean_def rd_put_def)
  ultimately show ?thesis using Double by (auto simp: rd_input_append)
qed

lemma rd_pieces:
  assumes "clean r" and "\<forall>(q, w) \<in> set ps. quotable q w"
  shows "\<exists>p. rd_input (concat (map (\<lambda>(q, w). quoted q w) ps)) r = (rd_put (concat (map snd ps)) r)\<lparr>rd_prev := p\<rparr>"
  using assms
proof (induction ps arbitrary: r)
  case Nil
  show ?case by (auto intro: exI[of _ "rd_prev r"])
next
  case (Cons a ps)
  obtain q w where a: "a = (q, w)" by (cases a)
  obtain p where p: "rd_input (quoted q w) r = (rd_put w r)\<lparr>rd_prev := p\<rparr>"
    using rd_piece[OF Cons.prems(1), of q w] Cons.prems(2) a by auto
  have "clean ((rd_put w r)\<lparr>rd_prev := p\<rparr>)" using Cons.prems(1) by (simp add: clean_def rd_put_def)
  from Cons.IH[OF this] Cons.prems(2) obtain p' where
    "rd_input (concat (map (\<lambda>(q, w). quoted q w) ps)) ((rd_put w r)\<lparr>rd_prev := p\<rparr>) =
      (rd_put (concat (map snd ps)) ((rd_put w r)\<lparr>rd_prev := p\<rparr>))\<lparr>rd_prev := p'\<rparr>" by auto
  then show ?case by (intro exI[of _ p']) (simp add: a p rd_input_append, simp add: rd_put_def)
qed

lemma rd_special_chars:
  assumes "clean r"
  shows "rd_char CHR '' '' r = (rd_end r)\<lparr>rd_prev := False\<rparr>"
    and "spec_symbol c \<Longrightarrow> rd_char c r = (rd_end r)\<lparr>rd_list := rd_list (rd_end r) @
      [Tok [c] (if rd_prev r then SPEC_SECOND else SPEC_FIRST)], rd_prev := True\<rparr>"
    and "rd_char nl r = (rd_line (rd_end r))\<lparr>rd_prev := False\<rparr>"
  using assms by (simp_all add: rd_char_special clean_def rd_special_def) (simp_all add: spec_symbol_def nl_def)

lemma token_eq: "word t = w \<Longrightarrow> spec t = k \<Longrightarrow> t = Tok w k"
  by simp

lemma clean_upd [simp]:
  "clean (r\<lparr>rd_prev := p\<rparr>) = clean r" "clean (r\<lparr>rd_list := l\<rparr>) = clean r" "clean (rd_end r) = clean r"
  "clean (rd_put w r) = clean r"
  by (simp_all add: clean_def rd_put_def)

lemma rd_token:
  assumes "clean r" and "printable p [t]" and "p \<longrightarrow> rd_prev r \<and> rd_word r = []" and "written_as t ps"
  shows "\<exists>r'. rd_input (render t ps) r = r' \<and> clean r' \<and> rd_out r' = rd_out r \<and>
    rd_list (rd_end r') = rd_list (rd_end r) @ [t] \<and>
    (spec t \<noteq> SPEC_DEFAULT \<longrightarrow> rd_prev r' \<and> rd_word r' = [])"
proof (cases "spec t")
  case SPEC_DEFAULT
  let ?r = "(rd_end r)\<lparr>rd_prev := False\<rparr>"
  obtain q where q: "rd_input (concat (map (\<lambda>(q, w). quoted q w) ps)) ?r = (rd_put (word t) ?r)\<lparr>rd_prev := q\<rparr>"
    using rd_pieces[of ?r ps] assms(1,4) SPEC_DEFAULT by (auto simp: written_as_def)
  then have "rd_input (render t ps) r = (rd_put (word t) ?r)\<lparr>rd_prev := q\<rparr>"
    using rd_special_chars(1)[OF assms(1)] SPEC_DEFAULT by (simp add: render_def)
  moreover have "t = Tok (word t) SPEC_DEFAULT" by (rule token_eq) (simp_all add: SPEC_DEFAULT)
  moreover have "word t \<noteq> []" using assms(2) SPEC_DEFAULT by simp
  ultimately show ?thesis using assms(1) SPEC_DEFAULT
    by (simp add: rd_put_def rd_end_def clean_def)
next
  case SPEC_FIRST
  with assms(2) obtain c where c: "word t = [c]" "spec_symbol c" by auto
  let ?r = "(rd_end r)\<lparr>rd_prev := False\<rparr>"
  have cl: "clean ?r" using assms(1) by simp
  have t: "t = Tok [c] SPEC_FIRST" by (rule token_eq) (simp_all add: SPEC_FIRST c)
  have e: "rd_end ?r = ?r" by (simp add: rd_end_def)
  have "rd_input (render t ps) r = rd_char c ?r"
    using rd_special_chars(1)[OF assms(1)] by (simp add: render_def t)
  also have "\<dots> = ?r\<lparr>rd_list := rd_list ?r @ [t], rd_prev := True\<rparr>"
    using rd_special_chars(2)[OF cl c(2)] e by (simp add: t)
  finally show ?thesis using assms(1) by (simp add: SPEC_FIRST) (simp add: rd_end_def)
next
  case SPEC_SECOND
  with assms(2,3) obtain c where c: "word t = [c]" "spec_symbol c" and r: "rd_prev r" "rd_word r = []" by auto
  have t: "t = Tok [c] SPEC_SECOND" by (rule token_eq) (simp_all add: SPEC_SECOND c)
  have e: "rd_end r = r" using r by (simp add: rd_end_def)
  have "rd_input (render t ps) r = rd_char c r" by (simp add: render_def t)
  also have "\<dots> = r\<lparr>rd_list := rd_list r @ [t], rd_prev := True\<rparr>"
    using rd_special_chars(2)[OF assms(1) c(2)] e r by (simp add: t)
  finally show ?thesis using assms(1) e r by (simp add: SPEC_SECOND) (simp add: rd_end_def)
qed

definition render_line :: "token list \<Rightarrow> pieces list \<Rightarrow> string" where
  "render_line ts pss = concat (map (\<lambda>(t, ps). render t ps) (zip ts pss))"

lemma rd_tokens:
  assumes "list_all2 written_as ts pss" and "clean r" and "printable p ts" and "p \<longrightarrow> rd_prev r \<and> rd_word r = []"
  shows "\<exists>r'. rd_input (render_line ts pss) r = r' \<and> clean r' \<and> rd_out r' = rd_out r \<and>
    rd_list (rd_end r') = rd_list (rd_end r) @ ts"
  using assms
proof (induction ts pss arbitrary: p r rule: list_all2_induct)
  case (Cons t ts ps pss)
  have t: "printable p [t]" using Cons.prems(2) by (cases "spec t") auto
  have ts: "printable (spec t \<noteq> SPEC_DEFAULT) ts" using Cons.prems(2) by (cases "spec t") auto
  obtain r' where r': "rd_input (render t ps) r = r'" "clean r'" "rd_out r' = rd_out r"
    "rd_list (rd_end r') = rd_list (rd_end r) @ [t]"
    "spec t \<noteq> SPEC_DEFAULT \<longrightarrow> rd_prev r' \<and> rd_word r' = []"
    using rd_token[OF Cons.prems(1) t Cons.prems(3) Cons.hyps(1)] by blast
  with Cons.IH[OF r'(2) ts r'(5)] show ?case by (auto simp: rd_input_append render_line_def)
qed (simp add: render_line_def)

lemma strip_printable: "printable p ts \<Longrightarrow> strip_comment ts = ts"
proof -
  have hd: "first_char (word t) \<noteq> CHR ''#''" if "printable p (t # ts)" for p t ts
    using that by (cases "spec t") (auto simp: first_char_def hd_append spec_symbol_def)
  have tl: "\<exists>p. printable p ts" if "printable p (t # ts)" for p t ts
    using that by (cases "spec t") auto
  have strip: "strip_from ts = ts" if "printable p ts" for p
    using that
  proof (induction ts arbitrary: p rule: strip_from.induct)
    case (3 t u ts)
    from tl[OF 3(2)] obtain q where "printable q (u # ts)" by blast
    with 3(1) hd show ?case by auto
  qed simp_all
  show "printable p ts \<Longrightarrow> strip_comment ts = ts"
    using hd strip by (cases ts) (auto simp: strip_comment_def)
qed

text \<open>What the executed lines are made of.\<close>

fun operators_ok :: "bool \<Rightarrow> token list \<Rightarrow> bool" where
  "operators_ok prev [] = True"
| "operators_ok prev (t # ts) = (case spec t of
      SPEC_DEFAULT \<Rightarrow> word t \<noteq> [] \<and> operators_ok False ts
    | SPEC_FIRST \<Rightarrow> (\<exists>c. word t = [c] \<and> spec_symbol c) \<and> operators_ok True ts
    | SPEC_SECOND \<Rightarrow> prev \<and> (\<exists>c. word t = [c] \<and> spec_symbol c) \<and> operators_ok True ts)"

fun ends_spec :: "bool \<Rightarrow> token list \<Rightarrow> bool" where
  "ends_spec p [] = p"
| "ends_spec p (t # ts) = ends_spec (spec t \<noteq> SPEC_DEFAULT) ts"

lemma operators_ok_append:
  "operators_ok p (ts @ us) \<longleftrightarrow> operators_ok p ts \<and> operators_ok (ends_spec p ts) us"
  by (induction ts arbitrary: p) (auto split: spec_value.splits)

definition lines_ok :: "reader \<Rightarrow> bool" where
  "lines_ok r \<longleftrightarrow> operators_ok False (rd_list r) \<and>
     (rd_prev r \<longrightarrow> clean r \<and> rd_word r = [] \<and> ends_spec False (rd_list r)) \<and>
     (\<forall>l \<in> set (rd_out r). l \<noteq> [] \<and> operators_ok False l)"

lemma strip_from_prefix: "\<exists>us. ts = strip_from ts @ us"
  by (induction ts rule: strip_from.induct) auto

lemma strip_comment_prefix: "\<exists>us. ts = strip_comment ts @ us"
  using strip_from_prefix by (auto simp: strip_comment_def split: list.splits)

lemma ends_spec_snoc [simp]: "ends_spec p (ts @ [t]) = (spec t \<noteq> SPEC_DEFAULT)"
  by (induction ts arbitrary: p) simp_all

lemma rd_end_lines_ok:
  assumes "lines_ok r"
  shows "operators_ok False (rd_list (rd_end r))" "rd_prev r \<Longrightarrow> ends_spec False (rd_list (rd_end r))"
    "\<forall>l \<in> set (rd_out r). l \<noteq> [] \<and> operators_ok False l"
  using assms by (auto simp: lines_ok_def rd_end_def operators_ok_append)

lemma rd_special_lines_ok:
  assumes ok: "lines_ok r" and ne: "\<not> rd_esc r"
  shows "lines_ok (rd_special c r)"
proof -
  note e = rd_end_lines_ok[OF ok]
  consider "rd_sq r \<or> rd_dq r" | "\<not> (rd_sq r \<or> rd_dq r)" "spec_symbol c"
    | "\<not> (rd_sq r \<or> rd_dq r)" "\<not> spec_symbol c" "c = nl"
    | "\<not> (rd_sq r \<or> rd_dq r)" "\<not> spec_symbol c" "c \<noteq> nl" by blast
  then show ?thesis
  proof cases
    case 1
    with ok show ?thesis by (auto simp: rd_special_def rd_put_def lines_ok_def clean_def)
  next
    case 2
    show ?thesis
    proof (cases "rd_prev r")
      case True
      with e 2 ok show ?thesis
        by (simp add: rd_special_def lines_ok_def operators_ok_append)
    next
      case False
      with e 2 ne show ?thesis
        by (simp_all add: rd_special_def lines_ok_def operators_ok_append clean_def)
    qed
  next
    case 3
    obtain us where "rd_list (rd_end r) = strip_comment (rd_list (rd_end r)) @ us"
      using strip_comment_prefix by blast
    with e(1) have "operators_ok False (strip_comment (rd_list (rd_end r)))"
      by (metis operators_ok_append)
    with 3 e(3) show ?thesis by (simp add: rd_special_def rd_line_def lines_ok_def Let_def)
  next
    case 4
    with e show ?thesis by (simp add: rd_special_def lines_ok_def)
  qed
qed

lemma rd_char_lines_ok:
  assumes ok: "lines_ok r"
  shows "lines_ok (rd_char c r)"
proof (cases "\<not> rd_esc r \<and> (c = CHR '' '' \<or> c = nl \<or> spec_symbol c)")
  case True
  with rd_special_lines_ok[OF ok] show ?thesis by (simp add: rd_char_special)
next
  case False
  have "\<not> rd_prev (rd_char c r) \<and> rd_list (rd_char c r) = rd_list r \<and> rd_out (rd_char c r) = rd_out r"
  proof (cases "rd_esc r")
    case True
    with ok have "\<not> rd_prev r" by (auto simp: lines_ok_def clean_def)
    with True show ?thesis by (simp add: rd_char_def rd_put_def)
  next
    case ne: False
    with False have "c \<noteq> CHR '' ''" "c \<noteq> nl" "\<not> spec_symbol c" by auto
    with ne show ?thesis by (simp add: rd_char_def rd_put_def)
  qed
  with ok show ?thesis by (simp add: lines_ok_def)
qed

lemma rd_input_lines_ok: "lines_ok r \<Longrightarrow> lines_ok (rd_input cs r)"
  by (induction cs arbitrary: r) (simp_all add: rd_char_lines_ok)

lemma lines_read_ok:
  assumes "lex_input cs lex_init = ret s" and "l \<in> set (lx_out s)"
  shows "l \<noteq> [] \<and> operators_ok False l"
proof -
  have "lines_ok rd_init" by (simp add: lines_ok_def rd_init_def)
  then have "lines_ok (rd_input cs rd_init)" by (rule rd_input_lines_ok)
  moreover have "reads s (rd_input cs rd_init)"
    using lex_input_reads[OF reads_init, of cs] assms(1) by (simp add: wp_def)
  ultimately show ?thesis using assms(2) by (auto simp: lines_ok_def reads_def)
qed

section \<open>Properties\<close>

text \<open>C13: the reader never writes outside its buffer, and on every input it behaves as the automaton
  without a buffer: the words, the operators and the lines handed to \<^verbatim>\<open>execute\<close> are the same.\<close>

theorem shell_reader_refines:
  "\<exists>s. lex_input cs lex_init = ret s \<and> buf_ok (lx_buf s) \<and>
     lx_out s = rd_out (rd_input cs rd_init) \<and> lx_list s = rd_list (rd_input cs rd_init) \<and>
     buf_content (lx_buf s) = rd_word (rd_input cs rd_init)"
proof -
  obtain s where "lex_input cs lex_init = ret s" "reads s (rd_input cs rd_init)"
    using lex_input_reads[OF reads_init, of cs] by (auto elim: wpE)
  then show ?thesis by (cases "rd_input cs rd_init") (auto simp: reads_def)
qed

text \<open>C14: every line that is executed is not empty; its words are not empty, an operator is one of the
  characters \<open>< > | &\<close>, and a second operator character directly follows another operator.\<close>

theorem shell_lines_well_formed:
  assumes "lex_input cs lex_init = ret s" and "l \<in> set (lx_out s)"
  shows "l \<noteq> [] \<and> operators_ok False l"
  by (rule lines_read_ok[OF assms])

theorem shell_lines_well_formed_witness:
  "\<exists>s. lex_input (''a|b'' @ [nl]) lex_init = ret s \<and> length (lx_out s) = 1 \<and> (\<forall>l \<in> set (lx_out s). l \<noteq> [] \<and> operators_ok False l)"
proof -
  obtain s where s: "lex_input (''a|b'' @ [nl]) lex_init = ret s" "reads s (rd_input (''a|b'' @ [nl]) rd_init)"
    using lex_input_reads[OF reads_init] by (rule wpE)
  have "length (rd_out (rd_input (''a|b'' @ [nl]) rd_init)) = 1" by code_simp
  with s shell_lines_well_formed[OF s(1)] show ?thesis by (auto simp: reads_def)
qed

text \<open>C15: a line of words and operators whose words are written in any mixture of bare pieces with
  backslashes, single quotes and double quotes is read back as the same words and operators, and
  nothing is left in the buffer. A line break can stand inside quotes only; words that start with
  \<open>#\<close> are excluded.\<close>

theorem shell_line_roundtrip:
  assumes "printable False ts" and "ts \<noteq> []" and "list_all2 written_as ts pss"
  shows "\<exists>s. lex_input (render_line ts pss @ [nl]) lex_init = ret s \<and> lx_out s = [ts] \<and>
    lx_list s = [] \<and> buf_content (lx_buf s) = []"
proof -
  have "clean rd_init" by (simp add: clean_def rd_init_def)
  from rd_tokens[OF assms(3) this assms(1)] obtain r' where r': "rd_input (render_line ts pss) rd_init = r'"
    "clean r'" "rd_out r' = []" "rd_list (rd_end r') = ts" by (auto simp: rd_init_def rd_end_def)
  have "rd_input (render_line ts pss @ [nl]) rd_init = (rd_line (rd_end r'))\<lparr>rd_prev := False\<rparr>"
    using r'(1) rd_special_chars(3)[OF r'(2)] by (simp add: rd_input_append)
  moreover have "rd_out (rd_line (rd_end r')) = [ts]" "rd_list (rd_line (rd_end r')) = []"
    "rd_word (rd_line (rd_end r')) = []"
    using r'(3,4) strip_printable[OF assms(1)] assms(2) by (simp_all add: rd_line_def Let_def)
  moreover obtain s where "lex_input (render_line ts pss @ [nl]) lex_init = ret s"
    "reads s (rd_input (render_line ts pss @ [nl]) rd_init)"
    using lex_input_reads[OF reads_init, of "render_line ts pss @ [nl]"] by (auto elim: wpE)
  ultimately show ?thesis using readsD by fastforce
qed

text \<open>A quoted word that starts with \<open>#\<close> is dropped as a comment, with all that follows it.\<close>

lemma quoted_hash_is_comment:
  "rd_out (rd_input (''echo '' @ [CHR 0x22] @ ''#x'' @ [CHR 0x22] @ '' y'' @ [nl]) rd_init) =
     [[Tok ''echo'' SPEC_DEFAULT]]"
  by code_simp

text \<open>The line \<open>ls || a" \" "\ b'&'\<close>: one word in four pieces.\<close>

definition sample_line :: "token list" where
  "sample_line = [Tok ''ls'' SPEC_DEFAULT, Tok ''|'' SPEC_FIRST, Tok ''|'' SPEC_SECOND,
     Tok (''a '' @ [CHR 0x22] @ ''  b&'') SPEC_DEFAULT]"

definition sample_pieces :: "pieces list" where
  "sample_pieces = [[(Bare, ''ls'')], [], [],
     [(Bare, ''a''), (Double, '' '' @ [CHR 0x22] @ '' ''), (Bare, '' b''), (Single, ''&'')]]"

theorem shell_line_roundtrip_witness:
  "render_line sample_line sample_pieces =
     '' ls || a'' @ [CHR 0x22] @ '' '' @ [CHR 0x5C, CHR 0x22] @ '' '' @ [CHR 0x22, CHR 0x5C] @ '' b'' @ [quote_s] @ ''&'' @ [quote_s] \<and>
   (\<exists>s. lex_input (render_line sample_line sample_pieces @ [nl]) lex_init = ret s \<and> lx_out s = [sample_line])"
proof
  show "render_line sample_line sample_pieces =
     '' ls || a'' @ [CHR 0x22] @ '' '' @ [CHR 0x5C, CHR 0x22] @ '' '' @ [CHR 0x22, CHR 0x5C] @ '' b'' @ [quote_s] @ ''&'' @ [quote_s]"
    by code_simp
  show "\<exists>s. lex_input (render_line sample_line sample_pieces @ [nl]) lex_init = ret s \<and> lx_out s = [sample_line]"
    using shell_line_roundtrip[of sample_line sample_pieces]
    by (auto simp: sample_line_def sample_pieces_def written_as_def nl_def quote_s_def spec_symbol_def)
qed

end
