(* ===== verification/Shell_Logic.thy ===== *)
theory Shell_Logic
  imports Shell_Lexer
begin

text \<open>
  The command lines of \<^verbatim>\<open>2/shell.c\<close>: splitting at \<open>||\<close>, \<open>&&\<close> and \<open>|\<close>, and the evaluation of
  \<open>||\<close> and \<open>&&\<close> in \<^verbatim>\<open>execute_logic\<close>. A list of words is the Isabelle list of its tokens: cutting
  it at an operator returns the part before, which the C code ends with NULL, and the tail.
  \<open>execute_logic\<close> takes the function that runs a pipeline as an argument.
\<close>

section \<open>Splitting\<close>

datatype logic_value = LOGIC_LAST | LOGIC_AND | LOGIC_OR | LOGIC_EMPTY

datatype pipe_value = PIPE_EMPTY | PIPE_LAST | PIPE_DEFAULT

definition op_at :: "token \<Rightarrow> string \<Rightarrow> spec_value \<Rightarrow> bool" where
  "op_at t w k \<longleftrightarrow> word_is t w \<and> spec t = k"

definition check_or :: "token list \<Rightarrow> bool" where
  "check_or p = (case p of t # u # _ \<Rightarrow> op_at t ''|'' SPEC_FIRST \<and> op_at u ''|'' SPEC_SECOND | _ \<Rightarrow> False)"

definition check_and :: "token list \<Rightarrow> bool" where
  "check_and p = (case p of t # u # _ \<Rightarrow> op_at t ''&'' SPEC_FIRST \<and> op_at u ''&'' SPEC_SECOND | _ \<Rightarrow> False)"

definition check_pipe :: "token list \<Rightarrow> bool" where
  "check_pipe p = (case p of t # _ \<Rightarrow> op_at t ''|'' SPEC_FIRST | [] \<Rightarrow> False)"

fun split_logic :: "token list \<Rightarrow> logic_value \<times> token list \<times> token list" where
  "split_logic [] = (LOGIC_EMPTY, [], [])"
| "split_logic [h] = (LOGIC_LAST, [h], [])"
| "split_logic (h # t # p) =
     (if check_or (t # p) then (LOGIC_OR, [h], drop 1 p)
      else if check_and (t # p) then (LOGIC_AND, [h], drop 1 p)
      else let (l, head, tail) = split_logic (t # p) in (l, h # head, tail))"

fun split_pipeline :: "token list \<Rightarrow> pipe_value \<times> token list \<times> token list" where
  "split_pipeline [] = (PIPE_EMPTY, [], [])"
| "split_pipeline [h] = (PIPE_LAST, [h], [])"
| "split_pipeline (h # t # p) =
     (if check_pipe (t # p) then (PIPE_DEFAULT, [h], p)
      else let (l, head, tail) = split_pipeline (t # p) in (l, h # head, tail))"

lemma split_logic_tail: "split_logic p = (l, head, tail) \<Longrightarrow> p \<noteq> [] \<Longrightarrow> length tail < length p"
  by (induction p arbitrary: l head tail rule: split_logic.induct)
    (fastforce split: if_splits prod.splits)+

lemma split_logic_empty: "split_logic p = (l, head, tail) \<Longrightarrow> l = LOGIC_EMPTY \<longleftrightarrow> p = []"
  by (induction p arbitrary: l head tail rule: split_logic.induct)
    (auto split: if_splits prod.splits)

lemma split_logic_last: "split_logic p = (LOGIC_LAST, head, tail) \<Longrightarrow> tail = []"
  by (induction p arbitrary: head tail rule: split_logic.induct)
    (auto split: if_splits prod.splits)

lemma split_pipeline_tail: "split_pipeline p = (l, head, tail) \<Longrightarrow> p \<noteq> [] \<Longrightarrow> length tail < length p"
  by (induction p arbitrary: l head tail rule: split_pipeline.induct)
    (fastforce split: if_splits prod.splits)+

lemma split_pipeline_empty: "split_pipeline p = (l, head, tail) \<Longrightarrow> l = PIPE_EMPTY \<longleftrightarrow> p = []"
  by (induction p arbitrary: l head tail rule: split_pipeline.induct)
    (auto split: if_splits prod.splits)

lemma split_pipeline_last: "split_pipeline p = (PIPE_LAST, head, tail) \<Longrightarrow> tail = [] \<and> head = p"
  by (induction p arbitrary: head tail rule: split_pipeline.induct)
    (auto split: if_splits prod.splits)

lemma split_pipeline_head: "split_pipeline p = (l, head, tail) \<Longrightarrow> p \<noteq> [] \<Longrightarrow> head \<noteq> []"
  by (induction p arbitrary: l head tail rule: split_pipeline.induct)
    (auto split: if_splits prod.splits)

section \<open>Evaluation\<close>

text \<open>The two inner loops of \<^verbatim>\<open>execute_logic\<close>: skip commands until an operator \<open>stop\<close>.\<close>

function skip_logic :: "logic_value \<Rightarrow> logic_value \<Rightarrow> token list \<Rightarrow> logic_value \<times> token list" where
  "skip_logic stop l tail =
     (if l = LOGIC_EMPTY \<or> l = stop then (l, tail)
      else let (l', _, tail') = split_logic tail in skip_logic stop l' tail')"
  by pat_completeness auto
termination
proof (relation "measure (\<lambda>(_, l, tail). if l = LOGIC_EMPTY then 0 else Suc (length tail))", goal_cases)
  case (2 stop l tail q l' q' head tail')
  then show ?case
    using split_logic_tail[of tail l' head tail'] split_logic_empty[of tail l' head tail']
    by (cases "tail = []") auto
qed simp

declare skip_logic.simps [simp del]

function logic_loop :: "(token list \<Rightarrow> 's \<Rightarrow> int \<times> 's) \<Rightarrow> token list \<Rightarrow> int \<Rightarrow> 's \<Rightarrow> int \<times> 's" where
  "logic_loop pipeline p exit_code s =
     (let (l, head, tail) = split_logic p in
      if l = LOGIC_EMPTY then (exit_code, s)
      else let (exit_code, s) = pipeline head s in
        if l = LOGIC_LAST then (exit_code, s)
        else let tail = (if l = LOGIC_OR \<and> exit_code = 0 then snd (skip_logic LOGIC_AND l tail)
            else if l = LOGIC_AND \<and> exit_code \<noteq> 0 then snd (skip_logic LOGIC_OR l tail)
            else tail)
          in logic_loop pipeline tail exit_code s)"
  by pat_completeness auto

lemma skip_logic_shorter: "length (snd (skip_logic stop l tail)) \<le> length tail"
proof (induction stop l tail rule: skip_logic.induct)
  case (1 stop l tail)
  show ?case
  proof (cases "l = LOGIC_EMPTY \<or> l = stop")
    case True
    then show ?thesis by (subst skip_logic.simps) simp
  next
    case False
    obtain l' head tail' where s: "split_logic tail = (l', head, tail')" by (cases "split_logic tail") auto
    have "length tail' \<le> length tail"
      using split_logic_tail[OF s] s by (cases "tail = []") auto
    with 1[OF False s[symmetric] refl] False s show ?thesis by (subst skip_logic.simps) simp
  qed
qed

termination logic_loop
proof (relation "measure (\<lambda>(_, p, _). length p)", goal_cases)
  case (2 pipeline p exit_code s q l q' head tail q'' code' s' tail')
  then have "p \<noteq> []" using split_logic_empty by fastforce
  with 2 have "length tail < length p" using split_logic_tail by metis
  with 2 skip_logic_shorter[of LOGIC_AND l tail] skip_logic_shorter[of LOGIC_OR l tail]
  show ?case by (auto split: if_splits)
qed simp

declare logic_loop.simps [simp del]

definition execute_logic :: "(token list \<Rightarrow> 's \<Rightarrow> int \<times> 's) \<Rightarrow> token list \<Rightarrow> 's \<Rightarrow> int \<times> 's" where
  "execute_logic pipeline p s = logic_loop pipeline p 0 s"

section \<open>The meaning of a line\<close>

text \<open>
  The specification reads the words from left to right and does not use the functions above. The
  words of a command are collected until \<open>||\<close>, a first \<open>|\<close> and a second one, or \<open>&&\<close>, a first \<open>&\<close> and
  a second one; an operator with no command before it is a word. Every command is listed with the
  operator after it. Then the commands run from left to right; \<open>&&\<close> runs the next command when the
  status so far is 0, \<open>||\<close> when it is not.
\<close>

fun commands :: "token list \<Rightarrow> token list \<Rightarrow> (token list \<times> logic_value) list" where
  "commands cmd [] = (if cmd = [] then [] else [(cmd, LOGIC_LAST)])"
| "commands cmd [t] = [(cmd @ [t], LOGIC_LAST)]"
| "commands cmd (t # u # ts) =
     (if cmd \<noteq> [] \<and> op_at t ''|'' SPEC_FIRST \<and> op_at u ''|'' SPEC_SECOND then (cmd, LOGIC_OR) # commands [] ts
      else if cmd \<noteq> [] \<and> op_at t ''&'' SPEC_FIRST \<and> op_at u ''&'' SPEC_SECOND then (cmd, LOGIC_AND) # commands [] ts
      else commands (cmd @ [t]) (u # ts))"

definition parse_logic :: "token list \<Rightarrow> (token list \<times> logic_value) list" where
  "parse_logic p = commands [] p"

lemma commands_split:
  "split_logic (h # ts) = (l, head, tail) \<Longrightarrow> commands (cmd @ [h]) ts = (cmd @ head, l) # commands [] tail"
proof (induction ts arbitrary: cmd h l head tail)
  case (Cons t ts)
  show ?case
  proof (cases ts)
    case Nil
    with Cons.prems show ?thesis by (auto simp: check_or_def check_and_def)
  next
    case (Cons u us)
    consider (oror) "check_or (t # ts)" | (andand) "\<not> check_or (t # ts)" "check_and (t # ts)"
      | (other) "\<not> check_or (t # ts)" "\<not> check_and (t # ts)" by blast
    then show ?thesis
    proof cases
      case other
      obtain l' head' tail' where s: "split_logic (t # ts) = (l', head', tail')" by (cases "split_logic (t # ts)") auto
      with other Cons.prems have e: "l' = l" "h # head' = head" "tail' = tail" by auto
      have "commands (cmd @ [h]) (t # ts) = commands ((cmd @ [h]) @ [t]) ts"
        using other Cons by (auto simp: check_or_def check_and_def)
      also have "\<dots> = ((cmd @ [h]) @ head', l') # commands [] tail'" by (rule Cons.IH[OF s])
      finally show ?thesis using e by simp
    qed (use Cons Cons.prems in \<open>auto simp: check_or_def check_and_def\<close>)
  qed
qed auto

lemma parse_logic_split:
  "parse_logic p = (let (l, head, tail) = split_logic p in
     if l = LOGIC_EMPTY then [] else (head, l) # parse_logic tail)"
proof (cases p)
  case (Cons h ts)
  obtain l head tail where s: "split_logic p = (l, head, tail)" by (cases "split_logic p") auto
  have "commands [] p = commands ([] @ [h]) ts"
    using Cons by (cases ts) auto
  with s Cons commands_split[of h ts l head tail "[]"] split_logic_empty[OF s] show ?thesis
    by (simp add: parse_logic_def)
qed (simp add: parse_logic_def)

lemma parse_logic_Nil [simp]: "parse_logic [] = []"
  by (simp add: parse_logic_def)

fun short_circuit :: "(token list \<Rightarrow> 's \<Rightarrow> int \<times> 's) \<Rightarrow> logic_value \<Rightarrow>
    (token list \<times> logic_value) list \<Rightarrow> int \<Rightarrow> 's \<Rightarrow> int \<times> 's" where
  "short_circuit pipeline before [] code s = (code, s)"
| "short_circuit pipeline before ((cmd, after) # cmds) code s =
     (if before = LOGIC_AND \<and> code \<noteq> 0 \<or> before = LOGIC_OR \<and> code = 0
      then short_circuit pipeline after cmds code s
      else let (code, s) = pipeline cmd s in short_circuit pipeline after cmds code s)"

lemma short_circuit_run:
  "\<not> (before = LOGIC_AND \<and> code \<noteq> 0 \<or> before = LOGIC_OR \<and> code = 0) \<Longrightarrow>
     short_circuit pipeline before cmds code s = short_circuit pipeline LOGIC_LAST cmds code s"
  by (cases cmds) auto

lemma skip_logic_spec:
  assumes "stop = LOGIC_AND \<and> code = 0 \<and> l \<noteq> LOGIC_AND \<and> before = LOGIC_OR \<or>
      stop = LOGIC_OR \<and> code \<noteq> 0 \<and> l \<noteq> LOGIC_OR \<and> before = LOGIC_AND"
    and "l = LOGIC_LAST \<or> l = LOGIC_EMPTY \<longrightarrow> tail = []"
  shows "short_circuit pipeline before (parse_logic tail) code s =
    short_circuit pipeline LOGIC_LAST (parse_logic (snd (skip_logic stop l tail))) code s"
  using assms
proof (induction stop l tail rule: skip_logic.induct)
  case (1 stop l tail)
  show ?case
  proof (cases "l = LOGIC_EMPTY")
    case True
    with 1(3) show ?thesis by (simp add: skip_logic.simps)
  next
    case False
    obtain l' head tail' where s: "split_logic tail = (l', head, tail')" by (cases "split_logic tail") auto
    have ns: "\<not> (l = LOGIC_EMPTY \<or> l = stop)" using False 1(2) by auto
    then have sk: "skip_logic stop l tail = skip_logic stop l' tail'"
      using s by (subst skip_logic.simps) simp
    show ?thesis
    proof (cases "l' = LOGIC_EMPTY")
      case True
      then have "tail = []" using split_logic_empty[OF s] by simp
      with s True sk show ?thesis by (simp add: skip_logic.simps)
    next
      case ne: False
      have par: "parse_logic tail = (head, l') # parse_logic tail'"
        using s ne by (subst parse_logic_split) simp
      have end': "l' = LOGIC_LAST \<or> l' = LOGIC_EMPTY \<longrightarrow> tail' = []"
        using s ne split_logic_last by auto
      have step: "short_circuit pipeline before (parse_logic tail) code s =
          short_circuit pipeline l' (parse_logic tail') code s"
        using 1(2) par by auto
      show ?thesis
      proof (cases "l' = stop")
        case True
        then have "skip_logic stop l' tail' = (l', tail')" by (simp add: skip_logic.simps)
        moreover have "short_circuit pipeline l' (parse_logic tail') code s =
            short_circuit pipeline LOGIC_LAST (parse_logic tail') code s"
          using True 1(2) by (intro short_circuit_run) auto
        ultimately show ?thesis using step sk by simp
      next
        case False
        have "short_circuit pipeline before (parse_logic tail') code s =
            short_circuit pipeline LOGIC_LAST (parse_logic (snd (skip_logic stop l' tail'))) code s"
          using 1(1)[OF ns s[symmetric] refl] False 1(2) end' by auto
        moreover have "short_circuit pipeline l' (parse_logic tail') code s =
            short_circuit pipeline before (parse_logic tail') code s"
          using False 1(2) end' ne by (cases l') auto
        ultimately show ?thesis using step sk by simp
      qed
    qed
  qed
qed

lemma logic_loop_spec:
  "logic_loop pipeline p code s = short_circuit pipeline LOGIC_LAST (parse_logic p) code s"
proof (induction pipeline p code s rule: logic_loop.induct)
  case (1 pipeline p code s)
  obtain l head tail where sp: "split_logic p = (l, head, tail)" by (cases "split_logic p") auto
  obtain code' s' where pl: "pipeline head s = (code', s')" by fastforce
  show ?case
  proof (cases "l = LOGIC_EMPTY")
    case True
    with sp show ?thesis by (simp add: logic_loop.simps parse_logic_split[of p])
  next
    case ne: False
    then have par: "parse_logic p = (head, l) # parse_logic tail" using sp by (subst parse_logic_split) simp
    then have rhs: "short_circuit pipeline LOGIC_LAST (parse_logic p) code s =
        short_circuit pipeline l (parse_logic tail) code' s'" using pl by simp
    show ?thesis
    proof (cases "l = LOGIC_LAST")
      case True
      with sp split_logic_last have "tail = []" by blast
      with True sp pl rhs show ?thesis by (simp add: logic_loop.simps)
    next
      case False
      let ?tail = "if l = LOGIC_OR \<and> code' = 0 then snd (skip_logic LOGIC_AND l tail)
            else if l = LOGIC_AND \<and> code' \<noteq> 0 then snd (skip_logic LOGIC_OR l tail) else tail"
      have "logic_loop pipeline p code s = logic_loop pipeline ?tail code' s'"
        using sp pl ne False by (subst logic_loop.simps) (simp add: Let_def)
      also have "\<dots> = short_circuit pipeline LOGIC_LAST (parse_logic ?tail) code' s'"
        by (rule 1[OF sp[symmetric] refl refl ne pl[symmetric] refl False refl])
      also have "\<dots> = short_circuit pipeline l (parse_logic tail) code' s'"
        using skip_logic_spec[of LOGIC_AND code' l LOGIC_OR tail pipeline s']
          skip_logic_spec[of LOGIC_OR code' l LOGIC_AND tail pipeline s']
          short_circuit_run[of l code' pipeline "parse_logic tail" s'] ne False by auto
      finally show ?thesis using rhs by simp
    qed
  qed
qed

text \<open>C16: \<^verbatim>\<open>execute_logic\<close> runs the commands that stand between the operators \<open>&&\<close> and \<open>||\<close> of the line from
  left to right with short circuit, with the same effects and the same exit code, whatever the
  pipelines do.\<close>

theorem execute_logic_short_circuits:
  "execute_logic pipeline p s = short_circuit pipeline LOGIC_LAST (parse_logic p) 0 s"
  by (simp add: execute_logic_def logic_loop_spec)

text \<open>The line \<open>no && a || b && c\<close>, where only \<open>no\<close> fails: \<open>b\<close> and \<open>c\<close> run after it.\<close>

definition sample_logic :: "token list" where
  "sample_logic = [Tok ''no'' SPEC_DEFAULT, Tok ''&'' SPEC_FIRST, Tok ''&'' SPEC_SECOND, Tok ''a'' SPEC_DEFAULT,
     Tok ''|'' SPEC_FIRST, Tok ''|'' SPEC_SECOND, Tok ''b'' SPEC_DEFAULT,
     Tok ''&'' SPEC_FIRST, Tok ''&'' SPEC_SECOND, Tok ''c'' SPEC_DEFAULT]"

theorem execute_logic_short_circuits_witness:
  "execute_logic (\<lambda>cmd ran. (if map word cmd = [''no''] then 1 else 0, ran @ map word cmd)) sample_logic [] =
     (0, [''no'', ''b'', ''c''])"
  unfolding execute_logic_short_circuits by code_simp

end
