(* ===== verification/Shell_Exec.thy ===== *)
theory Shell_Exec
  imports Shell_Logic C_Text "HOL-Library.Sublist"
begin

text \<open>
  Running commands in \<^verbatim>\<open>2/shell.c\<close>: the descriptor tables of the parent and of the children of a
  pipeline, the redirections, the built-ins and the exit codes. A descriptor table is a list of
  open objects; a new descriptor takes the lowest free index, as POSIX requires. What the
  started programs do is outside the model: a child ends as \<open>Execs\<close> its program with its table,
  or as \<open>Exits\<close> in the built-in \<^verbatim>\<open>exit\<close>.
\<close>

section \<open>Descriptor tables\<close>

datatype open_mode = M_append | M_trunc | M_read

datatype fobj = Std nat | PipeR nat | PipeW nat | Opened string open_mode | Socket nat

type_synonym fds = "fobj option list"

definition fd_at :: "fds \<Rightarrow> int \<Rightarrow> fobj option" where
  "fd_at T i = (if 0 \<le> i \<and> i < int (length T) then T ! nat i else None)"

fun first_free :: "fds \<Rightarrow> nat" where
  "first_free [] = 0"
| "first_free (x # T) = (if x = None then 0 else Suc (first_free T))"

definition set_fd :: "nat \<Rightarrow> fobj \<Rightarrow> fds \<Rightarrow> fds" where
  "set_fd i f T = (if i < length T then T[i := Some f] else T @ replicate (i - length T) None @ [Some f])"

definition sys_alloc :: "fobj \<Rightarrow> fds \<Rightarrow> int \<times> fds" where
  "sys_alloc f T = (int (first_free T), set_fd (first_free T) f T)"

definition sys_close :: "int \<Rightarrow> fds \<Rightarrow> fds" where
  "sys_close i T = (if 0 \<le> i then T[nat i := None] else T)"

definition sys_dup2 :: "int \<Rightarrow> nat \<Rightarrow> fds \<Rightarrow> fds" where
  "sys_dup2 i j T = (case fd_at T i of None \<Rightarrow> T | Some f \<Rightarrow> if i = int j then T else set_fd j f T)"

definition sys_pipe :: "nat \<Rightarrow> fds \<Rightarrow> int \<times> int \<times> fds" where
  "sys_pipe n T = (let (r, T) = sys_alloc (PipeR n) T; (w, T) = sys_alloc (PipeW n) T in (r, w, T))"

definition sys_open :: "(string \<Rightarrow> open_mode \<Rightarrow> bool) \<Rightarrow> string \<Rightarrow> open_mode \<Rightarrow> fds \<Rightarrow> int \<times> fds" where
  "sys_open openable name m T = (if openable name m then sys_alloc (Opened name m) T else (- 1, T))"

lemma fd_at_set [simp]: "fd_at (set_fd j f T) i = (if i = int j then Some f else fd_at T i)"
proof -
  have "nat i = j \<longleftrightarrow> i = int j" if "0 \<le> i" using that by auto
  then show ?thesis by (auto simp: fd_at_def set_fd_def nth_append nth_list_update)
qed

lemma fd_at_close [simp]: "fd_at (sys_close j T) i = (if i = j then None else fd_at T i)"
proof -
  have "nat i = nat j \<longleftrightarrow> i = j" if "0 \<le> i" "0 \<le> j" using that by auto
  then show ?thesis by (auto simp: fd_at_def sys_close_def nth_list_update)
qed

lemma fd_at_dup2 [simp]:
  "fd_at (sys_dup2 i j T) k = (if k = int j \<and> fd_at T i \<noteq> None then fd_at T i else fd_at T k)"
  by (auto simp: sys_dup2_def split: option.splits)

lemma first_free_free: "fd_at T (int (first_free T)) = None"
proof -
  have "first_free T < length T \<longrightarrow> T ! first_free T = None" by (induction T) auto
  then show ?thesis by (simp add: fd_at_def)
qed

section \<open>Pipelines\<close>

text \<open>The array \<^verbatim>\<open>fd[4]\<close>: the ends of the previous pipe and of the next one.\<close>

record pipe_fds =
  fd0 :: int
  fd1 :: int
  fd2 :: int
  fd3 :: int

definition dup_pipe :: "pipe_fds \<Rightarrow> fds \<Rightarrow> fds" where
  "dup_pipe fd T =
     (let T = (if fd0 fd \<noteq> - 1 then sys_close (fd0 fd) (sys_dup2 (fd0 fd) 0 T) else T)
      in if fd3 fd \<noteq> - 1 then sys_close (fd3 fd) (sys_dup2 (fd3 fd) 1 T) else T)"

definition close_pipe_fork :: "pipe_fds \<Rightarrow> fds \<Rightarrow> fds" where
  "close_pipe_fork fd T =
     (let T = (if fd1 fd \<noteq> - 1 then sys_close (fd1 fd) T else T)
      in if fd2 fd \<noteq> - 1 then sys_close (fd2 fd) T else T)"

definition prepare_fd :: "pipe_fds \<Rightarrow> fds \<Rightarrow> pipe_fds \<times> fds" where
  "prepare_fd fd T =
     (let T = (if fd0 fd \<noteq> - 1 then sys_close (fd0 fd) T else T);
          T = (if fd1 fd \<noteq> - 1 then sys_close (fd1 fd) T else T)
      in (\<lparr>fd0 = fd2 fd, fd1 = fd3 fd, fd2 = - 1, fd3 = - 1\<rparr>, T))"

section \<open>Redirections\<close>

definition check_append :: "token list \<Rightarrow> bool" where
  "check_append p = (case p of t # u # v # _ \<Rightarrow> op_at t ''>'' SPEC_FIRST \<and> op_at u ''>'' SPEC_SECOND \<and>
       spec v = SPEC_DEFAULT | _ \<Rightarrow> False)"

definition check_write :: "token list \<Rightarrow> bool" where
  "check_write p = (case p of t # u # _ \<Rightarrow> op_at t ''>'' SPEC_FIRST \<and> spec u = SPEC_DEFAULT | _ \<Rightarrow> False)"

definition check_read :: "token list \<Rightarrow> bool" where
  "check_read p = (case p of t # u # _ \<Rightarrow> op_at t ''<'' SPEC_FIRST \<and> spec u = SPEC_DEFAULT | _ \<Rightarrow> False)"

text \<open>\<open>redirect openable m target T\<close>: open the file, duplicate it onto \<open>target\<close>, close it.\<close>

definition redirect :: "(string \<Rightarrow> open_mode \<Rightarrow> bool) \<Rightarrow> open_mode \<Rightarrow> nat \<Rightarrow> string \<Rightarrow> fds \<Rightarrow> fds" where
  "redirect openable m target name T =
     (let (fd, T) = sys_open openable (c_str name) m T in sys_close fd (sys_dup2 fd target T))"

text \<open>The three tests of one turn of the loop, on what follows the current word.\<close>

definition open_turn :: "(string \<Rightarrow> open_mode \<Rightarrow> bool) \<Rightarrow> token list \<Rightarrow> fds \<Rightarrow> token list \<times> fds" where
  "open_turn openable p T =
     (let (p, T) = (if check_append p then (drop 3 p, redirect openable M_append 1 (word (p ! 2)) T) else (p, T));
          (p, T) = (if check_write p then (drop 2 p, redirect openable M_trunc 1 (word (p ! 1)) T) else (p, T))
      in if check_read p then (drop 2 p, redirect openable M_read 0 (word (p ! 1)) T) else (p, T))"

lemma open_turn_shorter: "length (fst (open_turn openable p T)) \<le> length p"
  by (auto simp: open_turn_def Let_def split: prod.splits)

function open_files :: "(string \<Rightarrow> open_mode \<Rightarrow> bool) \<Rightarrow> token list \<Rightarrow> fds \<Rightarrow> token list \<times> fds" where
  "open_files openable [] T = ([], T)"
| "open_files openable (h # p) T =
     (if p = [] then ([h], T)
      else let (q, T) = open_turn openable p T; (q, T) = open_files openable q T in (h # q, T))"
  by pat_completeness auto
termination
proof (relation "measure (\<lambda>(_, p, _). length p)", goal_cases)
  case (2 openable h p T x q T')
  with open_turn_shorter[of openable p T] show ?case by (cases "open_turn openable p T") simp
qed simp

declare open_files.simps(2) [simp del]

fun create_argv :: "token list \<Rightarrow> string list" where
  "create_argv [] = []"
| "create_argv (t # p) = c_str (word t) # create_argv p"

section \<open>Children\<close>

datatype child = Exits int | Execs "string list" fds

text \<open>What the child does between \<^verbatim>\<open>fork\<close> and \<^verbatim>\<open>execvp\<close>; an exit status is kept modulo 256.\<close>

definition finish_child :: "(string \<Rightarrow> open_mode \<Rightarrow> bool) \<Rightarrow> token list \<Rightarrow> fds \<Rightarrow> child" where
  "finish_child openable p T =
     (let (p, T) = open_files openable p T; argv = create_argv p
      in if argv ! 0 = ''exit'' then Exits ((if length argv > 1 then atoi (argv ! 1) else 0) mod 256)
         else Execs argv T)"

definition child_main :: "(string \<Rightarrow> open_mode \<Rightarrow> bool) \<Rightarrow> token list \<Rightarrow> pipe_fds \<Rightarrow> fds \<Rightarrow> child" where
  "child_main openable p fd T =
     (let T = dup_pipe fd T; T = close_pipe_fork fd T in finish_child openable p T)"

text \<open>The loop that starts the commands of a pipeline: the children in order, and the parent's table.\<close>

function spawn :: "(string \<Rightarrow> open_mode \<Rightarrow> bool) \<Rightarrow> token list \<Rightarrow> nat \<Rightarrow> pipe_fds \<Rightarrow> fds \<Rightarrow>
    child list \<times> pipe_fds \<times> fds" where
  "spawn openable p n fd T =
     (let (l, cmd, tail) = split_pipeline p in
      if l = PIPE_EMPTY then ([], fd, T)
      else let (fd, T) = (if l \<noteq> PIPE_LAST
             then let (r, w, T) = sys_pipe n T in (fd\<lparr>fd2 := r, fd3 := w\<rparr>, T) else (fd, T));
          c = child_main openable cmd fd T;
          (fd, T) = prepare_fd fd T;
          (cs, fd, T) = spawn openable tail (Suc n) fd T
        in (c # cs, fd, T))"
  by pat_completeness auto
termination
proof (relation "measure (\<lambda>(_, p, _). length p)", goal_cases)
  case (2 openable p n fd T q l q' cmd tail)
  then have "p \<noteq> []" using split_pipeline_empty by fastforce
  with 2 split_pipeline_tail[of p l cmd tail] show ?case by simp
qed simp

declare spawn.simps [simp del]

definition no_pipes :: pipe_fds where
  "no_pipes = \<lparr>fd0 = - 1, fd1 = - 1, fd2 = - 1, fd3 = - 1\<rparr>"

definition start_pipeline :: "(string \<Rightarrow> open_mode \<Rightarrow> bool) \<Rightarrow> token list \<Rightarrow> fds \<Rightarrow>
    child list \<times> pipe_fds \<times> fds" where
  "start_pipeline openable p T = spawn openable p 0 no_pipes T"

section \<open>Exit codes\<close>

unbundle bit_operations_syntax

text \<open>A status word of \<^verbatim>\<open>wait\<close>, read with the macros of \<^verbatim>\<open>sys/wait.h\<close>.\<close>

definition WIFEXITED :: "32 word \<Rightarrow> bool" where
  "WIFEXITED s \<longleftrightarrow> s AND 0x7F = 0"

definition WEXITSTATUS :: "32 word \<Rightarrow> int" where
  "WEXITSTATUS s = uint (drop_bit 8 (s AND 0xFF00))"

definition death_analys :: "32 word \<Rightarrow> int" where
  "death_analys s = (if WIFEXITED s then WEXITSTATUS s else 1)"

text \<open>The waiting loop: \<open>waits\<close> are the results of the calls of \<^verbatim>\<open>wait\<close>, in the order in which the
  children happen to end.\<close>

fun wait_loop :: "nat \<Rightarrow> nat \<Rightarrow> int \<Rightarrow> (nat \<times> 32 word) list \<Rightarrow> int" where
  "wait_loop 0 last_pid code waits = code"
| "wait_loop (Suc i) last_pid code [] = code"
| "wait_loop (Suc i) last_pid code ((pid, s) # waits) =
     wait_loop i last_pid (if pid = last_pid then (if WIFEXITED s then WEXITSTATUS s else 1) else code) waits"

text \<open>A pipeline: its exit code, its children and the table of the process that waits for them;
  \<open>pids i\<close> is the process id of child \<open>i\<close>.\<close>

definition execute_pipeline :: "(string \<Rightarrow> open_mode \<Rightarrow> bool) \<Rightarrow> (nat \<Rightarrow> nat) \<Rightarrow> (nat \<times> 32 word) list \<Rightarrow>
    token list \<Rightarrow> fds \<Rightarrow> int \<times> child list \<times> fds" where
  "execute_pipeline openable pids waits p T =
     (let (cs, fd, T) = start_pipeline openable p T
      in (wait_loop (length cs) (pids (length cs - 1)) 1 waits, cs, T))"

section \<open>A whole line\<close>

datatype action = Change_Dir "string option" | Run "token list" bool

definition check_block :: "token list \<Rightarrow> bool \<times> token list" where
  "check_block l = (if length l < 2 then (True, l)
     else if op_at (last l) ''&'' SPEC_FIRST then (False, butlast l) else (True, l))"

definition execute_cd :: "token list \<Rightarrow> action option" where
  "execute_cd p = (case p of t # q \<Rightarrow>
       if word_is t ''cd'' then Some (Change_Dir (case q of u # _ \<Rightarrow>
           if spec u = SPEC_DEFAULT then Some (c_str (word u)) else None | [] \<Rightarrow> None))
       else None | [] \<Rightarrow> None)"

definition execute :: "token list \<Rightarrow> action" where
  "execute l = (let (block, l) = check_block l in
     case execute_cd l of Some a \<Rightarrow> a | None \<Rightarrow> Run l block)"

section \<open>The plumbing of a pipeline\<close>

text \<open>The commands of a pipeline, and whether it ends with a command (and not with \<open>|\<close>).\<close>

function pipeline_commands :: "token list \<Rightarrow> token list list \<times> bool" where
  "pipeline_commands p = (let (l, cmd, tail) = split_pipeline p in
     if l = PIPE_EMPTY then ([], False) else if l = PIPE_LAST then ([cmd], True)
     else let (cs, closed) = pipeline_commands tail in (cmd # cs, closed))"
  by pat_completeness auto
termination
proof (relation "measure length", goal_cases)
  case (2 p q l q' cmd tail)
  then have "p \<noteq> []" using split_pipeline_empty by fastforce
  with 2 split_pipeline_tail[of p l cmd tail] show ?case by simp
qed simp

declare pipeline_commands.simps [simp del]

text \<open>The table of child \<open>i\<close>: the shell's, with the two ends of its pipes.\<close>

definition plumbed :: "fds \<Rightarrow> nat \<Rightarrow> bool \<Rightarrow> int \<Rightarrow> fobj option" where
  "plumbed T i final = (fd_at T)(0 := if i = 0 then fd_at T 0 else Some (PipeR (i - 1)),
     1 := if final then fd_at T 1 else Some (PipeW i))"

text \<open>Between two commands the parent holds both ends of the last pipe and nothing else.\<close>

definition holds :: "fds \<Rightarrow> nat \<Rightarrow> pipe_fds \<Rightarrow> fds \<Rightarrow> bool" where
  "holds T0 n fd T \<longleftrightarrow> fd2 fd = - 1 \<and> fd3 fd = - 1 \<and>
     (if n = 0 then fd0 fd = - 1 \<and> fd1 fd = - 1 \<and> fd_at T = fd_at T0
      else 1 < fd0 fd \<and> 1 < fd1 fd \<and> fd0 fd \<noteq> fd1 fd \<and> fd_at T0 (fd0 fd) = None \<and> fd_at T0 (fd1 fd) = None \<and>
        fd_at T = (fd_at T0)(fd0 fd := Some (PipeR (n - 1)), fd1 fd := Some (PipeW (n - 1))))"

lemma alloc_free:
  assumes "sys_alloc f T = (i, T')"
  shows "0 \<le> i" "fd_at T i = None" "fd_at T' = (fd_at T)(i := Some f)"
  using assms first_free_free[of T] by (auto simp: sys_alloc_def)

lemma pipe_free:
  assumes "sys_pipe n T = (r, w, T')"
  shows "0 \<le> r" "0 \<le> w" "r \<noteq> w" "fd_at T r = None" "fd_at T w = None"
    "fd_at T' = (fd_at T)(r := Some (PipeR n), w := Some (PipeW n))"
proof -
  obtain T1 where 1: "sys_alloc (PipeR n) T = (r, T1)" "sys_alloc (PipeW n) T1 = (w, T')"
    using assms by (auto simp: sys_pipe_def Let_def split: prod.splits)
  note a = alloc_free[OF 1(1)] and b = alloc_free[OF 1(2)]
  show "0 \<le> r" "0 \<le> w" "fd_at T r = None" by (rule a b)+
  show "r \<noteq> w" "fd_at T w = None" using a(3) b(2) by (auto split: if_splits)
  show "fd_at T' = (fd_at T)(r := Some (PipeR n), w := Some (PipeW n))" using a(3) b(3) by simp
qed

lemma child_table_last:
  assumes h: "holds T0 n fd T" and std: "fd_at T0 0 \<noteq> None" "fd_at T0 1 \<noteq> None"
  shows "fd_at (close_pipe_fork fd (dup_pipe fd T)) = plumbed T0 n True"
  using h std unfolding holds_def
  by (cases "n = 0") (auto simp: close_pipe_fork_def dup_pipe_def plumbed_def Let_def fun_eq_iff)

lemma child_table_mid:
  assumes h: "holds T0 n fd T" and std: "fd_at T0 0 \<noteq> None" "fd_at T0 1 \<noteq> None"
    and p: "sys_pipe n T = (r, w, T')"
  shows "fd_at (close_pipe_fork (fd\<lparr>fd2 := r, fd3 := w\<rparr>) (dup_pipe (fd\<lparr>fd2 := r, fd3 := w\<rparr>) T')) = plumbed T0 n False"
    and "\<exists>fd' T''. prepare_fd (fd\<lparr>fd2 := r, fd3 := w\<rparr>) T' = (fd', T'') \<and> holds T0 (Suc n) fd' T''"
proof -
  note f = pipe_free[OF p]
  have ge: "1 < r" "1 < w" and new: "fd_at T0 r = None" "fd_at T0 w = None"
    and apart: "n \<noteq> 0 \<longrightarrow> fd0 fd \<noteq> r \<and> fd0 fd \<noteq> w \<and> fd1 fd \<noteq> r \<and> fd1 fd \<noteq> w"
  proof -
    have free: "i \<noteq> 0 \<and> i \<noteq> 1 \<and> fd_at T0 i = None \<and> (n \<noteq> 0 \<longrightarrow> fd0 fd \<noteq> i \<and> fd1 fd \<noteq> i)"
      if "fd_at T i = None" for i
      using h std that unfolding holds_def by (cases "n = 0") (auto split: if_splits)
    from free[OF f(4)] free[OF f(5)] f(1,2)
    show "1 < r" "1 < w" "fd_at T0 r = None" "fd_at T0 w = None"
      "n \<noteq> 0 \<longrightarrow> fd0 fd \<noteq> r \<and> fd0 fd \<noteq> w \<and> fd1 fd \<noteq> r \<and> fd1 fd \<noteq> w" by linarith+
  qed
  show "fd_at (close_pipe_fork (fd\<lparr>fd2 := r, fd3 := w\<rparr>) (dup_pipe (fd\<lparr>fd2 := r, fd3 := w\<rparr>) T')) = plumbed T0 n False"
    using h std ge new apart f(3,6) unfolding holds_def
    by (cases "n = 0") (auto simp: close_pipe_fork_def dup_pipe_def plumbed_def Let_def fun_eq_iff)
  show "\<exists>fd' T''. prepare_fd (fd\<lparr>fd2 := r, fd3 := w\<rparr>) T' = (fd', T'') \<and> holds T0 (Suc n) fd' T''"
    using h std ge new apart f(3,6) unfolding holds_def
    by (cases "n = 0") (auto simp: prepare_fd_def Let_def fun_eq_iff)
qed

lemma spawn_plumbing:
  assumes "holds T0 n fd T" and std: "fd_at T0 0 \<noteq> None" "fd_at T0 1 \<noteq> None"
    and "pipeline_commands p = (cmds, True)"
  shows "\<exists>Ts T'. spawn openable p n fd T = (map2 (finish_child openable) cmds Ts, no_pipes, T') \<and>
    length Ts = length cmds \<and> fd_at T' = fd_at T0 \<and>
    (\<forall>i < length cmds. fd_at (Ts ! i) = plumbed T0 (n + i) (Suc i = length cmds))"
  using assms(1,4)
proof (induction p arbitrary: n fd T cmds rule: pipeline_commands.induct)
  case (1 p)
  obtain l cmd tail where sp: "split_pipeline p = (l, cmd, tail)" by (cases "split_pipeline p") auto
  have ne: "l \<noteq> PIPE_EMPTY" using 1(3) sp by (auto simp: pipeline_commands.simps[of p])
  show ?case
  proof (cases "l = PIPE_LAST")
    case True
    then have cmds: "cmds = [cmd]" and tail: "tail = []"
      using 1(3) sp split_pipeline_last by (auto simp: pipeline_commands.simps[of p])
    let ?Tc = "close_pipe_fork fd (dup_pipe fd T)"
    obtain fd' T' where pr: "prepare_fd fd T = (fd', T')" by fastforce
    have "fd' = no_pipes" "fd_at T' = fd_at T0"
      using pr 1(2) std unfolding holds_def
      by (cases "n = 0"; auto simp: prepare_fd_def no_pipes_def Let_def fun_eq_iff split: if_splits)+
    moreover have "spawn openable [] (Suc n) fd' T' = ([], fd', T')" by (simp add: spawn.simps)
    ultimately have "spawn openable p n fd T = ([finish_child openable cmd ?Tc], no_pipes, T')"
      using sp True tail pr by (subst spawn.simps) (simp add: child_main_def Let_def)
    with cmds child_table_last[OF 1(2) std] \<open>fd_at T' = fd_at T0\<close> show ?thesis
      by (intro exI[of _ "[?Tc]"] exI[of _ T']) simp
  next
    case False
    obtain cs where cs: "pipeline_commands tail = (cs, True)" "cmds = cmd # cs"
      using 1(3) sp ne False by (auto simp: pipeline_commands.simps[of p] split: prod.splits)
    obtain r w T1 where pp: "sys_pipe n T = (r, w, T1)" by (cases "sys_pipe n T") auto
    let ?fd = "fd\<lparr>fd2 := r, fd3 := w\<rparr>"
    let ?Tc = "close_pipe_fork ?fd (dup_pipe ?fd T1)"
    note mid = child_table_mid[OF 1(2) std pp]
    obtain fd' T2 where pr: "prepare_fd ?fd T1 = (fd', T2)" "holds T0 (Suc n) fd' T2" using mid(2) by blast
    obtain Ts T' where IH: "spawn openable tail (Suc n) fd' T2 = (map2 (finish_child openable) cs Ts, no_pipes, T')"
      "length Ts = length cs" "fd_at T' = fd_at T0"
      "\<forall>i < length cs. fd_at (Ts ! i) = plumbed T0 (Suc n + i) (Suc i = length cs)"
      using 1(1)[OF sp[symmetric] refl refl ne False pr(2) cs(1)] by blast
    have "cs \<noteq> []" using cs(1) by (subst (asm) pipeline_commands.simps) (auto split: prod.splits if_splits)
    have tab: "\<forall>i < length cmds. fd_at ((?Tc # Ts) ! i) = plumbed T0 (n + i) (Suc i = length cmds)"
    proof (intro allI impI)
      fix i assume "i < length cmds"
      with IH(4) mid(1) cs(2) \<open>cs \<noteq> []\<close>
      show "fd_at ((?Tc # Ts) ! i) = plumbed T0 (n + i) (Suc i = length cmds)" by (cases i) auto
    qed
    have "spawn openable p n fd T = (finish_child openable cmd ?Tc # map2 (finish_child openable) cs Ts, no_pipes, T')"
      using sp ne False pp pr(1) IH(1) by (subst spawn.simps) (simp add: child_main_def Let_def)
    with cs(2) IH(2,3) tab show ?thesis by (intro exI[of _ "?Tc # Ts"] exI[of _ T']) simp
  qed
qed

lemma spawn_dangling:
  assumes "holds T0 n fd T" and std: "fd_at T0 0 \<noteq> None" "fd_at T0 1 \<noteq> None"
    and "pipeline_commands p = (cmds, False)"
  shows "\<exists>cs fd' T'. spawn openable p n fd T = (cs, fd', T') \<and> length cs = length cmds \<and>
    holds T0 (n + length cmds) fd' T'"
  using assms(1,4)
proof (induction p arbitrary: n fd T cmds rule: pipeline_commands.induct)
  case (1 p)
  obtain l cmd tail where sp: "split_pipeline p = (l, cmd, tail)" by (cases "split_pipeline p") auto
  show ?case
  proof (cases "l = PIPE_EMPTY")
    case True
    then have "cmds = []" using 1(3) sp by (simp add: pipeline_commands.simps[of p])
    with True sp 1(2) show ?thesis by (simp add: spawn.simps[of _ p])
  next
    case ne: False
    then have last: "l \<noteq> PIPE_LAST" using 1(3) sp by (auto simp: pipeline_commands.simps[of p])
    obtain cs where cs: "pipeline_commands tail = (cs, False)" "cmds = cmd # cs"
      using 1(3) sp ne last by (auto simp: pipeline_commands.simps[of p] split: prod.splits)
    obtain r w T1 where pp: "sys_pipe n T = (r, w, T1)" by (cases "sys_pipe n T") auto
    obtain fd' T2 where pr: "prepare_fd (fd\<lparr>fd2 := r, fd3 := w\<rparr>) T1 = (fd', T2)" "holds T0 (Suc n) fd' T2"
      using child_table_mid(2)[OF 1(2) std pp] by blast
    from 1(1)[OF sp[symmetric] refl refl ne last pr(2) cs(1)] cs(2) sp ne last pp pr(1)
    show ?thesis by (subst spawn.simps) (auto simp: Let_def)
  qed
qed

lemma no_pipes_holds: "holds T 0 no_pipes T"
  by (simp add: holds_def no_pipes_def)

section \<open>Redirections change only the standard descriptors\<close>

lemma redirect_table:
  assumes "fd_at T 0 \<noteq> None" and "fd_at T 1 \<noteq> None" and "m = 0 \<or> m = 1"
  shows "fd_at (redirect openable k m nm T) =
    (if openable (c_str nm) k then (fd_at T)(int m := Some (Opened (c_str nm) k)) else fd_at T)"
proof (cases "openable (c_str nm) k")
  case True
  obtain i T' where a: "sys_alloc (Opened (c_str nm) k) T = (i, T')" by fastforce
  note f = alloc_free[OF a]
  have "i \<noteq> 0" "i \<noteq> 1" using f(2) assms by auto
  with True a f assms(3) show ?thesis
    by (auto simp: redirect_def sys_open_def Let_def fun_eq_iff)
next
  case False
  have "fd_at T (- 1) = None" by (simp add: fd_at_def)
  with False show ?thesis
    by (simp add: redirect_def sys_open_def sys_dup2_def sys_close_def)
qed

definition same_but_std :: "fds \<Rightarrow> fds \<Rightarrow> bool" where
  "same_but_std T T' \<longleftrightarrow> fd_at T' 0 \<noteq> None \<and> fd_at T' 1 \<noteq> None \<and>
     (\<forall>i. i \<noteq> 0 \<longrightarrow> i \<noteq> 1 \<longrightarrow> fd_at T' i = fd_at T i)"

lemma redirect_std:
  "same_but_std T T' \<Longrightarrow> m = 0 \<or> m = 1 \<Longrightarrow> same_but_std T (redirect openable k m nm T')"
  by (auto simp: same_but_std_def redirect_table)

lemma turn_step:
  assumes "same_but_std T T'" and "m = 0 \<or> m = 1"
    and "(if c then (drop j p, redirect openable k m nm T') else (p, T')) = (q, T2)"
  shows "\<exists>k. q = drop k p" "same_but_std T T2"
proof -
  have "\<exists>k. p = drop k p" by (rule exI[of _ 0]) simp
  with assms(3) show "\<exists>k. q = drop k p" by (cases c) auto
  show "same_but_std T T2" using assms redirect_std by (auto split: if_splits)
qed

lemma open_turn_std:
  assumes "same_but_std T T'" and "open_turn openable p T' = (q, T2)"
  shows "same_but_std T T2" "\<exists>k. q = drop k p"
proof -
  obtain p1 Ta where 1: "(if check_append p then (drop 3 p, redirect openable M_append 1 (word (p ! 2)) T')
      else (p, T')) = (p1, Ta)" by fastforce
  obtain p2 Tb where 2: "(if check_write p1 then (drop 2 p1, redirect openable M_trunc 1 (word (p1 ! 1)) Ta)
      else (p1, Ta)) = (p2, Tb)" by fastforce
  have 3: "(if check_read p2 then (drop 2 p2, redirect openable M_read 0 (word (p2 ! 1)) Tb)
      else (p2, Tb)) = (q, T2)"
    using assms(2) unfolding open_turn_def Let_def 1 case_prod_conv 2 .
  have a: "same_but_std T Ta" "\<exists>k. p1 = drop k p" using turn_step[OF assms(1) _ 1] by simp_all
  have b: "same_but_std T Tb" "\<exists>k. p2 = drop k p1" using turn_step[OF a(1) _ 2] by simp_all
  have c: "same_but_std T T2" "\<exists>k. q = drop k p2" using turn_step[OF b(1) _ 3] by simp_all
  show "same_but_std T T2" by (rule c)
  from a(2) b(2) c(2) show "\<exists>k. q = drop k p" by (auto simp: drop_drop)
qed

lemma subseq_drop: "subseq xs (drop k ys) \<Longrightarrow> subseq xs ys"
  by (metis append_take_drop_id list_emb_append2)

lemma open_files_std:
  "same_but_std T T' \<Longrightarrow> open_files openable p T' = (q, T'') \<Longrightarrow>
     same_but_std T T'' \<and> subseq q p \<and> take 1 q = take 1 p"
proof (induction openable p T' arbitrary: q T'' rule: open_files.induct)
  case (2 openable h p T')
  show ?case
  proof (cases "p = []")
    case True
    with 2(2,3) show ?thesis by (auto simp: open_files.simps(2))
  next
    case False
    obtain p1 T1 where o1: "open_turn openable p T' = (p1, T1)" by fastforce
    obtain q1 T2 where o2: "open_files openable p1 T1 = (q1, T2)" by fastforce
    have eq: "q = h # q1" "T'' = T2" using 2(3) False o1 o2 by (auto simp: open_files.simps(2))
    obtain k where k: "p1 = drop k p" using open_turn_std(2)[OF 2(2) o1] by blast
    have "same_but_std T T1" by (rule open_turn_std(1)[OF 2(2) o1])
    from 2(1)[OF False o1[symmetric] refl this o2] k eq show ?thesis
      by (auto dest: subseq_drop)
  qed
qed simp

section \<open>Properties\<close>

text \<open>C19: in a pipeline that ends with a command, command \<open>i\<close> reads from the pipe that command \<open>i - 1\<close>
  writes to, the first reads the shell's input, the last writes the shell's output, and no process
  keeps any other pipe end; afterwards the shell's own table is what it was.\<close>

theorem shell_pipeline_plumbing:
  assumes "fd_at T 0 \<noteq> None" and "fd_at T 1 \<noteq> None" and "pipeline_commands p = (cmds, True)"
  shows "\<exists>Ts T'. start_pipeline openable p T = (map2 (finish_child openable) cmds Ts, no_pipes, T') \<and>
    length Ts = length cmds \<and> fd_at T' = fd_at T \<and>
    (\<forall>i < length cmds. fd_at (Ts ! i) = plumbed T i (Suc i = length cmds))"
  using spawn_plumbing[OF no_pipes_holds assms] by (simp add: start_pipeline_def)

definition three_std :: fds where
  "three_std = [Some (Std 0), Some (Std 1), Some (Std 2)]"

definition demo_line :: "token list" where
  "demo_line = [Tok ''a'' SPEC_DEFAULT, Tok ''|'' SPEC_FIRST, Tok ''b'' SPEC_DEFAULT]"

lemma demo_line_commands:
  "pipeline_commands demo_line = ([[Tok ''a'' SPEC_DEFAULT], [Tok ''b'' SPEC_DEFAULT]], True)"
  "pipeline_commands (take 2 demo_line) = ([[Tok ''a'' SPEC_DEFAULT]], False)"
  by (simp_all add: demo_line_def pipeline_commands.simps check_pipe_def op_at_def word_is_def c_str_def)

lemma three_std_open: "fd_at three_std 0 \<noteq> None" "fd_at three_std 1 \<noteq> None"
  by (simp_all add: three_std_def fd_at_def)

theorem shell_pipeline_plumbing_witness:
  "\<exists>T0 T1 T'. start_pipeline (\<lambda>_ _. False) demo_line three_std =
      ([finish_child (\<lambda>_ _. False) [Tok ''a'' SPEC_DEFAULT] T0,
        finish_child (\<lambda>_ _. False) [Tok ''b'' SPEC_DEFAULT] T1], no_pipes, T') \<and>
    fd_at T0 1 = Some (PipeW 0) \<and> fd_at T1 0 = Some (PipeR 0) \<and> fd_at T' = fd_at three_std"
proof -
  obtain Ts T' where s: "start_pipeline (\<lambda>_ _. False) demo_line three_std =
      (map2 (finish_child (\<lambda>_ _. False)) [[Tok ''a'' SPEC_DEFAULT], [Tok ''b'' SPEC_DEFAULT]] Ts, no_pipes, T')"
    "length Ts = 2" "fd_at T' = fd_at three_std"
    "\<forall>i < 2. fd_at (Ts ! i) = plumbed three_std i (Suc i = 2)"
    using shell_pipeline_plumbing[OF three_std_open demo_line_commands(1), of "\<lambda>_ _. False"] by auto
  from s(2) obtain T0 T1 where Ts: "Ts = [T0, T1]"
    by (auto simp: numeral_2_eq_2 length_Suc_conv)
  have "fd_at T0 = plumbed three_std 0 False" "fd_at T1 = plumbed three_std 1 True"
    using s(4)[rule_format, of 0] s(4)[rule_format, of 1] Ts by simp_all
  with s(1,3) Ts show ?thesis
    by (intro exI[of _ T0] exI[of _ T1] exI[of _ T']) (simp add: plumbed_def)
qed

text \<open>A pipeline that ends with \<open>|\<close> leaves both ends of its last pipe open in the process that waits
  for the commands: its last command can never see that nobody reads what it writes.\<close>

lemma shell_dangling_pipe_leaks:
  assumes "fd_at T 0 \<noteq> None" and "fd_at T 1 \<noteq> None" and "pipeline_commands p = (cmds, False)" and "cmds \<noteq> []"
  shows "\<exists>cs fd T' r w. start_pipeline openable p T = (cs, fd, T') \<and> length cs = length cmds \<and>
    fd_at T r = None \<and> fd_at T w = None \<and>
    fd_at T' r = Some (PipeR (length cmds - 1)) \<and> fd_at T' w = Some (PipeW (length cmds - 1))"
proof -
  obtain cs fd' T' where s: "spawn openable p 0 no_pipes T = (cs, fd', T')" "length cs = length cmds"
    "holds T (length cmds) fd' T'"
    using spawn_dangling[OF no_pipes_holds assms(1-3), of openable] by auto
  with assms(4) show ?thesis
    by (intro exI[of _ cs] exI[of _ fd'] exI[of _ T'] exI[of _ "fd0 fd'"] exI[of _ "fd1 fd'"])
      (auto simp: start_pipeline_def holds_def)
qed

text \<open>The exit code of a pipeline is the exit code of its last command (1 if a signal killed it),
  in whatever order the commands end.\<close>

lemma shell_pipeline_exit_code:
  assumes "distinct (map fst waits)" and "(last_pid, s) \<in> set waits"
  shows "wait_loop (length waits) last_pid code waits = death_analys s"
  using assms
proof (induction waits arbitrary: code)
  case (Cons w waits)
  obtain pid s' where w: "w = (pid, s')" by fastforce
  have other: "wait_loop (length ws) last_pid c ws = c" if "last_pid \<notin> fst ` set ws" for ws c
    using that by (induction ws arbitrary: c) auto
  show ?case
  proof (cases "pid = last_pid")
    case True
    then have "last_pid \<notin> fst ` set waits" "s' = s" using Cons.prems w by (force simp: image_iff)+
    with True other show ?thesis by (simp add: w death_analys_def)
  next
    case False
    with Cons w show ?thesis by simp
  qed
qed simp

text \<open>The redirections of a command change only its standard input and output, keep the command
  word, and remove words from the line but never add or reorder any.\<close>

lemma shell_redirections_frame:
  assumes "fd_at T 0 \<noteq> None" and "fd_at T 1 \<noteq> None" and "open_files openable p T = (q, T')"
  shows "(\<forall>i. i \<noteq> 0 \<longrightarrow> i \<noteq> 1 \<longrightarrow> fd_at T' i = fd_at T i) \<and> subseq q p \<and> take 1 q = take 1 p"
proof -
  have "same_but_std T T" using assms(1,2) by (simp add: same_but_std_def)
  from open_files_std[OF this assms(3)] show ?thesis by (simp add: same_but_std_def)
qed

text \<open>In \<open>cmd < i > o\<close> the second redirection is skipped: its words become arguments and the output is
  not redirected.\<close>

end
