(* ===== verification/Quick_Sort.thy ===== *)
theory Quick_Sort
  imports Prelude "HOL-Library.Multiset"
begin

text \<open>
  The in-place quicksort of \<^verbatim>\<open>1/main.c\<close>. An array is a list with bounds-checked accesses, indices
  are C integers. The state carries the values \<^verbatim>\<open>rand\<close> will return and counts the calls of
  \<^verbatim>\<open>swap\<close>, the points at which the sorting coroutine may give way to another one; a coroutine
  sorts its own buffer, so the others do not change the array there.
\<close>

section \<open>The code\<close>

record sort_state =
  arr :: "int list"
  rands :: "nat \<Rightarrow> nat"
  drawn :: nat
  yields :: nat

definition get :: "int list \<Rightarrow> int \<Rightarrow> int run" where
  "get a i = (if 0 \<le> i \<and> i < int (length a) then ret (a ! nat i) else fault Out_Of_Bounds)"

definition put_at :: "int list \<Rightarrow> int \<Rightarrow> int \<Rightarrow> int list run" where
  "put_at a i x = (if 0 \<le> i \<and> i < int (length a) then ret (a[nat i := x]) else fault Out_Of_Bounds)"

definition exchange :: "int list \<Rightarrow> int \<Rightarrow> int \<Rightarrow> int list run" where
  "exchange a i j = bnd (get a i) (\<lambda>x. bnd (get a j) (\<lambda>y. bnd (put_at a i y) (\<lambda>a. put_at a j x)))"

partial_function (option) scan_up :: "int list \<Rightarrow> int \<Rightarrow> int \<Rightarrow> int \<Rightarrow> int run" where
  [code]: "scan_up a v r i = (if i \<le> r
     then bnd (get a i) (\<lambda>x. if x \<le> v then scan_up a v r (i + 1) else ret i) else ret i)"

partial_function (option) scan_down :: "int list \<Rightarrow> int \<Rightarrow> int \<Rightarrow> int run" where
  [code]: "scan_down a v j = bnd (get a j) (\<lambda>x. if v < x then scan_down a v (j - 1) else ret j)"

partial_function (option) part_loop :: "int \<Rightarrow> int \<Rightarrow> int list \<Rightarrow> int \<Rightarrow> int \<Rightarrow> (int list \<times> int) run" where
  [code]: "part_loop v r a i j = (if i < j
     then bnd (scan_up a v r i) (\<lambda>i. bnd (scan_down a v j) (\<lambda>j.
       bnd (if i < j then exchange a i j else ret a) (\<lambda>a. part_loop v r a i j)))
     else ret (a, j))"

definition part :: "int \<Rightarrow> int \<Rightarrow> sort_state \<Rightarrow> (int \<times> sort_state) run" where
  "part l r s =
     (let v = int (rands s (drawn s)) mod (r + 1 - l) + l in
     bnd (exchange (arr s) l v) (\<lambda>a.
     bnd (get a l) (\<lambda>v.
     bnd (part_loop v r a l r) (\<lambda>(a, j).
     bnd (exchange a l j) (\<lambda>a.
     ret (j, s\<lparr>arr := a, drawn := drawn s + 1\<rparr>))))))"

definition yield_point :: "sort_state \<Rightarrow> sort_state" where
  "yield_point s = s\<lparr>yields := yields s + 1\<rparr>"

partial_function (option) quick_sort :: "int \<Rightarrow> int \<Rightarrow> sort_state \<Rightarrow> sort_state run" where
  [code]: "quick_sort l r s = (if l < r
     then bnd (part l r s) (\<lambda>(p, s).
       bnd (quick_sort l (p - 1) (yield_point s)) (\<lambda>s.
       bnd (quick_sort (p + 1) r (yield_point s)) (\<lambda>s. ret (yield_point s))))
     else ret s)"

section \<open>Arrays as functions of their index\<close>

definition at :: "int list \<Rightarrow> int \<Rightarrow> int" where
  "at a i = a ! nat i"

definition inside :: "int list \<Rightarrow> int \<Rightarrow> bool" where
  "inside a i \<longleftrightarrow> 0 \<le> i \<and> i < int (length a)"

lemma get_ret [simp]: "inside a i \<Longrightarrow> get a i = ret (at a i)"
  by (simp add: get_def inside_def at_def)

lemma at_update: "inside a i \<Longrightarrow> 0 \<le> k \<Longrightarrow> at (a[nat i := x]) k = (if k = i then x else at a k)"
  by (auto simp: inside_def at_def nth_list_update nat_eq_iff)

definition swapped :: "int list \<Rightarrow> int \<Rightarrow> int \<Rightarrow> int list" where
  "swapped a i j = a[nat i := at a j, nat j := at a i]"

lemma exchange_ret: "inside a i \<Longrightarrow> inside a j \<Longrightarrow> exchange a i j = ret (swapped a i j)"
  by (simp add: exchange_def swapped_def put_at_def inside_def)

lemma swapped_at:
  assumes "inside a i" and "inside a j" and "0 \<le> k"
  shows "at (swapped a i j) k = (if k = j then at a i else if k = i then at a j else at a k)"
proof -
  have "inside (a[nat i := at a j]) j" using assms(2) by (simp add: inside_def)
  then show ?thesis using assms by (simp add: swapped_def at_update)
qed

lemma swapped_mset: "inside a i \<Longrightarrow> inside a j \<Longrightarrow> mset (swapped a i j) = mset a"
  unfolding swapped_def at_def inside_def
  by (metis mset_swap nat_less_iff zero_le_imp_eq_int nat_int)

lemma swapped_length [simp]: "length (swapped a i j) = length a"
  by (simp add: swapped_def)

text \<open>What a step on the range \<open>l..r\<close> may do.\<close>

definition shuffles :: "int \<Rightarrow> int \<Rightarrow> int list \<Rightarrow> int list \<Rightarrow> bool" where
  "shuffles l r a b \<longleftrightarrow> length b = length a \<and> mset b = mset a \<and>
     (\<forall>k. 0 \<le> k \<longrightarrow> (k < l \<or> r < k) \<longrightarrow> at b k = at a k)"

lemma shuffles_refl [simp]: "shuffles l r a a"
  by (simp add: shuffles_def)

lemma shuffles_trans: "shuffles l r a b \<Longrightarrow> shuffles l r b c \<Longrightarrow> shuffles l r a c"
  by (simp add: shuffles_def)

lemma shuffles_widen: "shuffles l r a b \<Longrightarrow> l' \<le> l \<Longrightarrow> r \<le> r' \<Longrightarrow> shuffles l' r' a b"
  by (simp add: shuffles_def)

lemma shuffles_swapped:
  "inside a i \<Longrightarrow> inside a j \<Longrightarrow> l \<le> i \<Longrightarrow> i \<le> r \<Longrightarrow> l \<le> j \<Longrightarrow> j \<le> r \<Longrightarrow> shuffles l r a (swapped a i j)"
  by (auto simp: shuffles_def swapped_mset swapped_at)

definition range_list :: "int list \<Rightarrow> int \<Rightarrow> int \<Rightarrow> int list" where
  "range_list a l r = map (at a) [l..r]"

lemma whole_range: "range_list a 0 (int (length a) - 1) = a"
proof (rule nth_equalityI)
  fix i assume "i < length (range_list a 0 (int (length a) - 1))"
  then show "range_list a 0 (int (length a) - 1) ! i = a ! i"
    by (simp add: range_list_def nth_upto at_def)
qed (simp add: range_list_def)

lemma upto_cut: "l \<le> m + 1 \<Longrightarrow> m \<le> r \<Longrightarrow> [l..r] = [l..m] @ [m + 1..r]"
proof (cases "l \<le> m")
  case False
  assume "l \<le> m + 1"
  with False have "m + 1 = l" by simp
  with False show ?thesis by simp
qed (auto intro: upto_split2)

lemma range_split:
  assumes "0 \<le> l" and "l \<le> r + 1" and "r < int (length a)"
  shows "a = range_list a 0 (l - 1) @ range_list a l r @ range_list a (r + 1) (int (length a) - 1)"
proof -
  have "[0..int (length a) - 1] = [0..l - 1] @ [l..r] @ [r + 1..int (length a) - 1]"
    using upto_cut[of 0 "l - 1" "int (length a) - 1"] upto_cut[of l r "int (length a) - 1"] assms by simp
  then show ?thesis
    using whole_range[of a] by (metis range_list_def map_append)
qed

lemma shuffles_range:
  assumes s: "shuffles l r a b" and "0 \<le> l" and "l \<le> r + 1" and "r < int (length a)"
  shows "mset (range_list b l r) = mset (range_list a l r)"
proof -
  have len: "length b = length a" and m: "mset b = mset a" using s by (simp_all add: shuffles_def)
  have "range_list b 0 (l - 1) = range_list a 0 (l - 1)"
    "range_list b (r + 1) (int (length a) - 1) = range_list a (r + 1) (int (length a) - 1)"
    using s assms(2,3) by (auto simp: range_list_def shuffles_def)
  moreover have "mset b = mset (range_list b 0 (l - 1)) + mset (range_list b l r) +
      mset (range_list b (r + 1) (int (length a) - 1))"
    using range_split[of l r b] assms(2-4) len by (metis mset_append add.assoc)
  moreover have "mset a = mset (range_list a 0 (l - 1)) + mset (range_list a l r) +
      mset (range_list a (r + 1) (int (length a) - 1))"
    using range_split[of l r a] assms(2-4) by (metis mset_append add.assoc)
  ultimately show ?thesis using m by simp
qed

text \<open>A bound on the elements of a range survives every shuffle of the range.\<close>

lemma shuffles_forall:
  assumes "shuffles l r a b" and "0 \<le> l" and "r < int (length a)"
    and P: "\<forall>k. l \<le> k \<longrightarrow> k \<le> r \<longrightarrow> P (at a k)"
  shows "\<forall>k. l \<le> k \<longrightarrow> k \<le> r \<longrightarrow> P (at b k)"
proof (intro allI impI)
  fix k assume k: "l \<le> k" "k \<le> r"
  have "set (range_list b l r) = set (range_list a l r)"
    using shuffles_range[OF assms(1,2) _ assms(3)] k by (intro mset_eq_setD) simp
  moreover have "at b k \<in> set (range_list b l r)" using k by (simp add: range_list_def)
  ultimately show "P (at b k)" using P by (auto simp: range_list_def)
qed

section \<open>Partitioning\<close>

lemma scan_up_stops:
  assumes "0 \<le> i" and "i \<le> r + 1" and "r < int (length a)"
  shows "wp (scan_up a v r i) (\<lambda>i'. i \<le> i' \<and> i' \<le> r + 1 \<and>
    (\<forall>k. i \<le> k \<longrightarrow> k < i' \<longrightarrow> at a k \<le> v) \<and> (i' \<le> r \<longrightarrow> v < at a i'))"
  using assms
proof (induction "nat (r + 1 - i)" arbitrary: i)
  case 0
  then show ?case by (subst scan_up.simps) simp
next
  case (Suc n)
  then have i: "i \<le> r" "inside a i" by (auto simp: inside_def)
  show ?case
  proof (cases "at a i \<le> v")
    case False
    with i show ?thesis by (subst scan_up.simps) simp
  next
    case True
    have "wp (scan_up a v r (i + 1)) (\<lambda>i'. i + 1 \<le> i' \<and> i' \<le> r + 1 \<and>
      (\<forall>k. i + 1 \<le> k \<longrightarrow> k < i' \<longrightarrow> at a k \<le> v) \<and> (i' \<le> r \<longrightarrow> v < at a i'))"
      by (rule Suc.hyps(1)) (use Suc.hyps(2) Suc.prems i in auto)
    then have "wp (scan_up a v r (i + 1)) (\<lambda>i'. i \<le> i' \<and> i' \<le> r + 1 \<and>
      (\<forall>k. i \<le> k \<longrightarrow> k < i' \<longrightarrow> at a k \<le> v) \<and> (i' \<le> r \<longrightarrow> v < at a i'))"
      by (rule wp_mono) (use True in \<open>metis add1_zle_eq less_imp_le order_le_less\<close>)
    with i True show ?thesis by (subst scan_up.simps) simp
  qed
qed

lemma scan_down_stops:
  assumes "0 \<le> k" and "k \<le> j" and "j < int (length a)" and "at a k \<le> v"
  shows "wp (scan_down a v j) (\<lambda>j'. k \<le> j' \<and> j' \<le> j \<and> at a j' \<le> v \<and>
    (\<forall>m. j' < m \<longrightarrow> m \<le> j \<longrightarrow> v < at a m))"
  using assms
proof (induction "nat (j - k)" arbitrary: j)
  case 0
  then show ?case by (subst scan_down.simps) (simp add: inside_def)
next
  case (Suc n)
  then have j: "k < j" "inside a j" by (auto simp: inside_def)
  show ?case
  proof (cases "v < at a j")
    case False
    with j show ?thesis by (subst scan_down.simps) simp
  next
    case True
    have "wp (scan_down a v (j - 1)) (\<lambda>j'. k \<le> j' \<and> j' \<le> j - 1 \<and> at a j' \<le> v \<and>
      (\<forall>m. j' < m \<longrightarrow> m \<le> j - 1 \<longrightarrow> v < at a m))"
      by (rule Suc.hyps(1)) (use Suc.hyps(2) Suc.prems j in auto)
    then have "wp (scan_down a v (j - 1)) (\<lambda>j'. k \<le> j' \<and> j' \<le> j \<and> at a j' \<le> v \<and>
      (\<forall>m. j' < m \<longrightarrow> m \<le> j \<longrightarrow> v < at a m))"
      by (rule wp_mono) (use True in \<open>metis zle_diff1_eq less_imp_le order_le_less\<close>)
    with j True show ?thesis by (subst scan_down.simps) simp
  qed
qed

definition split_at :: "int \<Rightarrow> int \<Rightarrow> int \<Rightarrow> int \<Rightarrow> int list \<Rightarrow> bool" where
  "split_at l r v j a \<longleftrightarrow> (\<forall>k. l \<le> k \<longrightarrow> k \<le> j \<longrightarrow> at a k \<le> v) \<and> (\<forall>k. j < k \<longrightarrow> k \<le> r \<longrightarrow> v < at a k)"

text \<open>
  The head of the outer loop: everything left of \<open>i\<close> is small, everything right of \<open>j\<close> is
  large, and the pivot still stands at \<open>l\<close>.
\<close>

definition part_inv :: "int \<Rightarrow> int \<Rightarrow> int \<Rightarrow> int list \<Rightarrow> int \<Rightarrow> int \<Rightarrow> bool" where
  "part_inv l r v a i j \<longleftrightarrow> 0 \<le> l \<and> r < int (length a) \<and> l \<le> i \<and> i \<le> r + 1 \<and> l \<le> j \<and> j \<le> r \<and> at a l = v \<and>
     (\<forall>k. l \<le> k \<longrightarrow> k < i \<longrightarrow> at a k \<le> v) \<and> (\<forall>k. j < k \<longrightarrow> k \<le> r \<longrightarrow> v < at a k) \<and>
     at a (min i j) \<le> v \<and> (j \<le> i \<longrightarrow> at a j \<le> v)"

lemma part_inv_split: "part_inv l r v a i j \<Longrightarrow> j \<le> i \<Longrightarrow> split_at l r v j a"
  unfolding part_inv_def split_at_def
proof (intro conjI allI impI)
  fix k
  assume inv: "0 \<le> l \<and> r < int (length a) \<and> l \<le> i \<and> i \<le> r + 1 \<and> l \<le> j \<and> j \<le> r \<and> at a l = v \<and>
     (\<forall>k. l \<le> k \<longrightarrow> k < i \<longrightarrow> at a k \<le> v) \<and> (\<forall>k. j < k \<longrightarrow> k \<le> r \<longrightarrow> v < at a k) \<and>
     at a (min i j) \<le> v \<and> (j \<le> i \<longrightarrow> at a j \<le> v)" and ji: "j \<le> i"
  { assume "l \<le> k" "k \<le> j" with inv ji show "at a k \<le> v" by (cases "k = j") simp_all }
  { assume "j < k" "k \<le> r" with inv show "v < at a k" by simp }
qed

text \<open>One turn of the outer loop, when the two scans have stopped at \<open>i'\<close> and \<open>j'\<close>.\<close>

lemma part_inv_step:
  assumes inv: "part_inv l r v a i j" and "i < j"
    and i': "i \<le> i'" "i' \<le> r + 1" "\<forall>k. i \<le> k \<longrightarrow> k < i' \<longrightarrow> at a k \<le> v" "i' \<le> r \<longrightarrow> v < at a i'"
    and j': "i \<le> j'" "j' \<le> j" "at a j' \<le> v" "\<forall>m. j' < m \<longrightarrow> m \<le> j \<longrightarrow> v < at a m"
  shows "part_inv l r v (if i' < j' then swapped a i' j' else a) i' j'"
    and "i < i'" and "shuffles l r a (if i' < j' then swapped a i' j' else a)"
proof -
  have ai: "at a i \<le> v" using inv \<open>i < j\<close> by (simp add: part_inv_def)
  have b: "0 \<le> l" "r < int (length a)" "l \<le> i" "j \<le> r" "at a l = v"
    "\<forall>k. l \<le> k \<longrightarrow> k < i \<longrightarrow> at a k \<le> v" "\<forall>k. j < k \<longrightarrow> k \<le> r \<longrightarrow> v < at a k"
    using inv by (simp_all add: part_inv_def)
  show lt: "i < i'"
  proof (rule ccontr)
    assume "\<not> i < i'"
    with i'(1) have "i' = i" by simp
    with i'(4) ai b \<open>i < j\<close> show False by auto
  qed
  have low: "\<forall>k. l \<le> k \<longrightarrow> k < i' \<longrightarrow> at a k \<le> v" 
  proof (intro allI impI)
    fix k assume "l \<le> k" "k < i'"
    with b(6) i'(3) show "at a k \<le> v" by (cases "k < i") simp_all
  qed
  have high: "\<forall>k. j' < k \<longrightarrow> k \<le> r \<longrightarrow> v < at a k" 
  proof (intro allI impI)
    fix k assume "j' < k" "k \<le> r"
    with b(7) j'(4) show "v < at a k" by (cases "j < k") simp_all
  qed
  have in_i: "i' < j' \<Longrightarrow> inside a i'" and in_j: "inside a j'"
    using b j' i' by (auto simp: inside_def)
  show "shuffles l r a (if i' < j' then swapped a i' j' else a)"
    using in_i in_j b lt j' i' by (auto intro!: shuffles_swapped)
  show "part_inv l r v (if i' < j' then swapped a i' j' else a) i' j'"
  proof (cases "i' < j'")
    case True
    have up: "v < at a i'" using i'(4) True j' b by simp
    have at': "at (swapped a i' j') k = (if k = j' then at a i' else if k = i' then at a j' else at a k)"
      if "l \<le> k" for k
      using swapped_at[OF in_i[OF True] in_j] that b(1) by simp
    have l1: "\<forall>k. l \<le> k \<longrightarrow> k < i' \<longrightarrow> at (swapped a i' j') k \<le> v"
      using at' low True by simp
    have h1: "\<forall>k. j' < k \<longrightarrow> k \<le> r \<longrightarrow> v < at (swapped a i' j') k"
      using at' high True lt b by simp
    have m1: "at (swapped a i' j') (min i' j') \<le> v"
      using at'[of i'] True lt b j'(3) by (simp add: min_def)
    have e1: "at (swapped a i' j') l = v"
      using at'[of l] True lt b by simp
    show ?thesis
      using True l1 h1 m1 e1 b i' j' lt by (simp add: part_inv_def)
  next
    case False
    have "at a (min i' j') \<le> v" using False j'(3) by (simp add: min_def)
    then show ?thesis using False low high b i' j' lt by (simp add: part_inv_def)
  qed
qed

lemma part_loop_splits:
  assumes "part_inv l r v a i j"
  shows "wp (part_loop v r a i j) (\<lambda>(b, p). l \<le> p \<and> p \<le> r \<and> shuffles l r a b \<and> at b l = v \<and> split_at l r v p b)"
  using assms
proof (induction "nat (j - i)" arbitrary: a i j rule: less_induct)
  case less
  note inv = less.prems
  show ?case
  proof (cases "i < j")
    case False
    with inv part_inv_split[OF inv] show ?thesis
      by (subst part_loop.simps) (simp add: part_inv_def)
  next
    case True
    have b: "0 \<le> i" "i \<le> r + 1" "r < int (length a)" "j < int (length a)" "at a i \<le> v" "0 \<le> l" "l \<le> i" "j \<le> r"
      using inv True by (auto simp: part_inv_def min_def)
    obtain i' where u: "scan_up a v r i = ret i'"
      and i': "i \<le> i'" "i' \<le> r + 1" "\<forall>k. i \<le> k \<longrightarrow> k < i' \<longrightarrow> at a k \<le> v" "i' \<le> r \<longrightarrow> v < at a i'"
      using scan_up_stops[OF b(1-3), of v] by (auto elim: wpE)
    obtain j' where d: "scan_down a v j = ret j'"
      and j': "i \<le> j'" "j' \<le> j" "at a j' \<le> v" "\<forall>m. j' < m \<longrightarrow> m \<le> j \<longrightarrow> v < at a m"
      using scan_down_stops[of i j a v] True b by (auto elim: wpE)
    define c where "c = (if i' < j' then swapped a i' j' else a)"
    note step = part_inv_step[OF inv True i' j', folded c_def]
    have ex: "(if i' < j' then exchange a i' j' else ret a) = ret c"
      using b i' j' by (auto simp: c_def inside_def intro!: exchange_ret)
    have "nat (j' - i') < nat (j - i)" using step(2) j'(2) True by simp
    from less.hyps[OF this step(1)] have
      "wp (part_loop v r c i' j') (\<lambda>(b, p). l \<le> p \<and> p \<le> r \<and> shuffles l r a b \<and> at b l = v \<and> split_at l r v p b)"
      by (rule wp_mono) (use shuffles_trans[OF step(3)] in auto)
    then show ?thesis
      using True u d ex by (subst part_loop.simps) simp
  qed
qed

definition parted :: "int \<Rightarrow> int \<Rightarrow> int \<Rightarrow> int list \<Rightarrow> bool" where
  "parted l r p a \<longleftrightarrow> l \<le> p \<and> p \<le> r \<and> (\<forall>k. l \<le> k \<longrightarrow> k \<le> p - 1 \<longrightarrow> at a k \<le> at a p) \<and>
     (\<forall>k. p + 1 \<le> k \<longrightarrow> k \<le> r \<longrightarrow> at a p \<le> at a k)"

lemma part_parts:
  assumes "0 \<le> l" and "l < r" and "r < int (length (arr s))"
  shows "wp (part l r s) (\<lambda>(p, s'). shuffles l r (arr s) (arr s') \<and> parted l r p (arr s') \<and>
    rands s' = rands s \<and> drawn s' = drawn s + 1 \<and> yields s' = yields s)"
proof -
  define v where "v = int (rands s (drawn s)) mod (r + 1 - l) + l"
  have "0 \<le> int (rands s (drawn s)) mod (r + 1 - l)" "int (rands s (drawn s)) mod (r + 1 - l) < r + 1 - l"
    using assms(2) by (simp_all add: pos_mod_bound)
  then have v: "l \<le> v" "v \<le> r" unfolding v_def by linarith+
  then have ins: "inside (arr s) l" "inside (arr s) v" using assms by (auto simp: inside_def)
  define a where "a = swapped (arr s) l v"
  have s1: "shuffles l r (arr s) a" unfolding a_def using shuffles_swapped ins v assms(2) by simp
  have len: "length a = length (arr s)" by (simp add: a_def)
  have "part_inv l r (at a l) a l r" using assms len by (simp add: part_inv_def)
  from part_loop_splits[OF this] obtain b p where pl: "part_loop (at a l) r a l r = ret (b, p)"
    and p: "l \<le> p" "p \<le> r" and s2: "shuffles l r a b" and bl: "at b l = at a l"
    and sp: "split_at l r (at a l) p b"
    by (auto elim!: wpE)
  have lenb: "length b = length (arr s)" using s2 len by (simp add: shuffles_def)
  then have insb: "inside b l" "inside b p" using assms p by (auto simp: inside_def)
  have insa: "inside a l" using ins len by (simp add: inside_def)
  define c where "c = swapped b l p"
  have s3: "shuffles l r b c" unfolding c_def using shuffles_swapped insb p assms(2) by simp
  have c: "at c k = (if k = p then at b l else if k = l then at b p else at b k)" if "l \<le> k" for k
    using swapped_at[OF insb] that assms(1) by (simp add: c_def)
  have "parted l r p c"
    using c sp p bl by (auto simp: parted_def split_at_def order_less_imp_le)
  moreover have "part l r s = ret (p, s\<lparr>arr := c, drawn := drawn s + 1\<rparr>)"
    using exchange_ret[OF ins] exchange_ret[OF insb] insa pl
    by (simp add: part_def Let_def v_def[symmetric] a_def[symmetric] c_def[symmetric])
  ultimately show ?thesis
    using shuffles_trans[OF s1 shuffles_trans[OF s2 s3]] by simp
qed

section \<open>Sorting\<close>

definition sorted_between :: "int \<Rightarrow> int \<Rightarrow> int list \<Rightarrow> bool" where
  "sorted_between l r a \<longleftrightarrow> (\<forall>i j. l \<le> i \<longrightarrow> i \<le> j \<longrightarrow> j \<le> r \<longrightarrow> at a i \<le> at a j)"

lemma sorted_between_shuffled:
  "shuffles l r a b \<Longrightarrow> 0 \<le> l' \<Longrightarrow> r' < l \<or> r < l' \<Longrightarrow> sorted_between l' r' b = sorted_between l' r' a"
  unfolding sorted_between_def shuffles_def
  by (smt (verit, best))

lemma parted_shuffled:
  assumes p: "parted l r p a" and s: "shuffles l' r' a b" and "l \<le> l'" and "r' \<le> r" and "0 \<le> l"
    and "r < int (length a)" and "r' < p \<or> p < l'"
  shows "parted l r p b"
proof -
  have eq: "at b k = at a k" if "l \<le> k" "k < l' \<or> r' < k" for k
    using s that assms(5) order_trans[OF assms(5) that(1)] by (auto simp: shuffles_def)
  have piv: "at b p = at a p" using eq p assms(7) by (auto simp: parted_def)
  have le: "\<forall>k. l' \<le> k \<longrightarrow> k \<le> r' \<longrightarrow> at b k \<le> at a p" if "r' < p"
    by (rule shuffles_forall[OF s]) (use assms that in \<open>auto simp: parted_def\<close>)
  have ge: "\<forall>k. l' \<le> k \<longrightarrow> k \<le> r' \<longrightarrow> at a p \<le> at b k" if "p < l'"
    by (rule shuffles_forall[OF s]) (use assms that in \<open>auto simp: parted_def\<close>)
  have "at b k \<le> at b p" if k: "l \<le> k" "k \<le> p - 1" for k
    using eq[of k] le piv p k assms(7) by (cases "k < l' \<or> r' < k") (auto simp: parted_def)
  moreover have "at b p \<le> at b k" if k: "p + 1 \<le> k" "k \<le> r" for k
    using eq[of k] ge piv p k assms(7) by (cases "k < l' \<or> r' < k") (auto simp: parted_def)
  ultimately show ?thesis using p by (simp add: parted_def)
qed

lemma sorted_between_join:
  assumes "parted l r p a" and "sorted_between l (p - 1) a" and "sorted_between (p + 1) r a"
  shows "sorted_between l r a"
  unfolding sorted_between_def
proof (intro allI impI)
  fix i j assume ij: "l \<le> i" "i \<le> j" "j \<le> r"
  have lo: "at a i \<le> at a p" if "i \<le> p" using that assms(1) ij by (cases "i = p") (auto simp: parted_def)
  have hi: "at a p \<le> at a j" if "p \<le> j" using that assms(1) ij by (cases "p = j") (auto simp: parted_def)
  consider "j \<le> p - 1" | "i \<le> p" "p \<le> j" | "p + 1 \<le> i" by linarith
  then show "at a i \<le> at a j"
  proof cases
    case 1
    with assms(2) ij show ?thesis by (simp add: sorted_between_def)
  next
    case 2
    with lo hi show ?thesis by simp
  next
    case 3
    with assms(3) ij show ?thesis by (simp add: sorted_between_def)
  qed
qed

lemma yield_point_simps [simp]:
  "arr (yield_point s) = arr s" "rands (yield_point s) = rands s" "drawn (yield_point s) = drawn s"
  "yields (yield_point s) = yields s + 1"
  by (simp_all add: yield_point_def)

definition sorts :: "int \<Rightarrow> int \<Rightarrow> sort_state \<Rightarrow> sort_state \<Rightarrow> bool" where
  "sorts l r s s' \<longleftrightarrow> shuffles l r (arr s) (arr s') \<and> sorted_between l r (arr s') \<and>
     drawn s \<le> drawn s' \<and> drawn s' \<le> drawn s + nat (r - l) \<and>
     yields s' = yields s + 3 * (drawn s' - drawn s)"

text \<open>Sorting both sides of the pivot sorts the range.\<close>

definition sorts_range :: "int \<Rightarrow> int \<Rightarrow> int list \<Rightarrow> int list \<Rightarrow> bool" where
  "sorts_range l r a b \<longleftrightarrow> shuffles l r a b \<and> sorted_between l r b"

lemma sorts_range_trivial: "r \<le> l \<Longrightarrow> sorts_range l r a a"
  by (auto simp: sorts_range_def sorted_between_def intro!: arg_cong[of _ _ "at a"] eq_refl)

lemma sorts_range_join:
  assumes sh1: "shuffles l r a a1" and pt1: "parted l r p a1"
    and S2: "sorts_range l (p - 1) a1 a2" and S3: "sorts_range (p + 1) r a2 a3"
    and "0 \<le> l" and "r < int (length a)"
  shows "sorts_range l r a a3"
proof -
  have p: "l \<le> p" "p \<le> r" using pt1 by (simp_all add: parted_def)
  have sh2: "shuffles l (p - 1) a1 a2" and sh3: "shuffles (p + 1) r a2 a3" using S2 S3 by (simp_all add: sorts_range_def)
  have len: "length a1 = length a" "length a2 = length a" using sh1 sh2 by (simp_all add: shuffles_def)
  have pt2: "parted l r p a2"
    by (rule parted_shuffled[OF pt1 sh2]) (use p assms(5,6) len in auto)
  have pt3: "parted l r p a3"
    by (rule parted_shuffled[OF pt2 sh3]) (use p assms(5,6) len in auto)
  have "sorted_between l (p - 1) a3"
    using sorted_between_shuffled[OF sh3 assms(5)] S2 by (simp add: sorts_range_def)
  then have so: "sorted_between l r a3"
    by (rule sorted_between_join[OF pt3]) (use S3 in \<open>simp add: sorts_range_def\<close>)
  have "shuffles l r a a3"
    using sh1 shuffles_widen[OF sh2, of l r] shuffles_widen[OF sh3, of l r] p
    by (meson shuffles_trans order_refl add_increasing2 diff_le_eq le_add_same_cancel1 less_imp_le
        order_trans zero_le_one zle_add1_eq_le zless_add1_eq le_diff_eq)
  with so show ?thesis by (simp add: sorts_range_def)
qed

lemma quick_sort_spec:
  assumes "0 \<le> l" and "r < int (length (arr s))"
  shows "wp (quick_sort l r s) (sorts l r s)"
  using assms
proof (induction "nat (r + 1 - l)" arbitrary: l r s rule: less_induct)
  case less
  show ?case
  proof (cases "l < r")
    case False
    with sorts_range_trivial[of r l "arr s"] show ?thesis
      by (subst quick_sort.simps) (simp add: sorts_def sorts_range_def)
  next
    case True
    obtain p s1 where q1: "part l r s = ret (p, s1)" and sh1: "shuffles l r (arr s) (arr s1)"
      and pt1: "parted l r p (arr s1)" and d1: "drawn s1 = drawn s + 1" and y1: "yields s1 = yields s"
      using part_parts[OF less.prems(1) True less.prems(2)] by (auto elim!: wpE)
    have p: "l \<le> p" "p \<le> r" using pt1 by (simp_all add: parted_def)
    have len1: "length (arr s1) = length (arr s)" using sh1 by (simp add: shuffles_def)
    have "wp (quick_sort l (p - 1) (yield_point s1)) (sorts l (p - 1) (yield_point s1))"
      by (rule less.hyps) (use p less.prems len1 True in auto)
    then obtain s2 where q2: "quick_sort l (p - 1) (yield_point s1) = ret s2"
      and S2: "sorts l (p - 1) (yield_point s1) s2" by (rule wpE)
    have len2: "length (arr s2) = length (arr s)" using S2 len1 by (simp add: sorts_def shuffles_def)
    have "wp (quick_sort (p + 1) r (yield_point s2)) (sorts (p + 1) r (yield_point s2))"
      by (rule less.hyps) (use p less.prems len2 True in auto)
    then obtain s3 where q3: "quick_sort (p + 1) r (yield_point s2) = ret s3"
      and S3: "sorts (p + 1) r (yield_point s2) s3" by (rule wpE)
    have "sorts_range l (p - 1) (arr s1) (arr s2)" "sorts_range (p + 1) r (arr s2) (arr s3)"
      using S2 S3 by (simp_all add: sorts_def sorts_range_def)
    then have "sorts_range l r (arr s) (arr s3)" by (rule sorts_range_join[OF sh1 pt1 _ _ less.prems])
    moreover have "drawn s3 \<le> drawn s + nat (r - l) \<and> drawn s \<le> drawn s3 \<and>
        yields s3 + 1 = yields s + 3 * (drawn s3 - drawn s)"
      using S2 S3 d1 y1 p True by (auto simp: sorts_def)
    ultimately have "sorts l r s (yield_point s3)"
      by (simp add: sorts_def sorts_range_def)
    then show ?thesis
      using True q1 q2 q3 by (subst quick_sort.simps) simp
  qed
qed

lemma part_rands: "part l r s = ret (p, s') \<Longrightarrow> rands s' = rands s"
  by (auto simp: part_def Let_def bnd_def split: option.splits sum.splits)

lemma quick_sort_rands:
  assumes "quick_sort l r s = ret s'"
  shows "rands s' = rands s"
proof -
  have "case y of Inr s' \<Rightarrow> rands s' = rands s | Inl e \<Rightarrow> True" if "quick_sort l r s = Some y" for y
  proof (rule quick_sort.raw_induct [rotated])
    show "quick_sort l r s = Some y" by (rule that)
    fix qs :: "int \<Rightarrow> int \<Rightarrow> sort_state \<Rightarrow> sort_state run" and l r s y
    assume IH: "\<And>l r s y. qs l r s = Some y \<Longrightarrow> case y of Inr s' \<Rightarrow> rands s' = rands s | Inl e \<Rightarrow> True"
      and e: "(if l < r then bnd (part l r s) (\<lambda>(p, s). bnd (qs l (p - 1) (yield_point s)) (\<lambda>s.
         bnd (qs (p + 1) r (yield_point s)) (\<lambda>s. ret (yield_point s)))) else ret s) = Some y"
    show "case y of Inr s' \<Rightarrow> rands s' = rands s | Inl e \<Rightarrow> True"
    proof (cases y)
      case (Inr s')
      show ?thesis
      proof (cases "l < r")
        case True
        with e Inr obtain p s1 s2 s3 where s: "part l r s = ret (p, s1)" "qs l (p - 1) (yield_point s1) = ret s2"
          "qs (p + 1) r (yield_point s2) = ret s3" "s' = yield_point s3"
          by (auto simp: bnd_def split: option.splits sum.splits)
        with IH[OF s(2)] IH[OF s(3)] part_rands[OF s(1)] Inr show ?thesis by simp
      next
        case False
        with e Inr show ?thesis by simp
      qed
    qed simp
  qed
  from this[OF assms] show ?thesis by simp
qed

lemma sorted_whole:
  assumes "sorted_between 0 (int (length a) - 1) a"
  shows "sorted a"
  unfolding sorted_iff_nth_mono
proof (intro allI impI)
  fix i j assume "i \<le> j" "j < length a"
  then have "at a (int i) \<le> at a (int j)"
    using assms by (simp add: sorted_between_def)
  then show "a ! i \<le> a ! j" by (simp add: at_def)
qed

lemma quick_sort_whole:
  "wp (quick_sort 0 (int (length (arr s)) - 1) s) (\<lambda>s'. sorted (arr s') \<and> mset (arr s') = mset (arr s))"
proof (rule wp_mono[OF quick_sort_spec])
  fix s' assume s': "sorts 0 (int (length (arr s)) - 1) s s'"
  then have "length (arr s') = length (arr s)" by (simp add: sorts_def shuffles_def)
  with s' show "sorted (arr s') \<and> mset (arr s') = mset (arr s)"
    by (auto simp: sorts_def shuffles_def intro: sorted_whole)
qed simp_all

section \<open>The property\<close>

text \<open>C20: on any range inside the array, whatever \<^verbatim>\<open>rand\<close> returns, \<open>quick_sort\<close> returns without an
  access outside the array, leaves the rest of the array alone, permutes the range and sorts it; it
  chooses at most \<open>r - l\<close> pivots and calls \<^verbatim>\<open>swap\<close> three times for each.\<close>

theorem quick_sort_sorts:
  assumes "0 \<le> l" and "r < int (length (arr s))"
  shows "wp (quick_sort l r s) (\<lambda>s'. length (arr s') = length (arr s) \<and> mset (arr s') = mset (arr s) \<and>
    (\<forall>k. 0 \<le> k \<longrightarrow> (k < l \<or> r < k) \<longrightarrow> at (arr s') k = at (arr s) k) \<and>
    (\<forall>i j. l \<le> i \<longrightarrow> i \<le> j \<longrightarrow> j \<le> r \<longrightarrow> at (arr s') i \<le> at (arr s') j) \<and>
    drawn s' - drawn s \<le> nat (r - l) \<and> yields s' = yields s + 3 * (drawn s' - drawn s))"
  by (rule wp_mono[OF quick_sort_spec[OF assms]]) (auto simp: sorts_def shuffles_def sorted_between_def)

definition sample :: sort_state where
  "sample = \<lparr>arr = [9, 5, 3, 5, 1], rands = (\<lambda>i. 7 * i + 2), drawn = 0, yields = 0\<rparr>"

theorem quick_sort_sorts_witness:
  "\<exists>s'. quick_sort 1 3 sample = ret s' \<and> arr s' ! 0 = 9 \<and> arr s' ! 4 = 1 \<and>
     at (arr s') 1 \<le> at (arr s') 2 \<and> at (arr s') 2 \<le> at (arr s') 3 \<and> mset (arr s') = {#1, 3, 5, 5, 9#}"
proof -
  obtain s' where "quick_sort 1 3 sample = ret s'" and m: "mset (arr s') = mset (arr sample)"
    and f: "\<forall>k. 0 \<le> k \<longrightarrow> (k < 1 \<or> 3 < k) \<longrightarrow> at (arr s') k = at (arr sample) k"
    and o: "\<forall>i j. 1 \<le> i \<longrightarrow> i \<le> j \<longrightarrow> j \<le> 3 \<longrightarrow> at (arr s') i \<le> at (arr s') j"
    using quick_sort_sorts[of 1 3 sample] by (auto simp: sample_def elim!: wpE)
  moreover have "arr s' ! 0 = 9" "arr s' ! 4 = 1"
    using spec[OF f, of 0] spec[OF f, of 4] by (simp_all add: at_def sample_def)
  moreover have "at (arr s') 1 \<le> at (arr s') 2" "at (arr s') 2 \<le> at (arr s') 3"
    using o by simp_all
  ultimately show ?thesis by (auto simp: sample_def)
qed

end
