(* ===== verification/Round_Robin.thy ===== *)
theory Round_Robin
  imports Prelude
begin

text \<open>
  The coroutines of \<^verbatim>\<open>1/main.c\<close>: contexts, switches and who runs next. What a coroutine does between
  two calls of \<^verbatim>\<open>swap\<close> does not concern the scheduler: its body is a step function \<open>bstep\<close>, a parameter,
  on a state \<open>'c\<close> of its own and a state \<open>'g\<close> shared by all (the random numbers drawn so far); theory
  \<^verbatim>\<open>File_Sort\<close> puts \<^verbatim>\<open>sort_file\<close> there. The clock is a parameter: its \<open>i\<close>-th reading is \<open>clk i\<close>; times are
  \<^verbatim>\<open>unsigned long\<close>. A coroutine that gets the processor, for the first time or again, takes a new
  time stamp.

  \<^verbatim>\<open>terminate\<close> sets \<^verbatim>\<open>uc_link\<close> when the coroutine ends, long after \<^verbatim>\<open>makecontext\<close>. Where control goes when
  the function of a context returns is then the system's choice: \<open>late\<close> is true on a system that
  looks at \<^verbatim>\<open>uc_link\<close> at that moment, as the program expects, and false where \<^verbatim>\<open>makecontext\<close> has fixed the
  link, as POSIX has it. At that time the program had not yet given \<^verbatim>\<open>uc_link\<close> a value, and to follow it
  is undefined: \<open>fault Dangling\<close>.
\<close>

section \<open>The code\<close>

datatype link = Unset | To_Main | To nat

record 'c context_data =
  ctx_finished :: bool
  swap_count :: nat
  time_work :: "64 word"
  timestamp :: "64 word"
  uc_link :: link
  made_link :: link
  body :: 'c

record ('g, 'c) sched =
  data :: "'c context_data list"
  active :: "nat option"
  ticks :: nat
  shared :: 'g

text \<open>What a step of a body comes to: it works, it calls \<^verbatim>\<open>swap\<close>, or it calls \<^verbatim>\<open>terminate\<close> and returns.\<close>

datatype 'c co_action = Works 'c | Calls_Swap 'c | Ends 'c

definition on :: "nat \<Rightarrow> ('c context_data \<Rightarrow> 'c context_data) \<Rightarrow> ('g, 'c) sched \<Rightarrow> ('g, 'c) sched" where
  "on n f s = s\<lparr>data := (data s)[n := f (data s ! n)]\<rparr>"

definition tick :: "('g, 'c) sched \<Rightarrow> ('g, 'c) sched" where
  "tick s = s\<lparr>ticks := ticks s + 1\<rparr>"

fun first_alive :: "'c context_data list \<Rightarrow> nat list \<Rightarrow> nat option" where
  "first_alive d [] = None"
| "first_alive d (i # is) = (if ctx_finished (d ! i) then first_alive d is else Some i)"

text \<open>The two loops of \<^verbatim>\<open>terminate\<close> and of \<^verbatim>\<open>swap\<close>: first behind \<open>n\<close>, then before \<open>n\<close>.\<close>

definition next_alive :: "'c context_data list \<Rightarrow> nat \<Rightarrow> nat option" where
  "next_alive d n = (case first_alive d [n + 1..<length d] of Some i \<Rightarrow> Some i | None \<Rightarrow> first_alive d [0..<n])"

text \<open>Coroutine \<open>i\<close> goes on, at the start of \<^verbatim>\<open>sort_file\<close> or behind \<^verbatim>\<open>swapcontext\<close>; both read the clock.\<close>

definition resume :: "(nat \<Rightarrow> 64 word) \<Rightarrow> nat \<Rightarrow> ('g, 'c) sched \<Rightarrow> ('g, 'c) sched" where
  "resume clk i s = tick (on i (\<lambda>c. c\<lparr>timestamp := clk (ticks s)\<rparr>) (s\<lparr>active := Some i\<rparr>))"

definition spend :: "(nat \<Rightarrow> 64 word) \<Rightarrow> nat \<Rightarrow> ('g, 'c) sched \<Rightarrow> ('g, 'c) sched" where
  "spend clk n s = tick (on n (\<lambda>c. c\<lparr>time_work := time_work c + (clk (ticks s) - timestamp c)\<rparr>) s)"

definition terminate :: "(nat \<Rightarrow> 64 word) \<Rightarrow> nat \<Rightarrow> ('g, 'c) sched \<Rightarrow> ('g, 'c) sched" where
  "terminate clk n s =
     (let s = on n (\<lambda>c. c\<lparr>ctx_finished := True\<rparr>) s; s = spend clk n s
      in on n (\<lambda>c. c\<lparr>uc_link := (case next_alive (data s) n of Some i \<Rightarrow> To i | None \<Rightarrow> To_Main)\<rparr>) s)"

definition swap :: "(nat \<Rightarrow> 64 word) \<Rightarrow> 64 word \<Rightarrow> nat \<Rightarrow> ('g, 'c) sched \<Rightarrow> ('g, 'c) sched" where
  "swap clk timeslice n s =
     (if clk (ticks s) - timestamp (data s ! n) < timeslice then tick s
      else let s = tick s in case next_alive (data s) n of None \<Rightarrow> s
        | Some i \<Rightarrow> resume clk i (on n (\<lambda>c. c\<lparr>swap_count := swap_count c + 1\<rparr>) (spend clk n s)))"

text \<open>The function of context \<open>n\<close> returns.\<close>

definition follow_link :: "bool \<Rightarrow> (nat \<Rightarrow> 64 word) \<Rightarrow> nat \<Rightarrow> ('g, 'c) sched \<Rightarrow> ('g, 'c) sched run" where
  "follow_link late clk n s =
     (case (if late then uc_link (data s ! n) else made_link (data s ! n)) of
        Unset \<Rightarrow> fault Dangling
      | To_Main \<Rightarrow> ret (s\<lparr>active := None\<rparr>)
      | To i \<Rightarrow> ret (resume clk i s))"

definition rr_step :: "bool \<Rightarrow> (nat \<Rightarrow> 64 word) \<Rightarrow> 64 word \<Rightarrow> ('g \<Rightarrow> 'c \<Rightarrow> ('g \<times> 'c co_action) run) \<Rightarrow>
    ('g, 'c) sched \<Rightarrow> ('g, 'c) sched run" where
  "rr_step late clk timeslice bstep s = (case active s of None \<Rightarrow> ret s
     | Some n \<Rightarrow> bnd (bstep (shared s) (body (data s ! n))) (\<lambda>(g, a).
         let s = s\<lparr>shared := g\<rparr> in case a of
           Works c \<Rightarrow> ret (on n (\<lambda>d. d\<lparr>body := c\<rparr>) s)
         | Calls_Swap c \<Rightarrow> ret (swap clk timeslice n (on n (\<lambda>d. d\<lparr>body := c\<rparr>) s))
         | Ends c \<Rightarrow> follow_link late clk n (terminate clk n (on n (\<lambda>d. d\<lparr>body := c\<rparr>) s))))"

text \<open>\<open>main\<close>: \<^verbatim>\<open>getcontext\<close> for every coroutine, \<^verbatim>\<open>makecontext\<close> for every coroutine, then the switch to the first.\<close>

definition new_context :: "'c \<Rightarrow> 'c context_data" where
  "new_context c = \<lparr>ctx_finished = False, swap_count = 0, time_work = 0, timestamp = 0, uc_link = Unset,
     made_link = Unset, body = c\<rparr>"

definition makecontext :: "'c context_data \<Rightarrow> 'c context_data" where
  "makecontext d = d\<lparr>made_link := uc_link d\<rparr>"

definition rr_start :: "(nat \<Rightarrow> 64 word) \<Rightarrow> 'g \<Rightarrow> 'c list \<Rightarrow> ('g, 'c) sched" where
  "rr_start clk g bodies = resume clk 0
     \<lparr>data = map makecontext (map new_context bodies), active = None, ticks = 0, shared = g\<rparr>"

text \<open>\<open>rr_run k\<close> makes \<open>k\<close> steps; \<open>schedule\<close> runs until control is back in \<open>main\<close>.\<close>

fun rr_run :: "bool \<Rightarrow> (nat \<Rightarrow> 64 word) \<Rightarrow> 64 word \<Rightarrow> ('g \<Rightarrow> 'c \<Rightarrow> ('g \<times> 'c co_action) run) \<Rightarrow> nat \<Rightarrow>
    ('g, 'c) sched \<Rightarrow> ('g, 'c) sched run" where
  "rr_run late clk timeslice bstep 0 s = ret s"
| "rr_run late clk timeslice bstep (Suc k) s =
     bnd (rr_step late clk timeslice bstep s) (rr_run late clk timeslice bstep k)"

partial_function (option) schedule :: "bool \<Rightarrow> (nat \<Rightarrow> 64 word) \<Rightarrow> 64 word \<Rightarrow>
    ('g \<Rightarrow> 'c \<Rightarrow> ('g \<times> 'c co_action) run) \<Rightarrow> ('g, 'c) sched \<Rightarrow> ('g, 'c) sched run" where
  [code]: "schedule late clk timeslice bstep s = (if active s = None then ret s
     else bnd (rr_step late clk timeslice bstep s) (schedule late clk timeslice bstep))"

lemma schedule_run:
  "rr_run late clk timeslice bstep k s = ret s' \<Longrightarrow> active s' = None \<Longrightarrow> schedule late clk timeslice bstep s = ret s'"
proof (induction k arbitrary: s)
  case 0
  then show ?case by (subst schedule.simps) simp
next
  case (Suc k)
  then obtain s1 where s1: "rr_step late clk timeslice bstep s = ret s1" "rr_run late clk timeslice bstep k s1 = ret s'"
    by (auto simp: bnd_def split: option.splits sum.splits)
  note IH = Suc.IH[OF s1(2) Suc.prems(2)]
  show ?case
  proof (cases "active s = None")
    case True
    with s1(1) have "s1 = s" by (simp add: rr_step_def)
    with IH show ?thesis by simp
  next
    case False
    then obtain n where "active s = Some n" by blast
    with s1(1) IH show ?thesis using schedule.simps[of late clk timeslice bstep s] by simp
  qed
qed

lemma schedule_fault:
  "rr_run late clk timeslice bstep k s = fault e \<Longrightarrow> schedule late clk timeslice bstep s = fault e"
proof (induction k arbitrary: s)
  case (Suc k)
  show ?case
  proof (cases "active s")
    case None
    then have "rr_step late clk timeslice bstep s = ret s" by (simp add: rr_step_def)
    with Suc show ?thesis by simp
  next
    case (Some n)
    with Suc show ?thesis
      by (subst schedule.simps) (auto simp: bnd_def split: option.splits sum.splits)
  qed
qed simp

section \<open>Who is next\<close>

text \<open>The coroutines stand in a circle; the next one is the first behind \<open>n\<close> that has not finished.\<close>

definition behind :: "'c context_data list \<Rightarrow> nat \<Rightarrow> nat \<Rightarrow> nat" where
  "behind d n e = (n + e) mod length d"

definition next_in_circle :: "'c context_data list \<Rightarrow> nat \<Rightarrow> nat \<Rightarrow> bool" where
  "next_in_circle d n i \<longleftrightarrow> (\<exists>e. 0 < e \<and> e < length d \<and> i = behind d n e \<and> \<not> ctx_finished (d ! i) \<and>
     (\<forall>e'. 0 < e' \<and> e' < e \<longrightarrow> ctx_finished (d ! behind d n e')))"

lemma first_alive_append: "first_alive d (is @ js) = (case first_alive d is of Some i \<Rightarrow> Some i | None \<Rightarrow> first_alive d js)"
  by (induction "is") auto

lemma circle_order:
  assumes "n < length d"
  shows "[n + 1..<length d] @ [0..<n] = map (behind d n) [1..<length d]"
proof (rule nth_equalityI)
  fix j assume j: "j < length ([n + 1..<length d] @ [0..<n])"
  show "([n + 1..<length d] @ [0..<n]) ! j = map (behind d n) [1..<length d] ! j"
  proof (cases "n + 1 + j < length d")
    case True
    moreover from this have "j < length d - Suc n" by simp
    ultimately show ?thesis by (simp add: nth_append behind_def)
  next
    case False
    then have "(n + Suc j) mod length d = n + 1 + j - length d"
      using j assms by (simp add: mod_if)
    with False j assms show ?thesis by (auto simp: nth_append behind_def)
  qed
qed (use assms in simp)

lemma next_alive_circle: "n < length d \<Longrightarrow> next_alive d n = first_alive d (map (behind d n) [1..<length d])"
  by (simp only: next_alive_def flip: first_alive_append circle_order)

lemma first_alive_Some:
  "first_alive d is = Some i \<Longrightarrow> \<exists>us vs. is = us @ i # vs \<and> \<not> ctx_finished (d ! i) \<and> (\<forall>j \<in> set us. ctx_finished (d ! j))"
proof (induction "is")
  case (Cons j js)
  show ?case
  proof (cases "ctx_finished (d ! j)")
    case True
    with Cons obtain us vs where "js = us @ i # vs" "\<not> ctx_finished (d ! i)" "\<forall>j \<in> set us. ctx_finished (d ! j)"
      by auto
    with True show ?thesis by (intro exI[of _ "j # us"] exI[of _ vs]) simp
  next
    case False
    with Cons.prems show ?thesis by (intro exI[of _ "[]"] exI[of _ js]) simp
  qed
qed simp

lemma first_alive_None: "first_alive d is = None \<longleftrightarrow> (\<forall>i \<in> set is. ctx_finished (d ! i))"
  by (induction "is") auto

lemma next_alive_Some:
  assumes "next_alive d n = Some i" and "n < length d"
  shows "next_in_circle d n i" "i < length d" "\<not> ctx_finished (d ! i)" "i \<noteq> n"
proof -
  obtain us vs where u: "map (behind d n) [1..<length d] = us @ i # vs" and al: "\<not> ctx_finished (d ! i)"
    and fin: "\<forall>j \<in> set us. ctx_finished (d ! j)"
    using first_alive_Some[OF assms(1)[unfolded next_alive_circle[OF assms(2)]]] by blast
  let ?k = "length us"
  have len: "?k < length d - 1" using arg_cong[OF u, of length] by simp
  have nth: "map (behind d n) [1..<length d] ! e = behind d n (Suc e)" if "e \<le> ?k" for e
    using that len by simp
  have i: "i = behind d n (Suc ?k)" using nth[of ?k] unfolding u by simp
  have before: "ctx_finished (d ! behind d n e')" if "0 < e'" "e' < Suc ?k" for e'
  proof -
    have "e' - 1 < ?k" using that by linarith
    then have "us ! (e' - 1) = behind d n e'" using nth[of "e' - 1"] that unfolding u by (simp add: nth_append)
    moreover have "us ! (e' - 1) \<in> set us" using that by (intro nth_mem) simp
    ultimately show ?thesis using fin by metis
  qed
  show "next_in_circle d n i"
    unfolding next_in_circle_def using before i al len by (intro exI[of _ "Suc ?k"]) simp
  show "\<not> ctx_finished (d ! i)" by (rule al)
  show "i < length d" unfolding i behind_def by (rule mod_less_divisor) (use assms(2) in linarith)
  show "i \<noteq> n"
  proof
    assume "i = n"
    with i have "(n + Suc ?k) mod length d = n" by (simp add: behind_def)
    with len assms(2) show False by (auto simp: mod_if split: if_splits)
  qed
qed

lemma next_alive_None:
  assumes "next_alive d n = None" and "n < length d" and "i < length d" and "i \<noteq> n"
  shows "ctx_finished (d ! i)"
proof -
  have all: "ctx_finished (d ! behind d n e)" if "1 \<le> e" "e < length d" for e
    using assms(1,2) that by (auto simp: next_alive_circle first_alive_None)
  define e where "e = (if n < i then i - n else length d + i - n)"
  have "behind d n e = i" using assms(2-4) by (simp add: e_def behind_def)
  moreover have "1 \<le> e" "e < length d" using assms(2-4) by (auto simp: e_def)
  ultimately show ?thesis using all[of e] by simp
qed

lemma next_alive_other:
  assumes "length d' = length d" and "\<And>i. i < length d \<Longrightarrow> i \<noteq> n \<Longrightarrow> ctx_finished (d' ! i) = ctx_finished (d ! i)"
    and "n < length d"
  shows "next_alive d' n = next_alive d n"
proof -
  have same: "first_alive d' is = first_alive d is" if "\<forall>i \<in> set is. i < length d \<and> i \<noteq> n" for "is"
    using that by (induction "is") (auto simp: assms(2))
  have "first_alive d' [n + 1..<length d] = first_alive d [n + 1..<length d]" "first_alive d' [0..<n] = first_alive d [0..<n]"
    using assms(3) by (auto intro!: same)
  then show ?thesis using assms(1) by (simp add: next_alive_def split: option.split)
qed

section \<open>The invariant\<close>

text \<open>What matters of a coroutine for the order: not its times.\<close>

type_synonym 'c key = "bool \<times> nat \<times> link \<times> 'c"

definition key :: "'c context_data \<Rightarrow> 'c key" where
  "key d = (ctx_finished d, swap_count d, made_link d, body d)"

definition keys :: "('g, 'c) sched \<Rightarrow> 'c key list" where
  "keys s = map key (data s)"

lemma keys_on_same: "(\<And>d. key (f d) = key d) \<Longrightarrow> keys (on n f s) = keys s"
  by (cases "n < length (data s)")
    (simp_all add: keys_def on_def map_update list_update_same_conv list_update_beyond)

lemma keys_fields [simp]:
  "keys (s\<lparr>active := a\<rparr>) = keys s" "keys (s\<lparr>ticks := k\<rparr>) = keys s" "keys (s\<lparr>shared := g\<rparr>) = keys s"
  by (simp_all add: keys_def)

lemma keys_frame [simp]:
  "keys (tick s) = keys s" "keys (resume clk i s) = keys s" "keys (spend clk n s) = keys s"
  by (simp_all add: tick_def resume_def spend_def keys_on_same key_def)

lemma active_frame [simp]:
  "active (tick s) = active s" "active (resume clk i s) = Some i" "active (spend clk n s) = active s"
  "active (on n f s) = active s"
  by (simp_all add: tick_def resume_def spend_def on_def)

lemma data_length [simp]:
  "length (data (tick s)) = length (data s)" "length (data (on n f s)) = length (data s)"
  "length (data (resume clk i s)) = length (data s)" "length (data (spend clk n s)) = length (data s)"
  by (simp_all add: tick_def on_def resume_def spend_def)

lemma keys_on: "n < length (data s) \<Longrightarrow> keys (on n f s) = (keys s)[n := key (f (data s ! n))]"
  by (simp add: keys_def on_def map_update)

lemma length_keys [simp]: "length (keys s) = length (data s)"
  by (simp add: keys_def)

lemma nth_keys: "i < length (data s) \<Longrightarrow> keys s ! i = key (data s ! i)"
  by (simp add: keys_def)

lemma keys_ctx:
  assumes "keys s = (keys s0)[n := (f, w, m, c)]" and "n < length (data s0)"
  shows "ctx_finished (data s ! n) = f" "swap_count (data s ! n) = w" "made_link (data s ! n) = m" "body (data s ! n) = c"
proof -
  have "length (data s) = length (data s0)" using arg_cong[OF assms(1), of length] by simp
  with assms have "key (data s ! n) = (f, w, m, c)" by (metis length_keys nth_keys nth_list_update_eq)
  then show "ctx_finished (data s ! n) = f" "swap_count (data s ! n) = w" "made_link (data s ! n) = m" "body (data s ! n) = c"
    by (simp_all add: key_def)
qed

lemma next_alive_keys:
  assumes "keys s = (keys s0)[n := x]" and "n < length (data s0)"
  shows "next_alive (data s) n = next_alive (data s0) n"
proof (rule next_alive_other[OF _ _ assms(2)])
  show len: "length (data s) = length (data s0)" using arg_cong[OF assms(1), of length] by simp
  fix i assume "i < length (data s0)" "i \<noteq> n"
  then have "key (data s ! i) = key (data s0 ! i)"
    using assms(1) len by (metis length_keys nth_keys nth_list_update_neq)
  then show "ctx_finished (data s ! i) = ctx_finished (data s0 ! i)" by (simp add: key_def)
qed

text \<open>The three kinds of steps, on the keys.\<close>

lemma swap_keys:
  assumes n: "n < length (data s)" and k: "keys s ! n = (False, w, m, c)" and a: "active s = Some n"
  shows "if clk (ticks s) - timestamp (data s ! n) < timeslice \<or> next_alive (data s) n = None
    then keys (swap clk timeslice n s) = keys s \<and> active (swap clk timeslice n s) = Some n
    else keys (swap clk timeslice n s) = (keys s)[n := (False, w + 1, m, c)] \<and>
      active (swap clk timeslice n s) = next_alive (data s) n"
proof (cases "clk (ticks s) - timestamp (data s ! n) < timeslice \<or> next_alive (data s) n = None")
  case True
  then have "swap clk timeslice n s = tick s" by (auto simp: swap_def tick_def)
  with True a show ?thesis by auto
next
  case False
  then obtain i where i: "next_alive (data s) n = Some i" by auto
  let ?s = "spend clk n (tick s)"
  have "keys ?s = (keys s)[n := (False, w, m, c)]" using k by (metis keys_frame(1,3) list_update_id)
  note f = keys_ctx[OF this n]
  have "swap clk timeslice n s = resume clk i (on n (\<lambda>c. c\<lparr>swap_count := swap_count c + 1\<rparr>) ?s)"
    using False i by (simp add: swap_def tick_def)
  then show ?thesis using False i n f by (simp add: keys_on key_def)
qed

lemma terminate_keys:
  assumes n: "n < length (data s)" and k: "keys s ! n = (False, w, m, c)" and a: "active s = Some n"
  shows "keys (terminate clk n s) = (keys s)[n := (True, w, m, c)]"
    and "uc_link (data (terminate clk n s) ! n) = (case next_alive (data s) n of Some i \<Rightarrow> To i | None \<Rightarrow> To_Main)"
proof -
  let ?s = "spend clk n (on n (\<lambda>c. c\<lparr>ctx_finished := True\<rparr>) s)"
  have "keys s = (keys s)[n := (False, w, m, c)]" using k by (metis list_update_id)
  note f = keys_ctx[OF this n]
  have k1: "keys ?s = (keys s)[n := (True, w, m, c)]" using n f by (simp add: keys_on key_def)
  show "keys (terminate clk n s) = (keys s)[n := (True, w, m, c)]"
    using k1 by (simp add: terminate_def Let_def keys_on_same key_def)
  show "uc_link (data (terminate clk n s) ! n) = (case next_alive (data s) n of Some i \<Rightarrow> To i | None \<Rightarrow> To_Main)"
    using next_alive_keys[OF k1 n] n by (simp add: terminate_def Let_def on_def[of n _ ?s])
qed

text \<open>The order of the turns, as a contract on two successive states \<open>u\<close> and \<open>v\<close>: a coroutine goes on until it
  calls \<^verbatim>\<open>swap\<close> with its time slice used up while another one is unfinished, or ends; then the next
  unfinished one in the circle has its turn, and \<^verbatim>\<open>main\<close> only when all have finished.\<close>

definition turn :: "(nat \<Rightarrow> 64 word) \<Rightarrow> 64 word \<Rightarrow> ('g \<Rightarrow> 'c \<Rightarrow> ('g \<times> 'c co_action) run) \<Rightarrow>
    ('g, 'c) sched \<Rightarrow> ('g, 'c) sched \<Rightarrow> bool" where
  "turn clk timeslice bstep u v \<longleftrightarrow> (\<exists>n g a. active u = Some n \<and> bstep (shared u) (body (data u ! n)) = ret (g, a) \<and>
     (case a of
        Works c \<Rightarrow> active v = Some n
      | Calls_Swap c \<Rightarrow>
          if clk (ticks u) - timestamp (data u ! n) < timeslice \<or> (\<forall>i < length (data u). i \<noteq> n \<longrightarrow> ctx_finished (data u ! i))
          then active v = Some n
          else (\<exists>i. active v = Some i \<and> next_in_circle (data u) n i)
      | Ends c \<Rightarrow> (case active v of
            None \<Rightarrow> \<forall>i < length (data v). ctx_finished (data v ! i)
          | Some i \<Rightarrow> next_in_circle (data u) n i)))"

text \<open>
  The contract of a body: in every step it keeps its invariant and comes nearer to its end, and when it
  ends it has done its work. \<open>i\<close> is the number of the coroutine.
\<close>

locale coroutines =
  fixes bstep :: "'g \<Rightarrow> 'c \<Rightarrow> ('g \<times> 'c co_action) run" and ok :: "nat \<Rightarrow> 'c \<Rightarrow> bool" and fin :: "nat \<Rightarrow> 'c \<Rightarrow> bool"
    and cost :: "'c \<Rightarrow> nat"
  assumes body_step: "ok i c \<Longrightarrow> wp (bstep g c) (\<lambda>(g', a). case a of
      Works c' \<Rightarrow> ok i c' \<and> cost c' < cost c
    | Calls_Swap c' \<Rightarrow> ok i c' \<and> cost c' < cost c
    | Ends c' \<Rightarrow> fin i c')"
begin

definition coro_ok :: "nat \<Rightarrow> nat \<Rightarrow> 'c key \<Rightarrow> bool" where
  "coro_ok i b x = (case x of (f, w, m, c) \<Rightarrow>
     m = Unset \<and> w + (if f then 0 else cost c) \<le> b \<and> (if f then fin i c else ok i c))"

definition weight :: "'c key \<Rightarrow> nat" where
  "weight x = (case x of (f, w, m, c) \<Rightarrow> if f then 0 else Suc (cost c))"

definition left :: "('g, 'c) sched \<Rightarrow> nat" where
  "left s = sum_list (map weight (keys s))"

definition all_ok :: "nat list \<Rightarrow> ('g, 'c) sched \<Rightarrow> bool" where
  "all_ok bs s \<longleftrightarrow> length (data s) = length bs \<and> (\<forall>i < length bs. coro_ok i (bs ! i) (keys s ! i))"

definition rr_ok :: "nat list \<Rightarrow> ('g, 'c) sched \<Rightarrow> bool" where
  "rr_ok bs s \<longleftrightarrow> all_ok bs s \<and>
     (case active s of None \<Rightarrow> \<forall>i < length bs. ctx_finished (data s ! i)
      | Some n \<Rightarrow> n < length bs \<and> \<not> ctx_finished (data s ! n))"

lemma left_update:
  assumes "n < length (data s)" and "keys s' = (keys s)[n := x]" and "weight x < weight (keys s ! n)"
  shows "left s' < left s"
proof -
  have "sum_list (map weight (xs[n := x])) + weight (xs ! n) = sum_list (map weight xs) + weight x"
    if "n < length xs" for xs
    using that by (induction xs arbitrary: n) (auto split: nat.split simp: nth_Cons')
  from this[of "keys s"] assms show ?thesis by (simp add: left_def)
qed

lemma all_ok_update:
  assumes "all_ok bs s" and "keys s' = (keys s)[n := x]" and "n < length bs" and "coro_ok n (bs ! n) x"
  shows "all_ok bs s'"
proof -
  have "length (data s') = length (data s)" using arg_cong[OF assms(2), of length] by simp
  with assms show ?thesis by (auto simp: all_ok_def nth_list_update)
qed

lemma running_key:
  assumes "all_ok bs s" and "n < length bs" and "\<not> ctx_finished (data s ! n)"
  obtains w c where "keys s ! n = (False, w, Unset, c)" "body (data s ! n) = c" "ok n c" "w + cost c \<le> bs ! n"
proof -
  have "keys s ! n = key (data s ! n)" "coro_ok n (bs ! n) (keys s ! n)"
    using assms(1,2) by (auto simp: all_ok_def nth_keys)
  with assms(3) that show ?thesis by (auto simp: key_def coro_ok_def)
qed

text \<open>One step of a coroutine that is running: it works, it calls \<^verbatim>\<open>swap\<close> and stays or is left, or it ends.\<close>

lemma step_cases:
  assumes ok: "all_ok bs s" and a: "active s = Some n" and n: "n < length bs" and al: "\<not> ctx_finished (data s ! n)"
  obtains (goes_on) s' where "\<And>late. rr_step late clk timeslice bstep s = ret s'" "all_ok bs s'" "left s' < left s"
      "active s' = Some n" "\<not> ctx_finished (data s' ! n)" "turn clk timeslice bstep s s'"
  | (switches) s' i where "\<And>late. rr_step late clk timeslice bstep s = ret s'" "all_ok bs s'" "left s' < left s"
      "active s' = Some i" "i < length bs" "\<not> ctx_finished (data s' ! i)" "turn clk timeslice bstep s s'"
  | (ends) s' where "rr_step False clk timeslice bstep s = fault Dangling" "rr_step True clk timeslice bstep s = ret s'"
      "rr_ok bs s'" "left s' < left s" "turn clk timeslice bstep s s'"
proof -
  obtain w c where k: "keys s ! n = (False, w, Unset, c)" "body (data s ! n) = c" "ok n c" "w + cost c \<le> bs ! n"
    using running_key[OF ok n al] by blast
  have len: "length (data s) = length bs" using ok by (simp add: all_ok_def)
  then have n': "n < length (data s)" using n by simp
  obtain g' x where b: "bstep (shared s) c = ret (g', x)" and post: "case x of
      Works c' \<Rightarrow> ok n c' \<and> cost c' < cost c | Calls_Swap c' \<Rightarrow> ok n c' \<and> cost c' < cost c | Ends c' \<Rightarrow> fin n c'"
    using body_step[OF k(3), of "shared s"] by (auto elim!: wpE)
  have wt: "weight (keys s ! n) = Suc (cost c)" by (simp add: k(1) weight_def)
  let ?put = "\<lambda>c'. on n (\<lambda>d. d\<lparr>body := c'\<rparr>) (s\<lparr>shared := g'\<rparr>)"
  have put: "keys (?put c') = (keys s)[n := (False, w, Unset, c')]" for c'
    using k(1) n' nth_keys[OF n'] by (simp add: keys_on key_def)
  have put_frame: "ticks (?put c') = ticks s" "timestamp (data (?put c') ! n) = timestamp (data s ! n)"
    "length (data (?put c')) = length bs" for c'
    using n' len by (simp_all add: on_def)
  have flags: "ctx_finished (data (?put c') ! i) = ctx_finished (data s ! i)" if "i < length bs" for c' i
    using that len n' by (cases "i = n") (simp_all add: on_def)
  have next_put: "next_alive (data (?put c')) n = next_alive (data s) n" for c' by (rule next_alive_keys[OF put n'])
  show ?thesis
  proof (cases x)
    case (Works c')
    have "coro_ok n (bs ! n) (False, w, Unset, c')" using post Works k(4) by (simp add: coro_ok_def)
    from all_ok_update[OF ok put n this] have "all_ok bs (?put c')" .
    moreover have "left (?put c') < left s"
      by (rule left_update[OF n' put]) (use post Works wt in \<open>simp add: weight_def\<close>)
    moreover have "rr_step late clk timeslice bstep s = ret (?put c')" for late
      using a b k(2) Works by (simp add: rr_step_def)
    moreover have "turn clk timeslice bstep s (?put c')" using a b k(2) Works by (simp add: turn_def)
    ultimately show ?thesis using goes_on[of "?put c'"] a flags[OF n] al by simp
  next
    case (Calls_Swap c')
    let ?s = "?put c'" and ?t = "swap clk timeslice n (?put c')"
    have as: "active ?s = Some n" using a by simp
    have kn: "keys ?s ! n = (False, w, Unset, c')" using put n' by simp
    note sw = swap_keys[of n ?s w Unset c' clk timeslice, OF _ kn as, unfolded put_frame next_put]
    have st: "rr_step late clk timeslice bstep s = ret ?t" for late
      using a b k(2) Calls_Swap by (simp add: rr_step_def)
    have co: "coro_ok n (bs ! n) (False, w, Unset, c')" "coro_ok n (bs ! n) (False, w + 1, Unset, c')"
      using post Calls_Swap k(4) by (simp_all add: coro_ok_def)
    have lt: "weight (False, v, Unset, c') < weight (keys s ! n)" for v using post Calls_Swap wt by (simp add: weight_def)
    show ?thesis
    proof (cases "clk (ticks s) - timestamp (data s ! n) < timeslice \<or> next_alive (data s) n = None")
      case True
      with sw n have t: "keys ?t = (keys s)[n := (False, w, Unset, c')]" "active ?t = Some n" using put by auto
      have "turn clk timeslice bstep s ?t"
        using a b k(2) Calls_Swap True t(2) next_alive_None[of "data s" n] n' by (auto simp: turn_def)
      with st all_ok_update[OF ok t(1) n co(1)] left_update[OF n' t(1) lt] t(2) keys_ctx(1)[OF t(1) n']
      show ?thesis by (intro goes_on[of ?t]) simp_all
    next
      case False
      then obtain i where i: "next_alive (data s) n = Some i" by auto
      note nx = next_alive_Some[OF i n']
      from False i sw n have t: "keys ?t = (keys s)[n := (False, w + 1, Unset, c')]" "active ?t = Some i"
        using put by simp_all
      have "turn clk timeslice bstep s ?t"
        using a b k(2) Calls_Swap False t(2) nx by (auto simp: turn_def)
      moreover have "\<not> ctx_finished (data ?t ! i)"
      proof -
        have "length (data ?t) = length (data s)" using arg_cong[OF t(1), of length] by simp
        then have "key (data ?t ! i) = key (data s ! i)" using t(1) nx(2,4) by (metis nth_keys nth_list_update_neq)
        with nx(3) show ?thesis by (simp add: key_def)
      qed
      ultimately show ?thesis
        using st all_ok_update[OF ok t(1) n co(2)] left_update[OF n' t(1) lt] t(2) nx(2) len
        by (intro switches[of ?t i]) simp_all
    qed
  next
    case (Ends c')
    let ?s = "?put c'" and ?t = "terminate clk n (?put c')"
    have as: "active ?s = Some n" using a by simp
    have kn: "keys ?s ! n = (False, w, Unset, c')" using put n' by simp
    note te = terminate_keys[of n ?s w Unset c', OF _ kn as, unfolded put_frame next_put, OF n]
    have kt: "keys ?t = (keys s)[n := (True, w, Unset, c')]" using te(1) put by simp
    have st: "rr_step late clk timeslice bstep s = follow_link late clk n ?t" for late
      using a b k(2) Ends by (simp add: rr_step_def)
    have co: "coro_ok n (bs ! n) (True, w, Unset, c')" using post Ends k(4) by (simp add: coro_ok_def)
    have ml: "made_link (data ?t ! n) = Unset" by (rule keys_ctx(3)[OF kt n'])
    have f: "rr_step False clk timeslice bstep s = fault Dangling" by (simp add: st follow_link_def ml)
    have len': "length (data ?t) = length bs" using arg_cong[OF kt, of length] len by simp
    have other: "ctx_finished (data ?t ! i) = ctx_finished (data s ! i)" if "i < length bs" "i \<noteq> n" for i
    proof -
      have "key (data ?t ! i) = key (data s ! i)" using kt that len len' by (metis nth_keys nth_list_update_neq)
      then show ?thesis by (simp add: key_def)
    qed
    have fn: "ctx_finished (data ?t ! n)" by (rule keys_ctx(1)[OF kt n', simplified])
    show ?thesis
    proof (cases "next_alive (data s) n")
      case None
      let ?v = "?t\<lparr>active := None\<rparr>"
      have "rr_step True clk timeslice bstep s = ret ?v" using None te(2) by (simp add: st follow_link_def)
      moreover have kv: "keys ?v = (keys s)[n := (True, w, Unset, c')]" using kt by simp
      moreover have all: "\<forall>i < length bs. ctx_finished (data ?v ! i)"
        using next_alive_None[OF None n'] other fn len by (metis sched.select_convs(1) sched.surjective sched.update_convs(2))
      moreover from this have "turn clk timeslice bstep s ?v" using a b k(2) Ends len' by (simp add: turn_def)
      ultimately show ?thesis
        using f all_ok_update[OF ok kv n co] left_update[OF n' kv] wt
        by (intro ends[of ?v]) (simp_all add: rr_ok_def weight_def)
    next
      case (Some i)
      let ?v = "resume clk i ?t"
      note nx = next_alive_Some[OF Some n']
      have "rr_step True clk timeslice bstep s = ret ?v" using Some te(2) by (simp add: st follow_link_def)
      moreover have kv: "keys ?v = (keys s)[n := (True, w, Unset, c')]" using kt by simp
      moreover have "turn clk timeslice bstep s ?v" using a b k(2) Ends nx(1) by (simp add: turn_def)
      moreover have "\<not> ctx_finished (data ?v ! i)"
      proof -
        have "length (data ?v) = length (data s)" using arg_cong[OF kv, of length] by simp
        then have "key (data ?v ! i) = key (data s ! i)" using kv nx(2,4) by (metis nth_keys nth_list_update_neq)
        with nx(3) show ?thesis by (simp add: key_def)
      qed
      ultimately show ?thesis
        using f all_ok_update[OF ok kv n co] left_update[OF n' kv] wt nx(2) len
        by (intro ends[of ?v]) (simp_all add: rr_ok_def weight_def)
    qed
  qed
qed

text \<open>On a system that follows the link when the function returns, the coroutines run to the end.\<close>

lemma late_run:
  "rr_ok bs s \<Longrightarrow> \<exists>k \<le> left s. \<exists>s'. rr_run True clk timeslice bstep k s = ret s' \<and> active s' = None \<and> rr_ok bs s' \<and>
     (\<forall>j < k. \<exists>u v. rr_run True clk timeslice bstep j s = ret u \<and> rr_step True clk timeslice bstep u = ret v \<and>
        turn clk timeslice bstep u v)"
proof (induction "left s" arbitrary: s rule: less_induct)
  case less
  show ?case
  proof (cases "active s")
    case None
    with less.prems show ?thesis by (intro exI[of _ 0]) simp
  next
    case (Some n)
    then have run: "all_ok bs s" "n < length bs" "\<not> ctx_finished (data s ! n)" using less.prems by (simp_all add: rr_ok_def)
    obtain s1 where s1: "rr_step True clk timeslice bstep s = ret s1" "rr_ok bs s1" "left s1 < left s"
      "turn clk timeslice bstep s s1"
      by (rule step_cases[OF run(1) Some run(2,3), of clk timeslice]) (use run(2) in \<open>auto simp: rr_ok_def\<close>)
    from less.hyps[OF s1(3,2)] obtain k s' where k: "k \<le> left s1" "rr_run True clk timeslice bstep k s1 = ret s'"
      "active s' = None" "rr_ok bs s'" and tr: "\<forall>j < k. \<exists>u v. rr_run True clk timeslice bstep j s1 = ret u \<and>
        rr_step True clk timeslice bstep u = ret v \<and> turn clk timeslice bstep u v" by blast
    have "\<exists>u v. rr_run True clk timeslice bstep j s = ret u \<and> rr_step True clk timeslice bstep u = ret v \<and>
        turn clk timeslice bstep u v" if "j < Suc k" for j
      using that tr s1(1,4) by (cases j) auto
    with k s1(1,3) show ?thesis by (intro exI[of _ "Suc k"]) auto
  qed
qed

text \<open>Where the link was fixed by \<^verbatim>\<open>makecontext\<close>, the first coroutine that ends has no link to follow.\<close>

lemma early_run:
  "all_ok bs s \<Longrightarrow> active s = Some n \<Longrightarrow> n < length bs \<Longrightarrow> \<not> ctx_finished (data s ! n) \<Longrightarrow>
     \<exists>k \<le> left s. rr_run False clk timeslice bstep k s = fault Dangling"
proof (induction "left s" arbitrary: s n rule: less_induct)
  case less
  note run = less.prems
  have more: "\<exists>k \<le> left s. rr_run False clk timeslice bstep k s = fault Dangling"
    if "rr_step False clk timeslice bstep s = ret s1" "left s1 < left s"
      "\<exists>k \<le> left s1. rr_run False clk timeslice bstep k s1 = fault Dangling" for s1
  proof -
    from that(3) obtain k where "k \<le> left s1" "rr_run False clk timeslice bstep k s1 = fault Dangling" by blast
    with that(1,2) show ?thesis by (intro exI[of _ "Suc k"]) simp
  qed
  show ?case
  proof (rule step_cases[OF run, of clk timeslice])
    fix s1 assume "\<And>late. rr_step late clk timeslice bstep s = ret s1" and "all_ok bs s1" and "left s1 < left s"
      and "active s1 = Some n" and "\<not> ctx_finished (data s1 ! n)"
    with less.hyps[of s1 n] run(3) more[of s1] show ?thesis by blast
  next
    fix s1 i assume "\<And>late. rr_step late clk timeslice bstep s = ret s1" and "all_ok bs s1" and "left s1 < left s"
      and "active s1 = Some i" and "i < length bs" and "\<not> ctx_finished (data s1 ! i)"
    with less.hyps[of s1 i] more[of s1] show ?thesis by blast
  next
    fix s1 :: "('g, 'c) sched"
    assume "rr_step False clk timeslice bstep s = fault Dangling" and "left s1 < left s"
    then show ?thesis by (intro exI[of _ "Suc 0"]) simp
  qed
qed

lemma start_ok:
  assumes "cs \<noteq> []" and "\<forall>i < length cs. ok i (cs ! i)"
  shows "rr_ok (map cost cs) (rr_start clk g cs)" "left (rr_start clk g cs) = sum_list (map cost cs) + length cs"
    "active (rr_start clk g cs) = Some 0"
proof -
  have ks: "keys (rr_start clk g cs) = map (\<lambda>c. (False, 0, Unset, c)) cs"
    by (simp add: rr_start_def) (simp add: keys_def key_def makecontext_def new_context_def comp_def)
  then have len: "length (data (rr_start clk g cs)) = length cs" by (metis length_keys length_map)
  show a: "active (rr_start clk g cs) = Some 0" by (simp add: rr_start_def)
  have "all_ok (map cost cs) (rr_start clk g cs)"
    using assms(2) by (simp add: all_ok_def len ks coro_ok_def)
  moreover have "\<not> ctx_finished (data (rr_start clk g cs) ! 0)"
  proof -
    have "0 < length cs" using assms(1) by simp
    then have "key (data (rr_start clk g cs) ! 0) = (False, 0, Unset, cs ! 0)"
      using ks len by (metis nth_keys nth_map)
    then show ?thesis by (simp add: key_def)
  qed
  ultimately show "rr_ok (map cost cs) (rr_start clk g cs)" using a assms(1) by (simp add: rr_ok_def)
  show "left (rr_start clk g cs) = sum_list (map cost cs) + length cs"
    by (simp add: left_def ks comp_def weight_def sum_list_Suc)
qed

lemma late_completes:
  assumes "cs \<noteq> []" and "\<forall>i < length cs. ok i (cs ! i)"
  shows "\<exists>k \<le> sum_list (map cost cs) + length cs. \<exists>s. rr_run True clk timeslice bstep k (rr_start clk g cs) = ret s \<and>
    active s = None \<and> length (data s) = length cs \<and>
    (\<forall>i < length cs. ctx_finished (data s ! i) \<and> fin i (body (data s ! i)) \<and> swap_count (data s ! i) \<le> cost (cs ! i)) \<and>
    (\<forall>j < k. \<exists>u v. rr_run True clk timeslice bstep j (rr_start clk g cs) = ret u \<and>
       rr_step True clk timeslice bstep u = ret v \<and> turn clk timeslice bstep u v)"
proof -
  note st = start_ok[OF assms, of clk g]
  from late_run[OF st(1), of clk timeslice] obtain k s where k: "k \<le> left (rr_start clk g cs)"
    "rr_run True clk timeslice bstep k (rr_start clk g cs) = ret s" "active s = None" "rr_ok (map cost cs) s"
    and tr: "\<forall>j < k. \<exists>u v. rr_run True clk timeslice bstep j (rr_start clk g cs) = ret u \<and>
       rr_step True clk timeslice bstep u = ret v \<and> turn clk timeslice bstep u v" by blast
  have len: "length (data s) = length cs" using k(4) by (simp add: rr_ok_def all_ok_def)
  have "ctx_finished (data s ! i) \<and> fin i (body (data s ! i)) \<and> swap_count (data s ! i) \<le> cost (cs ! i)"
    if "i < length cs" for i
  proof -
    have "coro_ok i (cost (cs ! i)) (key (data s ! i))" "ctx_finished (data s ! i)"
      using k(3,4) that len by (auto simp: rr_ok_def all_ok_def nth_keys)
    then show ?thesis by (simp add: coro_ok_def key_def)
  qed
  with k tr len show ?thesis unfolding st(2)[symmetric] by (intro exI[of _ k] exI[of _ s] conjI) simp_all
qed

lemma early_faults:
  assumes "cs \<noteq> []" and "\<forall>i < length cs. ok i (cs ! i)"
  shows "\<exists>k \<le> sum_list (map cost cs) + length cs. rr_run False clk timeslice bstep k (rr_start clk g cs) = fault Dangling"
proof -
  note st = start_ok[OF assms, of clk g]
  have "all_ok (map cost cs) (rr_start clk g cs)" "0 < length (map cost cs)" "\<not> ctx_finished (data (rr_start clk g cs) ! 0)"
    using st(1,3) by (simp_all add: rr_ok_def)
  from early_run[OF this(1) st(3) this(2,3), of clk timeslice] show ?thesis unfolding st(2) .
qed

end

section \<open>The property\<close>

text \<open>
  The scheduler alone: a body is the number of calls of \<^verbatim>\<open>swap\<close> it still has to make; nothing is shared.
\<close>

fun offers :: "unit \<Rightarrow> nat \<Rightarrow> (unit \<times> nat co_action) run" where
  "offers u 0 = ret (u, Ends 0)"
| "offers u (Suc todo) = ret (u, Calls_Swap todo)"

interpretation offering: coroutines offers "\<lambda>i c. True" "\<lambda>i c. c = 0" "\<lambda>c. c"
proof
  show "wp (offers g c) (\<lambda>(g', a). case a of Works c' \<Rightarrow> True \<and> c' < c | Calls_Swap c' \<Rightarrow> True \<and> c' < c | Ends c' \<Rightarrow> c' = 0)"
    for i g c by (cases c) simp_all
qed

text \<open>C26: whatever the clock shows and however long the time slice is. On a system that looks at \<^verbatim>\<open>uc_link\<close> when
  the function of a context returns, the coroutines run to the end: after at most one step for every
  call of \<^verbatim>\<open>swap\<close> and one for every coroutine control is back in \<^verbatim>\<open>main\<close>, every coroutine has finished
  with all its calls of \<^verbatim>\<open>swap\<close> behind it, none has been switched away from more often than it called
  \<^verbatim>\<open>swap\<close>, and every single step kept the order: a coroutine is left at a call of \<^verbatim>\<open>swap\<close> exactly when its
  time slice is used up and another one is unfinished, or when it ends, and then always for the next
  unfinished one in the circle. On a system where \<^verbatim>\<open>makecontext\<close> fixes the link, as POSIX has it, the
  first coroutine that ends follows a link that was never set, and control does not come back.\<close>

theorem round_robin_completes:
  assumes "todos \<noteq> []"
  shows "(\<exists>k \<le> sum_list todos + length todos. \<exists>s. rr_run True clk timeslice offers k (rr_start clk () todos) = ret s \<and>
      active s = None \<and> length (data s) = length todos \<and>
      (\<forall>i < length todos. ctx_finished (data s ! i) \<and> body (data s ! i) = 0 \<and> swap_count (data s ! i) \<le> todos ! i) \<and>
      (\<forall>j < k. \<exists>u v. rr_run True clk timeslice offers j (rr_start clk () todos) = ret u \<and>
         rr_step True clk timeslice offers u = ret v \<and> turn clk timeslice offers u v)) \<and>
    (\<exists>k \<le> sum_list todos + length todos. rr_run False clk timeslice offers k (rr_start clk () todos) = fault Dangling)"
  using offering.late_completes[OF assms, of clk timeslice "()"] offering.early_faults[OF assms, of clk timeslice "()"]
  by simp

theorem round_robin_completes_witness:
  "(\<exists>k s. k \<le> 6 \<and> rr_run True (\<lambda>i. of_nat i) 2 offers k (rr_start (\<lambda>i. of_nat i) () [3, 1]) = ret s \<and> active s = None \<and>
      body (data s ! 0) = 0 \<and> body (data s ! 1) = 0 \<and> swap_count (data s ! 1) \<le> 1) \<and>
   (\<exists>k \<le> 6. rr_run False (\<lambda>i. of_nat i) 2 offers k (rr_start (\<lambda>i. of_nat i) () [3, 1]) = fault Dangling)"
proof -
  have ne: "[3, 1 :: nat] \<noteq> []" by simp
  have sum: "sum_list [3, 1 :: nat] + length [3, 1 :: nat] = 6" by simp
  note run = round_robin_completes[OF ne, of "\<lambda>i. of_nat i" 2, unfolded sum]
  from run obtain k s where k: "k \<le> 6" "rr_run True (\<lambda>i. of_nat i) 2 offers k (rr_start (\<lambda>i. of_nat i) () [3, 1]) = ret s"
    "active s = None" and all: "\<forall>i < length [3, 1 :: nat]. ctx_finished (data s ! i) \<and> body (data s ! i) = 0 \<and>
      swap_count (data s ! i) \<le> [3, 1] ! i" by blast
  have "body (data s ! 0) = 0" "body (data s ! 1) = 0" "swap_count (data s ! 1) \<le> 1"
    using spec[OF all, of 0] spec[OF all, of 1] by simp_all
  with k run show ?thesis by blast
qed

end
