(* ===== verification/File_Sort.thy ===== *)
theory File_Sort
  imports Quick_Sort Round_Robin Buffers C_Text "HOL-Library.Signed_Division"
begin

text \<open>
  The program \<^verbatim>\<open>1/main.c\<close>: every coroutine reads its file into a growable buffer, sorts it and writes it
  back (\<^verbatim>\<open>sort_file\<close>), then \<^verbatim>\<open>merge_files\<close> merges the buffers into \<^verbatim>\<open>out.txt\<close>. A coroutine is a step
  function for the scheduler of theory \<^verbatim>\<open>Round_Robin\<close>: its state is the list of the actions it still has
  to do, its buffer and its file. The recursion of \<^verbatim>\<open>quick_sort\<close> is a list of ranges still to be sorted,
  with the calls of \<^verbatim>\<open>swap\<close> between them, so the coroutines interleave at exactly the calls of \<^verbatim>\<open>swap\<close>.
  The numbers \<^verbatim>\<open>rand\<close> returns are a parameter; the coroutines draw from one sequence. The files are
  distinct files.
\<close>

section \<open>The integer buffer\<close>

record ibuffer =
  ib_len :: nat
  ib_pos :: nat
  ib_array :: "int option list"

definition create_ibuffer :: "nat \<Rightarrow> ibuffer" where
  "create_ibuffer n = \<lparr>ib_len = n, ib_pos = 0, ib_array = replicate n None\<rparr>"

definition double_ibuffer :: "ibuffer \<Rightarrow> ibuffer run" where
  "double_ibuffer b = (let new = create_ibuffer (2 * ib_len b) in
     if ib_pos b > length (ib_array b) \<or> ib_pos b > length (ib_array new) then fault Out_Of_Bounds
     else ret (new\<lparr>ib_array := take (ib_pos b) (ib_array b) @ drop (ib_pos b) (ib_array new),
                  ib_pos := ib_pos b\<rparr>))"

definition insert_ibuffer :: "ibuffer \<Rightarrow> int \<Rightarrow> ibuffer run" where
  "insert_ibuffer b n =
     bnd (if ib_pos b = ib_len b then double_ibuffer b else ret b) (\<lambda>b.
       if ib_pos b < length (ib_array b)
       then ret (b\<lparr>ib_array := (ib_array b)[ib_pos b := Some n], ib_pos := ib_pos b + 1\<rparr>)
       else fault Out_Of_Bounds)"

definition ib_ok :: "ibuffer \<Rightarrow> bool" where
  "ib_ok b \<longleftrightarrow> 0 < ib_len b \<and> length (ib_array b) = ib_len b \<and> ib_pos b \<le> ib_len b \<and>
     None \<notin> set (take (ib_pos b) (ib_array b))"

definition ib_content :: "ibuffer \<Rightarrow> int list" where
  "ib_content b = map the (take (ib_pos b) (ib_array b))"

interpretation ib: growable create_ibuffer insert_ibuffer ib_content ib_ok
proof
  show "ib_ok (create_ibuffer n)" if "0 < n" for n using that by (simp add: ib_ok_def create_ibuffer_def)
  show "ib_content (create_ibuffer n) = []" for n by (simp add: ib_content_def create_ibuffer_def)
  show "wp (insert_ibuffer b x) (\<lambda>b'. ib_ok b' \<and> ib_content b' = ib_content b @ [x])" if "ib_ok b" for b x
  proof (cases "ib_pos b = ib_len b")
    case True
    with that show ?thesis
      by (auto simp: insert_ibuffer_def double_ibuffer_def create_ibuffer_def Let_def ib_ok_def
          ib_content_def take_Suc_conv_app_nth nth_append list_update_append)
  next
    case False
    with that show ?thesis
      by (auto simp: insert_ibuffer_def ib_ok_def ib_content_def take_Suc_conv_app_nth)
  qed
qed

section \<open>Sorting one file\<close>

text \<open>
  A stream over a text file; \<^verbatim>\<open>fprintf\<close> overwrites the text at the position.
  Reading stops at the first thing that is no number.
\<close>

record stream =
  text_of :: string
  pos_of :: nat

definition fprint :: "stream \<Rightarrow> string \<Rightarrow> stream" where
  "fprint f s = f\<lparr>text_of := blit (text_of f) (pos_of f) s, pos_of := pos_of f + length s\<rparr>"

definition rewind :: "stream \<Rightarrow> stream" where
  "rewind f = f\<lparr>pos_of := 0\<rparr>"

definition fscanf_int :: "stream \<Rightarrow> (int \<times> stream) option" where
  "fscanf_int f = (case scan_int (drop (pos_of f) (text_of f)) of None \<Rightarrow> None
     | Some (i, t) \<Rightarrow> Some (i, f\<lparr>pos_of := length (text_of f) - length t\<rparr>))"

text \<open>
  The actions of \<^verbatim>\<open>sort_file\<close> and \<^verbatim>\<open>quick_sort\<close>: the read loop, the call of \<^verbatim>\<open>quick_sort\<close> on the whole buffer,
  \<^verbatim>\<open>quick_sort\<close> on a range, a call of \<^verbatim>\<open>swap\<close>, \<^verbatim>\<open>rewind\<close>, and the write loop from an index on.
\<close>

datatype sort_act = Read | Sort | Quick int int | Give_Way | Rewind | Write nat

record sort_co =
  acts :: "sort_act list"
  cbuf :: ibuffer
  cfile :: stream

definition sort_file :: "sort_act list" where
  "sort_file = [Read, Give_Way, Sort, Give_Way, Rewind, Give_Way, Write 0, Give_Way]"

definition new_coroutine :: "string \<Rightarrow> sort_co" where
  "new_coroutine t = \<lparr>acts = sort_file, cbuf = create_ibuffer 128, cfile = \<lparr>text_of = t, pos_of = 0\<rparr>\<rparr>"

definition read_step :: "sort_act list \<Rightarrow> sort_co \<Rightarrow> sort_co run" where
  "read_step k c = (case fscanf_int (cfile c) of None \<Rightarrow> ret (c\<lparr>acts := k\<rparr>)
     | Some (x, f) \<Rightarrow> bnd (insert_ibuffer (cbuf c) x) (\<lambda>b.
         ret (c\<lparr>acts := Give_Way # Read # k, cbuf := b, cfile := f\<rparr>)))"

definition with_content :: "ibuffer \<Rightarrow> int list \<Rightarrow> ibuffer" where
  "with_content b a = b\<lparr>ib_array := map Some a @ drop (ib_pos b) (ib_array b)\<rparr>"

definition quick_step :: "(nat \<Rightarrow> nat) \<Rightarrow> nat \<Rightarrow> int \<Rightarrow> int \<Rightarrow> sort_act list \<Rightarrow> sort_co \<Rightarrow> (nat \<times> sort_co) run" where
  "quick_step rnd g l r k c = (if l < r
     then bnd (part l r \<lparr>arr = ib_content (cbuf c), rands = rnd, drawn = g, yields = 0\<rparr>) (\<lambda>(p, s).
       ret (drawn s, c\<lparr>acts := Give_Way # Quick l (p - 1) # Give_Way # Quick (p + 1) r # Give_Way # k,
                     cbuf := with_content (cbuf c) (arr s)\<rparr>))
     else ret (g, c\<lparr>acts := k\<rparr>))"

definition write_step :: "nat \<Rightarrow> sort_act list \<Rightarrow> sort_co \<Rightarrow> sort_co run" where
  "write_step i k c = (if i < ib_pos (cbuf c)
     then if i < length (ib_array (cbuf c))
       then case ib_array (cbuf c) ! i of None \<Rightarrow> fault Out_Of_Bounds
         | Some x \<Rightarrow> ret (c\<lparr>acts := Give_Way # Write (i + 1) # k, cfile := fprint (cfile c) (show_int x @ '' '')\<rparr>)
       else fault Out_Of_Bounds
     else ret (c\<lparr>acts := k\<rparr>))"

definition working :: "'g \<Rightarrow> 'c run \<Rightarrow> ('g \<times> 'c co_action) run" where
  "working g m = bnd m (\<lambda>c. ret (g, Works c))"

definition sort_step :: "(nat \<Rightarrow> nat) \<Rightarrow> nat \<Rightarrow> sort_co \<Rightarrow> (nat \<times> sort_co co_action) run" where
  "sort_step rnd g c = (case acts c of
       [] \<Rightarrow> ret (g, Ends c)
     | a # k \<Rightarrow> (case a of
         Give_Way \<Rightarrow> ret (g, Calls_Swap (c\<lparr>acts := k\<rparr>))
       | Read \<Rightarrow> working g (read_step k c)
       | Sort \<Rightarrow> ret (g, Works (c\<lparr>acts := Quick 0 (int (ib_pos (cbuf c)) - 1) # k\<rparr>))
       | Quick l r \<Rightarrow> bnd (quick_step rnd g l r k c) (\<lambda>(g, c). ret (g, Works c))
       | Rewind \<Rightarrow> ret (g, Works (c\<lparr>acts := k, cfile := rewind (cfile c)\<rparr>))
       | Write i \<Rightarrow> working g (write_step i k c)))"

section \<open>Merging\<close>

fun pick_min :: "ibuffer list \<Rightarrow> nat \<Rightarrow> int \<Rightarrow> int \<Rightarrow> (int \<times> int) run" where
  "pick_min [] i m flag = ret (m, flag)"
| "pick_min (b # bs) i m flag = (if ib_pos b = 0 then pick_min bs (i + 1) m flag
     else case ib_array b of Some v # _ \<Rightarrow>
            if m \<ge> v then pick_min bs (i + 1) v (int i) else pick_min bs (i + 1) m flag
          | _ \<Rightarrow> fault Out_Of_Bounds)"

definition drop_first :: "ibuffer \<Rightarrow> ibuffer" where
  "drop_first b = b\<lparr>ib_array := tl (ib_array b), ib_pos := ib_pos b - 1\<rparr>"

partial_function (option) merge_files :: "ibuffer list \<Rightarrow> string \<Rightarrow> (ibuffer list \<times> string) run" where
  [code]: "merge_files bs out = bnd (pick_min bs 0 int_max (- 1)) (\<lambda>(m, flag).
     if flag = - 1 then ret (bs, out)
     else merge_files (bs[nat flag := drop_first (bs ! nat flag)]) (out @ show_int m @ '' ''))"

section \<open>The program\<close>

text \<open>
  \<open>main\<close> with the texts of the files named on its command line, \<open>None\<close> for one that cannot be
  opened: then the program ends at once, and so it does after the sorting when \<^verbatim>\<open>out.txt\<close> cannot be
  created. \<open>target\<close> is the value of the first argument. The last component of the result is what the
  statistics print of every coroutine: its switches and its time.
\<close>

datatype outcome =
    No_Jobs
  | File_Not_Opened
  | Merged string "string list" "(nat \<times> 64 word) list"

definition sort_main :: "bool \<Rightarrow> (nat \<Rightarrow> 64 word) \<Rightarrow> (nat \<Rightarrow> nat) \<Rightarrow> int \<Rightarrow> bool \<Rightarrow> string option list \<Rightarrow> outcome run" where
  "sort_main late clk rnd target can_create files =
     (if files = [] then ret No_Jobs
      else if None \<in> set files then ret File_Not_Opened
      else let timeslice = word_of_int (target sdiv int (length files)) in
        bnd (schedule late clk timeslice (sort_step rnd) (rr_start clk 0 (map (new_coroutine \<circ> the) files))) (\<lambda>s.
        let cs = map body (data s) in
        if \<not> can_create then ret File_Not_Opened
        else bnd (merge_files (map cbuf cs) []) (\<lambda>(bs, out).
          ret (Merged out (map (\<lambda>c. text_of (cfile c)) cs) (map (\<lambda>d. (swap_count d, time_work d)) (data s))))))"

section \<open>What a coroutine is going to do\<close>

definition rest_of :: "stream \<Rightarrow> string" where
  "rest_of f = drop (pos_of f) (text_of f)"

text \<open>\<open>will as Q b f\<close>: the actions \<open>as\<close> lead from buffer \<open>b\<close> and file \<open>f\<close> to a state where \<open>Q\<close> holds, whatever
  numbers \<^verbatim>\<open>rand\<close> returns.\<close>

fun will :: "sort_act list \<Rightarrow> (ibuffer \<Rightarrow> stream \<Rightarrow> bool) \<Rightarrow> ibuffer \<Rightarrow> stream \<Rightarrow> bool" where
  "will [] Q b f = Q b f"
| "will (Give_Way # k) Q b f = will k Q b f"
| "will (Read # k) Q b f = (pos_of f \<le> length (text_of f) \<and> (\<forall>b' f'. ib_ok b' \<longrightarrow>
     ib_content b' = ib_content b @ scan_all (rest_of f) \<longrightarrow> text_of f' = text_of f \<longrightarrow> will k Q b' f'))"
| "will (Sort # k) Q b f = (\<forall>b'. ib_ok b' \<longrightarrow> ib_content b' = sort (ib_content b) \<longrightarrow> will k Q b' f)"
| "will (Quick l r # k) Q b f = (0 \<le> l \<and> r < int (ib_pos b) \<and>
     (\<forall>b'. ib_ok b' \<longrightarrow> sorts_range l r (ib_content b) (ib_content b') \<longrightarrow> will k Q b' f))"
| "will (Rewind # k) Q b f = will k Q b (rewind f)"
| "will (Write i # k) Q b f = (pos_of f \<le> length (text_of f) \<and> (\<forall>f'.
     text_of f' = blit (text_of f) (pos_of f) (print_ints (drop i (ib_content b))) \<longrightarrow> will k Q b f'))"

text \<open>A bound on the steps to go: \<open>n\<close> numbers are in the buffer, \<open>t\<close> is the text to be read.\<close>

fun costs :: "sort_act list \<Rightarrow> nat \<Rightarrow> string \<Rightarrow> nat" where
  "costs [] n t = 0"
| "costs (Give_Way # k) n t = 1 + costs k n t"
| "costs (Read # k) n t = 2 * length t + 1 + costs k (n + length (scan_all t)) t"
| "costs (Sort # k) n t = 5 * n + 2 + costs k n t"
| "costs (Quick l r # k) n t = 5 * nat (r - l + 1) + 1 + costs k n t"
| "costs (Rewind # k) n t = 1 + costs k n t"
| "costs (Write i # k) n t = 2 * (n - i) + 1 + costs k n t"

definition sort_cost :: "sort_co \<Rightarrow> nat" where
  "sort_cost c = costs (acts c) (ib_pos (cbuf c)) (rest_of (cfile c))"

lemma costs_text: "Read \<notin> set k \<Longrightarrow> costs k n t = costs k n t'"
  by (induction k n t rule: costs.induct) auto

text \<open>Only the first action, or the one behind the call of \<^verbatim>\<open>swap\<close> in the read loop, reads.\<close>

definition reads_first :: "sort_act list \<Rightarrow> bool" where
  "reads_first as \<longleftrightarrow> (\<exists>k. Read \<notin> set k \<and> (as = k \<or> as = Read # k \<or> as = Give_Way # Read # k))"

definition co_ok :: "(ibuffer \<Rightarrow> stream \<Rightarrow> bool) \<Rightarrow> sort_co \<Rightarrow> bool" where
  "co_ok Q c \<longleftrightarrow> ib_ok (cbuf c) \<and> reads_first (acts c) \<and> will (acts c) Q (cbuf c) (cfile c)"

definition advances :: "(ibuffer \<Rightarrow> stream \<Rightarrow> bool) \<Rightarrow> sort_co \<Rightarrow> sort_co \<Rightarrow> bool" where
  "advances Q c c' \<longleftrightarrow> co_ok Q c' \<and> sort_cost c' < sort_cost c"

lemma ib_content_length: "ib_ok b \<Longrightarrow> length (ib_content b) = ib_pos b"
  by (simp add: ib_ok_def ib_content_def)

lemma reads_first_tl:
  assumes "reads_first (a # k)" and "a \<noteq> Give_Way"
  shows "Read \<notin> set k"
  using assms by (auto simp: reads_first_def)

lemma reads_firstI: "Read \<notin> set k \<Longrightarrow> reads_first k" "Read \<notin> set k \<Longrightarrow> reads_first (Give_Way # Read # k)"
  by (auto simp: reads_first_def)

lemma advancesI:
  assumes "acts c' = as" and "cbuf c' = b" and "cfile c' = f" and "ib_ok b" and "reads_first as" and "will as Q b f"
    and "acts c = as0" and "costs as (ib_pos b) (rest_of f) < costs as0 (ib_pos (cbuf c)) (rest_of (cfile c))"
  shows "advances Q c c'"
  using assms by (simp add: advances_def co_ok_def sort_cost_def)

lemma give_way_advances:
  assumes "co_ok Q c" and "acts c = Give_Way # k"
  shows "advances Q c (c\<lparr>acts := k\<rparr>)"
  using assms by (auto simp: advances_def co_ok_def sort_cost_def reads_first_def)

lemma read_step_advances:
  assumes ok: "co_ok Q c" and a: "acts c = Read # k"
  shows "wp (read_step k c) (advances Q c)"
proof -
  let ?f = "cfile c" and ?b = "cbuf c"
  have nr: "Read \<notin> set k" using ok a by (intro reads_first_tl[of Read k]) (simp_all add: co_ok_def)
  have b: "ib_ok ?b" and p: "pos_of ?f \<le> length (text_of ?f)"
    and w: "\<And>b' f'. ib_ok b' \<Longrightarrow> ib_content b' = ib_content ?b @ scan_all (rest_of ?f) \<Longrightarrow>
      text_of f' = text_of ?f \<Longrightarrow> will k Q b' f'"
    using ok a by (simp_all add: co_ok_def)
  show ?thesis
  proof (cases "scan_int (rest_of ?f)")
    case None
    then have e: "scan_all (rest_of ?f) = []" by (simp add: scan_all.simps[of "rest_of ?f"])
    then have "will k Q ?b ?f" by (intro w b) simp_all
    with None e b reads_firstI(1)[OF nr] a show ?thesis
      by (simp add: read_step_def fscanf_int_def flip: rest_of_def)
        (simp add: advances_def co_ok_def sort_cost_def)
  next
    case (Some r)
    then obtain x t where x: "scan_int (rest_of ?f) = Some (x, t)" by (cases r) simp
    let ?g = "?f\<lparr>pos_of := length (text_of ?f) - length t\<rparr>"
    have lt: "length t < length (rest_of ?f)" using scan_shorter[OF x] .
    have d: "rest_of ?g = t" using scan_suffix[OF x] lt p by (simp add: rest_of_def)
    have sc: "scan_all (rest_of ?f) = x # scan_all t" using x by (simp add: scan_all.simps[of "rest_of ?f"])
    obtain b' where b': "insert_ibuffer ?b x = ret b'" "ib_ok b'" "ib_content b' = ib_content ?b @ [x]"
      by (rule ib.insert_ret[OF b, of x])
    let ?c = "c\<lparr>acts := Give_Way # Read # k, cbuf := b', cfile := ?g\<rparr>"
    have pos: "ib_pos b' = ib_pos ?b + 1"
      using b' b by (metis ib_content_length length_append_singleton Suc_eq_plus1)
    have "will (Give_Way # Read # k) Q b' ?g"
      using w b'(3) d sc by simp
    then have "co_ok Q ?c" using b'(2) reads_firstI(2)[OF nr] by (simp add: co_ok_def)
    moreover have "sort_cost ?c < sort_cost c"
      using a d lt sc pos costs_text[OF nr, of "ib_pos ?b + Suc (length (scan_all t))" t "rest_of ?f"]
      by (simp add: sort_cost_def)
    ultimately have "advances Q c ?c" by (simp add: advances_def)
    moreover have "read_step k c = ret ?c"
      using x b'(1) by (simp add: read_step_def fscanf_int_def flip: rest_of_def)
    ultimately show ?thesis by simp
  qed
qed

lemma with_content_ok:
  assumes "ib_ok b" and "length a = ib_pos b"
  shows "ib_ok (with_content b a)" "ib_content (with_content b a) = a" "ib_pos (with_content b a) = ib_pos b"
  using assms by (auto simp: with_content_def ib_ok_def ib_content_def comp_def)

lemma sort_advances:
  assumes ok: "co_ok Q c" and a: "acts c = Sort # k"
  shows "advances Q c (c\<lparr>acts := Quick 0 (int (ib_pos (cbuf c)) - 1) # k\<rparr>)"
proof -
  let ?b = "cbuf c"
  have nr: "Read \<notin> set k" using ok a by (intro reads_first_tl[of Sort k]) (simp_all add: co_ok_def)
  have b: "ib_ok ?b" and w: "\<And>b'. ib_ok b' \<Longrightarrow> ib_content b' = sort (ib_content ?b) \<Longrightarrow> will k Q b' (cfile c)"
    using ok a by (simp_all add: co_ok_def)
  have "ib_content b' = sort (ib_content ?b)"
    if "ib_ok b'" "sorts_range 0 (int (ib_pos ?b) - 1) (ib_content ?b) (ib_content b')" for b'
  proof -
    have m: "mset (ib_content b') = mset (ib_content ?b)" and l: "length (ib_content b') = ib_pos ?b"
      using that(2) ib_content_length[OF b] by (simp_all add: sorts_range_def shuffles_def)
    have "sorted (ib_content b')" using that(2) l by (intro sorted_whole) (simp add: sorts_range_def)
    from properties_for_sort[OF m this] show ?thesis by simp
  qed
  with w have "will (Quick 0 (int (ib_pos ?b) - 1) # k) Q ?b (cfile c)" by simp
  then show ?thesis
    using b a reads_firstI(1)[of "Quick 0 (int (ib_pos ?b) - 1) # k"] nr
    by (simp add: advances_def co_ok_def sort_cost_def)
qed

lemma quick_step_advances:
  assumes ok: "co_ok Q c" and a: "acts c = Quick l r # k"
  shows "wp (quick_step rnd g l r k c) (\<lambda>(g', c'). advances Q c c')"
proof -
  let ?b = "cbuf c"
  have nr: "Read \<notin> set k" using ok a by (intro reads_first_tl[of "Quick l r" k]) (simp_all add: co_ok_def)
  have b: "ib_ok ?b" and l: "0 \<le> l" and r: "r < int (ib_pos ?b)"
    and w: "\<And>b'. ib_ok b' \<Longrightarrow> sorts_range l r (ib_content ?b) (ib_content b') \<Longrightarrow> will k Q b' (cfile c)"
    using ok a by (simp_all add: co_ok_def)
  show ?thesis
  proof (cases "l < r")
    case False
    then have "will k Q ?b (cfile c)" using b by (intro w sorts_range_trivial) simp_all
    with False b a reads_firstI(1)[OF nr] show ?thesis
      by (simp add: quick_step_def advances_def co_ok_def sort_cost_def)
  next
    case True
    let ?s = "\<lparr>arr = ib_content ?b, rands = rnd, drawn = g, yields = 0\<rparr>"
    have len: "length (ib_content ?b) = ib_pos ?b" by (rule ib_content_length[OF b])
    obtain p s1 where q: "part l r ?s = ret (p, s1)" and sh: "shuffles l r (ib_content ?b) (arr s1)"
      and pt: "parted l r p (arr s1)"
      using part_parts[OF l True, of ?s] r len by (auto elim!: wpE)
    have p: "l \<le> p" "p \<le> r" using pt by (simp_all add: parted_def)
    have l1: "length (arr s1) = ib_pos ?b" using sh len by (simp add: shuffles_def)
    let ?b1 = "with_content ?b (arr s1)" and ?as = "Give_Way # Quick l (p - 1) # Give_Way # Quick (p + 1) r # Give_Way # k"
    note b1 = with_content_ok[OF b l1]
    have "will k Q b3 (cfile c)"
      if "ib_ok b3" "sorts_range l (p - 1) (arr s1) (ib_content b2)" "sorts_range (p + 1) r (ib_content b2) (ib_content b3)" for b2 b3
      by (rule w[OF that(1) sorts_range_join[OF sh pt that(2,3) l]]) (use r len in simp)
    moreover have "ib_pos b2 = ib_pos ?b" if "ib_ok b2" "sorts_range l (p - 1) (arr s1) (ib_content b2)" for b2
      using that l1 ib_content_length[OF that(1)] by (simp add: sorts_range_def shuffles_def)
    ultimately have "will ?as Q ?b1 (cfile c)"
      using b1 l r p by (simp (no_asm_simp))
    moreover have "reads_first ?as" by (rule reads_firstI(1)) (use nr in simp)
    moreover have "costs ?as (ib_pos ?b) t < costs (Quick l r # k) (ib_pos ?b) t" for t
    proof -
      have "nat (p - 1 - l + 1) + nat (r - (p + 1) + 1) + 1 = nat (r - l + 1)" using p by linarith
      then show ?thesis by simp
    qed
    moreover have "acts (c\<lparr>acts := ?as, cbuf := ?b1\<rparr>) = ?as" "cbuf (c\<lparr>acts := ?as, cbuf := ?b1\<rparr>) = ?b1"
      "cfile (c\<lparr>acts := ?as, cbuf := ?b1\<rparr>) = cfile c" by simp_all
    ultimately have "advances Q c (c\<lparr>acts := ?as, cbuf := ?b1\<rparr>)"
      using advancesI[OF _ _ _ b1(1) _ _ a, of "c\<lparr>acts := ?as, cbuf := ?b1\<rparr>" ?as "cfile c" Q] b1(3) by metis
    then show ?thesis using True q by (simp add: quick_step_def)
  qed
qed

lemma rewind_advances:
  assumes ok: "co_ok Q c" and a: "acts c = Rewind # k"
  shows "advances Q c (c\<lparr>acts := k, cfile := rewind (cfile c)\<rparr>)"
proof -
  have nr: "Read \<notin> set k" using ok a by (intro reads_first_tl[of Rewind k]) (simp_all add: co_ok_def)
  then show ?thesis
    using ok a reads_firstI(1)[OF nr] costs_text[OF nr, of "ib_pos (cbuf c)" "rest_of (rewind (cfile c))" "rest_of (cfile c)"]
    by (simp add: advances_def co_ok_def sort_cost_def)
qed

lemma write_step_advances:
  assumes ok: "co_ok Q c" and a: "acts c = Write i # k"
  shows "wp (write_step i k c) (advances Q c)"
proof -
  let ?b = "cbuf c" and ?f = "cfile c"
  have nr: "Read \<notin> set k" using ok a by (intro reads_first_tl[of "Write i" k]) (simp_all add: co_ok_def)
  have b: "ib_ok ?b" and p: "pos_of ?f \<le> length (text_of ?f)"
    and w: "\<And>f'. text_of f' = blit (text_of ?f) (pos_of ?f) (print_ints (drop i (ib_content ?b))) \<Longrightarrow> will k Q ?b f'"
    using ok a by (simp_all add: co_ok_def)
  note len = ib_content_length[OF b]
  show ?thesis
  proof (cases "i < ib_pos ?b")
    case False
    then have "will k Q ?b ?f" using len by (intro w) simp
    with False b a reads_firstI(1)[OF nr] show ?thesis
      by (simp add: write_step_def advances_def co_ok_def sort_cost_def)
  next
    case True
    have i: "i < length (ib_array ?b)" using True b by (simp add: ib_ok_def)
    have "ib_array ?b ! i \<in> set (take (ib_pos ?b) (ib_array ?b))" using True i by (auto simp: in_set_conv_nth)
    with b have "ib_array ?b ! i \<noteq> None" by (metis ib_ok_def)
    then obtain x where x: "ib_array ?b ! i = Some x" by blast
    have d: "drop i (ib_content ?b) = x # drop (i + 1) (ib_content ?b)"
      using True i x len by (subst Cons_nth_drop_Suc[symmetric]) (simp_all add: ib_content_def)
    let ?g = "fprint ?f (show_int x @ '' '')" and ?as = "Give_Way # Write (i + 1) # k"
    have pg: "pos_of ?g \<le> length (text_of ?g)"
      using p by (simp add: fprint_def length_blit_max del: append_Cons)
    have "will k Q ?b f'" if "text_of f' = blit (text_of ?g) (pos_of ?g) (print_ints (drop (i + 1) (ib_content ?b)))" for f'
      using that blit_blit_adjacent[OF p, of "show_int x @ '' ''" "print_ints (drop (i + 1) (ib_content ?b))"]
      by (intro w) (simp add: d fprint_def)
    then have "will ?as Q ?b ?g" using pg by simp
    moreover have "reads_first ?as" by (rule reads_firstI(1)) (use nr in simp)
    moreover have "costs ?as (ib_pos ?b) (rest_of ?g) < costs (Write i # k) (ib_pos ?b) (rest_of ?f)"
      using True costs_text[OF nr, of "ib_pos ?b" "rest_of ?g" "rest_of ?f"] by simp
    moreover have "acts (c\<lparr>acts := ?as, cfile := ?g\<rparr>) = ?as" "cbuf (c\<lparr>acts := ?as, cfile := ?g\<rparr>) = ?b"
      "cfile (c\<lparr>acts := ?as, cfile := ?g\<rparr>) = ?g" by simp_all
    ultimately have "advances Q c (c\<lparr>acts := ?as, cfile := ?g\<rparr>)"
      using advancesI[OF _ _ _ b _ _ a, of "c\<lparr>acts := ?as, cfile := ?g\<rparr>" ?as ?g Q] by metis
    then show ?thesis using True i x by (simp add: write_step_def)
  qed
qed

lemma sort_step_advances:
  assumes ok: "co_ok Q c"
  shows "wp (sort_step rnd g c) (\<lambda>(g', a). case a of
      Works c' \<Rightarrow> co_ok Q c' \<and> sort_cost c' < sort_cost c
    | Calls_Swap c' \<Rightarrow> co_ok Q c' \<and> sort_cost c' < sort_cost c
    | Ends c' \<Rightarrow> Q (cbuf c') (cfile c'))"
proof (cases "acts c")
  case Nil
  with ok show ?thesis by (simp add: sort_step_def co_ok_def)
next
  case (Cons a k)
  show ?thesis
  proof (cases a)
    case Read
    with read_step_advances[OF ok, of k] Cons show ?thesis
      by (auto simp: sort_step_def working_def advances_def elim!: wp_mono)
  next
    case Sort
    with sort_advances[OF ok, of k] Cons show ?thesis by (simp add: sort_step_def advances_def)
  next
    case (Quick l r)
    with quick_step_advances[OF ok, of l r k rnd g] Cons show ?thesis
      by (auto simp: sort_step_def advances_def elim!: wp_mono)
  next
    case Give_Way
    with give_way_advances[OF ok, of k] Cons show ?thesis by (simp add: sort_step_def advances_def)
  next
    case Rewind
    with rewind_advances[OF ok, of k] Cons show ?thesis by (simp add: sort_step_def advances_def)
  next
    case (Write i)
    with write_step_advances[OF ok, of i k] Cons show ?thesis
      by (auto simp: sort_step_def working_def advances_def elim!: wp_mono)
  qed
qed

section \<open>The merge\<close>

text \<open>\<open>view b xs\<close>: the numbers still to be merged of a buffer whose array pointer has advanced.\<close>

definition view :: "ibuffer \<Rightarrow> int list \<Rightarrow> bool" where
  "view b xs \<longleftrightarrow> ib_pos b = length xs \<and> take (length xs) (ib_array b) = map Some xs"

lemma map_Some_the: "None \<notin> set xs \<Longrightarrow> map (Some \<circ> the) xs = xs"
  by (induction xs) auto

lemma view_content: "ib_ok b \<Longrightarrow> view b (ib_content b)"
  by (simp add: view_def ib_ok_def ib_content_def map_Some_the min_def)

lemma view_empty: "view b xs \<Longrightarrow> ib_pos b = 0 \<longleftrightarrow> xs = []"
  by (auto simp: view_def)

lemma view_first:
  assumes "view b (x # xs)"
  obtains rest where "ib_array b = Some x # rest" "take (length xs) rest = map Some xs"
  using assms by (cases "ib_array b") (auto simp: view_def)

lemma view_drop:
  assumes "view b (x # xs)"
  shows "view (drop_first b) xs"
proof -
  obtain rest where "ib_array b = Some x # rest" "take (length xs) rest = map Some xs"
    using view_first[OF assms] by metis
  with assms show ?thesis by (simp add: view_def drop_first_def)
qed

definition heads_from :: "int list list \<Rightarrow> int \<Rightarrow> bool" where
  "heads_from xss m \<longleftrightarrow> (\<forall>xs \<in> set xss. xs \<noteq> [] \<longrightarrow> m \<le> hd xs)"

definition picked :: "int list list \<Rightarrow> nat \<Rightarrow> int \<Rightarrow> int \<Rightarrow> int \<Rightarrow> int \<Rightarrow> bool" where
  "picked xss i m flag m' flag' \<longleftrightarrow>
     (m' = m \<and> flag' = flag \<and> (\<forall>xs \<in> set xss. xs \<noteq> [] \<longrightarrow> m < hd xs)) \<or>
     (m' \<le> m \<and> heads_from xss m' \<and>
       (\<exists>k < length xss. flag' = int (i + k) \<and> xss ! k \<noteq> [] \<and> m' = hd (xss ! k)))"

lemma picked_Cons:
  assumes "picked xss (Suc i) m1 flag1 m' flag'"
    and "(m1, flag1) = (if xs = [] \<or> m < hd xs then (m, flag) else (hd xs, int i))"
  shows "picked (xs # xss) i m flag m' flag'"
proof -
  consider (none) "m' = m1" "flag' = flag1" "\<forall>ys \<in> set xss. ys \<noteq> [] \<longrightarrow> m1 < hd ys"
    | (some) k where "m' \<le> m1" "heads_from xss m'" "k < length xss" "flag' = int (Suc i + k)"
        "xss ! k \<noteq> []" "m' = hd (xss ! k)"
    using assms(1) unfolding picked_def by blast
  then show ?thesis
  proof cases
    case none
    then show ?thesis
      using assms(2) unfolding picked_def heads_from_def
      by (cases "xs = [] \<or> m < hd xs") (auto intro!: exI[of _ 0] order_less_imp_le)
  next
    case some
    have "m' \<le> m" "xs \<noteq> [] \<longrightarrow> m' \<le> hd xs" using some(1) assms(2) by (auto split: if_splits)
    with some show ?thesis
      unfolding picked_def heads_from_def by (intro disjI2 conjI exI[of _ "Suc k"]) auto
  qed
qed

lemma pick_min_spec:
  "list_all2 view bs xss \<Longrightarrow> wp (pick_min bs i m flag) (\<lambda>(m', flag'). picked xss i m flag m' flag')"
proof (induction bs xss arbitrary: i m flag rule: list_all2_induct)
  case Nil
  then show ?case by (simp add: picked_def)
next
  case (Cons b bs xs xss)
  have step: "wp (pick_min bs (Suc i) m1 flag1) (\<lambda>(m', flag'). picked (xs # xss) i m flag m' flag')"
    if "(m1, flag1) = (if xs = [] \<or> m < hd xs then (m, flag) else (hd xs, int i))" for m1 flag1
    by (rule wp_mono[OF Cons.IH]) (use picked_Cons[OF _ that] in auto)
  show ?case
  proof (cases xs)
    case Nil
    then show ?thesis using step view_empty[OF \<open>view b xs\<close>] by simp
  next
    case (Cons x ys)
    then have v: "view b (x # ys)" using \<open>view b xs\<close> by simp
    obtain rest where a: "ib_array b = Some x # rest" using view_first[OF v] by metis
    have "ib_pos b \<noteq> 0" using view_empty[OF v] by simp
    with a step Cons show ?thesis by simp
  qed
qed

lemma mset_concat_tl:
  "k < length xss \<Longrightarrow> xss ! k \<noteq> [] \<Longrightarrow>
     mset (concat xss) = {#hd (xss ! k)#} + mset (concat (xss[k := tl (xss ! k)]))"
proof (induction xss arbitrary: k)
  case (Cons xs xss)
  show ?case
  proof (cases k)
    case 0
    with Cons.prems show ?thesis by (cases xs) auto
  next
    case (Suc j)
    with Cons show ?thesis by simp
  qed
qed simp

lemma heads_below:
  assumes "heads_from xss m" and "\<forall>xs \<in> set xss. sorted xs"
  shows "\<forall>x \<in> set (concat xss). m \<le> x"
proof
  fix x assume "x \<in> set (concat xss)"
  then obtain xs where xs: "xs \<in> set xss" "x \<in> set xs" by auto
  obtain y ys where "xs = y # ys" using xs(2) by (cases xs) simp_all
  with xs assms show "m \<le> x" by (fastforce simp: heads_from_def)
qed

lemma merge_step:
  assumes k: "k < length xss" "xss ! k \<noteq> []" and h: "heads_from xss (hd (xss ! k))"
    and so: "\<forall>xs \<in> set xss. sorted xs"
  shows "sort (concat xss) = hd (xss ! k) # sort (concat (xss[k := tl (xss ! k)]))"
proof -
  let ?rest = "concat (xss[k := tl (xss ! k)])"
  have m: "mset (hd (xss ! k) # sort ?rest) = mset (concat xss)"
    using mset_concat_tl[OF k] by simp
  have "set ?rest \<subseteq> set (concat xss)"
    using mset_concat_tl[OF k] by (metis set_mset_mset set_mset_mono mset_subset_eq_add_right)
  then have "sorted (hd (xss ! k) # sort ?rest)"
    using heads_below[OF h so] by auto
  from properties_for_sort[OF m this] show ?thesis .
qed

lemma merge_files_spec:
  assumes "list_all2 view bs xss" and "\<forall>xs \<in> set xss. sorted xs" and "\<forall>x \<in> set (concat xss). x \<le> int_max"
  shows "wp (merge_files bs out) (\<lambda>(bs', out'). out' = out @ print_ints (sort (concat xss)) \<and>
    (\<forall>b \<in> set bs'. ib_pos b = 0))"
  using assms
proof (induction "length (concat xss)" arbitrary: bs xss out rule: less_induct)
  case less
  obtain m flag where p: "pick_min bs 0 int_max (- 1) = ret (m, flag)" "picked xss 0 int_max (- 1) m flag"
    using pick_min_spec[OF less.prems(1), of 0 int_max "- 1"] by (auto elim!: wpE)
  consider (none) "flag = - 1" "\<forall>xs \<in> set xss. xs \<noteq> [] \<longrightarrow> int_max < hd xs"
    | (some) k where "heads_from xss m" "k < length xss" "flag = int k" "xss ! k \<noteq> []" "m = hd (xss ! k)"
    using p(2) unfolding picked_def by auto
  then show ?case
  proof cases
    case none
    have e: "xs = []" if "xs \<in> set xss" for xs
    proof (rule ccontr)
      assume "xs \<noteq> []"
      then have "hd xs \<in> set (concat xss)" using that hd_in_set[of xs] by (auto intro!: bexI[of _ xs])
      with less.prems(3) none(2) that \<open>xs \<noteq> []\<close> show False by force
    qed
    have "ib_pos b = 0" if "b \<in> set bs" for b
      using less.prems(1) that e view_empty by (metis in_set_conv_nth list_all2_conv_all_nth)
    moreover have "concat xss = []" using e by (simp add: concat_eq_Nil_conv)
    then have "sort (concat xss) = []" by (simp only: sort_key_simps)
    ultimately show ?thesis using p none by (subst merge_files.simps) simp
  next
    case some
    define xss' where "xss' = xss[k := tl (xss ! k)]"
    define bs' where "bs' = bs[k := drop_first (bs ! k)]"
    have len: "length bs = length xss" using less.prems(1) by (rule list_all2_lengthD)
    have "view (bs ! k) (hd (xss ! k) # tl (xss ! k))"
      using less.prems(1) some len by (simp add: list_all2_conv_all_nth)
    then have v: "list_all2 view bs' xss'"
      unfolding bs'_def xss'_def by (intro list_all2_update_cong less.prems(1) view_drop)
    have sub: "mset (concat xss) = {#m#} + mset (concat xss')"
      using mset_concat_tl[of k xss] some by (simp add: xss'_def)
    then have lt: "length (concat xss') < length (concat xss)"
      by (metis add_mset_add_single size_add_mset size_mset lessI add.commute)
    have so: "\<forall>xs \<in> set xss'. sorted xs"
      using less.prems(2) some set_update_subset_insert[of xss k "tl (xss ! k)"]
      by (auto simp: xss'_def sorted_tl)
    have le: "\<forall>x \<in> set (concat xss'). x \<le> int_max"
      using less.prems(3) sub by (metis set_mset_mset union_iff)
    have "sort (concat xss) = m # sort (concat xss')"
      using merge_step[of k xss] some less.prems(2) by (simp add: xss'_def)
    then show ?thesis
      using less.hyps[OF lt v so le, of "out @ show_int m @ '' ''"] p some
      by (subst merge_files.simps) (simp add: bs'_def)
  qed
qed

text \<open>
  \<open>alone\<close>: a coroutine runs by itself, its calls of \<^verbatim>\<open>swap\<close> are counted. On its ranges the coroutine then does
  what the recursive function \<open>quick_sort\<close> of theory \<^verbatim>\<open>Quick_Sort\<close> does, with the same array, the same
  random numbers and the same number of calls of \<^verbatim>\<open>swap\<close>.
\<close>

inductive alone :: "(nat \<Rightarrow> nat) \<Rightarrow> nat \<times> sort_co \<times> nat \<Rightarrow> nat \<times> sort_co \<times> nat \<Rightarrow> bool" for rnd where
  stop: "alone rnd z z"
| work: "sort_step rnd g c = ret (g', Works c') \<Longrightarrow> alone rnd (g', c', y) z \<Longrightarrow> alone rnd (g, c, y) z"
| give: "sort_step rnd g c = ret (g', Calls_Swap c') \<Longrightarrow> alone rnd (g', c', Suc y) z \<Longrightarrow> alone rnd (g, c, y) z"

lemma alone_trans: "alone rnd x z \<Longrightarrow> alone rnd z w \<Longrightarrow> alone rnd x w"
  by (induction rule: alone.induct) (auto intro: alone.intros)

lemma part_yields: "part l r (s\<lparr>yields := y\<rparr>) = bnd (part l r s) (\<lambda>(p, s'). ret (p, s'\<lparr>yields := y\<rparr>))"
  by (auto simp: part_def Let_def bnd_def split: option.splits sum.splits)

lemma with_content_twice:
  "length a = ib_pos b \<Longrightarrow> with_content (with_content b a) a' = with_content b a'"
  "ib_ok b \<Longrightarrow> with_content b (ib_content b) = b"
  by (auto simp: with_content_def ib_ok_def ib_content_def map_Some_the)

lemma give_alone:
  "alone rnd (g, \<lparr>acts = k, cbuf = b, cfile = f\<rparr>, Suc y) z \<Longrightarrow>
     alone rnd (g, \<lparr>acts = Give_Way # k, cbuf = b, cfile = f\<rparr>, y) z"
  by (rule alone.give[of rnd g _ g "\<lparr>acts = k, cbuf = b, cfile = f\<rparr>"]) (simp_all add: sort_step_def)

lemma quick_alone:
  assumes "ib_ok b" and "0 \<le> l" and "r < int (ib_pos b)"
    and "quick_sort l r \<lparr>arr = ib_content b, rands = rnd, drawn = g, yields = y\<rparr> = ret s'"
  shows "alone rnd (g, \<lparr>acts = Quick l r # k, cbuf = b, cfile = f\<rparr>, y)
    (drawn s', \<lparr>acts = k, cbuf = with_content b (arr s'), cfile = f\<rparr>, yields s')"
  using assms
proof (induction "nat (r + 1 - l)" arbitrary: l r b g y s' k rule: less_induct)
  case less
  note b = less.prems(1) and l = less.prems(2) and r = less.prems(3) and q = less.prems(4)
  let ?s = "\<lparr>arr = ib_content b, rands = rnd, drawn = g, yields = y\<rparr>"
  let ?c = "\<lambda>as b. \<lparr>acts = as, cbuf = b, cfile = f\<rparr>"
  show ?case
  proof (cases "l < r")
    case False
    then have "s' = ?s" using q by (subst (asm) quick_sort.simps) simp
    moreover have "sort_step rnd g (?c (Quick l r # k) b) = ret (g, Works (?c k b))"
      using False by (simp add: sort_step_def quick_step_def)
    ultimately show ?thesis using with_content_twice(2)[OF b] by (auto intro: alone.intros)
  next
    case True
    have len: "length (ib_content b) = ib_pos b" by (rule ib_content_length[OF b])
    obtain p s1 where p1: "part l r ?s = ret (p, s1)" and sh: "shuffles l r (ib_content b) (arr s1)"
      and pt: "parted l r p (arr s1)" and f1: "rands s1 = rnd" "drawn s1 = g + 1" "yields s1 = y"
      using part_parts[OF l True, of ?s] r len by (auto elim!: wpE)
    have p: "l \<le> p" "p \<le> r" using pt by (simp_all add: parted_def)
    have l1: "length (arr s1) = ib_pos b" using sh len by (simp add: shuffles_def)
    let ?b1 = "with_content b (arr s1)"
    note b1 = with_content_ok[OF b l1]
    have s1: "yield_point s1 = \<lparr>arr = ib_content ?b1, rands = rnd, drawn = g + 1, yields = Suc y\<rparr>"
      using f1 b1 by (simp add: yield_point_def)
    obtain s2 s3 where q2: "quick_sort l (p - 1) (yield_point s1) = ret s2"
      and q3: "quick_sort (p + 1) r (yield_point s2) = ret s3" and s': "s' = yield_point s3"
      using q True p1 by (subst (asm) quick_sort.simps) (auto simp: bnd_def split: option.splits sum.splits)
    have "sorts l (p - 1) (yield_point s1) s2"
      using quick_sort_spec[OF l, of "p - 1" "yield_point s1"] q2 p r l1 by simp
    then have l2: "length (arr s2) = ib_pos b" using l1 by (simp add: sorts_def shuffles_def)
    have r2: "rands s2 = rnd" using quick_sort_rands[OF q2] f1 by simp
    let ?b2 = "with_content b (arr s2)"
    note b2 = with_content_ok[OF b l2]
    have s2: "yield_point s2 = \<lparr>arr = ib_content ?b2, rands = rnd, drawn = drawn s2, yields = Suc (yields s2)\<rparr>"
      using r2 b2 by (simp add: yield_point_def)
    let ?k3 = "Give_Way # k" and ?k2 = "Give_Way # Quick (p + 1) r # Give_Way # k"
    have a2: "alone rnd (g + 1, ?c (Quick l (p - 1) # ?k2) ?b1, Suc y) (drawn s2, ?c ?k2 ?b2, yields s2)"
      using less.hyps[of "p - 1" l ?b1 "g + 1" "Suc y" s2 ?k2] p True l r b1 q2[unfolded s1] with_content_twice(1)[OF l1]
      by simp
    have a3: "alone rnd (drawn s2, ?c (Quick (p + 1) r # ?k3) ?b2, Suc (yields s2)) (drawn s3, ?c ?k3 (with_content b (arr s3)), yields s3)"
      using less.hyps[of r "p + 1" ?b2 "drawn s2" "Suc (yields s2)" s3 ?k3] p True l r b2 q3[unfolded s2] with_content_twice(1)[OF l2]
      by simp
    have a4: "alone rnd (drawn s3, ?c ?k3 (with_content b (arr s3)), yields s3) (drawn s', ?c k (with_content b (arr s')), yields s')"
      by (rule give_alone) (simp add: s' alone.stop)
    have "part l r (?s\<lparr>yields := 0\<rparr>) = ret (p, s1\<lparr>yields := 0\<rparr>)" using p1 by (simp only: part_yields) simp
    then have st: "sort_step rnd g (?c (Quick l r # k) b) = ret (g + 1, Works (?c (Give_Way # Quick l (p - 1) # ?k2) ?b1))"
      using True f1 by (simp add: sort_step_def quick_step_def)
    show ?thesis
      by (rule alone.work[OF st], rule give_alone, rule alone_trans[OF a2], rule give_alone,
          rule alone_trans[OF a3], rule a4)
  qed
qed

section \<open>The whole program\<close>

definition file_after :: "string \<Rightarrow> string" where
  "file_after t = print_ints (sort (scan_all t)) @ drop (length (print_ints (sort (scan_all t)))) t"

text \<open>The work of the coroutine of a file with the text \<open>t\<close>.\<close>

definition sorted_file :: "string \<Rightarrow> ibuffer \<Rightarrow> stream \<Rightarrow> bool" where
  "sorted_file t b f \<longleftrightarrow> view b (sort (scan_all t)) \<and> text_of f = file_after t"

interpretation sorting: coroutines "sort_step rnd" "\<lambda>i. co_ok (sorted_file (ts ! i))"
    "\<lambda>i c. sorted_file (ts ! i) (cbuf c) (cfile c)" sort_cost for rnd ts
  by unfold_locales (rule sort_step_advances)

lemma create_ok: "ib_ok (create_ibuffer 128)" "ib_content (create_ibuffer 128) = []"
  using ib.create_ok[of 128] ib.create_content by simp_all

lemma new_coroutine_ok: "co_ok (sorted_file t) (new_coroutine t)"
proof -
  have "sorted_file t b f"
    if "ib_ok b" "ib_content b = sort (scan_all t)" "text_of f = blit t 0 (print_ints (sort (scan_all t)))" for b f
    using that view_content[OF that(1)] by (simp add: sorted_file_def file_after_def blit_def)
  then have "will sort_file (sorted_file t) (create_ibuffer 128) \<lparr>text_of = t, pos_of = 0\<rparr>"
    using create_ok by (simp add: sort_file_def rest_of_def rewind_def)
  moreover have "reads_first sort_file"
    unfolding reads_first_def sort_file_def by (intro exI[of _ "tl sort_file"]) (simp add: sort_file_def)
  ultimately show ?thesis using create_ok by (simp add: co_ok_def new_coroutine_def)
qed

lemma coroutines_sort:
  assumes "ts \<noteq> []"
  shows "wp (schedule True clk timeslice (sort_step rnd) (rr_start clk 0 (map new_coroutine ts))) (\<lambda>s.
      length (data s) = length ts \<and> (\<forall>i < length ts. sorted_file (ts ! i) (cbuf (body (data s ! i))) (cfile (body (data s ! i)))))"
    and "schedule False clk timeslice (sort_step rnd) (rr_start clk 0 (map new_coroutine ts)) = fault Dangling"
proof -
  let ?cs = "map new_coroutine ts"
  have ok: "?cs \<noteq> []" "\<forall>i < length ?cs. co_ok (sorted_file (ts ! i)) (?cs ! i)"
    using assms new_coroutine_ok by simp_all
  from sorting.late_completes[OF ok, of clk timeslice rnd 0] obtain k s where
    k: "rr_run True clk timeslice (sort_step rnd) k (rr_start clk 0 ?cs) = ret s" "active s = None" "length (data s) = length ?cs"
    and all: "\<forall>i < length ?cs. ctx_finished (data s ! i) \<and> sorted_file (ts ! i) (cbuf (body (data s ! i))) (cfile (body (data s ! i))) \<and>
      swap_count (data s ! i) \<le> sort_cost (?cs ! i)" by blast
  from schedule_run[OF k(1,2)] k(3) all
  show "wp (schedule True clk timeslice (sort_step rnd) (rr_start clk 0 ?cs)) (\<lambda>s.
      length (data s) = length ts \<and> (\<forall>i < length ts. sorted_file (ts ! i) (cbuf (body (data s ! i))) (cfile (body (data s ! i)))))"
    by simp
  from sorting.early_faults[OF ok, of clk timeslice rnd 0]
  show "schedule False clk timeslice (sort_step rnd) (rr_start clk 0 ?cs) = fault Dangling"
    by (auto intro: schedule_fault)
qed

lemma sort_concat_sorts: "sort (concat (map (sort \<circ> f) ts)) = sort (concat (map f ts))"
proof -
  have "mset (concat (map (sort \<circ> f) ts)) = mset (concat (map f ts))" by (induction ts) auto
  then show ?thesis using properties_for_sort[of "sort (concat (map (sort \<circ> f) ts))" "concat (map f ts)"] by simp
qed

lemma sort_main_spec:
  assumes "files \<noteq> []" and "None \<notin> set files"
  shows "wp (sort_main True clk rnd target True files) (\<lambda>r. \<exists>stats.
      r = Merged (print_ints (sort (concat (map (scan_all \<circ> the) files)))) (map (file_after \<circ> the) files) stats \<and>
      length stats = length files)"
    and "sort_main False clk rnd target can_create files = fault Dangling"
proof -
  let ?ts = "map the files" and ?slice = "word_of_int (target sdiv int (length files)) :: 64 word"
  have ne: "?ts \<noteq> []" using assms(1) by simp
  have cs: "map (new_coroutine \<circ> the) files = map new_coroutine ?ts" by simp
  note run = coroutines_sort[OF ne, of clk ?slice rnd]
  show "sort_main False clk rnd target can_create files = fault Dangling"
    unfolding sort_main_def cs Let_def run(2) using assms by simp
  obtain s where s: "schedule True clk ?slice (sort_step rnd) (rr_start clk 0 (map new_coroutine ?ts)) = ret s"
    "length (data s) = length ?ts"
    "\<forall>i < length ?ts. sorted_file (?ts ! i) (cbuf (body (data s ! i))) (cfile (body (data s ! i)))"
    using run(1) by (auto elim!: wpE)
  let ?bs = "map cbuf (map body (data s))"
  have v: "list_all2 view ?bs (map (sort \<circ> scan_all) ?ts)"
    using s(2,3) by (simp add: list_all2_conv_all_nth sorted_file_def)
  have fs: "map (\<lambda>c. text_of (cfile c)) (map body (data s)) = map (file_after \<circ> the) files"
    using s(2,3) by (intro nth_equalityI) (simp_all add: sorted_file_def)
  have fit: "\<forall>x \<in> set (concat (map (sort \<circ> scan_all) ?ts)). x \<le> int_max"
    using scan_all_fits by (auto simp: fits_int_def)
  have "\<forall>xs \<in> set (map (sort \<circ> scan_all) ?ts). sorted xs" by auto
  from merge_files_spec[OF v this fit, of "[]"] obtain bs where
    m: "merge_files ?bs [] = ret (bs, print_ints (sort (concat (map (sort \<circ> scan_all) ?ts))))"
    by (auto elim!: wpE)
  show "wp (sort_main True clk rnd target True files) (\<lambda>r. \<exists>stats.
      r = Merged (print_ints (sort (concat (map (scan_all \<circ> the) files)))) (map (file_after \<circ> the) files) stats \<and>
      length stats = length files)"
    using assms s(2) sort_concat_sorts[of scan_all ?ts]
    unfolding sort_main_def cs Let_def s(1) bnd_simps m fs by simp
qed

section \<open>The properties\<close>

text \<open>A file is not rewritten from scratch: when its numbers stood further apart than one
  space, digits of the old text remain behind the sorted numbers, and a reader finds numbers that
  are not there.\<close>

lemma sort_file_residue:
  "\<exists>out stats. sort_main True clk rnd target True [Some ''10   2''] = ret (Merged out [''2 10 2''] stats) \<and>
     scan_all ''10   2'' = [10, 2] \<and> scan_all ''2 10 2'' = [2, 10, 2]"
proof -
  have e: "scan_all ''10   2'' = [10, 2]" "scan_all ''2 10 2'' = [2, 10, 2]" "file_after ''10   2'' = ''2 10 2''"
    by code_simp+
  show ?thesis using sort_main_spec(1)[of "[Some ''10   2'']" clk rnd target] by (auto simp: e elim!: wpE)
qed

text \<open>C21: the whole program, with at least one file, all of them readable, whatever the clock and the time
  slice let the coroutines do. On a system that looks at \<^verbatim>\<open>uc_link\<close> when a coroutine returns, \<open>main\<close>
  returns: \<^verbatim>\<open>out.txt\<close> is the ascending list of the numbers of all files, reading it back gives that
  list, and every file starts with its own numbers in ascending order. Where \<^verbatim>\<open>makecontext\<close> fixes the
  link, as POSIX has it, the program does not come to the merge: the first coroutine that ends follows
  a link that was never set.\<close>

theorem sort_main_sorts:
  assumes "files \<noteq> []" and "None \<notin> set files"
  shows "(\<exists>out stats. sort_main True clk rnd target True files = ret (Merged out (map (file_after \<circ> the) files) stats) \<and>
      out = print_ints (sort (concat (map (scan_all \<circ> the) files))) \<and>
      scan_all out = sort (concat (map (scan_all \<circ> the) files)) \<and> length stats = length files) \<and>
    sort_main False clk rnd target True files = fault Dangling"
proof -
  have "scan_all (print_ints (sort (concat (map (scan_all \<circ> the) files)))) = sort (concat (map (scan_all \<circ> the) files))"
    using scan_all_print[of "sort (concat (map (scan_all \<circ> the) files))" "[]"] scan_all_fits
    by (simp add: scan_all.simps[of "[]"] scan_int_def sign_split_def)
  with sort_main_spec[OF assms, of clk rnd target] show ?thesis by (auto simp: wp_def)
qed

theorem sort_main_sorts_witness:
  "\<exists>stats. sort_main True (\<lambda>i. of_nat i) (\<lambda>j. 3 * j) 4 True [Some ''4 3'', Some ''9 -2''] =
     ret (Merged ''-2 3 4 9 '' [''3 4 '', ''-2 9 ''] stats) \<and> length stats = 2"
proof -
  let ?files = "[Some ''4 3'', Some ''9 -2'']"
  have n: "scan_all ''4 3'' = [4, 3]" "scan_all ''9 -2'' = [9, - 2]" by code_simp+
  have "sort (concat (map (scan_all \<circ> the) ?files)) = [- 2, 3, 4, 9]"
    by (simp add: n)
  moreover have "print_ints [- 2, 3, 4, 9] = ''-2 3 4 9 ''" by code_simp
  ultimately have e: "print_ints (sort (concat (map (scan_all \<circ> the) ?files))) = ''-2 3 4 9 ''"
    by (simp only:)
  have f: "map (file_after \<circ> the) ?files = [''3 4 '', ''-2 9 '']" by code_simp
  have len: "length ?files = 2" by simp
  have h: "?files \<noteq> []" "None \<notin> set ?files" by simp_all
  from sort_main_sorts[OF h, of "\<lambda>i. of_nat i" "\<lambda>j. 3 * j" 4] show ?thesis unfolding e f len by blast
qed

end
