(* ===== verification/Libcoro.thy ===== *)
theory Libcoro
  imports Linked C_Text "HOL-Library.Multiset"
begin

text \<open>
  The coroutine library \<^verbatim>\<open>lecture_examples/4_signals/12_libcoro.c\<close> and the program that uses it.
  The code of a coroutine is a \<open>task\<close>: what it does until it gives control away or returns. The
  saved context of a coroutine is the rest of its task; a jump into a context runs that rest.
  The list of coroutines is the pointer structure of the code; the signal mask, the handler of
  \<^verbatim>\<open>SIGUSR2\<close> and the alternate stack are part of the state, because \<^verbatim>\<open>coro_new\<close> changes and
  restores them. The system calls succeed.
\<close>

section \<open>State\<close>

datatype task =
    Say string task
  | Yield task
  | New task task
  | Return int

record coro =
  c_ret :: int
  c_stack :: addr
  c_func :: task
  c_ctx :: "task option"
  c_finished :: bool
  c_next :: "addr option"
  c_prev :: "addr option"

datatype this = Nobody | The_Sched | Coro addr

datatype handler = Coro_Body | Handler nat

record lib =
  heap :: "addr \<Rightarrow> coro option"
  fresh :: addr
  coro_list :: "addr option"
  coro_this_ptr :: this
  is_sched_waiting :: bool
  usr2_blocked :: bool
  usr2_handler :: handler
  altstack :: "addr option"
  printed :: "string list"

definition load_coro :: "addr option \<Rightarrow> lib \<Rightarrow> coro run" where
  "load_coro p s = (case p of None \<Rightarrow> fault Null_Deref
     | Some a \<Rightarrow> (case heap s a of None \<Rightarrow> fault Dangling | Some c \<Rightarrow> ret c))"

definition store_coro :: "addr \<Rightarrow> coro \<Rightarrow> lib \<Rightarrow> lib" where
  "store_coro a c s = s\<lparr>heap := (heap s)(a \<mapsto> c)\<rparr>"

section \<open>The list of coroutines\<close>

definition coro_list_add :: "addr \<Rightarrow> lib \<Rightarrow> lib run" where
  "coro_list_add c s =
     bnd (load_coro (Some c) s) (\<lambda>n.
     let s = store_coro c (n\<lparr>c_next := coro_list s, c_prev := None\<rparr>) s in
     bnd (case coro_list s of None \<Rightarrow> ret s
          | Some h \<Rightarrow> bnd (load_coro (Some h) s) (\<lambda>hn. ret (store_coro h (hn\<lparr>c_prev := Some c\<rparr>) s))) (\<lambda>s.
     ret (s\<lparr>coro_list := Some c\<rparr>)))"

definition coro_list_delete :: "addr \<Rightarrow> lib \<Rightarrow> lib run" where
  "coro_list_delete c s =
     bnd (load_coro (Some c) s) (\<lambda>n.
     bnd (case c_prev n of None \<Rightarrow> ret s
          | Some p \<Rightarrow> bnd (load_coro (Some p) s) (\<lambda>pn. ret (store_coro p (pn\<lparr>c_next := c_next n\<rparr>) s))) (\<lambda>s.
     bnd (case c_next n of None \<Rightarrow> ret s
          | Some x \<Rightarrow> bnd (load_coro (Some x) s) (\<lambda>xn. ret (store_coro x (xn\<lparr>c_prev := c_prev n\<rparr>) s))) (\<lambda>s.
     ret (if c_prev n = None then s\<lparr>coro_list := c_next n\<rparr> else s))))"

definition coro_status :: "addr \<Rightarrow> lib \<Rightarrow> int run" where
  "coro_status a s = bnd (load_coro (Some a) s) (\<lambda>c. ret (c_ret c))"

definition coro_is_finished :: "addr \<Rightarrow> lib \<Rightarrow> bool run" where
  "coro_is_finished a s = bnd (load_coro (Some a) s) (\<lambda>c. ret (c_finished c))"

definition coro_delete :: "addr \<Rightarrow> lib \<Rightarrow> lib run" where
  "coro_delete a s = bnd (load_coro (Some a) s) (\<lambda>_. ret (s\<lparr>heap := (heap s)(a := None)\<rparr>))"

section \<open>Creating a coroutine\<close>

text \<open>
  The signal handler, up to its jump back into the constructor: it remembers a context that will
  run the function of the coroutine. With another handler in place the constructor would wait for ever.
\<close>

definition coro_body_start :: "lib \<Rightarrow> lib run" where
  "coro_body_start s = (case coro_this_ptr s of
       Coro c \<Rightarrow> let s = s\<lparr>coro_this_ptr := Nobody\<rparr> in
         bnd (load_coro (Some c) s) (\<lambda>n. ret (store_coro c (n\<lparr>c_ctx := Some (c_func n)\<rparr>) s))
     | _ \<Rightarrow> fault Null_Deref)"

definition raise_usr2 :: "lib \<Rightarrow> lib run" where
  "raise_usr2 s = (case usr2_handler s of Coro_Body \<Rightarrow> coro_body_start s | Handler _ \<Rightarrow> None)"

definition coro_alloc :: "task \<Rightarrow> lib \<Rightarrow> addr \<times> lib" where
  "coro_alloc func s = (fresh s,
     (store_coro (fresh s) \<lparr>c_ret = 0, c_stack = fresh s, c_func = func, c_ctx = None, c_finished = False,
        c_next = None, c_prev = None\<rparr> s)\<lparr>fresh := Suc (fresh s)\<rparr>)"

definition coro_new :: "task \<Rightarrow> lib \<Rightarrow> (addr \<times> lib) run" where
  "coro_new func s =
     (let (c, s) = coro_alloc func s;
          olds = usr2_blocked s; s = s\<lparr>usr2_blocked := True\<rparr>;
          oldsa = usr2_handler s; s = s\<lparr>usr2_handler := Coro_Body\<rparr>;
          oldst = altstack s; s = s\<lparr>altstack := Some c\<rparr>;
          old_this = coro_this_ptr s; s = s\<lparr>coro_this_ptr := Coro c\<rparr> in
      bnd (raise_usr2 s) (\<lambda>s.
      let s = s\<lparr>coro_this_ptr := old_this\<rparr>;
          s = s\<lparr>altstack := None\<rparr>;
          s = (case oldst of None \<Rightarrow> s | Some _ \<Rightarrow> s\<lparr>altstack := oldst\<rparr>);
          s = s\<lparr>usr2_handler := oldsa\<rparr>;
          s = s\<lparr>usr2_blocked := olds\<rparr> in
      bnd (coro_list_add c s) (\<lambda>s. ret (c, s))))"

section \<open>Running\<close>

text \<open>
  \<open>jump a s\<close>: the jump into the context of coroutine \<open>a\<close> (\<^verbatim>\<open>coro_yield_to\<close> or the scheduler), up to
  the moment when control is back at the scheduler (\<open>True\<close>) or the process has exited because a
  coroutine ended while the scheduler was not waiting (\<open>False\<close>). A coroutine that yields jumps to
  the next one of the list, or to the scheduler from the last one.
\<close>

definition coro_body_end :: "addr \<Rightarrow> int \<Rightarrow> lib \<Rightarrow> (bool \<times> lib) run" where
  "coro_body_end a r s =
     bnd (load_coro (Some a) s) (\<lambda>c.
     let s = store_coro a (c\<lparr>c_ret := r, c_finished := True\<rparr>) s in
     ret (is_sched_waiting s, s))"

definition save_ctx :: "addr \<Rightarrow> task \<Rightarrow> lib \<Rightarrow> lib run" where
  "save_ctx a t s = bnd (load_coro (Some a) s) (\<lambda>c. ret (store_coro a (c\<lparr>c_ctx := Some t\<rparr>) s))"

partial_function (option) jump :: "addr \<Rightarrow> lib \<Rightarrow> (bool \<times> lib) run" where
  [code]: "jump a s =
     bnd (load_coro (Some a) s) (\<lambda>c.
     let s = s\<lparr>coro_this_ptr := Coro a\<rparr> in
     case c_ctx c of None \<Rightarrow> fault Dangling
     | Some t \<Rightarrow> (case t of
         Say w t \<Rightarrow> bnd (save_ctx a t s) (\<lambda>s. jump a (s\<lparr>printed := printed s @ [w]\<rparr>))
       | New f t \<Rightarrow> bnd (save_ctx a t s) (\<lambda>s. bnd (coro_new f s) (\<lambda>(_, s). jump a s))
       | Yield t \<Rightarrow> bnd (save_ctx a t s) (\<lambda>s.
           case c_next c of None \<Rightarrow> ret (True, s) | Some b \<Rightarrow> jump b s)
       | Return r \<Rightarrow> coro_body_end a r s))"

definition coro_sched_init :: "lib \<Rightarrow> lib" where
  "coro_sched_init s = s\<lparr>coro_this_ptr := The_Sched\<rparr>"

partial_function (option) find_finished :: "addr option \<Rightarrow> lib \<Rightarrow> addr option run" where
  [code]: "find_finished p s = (case p of None \<Rightarrow> ret None
     | Some a \<Rightarrow> bnd (load_coro p s) (\<lambda>c. if c_finished c then ret (Some a) else find_finished (c_next c) s))"

text \<open>\<open>None\<close> as the first component: no coroutine is left, or the process has exited (\<open>False\<close>).\<close>

partial_function (option) coro_sched_wait :: "lib \<Rightarrow> (bool \<times> addr option \<times> lib) run" where
  [code]: "coro_sched_wait s = (case coro_list s of None \<Rightarrow> ret (True, None, s)
     | Some h \<Rightarrow> bnd (find_finished (coro_list s) s) (\<lambda>r. case r of
         Some c \<Rightarrow> bnd (coro_list_delete c s) (\<lambda>s. ret (True, Some c, s))
       | None \<Rightarrow> bnd (jump h (s\<lparr>is_sched_waiting := True\<rparr>)) (\<lambda>(ok, s).
           if ok then coro_sched_wait (s\<lparr>coro_this_ptr := The_Sched, is_sched_waiting := False\<rparr>)
           else ret (False, None, s))))"

text \<open>The loop of every user: wait, take the status, delete.\<close>

partial_function (option) wait_loop_all :: "lib \<Rightarrow> (bool \<times> int list \<times> lib) run" where
  [code]: "wait_loop_all s = bnd (coro_sched_wait s) (\<lambda>(ok, r, s). case r of
       None \<Rightarrow> ret (ok, [], s)
     | Some c \<Rightarrow> bnd (coro_status c s) (\<lambda>v. bnd (coro_delete c s) (\<lambda>s.
         let s = s\<lparr>printed := printed s @ [''Finished '' @ show_int v]\<rparr> in
         bnd (wait_loop_all s) (\<lambda>(ok, vs, s). ret (ok, v # vs, s)))))"

section \<open>Well-formed states\<close>

definition cn :: "lib \<Rightarrow> next_map" where
  "cn s a = map_option c_next (heap s a)"

definition cp :: "lib \<Rightarrow> next_map" where
  "cp s a = map_option c_prev (heap s a)"

lemma cn_upd [simp]: "cn (s\<lparr>heap := (heap s)(a \<mapsto> c)\<rparr>) = (cn s)(a \<mapsto> c_next c)"
  and cp_upd [simp]: "cp (s\<lparr>heap := (heap s)(a \<mapsto> c)\<rparr>) = (cp s)(a \<mapsto> c_prev c)"
  by (auto simp: cn_def cp_def)

lemma links_cong: "heap s' = heap s \<Longrightarrow> cn s' = cn s \<and> cp s' = cp s"
  by (simp add: cn_def cp_def fun_eq_iff)

lemma links_fields [simp]:
  "cn (s\<lparr>coro_list := l\<rparr>) = cn s" "cp (s\<lparr>coro_list := l\<rparr>) = cp s"
  by (simp_all add: cn_def cp_def fun_eq_iff)

definition core :: "coro \<Rightarrow> int \<times> task option \<times> bool" where
  "core c = (c_ret c, c_ctx c, c_finished c)"

definition cores :: "lib \<Rightarrow> addr \<Rightarrow> (int \<times> task option \<times> bool) option" where
  "cores s a = map_option core (heap s a)"

text \<open>
  The list holds the coroutines \<open>as\<close>, each with a saved context; addresses from \<open>fresh\<close> on are free.
\<close>

definition lib_ok :: "lib \<Rightarrow> addr list \<Rightarrow> bool" where
  "lib_ok s as \<longleftrightarrow> dll (cn s) (cp s) as (coro_list s) \<and>
     (\<forall>a \<in> set as. \<exists>r t f. cores s a = Some (r, Some t, f)) \<and> (\<forall>a. fresh s \<le> a \<longrightarrow> heap s a = None)"

definition relinked :: "lib \<Rightarrow> lib \<Rightarrow> bool" where
  "relinked s s' \<longleftrightarrow> (\<exists>h l. s' = s\<lparr>heap := h, coro_list := l\<rparr>) \<and> cores s' = cores s \<and> dom (heap s') = dom (heap s)"

lemma lib_ok_live: "lib_ok s as \<Longrightarrow> a \<in> set as \<Longrightarrow> \<exists>c t. heap s a = Some c \<and> c_ctx c = Some t"
  by (fastforce simp: lib_ok_def cores_def core_def)

lemma lib_ok_next:
  assumes "lib_ok s as" and "a \<in> set as" and "heap s a = Some c"
  shows "c_next c = None \<or> (\<exists>b \<in> set as. c_next c = Some b)"
proof -
  obtain xs ys where as: "as = xs @ a # ys" using assms(2) by (metis split_list)
  have "cn s a = Some (if ys = [] then None else Some (hd ys))"
    using dll_neighbours(2)[of "cn s" "cp s" xs a ys "coro_list s"] assms(1) as by (simp add: lib_ok_def)
  with assms(3) as show ?thesis by (cases ys) (auto simp: cn_def)
qed

lemma coro_list_add_ok:
  assumes ok: "lib_ok s as" and a: "a \<notin> set as" and n: "heap s a = Some n" "c_ctx n = Some t"
  shows "wp (coro_list_add a s) (\<lambda>s'. lib_ok s' (a # as) \<and> relinked s s')"
proof -
  have d: "dll (cn s) (cp s) as (coro_list s)" using ok by (simp add: lib_ok_def)
  note push = dll_push[OF d a]
  have hd: "coro_list s = (if as = [] then None else Some (hd as))"
    using chain_start[OF dll_chain[OF d]] .
  have live: "\<exists>c t. heap s x = Some c \<and> c_ctx c = Some t" if "x \<in> set as" for x
    using lib_ok_live[OF ok that] .
  show ?thesis
  proof (cases as)
    case Nil
    then show ?thesis
      using n ok hd push
      by (auto simp: coro_list_add_def load_coro_def store_coro_def lib_ok_def relinked_def cores_def core_def)
  next
    case (Cons h as')
    then obtain hn where hn: "heap s h = Some hn" using live by auto
    have "h \<noteq> a" using Cons a by auto
    let ?s = "s\<lparr>heap := (heap s)(a \<mapsto> n\<lparr>c_next := Some h, c_prev := None\<rparr>, h \<mapsto> hn\<lparr>c_prev := Some a\<rparr>), coro_list := Some a\<rparr>"
    have add: "coro_list_add a s = ret ?s"
      using n hn Cons hd \<open>h \<noteq> a\<close> by (simp add: coro_list_add_def load_coro_def store_coro_def)
    have "cn ?s = (cn s)(a := Some (coro_list s))"
      using hn hd Cons \<open>h \<noteq> a\<close> by (auto simp: cn_def fun_eq_iff)
    moreover have "cp ?s = (cp s)(h := Some (Some a), a := Some None)"
      using \<open>h \<noteq> a\<close> by (auto simp: cp_def fun_eq_iff)
    ultimately have "dll (cn ?s) (cp ?s) (a # as) (coro_list ?s)"
      using push Cons by simp
    moreover have c: "cores ?s = cores s" using n hn \<open>h \<noteq> a\<close> by (auto simp: cores_def core_def fun_eq_iff)
    moreover have "\<exists>r t f. cores s a = Some (r, Some t, f)" using n by (simp add: cores_def core_def)
    moreover have "\<forall>x. fresh s \<le> x \<longrightarrow> heap ?s x = None"
      using ok n hn by (auto simp: lib_ok_def)
    ultimately show ?thesis
      using ok n hn unfolding add wp_simps lib_ok_def relinked_def
      by (intro conjI exI[of _ "heap ?s"] exI[of _ "Some a"]) auto
  qed
qed

lemma coro_list_delete_ok:
  assumes ok: "lib_ok s (xs @ a # ys)"
  shows "wp (coro_list_delete a s) (\<lambda>s'. lib_ok s' (xs @ ys) \<and> relinked s s')"
proof -
  have d: "dll (cn s) (cp s) (xs @ a # ys) (coro_list s)" using ok by (simp add: lib_ok_def)
  have dist: "distinct (xs @ a # ys)" using dll_distinct[OF d] .
  obtain n where n: "heap s a = Some n" using lib_ok_live[OF ok, of a] by auto
  have pv: "c_prev n = (if xs = [] then None else Some (last xs))"
    and nx: "c_next n = (if ys = [] then None else Some (hd ys))"
    using dll_neighbours[OF d] n by (auto simp: cn_def cp_def)
  define s1 where "s1 = (if xs = [] then s else
    store_coro (last xs) ((the (heap s (last xs)))\<lparr>c_next := c_next n\<rparr>) s)"
  define s2 where "s2 = (if ys = [] then s1 else
    store_coro (hd ys) ((the (heap s (hd ys)))\<lparr>c_prev := c_prev n\<rparr>) s1)"
  define s3 where "s3 = (if xs = [] then s2\<lparr>coro_list := c_next n\<rparr> else s2)"
  have lx: "\<exists>c. heap s (last xs) = Some c" if "xs \<noteq> []" using lib_ok_live[OF ok, of "last xs"] that by auto
  have ly: "\<exists>c. heap s (hd ys) = Some c" if "ys \<noteq> []" using lib_ok_live[OF ok, of "hd ys"] that by auto
  have ne: "hd ys \<noteq> last xs" if "xs \<noteq> []" "ys \<noteq> []"
    using dist that by (metis distinct_append disjoint_iff hd_in_set last_in_set list.set_intros(2))
  have "coro_list_delete a s = ret s3"
    using n pv nx lx ly ne by (auto simp: coro_list_delete_def load_coro_def s3_def s2_def s1_def store_coro_def)
  moreover have "cn s3 = (if xs = [] then cn s else (cn s)(last xs := cn s a))"
    using n lx ly ne by (auto simp: s3_def s2_def s1_def store_coro_def cn_def fun_eq_iff)
  moreover have "cp s3 = (if ys = [] then cp s else (cp s)(hd ys := cp s a))"
    using n lx ly ne by (auto simp: s3_def s2_def s1_def store_coro_def cp_def fun_eq_iff)
  moreover have "coro_list s3 = (if xs = [] then the (cn s a) else coro_list s)"
    using n by (auto simp: s3_def s2_def s1_def store_coro_def cn_def)
  moreover have c: "cores s3 = cores s"
    using n lx ly ne by (auto simp: s3_def s2_def s1_def store_coro_def cores_def core_def fun_eq_iff)
  moreover have h: "dom (heap s3) = dom (heap s)"
    using n lx ly by (auto simp: s3_def s2_def s1_def store_coro_def)
  moreover have "s3 = s\<lparr>heap := heap s3, coro_list := coro_list s3\<rparr>"
    by (simp add: s3_def s2_def s1_def store_coro_def)
  then have "\<exists>h l. s3 = s\<lparr>heap := h, coro_list := l\<rparr>" by blast
  moreover have "fresh s3 = fresh s" by (auto simp: s3_def s2_def s1_def store_coro_def)
  moreover have "\<forall>x. fresh s \<le> x \<longrightarrow> heap s3 x = None"
    using h ok by (metis domIff lib_ok_def)
  ultimately show ?thesis
    using dll_unlink[OF d] ok by (auto simp: lib_ok_def relinked_def simp del: dom_def)
qed

lemma lib_ok_cong:
  "heap s' = heap s \<Longrightarrow> coro_list s' = coro_list s \<Longrightarrow> fresh s' = fresh s \<Longrightarrow> lib_ok s' as = lib_ok s as"
  by (simp add: lib_ok_def cn_def[abs_def] cp_def[abs_def] cores_def)

lemma lib_ok_store:
  assumes "lib_ok s as" and "heap s a = Some c" and "c_next c' = c_next c" and "c_prev c' = c_prev c"
    and "c_ctx c' = Some t"
  shows "lib_ok (store_coro a c' s) as"
proof -
  have "cn (store_coro a c' s) = cn s" "cp (store_coro a c' s) = cp s"
    using assms by (auto simp: store_coro_def cn_def cp_def fun_eq_iff)
  moreover have "fresh s \<le> x \<Longrightarrow> heap (store_coro a c' s) x = None" for x
    using assms(1,2) by (auto simp: lib_ok_def store_coro_def)
  ultimately show ?thesis
    using assms by (auto simp: lib_ok_def cores_def core_def store_coro_def)
qed

lemma dll_coro_cong: "(\<And>a. a \<in> set as \<Longrightarrow> heap s' a = heap s a) \<Longrightarrow> dll (cn s') (cp s') as p = dll (cn s) (cp s) as p"
  by (rule dll_cong) (simp add: cn_def cp_def)

lemma lib_ok_below: "lib_ok s as \<Longrightarrow> a \<in> set as \<Longrightarrow> a < fresh s"
  using lib_ok_live[of s as a] by (fastforce simp: lib_ok_def not_le)

section \<open>What creating a coroutine does\<close>

definition same_process :: "lib \<Rightarrow> lib \<Rightarrow> bool" where
  "same_process s s' \<longleftrightarrow> is_sched_waiting s' = is_sched_waiting s \<and> usr2_blocked s' = usr2_blocked s \<and>
     usr2_handler s' = usr2_handler s \<and> altstack s' = altstack s"

lemma coro_new_ok:
  assumes ok: "lib_ok s as"
  shows "wp (coro_new f s) (\<lambda>(c, s'). c = fresh s \<and> lib_ok s' (c # as) \<and>
    cores s' = (cores s)(c := Some (0, Some f, False)) \<and> same_process s s' \<and>
    coro_this_ptr s' = coro_this_ptr s \<and> printed s' = printed s \<and> fresh s' = Suc (fresh s))"
proof -
  let ?c = "fresh s"
  let ?n = "\<lparr>c_ret = 0, c_stack = ?c, c_func = f, c_ctx = Some f, c_finished = False, c_next = None, c_prev = None\<rparr>"
  let ?s = "s\<lparr>heap := (heap s)(?c \<mapsto> ?n), fresh := Suc ?c\<rparr>"
  have notin: "?c \<notin> set as" using lib_ok_below[OF ok] by blast
  have "dll (cn ?s) (cp ?s) as (coro_list s) = dll (cn s) (cp s) as (coro_list s)"
    by (rule dll_coro_cong) (use notin in auto)
  then have ok': "lib_ok ?s as"
    using ok notin by (auto simp: lib_ok_def cores_def)
  have n: "heap ?s ?c = Some ?n" "c_ctx ?n = Some f" by simp_all
  obtain s' where s': "coro_list_add ?c ?s = ret s'" "lib_ok s' (?c # as)" "relinked ?s s'"
    using coro_list_add_ok[OF ok' notin n] by (auto elim: wpE)
  have run: "coro_new f s = ret (?c, s')"
    using s'(1)
    by (cases s; cases "altstack s")
      (simp_all add: coro_new_def coro_alloc_def raise_usr2_def coro_body_start_def load_coro_def store_coro_def)
  have "cores s' = (cores s)(?c := Some (0, Some f, False))"
    using s'(3) by (simp add: relinked_def) (auto simp: cores_def core_def fun_eq_iff)
  with run s' show ?thesis by (auto simp: relinked_def same_process_def)
qed

section \<open>What a run of coroutines does\<close>

text \<open>The values a task and the coroutines it creates return, and the steps they take.\<close>

fun results :: "task \<Rightarrow> int multiset" where
  "results (Say w t) = results t"
| "results (Yield t) = results t"
| "results (New f t) = results f + results t"
| "results (Return r) = {#r#}"

fun steps :: "task \<Rightarrow> nat" where
  "steps (Say w t) = Suc (steps t)"
| "steps (Yield t) = Suc (steps t)"
| "steps (New f t) = Suc (steps f + steps t)"
| "steps (Return r) = 1"

lemma steps_pos [simp]: "0 < steps t"
  by (cases t) auto

definition owed :: "lib \<Rightarrow> addr \<Rightarrow> int multiset" where
  "owed s a = (case cores s a of Some (r, Some t, f) \<Rightarrow> if f then {#r#} else results t | _ \<Rightarrow> {#})"

definition to_do :: "lib \<Rightarrow> addr \<Rightarrow> nat" where
  "to_do s a = (case cores s a of Some (r, Some t, f) \<Rightarrow> if f then 0 else steps t | _ \<Rightarrow> 0)"

definition pool :: "lib \<Rightarrow> addr list \<Rightarrow> int multiset" where
  "pool s as = (\<Sum>a\<in>set as. owed s a)"

definition left_over :: "lib \<Rightarrow> addr list \<Rightarrow> nat" where
  "left_over s as = (\<Sum>a\<in>set as. to_do s a)"

lemma pool_cong: "cores s' = cores s \<Longrightarrow> pool s' as = pool s as \<and> left_over s' as = left_over s as"
  by (simp add: pool_def left_over_def owed_def to_do_def)

lemma sum_change:
  fixes g :: "'a \<Rightarrow> 'b::comm_monoid_add"
  assumes "finite A" and "a \<in> A" and "\<And>x. x \<in> A \<Longrightarrow> x \<noteq> a \<Longrightarrow> g' x = g x"
  shows "sum g' A + g a = sum g A + g' a"
proof -
  have "sum g' (A - {a}) = sum g (A - {a})" by (rule sum.cong) (use assms(3) in auto)
  then show ?thesis using assms(1,2) by (simp add: sum.remove[of A a] ac_simps)
qed

text \<open>One coroutine moves on.\<close>

lemma pool_step:
  assumes "cores s' = (cores s)(a := Some c')" and "a \<in> set as"
  shows "pool s' as + owed s a = pool s as + owed s' a"
    and "left_over s' as + to_do s a = left_over s as + to_do s' a"
  unfolding pool_def left_over_def
  by (rule sum_change; use assms in \<open>auto simp: owed_def to_do_def\<close>)+

lemma pool_new:
  assumes "cores s' = (cores s)(a := Some c')" and "a \<notin> set as"
  shows "pool s' (a # as) = pool s as + owed s' a" and "left_over s' (a # as) = left_over s as + to_do s' a"
proof -
  have "sum (owed s') (set as) = sum (owed s) (set as)" "sum (to_do s') (set as) = sum (to_do s) (set as)"
    using assms by (auto simp: owed_def to_do_def intro!: sum.cong)
  with assms(2) show "pool s' (a # as) = pool s as + owed s' a" "left_over s' (a # as) = left_over s as + to_do s' a"
    by (simp_all add: pool_def left_over_def ac_simps)
qed

text \<open>Between two states of a wait: nothing owed is lost, and there is less to do.\<close>

definition advances :: "lib \<Rightarrow> addr list \<Rightarrow> lib \<Rightarrow> addr list \<Rightarrow> bool" where
  "advances s as s' as' \<longleftrightarrow> lib_ok s' as' \<and> pool s' as' = pool s as \<and> left_over s' as' < left_over s as \<and>
     same_process s s'"

lemma advances_trans: "advances s as s' as' \<Longrightarrow> advances s' as' s'' as'' \<Longrightarrow> advances s as s'' as''"
  by (auto simp: advances_def same_process_def)

definition idle :: "lib \<Rightarrow> addr list \<Rightarrow> bool" where
  "idle s as \<longleftrightarrow> (\<forall>a \<in> set as. \<forall>r t f. cores s a = Some (r, t, f) \<longrightarrow> \<not> f)"

lemma save_ctx_ok:
  assumes ok: "lib_ok s as" and c: "heap s a = Some c" "c_ctx c = Some t0" "\<not> c_finished c" and a: "a \<in> set as"
    and le: "steps t < steps t0"
  obtains s' where "save_ctx a t s = ret s'" "s' = store_coro a (c\<lparr>c_ctx := Some t\<rparr>) s" "lib_ok s' as"
    "pool s' as + results t0 = pool s as + results t" "left_over s' as + steps t0 = left_over s as + steps t"
    "idle s as \<Longrightarrow> idle s' as" "same_process s s'"
proof -
  let ?s = "store_coro a (c\<lparr>c_ctx := Some t\<rparr>) s"
  have cs: "cores ?s = (cores s)(a := Some (c_ret c, Some t, False))"
    using c by (auto simp: cores_def core_def store_coro_def fun_eq_iff)
  have o: "owed s a = results t0" "to_do s a = steps t0" "owed ?s a = results t" "to_do ?s a = steps t"
    using c by (simp_all add: owed_def to_do_def cs cores_def core_def)
  have "save_ctx a t s = ret ?s" using c by (simp add: save_ctx_def load_coro_def)
  moreover have "lib_ok ?s as" by (rule lib_ok_store[OF ok c(1)]) auto
  moreover have "idle s as \<Longrightarrow> idle ?s as" by (auto simp: idle_def cs)
  moreover have "same_process s ?s" by (simp add: same_process_def store_coro_def)
  ultimately show thesis using that pool_step[OF cs a] o by metis
qed

text \<open>A jump into a coroutine always comes back to the waiting scheduler.\<close>

lemma jump_ok:
  assumes "lib_ok s as" and "idle s as" and "a \<in> set as" and "is_sched_waiting s"
  shows "wp (jump a s) (\<lambda>(ok, s'). ok \<and> (\<exists>as'. advances s as s' as'))"
  using assms
proof (induction "left_over s as" arbitrary: s as a rule: less_induct)
  case less
  obtain c t where c: "heap s a = Some c" "c_ctx c = Some t" using lib_ok_live[OF less.prems(1,3)] by auto
  have "cores s a = Some (c_ret c, c_ctx c, c_finished c)" using c by (simp add: cores_def core_def)
  then have nf: "\<not> c_finished c" using less.prems(2,3) unfolding idle_def by blast
  let ?s = "s\<lparr>coro_this_ptr := Coro a\<rparr>"
  have ok: "lib_ok ?s as" using less.prems(1) lib_ok_cong[of ?s s] by simp
  have cs: "cores ?s = cores s" by (simp add: cores_def fun_eq_iff)
  have c': "heap ?s a = Some c" using c by simp
  note pl = pool_cong[OF cs]
  have id: "idle ?s as" using less.prems(2) by (simp add: idle_def cs)
  have next_in: "c_next c = Some b \<Longrightarrow> b \<in> set as" for b
    using lib_ok_next[OF less.prems(1,3) c(1)] by auto
  have go: "wp (jump b s2) (\<lambda>(ok, s'). ok \<and> (\<exists>as'. advances s as s' as'))"
    if "advances s as s2 as2" "idle s2 as2" "b \<in> set as2" for b s2 as2
  proof -
    have w: "is_sched_waiting s2" using that(1) less.prems(4) by (simp add: advances_def same_process_def)
    have "wp (jump b s2) (\<lambda>(ok, s'). ok \<and> (\<exists>as'. advances s2 as2 s' as'))"
      by (rule less.hyps) (use that w in \<open>auto simp: advances_def\<close>)
    then show ?thesis by (rule wp_mono) (use advances_trans[OF that(1)] in blast)
  qed
  have saved: "\<exists>s2. save_ctx a u ?s = ret s2 \<and> lib_ok s2 as \<and> pool s2 as + results t = pool s as + results u \<and>
      left_over s2 as + steps t = left_over s as + steps u \<and> idle s2 as \<and> same_process s s2" if le: "steps u < steps t" for u
  proof -
    obtain s2 where "save_ctx a u ?s = ret s2" "lib_ok s2 as" "pool s2 as + results t = pool ?s as + results u"
      "left_over s2 as + steps t = left_over ?s as + steps u" "idle ?s as \<Longrightarrow> idle s2 as" "same_process ?s s2"
      using save_ctx_ok[OF ok c' c(2) nf less.prems(3) le] by metis
    with id pl show ?thesis by (intro exI[of _ s2]) (simp add: same_process_def)
  qed
  show ?case
  proof (cases t)
    case (Say w u)
    then obtain s2 where s2: "save_ctx a u ?s = ret s2" "lib_ok s2 as" "pool s2 as = pool s as"
      "left_over s2 as < left_over s as" "idle s2 as" "same_process s s2"
      using saved[of u] by auto
    let ?s2 = "s2\<lparr>printed := printed s2 @ [w]\<rparr>"
    have cs2: "cores ?s2 = cores s2" by (simp add: cores_def fun_eq_iff)
    have "advances s as ?s2 as" "idle ?s2 as"
      using s2 pool_cong[OF cs2, of as] lib_ok_cong[of ?s2 s2 as]
      by (simp_all add: advances_def same_process_def idle_def cs2)
    from go[OF this less.prems(3)] show ?thesis
      using c s2(1) Say by (subst jump.simps) (simp add: load_coro_def)
  next
    case (Yield u)
    then obtain s2 where s2: "save_ctx a u ?s = ret s2" "lib_ok s2 as" "pool s2 as = pool s as"
      "left_over s2 as < left_over s as" "idle s2 as" "same_process s s2"
      using saved[of u] by auto
    then have adv: "advances s as s2 as" by (simp add: advances_def)
    show ?thesis
    proof (cases "c_next c")
      case None
      with adv show ?thesis using c s2(1) Yield by (subst jump.simps) (auto simp: load_coro_def)
    next
      case (Some b)
      from go[OF adv s2(5) next_in[OF Some]] show ?thesis
        using c s2(1) Yield Some by (subst jump.simps) (simp add: load_coro_def)
    qed
  next
    case (New f u)
    then obtain s2 where s2: "save_ctx a u ?s = ret s2" "lib_ok s2 as" "pool s2 as + results f = pool s as"
      "left_over s2 as + steps f < left_over s as" "idle s2 as" "same_process s s2"
      using saved[of u] by (auto simp: ac_simps)
    obtain s3 where s3: "coro_new f s2 = ret (fresh s2, s3)" "lib_ok s3 (fresh s2 # as)"
      "cores s3 = (cores s2)(fresh s2 := Some (0, Some f, False))" "same_process s2 s3"
      using coro_new_ok[OF s2(2), of f] by (auto elim!: wpE)
    have notin: "fresh s2 \<notin> set as" using lib_ok_below[OF s2(2)] by blast
    have o: "owed s3 (fresh s2) = results f" "to_do s3 (fresh s2) = steps f"
      by (simp_all add: owed_def to_do_def s3(3))
    have "advances s as s3 (fresh s2 # as)"
      using pool_new[OF s3(3) notin] o s2 s3 by (simp add: advances_def same_process_def)
    moreover have "idle s3 (fresh s2 # as)"
      using s2(5) by (auto simp: idle_def s3(3))
    moreover have "a \<in> set (fresh s2 # as)" using less.prems(3) by simp
    ultimately show ?thesis
      using go[of s3 "fresh s2 # as" a] c s2(1) s3(1) New by (subst jump.simps) (simp add: load_coro_def)
  next
    case (Return r)
    let ?n = "c\<lparr>c_ret := r, c_finished := True\<rparr>"
    let ?s2 = "store_coro a ?n ?s"
    have cs2: "cores ?s2 = (cores s)(a := Some (r, Some t, True))"
      using c by (auto simp: cores_def core_def store_coro_def fun_eq_iff)
    have o: "owed s a = {#r#}" "to_do s a = 1" "owed ?s2 a = {#r#}" "to_do ?s2 a = 0"
      using c nf Return by (simp_all add: owed_def to_do_def cs2 cores_def core_def)
    have "lib_ok ?s2 as" by (rule lib_ok_store[OF ok c']) (use c in auto)
    then have "advances s as ?s2 as"
      using pool_step[OF cs2 less.prems(3)] o by (simp add: advances_def same_process_def store_coro_def)
    then show ?thesis
      using c Return less.prems(4) by (subst jump.simps) (auto simp: load_coro_def coro_body_end_def store_coro_def)
  qed
qed

section \<open>Waiting\<close>

interpretation fin: list_search load_coro heap c_next c_finished find_finished
  by unfold_locales (simp_all add: load_coro_def find_finished.simps)

lemma fin_nexts: "fin.nexts = cn"
  by (intro ext) (simp add: fin.nexts_def cn_def)

lemma find_finished_eq:
  assumes "lib_ok s as"
  shows "find_finished (coro_list s) s = ret (find (fin.hit s) as)"
  using fin.search_finds[of s "coro_list s" as] assms dll_chain
  by (auto simp: fin_nexts lib_ok_def)

lemma hit_cores: "fin.hit s a \<longleftrightarrow> (\<exists>r t. cores s a = Some (r, t, True))"
  by (auto simp: fin.hit_def cores_def core_def split: option.splits)

lemma results_nonempty [simp]: "results t \<noteq> {#}"
  by (induction t) auto

lemma pool_nonempty:
  assumes "lib_ok s as" and "a \<in> set as"
  shows "pool s as \<noteq> {#}"
proof -
  obtain r t f where "cores s a = Some (r, Some t, f)" using assms by (auto simp: lib_ok_def)
  then have "owed s a \<noteq> {#}" by (simp add: owed_def)
  then show ?thesis using assms(2) by (simp add: pool_def sum.remove[of "set as" a])
qed

text \<open>
  A wait gives back a finished coroutine that has left the list; what the others owe and the value
  of this one are what the list owed before.
\<close>

definition handed :: "lib \<Rightarrow> addr list \<Rightarrow> addr \<Rightarrow> lib \<Rightarrow> addr list \<Rightarrow> bool" where
  "handed s as c s' as' \<longleftrightarrow> lib_ok s' as' \<and> c \<notin> set as' \<and>
     (\<exists>r t. cores s' c = Some (r, t, True) \<and> pool s as = {#r#} + pool s' as') \<and>
     left_over s' as' \<le> left_over s as \<and> same_process s s'"

lemma coro_sched_wait_ok:
  assumes "lib_ok s as" and "\<not> is_sched_waiting s"
  shows "wp (coro_sched_wait s) (\<lambda>(ok, r, s'). ok \<and>
    (case r of None \<Rightarrow> as = [] \<and> s' = s | Some c \<Rightarrow> \<exists>as'. handed s as c s' as'))"
  using assms
proof (induction "left_over s as" arbitrary: s as rule: less_induct)
  case less
  have d: "dll (cn s) (cp s) as (coro_list s)" using less.prems by (simp add: lib_ok_def)
  note st = chain_start[OF dll_chain[OF d]]
  note ff = find_finished_eq[OF less.prems(1)]
  show ?case
  proof (cases as)
    case Nil
    then show ?thesis using st by (subst coro_sched_wait.simps) simp
  next
    case (Cons h as0)
    show ?thesis
    proof (cases "find (fin.hit s) as")
      case (Some c)
      then have hit: "fin.hit s c" and "c \<in> set as" by (auto simp: find_Some_iff)
      then obtain xs ys where as: "as = xs @ c # ys" by (metis split_list)
      obtain r t where rt: "cores s c = Some (r, Some t, True)"
        using hit less.prems(1) \<open>c \<in> set as\<close> by (fastforce simp: hit_cores lib_ok_def)
      obtain s' where s': "coro_list_delete c s = ret s'" "lib_ok s' (xs @ ys)" "relinked s s'"
        using coro_list_delete_ok[of s xs c ys] less.prems(1) as by (auto elim: wpE)
      have dist: "c \<notin> set (xs @ ys)" "set as = insert c (set (xs @ ys))"
        using dll_distinct[OF d] as by auto
      have cs: "cores s' = cores s" using s'(3) by (simp add: relinked_def)
      have "pool s as = {#r#} + pool s' (xs @ ys)" "left_over s' (xs @ ys) = left_over s as"
        using dist rt by (simp_all add: pool_def left_over_def owed_def to_do_def cs)
      then have "handed s as c s' (xs @ ys)"
        using s' dist rt cs by (auto simp: handed_def same_process_def relinked_def)
      then show ?thesis
        using s'(1) Some Cons st ff by (subst coro_sched_wait.simps) auto
    next
      case None
      let ?s = "s\<lparr>is_sched_waiting := True\<rparr>"
      have cs: "cores ?s = cores s" by (simp add: cores_def fun_eq_iff)
      have "idle s as" using None by (auto simp: find_None_iff hit_cores idle_def)
      then have id: "idle ?s as" by (simp add: idle_def cs)
      have ok: "lib_ok ?s as" using less.prems(1) lib_ok_cong[of ?s s as] by simp
      obtain s2 as2 where s2: "jump h ?s = ret (True, s2)" "advances ?s as s2 as2"
        using jump_ok[OF ok id, of h] Cons by (auto elim!: wpE)
      let ?s2 = "s2\<lparr>coro_this_ptr := The_Sched, is_sched_waiting := False\<rparr>"
      have cs2: "cores ?s2 = cores s2" by (simp add: cores_def fun_eq_iff)
      have ok2: "lib_ok ?s2 as2" using s2(2) lib_ok_cong[of ?s2 s2 as2] by (simp add: advances_def)
      have lt: "left_over ?s2 as2 < left_over s as" and pl: "pool ?s2 as2 = pool s as"
        using s2(2) pool_cong[OF cs2, of as2] pool_cong[OF cs, of as] by (simp_all add: advances_def)
      have sp: "same_process s ?s2"
        using s2(2) less.prems(2) by (simp add: advances_def same_process_def)
      have ne: "as2 \<noteq> []"
      proof
        assume "as2 = []"
        then have "pool s as = {#}" using pl by (simp add: pool_def)
        then show False using pool_nonempty[OF less.prems(1), of h] Cons by simp
      qed
      have "wp (coro_sched_wait ?s2) (\<lambda>(ok, r, s'). ok \<and>
        (case r of None \<Rightarrow> as2 = [] \<and> s' = ?s2 | Some c \<Rightarrow> \<exists>as'. handed ?s2 as2 c s' as'))"
        by (rule less.hyps[OF lt ok2]) simp
      then have "wp (coro_sched_wait ?s2) (\<lambda>(ok, r, s'). ok \<and>
        (case r of None \<Rightarrow> as = [] \<and> s' = s | Some c \<Rightarrow> \<exists>as'. handed s as c s' as'))"
      proof (rule wp_mono)
        fix x assume "case x of (ok, r, s') \<Rightarrow> ok \<and>
          (case r of None \<Rightarrow> as2 = [] \<and> s' = ?s2 | Some c \<Rightarrow> \<exists>as'. handed ?s2 as2 c s' as')"
        then show "case x of (ok, r, s') \<Rightarrow> ok \<and>
          (case r of None \<Rightarrow> as = [] \<and> s' = s | Some c \<Rightarrow> \<exists>as'. handed s as c s' as')"
          using ne lt pl sp by (fastforce simp: handed_def same_process_def split: option.splits)
      qed
      then show ?thesis
        using s2(1) None Cons st ff by (subst coro_sched_wait.simps) auto
    qed
  qed
qed

lemma coro_delete_ok:
  assumes "handed s as c s' as'"
  obtains r s2 where "coro_status c s' = ret r" "coro_delete c s' = ret s2" "lib_ok s2 as'"
    "pool s as = {#r#} + pool s2 as'" "same_process s s2" "heap s2 = (heap s')(c := None)"
proof -
  obtain r t where rt: "cores s' c = Some (r, t, True)" and p: "pool s as = {#r#} + pool s' as'"
    using assms by (auto simp: handed_def)
  then obtain n where n: "heap s' c = Some n" "c_ret n = r" by (auto simp: cores_def core_def)
  let ?s2 = "s'\<lparr>heap := (heap s')(c := None)\<rparr>"
  have c: "c \<notin> set as'" and ok: "lib_ok s' as'" using assms by (simp_all add: handed_def)
  have "dll (cn ?s2) (cp ?s2) as' (coro_list s') = dll (cn s') (cp s') as' (coro_list s')"
    by (rule dll_coro_cong) (use c in auto)
  moreover have cs: "cores ?s2 a = cores s' a" if "a \<in> set as'" for a
    using that c by (auto simp: cores_def)
  ultimately have "lib_ok ?s2 as'" using ok by (auto simp: lib_ok_def)
  moreover have "pool ?s2 as' = pool s' as'"
    using cs by (auto simp: pool_def owed_def intro!: sum.cong)
  moreover have "same_process s ?s2" using assms by (simp add: handed_def same_process_def)
  ultimately show thesis
    using that[of r ?s2] n p by (simp add: coro_status_def coro_delete_def load_coro_def)
qed

lemma wait_loop_all_ok:
  assumes "lib_ok s as" and "\<not> is_sched_waiting s"
  shows "wp (wait_loop_all s) (\<lambda>(ok, vs, s'). ok \<and> mset vs = pool s as \<and> lib_ok s' [] \<and> same_process s s')"
  using assms
proof (induction "size (pool s as)" arbitrary: s as rule: less_induct)
  case less
  obtain r s1 where w: "coro_sched_wait s = ret (True, r, s1)"
    and r: "case r of None \<Rightarrow> as = [] \<and> s1 = s | Some c \<Rightarrow> \<exists>as'. handed s as c s1 as'"
    using coro_sched_wait_ok[OF less.prems] by (auto elim!: wpE)
  show ?case
  proof (cases r)
    case None
    with w r less.prems show ?thesis
      by (subst wait_loop_all.simps) (simp add: pool_def same_process_def)
  next
    case (Some c)
    with r obtain as' where h: "handed s as c s1 as'" by auto
    obtain v s2 where s2: "coro_status c s1 = ret v" "coro_delete c s1 = ret s2" "lib_ok s2 as'"
      "pool s as = {#v#} + pool s2 as'" "same_process s s2"
      using coro_delete_ok[OF h] by metis
    let ?s3 = "s2\<lparr>printed := printed s2 @ [''Finished '' @ show_int v]\<rparr>"
    have cs: "cores ?s3 = cores s2" by (simp add: cores_def fun_eq_iff)
    have pl: "pool s as = {#v#} + pool ?s3 as'" using s2(4) pool_cong[OF cs, of as'] by simp
    have "wp (wait_loop_all ?s3) (\<lambda>(ok, vs, s'). ok \<and> mset vs = pool ?s3 as' \<and> lib_ok s' [] \<and> same_process ?s3 s')"
      by (rule less.hyps)
        (use pl s2 less.prems(2) lib_ok_cong[of ?s3 s2 as'] in \<open>auto simp: same_process_def\<close>)
    then obtain vs s4 where "wait_loop_all ?s3 = ret (True, vs, s4)" "mset vs = pool ?s3 as'" "lib_ok s4 []"
      "same_process ?s3 s4" by (auto elim!: wpE)
    with w Some s2 pl show ?thesis
      by (subst wait_loop_all.simps) (simp add: same_process_def)
  qed
qed

section \<open>The example program\<close>

definition lib_start :: lib where
  "lib_start = coro_sched_init \<lparr>heap = (\<lambda>_. None), fresh = 1, coro_list = None, coro_this_ptr = Nobody,
     is_sched_waiting = False, usr2_blocked = False, usr2_handler = Handler 0, altstack = None, printed = []\<rparr>"

fun new_all :: "task list \<Rightarrow> lib \<Rightarrow> lib run" where
  "new_all [] s = ret s"
| "new_all (f # fs) s = bnd (coro_new f s) (\<lambda>(_, s). new_all fs s)"

text \<open>The functions of \<^verbatim>\<open>12_libcoro_example.c\<close>; \<open>k\<close> is what follows a call of \<open>recursive\<close>.\<close>

definition line :: "int \<Rightarrow> string \<Rightarrow> string" where
  "line i w = show_int i @ '': '' @ w"

function recursive :: "int \<Rightarrow> int \<Rightarrow> task \<Rightarrow> task" where
  "recursive deep i k =
     (let done = Say (line i (''finish recursive step '' @ show_int deep)) k in
      Say (line i (''recursive step '' @ show_int deep)) (Yield
        (if deep < 2 then recursive (deep + 1) i done else done)))"
  by auto
termination by (relation "measure (\<lambda>(deep, i, k). nat (2 - deep))") auto

definition coro_func :: "int \<Rightarrow> task" where
  "coro_func i = Say (line i ''coro is started'') (Yield (recursive 0 i (Return i)))"

function coro_tree_func :: "int \<Rightarrow> task" where
  "coro_tree_func i = Say (line i ''coro line is started'') (Yield
     (if i > 1 then Say (line i ''coro line end'') (Yield (Return i))
      else Say (line i ''coro line next'') (New (coro_tree_func (i + 1)) (Yield (Return i)))))"
  by auto
termination by (relation "measure (\<lambda>i. nat (2 - i))") auto

declare recursive.simps [simp del] coro_tree_func.simps [simp del]

definition say :: "string \<Rightarrow> lib \<Rightarrow> lib" where
  "say w s = s\<lparr>printed := printed s @ [w]\<rparr>"

definition example_main :: "(bool \<times> int list \<times> int list \<times> string list) run" where
  "example_main =
     bnd (new_all [coro_func 0, coro_func 1, coro_func 2] (say ''Start main'' lib_start)) (\<lambda>s.
     bnd (wait_loop_all s) (\<lambda>(ok1, vs, s).
     bnd (new_all [coro_tree_func 0] (say ''Finished simple'' s)) (\<lambda>s.
     bnd (wait_loop_all s) (\<lambda>(ok2, ws, s).
     ret (ok1 \<and> ok2, vs, ws, printed (say ''Finish main'' s))))))"

lemma new_all_ok:
  assumes "lib_ok s as"
  shows "wp (new_all fs s) (\<lambda>s'. \<exists>as'. lib_ok s' as' \<and> same_process s s' \<and>
    pool s' as' = pool s as + (\<Sum>f\<leftarrow>fs. results f))"
  using assms
proof (induction fs arbitrary: s as)
  case Nil
  then show ?case by (auto simp: same_process_def)
next
  case (Cons f fs)
  obtain s1 where s1: "coro_new f s = ret (fresh s, s1)" "lib_ok s1 (fresh s # as)"
    "cores s1 = (cores s)(fresh s := Some (0, Some f, False))" "same_process s s1"
    using coro_new_ok[OF Cons.prems, of f] by (auto elim!: wpE)
  have "fresh s \<notin> set as" using lib_ok_below[OF Cons.prems] by blast
  from pool_new(1)[OF s1(3) this] have p: "pool s1 (fresh s # as) = pool s as + results f"
    by (simp add: owed_def s1(3))
  from Cons.IH[OF s1(2)] s1(1,4) p show ?case
    by (auto elim!: wp_mono simp: same_process_def ac_simps)
qed

lemma lib_start_ok: "lib_ok lib_start []" "\<not> is_sched_waiting lib_start"
  by (simp_all add: lib_start_def coro_sched_init_def lib_ok_def)

section \<open>Properties\<close>

text \<open>In a state whose list is well linked, \<open>coro_sched_wait\<close> always comes back: with no coroutine
  when there is none, otherwise with a finished one that is no longer in the list, whose status is
  the value its function returned; what all coroutines together return does not change, the others
  have not more left to do, and the signal settings are those before.\<close>

lemma libcoro_wait_hands_out:
  assumes "lib_ok s as" and "as \<noteq> []" and "\<not> is_sched_waiting s"
  shows "\<exists>c v s' as'. coro_sched_wait s = ret (True, Some c, s') \<and> coro_is_finished c s' = ret True \<and>
    coro_status c s' = ret v \<and> lib_ok s' as' \<and> c \<notin> set as' \<and> pool s as = {#v#} + pool s' as' \<and>
    left_over s' as' \<le> left_over s as \<and> same_process s s'"
proof -
  obtain c s' as' where w: "coro_sched_wait s = ret (True, Some c, s')" and h: "handed s as c s' as'"
    using coro_sched_wait_ok[OF assms(1,3)] assms(2) by (auto elim!: wpE split: option.splits)
  obtain v t where v: "cores s' c = Some (v, t, True)" "pool s as = {#v#} + pool s' as'"
    using h by (auto simp: handed_def)
  then have "coro_status c s' = ret v" "coro_is_finished c s' = ret True"
    by (auto simp: coro_status_def coro_is_finished_def load_coro_def cores_def core_def)
  with w h v show ?thesis by (auto simp: handed_def)
qed

text \<open>C22: whatever coroutines are created, and whatever coroutines they create, the loop that waits and
  deletes ends, and collects every returned value exactly once; the list is empty afterwards and the
  signal mask, the signal handler and the alternate stack are what they were.\<close>

theorem libcoro_loop_collects:
  "\<exists>s vs s'. new_all fs lib_start = ret s \<and> wait_loop_all s = ret (True, vs, s') \<and>
     mset vs = (\<Sum>f\<leftarrow>fs. results f) \<and> coro_list s' = None \<and> same_process lib_start s'"
proof -
  obtain s as where s: "new_all fs lib_start = ret s" "lib_ok s as" "same_process lib_start s"
    "pool s as = (\<Sum>f\<leftarrow>fs. results f)"
    using new_all_ok[OF lib_start_ok(1), of fs] by (auto elim!: wpE simp: pool_def)
  have "\<not> is_sched_waiting s" using s(3) lib_start_ok(2) by (simp add: same_process_def)
  from wait_loop_all_ok[OF s(2) this] s show ?thesis
    by (auto elim!: wpE simp: lib_ok_def same_process_def)
qed

end
