(* ===== verification/Interleaving.thy ===== *)
theory Interleaving
  imports Main
begin

text \<open>
  Threads over shared memory. A program gives, for the thread \<open>i\<close> in local state \<open>l\<close>, the list of
  the atomic steps it can take: none when it is blocked or done, several when the system chooses.
  \<open>reach\<close> are the states that some interleaving of \<open>n\<close> threads leads to; \<open>exec\<close> runs one
  interleaving. The locales state what the proofs about locks share.
\<close>

type_synonym ('g, 'l) prog = "nat \<Rightarrow> 'g \<Rightarrow> 'l \<Rightarrow> ('g \<times> 'l) list"

type_synonym ('g, 'l) sys = "'g \<times> (nat \<Rightarrow> 'l)"

inductive reach :: "('g, 'l) prog \<Rightarrow> nat \<Rightarrow> ('g, 'l) sys \<Rightarrow> ('g, 'l) sys \<Rightarrow> bool"
  for prog :: "('g, 'l) prog" and n :: nat and s0 :: "('g, 'l) sys" where
  start: "reach prog n s0 s0"
| step: "reach prog n s0 (g, ls) \<Longrightarrow> i < n \<Longrightarrow> (g', l') \<in> set (prog i g (ls i)) \<Longrightarrow>
     reach prog n s0 (g', ls(i := l'))"

fun exec :: "('g, 'l) prog \<Rightarrow> (nat \<times> nat) list \<Rightarrow> ('g, 'l) sys \<Rightarrow> ('g, 'l) sys option" where
  "exec prog [] s = Some s"
| "exec prog ((i, k) # sch) (g, ls) = (let succs = prog i g (ls i) in
     if k < length succs then exec prog sch (fst (succs ! k), ls(i := snd (succs ! k))) else None)"

lemma exec_reach_from:
  assumes "exec prog sch s = Some s'" and "\<forall>x \<in> set sch. fst x < n" and "reach prog n s0 s"
  shows "reach prog n s0 s'"
  using assms
proof (induction prog sch s rule: exec.induct)
  case (1 prog s)
  then show ?case by simp
next
  case (2 prog i k sch g ls)
  let ?x = "prog i g (ls i) ! k"
  have k: "k < length (prog i g (ls i))" using "2.prems"(1) by (auto simp: Let_def split: if_splits)
  then have "(fst ?x, snd ?x) \<in> set (prog i g (ls i))" by simp
  then have "reach prog n s0 (fst ?x, ls(i := snd ?x))"
    using "2.prems"(2,3) by (intro reach.step) auto
  with 2 k show ?case by (auto simp: Let_def)
qed

lemma exec_reach: "exec prog sch s0 = Some s' \<Longrightarrow> \<forall>x \<in> set sch. fst x < n \<Longrightarrow> reach prog n s0 s'"
  by (rule exec_reach_from[OF _ _ reach.start])

text \<open>A sum over all threads after one of them has changed its local state.\<close>

lemma sum_upd:
  fixes f :: "nat \<Rightarrow> 'l \<Rightarrow> int" and i n :: nat
  assumes "i < n"
  shows "(\<Sum>j<n. f j ((ls(i := l)) j)) = (\<Sum>j<n. f j (ls j)) - f i (ls i) + f i l"
proof -
  have "(\<Sum>j\<in>{..<n} - {i}. f j ((ls(i := l)) j)) = (\<Sum>j\<in>{..<n} - {i}. f j (ls j))"
    by (rule sum.cong) auto
  moreover have "(\<Sum>j\<in>{..<n}. h j) = h i + (\<Sum>j\<in>{..<n} - {i}. h j)" for h :: "nat \<Rightarrow> int"
    by (rule sum.remove) (use assms in auto)
  ultimately show ?thesis by (simp only: fun_upd_same)
qed

lemma sum_upd_other:
  fixes f :: "nat \<Rightarrow> 'l \<Rightarrow> int" and n :: nat
  shows "(\<Sum>j<n. f j ((ls(n := l)) j)) = (\<Sum>j<n. f j (ls j))"
  by (rule sum.cong) auto

section \<open>Invariants\<close>

locale invariant =
  fixes prog :: "('g, 'l) prog" and n :: nat and s0 :: "('g, 'l) sys" and inv :: "'g \<Rightarrow> (nat \<Rightarrow> 'l) \<Rightarrow> bool"
  assumes inv_start: "inv (fst s0) (snd s0)"
    and inv_step: "inv g ls \<Longrightarrow> i < n \<Longrightarrow> (g', l') \<in> set (prog i g (ls i)) \<Longrightarrow> inv g' (ls(i := l'))"
begin

lemma reach_inv: "reach prog n s0 (g, ls) \<Longrightarrow> inv g ls"
proof -
  have "reach prog n s0 s \<Longrightarrow> inv (fst s) (snd s)" for s
    by (induction rule: reach.induct) (auto intro: inv_start inv_step simp del: fun_upd_apply)
  then show "reach prog n s0 (g, ls) \<Longrightarrow> inv g ls" by force
qed

end

section \<open>Locks\<close>

text \<open>
  The contract of a lock: a thread enters its critical section only when the lock is free and
  takes it by the same step; who leaves frees it; no other step touches it.
\<close>

locale lock_contract =
  fixes prog :: "('g, 'l) prog" and n :: nat and s0 :: "('g, 'l) sys"
    and held :: "'g \<Rightarrow> bool" and crit :: "'l \<Rightarrow> bool"
  assumes free_start: "\<not> held (fst s0)" and out_start: "i < n \<Longrightarrow> \<not> crit (snd s0 i)"
    and enter: "(g', l') \<in> set (prog i g l) \<Longrightarrow> \<not> crit l \<Longrightarrow> crit l' \<Longrightarrow> \<not> held g \<and> held g'"
    and leave: "(g', l') \<in> set (prog i g l) \<Longrightarrow> crit l \<Longrightarrow> \<not> crit l' \<Longrightarrow> \<not> held g'"
    and keep: "(g', l') \<in> set (prog i g l) \<Longrightarrow> crit l' = crit l \<Longrightarrow> held g' = held g"
begin

definition excl :: "'g \<Rightarrow> (nat \<Rightarrow> 'l) \<Rightarrow> bool" where
  "excl g ls \<longleftrightarrow> (held g \<longleftrightarrow> (\<exists>i < n. crit (ls i))) \<and>
     (\<forall>i j. i < n \<longrightarrow> j < n \<longrightarrow> crit (ls i) \<longrightarrow> crit (ls j) \<longrightarrow> i = j)"

lemma excl_other: "excl g ls \<Longrightarrow> crit (ls i) \<Longrightarrow> i < n \<Longrightarrow> j < n \<Longrightarrow> j \<noteq> i \<Longrightarrow> \<not> crit (ls j)"
  by (auto simp: excl_def)

lemma excl_step:
  assumes "excl g ls" and "i < n" and s: "(g', l') \<in> set (prog i g (ls i))"
  shows "excl g' (ls(i := l'))"
proof (cases "crit l' = crit (ls i)")
  case True
  then have "crit ((ls(i := l')) j) = crit (ls j)" for j by simp
  with keep[OF s True] assms(1) show ?thesis by (simp add: excl_def)
next
  case False
  show ?thesis
  proof (cases "crit l'")
    case True
    with False enter[OF s] assms(1,2) show ?thesis by (auto simp: excl_def)
  next
    case out: False
    with False leave[OF s] have "\<not> held g'" by simp
    with out False assms(1,2) show ?thesis by (auto simp: excl_def)
  qed
qed

lemma excl_start: "excl (fst s0) (snd s0)"
  using free_start out_start by (auto simp: excl_def)

lemma reach_excl: "reach prog n s0 (g, ls) \<Longrightarrow> excl g ls"
proof -
  have "reach prog n s0 s \<Longrightarrow> excl (fst s) (snd s)" for s
    by (induction rule: reach.induct) (auto intro: excl_start excl_step simp del: fun_upd_apply)
  then show "reach prog n s0 (g, ls) \<Longrightarrow> excl g ls" by force
qed

lemma mutual_exclusion:
  "reach prog n s0 (g, ls) \<Longrightarrow> i < n \<Longrightarrow> j < n \<Longrightarrow> crit (ls i) \<Longrightarrow> crit (ls j) \<Longrightarrow> i = j"
  using reach_excl by (auto simp: excl_def)

lemma held_iff: "reach prog n s0 (g, ls) \<Longrightarrow> held g \<longleftrightarrow> (\<exists>i < n. crit (ls i))"
  using reach_excl by (auto simp: excl_def)

end

end
