(* ===== verification/Counters.thy ===== *)
theory Counters
  imports Interleaving
begin

text \<open>
  \<^verbatim>\<open>lecture_examples/6_threads/4_not_atomic.c\<close> and \<^verbatim>\<open>5_atomic.c\<close>: thread 0 is \<^verbatim>\<open>main\<close>, thread 1 is
  \<^verbatim>\<open>thread_f\<close>; each increments the shared counter \<open>rounds\<close> times (100000 in the code). In the first
  program an increment is a load and a store, in the second one it is atomic.
\<close>

record counting =
  counter :: int
  is_finished :: bool
  out :: "int option"

datatype count_pc =
    Loop nat
  | Loaded nat int
  | Done

definition count_start :: "(counting, count_pc) sys" where
  "count_start = (\<lparr>counter = 0, is_finished = False, out = None\<rparr>, \<lambda>_. Loop 0)"

text \<open>What follows the loop: the thread reports that it has finished, \<^verbatim>\<open>main\<close> spins and prints.\<close>

definition after_loop :: "nat \<Rightarrow> counting \<Rightarrow> count_pc \<Rightarrow> (counting \<times> count_pc) list" where
  "after_loop i g l =
     (if i = 0 then (if is_finished g then [(g\<lparr>out := Some (counter g)\<rparr>, Done)] else [(g, l)])
      else [(g\<lparr>is_finished := True\<rparr>, Done)])"

fun not_atomic :: "nat \<Rightarrow> (counting, count_pc) prog" where
  "not_atomic rounds i g (Loop k) =
     (if k < rounds then [(g, Loaded k (counter g))] else after_loop i g (Loop k))"
| "not_atomic rounds i g (Loaded k v) = [(g\<lparr>counter := v + 1\<rparr>, Loop (k + 1))]"
| "not_atomic rounds i g Done = []"

fun atomic :: "nat \<Rightarrow> (counting, count_pc) prog" where
  "atomic rounds i g (Loop k) =
     (if k < rounds then [(g\<lparr>counter := counter g + 1\<rparr>, Loop (k + 1))] else after_loop i g (Loop k))"
| "atomic rounds i g (Loaded k v) = []"
| "atomic rounds i g Done = []"

section \<open>The atomic counter\<close>

fun increments :: "nat \<Rightarrow> count_pc \<Rightarrow> nat" where
  "increments rounds (Loop k) = k"
| "increments rounds (Loaded k v) = k"
| "increments rounds Done = rounds"

definition atomic_inv :: "nat \<Rightarrow> counting \<Rightarrow> (nat \<Rightarrow> count_pc) \<Rightarrow> bool" where
  "atomic_inv rounds g ls \<longleftrightarrow> counter g = int (increments rounds (ls 0) + increments rounds (ls 1)) \<and>
     (is_finished g \<longrightarrow> ls 1 = Done) \<and> (\<forall>v. out g = Some v \<longrightarrow> v = 2 * int rounds) \<and>
     increments rounds (ls 0) \<le> rounds \<and> increments rounds (ls 1) \<le> rounds"

interpretation at: invariant "atomic rounds" 2 count_start "atomic_inv rounds" for rounds
proof
  show "atomic_inv rounds (fst count_start) (snd count_start)"
    by (simp add: atomic_inv_def count_start_def)
  fix g ls i g' l'
  assume inv: "atomic_inv rounds g ls" and i: "i < 2" and s: "(g', l') \<in> set (atomic rounds i g (ls i))"
  from i consider "i = 0" | "i = 1" by linarith
  then show "atomic_inv rounds g' (ls(i := l'))"
    using s inv by cases (cases "ls i"; auto simp: atomic_inv_def after_loop_def split: if_splits)+
qed

section \<open>The counter that is not atomic\<close>

definition bounded_inv :: "nat \<Rightarrow> counting \<Rightarrow> (nat \<Rightarrow> count_pc) \<Rightarrow> bool" where
  "bounded_inv rounds g ls \<longleftrightarrow> counter g \<le> int (increments rounds (ls 0) + increments rounds (ls 1)) \<and>
     (\<forall>i k v. i < 2 \<longrightarrow> ls i = Loaded k v \<longrightarrow> v \<le> int (increments rounds (ls 0) + increments rounds (ls 1)) \<and> k < rounds) \<and>
     (\<forall>v. out g = Some v \<longrightarrow> v \<le> 2 * int rounds) \<and>
     increments rounds (ls 0) \<le> rounds \<and> increments rounds (ls 1) \<le> rounds"

interpretation na: invariant "not_atomic rounds" 2 count_start "bounded_inv rounds" for rounds
proof
  show "bounded_inv rounds (fst count_start) (snd count_start)"
    by (simp add: bounded_inv_def count_start_def)
  fix g ls i g' l'
  assume inv: "bounded_inv rounds g ls" and i: "i < 2" and s: "(g', l') \<in> set (not_atomic rounds i g (ls i))"
  from i consider "i = 0" | "i = 1" by linarith
  then show "bounded_inv rounds g' (ls(i := l'))"
    using s inv by cases (cases "ls i"; auto simp: bounded_inv_def after_loop_def less_2_cases_iff split: if_splits; fastforce)+
qed

text \<open>One thread alone.\<close>

lemma run_alone:
  assumes "reach (not_atomic rounds) 2 count_start (g, ls)" and "i < 2" and "ls i = Loop k" and "k \<le> rounds"
  shows "reach (not_atomic rounds) 2 count_start
    (g\<lparr>counter := counter g + int (rounds - k)\<rparr>, ls(i := Loop rounds))"
  using assms
proof (induction "rounds - k" arbitrary: g ls k)
  case 0
  then have "ls(i := Loop rounds) = ls" by auto
  with 0 show ?case by simp
next
  case (Suc d)
  have "reach (not_atomic rounds) 2 count_start (g, ls(i := Loaded k (counter g)))"
    using Suc by (intro reach.step) auto
  then have "reach (not_atomic rounds) 2 count_start
      (g\<lparr>counter := counter g + 1\<rparr>, (ls(i := Loaded k (counter g)))(i := Loop (k + 1)))"
    by (rule reach.step) (use Suc.prems(2) in auto)
  then have "reach (not_atomic rounds) 2 count_start (g\<lparr>counter := counter g + 1\<rparr>, ls(i := Loop (k + 1)))"
    by (simp only: fun_upd_upd)
  from Suc.hyps(1)[of "k + 1", OF _ this Suc.prems(2)] Suc.hyps(2) Suc.prems(4) show ?case
    by (simp add: of_nat_diff algebra_simps)
qed

lemma lost_update:
  assumes "0 < rounds"
  shows "\<exists>g ls. reach (not_atomic rounds) 2 count_start (g, ls) \<and> out g = Some (2 * int rounds - 1)"
proof -
  let ?R = "reach (not_atomic rounds) 2 count_start"
  let ?g = "\<lambda>c. \<lparr>counter = c, is_finished = False, out = None\<rparr>"
  have "?R (?g 1, (\<lambda>_. Loop 0)(0 := Loop 1, 1 := Loop 1))"
    by (rule exec_reach[where sch = "[(0, 0), (1, 0), (0, 0), (1, 0)]"])
      (use assms in \<open>auto simp: count_start_def fun_eq_iff\<close>)
  then have "?R (?g (int rounds), (\<lambda>_. Loop 0)(0 := Loop 1, 1 := Loop rounds))"
    using run_alone[of rounds "?g 1" "(\<lambda>_. Loop 0)(0 := Loop 1, 1 := Loop 1)" 1 1] assms
    by (simp add: of_nat_diff)
  then have "?R (?g (2 * int rounds - 1), (\<lambda>_. Loop 0)(0 := Loop rounds, 1 := Loop rounds))"
    using run_alone[of rounds "?g (int rounds)" "(\<lambda>_. Loop 0)(0 := Loop 1, 1 := Loop rounds)" 0 1] assms
    by (simp add: of_nat_diff fun_upd_twist)
  then have "?R ((?g (2 * int rounds - 1))\<lparr>is_finished := True, out := Some (2 * int rounds - 1)\<rparr>,
      (\<lambda>_. Loop 0)(0 := Done, 1 := Done))"
    by (rule exec_reach_from[where sch = "[(1, 0), (0, 0)]", rotated 2])
      (auto simp: after_loop_def fun_eq_iff)
  then show ?thesis by force
qed

section \<open>Properties\<close>

text \<open>With the atomic increment, whatever the interleaving, the number that \<^verbatim>\<open>main\<close> prints is twice
  the number of rounds, and the counter never shows anything but the increments made so far.\<close>

lemma atomic_counter_exact:
  assumes "reach (atomic rounds) 2 count_start (g, ls)"
  shows "counter g = int (increments rounds (ls 0) + increments rounds (ls 1)) \<and> out g \<in> {None, Some (2 * int rounds)}"
proof -
  have "atomic_inv rounds g ls" using at.reach_inv[OF assms] .
  then show ?thesis by (cases "out g") (auto simp: atomic_inv_def)
qed

text \<open>Without it \<^verbatim>\<open>main\<close> never prints more than twice the number of rounds, but for every positive
  number of rounds some interleaving prints less.\<close>

lemma not_atomic_counter_loses:
  "(\<nexists>g ls v. reach (not_atomic rounds) 2 count_start (g, ls) \<and> out g = Some v \<and> v > 2 * int rounds) \<and>
   (rounds = 0 \<or> (\<exists>g ls. reach (not_atomic rounds) 2 count_start (g, ls) \<and> out g = Some (2 * int rounds - 1)))"
proof -
  have "v \<le> 2 * int rounds" if "reach (not_atomic rounds) 2 count_start (g, ls)" "out g = Some v" for g ls v
    using na.reach_inv[OF that(1)] that(2) by (simp add: bounded_inv_def)
  then show ?thesis using lost_update[of rounds] by (cases "rounds = 0") (fastforce simp: not_less)+
qed

end
