(* ===== verification/Thing_Lock.thy ===== *)
theory Thing_Lock
  imports Interleaving
begin

text \<open>
  \<^verbatim>\<open>lecture_examples/6_threads/6_bad_lock.c\<close> and \<^verbatim>\<open>7_spin_lock.c\<close>: threads 0 to 5 try to fill the
  127 characters of a shared string with their own letter, thread 6 is \<^verbatim>\<open>main\<close>, which starts them,
  joins them (a thread that has returned is in \<open>ended\<close>) and prints the string. In the first program
  the lock is tested and set in two steps.
\<close>

record thing =
  lock :: bool
  str :: "char list"
  go :: bool
  ended :: "nat set"
  shown :: "char list option"

datatype thing_pc =
    Begin
  | Set_Lock
  | Write nat
  | Unlock
  | Returned
  | Main_Start
  | Main_Join
  | Main_End

definition letter :: "nat \<Rightarrow> char" where
  "letter i = char_of (97 + i)"

definition thing_start :: "(thing, thing_pc) sys" where
  "thing_start = (\<lparr>lock = False, str = replicate 127 CHR 0x00, go = False, ended = {}, shown = None\<rparr>,
     \<lambda>i. if i = 6 then Main_Start else Begin)"

definition thing_main :: "thing \<Rightarrow> thing_pc \<Rightarrow> (thing \<times> thing_pc) list" where
  "thing_main g l = (case l of
       Main_Start \<Rightarrow> [(g\<lparr>go := True\<rparr>, Main_Join)]
     | Main_Join \<Rightarrow> if {..<6} \<subseteq> ended g then [(g\<lparr>shown := Some (str g)\<rparr>, Main_End)] else []
     | _ \<Rightarrow> [])"

definition thread_return :: "nat \<Rightarrow> thing \<Rightarrow> thing" where
  "thread_return i g = g\<lparr>ended := insert i (ended g)\<rparr>"

definition bad_lock_thread :: "nat \<Rightarrow> thing \<Rightarrow> thing_pc \<Rightarrow> (thing \<times> thing_pc) list" where
  "bad_lock_thread i g l = (case l of
       Begin \<Rightarrow> if \<not> go g then [(g, Begin)]
         else if \<not> lock g then [(g, Set_Lock)] else [(thread_return i g, Returned)]
     | Set_Lock \<Rightarrow> [(g\<lparr>lock := True\<rparr>, Write 0)]
     | Write k \<Rightarrow> if k < 127 then [(g\<lparr>str := (str g)[k := letter i]\<rparr>, Write (k + 1))]
         else [(thread_return i g, Returned)]
     | _ \<Rightarrow> [])"

definition spin_lock_thread :: "nat \<Rightarrow> thing \<Rightarrow> thing_pc \<Rightarrow> (thing \<times> thing_pc) list" where
  "spin_lock_thread i g l = (case l of
       Begin \<Rightarrow> if \<not> go g then [(g, Begin)]
         else if \<not> lock g then [(g\<lparr>lock := True\<rparr>, Write 0)] else [(thread_return i g, Returned)]
     | Write k \<Rightarrow> if k < 127 then [(g\<lparr>str := (str g)[k := letter i]\<rparr>, Write (k + 1))] else [(g, Unlock)]
     | Unlock \<Rightarrow> [(thread_return i (if lock g then g\<lparr>lock := False\<rparr> else g), Returned)]
     | _ \<Rightarrow> [])"

definition bad_lock :: "(thing, thing_pc) prog" where
  "bad_lock i g l = (if i = 6 then thing_main g l else bad_lock_thread i g l)"

definition spin_lock :: "(thing, thing_pc) prog" where
  "spin_lock i g l = (if i = 6 then thing_main g l else spin_lock_thread i g l)"

section \<open>The spin lock\<close>

definition writing :: "thing_pc \<Rightarrow> bool" where
  "writing l \<longleftrightarrow> (case l of Write _ \<Rightarrow> True | Unlock \<Rightarrow> True | _ \<Rightarrow> False)"

lemma writing_simps [simp]:
  "writing (Write k)" "writing Unlock" "\<not> writing Begin" "\<not> writing Returned" "\<not> writing Main_Start"
  "\<not> writing Main_Join" "\<not> writing Main_End" "\<not> writing Set_Lock"
  by (simp_all add: writing_def)

lemmas spin_defs = spin_lock_def thing_main_def spin_lock_thread_def thread_return_def

interpretation sl: lock_contract spin_lock 7 thing_start lock writing
proof
  show "\<not> lock (fst thing_start)" "\<not> writing (snd thing_start i)" for i
    by (simp_all add: thing_start_def)
  fix g l i g' l'
  assume s: "(g', l') \<in> set (spin_lock i g l)"
  { assume "\<not> writing l" "writing l'" with s show "\<not> lock g \<and> lock g'"
      by (cases l) (auto simp: spin_defs split: if_splits) }
  { assume "writing l" "\<not> writing l'" with s show "\<not> lock g'"
      by (cases l) (auto simp: spin_defs split: if_splits) }
  { assume "writing l' = writing l" with s show "lock g' = lock g"
      by (cases l) (auto simp: spin_defs split: if_splits) }
qed

definition uniform :: "thing \<Rightarrow> bool" where
  "uniform g \<longleftrightarrow> (\<exists>i < 6. str g = replicate 127 (letter i))"

definition thread_ok :: "thing \<Rightarrow> (nat \<Rightarrow> thing_pc) \<Rightarrow> nat \<Rightarrow> bool" where
  "thread_ok g ls i \<longleftrightarrow> (case ls i of
       Write k \<Rightarrow> k \<le> 127 \<and> take k (str g) = replicate k (letter i)
     | Unlock \<Rightarrow> uniform g
     | Returned \<Rightarrow> uniform g \<or> (\<exists>j < 6. writing (ls j))
     | l \<Rightarrow> l = Begin)"

definition thing_inv :: "thing \<Rightarrow> (nat \<Rightarrow> thing_pc) \<Rightarrow> bool" where
  "thing_inv g ls \<longleftrightarrow> sl.excl g ls \<and> length (str g) = 127 \<and> (\<forall>i < 6. thread_ok g ls i) \<and>
     \<not> writing (ls 6) \<and> (\<forall>i < 6. i \<in> ended g \<longrightarrow> ls i = Returned) \<and>
     (\<forall>t. shown g = Some t \<longrightarrow> (\<exists>i < 6. t = replicate 127 (letter i)))"

lemma take_write:
  "k < length xs \<Longrightarrow> take k xs = replicate k c \<Longrightarrow> take (Suc k) (xs[k := c]) = replicate (Suc k) c"
  by (simp add: take_Suc_conv_app_nth replicate_append_same)

text \<open>A thread that does not write needs only that the string is uniform or being written.\<close>

lemma thread_ok_idle:
  "thread_ok g ls j \<Longrightarrow> \<not> writing (ls j) \<Longrightarrow> ls' j = ls j \<Longrightarrow> uniform g' \<or> (\<exists>j < 6. writing (ls' j)) \<Longrightarrow>
     thread_ok g' ls' j"
  by (auto simp: thread_ok_def split: thing_pc.splits)

lemma thread_ok_cong:
  assumes "thread_ok g ls i" and "str g' = str g" and "ls' i = ls i"
    and w: "\<exists>j < 6. writing (ls j) \<Longrightarrow> \<exists>j < 6. writing (ls' j)"
  shows "thread_ok g' ls' i"
proof -
  have u: "uniform g' = uniform g" using assms(2) by (simp add: uniform_def)
  show ?thesis
  proof (cases "ls i")
    case Returned
    then show ?thesis using assms u by (simp add: thread_ok_def) blast
  qed (use assms u in \<open>simp_all add: thread_ok_def\<close>)
qed

lemma main_step:
  assumes inv: "thing_inv g ls" and s: "(g', l') \<in> set (thing_main g (ls 6))"
  shows "thing_inv g' (ls(6 := l'))"
proof -
  have ex: "sl.excl g' (ls(6 := l'))"
    using sl.excl_step[of g ls 6 g' l'] inv s by (simp add: thing_inv_def spin_lock_def)
  have ok: "thread_ok g' (ls(6 := l')) i" if "i < 6" "str g' = str g" for i
  proof (rule thread_ok_cong[of g ls])
    assume "\<exists>j < 6. writing (ls j)"
    then obtain j where "j < 6" "writing (ls j)" by blast
    then show "\<exists>j < 6. writing ((ls(6 := l')) j)" by (intro exI[of _ j]) simp
  qed (use that inv in \<open>simp_all add: thing_inv_def\<close>)
  show ?thesis
  proof (cases "ls 6")
    case Main_Join
    with s have all: "{..<6} \<subseteq> ended g" and g': "g' = g\<lparr>shown := Some (str g)\<rparr>" "l' = Main_End"
      by (auto simp: thing_main_def split: if_splits)
    have r: "ls i = Returned" if "i < 6" for i using all inv that by (auto simp: thing_inv_def)
    have "thread_ok g ls 0" using inv by (simp add: thing_inv_def)
    then have "uniform g" using r by (auto simp: thread_ok_def)
    with ex ok g' inv r show ?thesis by (auto simp: thing_inv_def uniform_def)
  qed (use s ex ok inv in \<open>auto simp: thing_inv_def thing_main_def\<close>)
qed

lemma thread_step:
  assumes inv: "thing_inv g ls" and i: "i < 6" and s: "(g', l') \<in> set (spin_lock_thread i g (ls i))"
  shows "thing_inv g' (ls(i := l'))"
proof -
  let ?ls = "ls(i := l')"
  have ex: "sl.excl g ls" and ex': "sl.excl g' ?ls"
    using sl.excl_step[of g ls i g' l'] inv s i by (simp_all add: thing_inv_def spin_lock_def)
  have oki: "thread_ok g ls i" and len: "length (str g) = 127" using inv i by (simp_all add: thing_inv_def)
  have others: "\<not> writing (ls j)" if "writing (ls i) \<or> \<not> lock g" "j < 6" "j \<noteq> i" for j
  proof
    assume j: "writing (ls j)"
    have "i < 7" "j < 7" using i that(2) by simp_all
    with ex j have "lock g" "writing (ls i) \<Longrightarrow> j = i" unfolding sl.excl_def by blast+
    with that show False by blast
  qed
  have idle: "\<forall>j < 6. j \<noteq> i \<longrightarrow> thread_ok g' ?ls j"
    if "writing (ls i) \<or> \<not> lock g" "uniform g' \<or> (\<exists>j < 6. writing (?ls j))"
  proof (intro allI impI)
    fix j :: nat assume j: "j < 6" "j \<noteq> i"
    have "thread_ok g ls j" using inv j(1) by (simp add: thing_inv_def)
    then show "thread_ok g' ?ls j"
      by (rule thread_ok_idle[where ls = ls]) (use j(2) that(2) others[OF that(1) j] in simp_all)
  qed
  have rest: "thing_inv g' ?ls"
    if "length (str g') = 127" "thread_ok g' ?ls i" "\<forall>j < 6. j \<noteq> i \<longrightarrow> thread_ok g' ?ls j"
      "ended g' = ended g \<or> ended g' = insert i (ended g) \<and> l' = Returned" "ls i \<noteq> Returned" "shown g' = shown g"
    using that ex' inv i unfolding thing_inv_def by (auto 0 3)
  show ?thesis
  proof (cases "ls i")
    case Begin
    consider (wait) "g' = g" "l' = Begin" | (enter) "\<not> lock g" "g' = g\<lparr>lock := True\<rparr>" "l' = Write 0"
      | (skip) "lock g" "g' = thread_return i g" "l' = Returned"
      using s Begin by (auto simp: spin_lock_thread_def split: if_splits)
    then show ?thesis
    proof cases
      case wait
      have "?ls = ls" using Begin wait(2) by (simp add: fun_upd_idem)
      with wait inv show ?thesis by simp
    next
      case enter
      have w: "\<exists>j < 6. writing (?ls j)" using i enter(3) by (intro exI[of _ i]) simp
      show ?thesis
      proof (rule rest)
        show "\<forall>j < 6. j \<noteq> i \<longrightarrow> thread_ok g' ?ls j"
          using idle enter(1) w by blast
      qed (use enter len Begin in \<open>simp_all add: thread_ok_def\<close>)
    next
      case skip
      obtain j where j: "j < 7" "writing (ls j)" using ex skip(1) by (auto simp: sl.excl_def)
      have "j \<noteq> 6" "j \<noteq> i" using j inv Begin by (auto simp: thing_inv_def)
      with j have w: "\<exists>j < 6. writing (?ls j)" by (intro exI[of _ j]) auto
      have same: "thread_ok g' ?ls m" if "m < 6" "m \<noteq> i" for m
        by (rule thread_ok_cong[of g ls]) (use inv that w skip(2) in \<open>simp_all add: thing_inv_def thread_return_def\<close>)
      show ?thesis
        by (rule rest) (use skip len Begin same w in \<open>auto simp: thread_ok_def thread_return_def\<close>)
    qed
  next
    case (Write k)
    then have wi: "writing (ls i)" by simp
    have k: "k \<le> 127" "take k (str g) = replicate k (letter i)" using oki Write by (simp_all add: thread_ok_def)
    consider (more) "k < 127" "g' = g\<lparr>str := (str g)[k := letter i]\<rparr>" "l' = Write (k + 1)"
      | (full) "k = 127" "g' = g" "l' = Unlock"
      using s Write k by (auto simp: spin_lock_thread_def split: if_splits)
    then show ?thesis
    proof cases
      case more
      have w: "\<exists>j < 6. writing (?ls j)" using i more(3) by (intro exI[of _ i]) simp
      show ?thesis
      proof (rule rest)
        show "\<forall>j < 6. j \<noteq> i \<longrightarrow> thread_ok g' ?ls j"
          using idle wi w by blast
        show "thread_ok g' ?ls i"
          using more k len take_write[of k "str g" "letter i"] by (simp add: thread_ok_def)
      qed (use more len Write in simp_all)
    next
      case full
      have w: "\<exists>j < 6. writing (?ls j)" using i full(3) by (intro exI[of _ i]) simp
      have "uniform g" using k full(1) len i by (auto simp: uniform_def)
      with full have "thread_ok g' ?ls i" by (simp add: thread_ok_def)
      then show ?thesis
        by (rule rest[rotated]) (use full len Write idle wi w in auto)
    qed
  next
    case Unlock
    then have wi: "writing (ls i)" by simp
    have u: "uniform g" using oki Unlock by (simp add: thread_ok_def)
    have g': "g' = thread_return i (if lock g then g\<lparr>lock := False\<rparr> else g)" "l' = Returned"
      using s Unlock by (auto simp: spin_lock_thread_def)
    then have u': "uniform g'" using u by (simp add: uniform_def thread_return_def)
    have "thread_ok g' ?ls i" using g'(2) u' by (simp add: thread_ok_def)
    then show ?thesis
      by (rule rest[rotated]) (use g' len Unlock idle wi u' in \<open>auto simp: thread_return_def\<close>)
  qed (use s oki in \<open>auto simp: spin_lock_thread_def thread_ok_def\<close>)
qed

interpretation si: invariant spin_lock 7 thing_start thing_inv
proof
  show "thing_inv (fst thing_start) (snd thing_start)"
    using sl.excl_start by (simp add: thing_inv_def thing_start_def thread_ok_def)
  fix g ls i g' l'
  assume inv: "thing_inv g ls" and i: "i < 7" and s: "(g', l') \<in> set (spin_lock i g (ls i))"
  from i consider "i = 6" | "i < 6" by linarith
  then show "thing_inv g' (ls(i := l'))"
    using main_step[OF inv] thread_step[OF inv] s by cases (auto simp: spin_lock_def simp del: fun_upd_apply)
qed

section \<open>Runs\<close>

text \<open>A thread that writes alone.\<close>

lemma write_alone:
  assumes "reach prog n s0 (g, ls)" and "i < n" and "ls i = Write k" and "k \<le> 127" and "length (str g) = 127"
    and w: "\<And>g k. k < 127 \<Longrightarrow> prog i g (Write k) = [(g\<lparr>str := (str g)[k := letter i]\<rparr>, Write (k + 1))]"
  shows "reach prog n s0 (g\<lparr>str := take k (str g) @ replicate (127 - k) (letter i)\<rparr>, ls(i := Write 127))"
  using assms(1-5)
proof (induction "127 - k" arbitrary: g ls k)
  case 0
  then have "ls(i := Write 127) = ls" by (auto intro: fun_upd_idem)
  with 0 show ?case by simp
next
  case (Suc d)
  then have k: "k < 127" by simp
  let ?g = "g\<lparr>str := (str g)[k := letter i]\<rparr>"
  have "reach prog n s0 (?g, ls(i := Write (k + 1)))"
    by (rule reach.step[OF Suc.prems(1,2)]) (use Suc.prems(3) w[OF k] in simp)
  from Suc.hyps(1)[of "k + 1", OF _ this Suc.prems(2)] Suc.hyps(2) Suc.prems(5)
  have "reach prog n s0 (?g\<lparr>str := take (Suc k) (str ?g) @ replicate (127 - Suc k) (letter i)\<rparr>, ls(i := Write 127))"
    by (simp add: fun_upd_upd)
  moreover have "take (Suc k) (str ?g) @ replicate (127 - Suc k) (letter i) =
      take k (str g) @ replicate (127 - k) (letter i)"
  proof -
    have "take (Suc k) (str ?g) = take k (str g) @ [letter i]"
      using k Suc.prems(5) by (simp add: take_Suc_conv_app_nth)
    moreover have "127 - k = Suc (127 - Suc k)" using k by simp
    ultimately show ?thesis by simp
  qed
  ultimately show ?case by simp
qed

lemma sixth: "(i :: nat) < 6 \<longleftrightarrow> i \<in> {0, 1, 2, 3, 4, 5}"
  by auto

lemma all_six: "{..<6} = {0, 1, 2, 3, 4, 5 :: nat}"
  by auto

lemmas bad_defs = bad_lock_def thing_main_def bad_lock_thread_def thread_return_def

text \<open>
  Both threads find the lock free; thread 1 fills the string between the first and the second
  character that thread 0 writes.
\<close>

lemma bad_lock_mixes:
  "\<exists>g ls. reach bad_lock 7 thing_start (g, ls) \<and> shown g = Some (letter 1 # replicate 126 (letter 0))"
proof -
  let ?R = "reach bad_lock 7 thing_start"
  let ?g = "\<lambda>t. \<lparr>lock = True, str = t, go = True, ended = {}, shown = None\<rparr>"
  let ?ls = "\<lambda>l0 l1. (\<lambda>i. if i = 6 then Main_Join else Begin)(0 := l0, 1 := l1)"
  let ?z = "replicate 127 CHR 0x00"
  have w: "k < 127 \<Longrightarrow> bad_lock i g (Write k) = [(g\<lparr>str := (str g)[k := letter i]\<rparr>, Write (k + 1))]" if "i < 6" for i g k
    using that by (simp add: bad_defs)
  have "?R (?g (?z[0 := letter 0]), ?ls (Write 1) (Write 0))"
    by (rule exec_reach[where sch = "[(6, 0), (0, 0), (1, 0), (0, 0), (1, 0), (0, 0)]"])
      (auto simp: thing_start_def bad_defs fun_eq_iff)
  from write_alone[OF this, of 1 0] w[of 1]
  have "?R (?g (replicate 127 (letter 1)), ?ls (Write 1) (Write 127))"
    by (simp add: fun_upd_twist)
  from write_alone[OF this, of 0 1] w[of 0]
  have "?R (?g (letter 1 # replicate 126 (letter 0)), ?ls (Write 127) (Write 127))"
    by (simp add: fun_upd_twist numeral_eq_Suc)
  then have "?R ((?g (letter 1 # replicate 126 (letter 0)))\<lparr>ended := {0, 1, 2, 3, 4, 5},
      shown := Some (letter 1 # replicate 126 (letter 0))\<rparr>, \<lambda>i. if i = 6 then Main_End else if i < 6 then Returned else Begin)"
    by (rule exec_reach_from[where sch = "[(0, 0), (1, 0), (2, 0), (3, 0), (4, 0), (5, 0), (6, 0)]", rotated 2])
      (auto simp: bad_defs all_six fun_eq_iff)
  then show ?thesis by force
qed

section \<open>Properties\<close>

text \<open>With the compare-and-swap, in every interleaving at most one thread writes at a time and the
  string that \<^verbatim>\<open>main\<close> prints consists of the letter of one thread.\<close>

lemma spin_lock_uniform:
  assumes "reach spin_lock 7 thing_start (g, ls)"
  shows "(\<forall>i j. i < 7 \<longrightarrow> j < 7 \<longrightarrow> writing (ls i) \<longrightarrow> writing (ls j) \<longrightarrow> i = j) \<and>
    (shown g = None \<or> (\<exists>i < 6. shown g = Some (replicate 127 (letter i))))"
proof -
  have "thing_inv g ls" using si.reach_inv[OF assms] .
  then show ?thesis using sl.mutual_exclusion[OF assms] by (cases "shown g") (auto simp: thing_inv_def)
qed

text \<open>With the test and the store of \<^verbatim>\<open>6_bad_lock.c\<close>, some interleaving prints a string of two
  threads' letters.\<close>

lemma bad_lock_torn:
  "\<exists>g ls. reach bad_lock 7 thing_start (g, ls) \<and> shown g = Some (letter 1 # replicate 126 (letter 0)) \<and> letter 0 \<noteq> letter 1"
proof -
  have "letter 0 \<noteq> letter 1" by code_simp
  with bad_lock_mixes show ?thesis by blast
qed

end
