(* ===== verification/Futex.thy ===== *)
theory Futex
  imports Interleaving
begin

text \<open>
  \<^verbatim>\<open>lecture_examples/6_threads/8_futex.c\<close>: a lock of one word on which waiters sleep in the kernel.
  Threads 0 to \<open>n - 1\<close> increment a plain counter \<open>rounds\<close> times under the lock (6 and 100000 in
  the code), thread \<open>n\<close> is \<^verbatim>\<open>main\<close>. \<^verbatim>\<open>FUTEX_WAIT\<close> sleeps only if the word still has the expected
  value; \<^verbatim>\<open>FUTEX_WAKE\<close> wakes one of the sleepers, any of them.
\<close>

record fut =
  futex :: int
  cnt :: int
  started :: bool
  sleepers :: "nat list"
  over :: "nat set"
  result :: "int option"

datatype fut_pc =
    Wait_Start
  | Head nat
  | Try nat
  | Wait nat
  | Sleep nat
  | Load nat
  | Store nat int
  | Unlock_Word nat
  | Wake nat
  | Over
  | Main0
  | Join
  | Main1

definition futex_wait :: "nat \<Rightarrow> int \<Rightarrow> fut \<Rightarrow> bool \<times> fut" where
  "futex_wait i v g = (if futex g = v then (True, g\<lparr>sleepers := sleepers g @ [i]\<rparr>) else (False, g))"

definition futex_wake :: "fut \<Rightarrow> fut list" where
  "futex_wake g = (if sleepers g = [] then [g]
     else map (\<lambda>j. g\<lparr>sleepers := removeAll j (sleepers g)\<rparr>) (sleepers g))"

text \<open>One turn of the loop of \<^verbatim>\<open>futex_lock\<close>; \<^verbatim>\<open>futex_unlock\<close> is the compare-and-swap, then the wake.\<close>

definition futex_lock :: "nat \<Rightarrow> nat \<Rightarrow> fut \<Rightarrow> fut \<times> fut_pc" where
  "futex_lock i k g = (if futex g = 0 then (g\<lparr>futex := 1\<rparr>, Load k) else (g, Wait k))"

definition futex_unlock :: "fut \<Rightarrow> fut" where
  "futex_unlock g = (if futex g = 1 then g\<lparr>futex := 0\<rparr> else g)"

definition fut_thread :: "nat \<Rightarrow> nat \<Rightarrow> fut \<Rightarrow> fut_pc \<Rightarrow> (fut \<times> fut_pc) list" where
  "fut_thread rounds i g l = (case l of
       Wait_Start \<Rightarrow> [(g, if started g then Head 0 else Wait_Start)]
     | Head k \<Rightarrow> if k < rounds then [(g, Try k)] else [(g\<lparr>over := insert i (over g)\<rparr>, Over)]
     | Try k \<Rightarrow> [futex_lock i k g]
     | Wait k \<Rightarrow> (case futex_wait i 1 g of (s, g) \<Rightarrow> [(g, if s then Sleep k else Try k)])
     | Sleep k \<Rightarrow> if i \<in> set (sleepers g) then [] else [(g, Try k)]
     | Load k \<Rightarrow> [(g, Store k (cnt g))]
     | Store k v \<Rightarrow> [(g\<lparr>cnt := v + 1\<rparr>, Unlock_Word k)]
     | Unlock_Word k \<Rightarrow> [(futex_unlock g, Wake k)]
     | Wake k \<Rightarrow> map (\<lambda>g. (g, Head (k + 1))) (futex_wake g)
     | _ \<Rightarrow> [])"

definition fut_main :: "nat \<Rightarrow> fut \<Rightarrow> fut_pc \<Rightarrow> (fut \<times> fut_pc) list" where
  "fut_main n g l = (case l of
       Main0 \<Rightarrow> [(g\<lparr>started := True\<rparr>, Join)]
     | Join \<Rightarrow> if list_all (\<lambda>i. i \<in> over g) [0..<n] then [(g\<lparr>result := Some (cnt g)\<rparr>, Main1)] else []
     | _ \<Rightarrow> [])"

definition fut_prog :: "nat \<Rightarrow> nat \<Rightarrow> (fut, fut_pc) prog" where
  "fut_prog n rounds i g l = (if i = n then fut_main n g l else fut_thread rounds i g l)"

definition fut_start :: "nat \<Rightarrow> (fut, fut_pc) sys" where
  "fut_start n = (\<lparr>futex = 0, cnt = 0, started = False, sleepers = [], over = {}, result = None\<rparr>,
     \<lambda>i. if i = n then Main0 else Wait_Start)"

lemmas fut_defs = fut_prog_def fut_thread_def fut_main_def futex_lock_def futex_wait_def futex_wake_def futex_unlock_def

section \<open>Mutual exclusion\<close>

definition inside_lock :: "fut_pc \<Rightarrow> bool" where
  "inside_lock l \<longleftrightarrow> (case l of Load _ \<Rightarrow> True | Store _ _ \<Rightarrow> True | Unlock_Word _ \<Rightarrow> True | _ \<Rightarrow> False)"

lemma fut_contract:
  assumes s: "(g', l') \<in> set (fut_prog n rounds i g l)"
  shows "\<not> inside_lock l \<Longrightarrow> inside_lock l' \<Longrightarrow> futex g \<noteq> 1 \<and> futex g' = 1"
    and "inside_lock l \<Longrightarrow> \<not> inside_lock l' \<Longrightarrow> futex g' \<noteq> 1"
    and "inside_lock l' = inside_lock l \<Longrightarrow> (futex g' = 1) = (futex g = 1)"
  using s by (cases l; auto simp: fut_defs inside_lock_def split: if_splits)+

interpretation fl: lock_contract "fut_prog n rounds" "Suc n" "fut_start n" "\<lambda>g. futex g = 1" inside_lock for n rounds
proof
  show "futex (fst (fut_start n)) \<noteq> 1" "\<not> inside_lock (snd (fut_start n) i)" for i
    by (simp_all add: fut_start_def inside_lock_def)
qed (rule fut_contract; assumption)+

section \<open>The counter\<close>

text \<open>The increments a thread has made.\<close>

fun made :: "nat \<Rightarrow> fut_pc \<Rightarrow> nat" where
  "made rounds (Head k) = k"
| "made rounds (Try k) = k"
| "made rounds (Wait k) = k"
| "made rounds (Sleep k) = k"
| "made rounds (Load k) = k"
| "made rounds (Store k v) = k"
| "made rounds (Unlock_Word k) = k + 1"
| "made rounds (Wake k) = k + 1"
| "made rounds Over = rounds"
| "made rounds _ = 0"

definition in_bounds :: "nat \<Rightarrow> fut_pc \<Rightarrow> bool" where
  "in_bounds rounds l \<longleftrightarrow> made rounds l \<le> rounds \<and>
     (case l of Head k \<Rightarrow> True | Over \<Rightarrow> True | Wait_Start \<Rightarrow> True
      | Try k \<Rightarrow> k < rounds | Wait k \<Rightarrow> k < rounds | Sleep k \<Rightarrow> k < rounds | Load k \<Rightarrow> k < rounds
      | Store k v \<Rightarrow> k < rounds | Unlock_Word k \<Rightarrow> k < rounds | Wake k \<Rightarrow> k < rounds | _ \<Rightarrow> False)"

definition stored :: "fut \<Rightarrow> fut_pc \<Rightarrow> bool" where
  "stored g l \<longleftrightarrow> (case l of Store k v \<Rightarrow> v = cnt g | _ \<Rightarrow> True)"

definition fut_inv :: "nat \<Rightarrow> nat \<Rightarrow> fut \<Rightarrow> (nat \<Rightarrow> fut_pc) \<Rightarrow> bool" where
  "fut_inv n rounds g ls \<longleftrightarrow> fl.excl n g ls \<and> cnt g = (\<Sum>i<n. int (made rounds (ls i))) \<and>
     (\<forall>i < n. in_bounds rounds (ls i) \<and> stored g (ls i) \<and> (i \<in> over g \<longrightarrow> ls i = Over)) \<and>
     \<not> inside_lock (ls n) \<and> result g \<in> {None, Some (int n * int rounds)}"

text \<open>What one step of a thread does to the counter, its own state and the others'.\<close>

lemma fut_thread_effect:
  assumes "(g', l') \<in> set (fut_thread rounds i g l)" and "in_bounds rounds l" and "stored g l"
  shows "cnt g' = cnt g - int (made rounds l) + int (made rounds l')" and "in_bounds rounds l'" and "stored g' l'"
    and "over g' = over g \<or> over g' = insert i (over g) \<and> l' = Over" and "l \<noteq> Over" and "result g' = result g"
    and "cnt g' \<noteq> cnt g \<Longrightarrow> inside_lock l"
  using assms by (cases l; auto simp: fut_defs in_bounds_def stored_def inside_lock_def split: if_splits)+

interpretation fi: invariant "fut_prog n rounds" "Suc n" "fut_start n" "fut_inv n rounds" for n rounds
proof
  show "fut_inv n rounds (fst (fut_start n)) (snd (fut_start n))"
    using fl.excl_start by (auto simp: fut_inv_def fut_start_def in_bounds_def stored_def inside_lock_def)
  fix g ls i g' l'
  assume inv: "fut_inv n rounds g ls" and i: "i < Suc n" and s: "(g', l') \<in> set (fut_prog n rounds i g (ls i))"
  let ?ls = "ls(i := l')"
  have ex: "fl.excl n g ls" and ex': "fl.excl n g' ?ls"
    using fl.excl_step[where g = g and ls = ls, OF _ i s] inv by (simp_all add: fut_inv_def)
  show "fut_inv n rounds g' ?ls"
  proof (cases "i = n")
    case True
    have "(\<Sum>j<n. int (made rounds (?ls j))) = (\<Sum>j<n. int (made rounds (ls j)))"
      by (rule sum.cong) (use True in auto)
    moreover have "cnt g = int n * int rounds" if "list_all (\<lambda>i. i \<in> over g) [0..<n]"
    proof -
      have "ls i = Over" if "i < n" for i
        using inv that \<open>list_all _ _\<close> by (auto simp: fut_inv_def list_all_iff)
      then have "(\<Sum>j<n. int (made rounds (ls j))) = (\<Sum>j<n. int rounds)" by (intro sum.cong) auto
      with inv show ?thesis by (simp add: fut_inv_def)
    qed
    ultimately show ?thesis
      using inv ex' s True
      by (cases "ls n") (auto simp: fut_inv_def fut_prog_def fut_main_def stored_def inside_lock_def
          split: if_splits fut_pc.splits)
  next
    case False
    with i have i: "i < n" by simp
    have s: "(g', l') \<in> set (fut_thread rounds i g (ls i))" using s False by (simp add: fut_prog_def)
    have b: "in_bounds rounds (ls i)" "stored g (ls i)" using inv i by (auto simp: fut_inv_def)
    note E = fut_thread_effect[OF s b]
    have st: "stored g' (ls j)" if "j < n" "j \<noteq> i" for j
    proof (cases "cnt g' = cnt g")
      case True
      then show ?thesis using inv that by (auto simp: fut_inv_def stored_def split: fut_pc.splits)
    next
      case False
      then have "inside_lock (ls i)" by (rule E(7))
      with ex i that have "\<not> inside_lock (ls j)" by (auto simp: fl.excl_def)
      then show ?thesis by (auto simp: stored_def inside_lock_def split: fut_pc.splits)
    qed
    have "cnt g' = (\<Sum>j<n. int (made rounds (?ls j)))"
      using inv E(1) sum_upd[OF i, of "\<lambda>_ l. int (made rounds l)"] by (simp add: fut_inv_def)
    then show ?thesis
      using inv ex' E st i unfolding fut_inv_def by (auto 0 3)
  qed
qed

section \<open>No wake-up is lost\<close>

text \<open>A thread that is on its way to take or to free the lock.\<close>

definition on_the_way :: "fut \<Rightarrow> nat \<Rightarrow> fut_pc \<Rightarrow> bool" where
  "on_the_way g i l \<longleftrightarrow> (case l of Try _ \<Rightarrow> True | Wait _ \<Rightarrow> True | Load _ \<Rightarrow> True | Store _ _ \<Rightarrow> True
     | Unlock_Word _ \<Rightarrow> True | Wake _ \<Rightarrow> True | Sleep _ \<Rightarrow> i \<notin> set (sleepers g) | _ \<Rightarrow> False)"

definition wake_inv :: "nat \<Rightarrow> fut \<Rightarrow> (nat \<Rightarrow> fut_pc) \<Rightarrow> bool" where
  "wake_inv n g ls \<longleftrightarrow> (\<forall>j \<in> set (sleepers g). j < n \<and> (\<exists>k. ls j = Sleep k)) \<and>
     (sleepers g \<noteq> [] \<longrightarrow> (\<exists>i < n. on_the_way g i (ls i)))"

lemma on_the_way_cong: "sleepers g' = sleepers g \<Longrightarrow> on_the_way g' i l = on_the_way g i l"
  by (cases l) (simp_all add: on_the_way_def)

lemma on_the_way_steps: "on_the_way g i l \<Longrightarrow> fut_thread rounds i g l \<noteq> []"
  by (cases l) (auto simp: on_the_way_def fut_defs split: if_splits)

lemma inside_on_the_way: "inside_lock l \<Longrightarrow> on_the_way g i l"
  by (cases l) (auto simp: inside_lock_def on_the_way_def)

lemma wake_inv_step:
  assumes inv: "wake_inv n g ls" and ex: "fl.excl n g ls" and out: "\<not> inside_lock (ls n)"
    and i: "i < n" and s: "(g', l') \<in> set (fut_thread rounds i g (ls i))"
  shows "wake_inv n g' (ls(i := l'))"
proof -
  let ?ls = "ls(i := l')"
  have sl: "\<forall>j \<in> set (sleepers g). j < n \<and> (\<exists>k. ls j = Sleep k)" using inv by (simp add: wake_inv_def)
  have keep: "wake_inv n g' ?ls"
    if same: "sleepers g' = sleepers g" and ni: "i \<notin> set (sleepers g)" and
      way: "on_the_way g i (ls i) \<Longrightarrow> on_the_way g' i l'"
  proof -
    have "\<exists>j < n. on_the_way g' j (?ls j)" if ne: "sleepers g \<noteq> []"
    proof -
      obtain j where j: "j < n" "on_the_way g j (ls j)" using inv ne by (auto simp: wake_inv_def)
      show ?thesis
      proof (cases "j = i")
        case True
        with j way show ?thesis by (intro exI[of _ i]) simp
      next
        case False
        from j(2) have "on_the_way g' j (ls j)" by (simp add: on_the_way_cong[OF same])
        with j False show ?thesis by (intro exI[of _ j]) simp
      qed
    qed
    with same ni sl show ?thesis by (auto simp: wake_inv_def)
  qed
  have notin: "i \<notin> set (sleepers g)" if "\<And>k. ls i \<noteq> Sleep k" using sl that by blast
  have other: "wake_inv n g' ?ls" if "\<forall>k. ls i \<noteq> Wait k \<and> ls i \<noteq> Wake k \<and> ls i \<noteq> Sleep k"
  proof (rule keep)
    show "i \<notin> set (sleepers g)" using that by (intro notin) blast
    show "sleepers g' = sleepers g" using s that by (cases "ls i") (auto simp: fut_defs split: if_splits)
    assume "on_the_way g i (ls i)"
    then show "on_the_way g' i l'"
      using s that by (cases "ls i") (auto simp: fut_defs on_the_way_def split: if_splits)
  qed
  show ?thesis
  proof (cases "ls i")
    case (Wait k)
    show ?thesis
    proof (cases "futex g = 1")
      case True
      then have g': "g' = g\<lparr>sleepers := sleepers g @ [i]\<rparr>" "l' = Sleep k"
        using s Wait by (auto simp: fut_defs)
      obtain j where j: "j < Suc n" "inside_lock (ls j)" using ex True by (auto simp: fl.excl_def)
      then have "j < n" "j \<noteq> i" using out Wait by (auto simp: less_Suc_eq inside_lock_def)
      with j have "\<exists>j < n. on_the_way g' j (?ls j)"
        by (intro exI[of _ j]) (simp add: inside_on_the_way)
      with g' sl i show ?thesis by (auto simp: wake_inv_def)
    next
      case False
      then show ?thesis
        using s Wait by (intro keep notin) (auto simp: fut_defs on_the_way_def)
    qed
  next
    case (Wake k)
    show ?thesis
    proof (cases "sleepers g")
      case Nil
      then show ?thesis using s Wake by (auto simp: fut_defs wake_inv_def)
    next
      case (Cons a as)
      then have "sleepers g \<noteq> []" by simp
      then obtain j where j: "j \<in> set (sleepers g)" "g' = g\<lparr>sleepers := removeAll j (sleepers g)\<rparr>" "l' = Head (k + 1)"
        using s Wake by (auto simp: fut_defs)
      with sl obtain m where m: "j < n" "ls j = Sleep m" by blast
      have "j \<noteq> i" using m Wake by auto
      with j m have "on_the_way g' j (?ls j)" by (simp add: on_the_way_def)
      moreover have "\<forall>x \<in> set (sleepers g'). x < n \<and> (\<exists>k. ?ls x = Sleep k)"
        using j sl Wake by auto
      ultimately show ?thesis using m(1) unfolding wake_inv_def by blast
    qed
  next
    case (Sleep k)
    then show ?thesis using s by (intro keep) (auto simp: fut_defs on_the_way_def split: if_splits)
  qed (use other in simp_all)
qed

definition full_inv :: "nat \<Rightarrow> nat \<Rightarrow> fut \<Rightarrow> (nat \<Rightarrow> fut_pc) \<Rightarrow> bool" where
  "full_inv n rounds g ls \<longleftrightarrow> fut_inv n rounds g ls \<and> wake_inv n g ls \<and>
     (\<forall>i < n. ls i = Over \<longrightarrow> i \<in> over g) \<and> ls n \<in> {Main0, Join, Main1} \<and> (ls n = Main1 \<longrightarrow> result g \<noteq> None)"

interpretation fw: invariant "fut_prog n rounds" "Suc n" "fut_start n" "full_inv n rounds" for n rounds
proof
  show "full_inv n rounds (fst (fut_start n)) (snd (fut_start n))"
    using fi.inv_start by (auto simp: full_inv_def fut_start_def wake_inv_def)
  fix g ls i g' l'
  assume inv: "full_inv n rounds g ls" and i: "i < Suc n" and s: "(g', l') \<in> set (fut_prog n rounds i g (ls i))"
  have fi': "fut_inv n rounds g' (ls(i := l'))"
    using fi.inv_step[where g = g and ls = ls, OF _ i s] inv by (simp add: full_inv_def)
  show "full_inv n rounds g' (ls(i := l'))"
  proof (cases "i = n")
    case True
    have "wake_inv n g' (ls(i := l'))"
    proof -
      have "sleepers g' = sleepers g" using s True by (auto simp: fut_defs split: fut_pc.splits if_splits)
      then have "on_the_way g' j l = on_the_way g j l" for j l by (rule on_the_way_cong)
      moreover have "(\<exists>j < n. on_the_way g j ((ls(i := l')) j)) = (\<exists>j < n. on_the_way g j (ls j))"
        by (rule ex_cong1) (use True in auto)
      moreover have "(\<forall>j \<in> set (sleepers g). j < n \<and> (\<exists>k. (ls(i := l')) j = Sleep k)) =
          (\<forall>j \<in> set (sleepers g). j < n \<and> (\<exists>k. ls j = Sleep k))"
        by (rule ball_cong[OF refl]) (use True in auto)
      ultimately show ?thesis
        using inv \<open>sleepers g' = sleepers g\<close> by (simp add: full_inv_def wake_inv_def del: fun_upd_apply)
    qed
    with fi' inv s True show ?thesis
      by (cases "ls n") (auto simp: full_inv_def fut_defs split: if_splits)
  next
    case False
    with i have i: "i < n" by simp
    have s: "(g', l') \<in> set (fut_thread rounds i g (ls i))" using s False by (simp add: fut_prog_def)
    have "wake_inv n g' (ls(i := l'))"
      by (rule wake_inv_step[where g = g and ls = ls, OF _ _ _ i s]) (use inv in \<open>auto simp: full_inv_def fut_inv_def\<close>)
    moreover have "l' = Over \<longrightarrow> i \<in> over g'" "over g \<subseteq> over g'" "result g' = result g"
      using s by (cases "ls i"; auto simp: fut_defs split: if_splits)+
    ultimately show ?thesis using fi' inv False by (auto simp: full_inv_def)
  qed
qed

section \<open>Properties\<close>

text \<open>C23: in every interleaving at most one thread is between taking and freeing the lock, the plain
  counter holds exactly the increments made, and what \<^verbatim>\<open>main\<close> prints is their full number.\<close>

theorem futex_counter_exact:
  assumes "reach (fut_prog n rounds) (Suc n) (fut_start n) (g, ls)"
  shows "(\<forall>i j. i < n \<longrightarrow> j < n \<longrightarrow> inside_lock (ls i) \<longrightarrow> inside_lock (ls j) \<longrightarrow> i = j) \<and>
    cnt g = (\<Sum>i<n. int (made rounds (ls i))) \<and> result g \<in> {None, Some (int n * int rounds)}"
proof -
  have "fut_inv n rounds g ls" using fi.reach_inv[OF assms] .
  with fl.mutual_exclusion[OF assms] show ?thesis by (simp add: fut_inv_def)
qed

theorem futex_counter_exact_witness:
  "\<exists>g ls. reach (fut_prog 1 1) 2 (fut_start 1) (g, ls) \<and> result g = Some 1 \<and> result g \<in> {None, Some (int 1 * int 1)}"
proof -
  let ?g = "\<lparr>futex = 0, cnt = 1, started = True, sleepers = [], over = {0}, result = Some 1\<rparr>"
  have r: "reach (fut_prog 1 1) (Suc 1) (fut_start 1) (?g, \<lambda>i. if i = 1 then Main1 else if i = 0 then Over else Wait_Start)"
    by (rule exec_reach[where sch = "[(1, 0), (0, 0), (0, 0), (0, 0), (0, 0), (0, 0), (0, 0), (0, 0), (0, 0), (1, 0)]"])
      (auto simp: fut_start_def fut_defs fun_eq_iff)
  have "result ?g = Some 1" by simp
  with futex_counter_exact[OF r] r show ?thesis by (metis One_nat_def numeral_2_eq_2)
qed

text \<open>C24: no wake-up is lost: in every reachable state in which \<^verbatim>\<open>main\<close> has not printed, some thread can
  take a step, so the threads never all sleep in the kernel.\<close>

theorem futex_never_stuck:
  assumes "reach (fut_prog n rounds) (Suc n) (fut_start n) (g, ls)" and "result g = None"
  shows "(\<exists>i \<le> n. fut_prog n rounds i g (ls i) \<noteq> []) \<and> (sleepers g = [] \<or> (\<exists>i < n. on_the_way g i (ls i)))"
proof -
  have inv: "full_inv n rounds g ls" using fw.reach_inv[OF assms(1)] .
  then have way: "sleepers g = [] \<or> (\<exists>i < n. on_the_way g i (ls i))"
    by (auto simp: full_inv_def wake_inv_def)
  have "\<exists>i \<le> n. fut_prog n rounds i g (ls i) \<noteq> []"
  proof (rule ccontr)
    assume "\<not> ?thesis"
    then have stuck: "i \<le> n \<Longrightarrow> fut_prog n rounds i g (ls i) = []" for i by blast
    have "ls n = Join" "\<not> list_all (\<lambda>i. i \<in> over g) [0..<n]"
      using stuck[of n] inv assms(2) by (auto simp: full_inv_def fut_defs split: if_splits)
    then obtain i where i: "i < n" "i \<notin> over g" by (auto simp: list_all_iff)
    then have "ls i \<noteq> Over" "in_bounds rounds (ls i)" using inv by (auto simp: full_inv_def fut_inv_def)
    with stuck[of i] i(1) have "i \<in> set (sleepers g)"
      by (cases "ls i") (auto simp: fut_defs in_bounds_def split: if_splits)
    then obtain j where "j < n" "on_the_way g j (ls j)" using way by auto
    with stuck[of j] on_the_way_steps[of g j "ls j" rounds] show False by (simp add: fut_prog_def)
  qed
  with way show ?thesis by blast
qed

theorem futex_never_stuck_witness:
  "\<exists>g ls. reach (fut_prog 2 1) 3 (fut_start 2) (g, ls) \<and> sleepers g = [1] \<and> (\<exists>i < 2. on_the_way g i (ls i))"
proof -
  let ?g = "\<lparr>futex = 1, cnt = 0, started = True, sleepers = [1], over = {}, result = None\<rparr>"
  let ?ls = "(\<lambda>i. if i = 2 then Join else Wait_Start)(0 := Load 0, 1 := Sleep 0)"
  have r: "reach (fut_prog 2 1) (Suc 2) (fut_start 2) (?g, ?ls)"
    by (rule exec_reach[where sch = "[(2, 0), (0, 0), (0, 0), (0, 0), (1, 0), (1, 0), (1, 0), (1, 0)]"])
      (auto simp: fut_start_def fut_defs fun_eq_iff)
  have "result ?g = None" "sleepers ?g \<noteq> []" by simp_all
  with futex_never_stuck[OF r] have "\<exists>i < 2. on_the_way ?g i (?ls i)" by blast
  moreover have "reach (fut_prog 2 1) 3 (fut_start 2) (?g, ?ls)" using r by (simp add: numeral_eq_Suc)
  ultimately show ?thesis by (intro exI[of _ ?g] exI[of _ ?ls]) simp
qed

end
