(* ===== verification/Cthreads.thy ===== *)
theory Cthreads
  imports Interleaving
begin

text \<open>
  The threads of \<^verbatim>\<open>lecture_examples/6_threads\<close> built on \<^verbatim>\<open>clone\<close>: joining
  (\<^verbatim>\<open>10_cthreads_1.c\<close>, \<^verbatim>\<open>10_cthreads_2.c\<close>), detaching without a lock (\<^verbatim>\<open>11_cthread_bad_detach.c\<close>)
  and with one (\<^verbatim>\<open>12_cthread_detach.c\<close>). Thread 1 is the new thread, thread 0 its creator. The state
  is the \<^verbatim>\<open>struct cthread\<close>, with what happened to its stack: how often the thread was destroyed,
  whether the stack was freed, and whether the thread has left it (\<open>exited\<close>; in the last program
  the kernel reports that by clearing \<^verbatim>\<open>tid\<close>). The last program has its global list of stacks, which
  are numbers here, the \<^verbatim>\<open>tid\<close> of each stack and the stacks freed so far. What the function of the thread does is a
  parameter: it returns, or calls \<^verbatim>\<open>cthread_exit\<close>, which jumps back into the runner.
\<close>

datatype func_end = Returns int | Exits int

record cthread =
  returned_code :: int
  finished :: bool
  detached :: bool
  thread_lock :: bool
  destroyed :: nat
  stack_freed :: bool
  exited :: bool
  joined :: "int option"
  my_stack :: nat
  tids :: "nat \<Rightarrow> int"
  stack_list :: "nat list"
  freed_stacks :: "nat list"

datatype ct_pc =
    Run
  | Lock
  | Test
  | Destroy
  | Finish
  | Detach
  | Unlock
  | Leave
  | Poll
  | Gone

definition cthread_create :: "nat \<Rightarrow> (nat \<Rightarrow> int) \<Rightarrow> nat list \<Rightarrow> cthread" where
  "cthread_create s tid_of L = \<lparr>returned_code = 0, finished = False, detached = False, thread_lock = False,
     destroyed = 0, stack_freed = False, exited = False, joined = None,
     my_stack = s, tids = tid_of, stack_list = L, freed_stacks = []\<rparr>"

text \<open>The call of the function: \<^verbatim>\<open>cthread_exit\<close> stores the code and jumps to the \<^verbatim>\<open>setjmp\<close> of the runner.\<close>

definition cthread_exit :: "int \<Rightarrow> cthread \<Rightarrow> cthread" where
  "cthread_exit retcode t = t\<lparr>returned_code := retcode\<rparr>"

definition run_plain :: "int \<Rightarrow> cthread \<Rightarrow> cthread" where
  "run_plain r t = t\<lparr>returned_code := r\<rparr>"

definition run_func :: "func_end \<Rightarrow> cthread \<Rightarrow> cthread" where
  "run_func f t = (case f of Returns r \<Rightarrow> t\<lparr>returned_code := r\<rparr> | Exits r \<Rightarrow> cthread_exit r t)"

definition finish :: "cthread \<Rightarrow> cthread" where
  "finish t = t\<lparr>finished := True\<rparr>"

definition leave :: "cthread \<Rightarrow> cthread" where
  "leave t = t\<lparr>exited := True, tids := (tids t)(my_stack t := 0)\<rparr>"

section \<open>Joining\<close>

definition runner_1 :: "int \<Rightarrow> cthread \<Rightarrow> ct_pc \<Rightarrow> (cthread \<times> ct_pc) list" where
  "runner_1 r t l = (case l of
       Run \<Rightarrow> [(run_plain r t, Finish)]
     | Finish \<Rightarrow> [(finish t, Leave)]
     | Leave \<Rightarrow> [(leave t, Gone)]
     | _ \<Rightarrow> [])"

definition runner_2 :: "func_end \<Rightarrow> cthread \<Rightarrow> ct_pc \<Rightarrow> (cthread \<times> ct_pc) list" where
  "runner_2 f t l = (case l of
       Run \<Rightarrow> [(run_func f t, Finish)]
     | Finish \<Rightarrow> [(finish t, Leave)]
     | Leave \<Rightarrow> [(leave t, Gone)]
     | _ \<Rightarrow> [])"

definition cthread_join :: "cthread \<Rightarrow> ct_pc \<Rightarrow> (cthread \<times> ct_pc) list" where
  "cthread_join t l = (case l of
       Run \<Rightarrow> if finished t then [(t\<lparr>stack_freed := True, joined := Some (returned_code t)\<rparr>, Gone)] else [(t, Run)]
     | _ \<Rightarrow> [])"

definition join_1 :: "int \<Rightarrow> (cthread, ct_pc) prog" where
  "join_1 r i t l = (if i = 0 then cthread_join t l else runner_1 r t l)"

definition join_2 :: "func_end \<Rightarrow> (cthread, ct_pc) prog" where
  "join_2 f i t l = (if i = 0 then cthread_join t l else runner_2 f t l)"

definition ct_start :: "(cthread, ct_pc) sys" where
  "ct_start = (cthread_create 0 (\<lambda>_. 1) [], \<lambda>_. Run)"

section \<open>Detaching without a lock\<close>

definition cthread_destroy_1 :: "cthread \<Rightarrow> cthread" where
  "cthread_destroy_1 t = t\<lparr>destroyed := destroyed t + 1, stack_freed := True\<rparr>"

definition bad_runner :: "func_end \<Rightarrow> cthread \<Rightarrow> ct_pc \<Rightarrow> (cthread \<times> ct_pc) list" where
  "bad_runner f t l = (case l of
       Run \<Rightarrow> [(run_func f t, Test)]
     | Test \<Rightarrow> [(t, if detached t then Destroy else Finish)]
     | Destroy \<Rightarrow> [(cthread_destroy_1 t, Finish)]
     | Finish \<Rightarrow> [(finish t, Leave)]
     | Leave \<Rightarrow> [(leave t, Gone)]
     | _ \<Rightarrow> [])"

definition bad_detach :: "cthread \<Rightarrow> ct_pc \<Rightarrow> (cthread \<times> ct_pc) list" where
  "bad_detach t l = (case l of
       Run \<Rightarrow> [(t, if finished t then Destroy else Detach)]
     | Destroy \<Rightarrow> [(cthread_destroy_1 t, Detach)]
     | Detach \<Rightarrow> [(t\<lparr>detached := True\<rparr>, Poll)]
     | Poll \<Rightarrow> [(t, if finished t then Gone else Poll)]
     | _ \<Rightarrow> [])"

definition detach_1 :: "func_end \<Rightarrow> (cthread, ct_pc) prog" where
  "detach_1 f i t l = (if i = 0 then bad_detach t l else bad_runner f t l)"

section \<open>Detaching with a lock\<close>

text \<open>
  The stacks that wait to be freed, newest first; the kernel sets the \<^verbatim>\<open>tid\<close> of a stack to 0
  when its thread has left it: \<open>cthread_destroy\<close> frees from the front those that nobody
  runs on and puts the stack of its own thread before the rest. It runs under \<^verbatim>\<open>last_stack_lock\<close>, and
  so is one step here. The start of a detached thread is given by its stack, the \<^verbatim>\<open>tid\<close> of every stack
  and the list of the stacks of earlier threads.
\<close>

fun free_left :: "(nat \<Rightarrow> int) \<Rightarrow> nat list \<Rightarrow> nat list \<times> nat list" where
  "free_left tid [] = ([], [])"
| "free_left tid (s # iter) = (if tid s \<noteq> 0 then ([], s # iter)
     else let (fs, rest) = free_left tid iter in (s # fs, rest))"

definition cthread_destroy_2 :: "cthread \<Rightarrow> cthread" where
  "cthread_destroy_2 t = (let (fs, iter) = free_left (tids t) (stack_list t) in
     t\<lparr>destroyed := destroyed t + 1, freed_stacks := freed_stacks t @ fs, stack_list := my_stack t # iter\<rparr>)"

definition detach_start :: "nat \<Rightarrow> (nat \<Rightarrow> int) \<Rightarrow> nat list \<Rightarrow> (cthread, ct_pc) sys" where
  "detach_start s tid_of L = (cthread_create s tid_of L, \<lambda>_. Run)"

definition spin_take :: "cthread \<Rightarrow> ct_pc \<Rightarrow> ct_pc \<Rightarrow> (cthread \<times> ct_pc) list" where
  "spin_take t here next = (if thread_lock t then [(t, here)] else [(t\<lparr>thread_lock := True\<rparr>, next)])"

definition spin_release :: "cthread \<Rightarrow> cthread" where
  "spin_release t = (if thread_lock t then t\<lparr>thread_lock := False\<rparr> else t)"

definition good_runner :: "func_end \<Rightarrow> cthread \<Rightarrow> ct_pc \<Rightarrow> (cthread \<times> ct_pc) list" where
  "good_runner f t l = (case l of
       Run \<Rightarrow> [(run_func f t, Lock)]
     | Lock \<Rightarrow> spin_take t Lock Test
     | Test \<Rightarrow> [(t, if detached t then Destroy else Finish)]
     | Destroy \<Rightarrow> [(cthread_destroy_2 t, Finish)]
     | Finish \<Rightarrow> [(finish t, Unlock)]
     | Unlock \<Rightarrow> [(spin_release t, Leave)]
     | Leave \<Rightarrow> [(leave t, Gone)]
     | _ \<Rightarrow> [])"

definition good_detach :: "cthread \<Rightarrow> ct_pc \<Rightarrow> (cthread \<times> ct_pc) list" where
  "good_detach t l = (case l of
       Run \<Rightarrow> spin_take t Run Test
     | Test \<Rightarrow> [(t, if finished t then Destroy else Detach)]
     | Destroy \<Rightarrow> [(cthread_destroy_2 t, Detach)]
     | Detach \<Rightarrow> [(t\<lparr>detached := True\<rparr>, Unlock)]
     | Unlock \<Rightarrow> [(spin_release t, Poll)]
     | Poll \<Rightarrow> [(t, if finished t then Gone else Poll)]
     | _ \<Rightarrow> [])"

definition detach_2 :: "func_end \<Rightarrow> (cthread, ct_pc) prog" where
  "detach_2 f i t l = (if i = 0 then good_detach t l else good_runner f t l)"

text \<open>
  The loop with which \<^verbatim>\<open>main\<close> waits for its ten detached threads: \<open>fin k i\<close> is what it reads in
  \<^verbatim>\<open>thread[i].is_finished\<close> at its \<open>k\<close>-th test; \<open>i = 0\<close> is followed by the \<open>++i\<close> of the loop.
\<close>

partial_function (option) wait_detached :: "(nat \<Rightarrow> nat \<Rightarrow> bool) \<Rightarrow> nat \<Rightarrow> nat \<Rightarrow> nat option" where
  [code]: "wait_detached fin k i = (if i < 10
     then (if \<not> fin k i then wait_detached fin (k + 1) (0 + 1) else wait_detached fin (k + 1) (i + 1))
     else Some k)"

section \<open>Join: the invariant\<close>

definition end_code :: "func_end \<Rightarrow> int" where
  "end_code f = (case f of Returns r \<Rightarrow> r | Exits r \<Rightarrow> r)"

lemma run_func_code: "run_func f t = t\<lparr>returned_code := end_code f\<rparr>"
  by (simp add: run_func_def end_code_def cthread_exit_def split: func_end.split)

lemma runner_1_is_2: "runner_1 r = runner_2 (Returns r)"
  by (intro ext) (simp add: runner_1_def runner_2_def run_plain_def run_func_def cong: ct_pc.case_cong)

definition join_inv :: "func_end \<Rightarrow> cthread \<Rightarrow> (nat \<Rightarrow> ct_pc) \<Rightarrow> bool" where
  "join_inv f t ls \<longleftrightarrow> (ls 1 \<noteq> Run \<longrightarrow> returned_code t = end_code f) \<and> (finished t \<longleftrightarrow> ls 1 \<in> {Leave, Gone}) \<and>
     ls 1 \<in> {Run, Finish, Leave, Gone} \<and> ls 0 \<in> {Run, Gone} \<and> (stack_freed t \<longleftrightarrow> ls 0 = Gone) \<and>
     (ls 0 = Gone \<longrightarrow> finished t \<and> joined t = Some (end_code f)) \<and> (ls 0 = Run \<longrightarrow> joined t = None) \<and> (exited t \<longleftrightarrow> ls 1 = Gone)"

interpretation j2: invariant "join_2 f" 2 ct_start "join_inv f" for f
proof
  show "join_inv f (fst ct_start) (snd ct_start)"
    by (simp add: join_inv_def ct_start_def cthread_create_def)
  fix t ls i t' l'
  assume inv: "join_inv f t ls" and i: "i < 2" and s: "(t', l') \<in> set (join_2 f i t (ls i))"
  from i consider "i = 0" | "i = 1" by linarith
  then show "join_inv f t' (ls(i := l'))"
    using s inv
    by cases (cases "ls i"; auto simp: join_inv_def join_2_def cthread_join_def runner_2_def run_func_code
        finish_def leave_def split: if_splits)+
qed

section \<open>Detach: the invariants\<close>

definition bad_inv :: "cthread \<Rightarrow> (nat \<Rightarrow> ct_pc) \<Rightarrow> bool" where
  "bad_inv t ls \<longleftrightarrow> ls 1 \<in> {Run, Test, Destroy, Finish, Leave, Gone} \<and> ls 0 \<in> {Run, Destroy, Detach, Poll, Gone} \<and>
     (finished t \<longleftrightarrow> ls 1 \<in> {Leave, Gone}) \<and> (detached t \<longleftrightarrow> ls 0 \<in> {Poll, Gone}) \<and>
     (ls 0 = Destroy \<longrightarrow> finished t \<and> destroyed t = 0) \<and> (ls 1 = Destroy \<longrightarrow> detached t \<and> destroyed t = 0) \<and>
     (ls 1 \<in> {Run, Test} \<longrightarrow> destroyed t = 0) \<and> (ls 0 = Run \<longrightarrow> destroyed t = 0) \<and>
     (ls 0 = Detach \<and> ls 1 \<notin> {Leave, Gone} \<longrightarrow> destroyed t = 0) \<and> destroyed t \<le> 1"

interpretation d1: invariant "detach_1 f" 2 ct_start bad_inv for f
proof
  show "bad_inv (fst ct_start) (snd ct_start)"
    by (simp add: bad_inv_def ct_start_def cthread_create_def)
  fix t ls i t' l'
  assume inv: "bad_inv t ls" and i: "i < 2" and s: "(t', l') \<in> set (detach_1 f i t (ls i))"
  from i consider "i = 0" | "i = 1" by linarith
  then show "bad_inv t' (ls(i := l'))"
    using s inv
    by cases (cases "ls i"; auto simp: bad_inv_def detach_1_def bad_detach_def bad_runner_def run_func_code
        cthread_destroy_1_def finish_def leave_def split: if_splits)+
qed

definition in_lock :: "ct_pc \<Rightarrow> bool" where
  "in_lock l \<longleftrightarrow> l \<in> {Test, Destroy, Finish, Detach, Unlock}"

definition good_inv :: "cthread \<Rightarrow> (nat \<Rightarrow> ct_pc) \<Rightarrow> bool" where
  "good_inv t ls \<longleftrightarrow> ls 1 \<in> {Run, Lock, Test, Destroy, Finish, Unlock, Leave, Gone} \<and>
     ls 0 \<in> {Run, Test, Destroy, Detach, Unlock, Poll, Gone} \<and>
     \<not> (in_lock (ls 0) \<and> in_lock (ls 1)) \<and> (thread_lock t \<longleftrightarrow> in_lock (ls 0) \<or> in_lock (ls 1)) \<and>
     (finished t \<longleftrightarrow> ls 1 \<in> {Unlock, Leave, Gone}) \<and> (detached t \<longleftrightarrow> ls 0 \<in> {Unlock, Poll, Gone}) \<and>
     (ls 0 = Destroy \<longrightarrow> finished t) \<and> (ls 1 = Destroy \<longrightarrow> detached t) \<and> (ls 0 = Gone \<longrightarrow> finished t) \<and>
     (ls 0 = Detach \<longrightarrow> destroyed t = of_bool (finished t)) \<and>
     (ls 1 = Finish \<longrightarrow> destroyed t = of_bool (detached t)) \<and>
     (ls 0 \<noteq> Detach \<and> ls 1 \<noteq> Finish \<longrightarrow> destroyed t = of_bool (finished t \<and> detached t))"

definition stacks_inv :: "nat \<Rightarrow> (nat \<Rightarrow> int) \<Rightarrow> nat list \<Rightarrow> cthread \<Rightarrow> bool" where
  "stacks_inv s tid_of L t \<longleftrightarrow> my_stack t = s \<and> (\<forall>x. x \<noteq> s \<longrightarrow> tids t x = tid_of x) \<and>
     (destroyed t = 0 \<longrightarrow> stack_list t = L \<and> freed_stacks t = []) \<and>
     (s \<notin> set L \<and> destroyed t = 1 \<longrightarrow> stack_list t = s # dropWhile (\<lambda>x. tid_of x = 0) L \<and>
        freed_stacks t = takeWhile (\<lambda>x. tid_of x = 0) L)"

lemma free_left_spec:
  "free_left tid L = (takeWhile (\<lambda>x. tid x = 0) L, dropWhile (\<lambda>x. tid x = 0) L)"
  by (induction L) (auto simp: Let_def)

lemma stacks_destroy:
  assumes "stacks_inv s tid_of L t" and "destroyed t = 0"
  shows "stacks_inv s tid_of L (cthread_destroy_2 t)"
proof -
  have "takeWhile (\<lambda>x. tids t x = 0) L = takeWhile (\<lambda>x. tid_of x = 0) L \<and>
      dropWhile (\<lambda>x. tids t x = 0) L = dropWhile (\<lambda>x. tid_of x = 0) L" if "s \<notin> set L"
  proof -
    have "tids t x = 0 \<longleftrightarrow> tid_of x = 0" if "x \<in> set L" for x
    proof -
      have "x \<noteq> s" using that \<open>s \<notin> set L\<close> by blast
      with assms(1) show ?thesis by (simp add: stacks_inv_def)
    qed
    then show ?thesis by (intro conjI takeWhile_cong dropWhile_cong refl)
  qed
  with assms show ?thesis
    by (auto simp: stacks_inv_def cthread_destroy_2_def free_left_spec)
qed

lemma stacks_frame:
  assumes "stacks_inv s tid_of L t"
  shows "stacks_inv s tid_of L (t\<lparr>returned_code := r\<rparr>)" "stacks_inv s tid_of L (t\<lparr>finished := b\<rparr>)"
    "stacks_inv s tid_of L (t\<lparr>detached := b\<rparr>)" "stacks_inv s tid_of L (t\<lparr>thread_lock := b\<rparr>)"
    "stacks_inv s tid_of L (leave t)"
  using assms by (auto simp: stacks_inv_def leave_def)

lemma destroyed_destroy [simp]:
  "destroyed (cthread_destroy_2 t) = destroyed t + 1" "finished (cthread_destroy_2 t) = finished t"
  "detached (cthread_destroy_2 t) = detached t" "thread_lock (cthread_destroy_2 t) = thread_lock t"
  by (simp_all add: cthread_destroy_2_def split: prod.splits)

lemma stacks_effect:
  assumes "stacks_inv s tid_of L t" and "l = Destroy \<longrightarrow> destroyed t = 0"
    and "t' \<in> {t, t\<lparr>returned_code := r\<rparr>, t\<lparr>finished := True\<rparr>, t\<lparr>detached := True\<rparr>,
      t\<lparr>thread_lock := True\<rparr>, t\<lparr>thread_lock := False\<rparr>, leave t} \<or> l = Destroy \<and> t' = cthread_destroy_2 t"
  shows "stacks_inv s tid_of L t'"
  using assms(3) stacks_frame[OF assms(1)] stacks_destroy[OF assms(1)] assms(1,2)
  by (elim disjE conjE insertE emptyE) simp_all

lemma detach_2_effect:
  assumes "(t', l') \<in> set (detach_2 f i t l)"
  shows "t' \<in> {t, t\<lparr>returned_code := end_code f\<rparr>, t\<lparr>finished := True\<rparr>, t\<lparr>detached := True\<rparr>,
    t\<lparr>thread_lock := True\<rparr>, t\<lparr>thread_lock := False\<rparr>, leave t} \<or> l = Destroy \<and> t' = cthread_destroy_2 t"
  using assms
  by (cases l; cases "i = 0") (simp_all add: detach_2_def good_detach_def good_runner_def run_func_code finish_def
      spin_take_def spin_release_def split: if_splits)

interpretation d2: invariant "detach_2 f" 2 "detach_start s tid_of L" "\<lambda>t ls. good_inv t ls \<and> stacks_inv s tid_of L t"
  for f s tid_of L
proof
  show "good_inv (fst (detach_start s tid_of L)) (snd (detach_start s tid_of L)) \<and>
      stacks_inv s tid_of L (fst (detach_start s tid_of L))"
    by (simp add: good_inv_def stacks_inv_def detach_start_def cthread_create_def in_lock_def)
  fix t ls i t' l'
  assume inv: "good_inv t ls \<and> stacks_inv s tid_of L t" and i: "i < 2"
    and s: "(t', l') \<in> set (detach_2 f i t (ls i))"
  from i have "i = 0 \<or> i = 1" by linarith
  then consider "i = 0" | "i = 1" by blast
  then have "good_inv t' (ls(i := l'))"
    using s conjunct1[OF inv]
    by cases (cases "ls i"; auto simp: good_inv_def detach_2_def good_detach_def good_runner_def run_func_code
        finish_def leave_def spin_take_def spin_release_def in_lock_def split: if_splits)+
  moreover have "ls i = Destroy \<longrightarrow> destroyed t = 0"
    using \<open>i = 0 \<or> i = 1\<close> conjunct1[OF inv]
    by (elim disjE; cases "ls 0"; cases "ls 1") (simp_all add: good_inv_def in_lock_def)
  then have "stacks_inv s tid_of L t'"
    using stacks_effect[OF conjunct2[OF inv] _ detach_2_effect[OF s]] by blast
  ultimately show "good_inv t' (ls(i := l')) \<and> stacks_inv s tid_of L t'" ..
qed

section \<open>Runs\<close>

lemmas detach_defs = detach_1_def detach_2_def bad_detach_def bad_runner_def good_detach_def good_runner_def
  ct_start_def detach_start_def cthread_create_def finish_def leave_def spin_take_def spin_release_def cthread_destroy_1_def
  cthread_destroy_2_def run_func_code

text \<open>The thread tests \<open>detached\<close> before, and finishes after the creator's test.\<close>

lemma detach_1_leaks:
  "\<exists>t ls. reach (detach_1 f) 2 ct_start (t, ls) \<and> ls 0 = Gone \<and> ls 1 = Gone \<and> destroyed t = 0 \<and> \<not> stack_freed t"
proof -
  have "reach (detach_1 f) 2 ct_start
    (\<lparr>returned_code = end_code f, finished = True, detached = True, thread_lock = False, destroyed = 0,
       stack_freed = False, exited = True, joined = None, my_stack = 0, tids = (\<lambda>_. 1)(0 := 0), stack_list = [], freed_stacks = []\<rparr>, (\<lambda>_. Run)(0 := Gone, 1 := Gone))"
    by (rule exec_reach[where sch = "[(1, 0), (1, 0), (0, 0), (1, 0), (0, 0), (1, 0), (0, 0)]"])
      (auto simp: detach_defs fun_eq_iff)
  then show ?thesis by force
qed

text \<open>The joining thread frees the stack on which the other one still runs.\<close>

lemma join_2_races:
  "\<exists>t ls. reach (join_2 f) 2 ct_start (t, ls) \<and> stack_freed t \<and> \<not> exited t"
proof -
  have "reach (join_2 f) 2 ct_start
    (\<lparr>returned_code = end_code f, finished = True, detached = False, thread_lock = False, destroyed = 0,
       stack_freed = True, exited = False, joined = Some (end_code f),
       my_stack = 0, tids = \<lambda>_. 1, stack_list = [], freed_stacks = []\<rparr>, (\<lambda>_. Run)(0 := Gone, 1 := Leave))"
    by (rule exec_reach[where sch = "[(1, 0), (1, 0), (0, 0)]"])
      (auto simp: detach_defs join_2_def cthread_join_def runner_2_def fun_eq_iff)
  then show ?thesis by force
qed

lemma wait_detached_skips:
  "wait_detached (\<lambda>k i. i \<noteq> 0) 0 0 = Some 10"
proof -
  let ?fin = "\<lambda>(k :: nat) (i :: nat). i \<noteq> 0"
  have run: "i < 11 \<Longrightarrow> 0 < i \<Longrightarrow> wait_detached ?fin k i = Some (k + (10 - i))" for k i
  proof (induction "10 - i" arbitrary: i k)
    case 0
    then show ?case by (subst wait_detached.simps) simp
  next
    case (Suc d)
    then show ?case by (subst wait_detached.simps) (auto simp: less_Suc_eq_le)
  qed
  show ?thesis using run[of 1 1] by (subst wait_detached.simps) simp
qed

section \<open>Properties\<close>

text \<open>Joining gives the code that the function of the thread returned or passed to \<open>cthread_exit\<close>,
  in every interleaving; but some interleaving frees the stack while the thread still runs on it.\<close>

lemma cthread_join_code:
  assumes "reach (join_2 f) 2 ct_start (t, ls)"
  shows "joined t \<in> {None, Some (end_code f)} \<and> (joined t = None \<or> finished t) \<and>
    (\<exists>t' ls'. reach (join_2 f) 2 ct_start (t', ls') \<and> stack_freed t' \<and> \<not> exited t')"
proof -
  have "join_inv f t ls" using j2.reach_inv[OF assms] .
  then show ?thesis using join_2_races[of f] by (auto simp: join_inv_def)
qed

text \<open>C25: with the lock every interleaving destroys the detached thread at most once, and exactly once
  when its creator has seen it finish. Then its stack heads the list, and freed are the leading
  stacks of earlier threads that nobody runs on; its own stack is not freed. Without the lock
  the thread is never destroyed twice, but some interleaving ends without destroying it.\<close>

theorem cthread_detach_once:
  assumes "reach (detach_2 f) 2 (detach_start s tid_of L) (t, ls)" and "s \<notin> set L"
    and "reach (detach_1 f) 2 ct_start (t1, ls1)"
  shows "destroyed t \<le> 1 \<and> s \<notin> set (freed_stacks t) \<and>
    (ls 0 \<noteq> Gone \<or> destroyed t = 1 \<and> stack_list t = s # dropWhile (\<lambda>x. tid_of x = 0) L \<and>
       freed_stacks t = takeWhile (\<lambda>x. tid_of x = 0) L) \<and>
    destroyed t1 \<le> 1 \<and>
    (\<exists>t2 ls2. reach (detach_1 f) 2 ct_start (t2, ls2) \<and> ls2 0 = Gone \<and> ls2 1 = Gone \<and> destroyed t2 = 0)"
proof -
  have good: "good_inv t ls" and stacks: "stacks_inv s tid_of L t" and bad: "bad_inv t1 ls1"
    using d2.reach_inv[OF assms(1)] d1.reach_inv[OF assms(3)] by simp_all
  have "destroyed t \<le> 1"
    using good by (cases "ls 0 = Detach"; cases "ls 1 = Finish") (simp_all add: good_inv_def)
  moreover from this have "s \<notin> set (freed_stacks t)"
    using stacks assms(2) by (cases "destroyed t = 0") (auto simp: stacks_inv_def dest: set_takeWhileD)
  moreover have "destroyed t = 1" if "ls 0 = Gone"
    using good that by (auto simp: good_inv_def)
  moreover have "\<exists>t2 ls2. reach (detach_1 f) 2 ct_start (t2, ls2) \<and> ls2 0 = Gone \<and> ls2 1 = Gone \<and> destroyed t2 = 0"
    using detach_1_leaks[of f] by blast
  ultimately show ?thesis using stacks assms(2) bad by (auto simp: stacks_inv_def bad_inv_def)
qed

theorem cthread_detach_once_witness:
  "\<exists>t ls. reach (detach_2 (Returns 0)) 2 (detach_start 9 ((\<lambda>_. 1)(4 := 0)) [4, 6]) (t, ls) \<and> ls 0 = Gone \<and>
     destroyed t = 1 \<and> stack_list t = [9, 6] \<and> freed_stacks t = [4]"
proof -
  let ?S = "detach_start 9 ((\<lambda>_. 1)(4 := 0)) [4, 6]"
  let ?t = "\<lparr>returned_code = 0, finished = True, detached = True, thread_lock = False, destroyed = 1,
       stack_freed = False, exited = True, joined = None,
       my_stack = 9, tids = (\<lambda>_. 1)(4 := 0, 9 := 0), stack_list = [9, 6], freed_stacks = [4]\<rparr>"
  have r: "reach (detach_2 (Returns 0)) 2 ?S (?t, (\<lambda>_. Run)(0 := Gone, 1 := Gone))"
    by (rule exec_reach[where sch = "[(1, 0), (0, 0), (1, 0), (0, 0), (0, 0), (0, 0), (1, 0), (1, 0), (1, 0), (1, 0), (1, 0), (1, 0), (0, 0)]"])
      (auto simp: detach_defs end_code_def fun_eq_iff)
  have gone: "((\<lambda>_. Run)(0 := Gone, 1 := Gone)) (0 :: nat) = Gone" by simp
  have "reach (detach_1 (Returns 0)) 2 ct_start (cthread_create 0 (\<lambda>_. 1) [], \<lambda>_. Run)"
    using reach.start[of "detach_1 (Returns 0)" 2 ct_start] by (simp add: ct_start_def)
  then have "destroyed ?t = 1 \<and> stack_list ?t = 9 # dropWhile (\<lambda>x. ((\<lambda>_. 1)(4 := 0)) x = (0 :: int)) [4, 6] \<and>
      freed_stacks ?t = takeWhile (\<lambda>x. ((\<lambda>_. 1)(4 := 0)) x = (0 :: int)) [4, 6]"
    using cthread_detach_once[OF r] gone by force
  with r gone show ?thesis
    by (intro exI[of _ ?t] exI[of _ "(\<lambda>_. Run)(0 := Gone, 1 := Gone)"]) simp
qed

end
