(* ===== verification/Runs.thy ===== *)
theory Runs
  imports Prelude
begin

text \<open>
  Two contracts that the coroutine programs share: a machine that has something left to do and does
  a bit of it in every step, and a stack of return points.
\<close>

locale countdown =
  fixes step :: "'s \<Rightarrow> 's" and running :: "'s \<Rightarrow> bool" and left :: "'s \<Rightarrow> nat" and ok :: "'s \<Rightarrow> bool"
  assumes ok_step: "ok s \<Longrightarrow> running s \<Longrightarrow> ok (step s)"
    and left_step: "ok s \<Longrightarrow> running s \<Longrightarrow> Suc (left (step s)) \<le> left s"
begin

lemma ends: "ok s \<Longrightarrow> \<exists>k \<le> left s. \<not> running ((step ^^ k) s) \<and> ok ((step ^^ k) s)"
proof (induction "left s" arbitrary: s rule: less_induct)
  case less
  show ?case
  proof (cases "running s")
    case False
    with less.prems show ?thesis by (intro exI[of _ 0]) simp
  next
    case True
    have "left (step s) < left s" using left_step[OF less.prems True] by simp
    from less.hyps[OF this ok_step[OF less.prems True]] obtain k where
      "k \<le> left (step s)" "\<not> running ((step ^^ k) (step s))" "ok ((step ^^ k) (step s))" by blast
    with left_step[OF less.prems True] show ?thesis
      by (intro exI[of _ "Suc k"]) (simp add: funpow_swap1)
  qed
qed

end

locale call_stack =
  fixes push :: "'p \<Rightarrow> 'c \<Rightarrow> 'c run" and pop :: "'c \<Rightarrow> ('p \<times> 'c) run"
    and points :: "'c \<Rightarrow> 'p list" and ok :: "'c \<Rightarrow> bool"
  assumes push_spec: "ok c \<Longrightarrow> wp (push p c) (\<lambda>c'. ok c' \<and> points c' = points c @ [p])"
    and pop_spec: "ok c \<Longrightarrow> points c = ps @ [p] \<Longrightarrow> wp (pop c) (\<lambda>(p', c'). p' = p \<and> ok c' \<and> points c' = ps)"
begin

fun push_all :: "'p list \<Rightarrow> 'c \<Rightarrow> 'c run" where
  "push_all [] c = ret c"
| "push_all (p # ps) c = bnd (push p c) (push_all ps)"

fun pop_all :: "nat \<Rightarrow> 'c \<Rightarrow> ('p list \<times> 'c) run" where
  "pop_all 0 c = ret ([], c)"
| "pop_all (Suc n) c = bnd (pop c) (\<lambda>(p, c). bnd (pop_all n c) (\<lambda>(ps, c). ret (p # ps, c)))"

lemma push_all_spec: "ok c \<Longrightarrow> wp (push_all ps c) (\<lambda>c'. ok c' \<and> points c' = points c @ ps)"
proof (induction ps arbitrary: c)
  case (Cons p ps)
  show ?case
    by (simp, rule wp_mono[OF push_spec[OF Cons.prems]], rule wp_mono[OF Cons.IH]) auto
qed simp

lemma pop_all_spec:
  "ok c \<Longrightarrow> points c = qs @ ps \<Longrightarrow> wp (pop_all (length ps) c) (\<lambda>(rs, c'). rs = rev ps \<and> ok c' \<and> points c' = qs)"
proof (induction ps arbitrary: c rule: rev_induct)
  case (snoc p ps)
  then have "points c = (qs @ ps) @ [p]" by simp
  from pop_spec[OF snoc.prems(1) this] obtain c1 where
    c1: "pop c = ret (p, c1)" "ok c1" "points c1 = qs @ ps" by (auto elim!: wpE)
  from snoc.IH[OF c1(2,3)] obtain c2 where "pop_all (length ps) c1 = ret (rev ps, c2)" "ok c2" "points c2 = qs"
    by (auto elim!: wpE)
  with c1(1) show ?case by simp
qed simp

lemma calls_nest:
  "ok c \<Longrightarrow> wp (push_all ps c) (\<lambda>c'. wp (pop_all (length ps) c') (\<lambda>(rs, c''). rs = rev ps \<and> ok c'' \<and> points c'' = points c))"
  by (rule wp_mono[OF push_all_spec]) (auto intro: pop_all_spec)

end

end
