(* ===== verification/Jmp_Coros.thy ===== *)
theory Jmp_Coros
  imports Runs C_Text
begin

text \<open>
  The macros of \<^verbatim>\<open>1/coro_jmp.h\<close> and the program \<^verbatim>\<open>1/example_jmp.c\<close>. A \<^verbatim>\<open>jmp_buf\<close> holds the point of
  the program at which a jump continues; all coroutines run on one C stack, so nothing but the
  coroutine structure survives a jump. \<open>coro_call\<close> remembers where the call returns to in a
  growing array, \<open>coro_return\<close> jumps there. The example is a step function on its program points.
\<close>

section \<open>The macros\<close>

definition coro_count :: nat where
  "coro_count = 3"

record 'p jcoro =
  exec_point :: "'p option"
  ret_points :: "'p option list"
  ret_count :: nat
  ret_capacity :: nat
  j_finished :: bool
  deep :: int
  local_data :: string
  arg :: int

record 'p jmp =
  coros :: "'p jcoro list"
  curr_coro_i :: nat
  stdout :: "string list"

definition coro_this :: "'p jmp \<Rightarrow> 'p jcoro run" where
  "coro_this s = (if curr_coro_i s < length (coros s) then ret (coros s ! curr_coro_i s) else fault Out_Of_Bounds)"

definition set_this :: "'p jcoro \<Rightarrow> 'p jmp \<Rightarrow> 'p jmp" where
  "set_this c s = s\<lparr>coros := (coros s)[curr_coro_i s := c]\<rparr>"

definition coro_finish :: "'p jmp \<Rightarrow> 'p jmp run" where
  "coro_finish s = bnd (coro_this s) (\<lambda>c. ret (set_this (c\<lparr>j_finished := True\<rparr>) s))"

text \<open>\<open>coro_yield here s\<close>: the point to continue at, in the next coroutine of the ring.\<close>

definition coro_yield :: "'p \<Rightarrow> 'p jmp \<Rightarrow> ('p \<times> 'p jmp) run" where
  "coro_yield here s =
     bnd (coro_this s) (\<lambda>c.
     let s = set_this (c\<lparr>exec_point := Some here\<rparr>) s;
         s = s\<lparr>curr_coro_i := (curr_coro_i s + 1) mod coro_count\<rparr> in
     bnd (coro_this s) (\<lambda>c. case exec_point c of None \<Rightarrow> fault Dangling | Some p \<Rightarrow> ret (p, s)))"

definition coro_init :: "'p \<Rightarrow> 'p jcoro \<Rightarrow> 'p jcoro" where
  "coro_init here c = c\<lparr>j_finished := False, ret_count := 0, ret_capacity := 0, ret_points := [], exec_point := Some here\<rparr>"

definition push_point :: "'p \<Rightarrow> 'p jcoro \<Rightarrow> 'p jcoro run" where
  "push_point p c =
     (let c = (if ret_count c + 1 > ret_capacity c then
          let new_cap = (ret_capacity c + 1) * 2 in
          c\<lparr>ret_points := ret_points c @ replicate (new_cap - length (ret_points c)) None, ret_capacity := new_cap\<rparr>
        else c) in
      if ret_count c < length (ret_points c)
      then ret (c\<lparr>ret_points := (ret_points c)[ret_count c := Some p], ret_count := ret_count c + 1\<rparr>)
      else fault Out_Of_Bounds)"

definition pop_point :: "'p jcoro \<Rightarrow> ('p \<times> 'p jcoro) run" where
  "pop_point c =
     (if ret_count c = 0 \<or> ret_count c > length (ret_points c) then fault Out_Of_Bounds
      else case ret_points c ! (ret_count c - 1) of None \<Rightarrow> fault Dangling
        | Some p \<Rightarrow> ret (p, c\<lparr>ret_count := ret_count c - 1\<rparr>))"

definition coro_call :: "'p \<Rightarrow> 'p jmp \<Rightarrow> 'p jmp run" where
  "coro_call after s = bnd (coro_this s) (\<lambda>c. bnd (push_point after c) (\<lambda>c. ret (set_this c s)))"

definition coro_return :: "'p jmp \<Rightarrow> ('p \<times> 'p jmp) run" where
  "coro_return s = bnd (coro_this s) (\<lambda>c. bnd (pop_point c) (\<lambda>(p, c). ret (p, set_this c s)))"

text \<open>\<^verbatim>\<open>coro_wait_all\<close>: \<open>None\<close> when all have finished and the loop ends, else the point to continue at.\<close>

definition coro_wait_all :: "'p \<Rightarrow> 'p jmp \<Rightarrow> ('p option \<times> 'p jmp) run" where
  "coro_wait_all here s = (if list_all j_finished (take coro_count (coros s)) then ret (None, s)
     else bnd (coro_yield here s) (\<lambda>(p, s). ret (Some p, s)))"

section \<open>The stack of return points\<close>

definition jc_ok :: "'p jcoro \<Rightarrow> bool" where
  "jc_ok c \<longleftrightarrow> length (ret_points c) = ret_capacity c \<and> ret_count c \<le> ret_capacity c \<and>
     None \<notin> set (take (ret_count c) (ret_points c))"

definition jc_points :: "'p jcoro \<Rightarrow> 'p list" where
  "jc_points c = map the (take (ret_count c) (ret_points c))"

interpretation jc: call_stack push_point pop_point jc_points jc_ok
proof
  fix c :: "'a jcoro" and p :: 'a and ps
  assume ok: "jc_ok c"
  show "wp (push_point p c) (\<lambda>c'. jc_ok c' \<and> jc_points c' = jc_points c @ [p])"
  proof (cases "ret_count c = ret_capacity c")
    case True
    with ok show ?thesis
      by (auto simp: push_point_def jc_ok_def jc_points_def take_Suc_conv_app_nth nth_append list_update_append)
  next
    case False
    with ok show ?thesis
      by (auto simp: push_point_def jc_ok_def jc_points_def take_Suc_conv_app_nth)
  qed
  assume ps: "jc_points c = ps @ [p]"
  then have n: "ret_count c = Suc (length ps)" "ret_count c \<le> length (ret_points c)"
    using ok by (auto simp: jc_ok_def jc_points_def dest!: arg_cong[of _ _ length])
  let ?x = "ret_points c ! length ps"
  have tk: "take (ret_count c) (ret_points c) = take (length ps) (ret_points c) @ [?x]"
    using n by (simp add: take_Suc_conv_app_nth)
  then have "?x = Some p" "map the (take (length ps) (ret_points c)) = ps"
    using ps ok by (auto simp: jc_points_def jc_ok_def)
  with n ok tk show "wp (pop_point c) (\<lambda>(p', c'). p' = p \<and> jc_ok c' \<and> jc_points c' = ps)"
    by (auto simp: pop_point_def jc_ok_def jc_points_def)
qed

section \<open>The example\<close>

datatype point =
    Init nat
  | My_Coroutine
  | My_1
  | My_2
  | Other_Function int
  | After_Yield
  | After_Inner
  | After_Other
  | Wait_All
  | Main_After

definition shout :: "string \<Rightarrow> point jmp \<Rightarrow> point jmp" where
  "shout w s = s\<lparr>stdout := stdout s @ [''Coro '' @ show_int (int (curr_coro_i s)) @ '': '' @ w]\<rparr>"

text \<open>
  The code from a program point to the next jump, call or yield. \<open>None\<close>: \<^verbatim>\<open>main\<close> has returned.
  \<open>Init i\<close> is the \<^verbatim>\<open>setjmp\<close> in \<^verbatim>\<open>coro_init\<close>, to which the first jump to a coroutine leads.
\<close>

fun jmp_step :: "point \<Rightarrow> point jmp \<Rightarrow> (point option \<times> point jmp) run" where
  "jmp_step (Init i) s = bnd (coro_call Main_After s) (\<lambda>s. ret (Some My_Coroutine, s))"
| "jmp_step My_Coroutine s = bnd (coro_this s) (\<lambda>c.
     let s = shout ''before re-schedule''
       (set_this (c\<lparr>local_data := ''Local data for coro id'' @ show_int (int (curr_coro_i s))\<rparr>) s) in
     bnd (coro_yield My_1 s) (\<lambda>(p, s). ret (Some p, s)))"
| "jmp_step My_1 s = bnd (coro_yield My_2 (shout ''after first re-schedule'' s)) (\<lambda>(p, s). ret (Some p, s))"
| "jmp_step My_2 s = bnd (coro_call After_Other (shout ''after second re-schedule'' s)) (\<lambda>s.
     ret (Some (Other_Function (int (curr_coro_i s) * 10)), s))"
| "jmp_step (Other_Function a) s = bnd (coro_this s) (\<lambda>c.
     let s = shout (''entered function, deep = '' @ show_int (deep c) @ '', arg = '' @ show_int a) s;
         s = set_this (c\<lparr>arg := a\<rparr>) s in
     bnd (coro_yield After_Yield s) (\<lambda>(p, s). ret (Some p, s)))"
| "jmp_step After_Yield s = bnd (coro_this s) (\<lambda>c.
     let s = shout (''after yield coro_this()->arg = '' @ show_int (arg c)) s;
         s = set_this (c\<lparr>deep := deep c + 1\<rparr>) s in
     if deep c + 1 < 2 then bnd (coro_call After_Inner s) (\<lambda>s. ret (Some (Other_Function (int (curr_coro_i s) * 10)), s))
     else bnd (coro_return s) (\<lambda>(p, s). ret (Some p, s)))"
| "jmp_step After_Inner s = bnd (coro_return s) (\<lambda>(p, s). ret (Some p, s))"
| "jmp_step After_Other s = bnd (coro_this s) (\<lambda>c.
     bnd (coro_finish (shout (''this is local data: '' @ local_data c) s)) (\<lambda>s. ret (Some Wait_All, s)))"
| "jmp_step Wait_All s = bnd (coro_wait_all Wait_All s) (\<lambda>(p, s). case p of
       None \<Rightarrow> ret (Some Main_After, s) | Some p \<Rightarrow> ret (Some p, s))"
| "jmp_step Main_After s = ret (None, s\<lparr>stdout := stdout s @ [''Finished'']\<rparr>)"

partial_function (option) jmp_run :: "point \<Rightarrow> point jmp \<Rightarrow> point jmp run" where
  [code]: "jmp_run p s = bnd (jmp_step p s) (\<lambda>(q, s). case q of None \<Rightarrow> ret s | Some q \<Rightarrow> jmp_run q s)"

definition jmp_main :: "point jmp run" where
  "jmp_main = (let blank = \<lparr>exec_point = None, ret_points = [], ret_count = 0, ret_capacity = 0, j_finished = False,
        deep = 0, local_data = [], arg = 0\<rparr> in
     jmp_run (Init 0) \<lparr>coros = map (\<lambda>i. coro_init (Init i) blank) [0..<coro_count], curr_coro_i = 0, stdout = []\<rparr>)"

section \<open>Properties\<close>

text \<open>C27: calls through \<open>coro_call\<close> nest: from a coroutine whose array of return points is in order, any
  number of calls followed by as many \<open>coro_return\<close>s stay inside the array, however often it grows,
  come back to the points of the calls in reverse order, and leave the earlier return points.\<close>

theorem jmp_calls_nest:
  assumes "jc_ok c"
  shows "\<exists>c' c''. jc.push_all ps c = ret c' \<and> ret_count c' = ret_count c + length ps \<and>
    jc.pop_all (length ps) c' = ret (rev ps, c'') \<and> jc_points c'' = jc_points c \<and> jc_ok c''"
proof -
  obtain c' where c': "jc.push_all ps c = ret c'" "jc_ok c'" "jc_points c' = jc_points c @ ps"
    using jc.push_all_spec[OF assms, of ps] by (auto elim: wpE)
  obtain c'' where c'': "jc.pop_all (length ps) c' = ret (rev ps, c'')" "jc_ok c''" "jc_points c'' = jc_points c"
    using jc.pop_all_spec[OF c'(2,3)] by (auto elim!: wpE)
  have len: "length (jc_points d) = ret_count d" if "jc_ok d" for d :: "'a jcoro"
    using that by (simp add: jc_ok_def jc_points_def)
  have "ret_count c' = ret_count c + length ps"
    using len[OF c'(2)] len[OF assms] c'(3) by simp
  with c' c'' show ?thesis by blast
qed

definition fresh_jcoro :: "nat jcoro" where
  "fresh_jcoro = coro_init 0 \<lparr>exec_point = None, ret_points = [], ret_count = 0, ret_capacity = 0,
     j_finished = False, deep = 0, local_data = [], arg = 0\<rparr>"

theorem jmp_calls_nest_witness:
  "\<exists>c' c''. jc.push_all [7, 8, 9] fresh_jcoro = ret c' \<and> ret_count c' = 3 \<and>
     jc.pop_all 3 c' = ret ([9, 8, 7], c'')"
proof -
  have "jc_ok fresh_jcoro" by (simp add: fresh_jcoro_def coro_init_def jc_ok_def)
  from jmp_calls_nest[OF this, of "[7, 8, 9]"] obtain c' c'' where
    push: "jc.push_all [7, 8, 9] fresh_jcoro = ret c'" and
    count: "ret_count c' = ret_count fresh_jcoro + length [7, 8, 9 :: nat]" and
    pop: "jc.pop_all (length [7, 8, 9 :: nat]) c' = ret (rev [7, 8, 9], c'')"
    by blast
  have "length [7, 8, 9 :: nat] = 3" "rev [7, 8, 9 :: nat] = [9, 8, 7]" by simp_all
  moreover from count have "ret_count c' = 3" by (simp add: fresh_jcoro_def coro_init_def)
  ultimately show ?thesis using push pop by metis
qed

text \<open>The example: its output, and the coroutines afterwards.\<close>

lemma upt_three: "[0..<3] = [0, 1, 2 :: nat]"
  by (simp add: upt_rec)

lemma replicate_two_four: "replicate 2 x = [x, x]" "replicate 4 x = [x, x, x, x]"
  by (simp_all add: numeral_eq_Suc)

lemma digit_two: "digit_char (Suc (Suc 0)) = CHR ''2''"
  using digit_chars(3) by (simp add: numeral_2_eq_2)

lemmas jmp_eval = jmp_main_def coro_init_def coro_count_def upt_three jmp_run.simps coro_call_def coro_this_def
  push_point_def set_this_def coro_yield_def shout_def coro_return_def pop_point_def coro_wait_all_def
  coro_finish_def show_int_def show_nat.simps Let_def replicate_two_four digit_two

text \<open>The example program ends: the three coroutines take turns at every \<open>coro_yield\<close>, each calls
  \<^verbatim>\<open>other_function\<close> twice, one inside the other, and each has finished with only the return point
  in \<^verbatim>\<open>main\<close> left.\<close>

lemma jmp_example_ends:
  "\<exists>s. jmp_main = ret s \<and> map ret_count (coros s) = [1, 1, 1] \<and> map j_finished (coros s) = [True, True, True] \<and>
     map deep (coros s) = [2, 2, 2] \<and> map arg (coros s) = [0, 10, 20] \<and>
     stdout s =
      [''Coro 0: before re-schedule'', ''Coro 1: before re-schedule'', ''Coro 2: before re-schedule'',
       ''Coro 0: after first re-schedule'', ''Coro 1: after first re-schedule'', ''Coro 2: after first re-schedule'',
       ''Coro 0: after second re-schedule'', ''Coro 0: entered function, deep = 0, arg = 0'',
       ''Coro 1: after second re-schedule'', ''Coro 1: entered function, deep = 0, arg = 10'',
       ''Coro 2: after second re-schedule'', ''Coro 2: entered function, deep = 0, arg = 20'',
       ''Coro 0: after yield coro_this()->arg = 0'', ''Coro 0: entered function, deep = 1, arg = 0'',
       ''Coro 1: after yield coro_this()->arg = 10'', ''Coro 1: entered function, deep = 1, arg = 10'',
       ''Coro 2: after yield coro_this()->arg = 20'', ''Coro 2: entered function, deep = 1, arg = 20'',
       ''Coro 0: after yield coro_this()->arg = 0'', ''Coro 0: this is local data: Local data for coro id0'',
       ''Coro 1: after yield coro_this()->arg = 10'', ''Coro 1: this is local data: Local data for coro id1'',
       ''Coro 2: after yield coro_this()->arg = 20'', ''Coro 2: this is local data: Local data for coro id2'',
       ''Finished'']"
  by (simp add: jmp_eval cong: bnd_weak_cong)

end
