(* ===== verification/Condvar.thy ===== *)
theory Condvar
  imports Interleaving
begin

text \<open>
  The condition variables of \<^verbatim>\<open>lecture_examples/6_threads/13_simple_condvar.c\<close> and \<^verbatim>\<open>14_condvar.c\<close>,
  made of a mutex and a flag. Threads 0 to \<open>n - 1\<close> wait for events in an endless loop (10 of them in
  the code), thread \<open>n\<close> is \<^verbatim>\<open>main\<close>, which signals once for each of the \<open>k\<close> characters it can still
  read; it holds the mutex except while it signals. A thread that wants a mutex another one holds is
  blocked. What the programs print is kept in \<open>lines\<close>.
\<close>

section \<open>The code\<close>

datatype cv_line =
    Signaled
  | Is_Locked
  | Waiters int
  | No_Waiters
  | Processed nat

record condvar =
  event_lock :: bool
  is_event_set :: bool
  wait_count :: int
  created :: nat
  lines :: "cv_line list"

datatype cv_pc =
    Create
  | Spawn
  | Read nat
  | Count nat
  | Print nat
  | Set_Event nat
  | Give nat
  | Spin nat
  | Take nat
  | Clear nat
  | Join
  | Begin
  | Enter
  | Lock
  | Test
  | Consume
  | Leave
  | Unlock_Got
  | Unlock_Retry
  | Got

definition say :: "cv_line \<Rightarrow> condvar \<Rightarrow> condvar" where
  "say x g = g\<lparr>lines := lines g @ [x]\<rparr>"

definition mutex_lock :: "condvar \<Rightarrow> cv_pc \<Rightarrow> (condvar \<times> cv_pc) list" where
  "mutex_lock g next = (if event_lock g then [] else [(g\<lparr>event_lock := True\<rparr>, next)])"

definition mutex_unlock :: "condvar \<Rightarrow> condvar" where
  "mutex_unlock g = g\<lparr>event_lock := False\<rparr>"

text \<open>\<^verbatim>\<open>pthread_mutex_init\<close> leaves the static mutex free, as it is at the start.\<close>

definition condvar_create :: "condvar \<Rightarrow> cv_pc \<Rightarrow> (condvar \<times> cv_pc) list" where
  "condvar_create g next = map (\<lambda>(g, l). (g\<lparr>is_event_set := False, wait_count := 0\<rparr>, l)) (mutex_lock g next)"

text \<open>The end of \<^verbatim>\<open>condvar_signal\<close>, the same in both programs: take the mutex back, reset the flag.\<close>

definition signal_end :: "condvar \<Rightarrow> cv_pc \<Rightarrow> (condvar \<times> cv_pc) list" where
  "signal_end g l = (case l of
       Take k \<Rightarrow> mutex_lock g (Clear k)
     | Clear k \<Rightarrow> [(say Is_Locked (g\<lparr>is_event_set := False\<rparr>), Read k)]
     | _ \<Rightarrow> [])"

definition condvar_signal_1 :: "condvar \<Rightarrow> cv_pc \<Rightarrow> (condvar \<times> cv_pc) list" where
  "condvar_signal_1 g l = (case l of
       Count k \<Rightarrow> [(say Signaled g, Set_Event k)]
     | Set_Event k \<Rightarrow> [(g\<lparr>is_event_set := True\<rparr>, Give k)]
     | Give k \<Rightarrow> [(mutex_unlock g, Take k)]
     | _ \<Rightarrow> signal_end g l)"

definition condvar_signal_2 :: "condvar \<Rightarrow> cv_pc \<Rightarrow> (condvar \<times> cv_pc) list" where
  "condvar_signal_2 g l = (case l of
       Count k \<Rightarrow> if wait_count g = 0 then [(say No_Waiters (say (Waiters 0) g), Read k)]
         else [(say (Waiters (wait_count g)) g, Print k)]
     | Print k \<Rightarrow> [(say Signaled g, Set_Event k)]
     | Set_Event k \<Rightarrow> [(g\<lparr>is_event_set := True\<rparr>, Give k)]
     | Give k \<Rightarrow> [(mutex_unlock g, Spin k)]
     | Spin k \<Rightarrow> [(g, if is_event_set g then Spin k else Take k)]
     | _ \<Rightarrow> signal_end g l)"

definition condvar_wait_1 :: "condvar \<Rightarrow> cv_pc \<Rightarrow> (condvar \<times> cv_pc) list" where
  "condvar_wait_1 g l = (case l of
       Enter \<Rightarrow> [(g, Lock)]
     | Lock \<Rightarrow> mutex_lock g Test
     | Test \<Rightarrow> [(g, if is_event_set g then Consume else Unlock_Retry)]
     | Consume \<Rightarrow> [(g\<lparr>is_event_set := False\<rparr>, Unlock_Got)]
     | Unlock_Got \<Rightarrow> [(mutex_unlock g, Got)]
     | Unlock_Retry \<Rightarrow> [(mutex_unlock g, Lock)]
     | _ \<Rightarrow> [])"

definition condvar_wait_2 :: "condvar \<Rightarrow> cv_pc \<Rightarrow> (condvar \<times> cv_pc) list" where
  "condvar_wait_2 g l = (case l of
       Enter \<Rightarrow> [(g\<lparr>wait_count := wait_count g + 1\<rparr>, Lock)]
     | Lock \<Rightarrow> mutex_lock g Test
     | Test \<Rightarrow> [(g, if is_event_set g then Consume else Unlock_Retry)]
     | Consume \<Rightarrow> [(g\<lparr>is_event_set := False\<rparr>, Leave)]
     | Leave \<Rightarrow> [(g\<lparr>wait_count := wait_count g - 1\<rparr>, Unlock_Got)]
     | Unlock_Got \<Rightarrow> [(mutex_unlock g, Got)]
     | Unlock_Retry \<Rightarrow> [(mutex_unlock g, Lock)]
     | _ \<Rightarrow> [])"

text \<open>\<^verbatim>\<open>thread_f\<close> around the wait function, \<^verbatim>\<open>main\<close> around the signal function.\<close>

definition cv_thread :: "(condvar \<Rightarrow> cv_pc \<Rightarrow> (condvar \<times> cv_pc) list) \<Rightarrow> nat \<Rightarrow> condvar \<Rightarrow> cv_pc \<Rightarrow> (condvar \<times> cv_pc) list" where
  "cv_thread wait i g l = (case l of
       Begin \<Rightarrow> if i < created g then [(g, Enter)] else []
     | Got \<Rightarrow> [(say (Processed i) g, Enter)]
     | _ \<Rightarrow> wait g l)"

definition cv_main :: "(condvar \<Rightarrow> cv_pc \<Rightarrow> (condvar \<times> cv_pc) list) \<Rightarrow> nat \<Rightarrow> nat \<Rightarrow> condvar \<Rightarrow> cv_pc \<Rightarrow> (condvar \<times> cv_pc) list" where
  "cv_main signal n chars g l = (case l of
       Create \<Rightarrow> condvar_create g Spawn
     | Spawn \<Rightarrow> if created g < n then [(g\<lparr>created := created g + 1\<rparr>, Spawn)] else [(g, Read chars)]
     | Read k \<Rightarrow> if k = 0 then [(g, Join)] else [(g, Count (k - 1))]
     | _ \<Rightarrow> signal g l)"

definition condvar_1 :: "nat \<Rightarrow> nat \<Rightarrow> (condvar, cv_pc) prog" where
  "condvar_1 n chars i g l = (if i = n then cv_main condvar_signal_1 n chars g l else cv_thread condvar_wait_1 i g l)"

definition condvar_2 :: "nat \<Rightarrow> nat \<Rightarrow> (condvar, cv_pc) prog" where
  "condvar_2 n chars i g l = (if i = n then cv_main condvar_signal_2 n chars g l else cv_thread condvar_wait_2 i g l)"

definition cv_start :: "nat \<Rightarrow> (condvar, cv_pc) sys" where
  "cv_start n = (\<lparr>event_lock = False, is_event_set = False, wait_count = 0, created = 0, lines = []\<rparr>,
     \<lambda>i. if i = n then Create else Begin)"

lemmas cv_step_defs = cv_main_def cv_thread_def condvar_signal_1_def condvar_signal_2_def condvar_wait_1_def
  condvar_wait_2_def signal_end_def mutex_lock_def mutex_unlock_def condvar_create_def say_def

section \<open>Mutual exclusion\<close>

definition holds :: "cv_pc \<Rightarrow> bool" where
  "holds l \<longleftrightarrow> (case l of Spawn \<Rightarrow> True | Read _ \<Rightarrow> True | Count _ \<Rightarrow> True | Print _ \<Rightarrow> True | Set_Event _ \<Rightarrow> True
     | Give _ \<Rightarrow> True | Clear _ \<Rightarrow> True | Join \<Rightarrow> True | Test \<Rightarrow> True | Consume \<Rightarrow> True | Leave \<Rightarrow> True
     | Unlock_Got \<Rightarrow> True | Unlock_Retry \<Rightarrow> True | _ \<Rightarrow> False)"

lemma cv_contract:
  assumes s: "(g', l') \<in> set (condvar_1 n chars i g l) \<or> (g', l') \<in> set (condvar_2 n chars i g l)"
  shows "\<not> holds l \<Longrightarrow> holds l' \<Longrightarrow> \<not> event_lock g \<and> event_lock g'"
    and "holds l \<Longrightarrow> \<not> holds l' \<Longrightarrow> \<not> event_lock g'"
    and "holds l' = holds l \<Longrightarrow> event_lock g' = event_lock g"
  using s by (cases l; auto simp: condvar_1_def condvar_2_def cv_step_defs holds_def split: if_splits)+

lemmas cv_contract_1 = cv_contract[OF disjI1]
lemmas cv_contract_2 = cv_contract[OF disjI2]

interpretation c1: lock_contract "condvar_1 n chars" "Suc n" "cv_start n" event_lock holds for n chars
proof
  show "\<not> event_lock (fst (cv_start n))" "\<not> holds (snd (cv_start n) i)" for i
    by (simp_all add: cv_start_def holds_def)
qed (rule cv_contract_1; assumption)+

interpretation c2: lock_contract "condvar_2 n chars" "Suc n" "cv_start n" event_lock holds for n chars
proof
  show "\<not> event_lock (fst (cv_start n))" "\<not> holds (snd (cv_start n) i)" for i
    by (simp_all add: cv_start_def holds_def)
qed (rule cv_contract_2; assumption)+

section \<open>Every event is taken once\<close>

definition is_processed :: "cv_line \<Rightarrow> bool" where
  "is_processed x \<longleftrightarrow> (case x of Processed _ \<Rightarrow> True | _ \<Rightarrow> False)"

definition signals :: "condvar \<Rightarrow> int" where
  "signals g = int (length (filter (\<lambda>x. x = Signaled) (lines g)))"

definition processings :: "condvar \<Rightarrow> int" where
  "processings g = int (length (filter is_processed (lines g)))"

text \<open>A thread that has taken an event and not yet printed that; one that waits.\<close>

definition served :: "cv_pc \<Rightarrow> bool" where
  "served l \<longleftrightarrow> l \<in> {Leave, Unlock_Got, Got}"

definition trying :: "cv_pc \<Rightarrow> bool" where
  "trying l \<longleftrightarrow> l \<in> {Lock, Test, Consume, Unlock_Retry}"

definition pending :: "condvar \<Rightarrow> cv_pc \<Rightarrow> int" where
  "pending g m = of_bool (is_event_set g) + of_bool (\<exists>k. m = Set_Event k)"

definition counted :: "cv_pc \<Rightarrow> bool" where
  "counted l \<longleftrightarrow> trying l \<or> l = Leave"

definition waiter_ok :: "nat \<Rightarrow> condvar \<Rightarrow> cv_pc \<Rightarrow> bool" where
  "waiter_ok i g l \<longleftrightarrow> l \<in> {Begin, Enter, Lock, Test, Consume, Leave, Unlock_Got, Unlock_Retry, Got} \<and>
     (l = Consume \<longrightarrow> is_event_set g) \<and> (created g \<le> i \<longrightarrow> l = Begin)"

definition main_ok :: "condvar \<Rightarrow> cv_pc \<Rightarrow> bool" where
  "main_ok g m \<longleftrightarrow> m \<notin> {Begin, Enter, Lock, Test, Consume, Leave, Unlock_Got, Unlock_Retry, Got} \<and>
     (is_event_set g \<longrightarrow> (\<exists>k. m = Give k \<or> m = Spin k)) \<and> (\<forall>k. m = Give k \<longrightarrow> is_event_set g) \<and>
     (m = Create \<longrightarrow> created g = 0)"

definition open_signals :: "condvar \<Rightarrow> int" where
  "open_signals g = signals g - processings g - of_bool (is_event_set g)"

definition expecting :: "condvar \<Rightarrow> cv_pc \<Rightarrow> bool" where
  "expecting g m \<longleftrightarrow> is_event_set g \<or> (\<exists>k. m = Print k \<or> m = Set_Event k)"

definition cv_inv :: "nat \<Rightarrow> condvar \<Rightarrow> (nat \<Rightarrow> cv_pc) \<Rightarrow> bool" where
  "cv_inv n g ls \<longleftrightarrow> c2.excl n g ls \<and> main_ok g (ls n) \<and> (\<forall>i < n. waiter_ok i g (ls i)) \<and>
     wait_count g = (\<Sum>i<n. of_bool (counted (ls i))) \<and>
     open_signals g = (\<Sum>i<n. of_bool (served (ls i))) + of_bool (\<exists>k. ls n = Set_Event k) \<and>
     (expecting g (ls n) \<longrightarrow> (\<exists>i < n. trying (ls i)))"

lemmas cv_state_defs = waiter_ok_def main_ok_def open_signals_def signals_def processings_def is_processed_def
  counted_def served_def trying_def expecting_def holds_def

lemma waiter_cases:
  assumes "(g', l') \<in> set (cv_thread condvar_wait_2 i g l)" and "waiter_ok i g l"
  obtains (first) "l = Begin" "l' = Enter" "g' = g" "i < created g"
  | (enter) "l = Enter" "l' = Lock" "g' = g\<lparr>wait_count := wait_count g + 1\<rparr>"
  | (locked) "l = Lock" "l' = Test" "g' = g\<lparr>event_lock := True\<rparr>"
  | (look) "l = Test" "l' = (if is_event_set g then Consume else Unlock_Retry)" "g' = g"
  | (consume) "l = Consume" "l' = Leave" "g' = g\<lparr>is_event_set := False\<rparr>" "is_event_set g"
  | (leave) "l = Leave" "l' = Unlock_Got" "g' = g\<lparr>wait_count := wait_count g - 1\<rparr>"
  | (got) "l = Unlock_Got" "l' = Got" "g' = g\<lparr>event_lock := False\<rparr>"
  | (retry) "l = Unlock_Retry" "l' = Lock" "g' = g\<lparr>event_lock := False\<rparr>"
  | (say) "l = Got" "l' = Enter" "g' = say (Processed i) g"
proof (cases l)
qed (use assms that in \<open>simp_all add: cv_step_defs waiter_ok_def split: if_splits\<close>)

lemma waiter_step:
  assumes "(g', l') \<in> set (cv_thread condvar_wait_2 i g l)" and "waiter_ok i g l"
  shows "waiter_ok i g' l' \<and> created g' = created g \<and>
    wait_count g' = wait_count g - of_bool (counted l) + of_bool (counted l') \<and>
    open_signals g' = open_signals g - of_bool (served l) + of_bool (served l') \<and>
    (is_event_set g' \<noteq> is_event_set g \<longrightarrow> holds l \<and> \<not> is_event_set g') \<and>
    (trying l \<longrightarrow> trying l' \<or> holds l \<and> \<not> is_event_set g')"
  using assms
  by (cases rule: waiter_cases) (use assms(2) in \<open>simp_all add: cv_state_defs say_def\<close>)

lemma signal_step:
  assumes "(g', m') \<in> set (cv_main condvar_signal_2 n chars g m)" and "main_ok g m"
  shows "main_ok g' m'" and "created g \<le> created g'"
    and "wait_count g' = (if m = Create then 0 else wait_count g)"
    and "open_signals g' = open_signals g - of_bool (\<exists>k. m = Set_Event k) + of_bool (\<exists>k. m' = Set_Event k)"
    and "is_event_set g \<Longrightarrow> is_event_set g'"
    and "expecting g' m' \<Longrightarrow> expecting g m \<or> holds m \<and> wait_count g \<noteq> 0"
  using assms by (cases m; auto simp: cv_step_defs cv_state_defs split: if_splits)+

lemma waiters_idle:
  assumes "created g = 0" and "\<forall>i < n. waiter_ok i g (ls i)"
  shows "(\<Sum>i<n. of_bool (counted (ls i))) = (0 :: int)"
  by (rule sum.neutral) (use assms in \<open>auto simp: waiter_ok_def counted_def trying_def\<close>)

lemma some_counted:
  fixes n :: nat
  assumes "(\<Sum>i<n. of_bool (counted (ls i))) \<noteq> (0 :: int)"
  shows "\<exists>i < n. counted (ls i)"
proof (rule ccontr)
  assume "\<not> ?thesis"
  then have "(\<Sum>i<n. of_bool (counted (ls i))) = (0 :: int)" by (intro sum.neutral) auto
  with assms show False by simp
qed

lemma cv_main_inv:
  assumes inv: "cv_inv n g ls" and s: "(g', l') \<in> set (cv_main condvar_signal_2 n chars g (ls n))"
    and ex: "c2.excl n g' (ls(n := l'))"
  shows "cv_inv n g' (ls(n := l'))"
proof -
  have m: "main_ok g (ls n)" and w: "\<forall>i < n. waiter_ok i g (ls i)" using inv by (simp_all add: cv_inv_def)
  note E = signal_step[OF s m]
  have "\<forall>i < n. waiter_ok i g' ((ls(n := l')) i)"
    using w E(2,5) by (force simp: waiter_ok_def)
  moreover have "wait_count g' = (\<Sum>i<n. of_bool (counted (ls i)))"
    using inv E(3) m waiters_idle[OF _ w] by (auto simp: cv_inv_def main_ok_def)
  moreover have trying: "\<exists>i < n. trying (ls i)" if e: "expecting g' l'"
  proof (cases "expecting g (ls n)")
    case True
    then show ?thesis using inv by (simp add: cv_inv_def)
  next
    case False
    with E(6) e have h: "holds (ls n)" "wait_count g \<noteq> 0" by auto
    then obtain i where i: "i < n" "counted (ls i)" using inv some_counted[of ls n] by (auto simp: cv_inv_def)
    have "\<not> holds (ls i)" by (rule c2.excl_other[where i = n and n = n]) (use inv h(1) i(1) in \<open>auto simp: cv_inv_def\<close>)
    with i show ?thesis by (auto simp: counted_def holds_def)
  qed
  then have "expecting g' l' \<longrightarrow> (\<exists>i < n. trying ((ls(n := l')) i))" by auto
  ultimately show ?thesis
    using ex E(1,4) inv unfolding cv_inv_def 
    using sum_upd_other[of "\<lambda>_ l. of_bool (counted l)" ls n l'] sum_upd_other[of "\<lambda>_ l. of_bool (served l)" ls n l']
    by (simp add: fun_upd_same del: fun_upd_apply sum_of_bool_eq)
qed

lemma cv_waiter_inv:
  assumes inv: "cv_inv n g ls" and i: "i < n" and s: "(g', l') \<in> set (cv_thread condvar_wait_2 i g (ls i))"
    and ex: "c2.excl n g' (ls(i := l'))"
  shows "cv_inv n g' (ls(i := l'))"
proof -
  have m: "main_ok g (ls n)" and w: "\<forall>i < n. waiter_ok i g (ls i)" using inv by (simp_all add: cv_inv_def)
  from w i have "waiter_ok i g (ls i)" by blast
  note E = waiter_step[OF s this]
  have alone: "\<not> holds (ls j)" if "holds (ls i)" "j \<noteq> i" "j \<le> n" for j
    by (rule c2.excl_other[where i = i and n = n]) (use inv that i in \<open>auto simp: cv_inv_def less_Suc_eq_le\<close>)
  have "waiter_ok j g' (ls j)" if j: "j < n" "j \<noteq> i" for j
  proof (cases "is_event_set g' = is_event_set g")
    case True
    then show ?thesis using w j E by (auto simp: waiter_ok_def)
  next
    case False
    with E alone j have "\<not> holds (ls j)" by simp
    then have "ls j \<noteq> Consume" by (auto simp: holds_def)
    then show ?thesis using w j E by (auto simp: waiter_ok_def)
  qed
  moreover have "main_ok g' (ls n)"
  proof (cases "is_event_set g' = is_event_set g")
    case True
    then show ?thesis using m E by (auto simp: main_ok_def)
  next
    case False
    with E alone[of n] i have "\<not> holds (ls n)" "\<not> is_event_set g'" by auto
    then show ?thesis using m E by (auto simp: main_ok_def holds_def)
  qed
  moreover have "\<exists>j < n. trying ((ls(i := l')) j)" if e: "expecting g' (ls n)"
  proof -
    have "expecting g (ls n)" using e E by (auto simp: expecting_def)
    then obtain j where j: "j < n" "trying (ls j)" using inv by (auto simp: cv_inv_def)
    show ?thesis
    proof (cases "j = i \<and> \<not> trying l'")
      case True
      with E j have h: "holds (ls i)" "\<not> is_event_set g'" by auto
      with alone[of n] i have "\<not> holds (ls n)" by simp
      with e h(2) show ?thesis by (auto simp: expecting_def holds_def)
    next
      case False
      with j show ?thesis by (intro exI[of _ j]) auto
    qed
  qed
  moreover have "wait_count g' = (\<Sum>j<n. of_bool (counted ((ls(i := l')) j)))"
    using inv E sum_upd[OF i, of "\<lambda>_ l. of_bool (counted l)" ls l'] by (simp add: cv_inv_def)
  moreover have "open_signals g' = (\<Sum>j<n. of_bool (served ((ls(i := l')) j))) + of_bool (\<exists>k. ls n = Set_Event k)"
    using inv E sum_upd[OF i, of "\<lambda>_ l. of_bool (served l)" ls l'] by (simp add: cv_inv_def)
  ultimately show ?thesis
    using ex E i unfolding cv_inv_def by (simp add: fun_upd_other)
qed

interpretation ci: invariant "condvar_2 n chars" "Suc n" "cv_start n" "cv_inv n" for n chars
proof
  show "cv_inv n (fst (cv_start n)) (snd (cv_start n))"
    using c2.excl_start by (auto simp: cv_inv_def cv_start_def cv_state_defs)
  fix g ls i g' l'
  assume inv: "cv_inv n g ls" and i: "i < Suc n" and s: "(g', l') \<in> set (condvar_2 n chars i g (ls i))"
  have "c2.excl n g ls" using inv by (simp add: cv_inv_def)
  from c2.excl_step[where g = g and ls = ls, OF this i s] have ex: "c2.excl n g' (ls(i := l'))" .
  show "cv_inv n g' (ls(i := l'))"
  proof (cases "i = n")
    case True
    with s have "(g', l') \<in> set (cv_main condvar_signal_2 n chars g (ls n))" by (simp add: condvar_2_def)
    from cv_main_inv[OF inv this] ex True show ?thesis by blast
  next
    case False
    with s i have "i < n" "(g', l') \<in> set (cv_thread condvar_wait_2 i g (ls i))" by (simp_all add: condvar_2_def)
    from cv_waiter_inv[OF inv this ex] show ?thesis .
  qed
qed

lemma waiter_can_step:
  assumes inv: "cv_inv n g ls" and m: "ls n = Spin k" and e: "is_event_set g"
  shows "\<exists>i < n. cv_thread condvar_wait_2 i g (ls i) \<noteq> []"
proof -
  obtain i where i: "i < n" "trying (ls i)" using inv e by (auto simp: cv_inv_def expecting_def)
  show ?thesis
  proof (cases "event_lock g")
    case False
    with i show ?thesis by (intro exI[of _ i]) (auto simp: trying_def cv_step_defs)
  next
    case True
    then obtain j where j: "j < Suc n" "holds (ls j)" using inv by (auto simp: cv_inv_def c2.excl_def)
    with m have "j < n" by (cases "j = n") (auto simp: holds_def)
    moreover from this have "waiter_ok j g (ls j)" using inv by (simp add: cv_inv_def)
    with j(2) have "cv_thread condvar_wait_2 j g (ls j) \<noteq> []"
      by (auto simp: waiter_ok_def holds_def cv_step_defs)
    ultimately show ?thesis by blast
  qed
qed

section \<open>Properties\<close>

text \<open>C28: in \<^verbatim>\<open>14_condvar.c\<close>, in every interleaving, each signal sent to a waiting thread is taken by exactly one
  thread: the signals printed are the events processed, those taken by a thread that has not yet
  printed so, and the one that is set. \<^verbatim>\<open>wait_count\<close> is the number of threads that wait. While
  \<^verbatim>\<open>main\<close> spins on a set event some thread waits for it, and some thread can step.\<close>

theorem condvar_exactly_once:
  assumes "reach (condvar_2 n chars) (Suc n) (cv_start n) (g, ls)"
  shows "signals g = processings g + (\<Sum>i<n. of_bool (served (ls i))) + of_bool (is_event_set g) +
      of_bool (\<exists>k. ls n = Set_Event k) \<and>
    wait_count g = (\<Sum>i<n. of_bool (counted (ls i))) \<and>
    ((\<nexists>k. ls n = Spin k) \<or> \<not> is_event_set g \<or>
      (\<exists>i < n. trying (ls i)) \<and> (\<exists>i < n. cv_thread condvar_wait_2 i g (ls i) \<noteq> []))"
proof -
  have inv: "cv_inv n g ls" by (rule ci.reach_inv[OF assms])
  then have "(\<nexists>k. ls n = Spin k) \<or> \<not> is_event_set g \<or>
      (\<exists>i < n. trying (ls i)) \<and> (\<exists>i < n. cv_thread condvar_wait_2 i g (ls i) \<noteq> [])"
    using waiter_can_step[OF inv] by (auto simp: cv_inv_def expecting_def)
  with inv show ?thesis by (simp add: cv_inv_def open_signals_def)
qed

theorem condvar_exactly_once_witness:
  "\<exists>g ls. reach (condvar_2 1 1) 2 (cv_start 1) (g, ls) \<and> ls 1 = Join \<and> ls 0 = Enter \<and> signals g = 1 \<and> processings g = 1"
proof -
  let ?g = "\<lparr>event_lock = True, is_event_set = False, wait_count = 0, created = 1,
    lines = [Waiters 1, Signaled, Processed 0, Is_Locked]\<rparr>"
  let ?ls = "(\<lambda>_. Begin)(0 := Enter, 1 := Join)"
  have r: "reach (condvar_2 1 1) (Suc 1) (cv_start 1) (?g, ?ls)"
    by (rule exec_reach[where sch = "[(1, 0), (1, 0), (1, 0), (0, 0), (0, 0), (1, 0), (1, 0), (1, 0), (1, 0), (1, 0),
        (0, 0), (0, 0), (0, 0), (0, 0), (0, 0), (0, 0), (1, 0), (1, 0), (1, 0), (1, 0)]"])
      (auto simp: cv_start_def condvar_2_def cv_step_defs fun_eq_iff)
  have "processings ?g = 1" by (simp add: processings_def is_processed_def)
  moreover have "signals ?g = processings ?g"
    using conjunct1[OF condvar_exactly_once[OF r]] by (simp add: served_def)
  ultimately show ?thesis using r by (intro exI[of _ ?g] exI[of _ ?ls]) (simp add: numeral_2_eq_2)
qed

text \<open>In \<^verbatim>\<open>13_simple_condvar.c\<close> a signal can be lost: \<^verbatim>\<open>main\<close> takes the mutex back before any of the ten
  waiting threads gets it, resets the flag, and at the end of its input nobody has processed the event.\<close>

lemma simple_condvar_loses:
  "\<exists>g ls. reach (condvar_1 10 1) 11 (cv_start 10) (g, ls) \<and> ls 10 = Join \<and> map ls [0..<10] = replicate 10 Lock \<and>
     signals g = 1 \<and> processings g = 0 \<and> \<not> is_event_set g"
proof -
  let ?g = "\<lparr>event_lock = True, is_event_set = False, wait_count = 0, created = 10, lines = [Signaled, Is_Locked]\<rparr>"
  let ?ls = "(\<lambda>_. Begin)(0 := Lock, 1 := Lock, 2 := Lock, 3 := Lock, 4 := Lock, 5 := Lock, 6 := Lock, 7 := Lock,
    8 := Lock, 9 := Lock, 10 := Join)"
  have r: "reach (condvar_1 10 1) 11 (cv_start 10) (?g, ?ls)"
    by (rule exec_reach[where sch = "[(10, 0), (10, 0), (10, 0), (10, 0), (10, 0), (10, 0), (10, 0), (10, 0), (10, 0), (10, 0),
        (10, 0), (10, 0), (0, 0), (0, 0), (1, 0), (1, 0), (2, 0), (2, 0), (3, 0), (3, 0), (4, 0), (4, 0), (5, 0), (5, 0),
        (6, 0), (6, 0), (7, 0), (7, 0), (8, 0), (8, 0), (9, 0), (9, 0),
        (10, 0), (10, 0), (10, 0), (10, 0), (10, 0), (10, 0), (10, 0)]"])
      (auto simp: cv_start_def condvar_1_def cv_step_defs fun_eq_iff)
  have "map ?ls [0..<10] = replicate 10 Lock" by (simp add: upt_rec numeral_eq_Suc)
  with r show ?thesis by (intro exI[of _ ?g] exI[of _ ?ls]) (simp add: signals_def processings_def is_processed_def)
qed

end
