(* ===== verification/Bytes.thy ===== *)
theory Bytes
  imports Prelude
begin

text \<open>
  Integers as the bytes that \<^verbatim>\<open>memcpy\<close>, \<^verbatim>\<open>write\<close> and \<^verbatim>\<open>read\<close> move around: \<open>n\<close> bytes, two's
  complement, the lowest byte first, as on the machines the programs are written for.
\<close>

type_synonym byte = "8 word"

definition bytes_of :: "nat \<Rightarrow> int \<Rightarrow> byte list" where
  "bytes_of n x = map (\<lambda>i. word_of_int (drop_bit (8 * i) x)) [0..<n]"

definition int_of_bytes :: "byte list \<Rightarrow> int" where
  "int_of_bytes bs = signed_take_bit (8 * length bs - 1) (horner_sum uint (2 ^ 8) bs)"

definition fits_bytes :: "nat \<Rightarrow> int \<Rightarrow> bool" where
  "fits_bytes n x \<longleftrightarrow> - (2 ^ (8 * n - 1)) \<le> x \<and> x < 2 ^ (8 * n - 1)"

lemma length_bytes_of [simp]: "length (bytes_of n x) = n"
  by (simp add: bytes_of_def)

lemma bytes_of_Suc: "bytes_of (Suc n) x = word_of_int x # bytes_of n (drop_bit 8 x)"
  by (simp add: bytes_of_def upt_conv_Cons map_Suc_upt[symmetric] comp_def drop_bit_drop_bit algebra_simps del: upt_Suc)

lemma horner_bytes: "horner_sum uint (2 ^ 8) (bytes_of n x) = take_bit (8 * n) x"
proof (induction n arbitrary: x)
  case 0
  then show ?case by (simp add: bytes_of_def)
next
  case (Suc n)
  have "take_bit (8 * Suc n) x = take_bit 8 x + 2 ^ 8 * take_bit (8 * n) (drop_bit 8 x)"
    by (simp add: take_bit_eq_mod drop_bit_eq_div power_add zmod_zmult2_eq)
  with Suc show ?case by (simp add: bytes_of_Suc uint_word_of_int_eq)
qed

lemma int_of_bytes_of: "0 < n \<Longrightarrow> fits_bytes n x \<Longrightarrow> int_of_bytes (bytes_of n x) = x"
  unfolding int_of_bytes_def horner_bytes
  by (auto simp: fits_bytes_def signed_take_bit_take_bit signed_take_bit_int_eq_self)

end
