(* ===== verification/Presort.thy ===== *)
theory Presort
  imports Buffers C_Text Bytes "HOL-Library.Multiset"
begin

text \<open>
  The sorting programs \<^verbatim>\<open>lecture_examples/7_ipc/1_simple_sort.c\<close> (one process) and
  \<^verbatim>\<open>2_parallel_sort.c\<close> (a child process per file that sends its numbers through a pipe). The files
  are their texts. \<^verbatim>\<open>qsort\<close> of the C library is an insertion sort by the comparison function: the
  standard fixes its result when the comparison is an order without ties between different
  numbers, and nothing otherwise. A subtraction of \<^verbatim>\<open>int\<close>s wraps around.
\<close>

section \<open>The numbers of a file\<close>

record num_array =
  na_size :: nat
  na_capacity :: nat
  na_cells :: "int option list"

definition na_create :: "nat \<Rightarrow> num_array" where
  "na_create capacity = \<lparr>na_size = 0, na_capacity = capacity, na_cells = replicate capacity None\<rparr>"

text \<open>\<^verbatim>\<open>array[size] = x\<close>, then \<^verbatim>\<open>++size\<close> and the reallocation of a full array.\<close>

definition na_insert :: "num_array \<Rightarrow> int \<Rightarrow> num_array run" where
  "na_insert a x = (if na_size a < length (na_cells a) then
     let a = a\<lparr>na_cells := (na_cells a)[na_size a := Some x], na_size := na_size a + 1\<rparr> in
     ret (if na_size a = na_capacity a
       then a\<lparr>na_capacity := na_capacity a * 2, na_cells := na_cells a @ replicate (na_capacity a) None\<rparr> else a)
     else fault Out_Of_Bounds)"

definition na_ok :: "num_array \<Rightarrow> bool" where
  "na_ok a \<longleftrightarrow> length (na_cells a) = na_capacity a \<and> na_size a < na_capacity a \<and>
     None \<notin> set (take (na_size a) (na_cells a))"

definition na_content :: "num_array \<Rightarrow> int list" where
  "na_content a = map the (take (na_size a) (na_cells a))"

interpretation na: growable na_create na_insert na_content na_ok
proof
  show "na_ok (na_create n)" if "0 < n" for n using that by (simp add: na_ok_def na_create_def)
  show "na_content (na_create n) = []" for n by (simp add: na_content_def na_create_def)
  show "wp (na_insert a x) (\<lambda>a'. na_ok a' \<and> na_content a' = na_content a @ [x])" if "na_ok a" for a x
  proof -
    let ?cells = "(na_cells a)[na_size a := Some x]"
    from that have size: "na_size a < length (na_cells a)" by (simp add: na_ok_def)
    then have "take (Suc (na_size a)) ?cells = take (na_size a) (na_cells a) @ [Some x]"
      by (simp add: take_Suc_conv_app_nth)
    moreover from this have "take (Suc (na_size a)) (?cells @ xs) = take (na_size a) (na_cells a) @ [Some x]" for xs
      using size by simp
    ultimately show ?thesis
      using size that
      by (simp add: na_insert_def na_ok_def na_content_def Let_def eq_commute[of "Suc (na_size a)"] del: take_append)
  qed
qed

partial_function (option) scan_numbers :: "string \<Rightarrow> num_array \<Rightarrow> num_array run" where
  [code]: "scan_numbers t a = (case scan_int t of None \<Rightarrow> ret a
     | Some (x, t) \<Rightarrow> bnd (na_insert a x) (scan_numbers t))"

section \<open>Sorting\<close>

definition cmp :: "int \<Rightarrow> int \<Rightarrow> int" where
  "cmp a b = wrap_int (a - b)"

fun place_by :: "('a \<Rightarrow> 'a \<Rightarrow> int) \<Rightarrow> 'a \<Rightarrow> 'a list \<Rightarrow> 'a list" where
  "place_by c x [] = [x]"
| "place_by c x (y # ys) = (if c x y \<le> 0 then x # y # ys else y # place_by c x ys)"

definition qsort :: "('a \<Rightarrow> 'a \<Rightarrow> int) \<Rightarrow> 'a list \<Rightarrow> 'a list" where
  "qsort c xs = foldr (place_by c) xs []"

text \<open>\<^verbatim>\<open>sorter\<close>: the sorted array of the file.\<close>

definition sorter :: "string \<Rightarrow> int list run" where
  "sorter t = bnd (scan_numbers t (na_create 1024)) (\<lambda>a. ret (qsort cmp (na_content a)))"

section \<open>One process\<close>

record worker =
  w_array :: "int list"
  w_size :: int

text \<open>The loop that copies the arrays of the workers one behind the other.\<close>

fun copy_arrays :: "int option list \<Rightarrow> nat \<Rightarrow> worker list \<Rightarrow> int option list run" where
  "copy_arrays dst pos [] = ret dst"
| "copy_arrays dst pos (w # ws) =
     (if pos + nat (w_size w) > length dst \<or> nat (w_size w) > length (w_array w) then fault Out_Of_Bounds
      else copy_arrays (blit dst pos (map Some (take (nat (w_size w)) (w_array w)))) (pos + nat (w_size w)) ws)"

definition join_arrays :: "worker list \<Rightarrow> int option list run" where
  "join_arrays ws = copy_arrays (replicate (nat (sum_list (map w_size ws))) None) 0 ws"

fun sort_each :: "string list \<Rightarrow> worker list run" where
  "sort_each [] = ret []"
| "sort_each (t # ts) = bnd (sorter t) (\<lambda>a. bnd (sort_each ts) (\<lambda>ws. ret (\<lparr>w_array = a, w_size = int (length a)\<rparr> # ws)))"

definition simple_sort :: "string list \<Rightarrow> int option list run" where
  "simple_sort files = bnd (sort_each files) join_arrays"

section \<open>A process for each file\<close>

text \<open>What the child writes: the number of its numbers, then the numbers.\<close>

definition pipe_bytes :: "int list \<Rightarrow> byte list" where
  "pipe_bytes a = bytes_of 4 (int (length a)) @ concat (map (bytes_of 4) a)"

text \<open>
  \<^verbatim>\<open>read(fd, in, size)\<close> on a pipe whose writers are gone or will write on: it waits for a byte or
  the end, and returns at most \<open>size\<close> bytes. How many of them is not known: the \<open>i\<close>-th read returns
  \<open>rd i\<close> bytes, or one, if that is not allowed.
\<close>

definition sys_read :: "(nat \<Rightarrow> nat) \<Rightarrow> nat \<Rightarrow> int \<Rightarrow> byte list \<Rightarrow> nat" where
  "sys_read rd i n p = (let m = min (nat n) (length p) in if 0 < rd i \<and> rd i \<le> m then rd i else min 1 m)"

text \<open>The loop of \<^verbatim>\<open>read_from_pipe\<close> after a read of \<open>rc\<close> bytes; \<open>got\<close> is what has been read.\<close>

partial_function (option) read_loop_pipe ::
  "(nat \<Rightarrow> nat) \<Rightarrow> nat \<Rightarrow> int \<Rightarrow> nat \<Rightarrow> byte list \<Rightarrow> byte list \<Rightarrow> (byte list \<times> nat \<times> byte list) run" where
  [code]: "read_loop_pipe rd i n rc got p =
     (if rc > 0 \<and> n > 0 then
        let n = n - int rc; got = got @ take rc p; p = drop rc p in
        read_loop_pipe rd (i + 1) n (sys_read rd i n p) got p
      else ret (got, i, p))"

definition read_from_pipe :: "(nat \<Rightarrow> nat) \<Rightarrow> nat \<Rightarrow> int \<Rightarrow> byte list \<Rightarrow> (byte list \<times> nat \<times> byte list) run" where
  "read_from_pipe rd i n p = read_loop_pipe rd (i + 1) n (sys_read rd i n p) [] p"

fun ints_of :: "nat \<Rightarrow> byte list \<Rightarrow> int list" where
  "ints_of 0 bs = []"
| "ints_of (Suc n) bs = int_of_bytes (take 4 bs) # ints_of n (drop 4 bs)"

fun collect :: "(nat \<Rightarrow> nat) \<Rightarrow> nat \<Rightarrow> byte list list \<Rightarrow> worker list run" where
  "collect rd i [] = ret []"
| "collect rd i (p # ps) =
     bnd (read_from_pipe rd i 4 p) (\<lambda>(sz, i, p). let n = int_of_bytes sz in
     bnd (read_from_pipe rd i (wrap_int (n * 4)) p) (\<lambda>(bs, i, p).
     bnd (collect rd i ps) (\<lambda>ws. ret (\<lparr>w_array = ints_of (length bs div 4) bs, w_size = n\<rparr> # ws))))"

fun start_workers :: "string list \<Rightarrow> byte list list run" where
  "start_workers [] = ret []"
| "start_workers (t # ts) = bnd (sorter t) (\<lambda>a. bnd (start_workers ts) (\<lambda>ps. ret (pipe_bytes a # ps)))"

definition parallel_sort :: "(nat \<Rightarrow> nat) \<Rightarrow> string list \<Rightarrow> int option list run" where
  "parallel_sort rd files = bnd (start_workers files) (\<lambda>ps. bnd (collect rd 0 ps) join_arrays)"

section \<open>Lemmas\<close>

lemma scan_numbers_spec:
  "na_ok a \<Longrightarrow> wp (scan_numbers t a) (\<lambda>a'. na_ok a' \<and> na_content a' = na_content a @ scan_all t)"
proof (induction t arbitrary: a rule: scan_all.induct)
  case (1 t)
  show ?case
  proof (cases "scan_int t")
    case None
    with 1 show ?thesis by (simp add: scan_numbers.simps[of t] scan_all.simps[of t])
  next
    case (Some r)
    obtain x t' where r: "r = (x, t')" by force
    from na.insert_ret[OF "1.prems", of x] obtain a' where
      a': "na_insert a x = ret a'" "na_ok a'" "na_content a' = na_content a @ [x]" .
    from "1.IH"[OF Some[unfolded r] refl a'(2)]
    have "wp (scan_numbers t' a') (\<lambda>a''. na_ok a'' \<and> na_content a'' = na_content a' @ scan_all t')" by simp
    then show ?thesis using Some r a' by (simp add: scan_numbers.simps[of t] scan_all.simps[of t])
  qed
qed

lemma mset_place_by [simp]: "mset (place_by c x ys) = add_mset x (mset ys)"
  by (induction ys) auto

lemma mset_qsort [simp]: "mset (qsort c xs) = mset xs"
  by (induction xs) (simp_all add: qsort_def)

lemma set_qsort [simp]: "set (qsort c xs) = set xs"
  by (rule mset_eq_setD) simp

lemma length_qsort [simp]: "length (qsort c xs) = length xs"
  by (rule mset_eq_length) simp

lemma place_by_insort:
  "\<forall>y \<in> set ys. c x y \<le> 0 \<longleftrightarrow> x \<le> y \<Longrightarrow> place_by c x ys = insort x ys"
  by (induction ys) auto

lemma qsort_sorts: "\<forall>x \<in> set xs. \<forall>y \<in> set xs. c x y \<le> 0 \<longleftrightarrow> x \<le> y \<Longrightarrow> qsort c xs = sort xs"
proof (induction xs)
  case (Cons x xs)
  then have "qsort c xs = sort xs" by simp
  moreover have "place_by c x (sort xs) = insort x (sort xs)" by (rule place_by_insort) (use Cons.prems in auto)
  ultimately show ?case by (simp add: qsort_def sort_key_def)
qed (simp add: qsort_def)

lemma cmp_orders: "fits_int (a - b) \<Longrightarrow> cmp a b \<le> 0 \<longleftrightarrow> a \<le> b"
  by (simp add: cmp_def wrap_int_id)

lemma sorter_eq: "sorter t = ret (qsort cmp (scan_all t))"
proof -
  have "wp (scan_numbers t (na_create 1024)) (\<lambda>a'. na_ok a' \<and> na_content a' = scan_all t)"
    using scan_numbers_spec[OF na.create_ok, of 1024 t] by (simp add: na.create_content)
  then show ?thesis by (auto simp: sorter_def elim: wpE)
qed

lemma sort_each_eq:
  "sort_each ts = ret (map (\<lambda>t. \<lparr>w_array = qsort cmp (scan_all t), w_size = int (length (scan_all t))\<rparr>) ts)"
  by (induction ts) (simp_all add: sorter_eq)

definition full :: "worker \<Rightarrow> bool" where
  "full w \<longleftrightarrow> w_size w = int (length (w_array w))"

lemma copy_arrays_full:
  "list_all full ws \<Longrightarrow> copy_arrays (map Some xs @ replicate (length (concat (map w_array ws))) None) (length xs) ws =
     ret (map Some (xs @ concat (map w_array ws)))"
proof (induction ws arbitrary: xs)
  case (Cons w ws)
  have "blit (map Some xs @ replicate (length (concat (map w_array (w # ws)))) None) (length xs) (map Some (w_array w)) =
      map Some (xs @ w_array w) @ replicate (length (concat (map w_array ws))) None"
    by (simp add: blit_def replicate_add)
  with Cons.IH[of "xs @ w_array w"] Cons.prems show ?case by (simp add: full_def)
qed simp

lemma join_arrays_full: "list_all full ws \<Longrightarrow> join_arrays ws = ret (map Some (concat (map w_array ws)))"
proof -
  assume f: "list_all full ws"
  then have "sum_list (map w_size ws) = int (length (concat (map w_array ws)))"
    by (induction ws) (simp_all add: full_def)
  with copy_arrays_full[OF f, of "[]"] show ?thesis by (simp add: join_arrays_def)
qed

section \<open>Reading from a pipe\<close>

lemma sys_read_bounds:
  "sys_read rd i n p \<le> nat n" "sys_read rd i n p \<le> length p"
  "0 < n \<Longrightarrow> p \<noteq> [] \<Longrightarrow> 0 < sys_read rd i n p"
  by (auto simp: sys_read_def Let_def min_def Suc_le_eq)

lemma read_loop_pipe_spec:
  assumes "rc \<le> nat n" and "nat n \<le> length p" and "0 < n \<longrightarrow> 0 < rc" and "0 \<le> n"
  shows "\<exists>j. read_loop_pipe rd i n rc got p = ret (got @ take (nat n) p, j, drop (nat n) p)"
  using assms
proof (induction "nat n" arbitrary: n i rc got p rule: less_induct)
  case less
  show ?case
  proof (cases "0 < n")
    case False
    with less.prems have "n = 0" "rc = 0" by simp_all
    then show ?thesis by (simp add: read_loop_pipe.simps[of rd i 0])
  next
    case True
    let ?n = "n - int rc" and ?p = "drop rc p"
    have rc: "0 < rc" "int rc \<le> n" "rc \<le> nat n" using True less.prems by auto
    have "0 < ?n \<longrightarrow> 0 < sys_read rd i ?n ?p"
      using sys_read_bounds(3)[of ?n ?p rd i] less.prems rc by fastforce
    moreover have "nat ?n = nat n - rc" using rc by (simp add: nat_diff_distrib)
    ultimately obtain j where "read_loop_pipe rd (i + 1) ?n (sys_read rd i ?n ?p) (got @ take rc p) ?p =
        ret ((got @ take rc p) @ take (nat n - rc) ?p, j, drop (nat n - rc) ?p)"
      using less.hyps[of ?n "sys_read rd i ?n ?p" ?p "i + 1" "got @ take rc p"] sys_read_bounds(1)[of rd i ?n ?p]
        less.prems rc True by force
    moreover have "take rc p @ take (nat n - rc) ?p = take (nat n) p" "drop (nat n - rc) ?p = drop (nat n) p"
      using rc less.prems(2) take_add[of rc "nat n - rc" p] by simp_all
    ultimately show ?thesis using True rc by (subst read_loop_pipe.simps) (simp add: Let_def)
  qed
qed

lemma read_from_pipe_spec:
  assumes "0 \<le> n" and "nat n \<le> length p"
  shows "\<exists>j. read_from_pipe rd i n p = ret (take (nat n) p, j, drop (nat n) p)"
proof -
  have "0 < n \<longrightarrow> 0 < sys_read rd i n p" using assms sys_read_bounds(3)[of n p rd i] by fastforce
  from read_loop_pipe_spec[OF sys_read_bounds(1) assms(2) this assms(1), of rd "i + 1" "[]"] show ?thesis
    by (simp add: read_from_pipe_def)
qed

lemma ints_of_bytes:
  "\<forall>x \<in> set xs. fits_int x \<Longrightarrow> ints_of (length xs) (concat (map (bytes_of 4) xs)) = xs"
  by (induction xs) (simp_all add: int_of_bytes_of fits_bytes_def fits_int_def int_min_def int_max_def)

lemma length_pipe_numbers [simp]: "length (concat (map (bytes_of 4) xs)) = 4 * length xs"
  by (induction xs) simp_all

lemma collect_spec:
  assumes "\<forall>a \<in> set as. length a < 2 ^ 29 \<and> (\<forall>x \<in> set a. fits_int x)"
  shows "collect rd i (map pipe_bytes as) = ret (map (\<lambda>a. \<lparr>w_array = a, w_size = int (length a)\<rparr>) as)"
  using assms
proof (induction as arbitrary: i)
  case (Cons a as)
  let ?data = "concat (map (bytes_of 4) a)"
  have size: "length a < 2 ^ 29" and fit: "\<forall>x \<in> set a. fits_int x" using Cons.prems by simp_all
  obtain j where j: "read_from_pipe rd i 4 (pipe_bytes a) = ret (bytes_of 4 (int (length a)), j, ?data)"
    using read_from_pipe_spec[of 4 "pipe_bytes a" rd i] by (auto simp: pipe_bytes_def)
  have n: "int_of_bytes (bytes_of 4 (int (length a))) = int (length a)"
    using size by (intro int_of_bytes_of) (simp_all add: fits_bytes_def)
  have w: "wrap_int (int (length a) * 4) = int (4 * length a)"
    using size by (subst wrap_int_id) (simp_all add: fits_int_def int_min_def int_max_def)
  obtain k where k: "read_from_pipe rd j (int (4 * length a)) ?data = ret (?data, k, [])"
    using read_from_pipe_spec[of "int (4 * length a)" ?data rd j] by (auto simp del: of_nat_mult)
  show ?case
    using Cons.IH[of k] Cons.prems j n w k ints_of_bytes[OF fit] by simp
qed simp

lemma start_workers_eq: "start_workers ts = ret (map (\<lambda>t. pipe_bytes (qsort cmp (scan_all t))) ts)"
  by (induction ts) (simp_all add: sorter_eq)

section \<open>Properties\<close>

text \<open>C29: the program with one process gathers the numbers of its files, each file's in ascending order,
  one file behind the other (they are not merged), as long as the difference of no two numbers
  of a file overflows; with an overflow \<^verbatim>\<open>cmp\<close> calls the smallest \<^verbatim>\<open>int\<close> larger than 1.\<close>

theorem simple_sort_sorts:
  assumes "\<forall>t \<in> set files. \<forall>x \<in> set (scan_all t). \<forall>y \<in> set (scan_all t). fits_int (x - y)"
  shows "simple_sort files = ret (map Some (concat (map (\<lambda>t. sort (scan_all t)) files))) \<and> cmp int_min 1 > 0"
proof -
  have "qsort cmp (scan_all t) = sort (scan_all t)" if "t \<in> set files" for t
    using assms that by (intro qsort_sorts) (simp add: cmp_orders)
  then have m: "map (\<lambda>t. qsort cmp (scan_all t)) files = map (\<lambda>t. sort (scan_all t)) files" by simp
  have "simple_sort files = ret (map Some (concat (map (\<lambda>t. qsort cmp (scan_all t)) files)))"
    by (simp add: simple_sort_def sort_each_eq join_arrays_full list_all_iff full_def comp_def)
  then show ?thesis unfolding m by (simp add: cmp_def wrap_int_def int_min_def)
qed

theorem simple_sort_sorts_witness:
  "simple_sort [''3 -1 2'', ''7 5''] = ret (map Some [- 1, 2, 3, 5, 7])"
proof -
  have "scan_all ''3 -1 2'' = [3, - 1, 2]" "scan_all ''7 5'' = [7, 5]" by code_simp+
  then show ?thesis
    using simple_sort_sorts[of "[''3 -1 2'', ''7 5'']"] by (simp add: fits_int_def int_min_def int_max_def)
qed

text \<open>C30: sorting in child processes gives the same total array, however the bytes of the pipes are cut into
  reads, if no file has \<open>2 ^ 29\<close> numbers or more.\<close>

theorem parallel_sort_equals_simple:
  assumes "\<forall>t \<in> set files. length (scan_all t) < 2 ^ 29"
  shows "parallel_sort rd files = simple_sort files"
proof -
  let ?as = "map (\<lambda>t. qsort cmp (scan_all t)) files"
  have "\<forall>a \<in> set ?as. length a < 2 ^ 29 \<and> (\<forall>x \<in> set a. fits_int x)"
    using assms scan_all_fits by auto
  from collect_spec[OF this, of rd 0] show ?thesis
    by (simp add: parallel_sort_def simple_sort_def start_workers_eq sort_each_eq comp_def)
qed

theorem parallel_sort_equals_simple_witness:
  "parallel_sort (\<lambda>i. 3) [''3 -1 2'', ''7 5''] = simple_sort [''3 -1 2'', ''7 5'']"
proof -
  have "scan_all ''3 -1 2'' = [3, - 1, 2]" "scan_all ''7 5'' = [7, 5]" by code_simp+
  then show ?thesis by (intro parallel_sort_equals_simple) simp
qed

end
