(* ===== verification/Shared_Mem.thy ===== *)
theory Shared_Mem
  imports Presort Interleaving Runs
begin

text \<open>
  \<^verbatim>\<open>lecture_examples/7_ipc/3_mem_sort.c\<close>: the child of each file (thread 0) sends its sorted numbers
  to the parent (thread 1) through a shared piece of memory with two flags, in portions of at most
  \<open>cap\<close> bytes (65534 in the code). The transfer is modelled for any list of messages; the reader
  computes the size of its next message from those it has received. The rest of the program is
  that of theory \<^verbatim>\<open>Presort\<close>.
\<close>

section \<open>The code\<close>

definition MEM_SIZE :: nat where "MEM_SIZE = 65536"

definition MEM_META_SIZE :: nat where "MEM_META_SIZE = 2"

record shm =
  is_readable :: bool
  is_writable :: bool
  area :: "byte list"

text \<open>The steps of one portion: wait for the flag, copy, lower the own flag, raise the other one.\<close>

datatype shm_step = Await | Move | Lower | Raise

datatype shm_pc =
    Writing shm_step "byte list" "byte list list"
  | Written
  | Reading shm_step nat "byte list" "byte list list"
  | Received "byte list list"

definition next_write :: "byte list list \<Rightarrow> shm_pc" where
  "next_write ms = (case ms of [] \<Rightarrow> Written | m # ms \<Rightarrow> Writing Await m ms)"

definition next_read :: "(byte list list \<Rightarrow> nat option) \<Rightarrow> byte list list \<Rightarrow> shm_pc" where
  "next_read expect msgs = (case expect msgs of None \<Rightarrow> Received msgs | Some n \<Rightarrow> Reading Await n [] msgs)"

text \<open>\<open>Writing st src rest\<close>: in the loop, with \<open>src\<close> still to be copied and the messages \<open>rest\<close> to follow.\<close>

definition write_to_shared_mem :: "nat \<Rightarrow> shm \<Rightarrow> shm_pc \<Rightarrow> (shm \<times> shm_pc) list" where
  "write_to_shared_mem cap g l = (case l of
       Writing Await src rest \<Rightarrow> [(g, if is_writable g then Writing Move src rest else l)]
     | Writing Move src rest \<Rightarrow> let to_copy = (if cap > length src then length src else cap) in
         [(g\<lparr>area := blit (area g) 0 (take to_copy src)\<rparr>, Writing Lower (drop to_copy src) rest)]
     | Writing Lower src rest \<Rightarrow> [(g\<lparr>is_writable := False\<rparr>, Writing Raise src rest)]
     | Writing Raise src rest \<Rightarrow>
         [(g\<lparr>is_readable := True\<rparr>, if src = [] then next_write rest else Writing Await src rest)]
     | _ \<Rightarrow> [])"

text \<open>\<open>Reading st n got msgs\<close>: in the loop, with \<open>n\<close> bytes to come behind \<open>got\<close>.\<close>

definition read_from_shared_mem ::
  "nat \<Rightarrow> (byte list list \<Rightarrow> nat option) \<Rightarrow> shm \<Rightarrow> shm_pc \<Rightarrow> (shm \<times> shm_pc) list" where
  "read_from_shared_mem cap expect g l = (case l of
       Reading Await n got msgs \<Rightarrow> [(g, if is_readable g then Reading Move n got msgs else l)]
     | Reading Move n got msgs \<Rightarrow> let to_copy = (if cap > n then n else cap) in
         [(g, Reading Lower (n - to_copy) (got @ take to_copy (area g)) msgs)]
     | Reading Lower n got msgs \<Rightarrow> [(g\<lparr>is_readable := False\<rparr>, Reading Raise n got msgs)]
     | Reading Raise n got msgs \<Rightarrow>
         [(g\<lparr>is_writable := True\<rparr>, if n = 0 then next_read expect (msgs @ [got]) else Reading Await n got msgs)]
     | _ \<Rightarrow> [])"

definition shm_prog :: "nat \<Rightarrow> (byte list list \<Rightarrow> nat option) \<Rightarrow> (shm, shm_pc) prog" where
  "shm_prog cap expect i g l = (if i = 0 then write_to_shared_mem cap g l else read_from_shared_mem cap expect g l)"

definition shm_start :: "nat \<Rightarrow> (byte list list \<Rightarrow> nat option) \<Rightarrow> byte list list \<Rightarrow> (shm, shm_pc) sys" where
  "shm_start cap expect ms = (\<lparr>is_readable = False, is_writable = True, area = replicate cap 0\<rparr>,
     \<lambda>i. if i = 0 then next_write ms else next_read expect [])"

text \<open>The messages of \<^verbatim>\<open>sorter\<close>, and how \<^verbatim>\<open>main\<close> reads them.\<close>

definition mem_messages :: "int list \<Rightarrow> byte list list" where
  "mem_messages a = [bytes_of 4 (int (length a)), concat (map (bytes_of 4) a)]"

definition mem_expect :: "byte list list \<Rightarrow> nat option" where
  "mem_expect msgs = (case msgs of [] \<Rightarrow> Some 4 | [h] \<Rightarrow> Some (nat (wrap_int (int_of_bytes h * 4))) | _ \<Rightarrow> None)"

definition mem_worker :: "byte list list \<Rightarrow> worker" where
  "mem_worker msgs = \<lparr>w_array = ints_of (length (msgs ! 1) div 4) (msgs ! 1), w_size = int_of_bytes (msgs ! 0)\<rparr>"

definition mem_transfer :: "int list \<Rightarrow> byte list list \<Rightarrow> bool" where
  "mem_transfer a msgs \<longleftrightarrow> (\<exists>g ls. reach (shm_prog (MEM_SIZE - MEM_META_SIZE) mem_expect) 2
     (shm_start (MEM_SIZE - MEM_META_SIZE) mem_expect (mem_messages a)) (g, ls) \<and> ls 1 = Received msgs)"

section \<open>The two sides stay in step\<close>

definition expects :: "(byte list list \<Rightarrow> nat option) \<Rightarrow> byte list list \<Rightarrow> bool" where
  "expects expect ms \<longleftrightarrow> (\<forall>k < length ms. expect (take k ms) = Some (length (ms ! k))) \<and> expect ms = None"

definition after_portion :: "byte list \<Rightarrow> byte list list \<Rightarrow> shm_pc" where
  "after_portion src rest = (if src = [] then next_write rest else Writing Await src rest)"

definition holds_portion :: "nat \<Rightarrow> shm \<Rightarrow> byte list \<Rightarrow> bool" where
  "holds_portion cap g m \<longleftrightarrow> take (length (take cap m)) (area g) = take cap m"

inductive handover :: "nat \<Rightarrow> byte list list \<Rightarrow> shm \<Rightarrow> shm_pc \<Rightarrow> shm_pc \<Rightarrow> bool"
  for cap :: nat and ms :: "byte list list" where
  writers_turn: "ms = msgs @ (got @ m) # rest \<Longrightarrow> is_writable g \<Longrightarrow> \<not> is_readable g \<Longrightarrow> st \<in> {Await, Move} \<Longrightarrow>
    handover cap ms g (Writing st m rest) (Reading Await (length m) got msgs)"
| copied: "ms = msgs @ (got @ m) # rest \<Longrightarrow> is_writable g \<Longrightarrow> \<not> is_readable g \<Longrightarrow> holds_portion cap g m \<Longrightarrow>
    handover cap ms g (Writing Lower (drop cap m) rest) (Reading Await (length m) got msgs)"
| lowered: "ms = msgs @ (got @ m) # rest \<Longrightarrow> \<not> is_writable g \<Longrightarrow> \<not> is_readable g \<Longrightarrow> holds_portion cap g m \<Longrightarrow>
    handover cap ms g (Writing Raise (drop cap m) rest) (Reading Await (length m) got msgs)"
| readers_turn: "ms = msgs @ (got @ m) # rest \<Longrightarrow> \<not> is_writable g \<Longrightarrow> is_readable g \<Longrightarrow> holds_portion cap g m \<Longrightarrow>
    st \<in> {Await, Move} \<Longrightarrow> handover cap ms g (after_portion (drop cap m) rest) (Reading st (length m) got msgs)"
| taken: "ms = msgs @ (got @ m) # rest \<Longrightarrow> \<not> is_writable g \<Longrightarrow> is_readable g \<Longrightarrow>
    handover cap ms g (after_portion (drop cap m) rest) (Reading Lower (length m - cap) (got @ take cap m) msgs)"
| emptied: "ms = msgs @ (got @ m) # rest \<Longrightarrow> \<not> is_writable g \<Longrightarrow> \<not> is_readable g \<Longrightarrow>
    handover cap ms g (after_portion (drop cap m) rest) (Reading Raise (length m - cap) (got @ take cap m) msgs)"
| complete: "is_writable g \<Longrightarrow> \<not> is_readable g \<Longrightarrow> handover cap ms g Written (Received ms)"

lemma next_turn:
  assumes "expects expect ms" and "ms = msgs @ rest" and "is_writable g" and "\<not> is_readable g"
  shows "handover cap ms g (next_write rest) (next_read expect msgs)"
proof (cases rest)
  case Nil
  with assms show ?thesis by (auto simp: expects_def next_write_def next_read_def intro: handover.complete)
next
  case (Cons m rest')
  then have "ms ! length msgs = m" "take (length msgs) ms = msgs" "length msgs < length ms" using assms(2) by simp_all
  then have "expect msgs = Some (length m)" using assms(1) by (metis expects_def)
  then show ?thesis
    using handover.writers_turn[of ms msgs "[]" m rest' g Await cap] assms Cons
    by (simp add: next_write_def next_read_def)
qed

lemma start_handover:
  "expects expect ms \<Longrightarrow>
    handover cap ms (fst (shm_start cap expect ms)) (snd (shm_start cap expect ms) 0) (snd (shm_start cap expect ms) 1)"
  by (simp add: shm_start_def next_turn)

lemma portion_copied: "holds_portion cap (g\<lparr>area := blit a 0 (take cap m)\<rparr>) m"
  by (cases "length m \<le> cap") (simp_all add: holds_portion_def blit_def)

lemma cut_portion:
  "take (if cap > length m then length m else cap) m = take cap m"
  "drop (if cap > length m then length m else cap) m = drop cap m"
  "length m - (if cap > length m then length m else cap) = length m - cap"
  by auto

lemma portion_read: "holds_portion cap g m \<Longrightarrow> take (if cap > length m then length m else cap) (area g) = take cap m"
  by (auto simp: holds_portion_def min_def split: if_splits)

lemma write_step:
  assumes "handover cap ms g w r" and "(g', w') \<in> set (write_to_shared_mem cap g w)"
  shows "handover cap ms g' w' r"
  using assms(1)
proof cases
  case (writers_turn msgs got m rest st)
  show ?thesis
  proof (cases st)
    case Await
    with writers_turn assms(2) show ?thesis
      by (auto simp: write_to_shared_mem_def intro: handover.writers_turn)
  next
    case Move
    with writers_turn assms(2) have "g' = g\<lparr>area := blit (area g) 0 (take cap m)\<rparr>" "w' = Writing Lower (drop cap m) rest"
      by (simp_all add: write_to_shared_mem_def Let_def cut_portion)
    with writers_turn portion_copied show ?thesis by (auto intro: handover.copied)
  qed (use writers_turn in auto)
next
  case (copied msgs got m rest)
  with assms(2) have "g' = g\<lparr>is_writable := False\<rparr>" "w' = Writing Raise (drop cap m) rest"
    by (simp_all add: write_to_shared_mem_def)
  with copied show ?thesis by (auto simp: holds_portion_def intro: handover.lowered)
next
  case (lowered msgs got m rest)
  with assms(2) have "g' = g\<lparr>is_readable := True\<rparr>" "w' = after_portion (drop cap m) rest"
    by (simp_all add: write_to_shared_mem_def after_portion_def)
  with lowered show ?thesis by (auto simp: holds_portion_def intro: handover.readers_turn)
next
  case (complete)
  with assms(2) show ?thesis by (simp add: write_to_shared_mem_def)
qed (use assms in \<open>auto simp: write_to_shared_mem_def after_portion_def next_write_def split: if_splits list.splits\<close>)

lemma read_step:
  assumes "handover cap ms g w r" and "expects expect ms" and "(g', r') \<in> set (read_from_shared_mem cap expect g r)"
  shows "handover cap ms g' w r'"
  using assms(1)
proof cases
  case (readers_turn msgs got m rest st)
  show ?thesis
  proof (cases st)
    case Await
    with readers_turn assms(3) show ?thesis
      by (auto simp: read_from_shared_mem_def intro: handover.readers_turn)
  next
    case Move
    with readers_turn assms(3) have "g' = g" "r' = Reading Lower (length m - cap) (got @ take cap m) msgs"
      by (simp_all add: read_from_shared_mem_def Let_def cut_portion portion_read)
    with readers_turn show ?thesis by (auto intro: handover.taken)
  qed (use readers_turn in auto)
next
  case (taken msgs got m rest)
  with assms(3) show ?thesis by (auto simp: read_from_shared_mem_def intro: handover.emptied)
next
  case (emptied msgs got m rest)
  with assms(3) have g': "g' = g\<lparr>is_writable := True\<rparr>" and r': "r' = (if length m - cap = 0
      then next_read expect (msgs @ [got @ take cap m]) else Reading Await (length m - cap) (got @ take cap m) msgs)"
    by (simp_all add: read_from_shared_mem_def)
  show ?thesis
  proof (cases "length m \<le> cap")
    case True
    with emptied g' r' assms(2) show ?thesis
      by (simp add: after_portion_def) (rule next_turn, auto)
  next
    case False
    with emptied g' r' handover.writers_turn[of ms msgs "got @ take cap m" "drop cap m" rest g' Await cap]
    show ?thesis by (simp add: after_portion_def)
  qed
qed (use assms in \<open>auto simp: read_from_shared_mem_def split: if_splits intro: handover.intros\<close>)

interpretation sh: invariant "shm_prog cap expect" 2 "shm_start cap expect ms"
  "\<lambda>g ls. expects expect ms \<longrightarrow> handover cap ms g (ls 0) (ls 1)" for cap expect ms
proof
  show "expects expect ms \<longrightarrow>
      handover cap ms (fst (shm_start cap expect ms)) (snd (shm_start cap expect ms) 0) (snd (shm_start cap expect ms) 1)"
    using start_handover by blast
  fix g ls i g' l'
  assume h: "expects expect ms \<longrightarrow> handover cap ms g (ls 0) (ls 1)" and i: "i < (2 :: nat)"
    and s: "(g', l') \<in> set (shm_prog cap expect i g (ls i))"
  from i consider "i = 0" | "i = 1" by linarith
  then show "expects expect ms \<longrightarrow> handover cap ms g' ((ls(i := l')) 0) ((ls(i := l')) 1)"
    using s h write_step[of cap ms g "ls 0" "ls 1"] read_step[of cap ms g "ls 0" "ls 1" expect]
    by cases (simp_all add: shm_prog_def)
qed

lemma reach_handover:
  "expects expect ms \<Longrightarrow> reach (shm_prog cap expect) 2 (shm_start cap expect ms) (g, ls) \<Longrightarrow> handover cap ms g (ls 0) (ls 1)"
  using sh.reach_inv by blast

section \<open>The transfer can always be completed\<close>

text \<open>\<open>shm_turn\<close> runs the side that does not wait for its flag; \<open>shm_left\<close> is what both have left to do.\<close>

definition writer_ready :: "shm \<Rightarrow> shm_pc \<Rightarrow> bool" where
  "writer_ready g w \<longleftrightarrow> (case w of Writing st _ _ \<Rightarrow> st \<noteq> Await \<or> is_writable g | _ \<Rightarrow> False)"

definition shm_turn :: "nat \<Rightarrow> (byte list list \<Rightarrow> nat option) \<Rightarrow> (shm, shm_pc) sys \<Rightarrow> (shm, shm_pc) sys" where
  "shm_turn cap expect s = (case s of (g, ls) \<Rightarrow> let i = (if writer_ready g (ls 0) then 0 else 1) in
     case shm_prog cap expect i g (ls i) of [] \<Rightarrow> s | (g', l') # _ \<Rightarrow> (g', ls(i := l')))"

definition shm_done :: "(shm, shm_pc) sys \<Rightarrow> bool" where
  "shm_done s \<longleftrightarrow> snd s 0 = Written \<and> (case snd s 1 of Received _ \<Rightarrow> True | _ \<Rightarrow> False)"

definition units :: "byte list list \<Rightarrow> nat" where
  "units ms = sum_list (map (\<lambda>m. 4 * (length m + 1)) ms)"

definition portion_left :: "shm_step \<Rightarrow> nat \<Rightarrow> nat" where
  "portion_left st n = (case st of Await \<Rightarrow> 4 * (n + 1) + 3 | Move \<Rightarrow> 4 * (n + 1) + 2
     | Lower \<Rightarrow> 5 + (if n = 0 then 0 else 4 * (n + 1)) | Raise \<Rightarrow> 4 + (if n = 0 then 0 else 4 * (n + 1)))"

definition side_left :: "byte list list \<Rightarrow> shm_pc \<Rightarrow> nat" where
  "side_left ms l = (case l of Writing st src rest \<Rightarrow> portion_left st (length src) + units rest
     | Reading st n _ msgs \<Rightarrow> portion_left st n + units (drop (Suc (length msgs)) ms) | _ \<Rightarrow> 0)"

definition shm_left :: "byte list list \<Rightarrow> (shm, shm_pc) sys \<Rightarrow> nat" where
  "shm_left ms s = side_left ms (snd s 0) + side_left ms (snd s 1)"

lemma side_left_next:
  "side_left ms (next_write rest) \<le> 3 + units rest"
  "expects expect ms \<Longrightarrow> ms = msgs @ rest \<Longrightarrow> side_left ms (next_read expect msgs) \<le> 3 + units rest"
proof -
  show "side_left ms (next_write rest) \<le> 3 + units rest"
    by (cases rest) (simp_all add: next_write_def side_left_def portion_left_def units_def)
  assume e: "expects expect ms" and ms: "ms = msgs @ rest"
  show "side_left ms (next_read expect msgs) \<le> 3 + units rest"
  proof (cases rest)
    case Nil
    with e ms show ?thesis by (simp add: expects_def next_read_def side_left_def)
  next
    case (Cons m rest')
    then have "ms ! length msgs = m" "take (length msgs) ms = msgs" "length msgs < length ms" using ms by simp_all
    then have "expect msgs = Some (length m)" using e by (metis expects_def)
    with Cons ms show ?thesis by (simp add: next_read_def side_left_def portion_left_def units_def)
  qed
qed

lemma shm_turn_step:
  assumes h: "handover cap ms g (ls 0) (ls 1)" and e: "expects expect ms" and cap: "0 < cap" and nd: "\<not> shm_done (g, ls)"
  shows "\<exists>i < 2. \<exists>g' l'. (g', l') \<in> set (shm_prog cap expect i g (ls i)) \<and> shm_turn cap expect (g, ls) = (g', ls(i := l')) \<and>
    side_left ms l' < side_left ms (ls i)"
proof -
  have writer: ?thesis if "writer_ready g (ls 0)" "write_to_shared_mem cap g (ls 0) = [(g', w')]" "side_left ms w' < side_left ms (ls 0)"
    for g' w'
    using that by (intro exI[of _ 0]) (simp add: shm_turn_def shm_prog_def)
  have reader: ?thesis if "\<not> writer_ready g (ls 0)" "read_from_shared_mem cap expect g (ls 1) = [(g', w')]" "side_left ms w' < side_left ms (ls 1)"
    for g' w'
    using that by (intro exI[of _ 1]) (simp add: shm_turn_def shm_prog_def)
  show ?thesis
    using h
  proof cases
    case (writers_turn msgs got m rest st)
    then have "writer_ready g (ls 0)" by (simp add: writer_ready_def)
    note writer = writer[OF this]
    show ?thesis
    proof (cases st)
      case Await
      with writers_turn show ?thesis
        by (intro writer[of g "Writing Move m rest"]) (simp_all add: write_to_shared_mem_def side_left_def portion_left_def)
    next
      case Move
      with writers_turn cap show ?thesis
        by (intro writer[of "g\<lparr>area := blit (area g) 0 (take cap m)\<rparr>" "Writing Lower (drop cap m) rest"])
          (auto simp: write_to_shared_mem_def Let_def cut_portion side_left_def portion_left_def)
    qed (use writers_turn in auto)
  next
    case (copied msgs got m rest)
    then show ?thesis
      by (intro writer[of "g\<lparr>is_writable := False\<rparr>" "Writing Raise (drop cap m) rest"])
        (auto simp: writer_ready_def write_to_shared_mem_def side_left_def portion_left_def)
  next
    case (lowered msgs got m rest)
    with side_left_next(1)[of ms rest] show ?thesis
      by (intro writer[of "g\<lparr>is_readable := True\<rparr>" "after_portion (drop cap m) rest"])
        (auto simp: writer_ready_def write_to_shared_mem_def after_portion_def side_left_def portion_left_def)
  next
    case (readers_turn msgs got m rest st)
    then have "\<not> writer_ready g (ls 0)"
      by (auto simp: writer_ready_def after_portion_def next_write_def split: list.splits)
    note reader = reader[OF this]
    show ?thesis
    proof (cases st)
      case Await
      with readers_turn show ?thesis
        by (intro reader[of g "Reading Move (length m) got msgs"])
          (simp_all add: read_from_shared_mem_def side_left_def portion_left_def)
    next
      case Move
      with readers_turn cap show ?thesis
        by (intro reader[of g "Reading Lower (length m - cap) (got @ take cap m) msgs"])
          (auto simp: read_from_shared_mem_def Let_def cut_portion portion_read side_left_def portion_left_def)
    qed (use readers_turn in auto)
  next
    case (taken msgs got m rest)
    then have "\<not> writer_ready g (ls 0)"
      by (auto simp: writer_ready_def after_portion_def next_write_def split: list.splits)
    with taken show ?thesis
      by (intro reader[of "g\<lparr>is_readable := False\<rparr>" "Reading Raise (length m - cap) (got @ take cap m) msgs"])
        (auto simp: read_from_shared_mem_def side_left_def portion_left_def)
  next
    case (emptied msgs got m rest)
    then have nr: "\<not> writer_ready g (ls 0)"
      by (auto simp: writer_ready_def after_portion_def next_write_def split: list.splits)
    let ?next = "if length m - cap = 0 then next_read expect (msgs @ [got @ take cap m])
      else Reading Await (length m - cap) (got @ take cap m) msgs"
    have "side_left ms (next_read expect (msgs @ [got @ take cap m])) \<le> 3 + units rest" if "length m \<le> cap"
      by (rule side_left_next(2)[OF e]) (use emptied that in auto)
    with emptied nr show ?thesis
      by (intro reader[of "g\<lparr>is_writable := True\<rparr>" ?next])
        (auto simp: read_from_shared_mem_def side_left_def portion_left_def)
  next
    case complete
    with nd show ?thesis by (simp add: shm_done_def)
  qed
qed

lemma turn_ok:
  assumes h: "handover cap ms (fst s) (snd s 0) (snd s 1)" and e: "expects expect ms" and cap: "0 < cap" and nd: "\<not> shm_done s"
  shows "handover cap ms (fst (shm_turn cap expect s)) (snd (shm_turn cap expect s) 0) (snd (shm_turn cap expect s) 1) \<and>
    shm_left ms (shm_turn cap expect s) < shm_left ms s"
proof -
  obtain g ls where s: "s = (g, ls)" by force
  with h nd have h: "handover cap ms g (ls 0) (ls 1)" and nd: "\<not> shm_done (g, ls)" by simp_all
  obtain i g' l' where i: "i < 2" and l': "(g', l') \<in> set (shm_prog cap expect i g (ls i))"
    and t: "shm_turn cap expect (g, ls) = (g', ls(i := l'))" and less: "side_left ms l' < side_left ms (ls i)"
    using shm_turn_step[OF h e cap nd] by blast
  from i consider "i = 0" | "i = 1" by linarith
  then have "handover cap ms g' ((ls(i := l')) 0) ((ls(i := l')) 1)"
    using l' write_step[OF h] read_step[OF h e] by cases (simp_all add: shm_prog_def)
  moreover have "shm_left ms (g', ls(i := l')) < shm_left ms (g, ls)"
    using i less by (auto simp: shm_left_def less_2_cases_iff)
  ultimately show ?thesis by (simp add: s t)
qed

interpretation ht: countdown "shm_turn cap expect" "\<lambda>s. \<not> shm_done s" "shm_left ms"
  "\<lambda>s. 0 < cap \<and> expects expect ms \<and> handover cap ms (fst s) (snd s 0) (snd s 1)" for cap expect ms
  by unfold_locales (use turn_ok[of cap ms _ expect] in \<open>auto simp: Suc_le_eq\<close>)

lemma turn_reach:
  "reach (shm_prog cap expect) 2 s0 s \<Longrightarrow> reach (shm_prog cap expect) 2 s0 ((shm_turn cap expect ^^ k) s)"
proof (induction k)
  case (Suc k)
  obtain g ls where s: "(shm_turn cap expect ^^ k) s = (g, ls)" by force
  have "reach (shm_prog cap expect) 2 s0 (g, ls)" using Suc s by simp
  then have "reach (shm_prog cap expect) 2 s0 (shm_turn cap expect (g, ls))"
    by (auto simp: shm_turn_def Let_def split: list.splits if_splits intro!: reach.step)
  then show ?case by (simp add: s)
qed simp

lemma done_received:
  assumes "handover cap ms (fst s) (snd s 0) (snd s 1)" and "shm_done s"
  shows "snd s 1 = Received ms"
  using assms by cases (auto simp: shm_done_def)

lemma received_all: "handover cap ms g w r \<Longrightarrow> r = Received msgs \<Longrightarrow> msgs = ms"
  by (auto elim: handover.cases)

lemma shm_can_finish:
  assumes "0 < cap" and "expects expect ms" and "reach (shm_prog cap expect) 2 (shm_start cap expect ms) s"
  shows "\<exists>k g' ls'. (shm_turn cap expect ^^ k) s = (g', ls') \<and>
    reach (shm_prog cap expect) 2 (shm_start cap expect ms) (g', ls') \<and> ls' 0 = Written \<and> ls' 1 = Received ms"
proof -
  have h: "handover cap ms (fst s) (snd s 0) (snd s 1)"
    using reach_handover[OF assms(2), of cap "fst s" "snd s"] assms(3) by simp
  obtain k where k: "shm_done ((shm_turn cap expect ^^ k) s)"
      "handover cap ms (fst ((shm_turn cap expect ^^ k) s)) (snd ((shm_turn cap expect ^^ k) s) 0)
         (snd ((shm_turn cap expect ^^ k) s) 1)"
    using ht.ends[of cap expect ms s] assms h by auto
  moreover obtain g' ls' where "(shm_turn cap expect ^^ k) s = (g', ls')" by force
  ultimately show ?thesis
    using turn_reach[OF assms(3), of k] done_received[OF k(2,1)] by (auto simp: shm_done_def)
qed

lemma mem_expects:
  assumes "length a < 2 ^ 29"
  shows "expects mem_expect (mem_messages a)"
proof -
  have "int_of_bytes (bytes_of 4 (int (length a))) = int (length a)"
    using assms by (intro int_of_bytes_of) (simp_all add: fits_bytes_def)
  moreover have "wrap_int (int (length a) * 4) = int (length a) * 4"
    using assms by (intro wrap_int_id) (simp add: fits_int_def int_min_def int_max_def)
  ultimately show ?thesis
    by (auto simp: expects_def mem_messages_def mem_expect_def less_2_cases_iff numeral_2_eq_2 less_Suc_eq)
qed

lemma mem_worker_messages:
  assumes "length a < 2 ^ 29" and "\<forall>x \<in> set a. fits_int x"
  shows "mem_worker (mem_messages a) = \<lparr>w_array = a, w_size = int (length a)\<rparr>"
  using assms ints_of_bytes[OF assms(2)]
  by (simp add: mem_worker_def mem_messages_def int_of_bytes_of fits_bytes_def)

section \<open>Properties\<close>

text \<open>C31: in every interleaving of the two processes the reader receives exactly the messages of the
  writer, whatever their sizes and the size of the shared area, and from every reachable state
  the transfer can be completed.\<close>

theorem shared_mem_delivers:
  assumes "0 < cap" and "expects expect ms" and "reach (shm_prog cap expect) 2 (shm_start cap expect ms) (g, ls)"
  shows "(\<nexists>msgs. ls 1 = Received msgs \<and> msgs \<noteq> ms) \<and>
    (\<exists>k g' ls'. (shm_turn cap expect ^^ k) (g, ls) = (g', ls') \<and>
       reach (shm_prog cap expect) 2 (shm_start cap expect ms) (g', ls') \<and> ls' 0 = Written \<and> ls' 1 = Received ms)"
proof -
  have h: "handover cap ms g (ls 0) (ls 1)" by (rule reach_handover[OF assms(2,3)])
  then have "\<nexists>msgs. ls 1 = Received msgs \<and> msgs \<noteq> ms" using received_all by blast
  with shm_can_finish[OF assms] show ?thesis by blast
qed

theorem shared_mem_delivers_witness:
  "\<exists>g ls. reach (shm_prog 3 mem_expect) 2 (shm_start 3 mem_expect (mem_messages [7, - 1])) (g, ls) \<and>
     ls 1 = Received [[2, 0, 0, 0], [7, 0, 0, 0, 255, 255, 255, 255]]"
proof -
  have m: "mem_messages [7, - 1] = [[2, 0, 0, 0], [7, 0, 0, 0, 255, 255, 255, 255]]" by code_simp
  have "expects mem_expect (mem_messages [7, - 1])" by (rule mem_expects) simp
  note e = this
  obtain g0 ls0 where s: "shm_start 3 mem_expect (mem_messages [7, - 1]) = (g0, ls0)" by force
  have "reach (shm_prog 3 mem_expect) 2 (shm_start 3 mem_expect (mem_messages [7, - 1])) (g0, ls0)"
    using reach.start[of "shm_prog 3 mem_expect" 2 "(g0, ls0)"] by (simp only: s)
  with shared_mem_delivers[OF _ e this] show ?thesis unfolding m by force
qed

text \<open>C32: the program gathers the same total array as the one with a single process, whatever the
  interleavings of the children with the parent.\<close>

theorem mem_sort_equals_simple:
  assumes "\<forall>t \<in> set files. length (scan_all t) < 2 ^ 29"
    and "list_all2 (\<lambda>t msgs. \<exists>a. sorter t = ret a \<and> mem_transfer a msgs) files received"
  shows "join_arrays (map mem_worker received) = simple_sort files"
proof -
  have "map mem_worker received = map (\<lambda>t. \<lparr>w_array = qsort cmp (scan_all t), w_size = int (length (scan_all t))\<rparr>) files"
    using assms(2,1)
  proof (induction rule: list_all2_induct)
    case (Cons t ts msgs received)
    let ?a = "qsort cmp (scan_all t)"
    have len: "length ?a < 2 ^ 29" and fit: "\<forall>x \<in> set ?a. fits_int x" using Cons.prems scan_all_fits by auto
    have "mem_transfer ?a msgs" using Cons.hyps(1) by (simp add: sorter_eq)
    then have "msgs = mem_messages ?a"
      using reach_handover[OF mem_expects[OF len]] received_all by (fastforce simp: mem_transfer_def)
    with mem_worker_messages[OF len fit] Cons show ?case by simp
  qed simp
  then show ?thesis by (simp add: simple_sort_def sort_each_eq)
qed

theorem mem_sort_equals_simple_witness:
  "\<exists>received. length received = 1 \<and> join_arrays (map mem_worker received) = simple_sort [''3 -1 2'']"
proof -
  let ?a = "qsort cmp [3, - 1, 2]" and ?cap = "MEM_SIZE - MEM_META_SIZE"
  have t: "scan_all ''3 -1 2'' = [3, - 1, 2]" by code_simp
  have "expects mem_expect (mem_messages ?a)" by (rule mem_expects) simp
  from shm_can_finish[OF _ this reach.start, of ?cap] have "mem_transfer ?a (mem_messages ?a)"
    by (auto simp: mem_transfer_def MEM_SIZE_def MEM_META_SIZE_def)
  then have "join_arrays (map mem_worker [mem_messages ?a]) = simple_sort [''3 -1 2'']"
    by (intro mem_sort_equals_simple) (simp_all add: sorter_eq t)
  then show ?thesis by (intro exI[of _ "[mem_messages ?a]"]) simp
qed

end
