(* ===== verification/Servers.thy ===== *)
theory Servers
  imports Presort
begin

text \<open>
  The servers \<^verbatim>\<open>lecture_examples/9_aio/4_server_select.c\<close> and \<^verbatim>\<open>5_server_poll.c\<close>, which read a number
  from a client and send back its successor. What the system answers to the calls of one turn of
  the main loop is a \<open>turn\<close>: the result of \<^verbatim>\<open>select\<close> or \<^verbatim>\<open>poll\<close> with the ready descriptors, the result
  of \<^verbatim>\<open>accept\<close>, and for each socket the results of \<^verbatim>\<open>read\<close> (with the number read) and \<^verbatim>\<open>write\<close>. What
  the servers print is kept as events; the one for a client that has gone names its descriptor,
  which the program does not print.
\<close>

section \<open>What the servers share\<close>

record turn =
  t_nfds :: int
  t_ready :: "int \<Rightarrow> bool"
  t_accept :: int
  t_read :: "int \<Rightarrow> int \<times> int"
  t_write :: "int \<Rightarrow> int"

datatype event =
    Timeout
  | Failed
  | New_Client
  | Interact int
  | Got int
  | Sent int
  | Disconnected int

definition interact :: "turn \<Rightarrow> int \<Rightarrow> int \<times> event list" where
  "interact T client_sock = (let (sz, buffer) = t_read T client_sock in
     if sz \<le> 0 then (sz, [])
     else let buffer' = wrap_int (buffer + 1); sz' = t_write T client_sock in
       (sz', Got buffer # (if sz' > 0 then [Sent buffer'] else [])))"

text \<open>\<^verbatim>\<open>remove_client\<close> copies what is before and what is behind the \<open>i\<close>-th entry into a new array.\<close>

definition remove_client :: "'a list \<Rightarrow> nat \<Rightarrow> 'a list" where
  "remove_client cl i = (let n = length cl - 1 in take i cl @ take (n - i) (drop (i + 1) cl))"

section \<open>The server with select\<close>

text \<open>An \<^verbatim>\<open>fd_set\<close> has room for the descriptors below 1024; \<^verbatim>\<open>FD_SET\<close> does not check that.\<close>

definition FD_SETSIZE :: int where "FD_SETSIZE = 1024"

fun fd_set_all :: "int list \<Rightarrow> int list \<Rightarrow> int \<Rightarrow> (int list \<times> int) run" where
  "fd_set_all [] S max_fd = ret (S, max_fd)"
| "fd_set_all (c # cs) S max_fd = (if c < 0 \<or> FD_SETSIZE \<le> c then fault Out_Of_Bounds
     else fd_set_all cs (S @ [c]) (if c > max_fd then c else max_fd))"

definition fill_fdset :: "int list \<Rightarrow> int \<Rightarrow> (int list \<times> int) run" where
  "fill_fdset cl server = (if server < 0 \<or> FD_SETSIZE \<le> server then fault Out_Of_Bounds
     else fd_set_all cl [server] server)"

text \<open>\<^verbatim>\<open>select\<close> leaves in the set those of its descriptors that are ready.\<close>

definition isset :: "turn \<Rightarrow> int list \<Rightarrow> int \<Rightarrow> bool" where
  "isset T S fd \<longleftrightarrow> fd \<in> set S \<and> t_ready T fd"

record select_server =
  clients :: "int list"
  opened :: "int list"
  events :: "event list"

text \<open>The loop over the clients.\<close>

function serve_clients :: "turn \<Rightarrow> int list \<Rightarrow> nat \<Rightarrow> int \<Rightarrow> select_server \<Rightarrow> select_server" where
  "serve_clients T S i nfds s =
     (if i < length (clients s) \<and> nfds > 0 then
        let c = clients s ! i in
        if \<not> isset T S c then serve_clients T S (i + 1) nfds s
        else
          let nfds = nfds - 1; (rc, out) = interact T c; s = s\<lparr>events := events s @ Interact c # out\<rparr> in
          if rc = - 1 then s\<lparr>events := events s @ [Failed]\<rparr>
          else if rc = 0 then serve_clients T S (i + 1) nfds
            (s\<lparr>events := events s @ [Disconnected c], clients := remove_client (clients s) i\<rparr>)
          else serve_clients T S (i + 1) nfds s
      else s)"
  by pat_completeness auto
termination
  by (relation "measure (\<lambda>(T, S, i, nfds, s). length (clients s) - i)") (auto simp: remove_client_def)

declare serve_clients.simps [simp del]

text \<open>One turn of the main loop; the flag says whether the loop goes on.\<close>

definition select_turn :: "int \<Rightarrow> turn \<Rightarrow> select_server \<Rightarrow> (bool \<times> select_server) run" where
  "select_turn server T s = bnd (fill_fdset (clients s) server) (\<lambda>(S, max_fd).
     if t_nfds T = 0 then ret (True, s\<lparr>events := events s @ [Timeout]\<rparr>)
     else if t_nfds T = - 1 then ret (False, s\<lparr>events := events s @ [Failed]\<rparr>)
     else if isset T S server then
       (if t_accept T = - 1 then ret (False, s\<lparr>events := events s @ [Failed]\<rparr>)
        else let s = s\<lparr>events := events s @ [New_Client], clients := clients s @ [t_accept T], opened := opened s @ [t_accept T]\<rparr>
          in ret (True, serve_clients T S 0 (t_nfds T - 1) s))
     else ret (True, serve_clients T S 0 (t_nfds T) s))"

text \<open>The main loop over the turns, then the closing of the sockets.\<close>

definition select_end :: "int \<Rightarrow> select_server \<Rightarrow> select_server" where
  "select_end server s = s\<lparr>opened := fold remove1 (clients s) (remove1 server (opened s))\<rparr>"

fun select_main :: "int \<Rightarrow> turn list \<Rightarrow> select_server \<Rightarrow> (bool \<times> select_server) run" where
  "select_main server [] s = ret (True, s)"
| "select_main server (T # Ts) s = bnd (select_turn server T s) (\<lambda>(on, s).
     if on then select_main server Ts s else ret (False, select_end server s))"

definition select_start :: "int \<Rightarrow> select_server" where
  "select_start server = \<lparr>clients = [], opened = [server], events = []\<rparr>"

section \<open>The server with poll\<close>

record pollfd =
  fd :: int
  revents :: bool

record poll_server =
  fds :: "pollfd list"
  poll_events :: "event list"

definition poll_results :: "turn \<Rightarrow> pollfd list \<Rightarrow> pollfd list" where
  "poll_results T ps = map (\<lambda>p. p\<lparr>revents := t_ready T (fd p)\<rparr>) ps"

function serve_fds :: "turn \<Rightarrow> nat \<Rightarrow> int \<Rightarrow> poll_server \<Rightarrow> poll_server" where
  "serve_fds T i nfds s =
     (if i < length (fds s) \<and> nfds > 0 then
        let p = fds s ! i in
        if \<not> revents p then serve_fds T (i + 1) nfds s
        else
          let nfds = nfds - 1; (rc, out) = interact T (fd p); s = s\<lparr>poll_events := poll_events s @ Interact (fd p) # out\<rparr> in
          if rc = - 1 then s\<lparr>poll_events := poll_events s @ [Failed]\<rparr>
          else if rc = 0 then serve_fds T (i + 1) nfds
            (s\<lparr>poll_events := poll_events s @ [Disconnected (fd p)], fds := remove_client (fds s) i\<rparr>)
          else serve_fds T (i + 1) nfds s
      else s)"
  by pat_completeness auto
termination
  by (relation "measure (\<lambda>(T, i, nfds, s). length (fds s) - i)") (auto simp: remove_client_def)

declare serve_fds.simps [simp del]

text \<open>The new entry comes out of \<^verbatim>\<open>realloc\<close>: nobody has set its \<^verbatim>\<open>revents\<close>, which hold \<open>garbage\<close>.\<close>

definition poll_turn :: "bool \<Rightarrow> turn \<Rightarrow> poll_server \<Rightarrow> bool \<times> poll_server" where
  "poll_turn garbage T s =
     (let s = s\<lparr>fds := poll_results T (fds s)\<rparr> in
      if t_nfds T = 0 then (True, s\<lparr>poll_events := poll_events s @ [Timeout]\<rparr>)
      else if t_nfds T = - 1 then (False, s\<lparr>poll_events := poll_events s @ [Failed]\<rparr>)
      else if revents (hd (fds s)) then
        (if t_accept T = - 1 then (False, s\<lparr>poll_events := poll_events s @ [Failed]\<rparr>)
         else let s = s\<lparr>poll_events := poll_events s @ [New_Client], fds := fds s @ [\<lparr>fd = t_accept T, revents = garbage\<rparr>]\<rparr>
           in (True, serve_fds T 0 (t_nfds T - 1) s))
      else (True, serve_fds T 0 (t_nfds T) s))"

definition poll_start :: "int \<Rightarrow> poll_server" where
  "poll_start server = \<lparr>fds = [\<lparr>fd = server, revents = False\<rparr>], poll_events = []\<rparr>"

section \<open>The server with epoll\<close>

text \<open>
  \<^verbatim>\<open>7_server_epoll.c\<close>: one ready descriptor \<open>fd\<close> at a time, and the result \<open>ctl\<close> of adding a new client to
  the watched descriptors. Closing a descriptor also ends its watch.
\<close>

record epoll_server =
  watched :: "int list"
  ep_opened :: "int list"
  ep_events :: "event list"

definition epoll_turn :: "int \<Rightarrow> int \<Rightarrow> int \<Rightarrow> turn \<Rightarrow> epoll_server \<Rightarrow> bool \<times> epoll_server" where
  "epoll_turn server ready ctl T s =
     (if t_nfds T = 0 then (True, s\<lparr>ep_events := ep_events s @ [Timeout]\<rparr>)
      else if t_nfds T = - 1 then (False, s\<lparr>ep_events := ep_events s @ [Failed]\<rparr>)
      else if ready = server then
        (if t_accept T = - 1 then (False, s\<lparr>ep_events := ep_events s @ [Failed]\<rparr>)
         else let s = s\<lparr>ep_events := ep_events s @ [New_Client], ep_opened := ep_opened s @ [t_accept T]\<rparr>
           in if ctl = - 1 then (False, s\<lparr>ep_events := ep_events s @ [Failed]\<rparr>)
              else (True, s\<lparr>watched := watched s @ [t_accept T]\<rparr>))
      else let (rc, out) = interact T ready; s = s\<lparr>ep_events := ep_events s @ Interact ready # out\<rparr> in
        if rc = - 1 then (False, s\<lparr>ep_events := ep_events s @ [Failed]\<rparr>)
        else if rc = 0 then (True, s\<lparr>ep_events := ep_events s @ [Disconnected ready],
          ep_opened := remove1 ready (ep_opened s), watched := remove1 ready (watched s)\<rparr>)
        else (True, s))"

fun epoll_loop :: "int \<Rightarrow> (int \<times> int \<times> turn) list \<Rightarrow> epoll_server \<Rightarrow> bool \<times> epoll_server" where
  "epoll_loop server [] s = (True, s)"
| "epoll_loop server ((ready, ctl, T) # Ts) s = (let (on, s) = epoll_turn server ready ctl T s in
     if on then epoll_loop server Ts s else (False, s))"

definition epoll_start :: "int \<Rightarrow> epoll_server" where
  "epoll_start server = \<lparr>watched = [], ep_opened = [server], ep_events = []\<rparr>"

section \<open>A round over the clients\<close>

text \<open>
  The loop of the select server as a recursion over the clients not yet looked at: their entries after
  the round, and the events. Who stands behind a client that has gone is not looked at in this round.
\<close>

fun round :: "turn \<Rightarrow> int list \<Rightarrow> int \<Rightarrow> int list \<Rightarrow> int list \<times> event list" where
  "round T S n [] = ([], [])"
| "round T S n (c # cs) =
     (if n \<le> 0 then (c # cs, [])
      else if \<not> isset T S c then (let (r, e) = round T S n cs in (c # r, e))
      else let (rc, out) = interact T c in
        if rc = - 1 then (c # cs, Interact c # out @ [Failed])
        else if rc = 0 then (case cs of [] \<Rightarrow> ([], Interact c # out @ [Disconnected c])
          | d # ds \<Rightarrow> let (r, e) = round T S (n - 1) ds in (d # r, Interact c # out @ Disconnected c # e))
        else let (r, e) = round T S (n - 1) cs in (c # r, Interact c # out @ e))"

lemma remove_client_at: "remove_client (xs @ c # cs) (length xs) = xs @ cs"
  by (simp add: remove_client_def)

lemma serve_clients_round:
  "clients s = xs @ cs \<Longrightarrow> serve_clients T S (length xs) n s =
     s\<lparr>clients := xs @ fst (round T S n cs), events := events s @ snd (round T S n cs)\<rparr>"
proof (induction T S n cs arbitrary: xs s rule: round.induct)
  case (1 T S n)
  then show ?case by (simp add: serve_clients.simps)
next
  case (2 T S n c cs)
  note here = "2.prems"
  let ?i = "length xs"
  obtain rc out where io: "interact T c = (rc, out)" by force
  have at: "clients s ! ?i = c" "?i < length (clients s)" using here by simp_all
  consider (stop) "n \<le> 0" | (idle) "n > 0" "\<not> isset T S c" | (err) "n > 0" "isset T S c" "rc = - 1"
    | (gone) "n > 0" "isset T S c" "rc = 0" | (served) "n > 0" "isset T S c" "rc \<noteq> - 1" "rc \<noteq> 0"
    by linarith
  then show ?case
  proof cases
    case stop
    with here show ?thesis by (simp add: serve_clients.simps[of T S ?i])
  next
    case idle
    with "2.IH"(1)[where xs = "xs @ [c]" and s = s] here at show ?thesis
      by (simp add: serve_clients.simps[of T S ?i] split: prod.split)
  next
    case err
    with here at io show ?thesis by (simp add: serve_clients.simps[of T S ?i])
  next
    case served
    let ?s = "s\<lparr>events := events s @ Interact c # out\<rparr>"
    have "serve_clients T S (length (xs @ [c])) (n - 1) ?s =
        ?s\<lparr>clients := (xs @ [c]) @ fst (round T S (n - 1) cs), events := events ?s @ snd (round T S (n - 1) cs)\<rparr>"
      by (rule "2.IH"(3)[OF _ _ io[symmetric] refl]) (use served here in simp_all)
    with served here at io show ?thesis
      by (simp add: serve_clients.simps[of T S ?i] split: prod.split)
  next
    case gone
    let ?s = "s\<lparr>events := (events s @ Interact c # out) @ [Disconnected c], clients := xs @ cs\<rparr>"
    have step: "serve_clients T S ?i n s = serve_clients T S (?i + 1) (n - 1) ?s"
      using gone here at io by (simp add: serve_clients.simps[of T S ?i n s] remove_client_at)
    show ?thesis
    proof (cases cs)
      case Nil
      with gone io step show ?thesis by (simp add: serve_clients.simps[of T S "Suc ?i"])
    next
      case (Cons d ds)
      have "serve_clients T S (length (xs @ [d])) (n - 1) ?s =
          ?s\<lparr>clients := (xs @ [d]) @ fst (round T S (n - 1) ds), events := events ?s @ snd (round T S (n - 1) ds)\<rparr>"
        by (rule "2.IH"(2)[OF _ _ io[symmetric] refl]) (use gone Cons in simp_all)
      with gone io step Cons show ?thesis by (simp split: prod.split)
    qed
  qed
qed

lemma round_serves:
  assumes "\<forall>c \<in> set cs. isset T S c \<longrightarrow> fst (interact T c) \<notin> {- 1, 0}"
    and "int (length (filter (isset T S) cs)) \<le> n"
  shows "round T S n cs = (cs, concat (map (\<lambda>c. Interact c # snd (interact T c)) (filter (isset T S) cs)))"
  using assms
proof (induction cs arbitrary: n)
  case (Cons c cs)
  show ?case
  proof (cases "isset T S c")
    case True
    with Cons.prems Cons.IH[of "n - 1"] show ?thesis by (cases "interact T c") simp
  next
    case False
    have "filter (isset T S) cs = []" if "n \<le> 0"
    proof -
      have "int (length (filter (isset T S) cs)) \<le> 0"
        by (rule order_trans[OF _ that]) (use False Cons.prems(2) in simp)
      then show ?thesis by simp
    qed
    from this False Cons.prems Cons.IH[of n] show ?thesis by (cases "n \<le> 0") simp_all
  qed
qed simp

section \<open>The descriptors of the select server\<close>

fun gone :: "event list \<Rightarrow> int list" where
  "gone [] = []"
| "gone (Disconnected c # es) = c # gone es"
| "gone (e # es) = gone es"

lemma gone_append [simp]: "gone (es @ es') = gone es @ gone es'"
  by (induction es rule: gone.induct) simp_all

lemma gone_interact [simp]: "interact T c = (rc, out) \<Longrightarrow> gone out = []"
  by (auto simp: interact_def Let_def split: prod.splits if_splits)

lemma round_mset: "mset cs = mset (fst (round T S n cs)) + mset (gone (snd (round T S n cs)))"
proof (induction T S n cs rule: round.induct)
  case (2 T S n c cs)
  obtain rc out where io: "interact T c = (rc, out)" by force
  consider (stop) "n \<le> 0" | (idle) "n > 0" "\<not> isset T S c" | (err) "n > 0" "isset T S c" "rc = - 1"
    | (gone) "n > 0" "isset T S c" "rc = 0" | (served) "n > 0" "isset T S c" "rc \<noteq> - 1" "rc \<noteq> 0"
    by linarith
  then show ?case
  proof cases
    case idle
    with "2.IH"(1) show ?thesis by (simp split: prod.split)
  next
    case gone
    with "2.IH"(2)[OF _ _ io[symmetric] refl] io show ?thesis by (cases cs) (simp_all split: prod.split)
  next
    case served
    with "2.IH"(3)[OF _ _ io[symmetric] refl] io show ?thesis by (simp split: prod.split)
  qed (use io in simp_all)
qed simp

definition accounted :: "int \<Rightarrow> select_server \<Rightarrow> bool" where
  "accounted server s \<longleftrightarrow> mset (opened s) = {#server#} + mset (clients s) + mset (gone (events s))"

lemma accounted_serve: "accounted server s \<Longrightarrow> accounted server (serve_clients T S 0 n s)"
  using serve_clients_round[of s "[]" "clients s" T S n] round_mset[of "clients s" T S n]
  by (simp add: accounted_def)

lemma accounted_turn: "accounted server s \<Longrightarrow> select_turn server T s = ret (on, s') \<Longrightarrow> accounted server s'"
proof -
  assume a: "accounted server s" and t: "select_turn server T s = ret (on, s')"
  obtain S m where "fill_fdset (clients s) server = ret (S, m)"
    using t by (cases "fill_fdset (clients s) server") (auto simp: select_turn_def bnd_def split: sum.splits)
  moreover have "accounted server (s\<lparr>events := events s @ [New_Client], clients := clients s @ [c], opened := opened s @ [c]\<rparr>)" for c
    using a by (simp add: accounted_def)
  moreover have "accounted server (s\<lparr>events := events s @ [e]\<rparr>)" if "e = Timeout \<or> e = Failed" for e
    using a that by (auto simp: accounted_def)
  ultimately show ?thesis
    using t a by (auto simp: select_turn_def Let_def intro: accounted_serve split: if_splits)
qed

lemma mset_fold_remove1: "mset (fold remove1 xs ys) = mset ys - mset xs"
  by (induction xs arbitrary: ys) simp_all

lemma select_main_accounted:
  "accounted server s \<Longrightarrow> select_main server Ts s = ret (on, s') \<Longrightarrow>
    (if on then accounted server s' else mset (opened s') = mset (gone (events s')))"
proof (induction Ts arbitrary: s)
  case (Cons T Ts)
  obtain on1 s1 where t: "select_turn server T s = ret (on1, s1)"
    using Cons.prems(2) by (cases "select_turn server T s") (auto simp: bnd_def split: sum.splits)
  have a: "accounted server s1" by (rule accounted_turn[OF Cons.prems(1) t])
  show ?case
  proof (cases on1)
    case True
    with Cons t a show ?thesis by simp
  next
    case False
    with Cons.prems(2) t a show ?thesis
      by (auto simp: select_end_def accounted_def mset_fold_remove1)
  qed
qed simp

lemma fd_set_all_fault:
  "\<not> list_all (\<lambda>c. 0 \<le> c \<and> c < FD_SETSIZE) cs \<Longrightarrow> fd_set_all cs S m = fault Out_Of_Bounds"
  by (induction cs arbitrary: S m) (auto simp: not_less)

lemma epoll_turn_accounted:
  assumes "epoll_turn server ready ctl T s = (True, s')" and "mset (ep_opened s) = {#server#} + mset (watched s)"
  shows "mset (ep_opened s') = {#server#} + mset (watched s')"
  using assms by (auto simp: epoll_turn_def Let_def split: if_splits prod.splits)

lemma epoll_loop_accounted:
  "epoll_loop server Ts s = (True, s') \<Longrightarrow> mset (ep_opened s) = {#server#} + mset (watched s) \<Longrightarrow>
    mset (ep_opened s') = {#server#} + mset (watched s')"
proof (induction Ts arbitrary: s)
  case (Cons x Ts)
  obtain ready ctl T where x: "x = (ready, ctl, T)" by (cases x)
  obtain on s1 where t: "epoll_turn server ready ctl T s = (on, s1)" by force
  with Cons.prems(1) x have "on" by (cases "on") simp_all
  with Cons t x epoll_turn_accounted[of server ready ctl T s s1] show ?case by simp
qed simp

section \<open>Properties\<close>

text \<open>The index loop of the select server is the round over its clients. If no client fails or goes
  away, every ready client is served once, in the order of the table, and the table is unchanged.\<close>

lemma select_round:
  "serve_clients T S 0 n s = s\<lparr>clients := fst (round T S n (clients s)), events := events s @ snd (round T S n (clients s))\<rparr> \<and>
   ((\<exists>c \<in> set (clients s). isset T S c \<and> fst (interact T c) \<in> {- 1, 0}) \<or> n < int (length (filter (isset T S) (clients s))) \<or>
    serve_clients T S 0 n s =
      s\<lparr>events := events s @ concat (map (\<lambda>c. Interact c # snd (interact T c)) (filter (isset T S) (clients s)))\<rparr>)"
proof -
  have eq: "serve_clients T S 0 n s =
      s\<lparr>clients := fst (round T S n (clients s)), events := events s @ snd (round T S n (clients s))\<rparr>"
    using serve_clients_round[of s "[]" "clients s" T S n] by simp
  show ?thesis
  proof (cases "(\<exists>c \<in> set (clients s). isset T S c \<and> fst (interact T c) \<in> {- 1, 0}) \<or>
      n < int (length (filter (isset T S) (clients s)))")
    case True
    with eq show ?thesis by blast
  next
    case False
    then have "round T S n (clients s) =
        (clients s, concat (map (\<lambda>c. Interact c # snd (interact T c)) (filter (isset T S) (clients s))))"
      by (intro round_serves) auto
    with eq show ?thesis by simp
  qed
qed

text \<open>Whatever the system answers, the open descriptors of the select server are the listening socket,
  those of the table, and those of all clients that have gone: these are never closed, not even at
  the end. Once the table holds a descriptor above 1023 the next turn writes outside the descriptor set.\<close>

lemma select_descriptors:
  assumes "select_main server Ts (select_start server) = ret (on, s)"
  shows "mset (opened s) = (if on then {#server#} + mset (clients s) else {#}) + mset (gone (events s)) \<and>
    (list_all (\<lambda>c. 0 \<le> c \<and> c < FD_SETSIZE) (clients s) \<or> select_turn server T s = fault Out_Of_Bounds)"
proof -
  have "accounted server (select_start server)" by (simp add: accounted_def select_start_def)
  from select_main_accounted[OF this assms]
  have "mset (opened s) = (if on then {#server#} + mset (clients s) else {#}) + mset (gone (events s))"
    by (auto simp: accounted_def split: if_splits)
  moreover have "select_turn server T s = fault Out_Of_Bounds"
    if "\<not> list_all (\<lambda>c. 0 \<le> c \<and> c < FD_SETSIZE) (clients s)"
    using fd_set_all_fault[OF that] by (simp add: select_turn_def fill_fdset_def)
  ultimately show ?thesis by blast
qed

text \<open>When a connection arrives and at least one client is ready, the poll server accepts the connection and
  then treats its listening socket as a client; \<^verbatim>\<open>read\<close> on it fails, and no client is served in that turn.\<close>

lemma poll_reads_listener:
  assumes "fds s = p # ps" and "fd p = server" and "t_ready T server" and "t_nfds T > 1" and "t_accept T \<noteq> - 1"
    and "fst (t_read T server) = - 1"
  shows "poll_turn garbage T s = (True, s\<lparr>fds := poll_results T (fds s) @ [\<lparr>fd = t_accept T, revents = garbage\<rparr>],
    poll_events := poll_events s @ [New_Client, Interact server, Failed]\<rparr>)"
  using assms
  by (cases "t_read T server") (simp add: poll_turn_def poll_results_def serve_fds.simps[of T 0] interact_def)

text \<open>The epoll server closes the descriptor of a client that has gone: as long as it runs, its open
  descriptors are the listening socket and the watched ones, whatever the system answers.\<close>

lemma epoll_descriptors:
  assumes "epoll_loop server Ts (epoll_start server) = (True, s)"
  shows "mset (ep_opened s) = {#server#} + mset (watched s)"
  by (rule epoll_loop_accounted[OF assms]) (simp add: epoll_start_def)

end
