(* ===== verification/Messages.thy ===== *)
theory Messages
  imports Bytes
begin

text \<open>
  Message queues: packing, sending, receiving and unpacking as in \<^verbatim>\<open>lecture_examples/7_ipc\<close>
  (\<^verbatim>\<open>7_msgsend_client.c\<close>, \<^verbatim>\<open>7_msgsend_server.c\<close>, \<^verbatim>\<open>9_sem_event_source.c\<close>, \<^verbatim>\<open>9_sem_event_cons.c\<close>). The event system of the
  last two is theory \<^verbatim>\<open>Events\<close>.

  The buffers \<^verbatim>\<open>char msg[512]\<close> are not initialised: their contents \<open>junk\<close> are a parameter. A message in
  the queue is its type and its text, as the manual of \<^verbatim>\<open>msgsnd\<close> has it: the text is the \<open>size\<close> bytes
  \<^emph>\<open>behind\<close> the type, while the programs pass the size including the type.
\<close>

section \<open>Packing and sending\<close>

definition MSG_SIZE :: nat where "MSG_SIZE = 512"

type_synonym message = "int \<times> byte list"

definition copy_into :: "byte list \<Rightarrow> nat \<Rightarrow> byte list \<Rightarrow> byte list run" where
  "copy_into msg pos bs = (if pos + length bs \<le> length msg then ret (blit msg pos bs) else fault Out_Of_Bounds)"

definition pack_msg :: "byte list \<Rightarrow> int \<Rightarrow> byte list \<Rightarrow> (byte list \<times> nat) run" where
  "pack_msg msg type data = (let pos = 0; data_size = int (length data) in
     bnd (copy_into msg pos (bytes_of 8 type)) (\<lambda>msg. let pos = pos + 8 in
     bnd (copy_into msg pos (bytes_of 4 data_size)) (\<lambda>msg. let pos = pos + 4 in
     bnd (copy_into msg pos data) (\<lambda>msg. let pos = pos + length data in ret (msg, pos)))))"

definition msgsnd :: "byte list \<Rightarrow> nat \<Rightarrow> message list \<Rightarrow> message list run" where
  "msgsnd msg n q = (if 8 + n > length msg then fault Out_Of_Bounds
     else let type = int_of_bytes (take 8 msg) in
       ret (if type < 1 then q else q @ [(type, take n (drop 8 msg))]))"

definition send_msg :: "byte list \<Rightarrow> int \<Rightarrow> byte list \<Rightarrow> message list \<Rightarrow> message list run" where
  "send_msg junk type data q = bnd (pack_msg junk type data) (\<lambda>(msg, n). msgsnd msg n q)"

section \<open>Receiving and unpacking\<close>

text \<open>
  \<^verbatim>\<open>msgrcv\<close> takes the first message of a positive type, any first message for type 0, and the first one of
  the smallest type not above \<open>- type\<close> for a negative type; \<open>None\<close>: it waits.
\<close>

fun take_first :: "(message \<Rightarrow> bool) \<Rightarrow> message list \<Rightarrow> (message \<times> message list) option" where
  "take_first P [] = None"
| "take_first P (m # q) = (if P m then Some (m, q)
     else case take_first P q of None \<Rightarrow> None | Some (x, q) \<Rightarrow> Some (x, m # q))"

definition smallest :: "int list \<Rightarrow> int" where
  "smallest ts = foldr min (tl ts) (hd ts)"

definition msgrcv :: "int \<Rightarrow> message list \<Rightarrow> (message \<times> message list) option" where
  "msgrcv type q =
     (if type = 0 then take_first (\<lambda>m. True) q
      else if type > 0 then take_first (\<lambda>m. fst m = type) q
      else case filter (\<lambda>t. t \<le> - type) (map fst q) of [] \<Rightarrow> None | ts \<Rightarrow> take_first (\<lambda>m. fst m = smallest ts) q)"

text \<open>Type, size and data of the message in the buffer; the data are the rest of the buffer.\<close>

definition unpack_msg :: "byte list \<Rightarrow> int \<times> int \<times> byte list" where
  "unpack_msg msg = (let pos = 0; type = int_of_bytes (take 8 (drop pos msg)); pos = pos + 8;
     data_size = int_of_bytes (take 4 (drop pos msg)); pos = pos + 4 in (type, data_size, drop pos msg))"

definition c_string :: "byte list \<Rightarrow> byte list run" where
  "c_string bs = (if 0 \<in> set bs then ret (takeWhile (\<lambda>b. b \<noteq> 0) bs) else fault Out_Of_Bounds)"

text \<open>What \<^verbatim>\<open>recv_msg\<close> prints about a message it has taken: type, size and string.\<close>

definition show_msg :: "byte list \<Rightarrow> message \<Rightarrow> (int \<times> int \<times> byte list) run" where
  "show_msg junk m = bnd (copy_into junk 0 (bytes_of 8 (fst m) @ snd m)) (\<lambda>msg.
     let (type, data_size, data) = unpack_msg msg in
     bnd (c_string data) (\<lambda>s. ret (type, data_size, s)))"

definition recv_msg :: "byte list \<Rightarrow> int \<Rightarrow> message list \<Rightarrow> ((int \<times> int \<times> byte list) \<times> message list) run" where
  "recv_msg junk type q = (case msgrcv type q of None \<Rightarrow> None
     | Some (m, q) \<Rightarrow> bnd (show_msg junk m) (\<lambda>r. ret (r, q)))"

section \<open>Lemmas on messages\<close>

definition entry :: "byte list \<Rightarrow> int \<Rightarrow> byte list \<Rightarrow> message" where
  "entry junk type data =
     (type, bytes_of 4 (int (length data)) @ data @ take 8 (drop (12 + length data) junk))"

lemma pack_msg_ret:
  assumes "12 + length data \<le> length junk"
  shows "pack_msg junk type data =
    ret (bytes_of 8 type @ bytes_of 4 (int (length data)) @ data @ drop (12 + length data) junk, 12 + length data)"
  using assms by (simp add: pack_msg_def copy_into_def blit_def Let_def add.commute[of 12])

lemma send_msg_ret:
  assumes "length junk = MSG_SIZE" and "length data \<le> 492" and "1 \<le> type" and "type < 2 ^ 63"
  shows "send_msg junk type data q = ret (q @ [entry junk type data])"
proof -
  have "int_of_bytes (bytes_of 8 type) = type"
    using assms by (intro int_of_bytes_of) (simp_all add: fits_bytes_def)
  then show ?thesis
    using assms by (simp add: send_msg_def pack_msg_ret msgsnd_def entry_def MSG_SIZE_def)
qed

lemma send_msg_fault:
  assumes "length junk = MSG_SIZE" and "492 < length data"
  shows "send_msg junk type data q = fault Out_Of_Bounds"
proof (cases "length data \<le> 500")
  case True
  then show ?thesis using assms by (simp add: send_msg_def pack_msg_ret msgsnd_def MSG_SIZE_def)
next
  case False
  then show ?thesis using assms by (simp add: send_msg_def pack_msg_def copy_into_def MSG_SIZE_def Let_def)
qed

lemma show_entry:
  assumes "length junk = MSG_SIZE" "length junk' = MSG_SIZE" and "length data \<le> 492" and "1 \<le> type" and "type < 2 ^ 63"
  shows "show_msg junk' (entry junk type data) =
    bnd (c_string (data @ take 8 (drop (12 + length data) junk) @ drop (20 + length data) junk'))
      (\<lambda>s. ret (type, int (length data), s))"
proof -
  let ?text = "bytes_of 4 (int (length data)) @ data @ take 8 (drop (12 + length data) junk)"
  have n: "8 + length ?text = 20 + length data" using assms by (simp add: MSG_SIZE_def)
  have "copy_into junk' 0 (bytes_of 8 type @ ?text) = ret (bytes_of 8 type @ ?text @ drop (20 + length data) junk')"
    using assms n by (simp add: copy_into_def blit_def MSG_SIZE_def)
  moreover have "int_of_bytes (bytes_of 8 type) = type" "int_of_bytes (bytes_of 4 (int (length data))) = int (length data)"
    using assms by (intro int_of_bytes_of; simp add: fits_bytes_def)+
  ultimately show ?thesis by (simp add: show_msg_def entry_def unpack_msg_def)
qed

lemma take_first_snoc: "take_first P q = None \<Longrightarrow> P m \<Longrightarrow> take_first P (q @ [m]) = Some (m, q)"
  by (induction q) (auto split: if_splits option.splits)

lemma take_first_None: "take_first P q = None \<longleftrightarrow> filter P q = []"
  by (induction q) (auto split: option.splits)

lemma take_first_Some:
  "take_first P q = Some (m, q') \<Longrightarrow> P m \<and> filter P q = m # filter P q' \<and> filter (\<lambda>x. \<not> P x) q' = filter (\<lambda>x. \<not> P x) q"
  by (induction q arbitrary: q') (auto split: if_splits option.splits)

lemma c_string_terminated: "0 \<in> set bs \<Longrightarrow> c_string (bs @ cs) = ret (takeWhile (\<lambda>b. b \<noteq> 0) bs)"
  by (simp add: c_string_def takeWhile_append1)

section \<open>Properties\<close>

text \<open>C33: with no message of its type in the queue, a message of up to 492 bytes arrives with its type, its size and
  its data, and leaves the rest of the queue as it was; behind the data the string
  printed goes on with the uninitialised bytes of both buffers unless the data contain a zero byte;
  a longer one makes the sender access memory outside its buffer.\<close>

theorem message_roundtrip:
  assumes "length junk = MSG_SIZE" and "length junk' = MSG_SIZE" and "1 \<le> type" and "type < 2 ^ 63"
    and "msgrcv type q = None"
  shows "if length data \<le> 492 then
      (\<exists>q'. send_msg junk type data q = ret q' \<and> recv_msg junk' type q' =
        (let tail = take 8 (drop (12 + length data) junk) @ drop (20 + length data) junk' in
         bnd (c_string (data @ tail)) (\<lambda>s. ret ((type, int (length data), s), q))) \<and>
        (0 \<notin> set data \<or> recv_msg junk' type q' = ret ((type, int (length data), takeWhile (\<lambda>b. b \<noteq> 0) data), q)))
    else send_msg junk type data q = fault Out_Of_Bounds"
proof (cases "length data \<le> 492")
  case True
  let ?tail = "take 8 (drop (12 + length data) junk) @ drop (20 + length data) junk'"
  have "take_first (\<lambda>m. fst m = type) q = None" using assms(3,5) by (simp add: msgrcv_def)
  then have "msgrcv type (q @ [entry junk type data]) = Some (entry junk type data, q)"
    using assms(3) by (simp add: msgrcv_def take_first_snoc entry_def)
  then have r: "recv_msg junk' type (q @ [entry junk type data]) =
      bnd (c_string (data @ ?tail)) (\<lambda>s. ret ((type, int (length data), s), q))"
    by (simp add: recv_msg_def show_entry[OF assms(1,2) True assms(3,4)] bnd_assoc)
  then have "0 \<notin> set data \<or> recv_msg junk' type (q @ [entry junk type data]) =
      ret ((type, int (length data), takeWhile (\<lambda>b. b \<noteq> 0) data), q)"
    using c_string_terminated[of data ?tail] by (cases "0 \<in> set data") simp_all
  with r send_msg_ret[OF assms(1) True assms(3,4)] True show ?thesis by (simp add: Let_def)
next
  case False
  with send_msg_fault[OF assms(1)] show ?thesis by simp
qed

theorem message_roundtrip_witness:
  "\<exists>q'. send_msg (replicate 512 7) 60 [104, 105, 0] [] = ret q' \<and>
     recv_msg (replicate 512 9) 60 q' = ret ((60, 3, [104, 105]), [])"
  using message_roundtrip[of "replicate 512 7" "replicate 512 9" 60 "[]" "[104, 105, 0]"]
  by (simp add: MSG_SIZE_def msgrcv_def) blast

end
