(* ===== verification/Small_Coros.thy ===== *)
theory Small_Coros
  imports C_Text
begin

text \<open>
  Two small coroutine programs. \<^verbatim>\<open>examples/coro_alloca.c\<close>: coroutines whose stacks are pieces of the one C stack
  that \<^verbatim>\<open>alloca\<close> keeps apart, so that the calls a coroutine is in (\<open>frames\<close>, the innermost first, with
  their \<^verbatim>\<open>deep\<close>) survive a jump. \<^verbatim>\<open>1/example_swap.c\<close>: two contexts that swap, and the context that is resumed
  when one of them returns. Both are step functions on program points.
\<close>

section \<open>Coroutines on pieces of the stack\<close>

definition CORO_COUNT :: nat where "CORO_COUNT = 3"

datatype al_point =
    Put_Here
  | Enter
  | After_First
  | After_Second
  | Continue_Next

record al_coro =
  ctx :: al_point
  al_finished :: bool
  frames :: "nat list"

record alloca =
  al_coros :: "al_coro list"
  coro_i :: nat
  al_out :: "string list"

definition this_coro :: "alloca \<Rightarrow> al_coro" where
  "this_coro s = al_coros s ! coro_i s"

definition put_coro :: "al_coro \<Rightarrow> alloca \<Rightarrow> alloca" where
  "put_coro c s = s\<lparr>al_coros := (al_coros s)[coro_i s := c]\<rparr>"

definition al_print :: "string \<Rightarrow> alloca \<Rightarrow> alloca" where
  "al_print w s = s\<lparr>al_out := al_out s @ [w]\<rparr>"

text \<open>
  \<^verbatim>\<open>coro_yield\<close> tries \<open>k\<close> times, always the same neighbour; the result is the point at which the
  program goes on, here when the neighbour has finished.
\<close>

fun yield_loop :: "nat \<Rightarrow> al_point \<Rightarrow> alloca \<Rightarrow> al_point \<times> alloca" where
  "yield_loop 0 here s = (here, s)"
| "yield_loop (Suc k) here s = (let next = (coro_i s + 1) mod CORO_COUNT in
     if \<not> al_finished (al_coros s ! next)
     then let s = put_coro ((this_coro s)\<lparr>ctx := here\<rparr>) s; s = s\<lparr>coro_i := next\<rparr> in (ctx (this_coro s), s)
     else yield_loop k here s)"

definition al_yield :: "al_point \<Rightarrow> alloca \<Rightarrow> al_point \<times> alloca" where
  "al_yield here s = yield_loop CORO_COUNT here s"

fun continue_next :: "nat list \<Rightarrow> alloca \<Rightarrow> (al_point \<times> alloca) option" where
  "continue_next [] s = None"
| "continue_next (i # is) s = (if \<not> al_finished (al_coros s ! i)
     then let s = s\<lparr>coro_i := i\<rparr> in Some (ctx (this_coro s), s) else continue_next is s)"

definition coro_continue_next :: "alloca \<Rightarrow> (al_point \<times> alloca) option" where
  "coro_continue_next s = continue_next [0..<CORO_COUNT] s"

text \<open>
  From a point to the next one; \<open>None\<close>: \<^verbatim>\<open>main\<close> has returned. \<open>Put_Here\<close> is the second return of the \<^verbatim>\<open>setjmp\<close> in
  \<^verbatim>\<open>coro_put_here\<close>, after which the loop of \<^verbatim>\<open>main\<close> is left. \<open>bound\<close> is the depth of the calls, 2 in the code.
\<close>

fun al_step :: "nat \<Rightarrow> al_point \<Rightarrow> alloca \<Rightarrow> al_point option \<times> alloca" where
  "al_step bound Put_Here s = (Some Enter, put_coro ((this_coro s)\<lparr>frames := [0]\<rparr>) s)"
| "al_step bound Enter s =
     (let s = al_print (show_int (int (coro_i s)) @ '': start deep = '' @ show_int (int (hd (frames (this_coro s))))) s;
          (p, s) = al_yield After_First s in (Some p, s))"
| "al_step bound After_First s = (let d = hd (frames (this_coro s)) in
     if d < bound then (Some Enter, put_coro ((this_coro s)\<lparr>frames := (d + 1) # frames (this_coro s)\<rparr>) s)
     else let (p, s) = al_yield After_Second s in (Some p, s))"
| "al_step bound After_Second s =
     (let s = al_print (show_int (int (coro_i s)) @ '': end deep = '' @ show_int (int (hd (frames (this_coro s))))) s;
          fs = tl (frames (this_coro s)); s = put_coro ((this_coro s)\<lparr>frames := fs\<rparr>) s in
      if fs = [] then (Some Continue_Next, put_coro ((this_coro s)\<lparr>al_finished := True\<rparr>) s)
      else let (p, s) = al_yield After_Second s in (Some p, s))"
| "al_step bound Continue_Next s = (case coro_continue_next s of None \<Rightarrow> (None, al_print ''Finish main'' s)
     | Some (p, s) \<Rightarrow> (Some p, s))"

definition al_start :: alloca where
  "al_start = \<lparr>al_coros = replicate CORO_COUNT \<lparr>ctx = Put_Here, al_finished = False, frames = []\<rparr>, coro_i = 0,
     al_out = [''Start main'']\<rparr>"

partial_function (option) al_run :: "nat \<Rightarrow> al_point \<Rightarrow> alloca \<Rightarrow> alloca option" where
  [code]: "al_run bound p s = (case al_step bound p s of (None, s) \<Rightarrow> Some s | (Some p, s) \<Rightarrow> al_run bound p s)"

definition al_main :: "alloca option" where
  "al_main = al_run 2 Continue_Next al_start"

section \<open>Contexts that swap\<close>

datatype which = Uctx_Main | Uctx_Func1 | Uctx_Func2

datatype sw_point =
    My_Coroutine int
  | Swapped int
  | Main_Swapped

record uctx =
  uc_point :: "sw_point option"
  uc_link :: "which option"

record swaps =
  ctxs :: "which \<Rightarrow> uctx"
  sw_out :: "string list"

definition sw_print :: "string \<Rightarrow> swaps \<Rightarrow> swaps" where
  "sw_print w s = s\<lparr>sw_out := sw_out s @ [w]\<rparr>"

text \<open>\<^verbatim>\<open>makecontext\<close> sets where a context starts, \<^verbatim>\<open>swapcontext\<close> saves where the running one goes on.\<close>

definition sw_makecontext :: "which \<Rightarrow> sw_point \<Rightarrow> which option \<Rightarrow> swaps \<Rightarrow> swaps" where
  "sw_makecontext w p link s = s\<lparr>ctxs := (ctxs s)(w := \<lparr>uc_point = Some p, uc_link = link\<rparr>)\<rparr>"

definition swapcontext :: "which \<Rightarrow> sw_point \<Rightarrow> which \<Rightarrow> swaps \<Rightarrow> (sw_point option \<times> swaps) run" where
  "swapcontext from here to s = (let s = s\<lparr>ctxs := (ctxs s)(from := (ctxs s from)\<lparr>uc_point := Some here\<rparr>)\<rparr> in
     case uc_point (ctxs s to) of None \<Rightarrow> fault Dangling | Some p \<Rightarrow> ret (Some p, s))"

text \<open>The return of a context's function: its successor goes on; without one the program ends.\<close>

definition return_from :: "which \<Rightarrow> swaps \<Rightarrow> (sw_point option \<times> swaps) run" where
  "return_from w s = (case uc_link (ctxs s w) of None \<Rightarrow> ret (None, s)
     | Some v \<Rightarrow> (case uc_point (ctxs s v) of None \<Rightarrow> fault Dangling | Some p \<Rightarrow> ret (Some p, s)))"

definition own :: "int \<Rightarrow> which" where
  "own n = (if n = 1 then Uctx_Func1 else Uctx_Func2)"

fun sw_step :: "sw_point \<Rightarrow> swaps \<Rightarrow> (sw_point option \<times> swaps) run" where
  "sw_step (My_Coroutine n) s = (let s = sw_print (''func'' @ show_int n @ '': started'') s in
     if n = 1 then swapcontext Uctx_Func1 (Swapped n) Uctx_Func2
       (sw_print ''coroutine1: swapcontext(&uctx_func1, &uctx_func2)'' s)
     else swapcontext Uctx_Func2 (Swapped n) Uctx_Func1
       (sw_print ''coroutine2: swapcontext(&uctx_func2, &uctx_func1)'' s))"
| "sw_step (Swapped n) s = return_from (own n) (sw_print (''func'' @ show_int n @ '': returning'') s)"
| "sw_step Main_Swapped s = ret (None, sw_print ''main: exiting'' s)"

partial_function (option) sw_run :: "sw_point \<Rightarrow> swaps \<Rightarrow> swaps run" where
  [code]: "sw_run p s = bnd (sw_step p s) (\<lambda>(q, s). case q of None \<Rightarrow> ret s | Some q \<Rightarrow> sw_run q s)"

definition sw_main :: "int \<Rightarrow> swaps run" where
  "sw_main argc =
     (let s = \<lparr>ctxs = \<lambda>_. \<lparr>uc_point = None, uc_link = None\<rparr>, sw_out = []\<rparr>;
          s = sw_makecontext Uctx_Func1 (My_Coroutine 1) (Some Uctx_Main) s;
          s = sw_makecontext Uctx_Func2 (My_Coroutine 2) (if argc > 1 then None else Some Uctx_Func1) s in
      bnd (swapcontext Uctx_Main Main_Swapped Uctx_Func2 (sw_print ''main: swapcontext(&uctx_main, &uctx_func2)'' s))
        (\<lambda>(p, s). case p of None \<Rightarrow> ret s | Some p \<Rightarrow> sw_run p s))"

section \<open>The outputs\<close>

lemma show_small: "show_int 1 = ''1''" "show_int 2 = ''2''"
  by (simp_all add: show_int_def show_nat.simps)

text \<open>Started without arguments the program comes back to \<^verbatim>\<open>main\<close>, with one it ends when the second coroutine returns.\<close>

lemma swap_outputs:
  "\<exists>s. sw_main argc = ret s \<and> sw_out s =
    [''main: swapcontext(&uctx_main, &uctx_func2)'', ''func2: started'',
     ''coroutine2: swapcontext(&uctx_func2, &uctx_func1)'', ''func1: started'',
     ''coroutine1: swapcontext(&uctx_func1, &uctx_func2)'', ''func2: returning''] @
    (if argc > 1 then [] else [''func1: returning'', ''main: exiting''])"
  by (simp add: sw_main_def Let_def swapcontext_def sw_makecontext_def sw_print_def sw_run.simps return_from_def own_def show_small
      cong: bnd_weak_cong)

section \<open>The coroutines run in step\<close>

text \<open>All three are at the same point, in the same calls, and the first one is about to go on.\<close>

definition three :: "al_coro \<Rightarrow> al_coro \<Rightarrow> al_coro \<Rightarrow> nat \<Rightarrow> string list \<Rightarrow> alloca" where
  "three a b c i out = \<lparr>al_coros = [a, b, c], coro_i = i, al_out = out\<rparr>"

definition at :: "al_point \<Rightarrow> nat list \<Rightarrow> al_coro" where
  "at p fs = \<lparr>ctx = p, al_finished = False, frames = fs\<rparr>"

definition gone :: "al_point \<Rightarrow> al_coro" where
  "gone p = \<lparr>ctx = p, al_finished = True, frames = []\<rparr>"

definition shouts :: "string \<Rightarrow> nat \<Rightarrow> string list" where
  "shouts w d = map (\<lambda>i. show_int (int i) @ w @ show_int (int d)) [0, 1, 2]"

lemma at_gone_simps:
  "ctx (at p fs) = p" "al_finished (at p fs) = False" "frames (at p fs) = fs"
  "ctx (gone p) = p" "al_finished (gone p) = True" "frames (gone p) = []"
  "(at p fs)\<lparr>ctx := q\<rparr> = at q fs" "(at p fs)\<lparr>frames := gs\<rparr> = at p gs"
  "(at p [])\<lparr>al_finished := True\<rparr> = gone p"
  by (simp_all add: at_def gone_def)

lemma three_simps:
  "this_coro (three a b c 0 out) = a" "this_coro (three a b c (Suc 0) out) = b" "this_coro (three a b c 2 out) = c"
  "put_coro x (three a b c 0 out) = three x b c 0 out" "put_coro x (three a b c (Suc 0) out) = three a x c 1 out"
  "put_coro x (three a b c 2 out) = three a b x 2 out"
  "al_print w (three a b c i out) = three a b c i (out @ [w])"
  "coro_i (three a b c i out) = i" "al_coros (three a b c i out) = [a, b, c]" "al_out (three a b c i out) = out"
  "(three a b c i out)\<lparr>coro_i := j\<rparr> = three a b c j out"
  by (simp_all add: three_def this_coro_def put_coro_def al_print_def)

lemma yield_free:
  assumes "\<not> al_finished (al_coros s ! ((coro_i s + 1) mod 3))"
  shows "al_yield h s = (let s = (put_coro ((this_coro s)\<lparr>ctx := h\<rparr>) s)\<lparr>coro_i := (coro_i s + 1) mod 3\<rparr> in (ctx (this_coro s), s))"
proof -
  have "al_yield h s = yield_loop (Suc 2) h s"
    unfolding al_yield_def by (rule arg_cong[of _ _ "\<lambda>k. yield_loop k h s"]) (simp add: CORO_COUNT_def)
  also have "\<dots> = (let s = (put_coro ((this_coro s)\<lparr>ctx := h\<rparr>) s)\<lparr>coro_i := (coro_i s + 1) mod 3\<rparr> in (ctx (this_coro s), s))"
    unfolding yield_loop.simps(2) CORO_COUNT_def Let_def using assms by (simp only: if_True not_False_eq_True simp_thms)
  finally show ?thesis .
qed

lemma yield_three:
  "\<not> al_finished b \<Longrightarrow> al_yield h (three a b c 0 out) = (ctx b, three (a\<lparr>ctx := h\<rparr>) b c (Suc 0) out)"
  "\<not> al_finished c \<Longrightarrow> al_yield h (three a b c (Suc 0) out) = (ctx c, three a (b\<lparr>ctx := h\<rparr>) c 2 out)"
  "\<not> al_finished a \<Longrightarrow> al_yield h (three a b c 2 out) = (ctx a, three a b (c\<lparr>ctx := h\<rparr>) 0 out)"
  by (simp_all add: yield_free three_simps three_simps[unfolded numeral_2_eq_2] Let_def)

lemma continue_three:
  "coro_continue_next (three a b c i out) =
    (if \<not> al_finished a then Some (ctx a, three a b c 0 out) else if \<not> al_finished b then Some (ctx b, three a b c (Suc 0) out)
     else if \<not> al_finished c then Some (ctx c, three a b c 2 out) else None)"
proof -
  have "[0..<CORO_COUNT] = [0, 1, 2]"
    by (simp add: CORO_COUNT_def upt_rec)
  then show ?thesis
    by (simp add: coro_continue_next_def three_simps Let_def)
qed

lemmas three_run = al_run.simps[of _ Put_Here] al_run.simps[of _ Enter] yield_three yield_three[unfolded numeral_2_eq_2] continue_three
  three_simps three_simps[unfolded numeral_2_eq_2] at_gone_simps Let_def

lemma start_three: "al_start = three (at Put_Here []) (at Put_Here []) (at Put_Here []) 0 [''Start main'']"
  by (simp add: al_start_def three_def at_def CORO_COUNT_def numeral_3_eq_3)

definition in_step :: "al_point \<Rightarrow> al_point \<Rightarrow> nat list \<Rightarrow> string list \<Rightarrow> alloca" where
  "in_step q p fs out = three (at q fs) (at p fs) (at p fs) 0 out"

lemma step_start:
  "al_run bound Continue_Next al_start =
    al_run bound After_First (in_step After_First After_First [0] ([''Start main''] @ shouts '': start deep = '' 0))"
  by (subst al_run.simps) (simp add: start_three three_run in_step_def shouts_def numeral_2_eq_2)

lemma step_down:
  assumes "d < bound"
  shows "al_run bound After_First (in_step p0 After_First (d # fs) out) =
    al_run bound After_First (in_step After_First After_First (Suc d # d # fs) (out @ shouts '': start deep = '' (Suc d)))"
  using assms
  by (simp add: in_step_def shouts_def, subst al_run.simps, simp add: three_run, subst al_run.simps, simp add: three_run,
    subst al_run.simps, simp add: three_run numeral_2_eq_2)

lemma step_turn:
  "al_run bound After_First (in_step p0 After_First (bound # fs) out) =
    al_run bound After_Second (in_step After_Second After_Second (bound # fs) out)"
  by (simp add: in_step_def, subst al_run.simps, simp add: three_run, subst al_run.simps, simp add: three_run,
    subst al_run.simps, simp add: three_run numeral_2_eq_2)

lemma step_up:
  "al_run bound After_Second (in_step p0 After_Second (d # e # fs) out) =
    al_run bound After_Second (in_step After_Second After_Second (e # fs) (out @ shouts '': end deep = '' d))"
  by (simp add: in_step_def shouts_def, subst al_run.simps, simp add: three_run, subst al_run.simps, simp add: three_run,
    subst al_run.simps, simp add: three_run numeral_2_eq_2)

lemma step_end:
  "al_run bound After_Second (in_step p0 After_Second [d] out) =
    Some (three (gone p0) (gone After_Second) (gone After_Second) 2 (out @ shouts '': end deep = '' d @ [''Finish main'']))"
  by (simp add: in_step_def shouts_def three_run al_run.simps[of _ After_Second] al_run.simps[of _ Continue_Next] numeral_2_eq_2)

section \<open>All the calls of all the coroutines\<close>

lemma steps_down:
  "al_run (d + n) After_First (in_step After_First After_First (d # fs) out) =
    al_run (d + n) After_First (in_step After_First After_First (rev [Suc d..<Suc (d + n)] @ d # fs)
      (out @ concat (map (shouts '': start deep = '') [Suc d..<Suc (d + n)])))"
proof (induction n arbitrary: d fs out)
  case (Suc n)
  have *: "[Suc d..<Suc (Suc (d + n))] = Suc d # [Suc (Suc d)..<Suc (Suc (d + n))]"
    by (simp add: upt_conv_Cons del: upt_Suc)
  show ?case
    using Suc.IH[of "Suc d" "d # fs" "out @ shouts '': start deep = '' (Suc d)"]
    by (simp add: step_down * del: upt_Suc)
qed simp

lemma steps_up:
  "\<exists>s. al_run bound After_Second (in_step p0 After_Second (rev [0..<Suc d]) out) = Some s \<and>
    map al_finished (al_coros s) = [True, True, True] \<and>
    al_out s = out @ concat (map (shouts '': end deep = '') (rev [0..<Suc d])) @ [''Finish main'']"
proof (induction d arbitrary: p0 out)
  case 0
  show ?case
    by (simp add: step_end three_simps at_gone_simps)
next
  case (Suc d)
  have "rev [0..<Suc (Suc d)] = Suc d # d # rev [0..<d]" "rev [0..<Suc d] = d # rev [0..<d]"
    by simp_all
  then show ?case
    using Suc.IH[of After_Second "out @ shouts '': end deep = '' (Suc d)"] by (simp add: step_up del: upt_Suc)
qed

text \<open>
  For every depth of the calls: \<^verbatim>\<open>main\<close> returns, all coroutines have finished, and at each depth, first on the way
  down and then on the way up, the three coroutines print in the order of their numbers.
\<close>

lemma alloca_in_step:
  "\<exists>s. al_run bound Continue_Next al_start = Some s \<and> map al_finished (al_coros s) = [True, True, True] \<and>
    al_out s = [''Start main''] @ concat (map (shouts '': start deep = '') [0..<Suc bound]) @
      concat (map (shouts '': end deep = '') (rev [0..<Suc bound])) @ [''Finish main'']"
proof -
  have starts: "[0..<Suc bound] = 0 # [Suc 0..<Suc bound]"
    by (simp add: upt_conv_Cons del: upt_Suc)
  have calls: "rev [Suc 0..<Suc bound] @ [0] = rev [0..<Suc bound]"
    by (simp only: starts rev.simps)
  obtain hd where "rev [0..<Suc bound] = bound # hd"
    by simp
  then have "al_run bound After_First (in_step After_First After_First (rev [0..<Suc bound]) out) =
      al_run bound After_Second (in_step After_Second After_Second (rev [0..<Suc bound]) out)" for out
    by (simp only: step_turn)
  then show ?thesis
    using steps_down[of 0 bound "[]" "[''Start main''] @ shouts '': start deep = '' 0"]
      steps_up[of bound After_Second bound "[''Start main''] @ concat (map (shouts '': start deep = '') [0..<Suc bound])"]
    by (simp only: step_start calls starts add_0 append_Nil list.map concat.simps append_assoc)
qed

end
