(* ===== verification/Sem_Mutex.thy ===== *)
theory Sem_Mutex
  imports C_Text Interleaving
begin

text \<open>
  The semaphore of \<^verbatim>\<open>lecture_examples/7_ipc/10_sem_mutex.h\<close>, made of a counter, a mutex and a condition variable.
  Every thread \<open>i\<close> makes the calls \<open>calls i\<close>, one after the other. \<^verbatim>\<open>pthread_cond_wait\<close> frees the mutex and falls
  asleep in one step, and takes the mutex again when it has been woken; with \<open>spurious\<close> it may also wake up by
  itself, as POSIX allows. \<^verbatim>\<open>pthread_cond_signal\<close> wakes any one of the sleeping threads, if there is one.
\<close>

section \<open>The code\<close>

datatype sem_call = Sem_Get | Sem_Put

record semaphore =
  counter :: int
  mutex :: bool
  cond_sleepers :: "nat list"

datatype sem_pc =
    Calls "sem_call list"
  | Get_Test "sem_call list"
  | Get_Wait "sem_call list"
  | Get_Sleep "sem_call list"
  | Get_Dec "sem_call list"
  | Put_Inc "sem_call list"
  | Put_Signal "sem_call list"
  | Unlock "sem_call list"

definition sem_lock :: "semaphore \<Rightarrow> sem_pc \<Rightarrow> (semaphore \<times> sem_pc) list" where
  "sem_lock g l = (if mutex g then [] else [(g\<lparr>mutex := True\<rparr>, l)])"

definition cond_signal :: "semaphore \<Rightarrow> sem_pc \<Rightarrow> (semaphore \<times> sem_pc) list" where
  "cond_signal g l = (if cond_sleepers g = [] then [(g, l)]
     else map (\<lambda>j. (g\<lparr>cond_sleepers := removeAll j (cond_sleepers g)\<rparr>, l)) (cond_sleepers g))"

definition cond_wait :: "nat \<Rightarrow> semaphore \<Rightarrow> sem_pc \<Rightarrow> (semaphore \<times> sem_pc) list" where
  "cond_wait i g l = [(g\<lparr>mutex := False, cond_sleepers := cond_sleepers g @ [i]\<rparr>, l)]"

text \<open>The rest of \<^verbatim>\<open>pthread_cond_wait\<close>.\<close>

definition cond_woken :: "bool \<Rightarrow> nat \<Rightarrow> semaphore \<Rightarrow> sem_pc \<Rightarrow> sem_pc \<Rightarrow> (semaphore \<times> sem_pc) list" where
  "cond_woken spurious i g here next =
     (if i \<in> set (cond_sleepers g) then
        (if spurious then [(g\<lparr>cond_sleepers := removeAll i (cond_sleepers g)\<rparr>, here)] else [])
      else sem_lock g next)"

definition semaphore_get :: "bool \<Rightarrow> nat \<Rightarrow> semaphore \<Rightarrow> sem_pc \<Rightarrow> (semaphore \<times> sem_pc) list" where
  "semaphore_get spurious i g l = (case l of
       Calls (Sem_Get # cs) \<Rightarrow> sem_lock g (Get_Test cs)
     | Get_Test cs \<Rightarrow> [(g, if counter g = 0 then Get_Wait cs else Get_Dec cs)]
     | Get_Wait cs \<Rightarrow> cond_wait i g (Get_Sleep cs)
     | Get_Sleep cs \<Rightarrow> cond_woken spurious i g (Get_Sleep cs) (Get_Test cs)
     | Get_Dec cs \<Rightarrow> [(g\<lparr>counter := wrap_int (counter g - 1)\<rparr>, Unlock cs)]
     | Unlock cs \<Rightarrow> [(g\<lparr>mutex := False\<rparr>, Calls cs)]
     | _ \<Rightarrow> [])"

definition semaphore_put :: "semaphore \<Rightarrow> sem_pc \<Rightarrow> (semaphore \<times> sem_pc) list" where
  "semaphore_put g l = (case l of
       Calls (Sem_Put # cs) \<Rightarrow> sem_lock g (Put_Inc cs)
     | Put_Inc cs \<Rightarrow> [(g\<lparr>counter := wrap_int (counter g + 1)\<rparr>, Put_Signal cs)]
     | Put_Signal cs \<Rightarrow> cond_signal g (Unlock cs)
     | Unlock cs \<Rightarrow> [(g\<lparr>mutex := False\<rparr>, Calls cs)]
     | _ \<Rightarrow> [])"

text \<open>A thread is in one of the two functions; both end with the same unlocking step.\<close>

definition sem_prog :: "bool \<Rightarrow> (semaphore, sem_pc) prog" where
  "sem_prog spurious i g l = (case l of
       Calls [] \<Rightarrow> []
     | Calls (Sem_Put # cs) \<Rightarrow> semaphore_put g l
     | Put_Inc cs \<Rightarrow> semaphore_put g l
     | Put_Signal cs \<Rightarrow> semaphore_put g l
     | _ \<Rightarrow> semaphore_get spurious i g l)"

definition sem_start :: "int \<Rightarrow> (nat \<Rightarrow> sem_call list) \<Rightarrow> (semaphore, sem_pc) sys" where
  "sem_start c calls = (\<lparr>counter = c, mutex = False, cond_sleepers = []\<rparr>, \<lambda>i. Calls (calls i))"

lemma not_get: "c \<noteq> Sem_Get \<longleftrightarrow> c = Sem_Put"
  by (cases c) simp_all

lemmas sem_defs = not_get sem_prog_def semaphore_get_def semaphore_put_def sem_lock_def cond_signal_def cond_wait_def cond_woken_def

section \<open>The mutex\<close>

definition has_mutex :: "sem_pc \<Rightarrow> bool" where
  "has_mutex l \<longleftrightarrow> (case l of Calls _ \<Rightarrow> False | Get_Sleep _ \<Rightarrow> False | _ \<Rightarrow> True)"

lemma sem_contract:
  assumes "(g', l') \<in> set (sem_prog spurious i g l)"
  shows "\<not> has_mutex l \<Longrightarrow> has_mutex l' \<Longrightarrow> \<not> mutex g \<and> mutex g'"
    and "has_mutex l \<Longrightarrow> \<not> has_mutex l' \<Longrightarrow> \<not> mutex g'"
    and "has_mutex l' = has_mutex l \<Longrightarrow> mutex g' = mutex g"
  using assms by (cases l; auto simp: sem_defs has_mutex_def split: if_splits list.splits sem_call.splits)+

interpretation sl: lock_contract "sem_prog spurious" n "sem_start c calls" mutex has_mutex for spurious n c calls
proof
  show "\<not> mutex (fst (sem_start c calls))" "\<not> has_mutex (snd (sem_start c calls) i)" for i
    by (simp_all add: sem_start_def has_mutex_def)
qed (use sem_contract in blast)+

section \<open>What the counter counts\<close>

definition worth :: "sem_call list \<Rightarrow> int" where
  "worth cs = sum_list (map (\<lambda>c. case c of Sem_Put \<Rightarrow> 1 | Sem_Get \<Rightarrow> - 1) cs)"

definition puts :: "sem_call list \<Rightarrow> int" where
  "puts cs = int (length (filter (\<lambda>c. c = Sem_Put) cs))"

text \<open>The calls that have not changed the counter yet.\<close>

fun ahead :: "sem_pc \<Rightarrow> sem_call list" where
  "ahead (Calls cs) = cs"
| "ahead (Get_Test cs) = Sem_Get # cs"
| "ahead (Get_Wait cs) = Sem_Get # cs"
| "ahead (Get_Sleep cs) = Sem_Get # cs"
| "ahead (Get_Dec cs) = Sem_Get # cs"
| "ahead (Put_Inc cs) = Sem_Put # cs"
| "ahead (Put_Signal cs) = cs"
| "ahead (Unlock cs) = cs"

text \<open>A thread on its way to lower the counter, or to wake another one.\<close>

definition coming :: "semaphore \<Rightarrow> nat \<Rightarrow> sem_pc \<Rightarrow> bool" where
  "coming g i l \<longleftrightarrow> (case l of Get_Test _ \<Rightarrow> True | Get_Dec _ \<Rightarrow> True | Put_Signal _ \<Rightarrow> True
     | Get_Sleep _ \<Rightarrow> i \<notin> set (cond_sleepers g) | _ \<Rightarrow> False)"

definition local_ok :: "semaphore \<Rightarrow> sem_pc \<Rightarrow> bool" where
  "local_ok g l \<longleftrightarrow> (case l of Get_Wait _ \<Rightarrow> counter g = 0 | Get_Dec _ \<Rightarrow> counter g > 0 | _ \<Rightarrow> True)"

definition sem_inv :: "int \<Rightarrow> (nat \<Rightarrow> sem_call list) \<Rightarrow> nat \<Rightarrow> semaphore \<Rightarrow> (nat \<Rightarrow> sem_pc) \<Rightarrow> bool" where
  "sem_inv c calls n g ls \<longleftrightarrow> sl.excl n g ls \<and> 0 \<le> counter g \<and>
     counter g + (\<Sum>i<n. puts (ahead (ls i))) \<le> c + (\<Sum>i<n. puts (calls i)) \<and>
     counter g + (\<Sum>i<n. worth (ahead (ls i))) = c + (\<Sum>i<n. worth (calls i)) \<and>
     (\<forall>i < n. local_ok g (ls i)) \<and>
     distinct (cond_sleepers g) \<and> (\<forall>j \<in> set (cond_sleepers g). j < n \<and> (\<exists>cs. ls j = Get_Sleep cs)) \<and>
     (cond_sleepers g \<noteq> [] \<longrightarrow> counter g \<le> (\<Sum>i<n. of_bool (coming g i (ls i))))"

lemma puts_nonneg: "0 \<le> puts cs"
  by (simp add: puts_def)

lemma call_counts [simp]:
  "puts (Sem_Put # cs) = puts cs + 1" "puts (Sem_Get # cs) = puts cs"
  "worth (Sem_Put # cs) = worth cs + 1" "worth (Sem_Get # cs) = worth cs - 1"
  by (simp_all add: puts_def worth_def)

text \<open>What one step of a thread does to the counter, to its own state and to the list of sleeping threads.\<close>

lemma sem_counter_step:
  assumes "(g', l') \<in> set (sem_prog spurious i g l)" and "local_ok g l" and "0 \<le> counter g"
    and "counter g + puts (ahead l) < 2 ^ 31"
  shows "counter g' + worth (ahead l') = counter g + worth (ahead l) \<and>
    counter g' + puts (ahead l') \<le> counter g + puts (ahead l) \<and> 0 \<le> counter g' \<and> local_ok g' l' \<and>
    (counter g' \<noteq> counter g \<longrightarrow> has_mutex l)"
proof -
  have up: "wrap_int (counter g + 1) = counter g + 1" if "l = Put_Inc cs" for cs
    using assms that puts_nonneg[of cs] by (intro wrap_int_id) (auto simp: fits_int_def int_min_def int_max_def)
  have down: "wrap_int (counter g - 1) = counter g - 1" if "l = Get_Dec cs" for cs
    using assms that puts_nonneg[of cs] by (intro wrap_int_id) (auto simp: fits_int_def int_min_def int_max_def)
  show ?thesis
    using assms(1,2,3) up down
    by (cases l) (auto simp: sem_defs local_ok_def has_mutex_def split: if_splits list.splits sem_call.splits)
qed

lemma sem_sleepers_step:
  assumes "(g', l') \<in> set (sem_prog spurious i g l)" and "i \<in> set (cond_sleepers g) \<Longrightarrow> \<exists>cs. l = Get_Sleep cs"
    and "distinct (cond_sleepers g)"
  shows "distinct (cond_sleepers g') \<and> (i \<in> set (cond_sleepers g') \<longrightarrow> (\<exists>cs. l' = Get_Sleep cs)) \<and>
    set (cond_sleepers g') \<subseteq> insert i (set (cond_sleepers g))"
  using assms
  by (cases l) (auto simp: sem_defs distinct_removeAll split: if_splits list.splits sem_call.splits)

lemma sem_coming_step:
  assumes "(g', l') \<in> set (sem_prog spurious i g l)" and "\<nexists>cs. l = Put_Signal cs"
    and "local_ok g l" and "0 \<le> counter g" and "counter g + puts (ahead l) < 2 ^ 31" and "cond_sleepers g' \<noteq> []"
  shows "(counter g' = 0 \<or> cond_sleepers g \<noteq> [] \<and>
      counter g' + of_bool (coming g i l) \<le> counter g + of_bool (coming g' i l')) \<and>
    (\<forall>k. k \<noteq> i \<longrightarrow> (k \<in> set (cond_sleepers g')) = (k \<in> set (cond_sleepers g)))"
proof -
  have up: "wrap_int (counter g + 1) = counter g + 1" if "l = Put_Inc cs" for cs
    using assms that puts_nonneg[of cs] by (intro wrap_int_id) (auto simp: fits_int_def int_min_def int_max_def)
  have down: "wrap_int (counter g - 1) = counter g - 1" if "l = Get_Dec cs" for cs
    using assms that puts_nonneg[of cs] by (intro wrap_int_id) (auto simp: fits_int_def int_min_def int_max_def)
  show ?thesis
    using assms(1,2,3,6) up down
    by (cases l) (auto simp: sem_defs local_ok_def coming_def split: if_splits list.splits sem_call.splits)
qed

lemma sem_signal_step:
  assumes "(g', l') \<in> set (sem_prog spurious i g (Put_Signal cs))" and "cond_sleepers g' \<noteq> []"
  shows "l' = Unlock cs \<and> counter g' = counter g \<and>
    (\<exists>j \<in> set (cond_sleepers g). g' = g\<lparr>cond_sleepers := removeAll j (cond_sleepers g)\<rparr>)"
  using assms by (auto simp: sem_defs split: if_splits)

lemma coming_other: "(k \<in> set (cond_sleepers g')) = (k \<in> set (cond_sleepers g)) \<Longrightarrow> coming g' k l = coming g k l"
  by (cases l) (simp_all add: coming_def)

lemma sem_wake_inv:
  assumes inv: "sem_inv c calls n g ls" and i: "i < n" and s: "(g', l') \<in> set (sem_prog spurious i g (ls i))"
    and small: "counter g + puts (ahead (ls i)) < 2 ^ 31" and awake: "cond_sleepers g' \<noteq> []"
  shows "counter g' \<le> (\<Sum>k<n. of_bool (coming g' k ((ls(i := l')) k)))"
proof -
  let ?h = "\<lambda>k. coming g k (ls k)"
  have ok: "local_ok g (ls i)" "0 \<le> counter g"
    and before: "cond_sleepers g \<noteq> [] \<Longrightarrow> counter g \<le> (\<Sum>k<n. of_bool (?h k))"
    and asleep: "\<And>j. j \<in> set (cond_sleepers g) \<Longrightarrow> j < n \<and> (\<exists>cs. ls j = Get_Sleep cs)"
    using inv i by (auto simp: sem_inv_def)
  note upd = sum_upd[where f = "\<lambda>_ b. of_bool b"]
  show ?thesis
  proof (cases "\<exists>cs. ls i = Put_Signal cs")
    case True
    then obtain cs where l: "ls i = Put_Signal cs" by blast
    from sem_signal_step[OF s[unfolded l] awake] obtain j where
      j: "j \<in> set (cond_sleepers g)" "g' = g\<lparr>cond_sleepers := removeAll j (cond_sleepers g)\<rparr>" "l' = Unlock cs" by blast
    with asleep obtain cs' where lj: "j < n" "ls j = Get_Sleep cs'" by blast
    with l have "i \<noteq> j" by auto
    have "coming g' k ((ls(i := l')) k) = (?h(i := False, j := True)) k" for k
      using j lj l \<open>i \<noteq> j\<close> coming_other[of k g' g] by (auto simp: coming_def)
    then have "(\<Sum>k<n. of_bool (coming g' k ((ls(i := l')) k))) = (\<Sum>k<n. of_bool ((?h(i := False, j := True)) k) :: int)"
      by simp
    also have "\<dots> = (\<Sum>k<n. of_bool (?h k))"
      using upd[OF lj(1), of "?h(i := False)" True] upd[OF i, of ?h False] j l lj \<open>i \<noteq> j\<close> by (simp add: coming_def del: sum_of_bool_eq)
    finally have "(\<Sum>k<n. of_bool (coming g' k ((ls(i := l')) k))) = (\<Sum>k<n. of_bool (?h k) :: int)" .
    moreover have "cond_sleepers g \<noteq> []" "counter g' = counter g" using j by auto
    ultimately show ?thesis using before by simp
  next
    case False
    note E = sem_coming_step[OF s False ok small awake]
    have "coming g' k ((ls(i := l')) k) = (?h(i := coming g' i l')) k" for k
      using E coming_other[of k g' g] by auto
    then have "(\<Sum>k<n. of_bool (coming g' k ((ls(i := l')) k))) = (\<Sum>k<n. of_bool ((?h(i := coming g' i l')) k) :: int)"
      by simp
    also have "\<dots> = (\<Sum>k<n. of_bool (?h k)) - of_bool (?h i) + of_bool (coming g' i l')"
      by (rule upd[OF i])
    finally have sum: "(\<Sum>k<n. of_bool (coming g' k ((ls(i := l')) k))) =
      (\<Sum>k<n. of_bool (?h k)) - of_bool (?h i) + (of_bool (coming g' i l') :: int)" .
    have "0 \<le> (\<Sum>k<n. of_bool (coming g' k ((ls(i := l')) k)) :: int)" by (rule sum_nonneg) simp
    with sum E before show ?thesis by (auto simp del: sum_of_bool_eq fun_upd_apply)
  qed
qed

lemma ahead_small:
  fixes n :: nat
  assumes "counter g + (\<Sum>i<n. puts (ahead (ls i))) < 2 ^ 31" and "i < n"
  shows "counter g + puts (ahead (ls i)) < 2 ^ 31"
proof -
  have "puts (ahead (ls i)) \<le> (\<Sum>i<n. puts (ahead (ls i)))"
    by (rule member_le_sum) (use assms(2) puts_nonneg in auto)
  with assms(1) show ?thesis by linarith
qed

definition no_overflow :: "int \<Rightarrow> (nat \<Rightarrow> sem_call list) \<Rightarrow> nat \<Rightarrow> bool" where
  "no_overflow c calls n \<longleftrightarrow> 0 \<le> c \<and> c + (\<Sum>i<n. puts (calls i)) < 2 ^ 31"

lemma sem_inv_step:
  assumes inv: "sem_inv c calls n g ls" and small: "no_overflow c calls n"
    and i: "i < n" and s: "(g', l') \<in> set (sem_prog spurious i g (ls i))"
  shows "sem_inv c calls n g' (ls(i := l'))"
proof -
  have ex: "sl.excl n g ls" and loc: "\<And>j. j < n \<Longrightarrow> local_ok g (ls j)" and nn: "0 \<le> counter g"
    and sl: "distinct (cond_sleepers g)" "\<And>j. j \<in> set (cond_sleepers g) \<Longrightarrow> j < n \<and> (\<exists>cs. ls j = Get_Sleep cs)"
    and sums: "counter g + (\<Sum>i<n. puts (ahead (ls i))) \<le> c + (\<Sum>i<n. puts (calls i))"
      "counter g + (\<Sum>i<n. worth (ahead (ls i))) = c + (\<Sum>i<n. worth (calls i))"
    using inv by (auto simp: sem_inv_def)
  have "counter g + puts (ahead (ls i)) < 2 ^ 31"
    by (rule ahead_small[OF _ i]) (use sums(1) small in \<open>simp add: no_overflow_def\<close>)
  note small = this
  note C = sem_counter_step[OF s loc[OF i] nn small]
  note S = sem_sleepers_step[OF s _ sl(1)]
  have "local_ok g' ((ls(i := l')) j)" if j: "j < n" for j
  proof (cases "j = i")
    case False
    then have "local_ok g' (ls j)"
    proof (cases "counter g' = counter g")
      case True
      then show ?thesis using loc[OF j] by (cases "ls j") (simp_all add: local_ok_def)
    next
      case diff: False
      with C have "has_mutex (ls i)" by blast
      from sl.excl_other[OF ex this i j False] show ?thesis
        by (cases "ls j") (simp_all add: local_ok_def has_mutex_def)
    qed
    with False show ?thesis by simp
  qed (use C in simp)
  moreover have "j < n \<and> (\<exists>cs. (ls(i := l')) j = Get_Sleep cs)" if "j \<in> set (cond_sleepers g')" for j
    using that S sl(2) i by (cases "j = i") auto
  moreover have "sl.excl n g' (ls(i := l'))" using sl.excl_step[OF ex i s] .
  moreover have "counter g' \<le> (\<Sum>k<n. of_bool (coming g' k ((ls(i := l')) k)))" if "cond_sleepers g' \<noteq> []"
    using sem_wake_inv[OF inv i s small that] .
  ultimately show ?thesis
    unfolding sem_inv_def
    using C S sl(2) sums sum_upd[OF i, of "\<lambda>_ l. puts (ahead l)" ls l'] sum_upd[OF i, of "\<lambda>_ l. worth (ahead l)" ls l']
    by (simp del: fun_upd_apply)
qed

lemma sem_inv_start: "no_overflow c calls n \<Longrightarrow> sem_inv c calls n (fst (sem_start c calls)) (snd (sem_start c calls))"
  using sl.excl_start[where n = n and c = c and calls = calls]
  by (simp add: sem_inv_def sem_start_def no_overflow_def local_ok_def)

text \<open>The states that respect the limit of \<^verbatim>\<open>int\<close> are those of the contract; without it the counter wraps.\<close>

interpretation si: invariant "sem_prog spurious" n "sem_start c calls" "\<lambda>g ls. no_overflow c calls n \<longrightarrow> sem_inv c calls n g ls"
  for spurious n c calls
proof
  fix g ls i g' l'
  assume "no_overflow c calls n \<longrightarrow> sem_inv c calls n g ls" "i < n" "(g', l') \<in> set (sem_prog spurious i g (ls i))"
  then show "no_overflow c calls n \<longrightarrow> sem_inv c calls n g' (ls(i := l'))" using sem_inv_step by blast
qed (use sem_inv_start in blast)

lemma sem_stuck:
  assumes inv: "sem_inv c calls n g ls" and stuck: "\<And>i. i < n \<Longrightarrow> sem_prog spurious i g (ls i) = []" and i: "i < n"
  shows "ls i = Calls [] \<or> i \<in> set (cond_sleepers g) \<and> counter g = 0"
proof -
  have ex: "sl.excl n g ls" using inv by (simp add: sem_inv_def)
  have "\<not> has_mutex (ls j)" if "j < n" for j
    using stuck[OF that] by (cases "ls j") (auto simp: has_mutex_def sem_defs split: if_splits)
  then have free: "\<not> mutex g" using ex by (auto simp: sl.excl_def)
  have each: "ls j = Calls [] \<or> (\<exists>cs. ls j = Get_Sleep cs) \<and> j \<in> set (cond_sleepers g)" if "j < n" for j
    using stuck[OF that] free by (cases "ls j") (auto simp: sem_defs split: if_splits list.splits sem_call.splits)
  have "counter g = 0" if "cond_sleepers g \<noteq> []"
  proof -
    have "counter g \<le> (\<Sum>k<n. of_bool (coming g k (ls k)))" using inv that by (simp add: sem_inv_def)
    also have "\<dots> = 0" by (rule sum.neutral) (use each in \<open>force simp: coming_def\<close>)
    finally show ?thesis using inv by (simp add: sem_inv_def)
  qed
  with each[OF i] show ?thesis by (cases "cond_sleepers g = []") auto
qed

section \<open>Properties\<close>

text \<open>C37: in every interleaving of any calls of any threads, spurious wake-ups included, the counter is its
  first value plus the puts minus the gets made so far, it is never negative, and at most one thread
  holds the mutex, provided that the puts cannot bring the counter above the largest \<^verbatim>\<open>int\<close>.\<close>

theorem semaphore_counts:
  assumes "reach (sem_prog spurious) n (sem_start c calls) (g, ls)" and "no_overflow c calls n"
  shows "counter g = c + (\<Sum>i<n. worth (calls i) - worth (ahead (ls i))) \<and> 0 \<le> counter g \<and>
    (\<forall>i j. i < n \<longrightarrow> j < n \<longrightarrow> has_mutex (ls i) \<longrightarrow> has_mutex (ls j) \<longrightarrow> i = j)"
proof -
  have "sem_inv c calls n g ls" using si.reach_inv[OF assms(1)] assms(2) by blast
  with sl.mutual_exclusion[OF assms(1)] show ?thesis by (simp add: sem_inv_def sum_subtractf)
qed

theorem semaphore_counts_witness:
  "\<exists>g ls. reach (sem_prog False) 2 (sem_start 0 ((\<lambda>_. [Sem_Get])(0 := [Sem_Put, Sem_Put]))) (g, ls) \<and> counter g = 1"
proof -
  let ?c = "(\<lambda>_ :: nat. [Sem_Get])(0 := [Sem_Put, Sem_Put])"
  let ?g = "\<lparr>counter = 1, mutex = False, cond_sleepers = []\<rparr>"
  let ?ls = "(\<lambda>i. Calls (?c i))(0 := Calls [], 1 := Calls [])"
  have r: "reach (sem_prog False) 2 (sem_start 0 ?c) (?g, ?ls)"
    by (rule exec_reach[where sch = "[(1, 0), (1, 0), (1, 0), (0, 0), (0, 0), (0, 0), (0, 0), (1, 0), (1, 0), (1, 0), (1, 0),
        (0, 0), (0, 0), (0, 0), (0, 0)]"])
      (auto simp: sem_start_def sem_defs wrap_int_def fun_eq_iff)
  have "no_overflow 0 ?c 2" by (simp add: no_overflow_def numeral_2_eq_2 puts_def)
  from semaphore_counts[OF r this] have "counter ?g = 1" by simp
  with r show ?thesis by blast
qed

text \<open>C38: no wake-up is lost. When no thread can take a step, every thread has made all its calls or sleeps in
  \<^verbatim>\<open>semaphore_get\<close>, and if one sleeps the counter is 0; while threads sleep, at least as many as the
  counter says are on their way to lower it or to wake one.\<close>

theorem semaphore_wakes:
  assumes "reach (sem_prog spurious) n (sem_start c calls) (g, ls)" and "no_overflow c calls n"
  shows "((\<exists>i < n. sem_prog spurious i g (ls i) \<noteq> []) \<or>
      (\<forall>i < n. ls i = Calls [] \<or> i \<in> set (cond_sleepers g) \<and> counter g = 0)) \<and>
    (cond_sleepers g = [] \<or> counter g \<le> (\<Sum>i<n. of_bool (coming g i (ls i))))"
proof -
  have inv: "sem_inv c calls n g ls" using si.reach_inv[OF assms(1)] assms(2) by blast
  with sem_stuck[OF inv, of spurious] show ?thesis unfolding sem_inv_def by blast
qed

theorem semaphore_wakes_witness:
  "\<exists>g ls. reach (sem_prog False) 2 (sem_start 0 ((\<lambda>_. [Sem_Get])(0 := [Sem_Put]))) (g, ls) \<and>
     cond_sleepers g = [1] \<and> counter g = 1 \<and> coming g 0 (ls 0)"
proof -
  let ?c = "(\<lambda>_ :: nat. [Sem_Get])(0 := [Sem_Put])"
  let ?g = "\<lparr>counter = 1, mutex = True, cond_sleepers = [1]\<rparr>"
  let ?ls = "(\<lambda>i. Calls (?c i))(0 := Put_Signal [], 1 := Get_Sleep [])"
  have r: "reach (sem_prog False) 2 (sem_start 0 ?c) (?g, ?ls)"
    by (rule exec_reach[where sch = "[(1, 0), (1, 0), (1, 0), (0, 0), (0, 0)]"])
      (auto simp: sem_start_def sem_defs wrap_int_def fun_eq_iff)
  have "no_overflow 0 ?c 2" by (simp add: no_overflow_def numeral_2_eq_2 puts_def)
  from semaphore_wakes[OF r this] have "coming ?g 0 (?ls 0)" by (simp add: numeral_2_eq_2 coming_def)
  with r show ?thesis by (intro exI[of _ ?g] exI[of _ ?ls]) simp
qed

end
