(* ===== verification/Sem_Shell.thy ===== *)
theory Sem_Shell
  imports C_Text
begin

text \<open>
  The interpreter of \<^verbatim>\<open>lecture_examples/7_ipc/8_sem.c\<close>: lines of input are operations on an array of three
  semaphores; between \<open>begin\<close> and \<open>commit\<close> they are collected and then given to one call of \<^verbatim>\<open>semop\<close>.
  The semaphores belong to the system: what \<^verbatim>\<open>semop\<close>, \<^verbatim>\<open>GETALL\<close> and \<^verbatim>\<open>IPC_RMID\<close> do to its state is a
  parameter of type \<open>sem_calls\<close>, and \<^verbatim>\<open>semop\<close> may never return. The result of \<^verbatim>\<open>getline\<close> is a line with its
  newline; after the last line given here the program waits for the next one. The array of operations, the
  number and the command are not initialised: their first contents are parameters.
\<close>

section \<open>The code\<close>

record sembuf =
  sem_num :: int
  sem_op :: int

record 's sem_calls =
  semop :: "sembuf list \<Rightarrow> 's \<Rightarrow> (bool \<times> 's) option"
  getall :: "'s \<Rightarrow> (int \<times> int \<times> int) option"
  setall :: "int list \<Rightarrow> 's \<Rightarrow> 's"
  rmid :: "'s \<Rightarrow> bool \<times> 's"

datatype sem_line =
    Sem_Error
  | Values int int int
  | Already_Exists
  | Connected int
  | Created int
  | Initialized
  | Unknown_Operation

record 's sem_ui =
  sys :: 's
  ops :: "sembuf list"
  ops_count :: nat
  is_inside_txn :: bool
  num :: int
  cmd_char :: char
  printed :: "sem_line list"

definition out :: "sem_line \<Rightarrow> 's sem_ui \<Rightarrow> 's sem_ui" where
  "out x u = u\<lparr>printed := printed u @ [x]\<rparr>"

definition print_all_sems :: "'s sem_calls \<Rightarrow> 's sem_ui \<Rightarrow> 's sem_ui" where
  "print_all_sems C u = (case getall C (sys u) of None \<Rightarrow> out Sem_Error u | Some (a, b, c) \<Rightarrow> out (Values a b c) u)"

definition init_sems :: "'s sem_calls \<Rightarrow> 's sem_ui \<Rightarrow> 's sem_ui" where
  "init_sems C u = print_all_sems C (out Initialized (u\<lparr>sys := setall C [1, 2, 3] (sys u)\<rparr>))"

text \<open>\<^verbatim>\<open>sscanf(line, "%d %c", ...)\<close>: what does not match leaves the variables as they are.\<close>

definition scan_op :: "string \<Rightarrow> int \<times> char \<Rightarrow> int \<times> char" where
  "scan_op w v = (case scan_int w of None \<Rightarrow> v
     | Some (n, rest) \<Rightarrow> (case dropWhile is_space rest of [] \<Rightarrow> (n, snd v) | c # _ \<Rightarrow> (n, c)))"

definition ushort :: "int \<Rightarrow> int" where
  "ushort z = z mod 2 ^ 16"

definition semop_result :: "'s sem_calls \<Rightarrow> sembuf list \<Rightarrow> ('s sem_ui \<Rightarrow> 's sem_ui) \<Rightarrow> 's sem_ui \<Rightarrow> 's sem_ui run" where
  "semop_result C os done u = (case semop C os (sys u) of None \<Rightarrow> None
     | Some (ok, s) \<Rightarrow> ret (if ok then print_all_sems C (done (u\<lparr>sys := s\<rparr>)) else out Sem_Error (u\<lparr>sys := s\<rparr>)))"

definition run_op :: "'s sem_calls \<Rightarrow> string \<Rightarrow> 's sem_ui \<Rightarrow> 's sem_ui run" where
  "run_op C w u = (let (n, c) = scan_op w (num u, cmd_char u); u = u\<lparr>num := n, cmd_char := c\<rparr> in
     if c \<noteq> CHR ''-'' \<and> c \<noteq> CHR ''+'' then ret (out Unknown_Operation u)
     else if ops_count u \<ge> length (ops u) then fault Out_Of_Bounds
     else
       let op = \<lparr>sem_num = ushort (n - 1), sem_op = (if c = CHR ''-'' then - 1 else 1)\<rparr>;
         u = u\<lparr>ops := (ops u)[ops_count u := op]\<rparr> in
       if \<not> is_inside_txn u then semop_result C [op] (\<lambda>u. u) u
       else ret (u\<lparr>ops_count := ops_count u + 1\<rparr>))"

text \<open>One turn of the main loop; the flag says whether the loop goes on.\<close>

definition run_line :: "'s sem_calls \<Rightarrow> string \<Rightarrow> 's sem_ui \<Rightarrow> (bool \<times> 's sem_ui) run" where
  "run_line C line u =
     (if line = [] then fault Out_Of_Bounds
      else let w = butlast line in
        if w = ''begin'' then ret (True, u\<lparr>is_inside_txn := True\<rparr>)
        else if w = ''commit'' then
          bnd (semop_result C (take (ops_count u) (ops u)) (\<lambda>u. u\<lparr>is_inside_txn := False, ops_count := 0\<rparr>) u) (\<lambda>u. ret (True, u))
        else if w = ''rollback'' then ret (True, u\<lparr>is_inside_txn := False, ops_count := 0\<rparr>)
        else if w = ''delete'' then
          (let (ok, s) = rmid C (sys u); u = u\<lparr>sys := s\<rparr> in ret (False, if ok then u else out Sem_Error u))
        else if w = ''quit'' then ret (False, u)
        else if w = ''show'' then ret (True, print_all_sems C u)
        else bnd (run_op C w u) (\<lambda>u. ret (True, u)))"

fun run_lines :: "'s sem_calls \<Rightarrow> string list \<Rightarrow> 's sem_ui \<Rightarrow> (bool \<times> 's sem_ui) run" where
  "run_lines C [] u = ret (True, u)"
| "run_lines C (line # lines) u = bnd (run_line C line u) (\<lambda>(on, u). if on then run_lines C lines u else ret (False, u))"

definition sem_ui_start :: "'s \<Rightarrow> sembuf list \<Rightarrow> int \<Rightarrow> char \<Rightarrow> 's sem_ui" where
  "sem_ui_start s junk n c = \<lparr>sys = s, ops = junk, ops_count = 0, is_inside_txn = False, num = n, cmd_char = c, printed = []\<rparr>"

text \<open>
  The start of \<^verbatim>\<open>main\<close>: \<open>create\<close> and \<open>connect\<close> are the results of the two calls of \<^verbatim>\<open>semget\<close>, \<open>eexist\<close> tells whether
  the first one failed because the array exists.
\<close>

definition open_sems :: "'s sem_calls \<Rightarrow> int \<Rightarrow> bool \<Rightarrow> int \<Rightarrow> 's sem_ui \<Rightarrow> bool \<times> 's sem_ui" where
  "open_sems C create eexist connect u =
     (if create = - 1 then
        (if \<not> eexist then (False, out Sem_Error u)
         else let u = out Already_Exists u in
           if connect = - 1 then (False, out Sem_Error u) else (True, out (Connected connect) u))
      else (True, init_sems C (out (Created create) u)))"

definition sem_main :: "'s sem_calls \<Rightarrow> int \<Rightarrow> bool \<Rightarrow> int \<Rightarrow> string list \<Rightarrow> 's sem_ui \<Rightarrow> (bool \<times> 's sem_ui) run" where
  "sem_main C create eexist connect lines u = (let (go, u) = open_sems C create eexist connect u in
     if go then run_lines C lines u else ret (False, u))"

section \<open>Well-formed states\<close>

text \<open>Operations are only kept inside a transaction, and they are below the end of the array.\<close>

definition ui_ok :: "'s sem_ui \<Rightarrow> bool" where
  "ui_ok u \<longleftrightarrow> length (ops u) = 100 \<and> ops_count u \<le> 100 \<and> (\<not> is_inside_txn u \<longrightarrow> ops_count u = 0)"

lemma out_simps [simp]:
  "sys (out x u) = sys u" "ops (out x u) = ops u" "ops_count (out x u) = ops_count u"
  "is_inside_txn (out x u) = is_inside_txn u" "num (out x u) = num u" "cmd_char (out x u) = cmd_char u"
  by (simp_all add: out_def)

lemma print_all_sems_simps [simp]:
  "sys (print_all_sems C u) = sys u" "ops (print_all_sems C u) = ops u" "ops_count (print_all_sems C u) = ops_count u"
  "is_inside_txn (print_all_sems C u) = is_inside_txn u" "num (print_all_sems C u) = num u"
  "cmd_char (print_all_sems C u) = cmd_char u"
  by (simp_all add: print_all_sems_def split: option.split prod.split)

lemma open_sems_ok: "ui_ok u \<Longrightarrow> ui_ok (snd (open_sems C create eexist connect u))"
  by (auto simp: open_sems_def init_sems_def ui_ok_def Let_def)

lemma semop_result_ret:
  "semop_result C os done u = ret u' \<Longrightarrow> \<exists>ok s. semop C os (sys u) = Some (ok, s) \<and>
     u' = (if ok then print_all_sems C (done (u\<lparr>sys := s\<rparr>)) else out Sem_Error (u\<lparr>sys := s\<rparr>))"
proof -
  assume r: "semop_result C os done u = ret u'"
  then obtain ok s where k: "semop C os (sys u) = Some (ok, s)"
    by (cases "semop C os (sys u)"; cases "the (semop C os (sys u))") (simp_all add: semop_result_def)
  with r show ?thesis by (intro exI[of _ ok] exI[of _ s]) (simp add: semop_result_def)
qed

lemma run_op_ok: "ui_ok u \<Longrightarrow> run_op C w u = ret u' \<Longrightarrow> ui_ok u'"
proof -
  assume ok: "ui_ok u" and r: "run_op C w u = ret u'"
  obtain n c where v: "scan_op w (num u, cmd_char u) = (n, c)" by force
  show ?thesis
  proof (cases "c \<noteq> CHR ''-'' \<and> c \<noteq> CHR ''+''")
    case True
    with ok r v show ?thesis by (auto simp: run_op_def ui_ok_def)
  next
    case False
    with ok r v show ?thesis
      by (auto simp: run_op_def ui_ok_def Let_def split: if_split_asm dest!: semop_result_ret)
  qed
qed

lemma run_line_ok:
  assumes "ui_ok u" and "run_line C line u = ret (on, u')"
  shows "ui_ok u'"
proof -
  have op: "ui_ok v" if "run_op C w u = ret v" for w v using run_op_ok[OF assms(1) that] .
  show ?thesis
    using assms op
    by (auto simp: run_line_def ui_ok_def Let_def bnd_def split: if_splits prod.splits option.splits sum.splits
        dest!: semop_result_ret)
qed

lemma run_lines_ok: "ui_ok u \<Longrightarrow> run_lines C lines u = ret (on, u') \<Longrightarrow> ui_ok u'"
proof (induction lines arbitrary: u)
  case (Cons line lines)
  obtain on1 u1 where l: "run_line C line u = ret (on1, u1)"
    using Cons.prems(2) by (cases "run_line C line u") (auto simp: bnd_def split: sum.splits)
  with Cons run_line_ok[OF Cons.prems(1) l] show ?case by (cases on1) auto
qed simp

section \<open>Transactions\<close>

text \<open>A line that is none of the keywords.\<close>

definition op_line :: "string \<Rightarrow> bool" where
  "op_line w \<longleftrightarrow> w \<notin> set [''begin'', ''commit'', ''rollback'', ''delete'', ''quit'', ''show'']"

text \<open>
  What a transaction collects from such lines, starting with the variables \<open>v\<close>: the operations, and how
  many of the lines are complained about.
\<close>

fun collected :: "string list \<Rightarrow> int \<times> char \<Rightarrow> sembuf list \<times> nat" where
  "collected [] v = ([], 0)"
| "collected (w # ws) v = (let v = scan_op w v; (os, k) = collected ws v in
     if snd v \<noteq> CHR ''-'' \<and> snd v \<noteq> CHR ''+'' then (os, k + 1)
     else (\<lparr>sem_num = ushort (fst v - 1), sem_op = (if snd v = CHR ''-'' then - 1 else 1)\<rparr> # os, k))"

definition last_op :: "string list \<Rightarrow> int \<times> char \<Rightarrow> int \<times> char" where
  "last_op ws v = fold scan_op ws v"

definition line_of :: "string \<Rightarrow> string" where
  "line_of w = w @ [CHR 0x0A]"

lemma run_line_of:
  "op_line w \<Longrightarrow> run_line C (line_of w) u = bnd (run_op C w u) (\<lambda>u. ret (True, u))"
  by (simp add: run_line_def line_of_def op_line_def Let_def)

lemma run_lines_append:
  "run_lines C (ls @ ls') u = bnd (run_lines C ls u) (\<lambda>(on, u). if on then run_lines C ls' u else ret (False, u))"
proof (induction ls arbitrary: u)
  case (Cons l ls)
  show ?case
  proof (cases "run_line C l u")
    case (Some r)
    with Cons show ?thesis by (cases r) (auto simp: bnd_def split: prod.splits)
  qed simp
qed simp

lemma collect_lines:
  assumes "list_all op_line ws" and "is_inside_txn u" and "length (ops u) = 100"
    and "collected ws (num u, cmd_char u) = (os, k)" and "ops_count u + length os \<le> 100"
  shows "run_lines C (map line_of ws) u = ret (True, u\<lparr>ops := take (ops_count u) (ops u) @ os @ drop (ops_count u + length os) (ops u),
    ops_count := ops_count u + length os, num := fst (last_op ws (num u, cmd_char u)), cmd_char := snd (last_op ws (num u, cmd_char u)),
    printed := printed u @ replicate k Unknown_Operation\<rparr>)"
  using assms
proof (induction ws arbitrary: u os k)
  case Nil
  then show ?case by (simp add: last_op_def)
next
  case (Cons w ws)
  obtain n c where v: "scan_op w (num u, cmd_char u) = (n, c)" by force
  obtain os' k' where r: "collected ws (n, c) = (os', k')" by force
  let ?u = "u\<lparr>num := n, cmd_char := c\<rparr>"
  show ?case
  proof (cases "c \<noteq> CHR ''-'' \<and> c \<noteq> CHR ''+''")
    case True
    then have "run_op C w u = ret (out Unknown_Operation ?u)"
      using v by (simp add: run_op_def)
    moreover have "os = os'" "k = Suc k'" using Cons.prems(4) True v r by (simp_all add: Let_def)
    ultimately show ?thesis
      using Cons.IH[of "out Unknown_Operation ?u" os' k'] Cons.prems True v r
      by (simp add: run_line_of last_op_def out_def)
  next
    case False
    let ?op = "\<lparr>sem_num = ushort (n - 1), sem_op = (if c = CHR ''-'' then - 1 else 1)\<rparr>"
    let ?v = "?u\<lparr>ops := (ops u)[ops_count u := ?op], ops_count := ops_count u + 1\<rparr>"
    have os: "os = ?op # os'" "k = k'" using Cons.prems(4) False v r by (simp_all add: Let_def split: if_splits)
    with Cons.prems have room: "ops_count u < 100" by simp
    have "run_op C w u = ret ?v"
      using v False room Cons.prems by (auto simp: run_op_def Let_def)
    moreover have "run_lines C (map line_of ws) ?v = ret (True, ?v\<lparr>ops := take (ops_count ?v) (ops ?v) @ os' @
        drop (ops_count ?v + length os') (ops ?v), ops_count := ops_count ?v + length os',
        num := fst (last_op ws (num ?v, cmd_char ?v)), cmd_char := snd (last_op ws (num ?v, cmd_char ?v)),
        printed := printed ?v @ replicate k' Unknown_Operation\<rparr>)"
      using Cons.prems r os by (intro Cons.IH) simp_all
    moreover have "take (Suc (ops_count u)) ((ops u)[ops_count u := ?op]) = take (ops_count u) (ops u) @ [?op]"
      using room Cons.prems(3) by (simp add: take_Suc_conv_app_nth)
    ultimately show ?thesis
      using Cons.prems v r os room
      by (simp add: run_line_of last_op_def)
  qed
qed

lemma collect_overflow:
  assumes "list_all op_line ws" and "is_inside_txn u" and "length (ops u) = 100"
    and "ops_count u \<le> 100" and "100 < ops_count u + length (fst (collected ws (num u, cmd_char u)))"
  shows "run_lines C (map line_of ws) u = fault Out_Of_Bounds"
  using assms
proof (induction ws arbitrary: u)
  case (Cons w ws)
  obtain n c where v: "scan_op w (num u, cmd_char u) = (n, c)" by force
  obtain os' k' where r: "collected ws (n, c) = (os', k')" by force
  let ?u = "u\<lparr>num := n, cmd_char := c\<rparr>"
  show ?case
  proof (cases "c \<noteq> CHR ''-'' \<and> c \<noteq> CHR ''+''")
    case True
    then have "run_op C w u = ret (out Unknown_Operation ?u)"
      using v by (simp add: run_op_def)
    then show ?thesis
      using Cons.IH[of "out Unknown_Operation ?u"] Cons.prems True v r by (simp add: run_line_of out_def)
  next
    case False
    let ?op = "\<lparr>sem_num = ushort (n - 1), sem_op = (if c = CHR ''-'' then - 1 else 1)\<rparr>"
    let ?v = "?u\<lparr>ops := (ops u)[ops_count u := ?op], ops_count := ops_count u + 1\<rparr>"
    show ?thesis
    proof (cases "ops_count u < 100")
      case True
      then have "run_op C w u = ret ?v"
        using v False Cons.prems by (auto simp: run_op_def Let_def)
      then show ?thesis
        using Cons.IH[of ?v] Cons.prems False v r True by (simp add: run_line_of Let_def split: if_splits)
    next
      case full: False
      then have "run_op C w u = fault Out_Of_Bounds"
        using v False Cons.prems by (auto simp: run_op_def Let_def)
      then show ?thesis using Cons.prems by (simp add: run_line_of)
    qed
  qed
qed simp

section \<open>Properties\<close>

lemma begin_line: "run_line C (line_of ''begin'') u = ret (True, u\<lparr>is_inside_txn := True\<rparr>)"
  by (simp add: run_line_def line_of_def)

lemma commit_line:
  "run_line C (line_of ''commit'') u =
    bnd (semop_result C (take (ops_count u) (ops u)) (\<lambda>u. u\<lparr>is_inside_txn := False, ops_count := 0\<rparr>) u) (\<lambda>u. ret (True, u))"
  by (simp add: run_line_def line_of_def)

lemma rollback_line: "run_line C (line_of ''rollback'') u = ret (True, u\<lparr>is_inside_txn := False, ops_count := 0\<rparr>)"
  by (simp add: run_line_def line_of_def)

text \<open>Lines as a user types them: a number, a blank, a sign.\<close>

definition typed :: "int \<times> bool \<Rightarrow> string" where
  "typed x = show_int (fst x) @ CHR '' '' # [if snd x then CHR ''+'' else CHR ''-'']"

definition typed_op :: "int \<times> bool \<Rightarrow> sembuf" where
  "typed_op x = \<lparr>sem_num = ushort (fst x - 1), sem_op = (if snd x then 1 else - 1)\<rparr>"

lemma scan_typed: "fits_int (fst x) \<Longrightarrow> scan_op (typed x) v = (fst x, if snd x then CHR ''+'' else CHR ''-'')"
  by (simp add: scan_op_def typed_def scan_show digit_def is_space_def)

lemma collected_typed: "\<forall>x \<in> set xs. fits_int (fst x) \<Longrightarrow> collected (map typed xs) v = (map typed_op xs, 0)"
  by (induction xs arbitrary: v) (simp_all add: scan_typed typed_op_def Let_def)

text \<open>Where a transaction of the lines \<open>ws\<close> ends when its \<open>semop\<close> returns.\<close>

definition after_lines :: "string list \<Rightarrow> 's sem_ui \<Rightarrow> 's sem_ui" where
  "after_lines ws u = (let v = last_op ws (num u, cmd_char u); (os, k) = collected ws (num u, cmd_char u) in
     u\<lparr>ops := os @ drop (length os) (ops u), num := fst v, cmd_char := snd v,
       printed := printed u @ replicate k Unknown_Operation\<rparr>)"

lemma txn_lines:
  assumes "ui_ok u" and "\<not> is_inside_txn u" and "list_all op_line ws"
    and "collected ws (num u, cmd_char u) = (os, k)" and "length os \<le> 100"
  shows "run_lines C (line_of ''begin'' # map line_of ws @ ls) u =
    run_lines C ls ((after_lines ws u)\<lparr>is_inside_txn := True, ops_count := length os\<rparr>)"
  using assms collect_lines[of ws "u\<lparr>is_inside_txn := True\<rparr>" os k C]
  by (cases u) (simp add: begin_line run_lines_append ui_ok_def after_lines_def Let_def)

text \<open>C39: a transaction is one call of \<^verbatim>\<open>semop\<close> with the operations of its lines, in their order: nothing happens
  before \<open>commit\<close>, nothing at all after \<open>rollback\<close>, and a failed commit leaves the transaction open. More
  than 100 operations are written outside the array.\<close>

theorem transaction_atomic:
  assumes "ui_ok u" and "\<not> is_inside_txn u" and "list_all op_line ws"
    and "collected ws (num u, cmd_char u) = (os, k)"
  shows "if length os > 100 then run_lines C (line_of ''begin'' # map line_of ws) u = fault Out_Of_Bounds
    else run_lines C (line_of ''begin'' # map line_of ws @ [line_of ''rollback'']) u = ret (True, after_lines ws u) \<and>
      run_lines C (line_of ''begin'' # map line_of ws @ [line_of ''commit'']) u =
       (case semop C os (sys u) of None \<Rightarrow> None
        | Some (ok, s) \<Rightarrow> ret (True, let u = (after_lines ws u)\<lparr>sys := s\<rparr> in
            if ok then print_all_sems C u else out Sem_Error (u\<lparr>is_inside_txn := True, ops_count := length os\<rparr>)))"
proof (cases "length os > 100")
  case True
  then show ?thesis
    using assms collect_overflow[of ws "u\<lparr>is_inside_txn := True\<rparr>" C] by (simp add: begin_line ui_ok_def)
next
  case False
  let ?u = "(after_lines ws u)\<lparr>is_inside_txn := True, ops_count := length os\<rparr>"
  have fields: "take (length os) (ops ?u) = os" "sys ?u = sys u"
    using assms by (simp_all add: after_lines_def Let_def)
  have closed: "?u\<lparr>is_inside_txn := False, ops_count := 0\<rparr> = after_lines ws u"
    using assms by (cases u) (simp add: after_lines_def ui_ok_def Let_def)
  then have closed': "?u\<lparr>sys := s, is_inside_txn := False, ops_count := 0\<rparr> = (after_lines ws u)\<lparr>sys := s\<rparr>" for s
    by (cases "after_lines ws u") simp
  have swap: "v\<lparr>is_inside_txn := a, ops_count := m, sys := s\<rparr> = v\<lparr>sys := s, is_inside_txn := a, ops_count := m\<rparr>"
    for v :: "'a sem_ui" and a m s
    by (cases v) simp
  have "run_lines C [line_of ''commit''] ?u = (case semop C os (sys u) of None \<Rightarrow> None
        | Some (ok, s) \<Rightarrow> ret (True, let u = (after_lines ws u)\<lparr>sys := s\<rparr> in
            if ok then print_all_sems C u else out Sem_Error (u\<lparr>is_inside_txn := True, ops_count := length os\<rparr>)))"
    using fields closed' by (simp add: swap commit_line semop_result_def Let_def split: option.split prod.split)
  moreover have "run_lines C [line_of ''rollback''] ?u = ret (True, after_lines ws u)"
    using closed by (simp add: rollback_line)
  ultimately show ?thesis
    using txn_lines[OF assms leI[OF False]] by (simp only: if_not_P[OF False] simp_thms)
qed

text \<open>Semaphores whose operations are performed all at once, or wait.\<close>

definition demo_calls :: "int list sem_calls" where
  "demo_calls = \<lparr>semop = \<lambda>os vs. (let vs = fold (\<lambda>op vs. vs[nat (sem_num op) := vs ! nat (sem_num op) + sem_op op]) os vs in
       if list_all (\<lambda>v. 0 \<le> v) vs then Some (True, vs) else None),
     getall = \<lambda>vs. Some (vs ! 0, vs ! 1, vs ! 2), setall = \<lambda>ws vs. ws, rmid = \<lambda>vs. (True, [])\<rparr>"

theorem transaction_atomic_witness:
  "\<exists>u. run_lines demo_calls (map line_of [''begin'', ''1 -'', ''3 +'', ''commit''])
     (sem_ui_start [1, 2, 3] (replicate 100 \<lparr>sem_num = 0, sem_op = 0\<rparr>) 0 CHR ''x'') = ret (True, u) \<and>
     sys u = [0, 2, 4] \<and> printed u = [Values 0 2 4]"
proof -
  let ?u = "sem_ui_start [1, 2, 3 :: int] (replicate 100 \<lparr>sem_num = 0, sem_op = 0\<rparr>) 0 CHR ''x''"
  have typed: "[''1 -'', ''3 +''] = map typed [(1, False), (3, True)]"
    by (simp add: typed_def show_int_def show_nat.simps)
  have c: "collected [''1 -'', ''3 +''] (num ?u, cmd_char ?u) = (map typed_op [(1, False), (3, True)], 0)"
    unfolding typed by (rule collected_typed) (simp add: fits_int_def int_min_def int_max_def)
  have "ui_ok ?u" "\<not> is_inside_txn ?u" "list_all op_line [''1 -'', ''3 +'']"
    by (simp_all add: ui_ok_def sem_ui_start_def op_line_def)
  from transaction_atomic[OF this c, of demo_calls] c show ?thesis
    by (simp add: demo_calls_def sem_ui_start_def typed_op_def ushort_def print_all_sems_def out_def after_lines_def Let_def)
qed

lemma semop_result_safe: "semop_result C os done u \<noteq> fault e"
proof (cases "semop C os (sys u)")
  case (Some r)
  then show ?thesis by (cases r) (simp add: semop_result_def)
qed (simp add: semop_result_def)

text \<open>C40: whatever lines have been read, at most 100 operations are kept, and none outside a transaction; the next
  line makes the program write outside its array only when it is an operation that follows 100 others.\<close>

theorem interpreter_bounds:
  assumes "sem_main C create eexist connect lines (sem_ui_start s junk n c) = ret (on, u)" and "length junk = 100" and "line \<noteq> []"
  shows "ops_count u \<le> 100 \<and> (is_inside_txn u \<or> ops_count u = 0) \<and>
    (run_line C line u = fault e) = (e = Out_Of_Bounds \<and> ops_count u = 100 \<and> op_line (butlast line) \<and>
      snd (scan_op (butlast line) (num u, cmd_char u)) \<in> {CHR ''-'', CHR ''+''})"
proof -
  let ?u = "snd (open_sems C create eexist connect (sem_ui_start s junk n c))"
  have start: "ui_ok ?u" using assms(2) by (intro open_sems_ok) (simp add: ui_ok_def sem_ui_start_def)
  have "run_lines C lines ?u = ret (on, u) \<or> u = ?u"
    using assms(1) by (auto simp: sem_main_def split: prod.splits if_splits)
  then have ok: "ui_ok u" using run_lines_ok[OF start] start by blast
  have op: "(run_op C w u = fault e) = (e = Out_Of_Bounds \<and> ops_count u = 100 \<and>
      snd (scan_op w (num u, cmd_char u)) \<in> {CHR ''-'', CHR ''+''})" for w
    using ok semop_result_safe[of C] by (auto simp: run_op_def ui_ok_def Let_def split: prod.split)
  have bnd: "(bnd m (\<lambda>u. ret (True, u)) = fault e) = (m = fault e)" for m :: "'a sem_ui run"
    by (auto simp: bnd_def split: option.split sum.split)
  have "(run_line C line u = fault e) = (op_line (butlast line) \<and> run_op C (butlast line) u = fault e)"
    using assms(3) semop_result_safe[of C] bnd by (auto simp: run_line_def op_line_def Let_def split: prod.split)
  with op ok show ?thesis by (auto simp: ui_ok_def)
qed

text \<open>A hundred operations are kept; the next one is written outside the array.\<close>

theorem interpreter_bounds_witness:
  "\<exists>u. sem_main demo_calls 5 False 0 (line_of ''begin'' # map line_of (replicate 100 ''1 +''))
      (sem_ui_start [] (replicate 100 \<lparr>sem_num = 0, sem_op = 0\<rparr>) 0 CHR ''x'') = ret (True, u) \<and>
     ops_count u = 100 \<and> run_line demo_calls (line_of ''2 -'') u = fault Out_Of_Bounds"
proof -
  let ?u = "sem_ui_start [] (replicate 100 \<lparr>sem_num = 0, sem_op = 0\<rparr>) 0 CHR ''x''"
  let ?v = "?u\<lparr>sys := [1, 2, 3], printed := [Created 5, Initialized, Values 1 2 3]\<rparr>"
  let ?xs = "replicate 100 (1 :: int, True)"
  let ?w = "(after_lines (replicate 100 ''1 +'') ?v)\<lparr>is_inside_txn := True, ops_count := 100\<rparr>"
  have typed: "replicate 100 ''1 +'' = map typed ?xs" "''2 -'' = typed (2, False)"
    by (simp_all add: typed_def show_int_def show_nat.simps)
  have c: "collected (replicate 100 ''1 +'') (num ?v, cmd_char ?v) = (map typed_op ?xs, 0)"
    unfolding typed by (rule collected_typed) (simp add: fits_int_def int_min_def int_max_def)
  have "open_sems demo_calls 5 False 0 ?u = (True, ?v)"
    by (simp add: open_sems_def init_sems_def print_all_sems_def out_def sem_ui_start_def demo_calls_def)
  moreover have "ui_ok ?v" "\<not> is_inside_txn ?v" "list_all op_line (replicate 100 ''1 +'')"
    by (simp_all add: ui_ok_def sem_ui_start_def op_line_def list_all_iff)
  then have "run_lines demo_calls (line_of ''begin'' # map line_of (replicate 100 ''1 +'') @ []) ?v = ret (True, ?w)"
    using txn_lines[OF _ _ _ c, of demo_calls "[]"] by simp
  ultimately have r: "sem_main demo_calls 5 False 0 (line_of ''begin'' # map line_of (replicate 100 ''1 +'')) ?u = ret (True, ?w)"
    by (simp add: sem_main_def)
  have "scan_op ''2 -'' v = (2, CHR ''-'')" for v
    unfolding typed(2) using scan_typed[of "(2, False)"] by (simp add: fits_int_def int_min_def int_max_def)
  then have "run_line demo_calls (line_of ''2 -'') ?w = fault Out_Of_Bounds"
    using interpreter_bounds[OF r, of "line_of ''2 -''" Out_Of_Bounds] by (simp add: line_of_def op_line_def)
  with r show ?thesis by (intro exI[of _ ?w]) simp
qed

end
