(* ===== verification/Fcntl_Shell.thy ===== *)
theory Fcntl_Shell
  imports Sem_Shell
begin

text \<open>
  The interpreter of \<^verbatim>\<open>lecture_examples/9_aio/3_fcntl_lock.c\<close>: commands that write to a file and set, remove or ask
  for locks on its parts. The file and its locks belong to the system: the results of \<^verbatim>\<open>write\<close> and of
  \<^verbatim>\<open>fcntl\<close> are a parameter of type \<open>file_calls\<close>; waiting for a lock may never return. The variables that
  \<^verbatim>\<open>sscanf\<close> fills are not initialised: \<open>lock_args\<close> and the pair for \<^verbatim>\<open>write\<close> are what they hold before. \<^verbatim>\<open>printf\<close> of
  a null pointer prints as in glibc.
\<close>

section \<open>The code\<close>

datatype lock_type = F_RDLCK | F_WRLCK | F_UNLCK

datatype whence = SEEK_SET | SEEK_END | SEEK_CUR

record flock =
  l_type :: lock_type
  l_whence :: whence
  l_start :: int
  l_len :: int

record 's file_calls =
  write_byte :: "char \<Rightarrow> 's \<Rightarrow> bool \<times> 's"
  set_lock :: "bool \<Rightarrow> flock \<Rightarrow> 's \<Rightarrow> (bool \<times> 's) option"
  test_lock :: "flock \<Rightarrow> 's \<Rightarrow> (lock_type \<times> int) option"

datatype lock_line =
    Line_Is string
  | Args_Are "string option"
  | Cmd_Is string
  | Lock_Args char char int int
  | No_Lock
  | Held_By int
  | Unknown_Command
  | Lock_Error
  | Lock_Ok

record lock_args =
  a_type :: char
  a_whence :: char
  a_start :: int
  a_len :: int

record 's lock_ui =
  stored :: 's
  shown :: "lock_line list"

definition tell :: "lock_line \<Rightarrow> 's lock_ui \<Rightarrow> 's lock_ui" where
  "tell x u = u\<lparr>shown := shown u @ [x]\<rparr>"

fun write_times :: "'s file_calls \<Rightarrow> nat \<Rightarrow> char \<Rightarrow> 's lock_ui \<Rightarrow> int \<times> 's lock_ui" where
  "write_times C 0 c u = (0, u)"
| "write_times C (Suc n) c u = (let (ok, s) = write_byte C c (stored u); u = u\<lparr>stored := s\<rparr> in
     if \<not> ok then (- 1, u) else write_times C n c u)"

definition write_symbols :: "'s file_calls \<Rightarrow> int \<times> char \<Rightarrow> string option \<Rightarrow> 's lock_ui \<Rightarrow> (int \<times> 's lock_ui) run" where
  "write_symbols C junk cmd u = (case cmd of None \<Rightarrow> fault Null_Deref
     | Some w \<Rightarrow> (let (n, c) = scan_op w junk in ret (write_times C (nat n) c u)))"

definition char_to_whence :: "char \<Rightarrow> whence" where
  "char_to_whence c = (if c = CHR ''s'' then SEEK_SET else if c = CHR ''e'' then SEEK_END else SEEK_CUR)"

definition char_to_type :: "char \<Rightarrow> lock_type" where
  "char_to_type c = (if c = CHR ''r'' then F_RDLCK else if c = CHR ''w'' then F_WRLCK else F_UNLCK)"

text \<open>\<^verbatim>\<open>sscanf(cmd, "%c %c %d %d", ...)\<close>.\<close>

definition scan_lock :: "string \<Rightarrow> lock_args \<Rightarrow> lock_args" where
  "scan_lock w a = (case w of [] \<Rightarrow> a
     | t # w \<Rightarrow> (let a = a\<lparr>a_type := t\<rparr> in case dropWhile is_space w of [] \<Rightarrow> a
       | h # w \<Rightarrow> (let a = a\<lparr>a_whence := h\<rparr> in case scan_int w of None \<Rightarrow> a
         | Some (st, w) \<Rightarrow> (let a = a\<lparr>a_start := st\<rparr> in case scan_int w of None \<Rightarrow> a
           | Some (ln, w) \<Rightarrow> a\<lparr>a_len := ln\<rparr>))))"

definition flock_of :: "lock_args \<Rightarrow> flock" where
  "flock_of a = \<lparr>l_type = char_to_type (a_type a), l_whence = char_to_whence (a_whence a), l_start = a_start a, l_len = a_len a\<rparr>"

definition show_args :: "lock_args \<Rightarrow> 's lock_ui \<Rightarrow> 's lock_ui" where
  "show_args a u = tell (Lock_Args (a_type a) (a_whence a) (a_start a) (a_len a)) u"

definition do_lock :: "'s file_calls \<Rightarrow> lock_args \<Rightarrow> bool \<Rightarrow> string option \<Rightarrow> 's lock_ui \<Rightarrow> (int \<times> 's lock_ui) run" where
  "do_lock C junk block cmd u = (case cmd of None \<Rightarrow> fault Null_Deref
     | Some w \<Rightarrow> (let a = scan_lock w junk; u = show_args a u in
         case set_lock C block (flock_of a) (stored u) of None \<Rightarrow> None
         | Some (ok, s) \<Rightarrow> ret (if ok then 0 else - 1, u\<lparr>stored := s\<rparr>)))"

definition get_lock :: "'s file_calls \<Rightarrow> lock_args \<Rightarrow> string option \<Rightarrow> 's lock_ui \<Rightarrow> (int \<times> 's lock_ui) run" where
  "get_lock C junk cmd u = (case cmd of None \<Rightarrow> fault Null_Deref
     | Some w \<Rightarrow> (let a = scan_lock w junk; u = show_args a u in
         case test_lock C (flock_of a) (stored u) of None \<Rightarrow> ret (- 1, u)
         | Some (ty, pid) \<Rightarrow> ret (0, tell (if ty = F_UNLCK then No_Lock else Held_By pid) u)))"

text \<open>\<^verbatim>\<open>strsep(&line, " \n")\<close>: the first word, and what follows the character behind it, if there is one.\<close>

definition strsep :: "string \<Rightarrow> string \<times> string option" where
  "strsep w = (let P = \<lambda>c. c \<notin> {CHR '' '', CHR 0x0A} in
     (takeWhile P w, case dropWhile P w of [] \<Rightarrow> None | c # cs \<Rightarrow> Some cs))"

definition lock_turn :: "'s file_calls \<Rightarrow> int \<times> char \<Rightarrow> lock_args \<Rightarrow> string \<Rightarrow> 's lock_ui \<Rightarrow> 's lock_ui run" where
  "lock_turn C wjunk ljunk buf u =
     (if buf = [] then fault Out_Of_Bounds
      else let line = butlast buf; u = tell (Line_Is line) u; (cmd, args) = strsep line;
          u = tell (Cmd_Is cmd) (tell (Args_Are args) u);
          answer = (\<lambda>(rc, u). ret (tell (if rc = - 1 then Lock_Error else Lock_Ok) u)) in
        if cmd = ''write'' then bnd (write_symbols C wjunk args u) answer
        else if cmd = ''lock'' then bnd (do_lock C ljunk False args u) answer
        else if cmd = ''lockb'' then bnd (do_lock C ljunk True args u) answer
        else if cmd = ''getlock'' then bnd (get_lock C ljunk args u) answer
        else ret (tell Unknown_Command u))"

fun lock_main :: "'s file_calls \<Rightarrow> int \<times> char \<Rightarrow> lock_args \<Rightarrow> string list \<Rightarrow> 's lock_ui \<Rightarrow> 's lock_ui run" where
  "lock_main C wjunk ljunk [] u = ret u"
| "lock_main C wjunk ljunk (buf # bufs) u = bnd (lock_turn C wjunk ljunk buf u) (lock_main C wjunk ljunk bufs)"

section \<open>What the commands do\<close>

definition type_char :: "lock_type \<Rightarrow> char" where
  "type_char t = (case t of F_RDLCK \<Rightarrow> CHR ''r'' | F_WRLCK \<Rightarrow> CHR ''w'' | F_UNLCK \<Rightarrow> CHR ''u'')"

definition whence_char :: "whence \<Rightarrow> char" where
  "whence_char w = (case w of SEEK_SET \<Rightarrow> CHR ''s'' | SEEK_END \<Rightarrow> CHR ''e'' | SEEK_CUR \<Rightarrow> CHR ''c'')"

definition typed_lock :: "flock \<Rightarrow> string" where
  "typed_lock f = type_char (l_type f) # CHR '' '' # whence_char (l_whence f) # CHR '' '' #
     show_int (l_start f) @ CHR '' '' # show_int (l_len f)"

lemma scan_space_int: "scan_int (CHR '' '' # t) = scan_int t"
  by (rule scan_space) (simp add: is_space_def)

lemma scan_typed_lock:
  assumes "fits_int (l_start f)" and "fits_int (l_len f)"
  shows "flock_of (scan_lock (typed_lock f) junk) = f"
proof -
  have "\<not> is_space (whence_char w)" for w by (cases w) (simp_all add: whence_char_def is_space_def)
  moreover have "scan_int (show_int (l_start f) @ CHR '' '' # show_int (l_len f)) = Some (l_start f, CHR '' '' # show_int (l_len f))"
    by (rule scan_show) (use assms in \<open>simp_all add: digit_def\<close>)
  moreover have "scan_int (show_int (l_len f)) = Some (l_len f, [])"
    using scan_show[OF assms(2), of "[]"] by simp
  moreover have "char_to_type (type_char t) = t" for t by (cases t) (simp_all add: char_to_type_def type_char_def)
  moreover have "char_to_whence (whence_char w) = w" for w by (cases w) (simp_all add: char_to_whence_def whence_char_def)
  ultimately show ?thesis
    by (cases f) (simp add: scan_lock_def typed_lock_def scan_space_int flock_of_def is_space_def Let_def)
qed

lemma stored_show_args [simp]: "stored (show_args a u) = stored u"
  by (simp add: show_args_def tell_def)

text \<open>A lock typed by a user is the lock that \<^verbatim>\<open>fcntl\<close> is asked to set, whatever the variables held before.\<close>

lemma lock_command:
  assumes "fits_int (l_start f)" and "fits_int (l_len f)"
  shows "do_lock C junk block (Some (typed_lock f)) u = (case set_lock C block f (stored u) of None \<Rightarrow> None
     | Some (ok, s) \<Rightarrow> ret (if ok then 0 else - 1, (show_args (scan_lock (typed_lock f) junk) u)\<lparr>stored := s\<rparr>))"
  using scan_typed_lock[OF assms, of junk] by (simp add: do_lock_def Let_def)

text \<open>\<open>write n c\<close> writes \<open>n\<close> characters when no call fails, and stops at the first failure.\<close>

lemma write_times_spec:
  "write_times C n c u = (- 1, v) \<or> write_times C n c u = (0, v) \<and> stored v = ((\<lambda>s. snd (write_byte C c s)) ^^ n) (stored u)"
  if "write_times C n c u = (rc, v)" for rc
  using that
  by (induction n arbitrary: u) (auto simp: funpow_Suc_right Let_def simp del: funpow.simps(2) split: prod.splits if_splits)

text \<open>A command without arguments makes \<^verbatim>\<open>sscanf\<close> read from a null pointer.\<close>

lemma bare_command:
  assumes "cmd \<in> set [''write'', ''lock'', ''lockb'', ''getlock'']"
  shows "lock_turn C wjunk ljunk (cmd @ [CHR 0x0A]) u = fault Null_Deref"
proof -
  have "strsep cmd = (cmd, None)" using assms by (auto simp: strsep_def)
  then show ?thesis
    using assms by (auto simp: lock_turn_def write_symbols_def do_lock_def get_lock_def Let_def)
qed

end
