(* ===== verification/Sockets.thy ===== *)
theory Sockets
  imports C_Text Interleaving
begin

text \<open>
  Two programs of \<^verbatim>\<open>lecture_examples/7_ipc\<close> on sockets, as interleavings of their processes.

  \<^verbatim>\<open>14_sock_dgram.c\<close>: three processes in a ring. Process 0 reads numbers, sends each one to process 1 and waits for what
  comes back from process 2; the others send on what they receive, increased by one. A datagram to
  a process that has not bound its socket yet is refused, one to a bound socket is kept in its queue.

  \<^verbatim>\<open>15_sock_client.c\<close> and \<^verbatim>\<open>15_sock_server.c\<close> (also \<^verbatim>\<open>8_net/3_client.c\<close> and \<^verbatim>\<open>3_server.c\<close>): a client and the thread of the server
  that serves it, with one queue of numbers for each direction; \<^verbatim>\<open>read\<close> and \<^verbatim>\<open>write\<close> move whole numbers.

  \<open>bind\<close>, \<open>recv\<close> and \<open>read\<close> are taken to succeed; what each process prints is kept in its log.
\<close>

datatype sock_line =
    Sock_Error
  | Sock_Sent int
  | Sock_Received int
  | New_Client_Created
  | Closed_Connection

section \<open>The ring of datagrams\<close>

record ring =
  bound :: "nat list"
  dgrams :: "nat \<Rightarrow> int list"
  logs :: "nat \<Rightarrow> sock_line list"

datatype ring_pc =
    Bind
  | Initiate "int list"
  | Wait_Back "int list"
  | Receive
  | Relay int
  | Exit

definition log_line :: "nat \<Rightarrow> sock_line \<Rightarrow> ring \<Rightarrow> ring" where
  "log_line i x g = g\<lparr>logs := (logs g)(i := logs g i @ [x])\<rparr>"

definition sendto :: "nat \<Rightarrow> int \<Rightarrow> ring \<Rightarrow> bool \<times> ring" where
  "sendto j x g = (if j \<in> set (bound g) then (True, g\<lparr>dgrams := (dgrams g)(j := dgrams g j @ [x])\<rparr>) else (False, g))"

definition recv :: "nat \<Rightarrow> ring \<Rightarrow> (int \<times> ring) list" where
  "recv i g = (case dgrams g i of [] \<Rightarrow> [] | x # xs \<Rightarrow> [(x, g\<lparr>dgrams := (dgrams g)(i := xs)\<rparr>)])"

definition initiator_f :: "nat \<Rightarrow> ring \<Rightarrow> ring_pc \<Rightarrow> (ring \<times> ring_pc) list" where
  "initiator_f next g l = (case l of
       Initiate [] \<Rightarrow> [(g\<lparr>bound := removeAll 0 (bound g)\<rparr>, Exit)]
     | Initiate (nm # ns) \<Rightarrow> (let (ok, g) = sendto next nm g in
         if \<not> ok then [(log_line 0 Sock_Error g, Initiate ns)]
         else [(log_line 0 (Sock_Sent nm) g, Wait_Back ns)])
     | Wait_Back ns \<Rightarrow> map (\<lambda>(buffer, g). (log_line 0 (Sock_Received buffer) g, Initiate ns)) (recv 0 g)
     | _ \<Rightarrow> [])"

definition ring_worker_f :: "nat \<Rightarrow> nat \<Rightarrow> ring \<Rightarrow> ring_pc \<Rightarrow> (ring \<times> ring_pc) list" where
  "ring_worker_f i next g l = (case l of
       Receive \<Rightarrow> map (\<lambda>(buffer, g). (log_line i (Sock_Received buffer) g, Relay (wrap_int (buffer + 1)))) (recv i g)
     | Relay buffer \<Rightarrow> (let (ok, g) = sendto next buffer g in
         [(log_line i (if \<not> ok then Sock_Error else Sock_Sent buffer) g, Receive)])
     | _ \<Rightarrow> [])"

definition ring_main :: "int list \<Rightarrow> (ring, ring_pc) prog" where
  "ring_main input myid g l = (let next = (myid + 1) mod 3 in case l of
       Bind \<Rightarrow> [(g\<lparr>bound := bound g @ [myid]\<rparr>, if myid = 0 then Initiate input else Receive)]
     | _ \<Rightarrow> if myid = 0 then initiator_f next g l else ring_worker_f myid next g l)"

definition ring_start :: "(ring, ring_pc) sys" where
  "ring_start = (\<lparr>bound = [], dgrams = \<lambda>_. [], logs = \<lambda>_. []\<rparr>, \<lambda>_. Bind)"

lemmas ring_defs = ring_main_def initiator_f_def ring_worker_f_def sendto_def recv_def log_line_def

section \<open>What is on its way around the ring\<close>

lemma wrap_int_add: "wrap_int (wrap_int a + b) = wrap_int (a + b)"
proof -
  have "((a + 2 ^ 31) mod 2 ^ 32 - 2 ^ 31 + b + 2 ^ 31) mod 2 ^ 32 = ((a + 2 ^ 31) mod 2 ^ 32 + b) mod (2 ^ 32 :: int)"
    by simp
  also have "\<dots> = (a + b + 2 ^ 31) mod 2 ^ 32" by (simp add: mod_simps algebra_simps)
  finally show ?thesis by (simp add: wrap_int_def)
qed

text \<open>What a number will be when it is back after \<open>k\<close> more stations.\<close>

definition increased :: "int \<Rightarrow> int \<Rightarrow> int" where
  "increased k x = wrap_int (x + k)"

definition relayed :: "ring_pc \<Rightarrow> int list" where
  "relayed l = (case l of Relay x \<Rightarrow> [x] | _ \<Rightarrow> [])"

text \<open>The numbers under way, the one that comes back first at the front.\<close>

definition under_way :: "ring \<Rightarrow> (nat \<Rightarrow> ring_pc) \<Rightarrow> int list" where
  "under_way g ls = dgrams g 0 @ relayed (ls 2) @ map (increased 1) (dgrams g 2) @ map (increased 1) (relayed (ls 1)) @
     map (increased 2) (dgrams g 1)"

definition numbers_sent :: "sock_line list \<Rightarrow> int list" where
  "numbers_sent xs = concat (map (\<lambda>x. case x of Sock_Sent n \<Rightarrow> [n] | _ \<Rightarrow> []) xs)"

definition numbers_received :: "sock_line list \<Rightarrow> int list" where
  "numbers_received xs = concat (map (\<lambda>x. case x of Sock_Received n \<Rightarrow> [n] | _ \<Rightarrow> []) xs)"

definition still :: "int list \<Rightarrow> ring_pc \<Rightarrow> int list" where
  "still input l = (case l of Bind \<Rightarrow> input | Initiate ns \<Rightarrow> ns | Wait_Back ns \<Rightarrow> ns | _ \<Rightarrow> [])"

definition waits :: "ring_pc \<Rightarrow> bool" where
  "waits l \<longleftrightarrow> (case l of Wait_Back _ \<Rightarrow> True | _ \<Rightarrow> False)"

definition initiator_pc :: "ring_pc \<Rightarrow> bool" where
  "initiator_pc l \<longleftrightarrow> (case l of Receive \<Rightarrow> False | Relay _ \<Rightarrow> False | _ \<Rightarrow> True)"

definition worker_pc :: "ring_pc \<Rightarrow> bool" where
  "worker_pc l \<longleftrightarrow> (case l of Bind \<Rightarrow> True | Receive \<Rightarrow> True | Relay _ \<Rightarrow> True | _ \<Rightarrow> False)"

definition ring_inv :: "int list \<Rightarrow> ring \<Rightarrow> (nat \<Rightarrow> ring_pc) \<Rightarrow> bool" where
  "ring_inv input g ls \<longleftrightarrow> initiator_pc (ls 0) \<and> worker_pc (ls 1) \<and> worker_pc (ls 2) \<and>
     (0 \<in> set (bound g) \<longleftrightarrow> ls 0 \<notin> {Bind, Exit}) \<and> (1 \<in> set (bound g) \<longleftrightarrow> ls 1 \<noteq> Bind) \<and> (2 \<in> set (bound g) \<longleftrightarrow> ls 2 \<noteq> Bind) \<and>
     (dgrams g 1 \<noteq> [] \<longrightarrow> ls 1 \<noteq> Bind) \<and> (dgrams g 2 \<noteq> [] \<longrightarrow> ls 2 \<noteq> Bind) \<and>
     length (under_way g ls) \<le> 1 \<and> (under_way g ls \<noteq> [] \<longrightarrow> waits (ls 0)) \<and>
     (Sock_Error \<notin> set (logs g 1) \<longrightarrow> (waits (ls 0) \<longrightarrow> under_way g ls \<noteq> []) \<and>
        numbers_received (logs g 0) @ under_way g ls = map (increased 2) (numbers_sent (logs g 0))) \<and>
     (Sock_Error \<notin> set (logs g 0) \<longrightarrow> input = numbers_sent (logs g 0) @ still input (ls 0))"

lemma numbers_simps [simp]:
  "numbers_sent (xs @ [x]) = numbers_sent xs @ (case x of Sock_Sent n \<Rightarrow> [n] | _ \<Rightarrow> [])"
  "numbers_received (xs @ [x]) = numbers_received xs @ (case x of Sock_Received n \<Rightarrow> [n] | _ \<Rightarrow> [])"
  "numbers_sent [] = []" "numbers_received [] = []"
  by (simp_all add: numbers_sent_def numbers_received_def)

lemma increased_simps: "wrap_int (x + 1) = increased 1 x" "increased 1 (increased 1 x) = increased 2 x"
  using wrap_int_add[of "x + 1" 1] by (simp_all add: increased_def add.assoc)

lemmas ring_inv_defs = ring_inv_def under_way_def relayed_def still_def waits_def initiator_pc_def worker_pc_def

text \<open>What a step does to the numbers under way and to the logs.\<close>

lemma wait_step:
  assumes "(g', l') \<in> set (ring_main input 0 g (ls 0))" and "ls 0 = Wait_Back ns"
  shows "\<exists>x. under_way g ls = x # under_way g' (ls(0 := l')) \<and> logs g' = (logs g)(0 := logs g 0 @ [Sock_Received x]) \<and>
    l' = Initiate ns \<and> bound g' = bound g \<and> dgrams g' 1 = dgrams g 1 \<and> dgrams g' 2 = dgrams g 2"
  using assms by (cases "dgrams g 0") (simp_all add: ring_defs under_way_def)

lemma initiate_step:
  assumes "(g', l') \<in> set (ring_main input 0 g (ls 0))" and "ls 0 = Initiate (n # ns)"
  shows "if 1 \<in> set (bound g) then under_way g' (ls(0 := l')) = under_way g ls @ [increased 2 n] \<and>
      logs g' = (logs g)(0 := logs g 0 @ [Sock_Sent n]) \<and> l' = Wait_Back ns \<and> bound g' = bound g \<and> dgrams g' 2 = dgrams g 2
    else g' = log_line 0 Sock_Error g \<and> l' = Initiate ns"
  using assms by (cases "1 \<in> set (bound g)") (auto simp: ring_defs under_way_def)

lemma receive_step:
  assumes "(g', l') \<in> set (ring_main input i g (ls i))" and "ls i = Receive" and "i = 1 \<or> i = 2"
  shows "under_way g' (ls(i := l')) = under_way g ls \<and> bound g' = bound g \<and>
    (\<exists>x. logs g' = (logs g)(i := logs g i @ [Sock_Received x])) \<and> (\<exists>x. l' = Relay x) \<and>
    dgrams g i \<noteq> [] \<and> (\<forall>j. j \<noteq> i \<longrightarrow> dgrams g' j = dgrams g j)"
  using assms by (cases "dgrams g i") (auto simp: ring_defs under_way_def relayed_def increased_simps)

lemma relay_step:
  assumes "(g', l') \<in> set (ring_main input i g (ls i))" and "ls i = Relay x" and "i = 1 \<or> i = 2"
  shows "bound g' = bound g \<and> l' = Receive \<and> under_way g ls \<noteq> [] \<and>
    (if (i + 1) mod 3 \<in> set (bound g) then logs g' = (logs g)(i := logs g i @ [Sock_Sent x]) \<and>
         (dgrams g i = [] \<longrightarrow> under_way g' (ls(i := l')) = under_way g ls) \<and>
         (\<forall>j. j \<noteq> (i + 1) mod 3 \<longrightarrow> dgrams g' j = dgrams g j)
     else logs g' = (logs g)(i := logs g i @ [Sock_Error]) \<and> dgrams g' = dgrams g \<and>
       length (under_way g ls) = Suc (length (under_way g' (ls(i := l')))))"
  using assms(3)
proof (elim disjE)
  assume i: "i = 1"
  show ?thesis
    using assms(1,2) by (cases "2 \<in> set (bound g)") (simp_all add: i ring_defs under_way_def relayed_def numeral_2_eq_2)
next
  assume i: "i = 2"
  show ?thesis
    using assms(1,2) by (cases "0 \<in> set (bound g)") (simp_all add: i ring_defs under_way_def relayed_def numeral_2_eq_2)
qed

lemma received_under_way: "dgrams g 1 \<noteq> [] \<or> dgrams g 2 \<noteq> [] \<Longrightarrow> under_way g ls \<noteq> []"
  by (auto simp: under_way_def)

lemma alone_in_ring: "length (under_way g ls) \<le> 1 \<Longrightarrow> ls i = Relay x \<Longrightarrow> i = 1 \<or> i = 2 \<Longrightarrow> dgrams g i = []"
  by (auto simp: under_way_def relayed_def)

lemma under_way_bind:
  assumes "ls i = Bind" and "l' \<in> {Initiate ns, Receive, Exit}" and "dgrams g' = dgrams g"
  shows "under_way g' (ls(i := l')) = under_way g ls"
  using assms by (auto simp: under_way_def relayed_def)

lemmas ring_inv_parts = ring_inv_def still_def waits_def initiator_pc_def worker_pc_def

lemma ring_inv_initiator:
  assumes inv: "ring_inv input g ls" and s: "(g', l') \<in> set (ring_main input 0 g (ls 0))"
  shows "ring_inv input g' (ls(0 := l'))"
proof (cases "ls 0")
  case Bind
  then have "g' = g\<lparr>bound := bound g @ [0]\<rparr>" "l' = Initiate input" using s by (simp_all add: ring_defs)
  moreover from this Bind have "under_way g' (ls(0 := l')) = under_way g ls" by (intro under_way_bind) auto
  ultimately show ?thesis using inv Bind by (auto simp: ring_inv_parts)
next
  case (Initiate ns)
  show ?thesis
  proof (cases ns)
    case Nil
    then have g': "g' = g\<lparr>bound := removeAll 0 (bound g)\<rparr>" "l' = Exit" using s Initiate by (simp_all add: ring_defs)
    then have "under_way g' (ls(0 := l')) = under_way g ls" by (simp add: under_way_def)
    then show ?thesis using inv Initiate Nil g' by (auto simp: ring_inv_parts)
  next
    case (Cons n ns')
    note E = initiate_step[where ls = ls, OF s Initiate[unfolded Cons]]
    have none: "under_way g ls = []" using inv Initiate by (simp add: ring_inv_parts)
    show ?thesis
    proof (cases "1 \<in> set (bound g)")
      case True
      then have r: "under_way g' (ls(0 := l')) = [increased 2 n]" "logs g' = (logs g)(0 := logs g 0 @ [Sock_Sent n])"
        "l' = Wait_Back ns'" "bound g' = bound g" "dgrams g' 2 = dgrams g 2" using E none by auto
      show ?thesis using inv Initiate Cons none True r by (simp add: ring_inv_parts)
    next
      case False
      then have "g' = log_line 0 Sock_Error g" "l' = Initiate ns'" using E by simp_all
      moreover from this have "under_way g' (ls(0 := l')) = under_way g ls"
        by (simp add: under_way_def log_line_def)
      ultimately show ?thesis using inv Initiate Cons by (auto simp: ring_inv_parts log_line_def)
    qed
  qed
next
  case (Wait_Back ns)
  from wait_step[where ls = ls, OF s this] obtain x where x: "under_way g ls = x # under_way g' (ls(0 := l'))"
    "logs g' = (logs g)(0 := logs g 0 @ [Sock_Received x])" "l' = Initiate ns" "bound g' = bound g"
    "dgrams g' 1 = dgrams g 1" "dgrams g' 2 = dgrams g 2" by blast
  have "length (under_way g ls) \<le> 1" using inv by (simp add: ring_inv_def)
  with x(1) have none: "under_way g' (ls(0 := l')) = []" by simp
  show ?thesis using inv Wait_Back x none by (auto simp: ring_inv_parts)
qed (use assms in \<open>simp_all add: ring_inv_def ring_defs initiator_pc_def\<close>)

lemma ring_inv_worker:
  assumes inv: "ring_inv input g ls" and s: "(g', l') \<in> set (ring_main input i g (ls i))" and i: "i = 1 \<or> i = 2"
  shows "ring_inv input g' (ls(i := l'))"
proof -
  have w: "worker_pc (ls i)" using inv i by (auto simp: ring_inv_def)
  show ?thesis
proof (cases "ls i")
  case Bind
  then have "g' = g\<lparr>bound := bound g @ [i]\<rparr>" "l' = Receive" using s i by (auto simp: ring_defs)
  moreover from this Bind have "under_way g' (ls(i := l')) = under_way g ls" by (intro under_way_bind) auto
  ultimately show ?thesis using inv Bind i by (auto simp: ring_inv_parts)
next
  case Receive
  note E = receive_step[where ls = ls, OF s this i]
  then obtain x y where r: "under_way g' (ls(i := l')) = under_way g ls" "bound g' = bound g" "l' = Relay y"
    "logs g' = (logs g)(i := logs g i @ [Sock_Received x])" "\<And>j. j \<noteq> i \<Longrightarrow> dgrams g' j = dgrams g j" by blast
  from i show ?thesis
  proof (elim disjE)
    assume i: "i = 1"
    have d: "dgrams g' 2 = dgrams g 2" using r(5)[of 2] i by simp
    show ?thesis using inv Receive r(1-4) d unfolding i by (simp add: ring_inv_parts)
  next
    assume i: "i = 2"
    have d: "dgrams g' 1 = dgrams g 1" using r(5)[of 1] i by simp
    show ?thesis using inv Receive r(1-4) d unfolding i by (simp add: ring_inv_parts)
  qed
next
  case (Relay x)
  note E = relay_step[where ls = ls, OF s this i]
  have "dgrams g i = []" by (rule alone_in_ring[where ls = ls and i = i, OF _ Relay i]) (use inv in \<open>simp add: ring_inv_def\<close>)
  show ?thesis
  proof (cases "(i + 1) mod 3 \<in> set (bound g)")
    case True
    with E \<open>dgrams g i = []\<close> have r: "under_way g' (ls(i := l')) = under_way g ls" "bound g' = bound g" "l' = Receive"
      "logs g' = (logs g)(i := logs g i @ [Sock_Sent x])" "\<And>j. j \<noteq> (i + 1) mod 3 \<Longrightarrow> dgrams g' j = dgrams g j" by auto
    from i show ?thesis
    proof (elim disjE)
      assume i: "i = 1"
      have d: "dgrams g' 1 = dgrams g 1" using r(5)[of 1] i by simp
      have "2 \<in> set (bound g)" using True i by (simp add: numeral_2_eq_2)
      then show ?thesis using inv Relay r(1-4) d unfolding i by (simp add: ring_inv_parts)
    next
      assume i: "i = 2"
      have d: "dgrams g' 1 = dgrams g 1" "dgrams g' 2 = dgrams g 2" using r(5)[of 1] r(5)[of 2] i by simp_all
      show ?thesis using inv Relay r(1-4) d True unfolding i by (simp add: ring_inv_parts)
    qed
  next
    case False
    with E have r: "under_way g' (ls(i := l')) = [] \<or> length (under_way g ls) > 1" "under_way g ls \<noteq> []" "bound g' = bound g"
      "l' = Receive" "logs g' = (logs g)(i := logs g i @ [Sock_Error])" "dgrams g' = dgrams g" by auto
    from inv r(1) have none: "under_way g' (ls(i := l')) = []" by (simp add: ring_inv_def)
    from i show ?thesis
    proof (elim disjE)
      assume "i = 1"
      then show ?thesis using inv Relay r none False by (simp add: ring_inv_parts)
    next
      assume "i = 2"
      moreover have "0 \<in> set (bound g)" using inv r(2) by (cases "ls 0") (auto simp: ring_inv_parts)
      ultimately show ?thesis using False by simp
    qed
  qed
qed (use w in \<open>simp_all add: worker_pc_def\<close>)
qed

interpretation ri: invariant "ring_main input" 3 ring_start "ring_inv input" for input
proof
  show "ring_inv input (fst ring_start) (snd ring_start)"
    by (simp add: ring_start_def ring_inv_parts under_way_def relayed_def)
  fix g ls i g' l'
  assume inv: "ring_inv input g ls" and i: "i < 3" and s: "(g', l') \<in> set (ring_main input i g (ls i))"
  have "i = 0 \<or> i = 1 \<or> i = 2" using i by auto
  with inv s ring_inv_initiator ring_inv_worker show "ring_inv input g' (ls(i := l'))" by blast
qed

lemma under_way_moves:
  assumes inv: "ring_inv input g ls" and u: "under_way g ls \<noteq> []"
  shows "\<exists>i < 3. ring_main input i g (ls i) \<noteq> []"
proof -
  consider "dgrams g 0 \<noteq> []" | "\<exists>i. (i = 1 \<or> i = 2) \<and> dgrams g i \<noteq> []" | "relayed (ls 1) \<noteq> []" | "relayed (ls 2) \<noteq> []"
    using u by (auto simp: under_way_def)
  then show ?thesis
  proof cases
    case 1
    have "waits (ls 0)" using inv u by (simp add: ring_inv_def)
    with 1 show ?thesis by (intro exI[of _ 0]) (auto simp: waits_def ring_defs split: ring_pc.splits list.splits)
  next
    case 2
    then obtain i where 2: "i = 1 \<or> i = 2" "dgrams g i \<noteq> []" by blast
    then have "worker_pc (ls i)" "ls i \<noteq> Bind" using inv by (auto simp: ring_inv_def)
    with 2 show ?thesis
      by (intro exI[of _ i]) (auto simp: worker_pc_def ring_defs Let_def split: ring_pc.splits list.splits prod.splits if_splits)
  next
    case 3
    then show ?thesis by (intro exI[of _ 1]) (auto simp: relayed_def ring_defs Let_def split: ring_pc.splits if_splits)
  next
    case 4
    then show ?thesis by (intro exI[of _ 2]) (auto simp: relayed_def ring_defs Let_def split: ring_pc.splits if_splits)
  qed
qed

text \<open>
  In every interleaving in which process 1 never fails to send: what process 0 has received are the numbers it has
  sent, in their order and increased by two, with at most one still under way; unless it has come to the
  end of its input, some process can go on. When process 2 has not bound its socket in time, the
  number is lost and process 0 waits for ever.
\<close>

lemma ring_comes_back:
  assumes "reach (ring_main input) 3 ring_start (g, ls)" and "Sock_Error \<notin> set (logs g 1)"
  shows "numbers_received (logs g 0) @ under_way g ls = map (increased 2) (numbers_sent (logs g 0)) \<and>
    length (under_way g ls) \<le> 1 \<and> (ls 0 = Exit \<or> (\<exists>i < 3. ring_main input i g (ls i) \<noteq> []))"
proof -
  have inv: "ring_inv input g ls" by (rule ri.reach_inv[OF assms(1)])
  have "ls 0 = Exit \<or> (\<exists>i < 3. ring_main input i g (ls i) \<noteq> [])"
  proof (cases "under_way g ls = []")
    case True
    with inv assms(2) have "\<not> waits (ls 0)" "initiator_pc (ls 0)" by (simp_all add: ring_inv_def)
    then have "ls 0 = Exit \<or> ring_main input 0 g (ls 0) \<noteq> []"
      by (auto simp: waits_def initiator_pc_def ring_defs Let_def split: ring_pc.splits list.splits if_splits)
    then show ?thesis by (metis zero_less_numeral)
  qed (use under_way_moves[OF inv] in simp)
  with inv assms(2) show ?thesis by (simp add: ring_inv_def)
qed

lemma ring_loses:
  "\<exists>g ls. reach (ring_main [7]) 3 ring_start (g, ls) \<and> ls 0 = Wait_Back [] \<and> under_way g ls = [] \<and>
     numbers_received (logs g 0) = []"
proof -
  let ?g = "\<lparr>bound = [0, 1, 2], dgrams = \<lambda>_. [],
    logs = (\<lambda>_. [])(0 := [Sock_Sent 7], 1 := [Sock_Received 7, Sock_Error])\<rparr>"
  let ?ls = "(\<lambda>_. Bind)(0 := Wait_Back [], 1 := Receive, 2 := Receive)"
  have "reach (ring_main [7]) 3 ring_start (?g, ?ls)"
    by (rule exec_reach[where sch = "[(0, 0), (1, 0), (0, 0), (1, 0), (1, 0), (2, 0)]"])
      (auto simp: ring_start_def ring_defs wrap_int_def fun_eq_iff)
  then show ?thesis
    by (intro exI[of _ ?g] exI[of _ ?ls]) (simp add: under_way_def relayed_def numbers_received_def)
qed

section \<open>A client and its thread of the server\<close>

record connection =
  to_server :: "int list"
  to_client :: "int list"
  client_closed :: bool
  server_closed :: bool
  client_log :: "sock_line list"
  server_log :: "sock_line list"

datatype conn_pc =
    Client_Scan "int list"
  | Client_Read "int list"
  | Client_Exit
  | Worker_Start
  | Worker_Read
  | Worker_Write int
  | Worker_Exit

text \<open>\<^verbatim>\<open>main\<close> of the client; \<^verbatim>\<open>scanf\<close> reads the numbers of its input.\<close>

definition client_main :: "connection \<Rightarrow> conn_pc \<Rightarrow> (connection \<times> conn_pc) list" where
  "client_main g l = (case l of
       Client_Scan [] \<Rightarrow> [(g\<lparr>client_closed := True\<rparr>, Client_Exit)]
     | Client_Scan (n # ns) \<Rightarrow>
         (if server_closed g then [(g\<lparr>client_log := client_log g @ [Sock_Error]\<rparr>, Client_Scan ns)]
          else [(g\<lparr>to_server := to_server g @ [n], client_log := client_log g @ [Sock_Sent n]\<rparr>, Client_Read ns)])
     | Client_Read ns \<Rightarrow> (case to_client g of
         n # xs \<Rightarrow> [(g\<lparr>to_client := xs, client_log := client_log g @ [Sock_Received n]\<rparr>, Client_Scan ns)]
       | [] \<Rightarrow> if server_closed g then [(g\<lparr>client_log := client_log g @ [Closed_Connection], client_closed := True\<rparr>, Client_Exit)]
           else [])
     | _ \<Rightarrow> [])"

definition worker_f :: "connection \<Rightarrow> conn_pc \<Rightarrow> (connection \<times> conn_pc) list" where
  "worker_f g l = (case l of
       Worker_Start \<Rightarrow> [(g\<lparr>server_log := server_log g @ [New_Client_Created]\<rparr>, Worker_Read)]
     | Worker_Read \<Rightarrow> (case to_server g of
         b # xs \<Rightarrow> [(g\<lparr>to_server := xs, server_log := server_log g @ [Sock_Received b]\<rparr>, Worker_Write (wrap_int (b + 1)))]
       | [] \<Rightarrow> if client_closed g then [(g\<lparr>server_log := server_log g @ [Closed_Connection], server_closed := True\<rparr>, Worker_Exit)]
           else [])
     | Worker_Write b \<Rightarrow>
         (if client_closed g then [(g\<lparr>server_log := server_log g @ [Sock_Error]\<rparr>, Worker_Read)]
          else [(g\<lparr>to_client := to_client g @ [b], server_log := server_log g @ [Sock_Sent b]\<rparr>, Worker_Read)])
     | _ \<Rightarrow> [])"

definition conn_prog :: "(connection, conn_pc) prog" where
  "conn_prog i g l = (if i = 0 then client_main g l else worker_f g l)"

definition conn_start :: "int list \<Rightarrow> (connection, conn_pc) sys" where
  "conn_start input = (\<lparr>to_server = [], to_client = [], client_closed = False, server_closed = False, client_log = [], server_log = []\<rparr>,
     \<lambda>i. if i = 0 then Client_Scan input else Worker_Start)"

text \<open>What the two print about the numbers \<open>ns\<close>.\<close>

definition client_talk :: "int list \<Rightarrow> sock_line list" where
  "client_talk ns = concat (map (\<lambda>n. [Sock_Sent n, Sock_Received (increased 1 n)]) ns)"

definition server_talk :: "int list \<Rightarrow> sock_line list" where
  "server_talk ns = concat (map (\<lambda>n. [Sock_Received n, Sock_Sent (increased 1 n)]) ns)"

definition idle :: "conn_pc \<Rightarrow> int list \<Rightarrow> sock_line list \<Rightarrow> bool" where
  "idle l done log \<longleftrightarrow> l = Worker_Start \<and> done = [] \<and> log = [] \<or> l = Worker_Read \<and> log = New_Client_Created # server_talk done"

text \<open>The states of a connection.\<close>

inductive conn_state :: "int list \<Rightarrow> connection \<Rightarrow> conn_pc \<Rightarrow> conn_pc \<Rightarrow> bool" for input where
  scan: "input = ms @ ns \<Longrightarrow> idle w ms slog \<Longrightarrow> conn_state input
    \<lparr>to_server = [], to_client = [], client_closed = False, server_closed = False, client_log = client_talk ms, server_log = slog\<rparr>
    (Client_Scan ns) w"
| sent: "input = ms @ n # ns \<Longrightarrow> idle w ms slog \<Longrightarrow> conn_state input
    \<lparr>to_server = [n], to_client = [], client_closed = False, server_closed = False,
      client_log = client_talk ms @ [Sock_Sent n], server_log = slog\<rparr> (Client_Read ns) w"
| taken: "input = ms @ n # ns \<Longrightarrow> conn_state input
    \<lparr>to_server = [], to_client = [], client_closed = False, server_closed = False,
      client_log = client_talk ms @ [Sock_Sent n], server_log = New_Client_Created # server_talk ms @ [Sock_Received n]\<rparr>
    (Client_Read ns) (Worker_Write (increased 1 n))"
| answered: "input = ms @ n # ns \<Longrightarrow> conn_state input
    \<lparr>to_server = [], to_client = [increased 1 n], client_closed = False, server_closed = False,
      client_log = client_talk ms @ [Sock_Sent n], server_log = New_Client_Created # server_talk (ms @ [n])\<rparr>
    (Client_Read ns) Worker_Read"
| left: "idle w input slog \<Longrightarrow> conn_state input
    \<lparr>to_server = [], to_client = [], client_closed = True, server_closed = False, client_log = client_talk input, server_log = slog\<rparr>
    Client_Exit w"
| over: "conn_state input
    \<lparr>to_server = [], to_client = [], client_closed = True, server_closed = True, client_log = client_talk input,
      server_log = New_Client_Created # server_talk input @ [Closed_Connection]\<rparr> Client_Exit Worker_Exit"

lemmas conn_defs = conn_prog_def client_main_def worker_f_def idle_def client_talk_def server_talk_def

lemma talk_snoc:
  "client_talk (ms @ [n]) = client_talk ms @ [Sock_Sent n, Sock_Received (increased 1 n)]"
  "server_talk (ms @ [n]) = server_talk ms @ [Sock_Received n, Sock_Sent (increased 1 n)]"
  by (simp_all add: client_talk_def server_talk_def)

lemma idle_step:
  assumes "idle w ms (server_log g)" and "(g', w') \<in> set (worker_f g w)" and "to_server g = []" and "\<not> client_closed g"
  shows "\<exists>log. g' = g\<lparr>server_log := log\<rparr> \<and> idle w' ms log"
  using assms by (auto simp: idle_def worker_f_def server_talk_def)

lemma conn_client_step:
  assumes "conn_state input g c w" and s: "(g', c') \<in> set (client_main g c)"
  shows "conn_state input g' c' w"
  using assms(1)
proof cases
  case (scan ms ns slog)
  show ?thesis
  proof (cases ns)
    case Nil
    with scan s have "g' = g\<lparr>client_closed := True\<rparr>" "c' = Client_Exit" by (simp_all add: client_main_def)
    with scan Nil show ?thesis using left[of w input slog] by simp
  next
    case (Cons n ns')
    with scan s have "g' = g\<lparr>to_server := [n], client_log := client_talk ms @ [Sock_Sent n]\<rparr>" "c' = Client_Read ns'"
      by (simp_all add: client_main_def)
    with scan Cons show ?thesis using sent[of input ms n ns' w slog] by simp
  qed
next
  case (answered ms n ns)
  with s have "g' = g\<lparr>to_client := [], client_log := client_talk (ms @ [n])\<rparr>" "c' = Client_Scan ns"
    by (simp_all add: client_main_def talk_snoc)
  with answered show ?thesis
    using conn_state.scan[of input "ms @ [n]" ns Worker_Read "New_Client_Created # server_talk (ms @ [n])"] by (simp add: idle_def)
qed (use s in \<open>simp_all add: client_main_def\<close>)

lemma conn_worker_step:
  assumes "conn_state input g c w" and s: "(g', w') \<in> set (worker_f g w)"
  shows "conn_state input g' c w'"
  using assms(1)
proof cases
  case (scan ms ns slog)
  with idle_step[OF _ s, of ms] obtain log where "g' = g\<lparr>server_log := log\<rparr>" "idle w' ms log" by auto
  with scan show ?thesis using conn_state.scan[of input ms ns w' log] by simp
next
  case (sent ms n ns slog)
  show ?thesis
  proof (cases "w = Worker_Start")
    case True
    with sent s have "ms = []" "g' = g\<lparr>server_log := [New_Client_Created]\<rparr>" "w' = Worker_Read"
      by (simp_all add: worker_f_def idle_def)
    with sent show ?thesis using conn_state.sent[of input "[]" n ns Worker_Read "[New_Client_Created]"]
      by (simp add: idle_def server_talk_def)
  next
    case False
    with sent s have "g' = g\<lparr>to_server := [], server_log := New_Client_Created # server_talk ms @ [Sock_Received n]\<rparr>"
      "w' = Worker_Write (increased 1 n)" by (auto simp: worker_f_def idle_def increased_simps)
    with sent show ?thesis using taken[of input ms n ns] by simp
  qed
next
  case (taken ms n ns)
  with s have "g' = g\<lparr>to_client := [increased 1 n], server_log := New_Client_Created # server_talk (ms @ [n])\<rparr>" "w' = Worker_Read"
    by (simp_all add: worker_f_def talk_snoc)
  with taken show ?thesis using answered[of input ms n ns] by simp
next
  case (left slog)
  show ?thesis
  proof (cases "w = Worker_Start")
    case True
    with left s have "input = []" "g' = g\<lparr>server_log := [New_Client_Created]\<rparr>" "w' = Worker_Read"
      by (simp_all add: worker_f_def idle_def)
    with left show ?thesis using conn_state.left[of Worker_Read input "[New_Client_Created]"]
      by (simp add: idle_def server_talk_def)
  next
    case False
    with left s have "g' = g\<lparr>server_closed := True, server_log := New_Client_Created # server_talk input @ [Closed_Connection]\<rparr>"
      "w' = Worker_Exit" by (auto simp: worker_f_def idle_def)
    with left show ?thesis using over[of input] by simp
  qed
qed (use s in \<open>simp_all add: worker_f_def\<close>)

interpretation cs: invariant conn_prog 2 "conn_start input" "\<lambda>g ls. conn_state input g (ls 0) (ls 1)" for input
proof
  show "conn_state input (fst (conn_start input)) (snd (conn_start input) 0) (snd (conn_start input) 1)"
    using scan[of input "[]" input Worker_Start "[]"] by (simp add: conn_start_def idle_def client_talk_def)
  fix g ls i g' l'
  assume inv: "conn_state input g (ls 0) (ls 1)" and i: "i < 2" and s: "(g', l') \<in> set (conn_prog i g (ls i))"
  show "conn_state input g' ((ls(i := l')) 0) ((ls(i := l')) 1)"
  proof (cases "i = 0")
    case True
    with s conn_client_step[OF inv] show ?thesis by (simp add: conn_prog_def)
  next
    case False
    with i have "i = 1" by simp
    with s conn_worker_step[OF inv] show ?thesis by (simp add: conn_prog_def)
  qed
qed

lemma client_numbers [simp]: "numbers_sent (client_talk ms) = ms" "numbers_received (client_talk ms) = map (increased 1) ms"
  by (induction ms) (simp_all add: client_talk_def numbers_sent_def numbers_received_def)

text \<open>
  In every interleaving the client receives the successors of the numbers it has sent, in their order, and
  one of the two can go on until both are done; then every number has been answered and both
  ends are closed.
\<close>

lemma connection_answers:
  assumes "reach conn_prog 2 (conn_start input) (g, ls)"
  shows "(\<exists>rest. numbers_received (client_log g) @ rest = map (increased 1) (numbers_sent (client_log g)) \<and> length rest \<le> 1) \<and>
    ((\<exists>i < 2. conn_prog i g (ls i) \<noteq> []) \<or> client_closed g \<and> server_closed g \<and> client_log g = client_talk input \<and>
       server_log g = New_Client_Created # server_talk input @ [Closed_Connection])"
proof -
  have "conn_state input g (ls 0) (ls 1)" by (rule cs.reach_inv[OF assms])
  then have "(\<exists>rest. numbers_received (client_log g) @ rest = map (increased 1) (numbers_sent (client_log g)) \<and> length rest \<le> 1) \<and>
    (client_main g (ls 0) \<noteq> [] \<or> worker_f g (ls 1) \<noteq> [] \<or> client_closed g \<and> server_closed g \<and> client_log g = client_talk input \<and>
       server_log g = New_Client_Created # server_talk input @ [Closed_Connection])"
  proof cases
    case (scan ms ns slog)
    then show ?thesis by (cases ns) (simp_all add: client_main_def)
  qed (auto simp: client_main_def worker_f_def idle_def)
  moreover have "client_main g (ls 0) = conn_prog 0 g (ls 0)" "worker_f g (ls 1) = conn_prog 1 g (ls 1)"
    by (simp_all add: conn_prog_def)
  ultimately show ?thesis by (metis one_less_numeral_iff semiring_norm(76) zero_less_numeral)
qed

end
