(* ===== verification/More_Servers.thy ===== *)
theory More_Servers
  imports Servers Shell_Exec
begin

text \<open>
  The daemon of \<^verbatim>\<open>lecture_examples/10_users/9_daemon.c\<close> with its table of descriptors, and the server of
  \<^verbatim>\<open>9_aio/6_server_kqueue.c\<close>. Both serve clients as the servers of theory \<^verbatim>\<open>Servers\<close> do.
\<close>

section \<open>The daemon\<close>

text \<open>
  What the child process does after \<^verbatim>\<open>fork\<close>: the parent's table \<open>T\<close> is its own. \<open>sid\<close> is the result of
  \<^verbatim>\<open>setsid\<close>. \<^verbatim>\<open>dup2\<close> cannot fail: its first argument has just been opened.
\<close>

definition daemonize :: "(string \<Rightarrow> open_mode \<Rightarrow> bool) \<Rightarrow> int \<Rightarrow> string \<Rightarrow> fds \<Rightarrow> int \<times> fds" where
  "daemonize openable sid log_file T =
     (let (fd, T) = sys_open openable log_file M_trunc T in
      if fd = - 1 then (- 1, T)
      else let T = sys_dup2 fd 1 T; T = sys_close fd T; T = sys_close 0 T; T = sys_close 2 T in (sid, T))"

record daemon =
  fd_table :: fds
  polls :: poll_server

text \<open>The start of \<^verbatim>\<open>main\<close> up to its loop; \<^verbatim>\<open>socket\<close>, \<^verbatim>\<open>bind\<close> and \<^verbatim>\<open>listen\<close> succeed.\<close>

definition daemon_start :: "(string \<Rightarrow> open_mode \<Rightarrow> bool) \<Rightarrow> int \<Rightarrow> string \<Rightarrow> fds \<Rightarrow> daemon option" where
  "daemon_start openable sid log_file T =
     (let (rc, T) = daemonize openable sid log_file T in
      if rc = - 1 then None
      else let (server, T) = sys_alloc (Socket 0) T in Some \<lparr>fd_table = T, polls = poll_start server\<rparr>)"

text \<open>
  One turn of the main loop. \<open>t_accept\<close> only says whether \<^verbatim>\<open>accept\<close> succeeds; the new descriptor is the first free
  one. Clients that have gone keep their descriptors.
\<close>

definition daemon_turn :: "bool \<Rightarrow> turn \<Rightarrow> daemon \<Rightarrow> bool \<times> daemon" where
  "daemon_turn garbage T d =
     (let accepting = t_nfds T \<noteq> 0 \<and> t_nfds T \<noteq> - 1 \<and> t_ready T (fd (hd (fds (polls d)))) \<and> t_accept T \<noteq> - 1;
          (client_sock, table) = (if accepting then sys_alloc (Socket 1) (fd_table d) else (- 1, fd_table d));
          (on, p) = poll_turn garbage (T\<lparr>t_accept := client_sock\<rparr>) (polls d)
      in (on, d\<lparr>fd_table := table, polls := p\<rparr>))"

text \<open>The end of \<^verbatim>\<open>main\<close>: every descriptor of the table is closed, the listening one twice.\<close>

definition daemon_end :: "daemon \<Rightarrow> fds" where
  "daemon_end d = sys_close (fd (hd (fds (polls d)))) (fold (\<lambda>p. sys_close (fd p)) (fds (polls d)) (fd_table d))"

lemma first_free_least: "fd_at T i = None \<Longrightarrow> 0 \<le> i \<Longrightarrow> int (first_free T) \<le> i"
proof (induction T arbitrary: i)
  case (Cons x T)
  show ?case
  proof (cases "x = None")
    case False
    with Cons.prems have i: "i \<noteq> 0" by (auto simp: fd_at_def)
    have "nat i = Suc (nat (i - 1))" using Cons.prems(2) i by simp
    then have "fd_at T (i - 1) = None" using Cons.prems i by (auto simp: fd_at_def)
    with Cons.IH[of "i - 1"] Cons.prems i False show ?thesis by simp
  qed (use Cons.prems in simp)
qed simp

lemma first_free_eq:
  assumes "fd_at T (int n) = None" and "\<And>m. m < n \<Longrightarrow> fd_at T (int m) \<noteq> None"
  shows "first_free T = n"
proof -
  have "first_free T \<le> n" using first_free_least[OF assms(1)] by simp
  moreover have "\<not> first_free T < n" using assms(2) first_free_free by blast
  ultimately show ?thesis by simp
qed

text \<open>
  Started with its three standard descriptors, the daemon writes to its log and keeps the other descriptors;
  its listening socket becomes descriptor 0 and its first client descriptor 2, the standard error.
\<close>

lemma daemon_descriptors:
  assumes "openable log_file M_trunc" and "sid \<noteq> - 1" and "\<And>i. i \<in> {0, 1, 2} \<Longrightarrow> fd_at T i \<noteq> None"
  shows "\<exists>d. daemon_start openable sid log_file T = Some d \<and> fd_at (fd_table d) 1 = Some (Opened log_file M_trunc) \<and>
    fds (polls d) = [\<lparr>fd = 0, revents = False\<rparr>] \<and> first_free (fd_table d) = 2 \<and>
    (\<forall>i \<ge> 3. fd_at (fd_table d) i = fd_at T i)"
proof -
  let ?n = "first_free T"
  have "?n \<noteq> 0" using assms(3)[of 0] first_free_free[of T] by (intro notI) simp
  moreover have "?n \<noteq> 1" using assms(3)[of 1] first_free_free[of T] by (intro notI) simp
  moreover have "?n \<noteq> 2" using assms(3)[of 2] first_free_free[of T] by (intro notI) simp
  ultimately have n: "?n \<ge> 3" by linarith
  let ?T = "sys_close 2 (sys_close 0 (sys_close (int ?n) (sys_dup2 (int ?n) 1 (set_fd ?n (Opened log_file M_trunc) T))))"
  have at: "fd_at ?T i = (if i = 1 then Some (Opened log_file M_trunc) else if i = 0 \<or> i = 2 then None else fd_at T i)" for i
    using n first_free_free[of T] by auto
  have 0: "first_free ?T = 0" by (rule first_free_eq) (use at in simp_all)
  have 2: "first_free (set_fd 0 (Socket 0) ?T) = 2" by (rule first_free_eq) (use n in \<open>auto simp: less_2_cases_iff\<close>)
  have "daemon_start openable sid log_file T = Some \<lparr>fd_table = set_fd 0 (Socket 0) ?T, polls = poll_start 0\<rparr>"
    using assms(1,2) 0 by (simp add: daemon_start_def daemonize_def sys_open_def sys_alloc_def)
  moreover have "fd_at (set_fd 0 (Socket 0) ?T) i = (if i = 0 then Some (Socket 0) else fd_at ?T i)" for i
    by (simp add: fd_at_set del: fd_at_close fd_at_dup2)
  ultimately show ?thesis
    using 2 at by (intro exI[of _ "\<lparr>fd_table = set_fd 0 (Socket 0) ?T, polls = poll_start 0\<rparr>"]) (simp add: poll_start_def del: fd_at_set fd_at_close fd_at_dup2)
qed

text \<open>
  Started without a standard output, the daemon loses its log: \<^verbatim>\<open>open\<close> returns 1, and 1 is closed again. The first
  client then becomes the standard output.
\<close>

lemma daemon_loses_log:
  assumes "openable log_file M_trunc" and "sid \<noteq> - 1" and "fd_at T 0 \<noteq> None" and "fd_at T 1 = None"
  shows "\<exists>d. daemon_start openable sid log_file T = Some d \<and> first_free (fd_table d) = 1"
proof -
  have n: "first_free T = 1" by (rule first_free_eq) (use assms(3,4) in simp_all)
  let ?T = "sys_close 2 (sys_close 0 (sys_close 1 (sys_dup2 1 1 (set_fd 1 (Opened log_file M_trunc) T))))"
  have at: "fd_at ?T i = (if i = 0 \<or> i = 1 \<or> i = 2 then None else fd_at T i)" for i by simp
  have 0: "first_free ?T = 0" by (rule first_free_eq) (use at in simp_all)
  have 1: "first_free (set_fd 0 (Socket 0) ?T) = 1" by (rule first_free_eq) (use at in simp_all)
  show ?thesis
    using assms(1,2) 0 1 n by (simp add: daemon_start_def daemonize_def sys_open_def sys_alloc_def poll_start_def Let_def)
qed

section \<open>The server with kqueue\<close>

text \<open>
  One event at a time: the descriptor \<open>ident\<close> and whether the other side has closed (\<open>eof\<close>); \<open>ctl\<close> is the result of adding a
  new client. The state is that of the epoll server.
\<close>

definition kqueue_turn :: "int \<Rightarrow> int \<Rightarrow> bool \<Rightarrow> int \<Rightarrow> turn \<Rightarrow> epoll_server \<Rightarrow> bool \<times> epoll_server" where
  "kqueue_turn server ident eof ctl T s =
     (if t_nfds T = 0 then (True, s\<lparr>ep_events := ep_events s @ [Timeout]\<rparr>)
      else if t_nfds T = - 1 then (False, s\<lparr>ep_events := ep_events s @ [Failed]\<rparr>)
      else if ident = server then
        (if t_accept T = - 1 then (False, s\<lparr>ep_events := ep_events s @ [Failed]\<rparr>)
         else let s = s\<lparr>ep_events := ep_events s @ [New_Client], ep_opened := ep_opened s @ [t_accept T]\<rparr>
           in if ctl = - 1 then (False, s\<lparr>ep_events := ep_events s @ [Failed]\<rparr>)
              else (True, s\<lparr>watched := watched s @ [t_accept T]\<rparr>))
      else let (rc, out) = interact T ident; s = s\<lparr>ep_events := ep_events s @ Interact ident # out\<rparr> in
        if rc = - 1 then (False, s\<lparr>ep_events := ep_events s @ [Failed]\<rparr>)
        else if eof then (True, s\<lparr>ep_events := ep_events s @ [Disconnected ident],
          ep_opened := remove1 ident (ep_opened s), watched := remove1 ident (watched s)\<rparr>)
        else (True, s))"

fun kqueue_loop :: "int \<Rightarrow> (int \<times> bool \<times> int \<times> turn) list \<Rightarrow> epoll_server \<Rightarrow> bool \<times> epoll_server" where
  "kqueue_loop server [] s = (True, s)"
| "kqueue_loop server ((ident, eof, ctl, T) # Ts) s = (let (on, s) = kqueue_turn server ident eof ctl T s in
     if on then kqueue_loop server Ts s else (False, s))"

lemma kqueue_turn_accounted:
  assumes "kqueue_turn server ident eof ctl T s = (True, s')" and "mset (ep_opened s) = {#server#} + mset (watched s)"
  shows "mset (ep_opened s') = {#server#} + mset (watched s')"
  using assms by (auto simp: kqueue_turn_def Let_def split: if_splits prod.splits)

text \<open>As long as the server runs, its open descriptors are the listening socket and the watched clients.\<close>

lemma kqueue_descriptors:
  "kqueue_loop server Ts s = (True, s') \<Longrightarrow> mset (ep_opened s) = {#server#} + mset (watched s) \<Longrightarrow>
    mset (ep_opened s') = {#server#} + mset (watched s')"
proof (induction Ts arbitrary: s)
  case (Cons x Ts)
  obtain ident eof ctl T where x: "x = (ident, eof, ctl, T)" by (cases x)
  obtain on s1 where t: "kqueue_turn server ident eof ctl T s = (on, s1)" by force
  with Cons.prems(1) x have "on" by (cases "on") simp_all
  with Cons t x kqueue_turn_accounted[of server ident eof ctl T s s1] show ?case by simp
qed simp

text \<open>A client that has sent its last numbers and closed: one number is read, then its socket is closed.\<close>

lemma kqueue_last_read:
  assumes "t_nfds T = 1" and "ident \<noteq> server" and "interact T ident = (rc, out)" and "rc > 0"
  shows "kqueue_turn server ident True ctl T s = (True, s\<lparr>ep_events := ep_events s @ Interact ident # out @ [Disconnected ident],
    ep_opened := remove1 ident (ep_opened s), watched := remove1 ident (watched s)\<rparr>)"
  using assms by (simp add: kqueue_turn_def)

end
