(* ===== verification/Signals.thy ===== *)
theory Signals
  imports Interleaving
begin

text \<open>
  The signal examples of \<^verbatim>\<open>lecture_examples/4_signals\<close> that wait for a signal: \<^verbatim>\<open>2_pause_hangs.c\<close>,
  \<^verbatim>\<open>4_sigprocmask.c\<close>, \<^verbatim>\<open>6_sigaction_mask.c\<close>, \<^verbatim>\<open>7_sigaction_jmp.c\<close>, \<^verbatim>\<open>8_sigaction_sigjmp.c\<close> and \<^verbatim>\<open>9_sigsuspend.c\<close>.
  Thread 0 is the process; thread 1 stands for whoever sends it the one signal of the program, \<open>sends\<close> times in all.
  A signal that is pending and not blocked may be delivered before any step of the process: the handler runs
  on top of what was interrupted, with the signal blocked unless \<open>SA_NODEFER\<close> was asked for, and its return restores the
  mask. A second signal that comes while one is pending is merged with it, as POSIX has it.
\<close>

section \<open>Delivery\<close>

record sigs =
  pending :: bool
  blocked :: bool
  installed :: bool
  nodefer :: bool
  sends :: nat

text \<open>Where the process is: in \<^verbatim>\<open>main\<close>, with the handlers that run on top of it and the mask each of them restores;
  killed by a signal without a handler; lost after a jump to a buffer that was never set.\<close>

datatype ('m, 'h) sig_place =
    At 'm "('h \<times> bool) list"
  | Killed
  | Lost
  | Sender

datatype ('m, 'h) act =
    Next 'h
  | Return
  | Jump 'm
  | Wild_Jump

text \<open>\<open>wake m b\<close> is where \<^verbatim>\<open>main\<close> goes on after a delivery at \<open>m\<close>, and the mask then restored.\<close>

definition deliver :: "('m \<Rightarrow> bool \<Rightarrow> 'm \<times> bool) \<Rightarrow> 'h \<Rightarrow> 'a sigs_scheme \<Rightarrow> 'm \<Rightarrow> ('h \<times> bool) list \<Rightarrow>
    ('a sigs_scheme \<times> ('m, 'h) sig_place) list" where
  "deliver wake entry g m hs = (if pending g \<and> \<not> blocked g then
     (if installed g then
        [(g\<lparr>pending := False, blocked := \<not> nodefer g\<rparr>, At (fst (wake m False)) ((entry, snd (wake m False)) # hs))]
      else [(g, Killed)])
   else [])"

fun act_on :: "'m \<Rightarrow> bool \<Rightarrow> ('h \<times> bool) list \<Rightarrow> 'a sigs_scheme \<times> ('m, 'h) act \<Rightarrow> 'a sigs_scheme \<times> ('m, 'h) sig_place" where
  "act_on m b hs (g, Next h) = (g, At m ((h, b) # hs))"
| "act_on m b hs (g, Return) = (g\<lparr>blocked := b\<rparr>, At m hs)"
| "act_on m b hs (g, Jump m') = (g, At m' [])"
| "act_on m b hs (g, Wild_Jump) = (g, Lost)"

definition send :: "'a sigs_scheme \<Rightarrow> 'a sigs_scheme" where
  "send g = g\<lparr>pending := True, sends := sends g - 1\<rparr>"

fun sig_prog :: "('m \<Rightarrow> bool \<Rightarrow> 'm \<times> bool) \<Rightarrow> 'h \<Rightarrow> ('a sigs_scheme \<Rightarrow> 'm \<Rightarrow> ('a sigs_scheme \<times> 'm) list) \<Rightarrow>
    ('a sigs_scheme \<Rightarrow> 'h \<Rightarrow> ('a sigs_scheme \<times> ('m, 'h) act) list) \<Rightarrow> ('a sigs_scheme, ('m, 'h) sig_place) prog" where
  "sig_prog wake entry main handler i g Sender = (if 0 < sends g then [(send g, Sender)] else [])"
| "sig_prog wake entry main handler i g (At m []) =
     deliver wake entry g m [] @ map (\<lambda>(g, m). (g, At m [])) (main g m)"
| "sig_prog wake entry main handler i g (At m ((h, b) # hs)) =
     deliver wake entry g m ((h, b) # hs) @ map (act_on m b hs) (handler g h)"
| "sig_prog wake entry main handler i g _ = []"

definition sig_start :: "'m \<Rightarrow> nat \<Rightarrow> ('m, 'h) sig_place" where
  "sig_start m i = (if i = 0 then At m [] else Sender)"

text \<open>\<^verbatim>\<open>raise\<close> comes back only when the signal has been delivered or is blocked.\<close>

definition raised :: "'a sigs_scheme \<Rightarrow> 'm \<Rightarrow> ('a sigs_scheme \<times> 'm) list" where
  "raised g m = (if pending g \<and> \<not> blocked g then [] else [(g, m)])"

text \<open>An invariant of the process that a signal sent at any time does not break.\<close>

locale signal_invariant =
  fixes prog :: "('a sigs_scheme, ('m, 'h) sig_place) prog" and g0 :: "'a sigs_scheme" and m0 :: 'm
    and inv :: "'a sigs_scheme \<Rightarrow> ('m, 'h) sig_place \<Rightarrow> bool"
  assumes at_start: "inv g0 (At m0 [])"
    and sender: "prog i g Sender = (if 0 < sends g then [(send g, Sender)] else [])"
    and process: "inv g l \<Longrightarrow> l \<noteq> Sender \<Longrightarrow> (g', l') \<in> set (prog i g l) \<Longrightarrow> inv g' l' \<and> l' \<noteq> Sender"
    and sending: "inv g l \<Longrightarrow> 0 < sends g \<Longrightarrow> inv (send g) l"
begin

sublocale iv: invariant prog 2 "(g0, sig_start m0)" "\<lambda>g ls. inv g (ls 0) \<and> ls 0 \<noteq> Sender \<and> ls 1 = Sender"
proof
  show "inv (fst (g0, sig_start m0)) (snd (g0, sig_start m0) 0) \<and> snd (g0, sig_start m0) 0 \<noteq> Sender \<and>
      snd (g0, sig_start m0) 1 = Sender"
    using at_start by (simp add: sig_start_def)
next
  fix g :: "'a sigs_scheme" and ls :: "nat \<Rightarrow> ('m, 'h) sig_place" and i g' l'
  assume inv: "inv g (ls 0) \<and> ls 0 \<noteq> Sender \<and> ls 1 = Sender" and i: "i < 2" and s: "(g', l') \<in> set (prog i g (ls i))"
  show "inv g' ((ls(i := l')) 0) \<and> (ls(i := l')) 0 \<noteq> Sender \<and> (ls(i := l')) 1 = Sender"
  proof (cases "i = 0")
    case True
    from inv have "inv g (ls 0)" "ls 0 \<noteq> Sender" by simp_all
    from process[OF this, of g' l' i] s True inv show ?thesis by simp
  next
    case False
    with i have [simp]: "i = 1" by simp
    from s inv have "0 < sends g" "g' = send g" "l' = Sender" by (simp_all add: sender split: if_splits)
    with sending[of g "ls 0"] inv show ?thesis by simp
  qed
qed

end

section \<open>A signal between test and pause\<close>

record pause_state = sigs +
  is_sig_received :: bool

datatype pause_pc = P_Install | P_First_Key | P_Test | P_Key | P_Pause | P_Done

definition pause_main :: "pause_state \<Rightarrow> pause_pc \<Rightarrow> (pause_state \<times> pause_pc) list" where
  "pause_main g m = (case m of
       P_Install \<Rightarrow> [(g\<lparr>installed := True\<rparr>, P_First_Key)]
     | P_First_Key \<Rightarrow> [(g, P_Test)]
     | P_Test \<Rightarrow> [(g, if \<not> is_sig_received g then P_Key else P_Done)]
     | P_Key \<Rightarrow> [(g, P_Pause)]
     | P_Pause \<Rightarrow> []
     | P_Done \<Rightarrow> [])"

definition pause_wake :: "pause_pc \<Rightarrow> bool \<Rightarrow> pause_pc \<times> bool" where
  "pause_wake m b = (if m = P_Pause then P_Test else m, b)"

definition pause_handler :: "pause_state \<Rightarrow> unit \<Rightarrow> (pause_state \<times> (pause_pc, unit) act) list" where
  "pause_handler g h = [(g\<lparr>is_sig_received := True\<rparr>, Return)]"

abbreviation pause_prog :: "(pause_state, (pause_pc, unit) sig_place) prog" where
  "pause_prog \<equiv> sig_prog pause_wake () pause_main pause_handler"

definition pause_start :: "nat \<Rightarrow> pause_state" where
  "pause_start k = \<lparr>pending = False, blocked = False, installed = False, nodefer = False, sends = k, is_sig_received = False\<rparr>"

text \<open>The process stops at the end, killed, or asleep in \<^verbatim>\<open>pause\<close> with all signals spent. It ends only after a signal.\<close>

definition pause_inv :: "nat \<Rightarrow> pause_state \<Rightarrow> (pause_pc, unit) sig_place \<Rightarrow> bool" where
  "pause_inv k g l \<longleftrightarrow> (case l of
       At m hs \<Rightarrow> (sends g < k \<longrightarrow> pending g \<or> hs \<noteq> [] \<or> is_sig_received g) \<and> (m = P_Done \<longrightarrow> is_sig_received g) \<and>
         (m = P_Install \<longrightarrow> hs = []) \<and> (installed g \<longleftrightarrow> m \<noteq> P_Install) \<and> (blocked g \<longleftrightarrow> hs \<noteq> []) \<and> \<not> nodefer g \<and>
         (\<forall>h b. (h, b) \<in> set hs \<longrightarrow> \<not> b) \<and> length hs \<le> 1
     | Killed \<Rightarrow> \<not> installed g
     | _ \<Rightarrow> False)"

lemmas pause_defs = pause_main_def pause_wake_def pause_handler_def deliver_def send_def

interpretation pa: signal_invariant pause_prog "pause_start k" P_Install "pause_inv k" for k
proof
  show "pause_inv k (pause_start k) (At P_Install [])" by (simp add: pause_inv_def pause_start_def)
  show "pause_prog i g Sender = (if 0 < sends g then [(send g, Sender)] else [])" for i g by simp
  show "pause_inv k g l \<Longrightarrow> 0 < sends g \<Longrightarrow> pause_inv k (send g) l" for g l
    by (auto simp: pause_inv_def send_def split: sig_place.splits)
next
  fix g g' :: pause_state and l l' :: "(pause_pc, unit) sig_place" and i
  assume inv: "pause_inv k g l" and l: "l \<noteq> Sender" and s: "(g', l') \<in> set (pause_prog i g l)"
  show "pause_inv k g' l' \<and> l' \<noteq> Sender"
  proof (cases l)
    case (At m hs)
    show ?thesis
    proof (cases hs)
      case Nil
      with At inv s show ?thesis by (cases m) (auto simp: pause_inv_def pause_defs split: if_splits)
    next
      case (Cons x hs')
      with At inv s show ?thesis by (cases x) (auto simp: pause_inv_def pause_defs split: if_splits)
    qed
  qed (use inv l s in \<open>auto simp: pause_inv_def\<close>)
qed

lemma pause_ends:
  assumes "reach pause_prog 2 (pause_start k, sig_start P_Install) (g, ls)" and "\<forall>i < 2. pause_prog i g (ls i) = []"
  shows "(ls 0 = Killed \<and> \<not> installed g) \<or> (ls 0 = At P_Done [] \<and> is_sig_received g) \<or>
    (ls 0 = At P_Pause [] \<and> sends g = 0 \<and> \<not> pending g \<and> (0 < k \<longrightarrow> is_sig_received g))"
proof -
  have inv: "pause_inv k g (ls 0)" "ls 1 = Sender" using pa.iv.reach_inv[OF assms(1)] by simp_all
  have stuck: "pause_prog 0 g (ls 0) = []" "pause_prog 1 g (ls 1) = []" using assms(2) by simp_all
  have s: "sends g = 0" using stuck(2) inv(2) by (simp split: if_splits)
  show ?thesis
  proof (cases "ls 0")
    case (At m hs)
    show ?thesis
    proof (cases hs)
      case Nil
      with At inv(1) stuck(1) s show ?thesis by (cases m) (auto simp: pause_inv_def pause_defs split: if_splits)
    next
      case (Cons x hs')
      with At stuck(1) show ?thesis by (cases x) (simp add: pause_handler_def)
    qed
  qed (use inv in \<open>auto simp: pause_inv_def\<close>)
qed

text \<open>The one signal that comes after the test and before \<^verbatim>\<open>pause\<close> is received, and the process sleeps for ever.\<close>

lemma pause_hangs:
  "\<exists>g ls. reach pause_prog 2 (pause_start 1, sig_start P_Install) (g, ls) \<and> is_sig_received g \<and>
     ls 0 = At P_Pause [] \<and> (\<forall>i < 2. pause_prog i g (ls i) = [])"
proof -
  let ?sch = "[(0, 0), (0, 0), (0, 0), (1, 0), (0, 0), (0, 0), (0, 0)] :: (nat \<times> nat) list"
  let ?g = "\<lparr>pending = False, blocked = False, installed = True, nodefer = False, sends = 0, is_sig_received = True\<rparr>"
  let ?ls = "(sig_start P_Install)(0 := At P_Pause [])"
  have "exec pause_prog ?sch (pause_start 1, sig_start P_Install) = Some (?g, ?ls)"
    by (simp add: Let_def pause_defs pause_start_def sig_start_def fun_eq_iff)
  then have "reach pause_prog 2 (pause_start 1, sig_start P_Install) (?g, ?ls)" by (rule exec_reach) simp
  moreover have "\<forall>i < 2. pause_prog i ?g (?ls i) = []"
    by (simp add: less_2_cases_iff pause_defs sig_start_def)
  ultimately show ?thesis by (intro exI[of _ ?g] exI[of _ ?ls]) simp
qed

section \<open>sigsuspend\<close>

text \<open>What programs 6 to 9 keep: \<open>finished\<close> and \<open>ident\<close> (the static \<open>id\<close>), the jump buffer with the mask it saved, if any, and the
  lines printed, each with the mask it reports.\<close>

datatype sig_line = Before bool | Process bool | Begin int bool | End int | After bool

record sig_state = sigs +
  finished :: int
  ident :: int
  buf :: "bool option option"
  printed :: "sig_line list"

definition sig_tell :: "sig_line \<Rightarrow> sig_state \<Rightarrow> sig_state" where
  "sig_tell x g = g\<lparr>printed := printed g @ [x]\<rparr>"

definition sig_init :: "nat \<Rightarrow> sig_state" where
  "sig_init k = \<lparr>pending = False, blocked = False, installed = False, nodefer = False, sends = k,
     finished = 0, ident = 0, buf = None, printed = []\<rparr>"

datatype susp_pc =
    S_Before
  | S_Block
  | S_Install bool
  | S_Test bool
  | S_Suspend bool
  | S_Suspended bool bool
  | S_Restore bool
  | S_After
  | S_Done

definition suspend_main :: "sig_state \<Rightarrow> susp_pc \<Rightarrow> (sig_state \<times> susp_pc) list" where
  "suspend_main g m = (case m of
       S_Before \<Rightarrow> [(sig_tell (Before (blocked g)) g, S_Block)]
     | S_Block \<Rightarrow> [(g\<lparr>blocked := True\<rparr>, S_Install (blocked g))]
     | S_Install old \<Rightarrow> [(g\<lparr>installed := True, nodefer := False\<rparr>, S_Test old)]
     | S_Test old \<Rightarrow> [(g, if finished g \<noteq> 1 then S_Suspend old else S_Restore old)]
     | S_Suspend old \<Rightarrow> [(g\<lparr>blocked := False\<rparr>, S_Suspended old (blocked g))]
     | S_Suspended old saved \<Rightarrow> []
     | S_Restore old \<Rightarrow> [(g\<lparr>blocked := old\<rparr>, S_After)]
     | S_After \<Rightarrow> [(sig_tell (After (blocked g)) g, S_Done)]
     | S_Done \<Rightarrow> [])"

text \<open>\<^verbatim>\<open>sigsuspend\<close> comes back after one handler, with the mask there was before.\<close>

definition suspend_wake :: "susp_pc \<Rightarrow> bool \<Rightarrow> susp_pc \<times> bool" where
  "suspend_wake m b = (case m of S_Suspended old saved \<Rightarrow> (S_Test old, saved) | _ \<Rightarrow> (m, b))"

datatype handler_pc = H_Print | H_Count

definition suspend_handler :: "sig_state \<Rightarrow> handler_pc \<Rightarrow> (sig_state \<times> (susp_pc, handler_pc) act) list" where
  "suspend_handler g h = (case h of
       H_Print \<Rightarrow> [(sig_tell (Process (blocked g)) g, Next H_Count)]
     | H_Count \<Rightarrow> [(g\<lparr>finished := finished g + 1\<rparr>, Return)])"

abbreviation suspend_prog :: "(sig_state, (susp_pc, handler_pc) sig_place) prog" where
  "suspend_prog \<equiv> sig_prog suspend_wake H_Print suspend_main suspend_handler"

text \<open>Before the loop ends the signal is blocked except inside \<^verbatim>\<open>sigsuspend\<close>, so no signal is handled between the test and
  the wait, and one at most is handled in all.\<close>

definition suspend_at :: "sig_state \<Rightarrow> susp_pc \<Rightarrow> (handler_pc \<times> bool) list \<Rightarrow> bool" where
  "suspend_at g m hs \<longleftrightarrow> (case m of
       S_Before \<Rightarrow> \<not> installed g \<and> \<not> blocked g \<and> hs = [] \<and> finished g = 0
     | S_Block \<Rightarrow> \<not> installed g \<and> \<not> blocked g \<and> hs = [] \<and> finished g = 0
     | S_Install old \<Rightarrow> blocked g \<and> hs = [] \<and> finished g = 0
     | S_Test old \<Rightarrow> installed g \<and> blocked g \<and>
         (hs = [] \<and> (finished g = 0 \<or> finished g = 1) \<or> (\<exists>h. hs = [(h, True)]) \<and> finished g = 0)
     | S_Suspend old \<Rightarrow> installed g \<and> blocked g \<and> hs = [] \<and> finished g = 0
     | S_Suspended old saved \<Rightarrow> installed g \<and> saved \<and> \<not> blocked g \<and> hs = [] \<and> finished g = 0
     | S_Restore old \<Rightarrow> installed g \<and> blocked g \<and> hs = [] \<and> finished g = 1
     | _ \<Rightarrow> installed g \<and> 1 \<le> finished g \<and> length hs \<le> 1 \<and> (hs \<noteq> [] \<longrightarrow> blocked g))"

definition suspend_inv :: "nat \<Rightarrow> sig_state \<Rightarrow> (susp_pc, handler_pc) sig_place \<Rightarrow> bool" where
  "suspend_inv k g l \<longleftrightarrow> \<not> nodefer g \<and> Process False \<notin> set (printed g) \<and> (case l of
       At m hs \<Rightarrow> suspend_at g m hs \<and> (sends g < k \<longrightarrow> pending g \<or> hs \<noteq> [] \<or> 1 \<le> finished g)
     | Killed \<Rightarrow> \<not> installed g
     | _ \<Rightarrow> False)"

lemmas suspend_defs = suspend_inv_def suspend_at_def suspend_main_def suspend_wake_def suspend_handler_def deliver_def
  send_def sig_tell_def

interpretation su: signal_invariant suspend_prog "sig_init k" S_Before "suspend_inv k" for k
proof
  show "suspend_inv k (sig_init k) (At S_Before [])" by (simp add: suspend_defs sig_init_def)
  show "suspend_prog i g Sender = (if 0 < sends g then [(send g, Sender)] else [])" for i g by simp
  show "suspend_inv k g l \<Longrightarrow> 0 < sends g \<Longrightarrow> suspend_inv k (send g) l" for g l
    by (auto simp: suspend_defs split: sig_place.splits susp_pc.splits)
next
  fix g g' :: sig_state and l l' :: "(susp_pc, handler_pc) sig_place" and i
  assume inv: "suspend_inv k g l" and l: "l \<noteq> Sender" and s: "(g', l') \<in> set (suspend_prog i g l)"
  show "suspend_inv k g' l' \<and> l' \<noteq> Sender"
  proof (cases l)
    case (At m hs)
    show ?thesis
    proof (cases hs)
      case Nil
      with At inv s show ?thesis by (cases m) (auto simp: suspend_defs split: if_splits)
    next
      case (Cons x hs')
      obtain h b where x: "x = (h, b)" by fastforce
      with Cons At inv s show ?thesis by (cases m; cases h) (auto simp: suspend_defs split: if_splits)
    qed
  qed (use inv l s in \<open>auto simp: suspend_inv_def\<close>)
qed

text \<open>C36: the loop around \<^verbatim>\<open>sigsuspend\<close> never sleeps through a signal: once any has been sent, in whatever place the process
  was, it goes on to its end (unless the signal came before it was blocked and killed the process). Every handler runs with the
  signal blocked.
\<close>

theorem suspend_wakes:
  assumes "reach suspend_prog 2 (sig_init k, sig_start S_Before) (g, ls)" and "0 < k"
  shows "((\<exists>i < 2. suspend_prog i g (ls i) \<noteq> []) \<or> (ls 0 = At S_Done [] \<and> 1 \<le> finished g) \<or> (ls 0 = Killed \<and> \<not> installed g)) \<and>
    Process False \<notin> set (printed g)"
proof -
  have inv: "suspend_inv k g (ls 0)" "ls 1 = Sender" using su.iv.reach_inv[OF assms(1)] by simp_all
  have "suspend_prog 0 g (ls 0) \<noteq> [] \<or> suspend_prog 1 g (ls 1) \<noteq> [] \<or> (ls 0 = At S_Done [] \<and> 1 \<le> finished g) \<or> (ls 0 = Killed \<and> \<not> installed g)"
  proof (cases "ls 0")
    case (At m hs)
    show ?thesis
    proof (cases hs)
      case Nil
      with At inv assms(2) show ?thesis by (cases m) (auto simp: suspend_defs split: if_splits)
    next
      case (Cons x hs')
      then show ?thesis using At by (cases x) (simp add: suspend_handler_def split: handler_pc.splits)
    qed
  qed (use inv in \<open>auto simp: suspend_inv_def\<close>)
  moreover have "Process False \<notin> set (printed g)" using inv by (simp add: suspend_inv_def)
  ultimately show ?thesis by (metis one_less_numeral_iff semiring_norm(76) zero_less_numeral)
qed

theorem suspend_wakes_witness:
  "\<exists>g ls. reach suspend_prog 2 (sig_init 1, sig_start S_Before) (g, ls) \<and> ls 0 = At (S_Suspended False True) [] \<and> sends g = 0 \<and>
     (\<exists>i < 2. suspend_prog i g (ls i) \<noteq> [])"
proof -
  let ?sch = "[(0, 0), (0, 0), (0, 0), (0, 0), (1, 0), (0, 0)] :: (nat \<times> nat) list"
  obtain g ls where e: "exec suspend_prog ?sch (sig_init 1, sig_start S_Before) = Some (g, ls)"
    and l: "ls 0 = At (S_Suspended False True) []" "sends g = 0"
    by (simp add: Let_def suspend_defs sig_init_def sig_start_def)
  from e have r: "reach suspend_prog 2 (sig_init 1, sig_start S_Before) (g, ls)" by (rule exec_reach) simp
  from suspend_wakes[OF this] l(1) have "\<exists>i < 2. suspend_prog i g (ls i) \<noteq> []" by simp
  with r l show ?thesis by blast
qed

section \<open>Jumping out of the handler\<close>

text \<open>Programs 7 (\<open>setjmp\<close>, which on Linux leaves the mask alone) and 8 (\<open>sigsetjmp\<close>, which saves and restores it)
  differ in \<open>saves\<close> only. A jump to a buffer that was never set is undefined.\<close>

datatype jmp_pc =
    J_Install
  | J_Before
  | J_Setjmp
  | J_Raise
  | J_Raised
  | J_Test
  | J_Yield
  | J_After
  | J_Done

datatype jump_pc = H_Say | H_Incr | H_Jump

definition sigjmp_main :: "bool \<Rightarrow> sig_state \<Rightarrow> jmp_pc \<Rightarrow> (sig_state \<times> jmp_pc) list" where
  "sigjmp_main saves g m = (case m of
       J_Install \<Rightarrow> [(g\<lparr>installed := True, nodefer := False\<rparr>, J_Before)]
     | J_Before \<Rightarrow> [(sig_tell (Before (blocked g)) g, J_Setjmp)]
     | J_Setjmp \<Rightarrow> [(g\<lparr>buf := Some (if saves then Some (blocked g) else None)\<rparr>, J_Raise)]
     | J_Raise \<Rightarrow> [(g\<lparr>pending := True\<rparr>, J_Raised)]
     | J_Raised \<Rightarrow> raised g J_Test
     | J_Test \<Rightarrow> [(g, if finished g \<noteq> 1 then J_Yield else J_After)]
     | J_Yield \<Rightarrow> [(g, J_Test)]
     | J_After \<Rightarrow> [(sig_tell (After (blocked g)) g, J_Done)]
     | J_Done \<Rightarrow> [])"

definition jmp_handler :: "sig_state \<Rightarrow> jump_pc \<Rightarrow> (sig_state \<times> (jmp_pc, jump_pc) act) list" where
  "jmp_handler g h = (case h of
       H_Say \<Rightarrow> [(sig_tell (Process (blocked g)) g, Next H_Incr)]
     | H_Incr \<Rightarrow> [(g\<lparr>finished := finished g + 1\<rparr>, Next H_Jump)]
     | H_Jump \<Rightarrow> (case buf g of
           None \<Rightarrow> [(g, Wild_Jump)]
         | Some saved \<Rightarrow> [(case saved of None \<Rightarrow> g | Some b \<Rightarrow> g\<lparr>blocked := b\<rparr>, Jump J_Test)]))"

abbreviation jmp_prog :: "bool \<Rightarrow> (sig_state, (jmp_pc, jump_pc) sig_place) prog" where
  "jmp_prog saves \<equiv> sig_prog Pair H_Say (sigjmp_main saves) jmp_handler"

definition setjmp_prog :: "(sig_state, (jmp_pc, jump_pc) sig_place) prog" where
  "setjmp_prog = jmp_prog False"

definition sigsetjmp_prog :: "(sig_state, (jmp_pc, jump_pc) sig_place) prog" where
  "sigsetjmp_prog = jmp_prog True"

lemmas jmp_defs = sigjmp_main_def jmp_handler_def raised_def deliver_def send_def sig_tell_def

text \<open>With \<open>setjmp\<close> the signal stays blocked after the jump, so it is handled once and never again.\<close>

definition setjmp_at :: "sig_state \<Rightarrow> jmp_pc \<Rightarrow> (jump_pc \<times> bool) list \<Rightarrow> bool" where
  "setjmp_at g m hs \<longleftrightarrow> (installed g \<longleftrightarrow> m \<noteq> J_Install) \<and> (buf g = None \<or> buf g = Some None) \<and>
     (case hs of
       [] \<Rightarrow> (m \<in> {J_Install, J_Before, J_Setjmp, J_Raise, J_Raised} \<longrightarrow> \<not> blocked g \<and> finished g = 0) \<and>
         (m = J_Raised \<longrightarrow> pending g) \<and> m \<noteq> J_Yield \<and> (m \<in> {J_Test, J_After, J_Done} \<longrightarrow> blocked g \<and> finished g = 1)
     | [(h, b)] \<Rightarrow> blocked g \<and> \<not> b \<and> m \<in> {J_Before, J_Setjmp, J_Raise, J_Raised} \<and> finished g = (if h = H_Jump then 1 else 0)
     | _ \<Rightarrow> False)"

definition setjmp_inv :: "sig_state \<Rightarrow> (jmp_pc, jump_pc) sig_place \<Rightarrow> bool" where
  "setjmp_inv g l \<longleftrightarrow> \<not> nodefer g \<and> After False \<notin> set (printed g) \<and> (case l of
       At m hs \<Rightarrow> setjmp_at g m hs
     | Killed \<Rightarrow> \<not> installed g
     | Lost \<Rightarrow> buf g = None
     | Sender \<Rightarrow> False)"

interpretation sj: signal_invariant setjmp_prog "sig_init k" J_Install setjmp_inv for k
proof
  show "setjmp_inv (sig_init k) (At J_Install [])" by (simp add: setjmp_inv_def setjmp_at_def sig_init_def)
  show "setjmp_prog i g Sender = (if 0 < sends g then [(send g, Sender)] else [])" for i g by (simp add: setjmp_prog_def)
  show "setjmp_inv g l \<Longrightarrow> 0 < sends g \<Longrightarrow> setjmp_inv (send g) l" for g l
    by (auto simp: setjmp_inv_def setjmp_at_def send_def split: sig_place.splits list.splits)
next
  fix g g' :: sig_state and l l' :: "(jmp_pc, jump_pc) sig_place" and i
  assume inv: "setjmp_inv g l" and l: "l \<noteq> Sender" and s: "(g', l') \<in> set (setjmp_prog i g l)"
  show "setjmp_inv g' l' \<and> l' \<noteq> Sender"
  proof (cases l)
    case (At m hs)
    show ?thesis
    proof (cases hs)
      case Nil
      with At inv s show ?thesis
        by (cases m) (auto simp: setjmp_inv_def setjmp_at_def setjmp_prog_def jmp_defs split: if_splits)
    next
      case (Cons x hs')
      obtain h b where x: "x = (h, b)" by fastforce
      from Cons At inv have "hs' = []" by (cases hs') (auto simp: setjmp_inv_def setjmp_at_def split: prod.splits)
      with x Cons At inv s show ?thesis
        by (cases h) (auto simp: setjmp_inv_def setjmp_at_def setjmp_prog_def jmp_defs split: if_splits option.splits)
    qed
  qed (use inv l s in \<open>auto simp: setjmp_inv_def setjmp_prog_def\<close>)
qed

text \<open>So program 7 always goes on to its end, where the signal is still blocked, if no signal came before the buffer was set.\<close>

lemma setjmp_ends:
  assumes "reach setjmp_prog 2 (sig_init k, sig_start J_Install) (g, ls)"
  shows "ls 0 = Lost \<or> ls 0 = Killed \<or> ls 0 = At J_Done [] \<and> finished g = 1 \<and> blocked g \<or>
    setjmp_prog 0 g (ls 0) \<noteq> [] \<and> (\<forall>hs. ls 0 \<noteq> At J_Yield hs)"
proof -
  have inv: "setjmp_inv g (ls 0)" "ls 0 \<noteq> Sender" using sj.iv.reach_inv[OF assms] by simp_all
  show ?thesis
  proof (cases "ls 0")
    case (At m hs)
    with inv have at: "setjmp_at g m hs" by (simp add: setjmp_inv_def)
    show ?thesis
    proof (cases hs)
      case Nil
      with At inv at show ?thesis by (cases m) (auto simp: setjmp_inv_def setjmp_at_def setjmp_prog_def jmp_defs)
    next
      case (Cons x hs')
      obtain h b where x: "x = (h, b)" by fastforce
      from Cons x at have "hs' = [] \<and> m \<noteq> J_Yield" by (cases hs') (auto simp: setjmp_at_def)
      with At Cons x show ?thesis by (cases h) (auto simp: setjmp_prog_def jmp_defs split: option.splits)
    qed
  qed (use inv in auto)
qed

text \<open>With \<open>sigsetjmp\<close> the mask is restored, and a second signal after the jump is handled as well: the counter then
  passes the value 1 that the loop waits for, and the process never ends.\<close>

definition spins :: "sig_state \<Rightarrow> (jmp_pc, jump_pc) sig_place \<Rightarrow> bool" where
  "spins g l \<longleftrightarrow> installed g \<and> \<not> nodefer g \<and> buf g = Some (Some False) \<and> 2 \<le> finished g \<and>
     (\<exists>m hs. l = At m hs \<and> m \<in> {J_Test, J_Yield})"

lemma spins_step:
  assumes "spins g l" and "(g', l') \<in> set (sigsetjmp_prog i g l)"
  shows "spins g' l'"
proof -
  obtain m hs where l: "l = At m hs" "m \<in> {J_Test, J_Yield}" using assms(1) by (auto simp: spins_def)
  show ?thesis
  proof (cases hs)
    case Nil
    with l assms show ?thesis by (auto simp: spins_def sigsetjmp_prog_def jmp_defs split: if_splits)
  next
    case (Cons x hs')
    then show ?thesis using l assms
      by (cases x; cases "fst x") (auto simp: spins_def sigsetjmp_prog_def jmp_defs split: if_splits)
  qed
qed

lemma spins_for_ever:
  assumes "reach sigsetjmp_prog 2 (g0, ls0) (g, ls)" and "spins g0 (ls0 0)" and "ls0 1 = Sender"
  shows "spins g (ls 0)"
proof -
  have "reach sigsetjmp_prog 2 (g0, ls0) s \<Longrightarrow> spins (fst s) (snd s 0) \<and> snd s 1 = Sender" for s
  proof (induction rule: reach.induct)
    case (step g ls i g' l')
    show ?case
    proof (cases "i = 0")
      case True
      with step spins_step[of g "ls 0" g' l' 0] show ?thesis by simp
    next
      case False
      with step.hyps(2) have [simp]: "i = 1" by simp
      from step have "g' = send g" "l' = Sender" by (auto simp: sigsetjmp_prog_def split: if_splits)
      with step.IH show ?thesis by (simp add: spins_def send_def)
    qed
  qed (use assms in simp)
  from this[OF assms(1)] show ?thesis by simp
qed

lemma sigsetjmp_hangs:
  "\<exists>g ls. reach sigsetjmp_prog 2 (sig_init 1, sig_start J_Install) (g, ls) \<and>
     (\<forall>g' ls' hs. reach sigsetjmp_prog 2 (g, ls) (g', ls') \<longrightarrow> ls' 0 \<noteq> At J_Done hs)"
proof -
  let ?sch = "[(0, 0), (0, 0), (0, 0), (0, 0), (0, 0), (0, 0), (0, 0), (0, 0), (1, 0), (0, 0), (0, 0), (0, 0), (0, 0)] :: (nat \<times> nat) list"
  obtain g ls where e: "exec sigsetjmp_prog ?sch (sig_init 1, sig_start J_Install) = Some (g, ls)"
    and st: "spins g (ls 0)" "ls 1 = Sender"
    by (simp add: Let_def sigsetjmp_prog_def jmp_defs sig_init_def sig_start_def spins_def)
  from e have "reach sigsetjmp_prog 2 (sig_init 1, sig_start J_Install) (g, ls)" by (rule exec_reach) simp
  moreover have "ls' 0 \<noteq> At J_Done hs" if "reach sigsetjmp_prog 2 (g, ls) (g', ls')" for g' ls' hs
    using spins_for_ever[OF that st] by (auto simp: spins_def)
  ultimately show ?thesis by blast
qed

section \<open>A signal raised inside its handler\<close>

text \<open>The arguments after the program's name. Every turn of the loop compares the first of them.\<close>

definition nodefer_flag :: "string list \<Rightarrow> bool" where
  "nodefer_flag args = list_ex (\<lambda>i. args ! 0 = ''nodefer'') [0..<length args]"

datatype mask_pc =
    M_Install
  | M_Before
  | M_Raise
  | M_Raised
  | M_Test
  | M_Yield
  | M_After
  | M_Done

datatype nest_pc =
    N_Begin
  | N_Raise int
  | N_Raised int
  | N_End int
  | N_Count

definition mask_main :: "bool \<Rightarrow> sig_state \<Rightarrow> mask_pc \<Rightarrow> (sig_state \<times> mask_pc) list" where
  "mask_main defer_not g m = (case m of
       M_Install \<Rightarrow> [(g\<lparr>installed := True, nodefer := defer_not\<rparr>, M_Before)]
     | M_Before \<Rightarrow> [(sig_tell (Before (blocked g)) g, M_Raise)]
     | M_Raise \<Rightarrow> [(g\<lparr>pending := True\<rparr>, M_Raised)]
     | M_Raised \<Rightarrow> raised g M_Test
     | M_Test \<Rightarrow> [(g, if finished g \<noteq> 2 then M_Yield else M_After)]
     | M_Yield \<Rightarrow> [(g, M_Test)]
     | M_After \<Rightarrow> [(sig_tell (After (blocked g)) g, M_Done)]
     | M_Done \<Rightarrow> [])"

definition mask_handler :: "sig_state \<Rightarrow> nest_pc \<Rightarrow> (sig_state \<times> (mask_pc, nest_pc) act) list" where
  "mask_handler g h = (case h of
       N_Begin \<Rightarrow> let my_id = ident g + 1 in [(sig_tell (Begin my_id (blocked g)) (g\<lparr>ident := my_id\<rparr>), Next (N_Raise my_id))]
     | N_Raise my_id \<Rightarrow> if my_id = 1 then [(g\<lparr>pending := True\<rparr>, Next (N_Raised my_id))] else [(g, Next (N_End my_id))]
     | N_Raised my_id \<Rightarrow> map (\<lambda>(g, h). (g, Next h)) (raised g (N_End my_id))
     | N_End my_id \<Rightarrow> [(sig_tell (End my_id) g, Next N_Count)]
     | N_Count \<Rightarrow> [(g\<lparr>finished := finished g + 1\<rparr>, Return)])"

abbreviation mask_prog :: "bool \<Rightarrow> (sig_state, (mask_pc, nest_pc) sig_place) prog" where
  "mask_prog defer_not \<equiv> sig_prog Pair N_Begin (mask_main defer_not) mask_handler"

definition sigaction_mask :: "string list \<Rightarrow> (sig_state, (mask_pc, nest_pc) sig_place) prog" where
  "sigaction_mask args = mask_prog (nodefer_flag args)"

text \<open>With no other sender the program is deterministic: its states are those on one path, which is checked to be closed.\<close>

fun follow :: "('g, 'l) prog \<Rightarrow> nat \<Rightarrow> 'g \<times> 'l \<Rightarrow> ('g \<times> 'l) list" where
  "follow prog 0 s = [s]"
| "follow prog (Suc n) s = s # (case prog 0 (fst s) (snd s) of [] \<Rightarrow> [] | t # _ \<Rightarrow> follow prog n t)"

definition mask_path :: "bool \<Rightarrow> (sig_state \<times> (mask_pc, nest_pc) sig_place) list" where
  "mask_path defer_not = follow (mask_prog defer_not) 30 (sig_init 0, At M_Install [])"

definition mask_state_ok :: "bool \<Rightarrow> sig_state \<Rightarrow> (mask_pc, nest_pc) sig_place \<Rightarrow> bool" where
  "mask_state_ok defer_not g l \<longleftrightarrow> sends g = 0 \<and> l \<noteq> Sender \<and>
     list_all (\<lambda>s. s \<in> set (mask_path defer_not)) (mask_prog defer_not 0 g l) \<and>
     (mask_prog defer_not 0 g l = [] \<longrightarrow> l = At M_Done [] \<and> printed g = (if defer_not
        then [Before False, Begin 1 False, Begin 2 False, End 2, End 1, After False]
        else [Before False, Begin 1 True, End 1, Begin 2 True, End 2, After False]))"

lemma mask_path_ok: "list_all (\<lambda>(g, l). mask_state_ok True g l) (mask_path True)"
  "list_all (\<lambda>(g, l). mask_state_ok False g l) (mask_path False)"
  by code_simp+

lemma mask_path_closed:
  assumes "(g, l) \<in> set (mask_path defer_not)"
  shows "mask_state_ok defer_not g l"
  using assms mask_path_ok by (cases defer_not) (auto simp: list_all_iff)

interpretation ma: signal_invariant "mask_prog defer_not" "sig_init 0" M_Install "\<lambda>g l. (g, l) \<in> set (mask_path defer_not)" for defer_not
proof
  show "(sig_init 0, At M_Install []) \<in> set (mask_path defer_not)" by (simp add: mask_path_def numeral_eq_Suc)
  show "mask_prog defer_not i g Sender = (if 0 < sends g then [(send g, Sender)] else [])" for i g by simp
next
  fix g g' :: sig_state and l l' :: "(mask_pc, nest_pc) sig_place" and i
  assume p: "(g, l) \<in> set (mask_path defer_not)" and l: "l \<noteq> Sender" and s: "(g', l') \<in> set (mask_prog defer_not i g l)"
  have "mask_prog defer_not i g l = mask_prog defer_not 0 g l" using l
  proof (cases l)
    case (At m hs)
    then show ?thesis by (cases hs) auto
  qed auto
  with mask_path_closed[OF p] s have "(g', l') \<in> set (mask_path defer_not)"
    by (auto simp: mask_state_ok_def list_all_iff)
  with mask_path_closed[OF this] show "(g', l') \<in> set (mask_path defer_not) \<and> l' \<noteq> Sender"
    by (simp add: mask_state_ok_def)
next
  fix g :: sig_state and l :: "(mask_pc, nest_pc) sig_place"
  assume "(g, l) \<in> set (mask_path defer_not)" "0 < sends g"
  with mask_path_closed show "(send g, l) \<in> set (mask_path defer_not)" by (force simp: mask_state_ok_def)
qed

text \<open>The second signal is handled after the first handler has returned, or inside it when \<^verbatim>\<open>nodefer\<close> was given as the
  first argument; either way the program comes to its end with the signal not blocked.\<close>

lemma mask_order:
  assumes "reach (sigaction_mask args) 2 (sig_init 0, sig_start M_Install) (g, ls)" and "sigaction_mask args 0 g (ls 0) = []"
  shows "ls 0 = At M_Done [] \<and> printed g = (if args \<noteq> [] \<and> hd args = ''nodefer''
    then [Before False, Begin 1 False, Begin 2 False, End 2, End 1, After False]
    else [Before False, Begin 1 True, End 1, Begin 2 True, End 2, After False])"
proof -
  have f: "nodefer_flag args \<longleftrightarrow> args \<noteq> [] \<and> hd args = ''nodefer''"
    by (cases args) (auto simp: nodefer_flag_def list_ex_iff)
  have "(g, ls 0) \<in> set (mask_path (nodefer_flag args))"
    using ma.iv.reach_inv assms(1) by (simp add: sigaction_mask_def)
  from mask_path_closed[OF this] assms(2) show ?thesis by (simp add: mask_state_ok_def f sigaction_mask_def)
qed

section \<open>Signals that come while they are blocked\<close>

record cnt_state = sigs +
  cnt :: int
  seen_pending :: bool

datatype cnt_pc =
    C_Install
  | C_Block
  | C_Key bool
  | C_Pending bool
  | C_Unblock bool
  | C_Test
  | C_Pause
  | C_Done

definition cnt_main :: "cnt_state \<Rightarrow> cnt_pc \<Rightarrow> (cnt_state \<times> cnt_pc) list" where
  "cnt_main g m = (case m of
       C_Install \<Rightarrow> [(g\<lparr>installed := True\<rparr>, C_Block)]
     | C_Block \<Rightarrow> [(g\<lparr>blocked := True\<rparr>, C_Key (blocked g))]
     | C_Key old \<Rightarrow> [(g, C_Pending old)]
     | C_Pending old \<Rightarrow> [(g\<lparr>seen_pending := pending g\<rparr>, C_Unblock old)]
     | C_Unblock old \<Rightarrow> [(g\<lparr>blocked := old\<rparr>, C_Test)]
     | C_Test \<Rightarrow> [(g, if cnt g < 4 then C_Pause else C_Done)]
     | C_Pause \<Rightarrow> []
     | C_Done \<Rightarrow> [])"

definition cnt_wake :: "cnt_pc \<Rightarrow> bool \<Rightarrow> cnt_pc \<times> bool" where
  "cnt_wake m b = (if m = C_Pause then C_Test else m, b)"

definition cnt_handler :: "cnt_state \<Rightarrow> unit \<Rightarrow> (cnt_state \<times> (cnt_pc, unit) act) list" where
  "cnt_handler g h = [(g\<lparr>cnt := cnt g + 1\<rparr>, Return)]"

abbreviation cnt_prog :: "(cnt_state, (cnt_pc, unit) sig_place) prog" where
  "cnt_prog \<equiv> sig_prog cnt_wake () cnt_main cnt_handler"

definition cnt_start :: "nat \<Rightarrow> cnt_state" where
  "cnt_start k = \<lparr>pending = False, blocked = False, installed = False, nodefer = False, sends = k, cnt = 0, seen_pending = False\<rparr>"

lemmas cnt_defs = cnt_main_def cnt_wake_def cnt_handler_def deliver_def send_def

text \<open>Of the four signals that come while the signal is blocked one is handled, and the program waits for ever for the others.\<close>

lemma signals_merge:
  "\<exists>g ls. reach cnt_prog 2 (cnt_start 4, sig_start C_Install) (g, ls) \<and> seen_pending g \<and> cnt g = 1 \<and>
     ls 0 = At C_Pause [] \<and> (\<forall>i < 2. cnt_prog i g (ls i) = [])"
proof -
  let ?sch = "[(0, 0), (0, 0), (1, 0), (1, 0), (1, 0), (1, 0), (0, 0), (0, 0), (0, 0), (0, 0), (0, 0), (0, 0)] :: (nat \<times> nat) list"
  let ?g = "\<lparr>pending = False, blocked = False, installed = True, nodefer = False, sends = 0, cnt = 1, seen_pending = True\<rparr>"
  let ?ls = "(sig_start C_Install)(0 := At C_Pause [])"
  have "exec cnt_prog ?sch (cnt_start 4, sig_start C_Install) = Some (?g, ?ls)"
    by (simp add: Let_def cnt_defs cnt_start_def sig_start_def fun_eq_iff)
  then have "reach cnt_prog 2 (cnt_start 4, sig_start C_Install) (?g, ?ls)" by (rule exec_reach) simp
  moreover have "\<forall>i < 2. cnt_prog i ?g (?ls i) = []" by (simp add: less_2_cases_iff cnt_defs sig_start_def)
  ultimately show ?thesis by (intro exI[of _ ?g] exI[of _ ?ls]) simp
qed

end
