(* ===== verification/Fork_Files.thy ===== *)
theory Fork_Files
  imports C_Text Interleaving
begin

text \<open>
  The examples of \<^verbatim>\<open>lecture_examples/2_processes\<close> in which processes share files, pipes or memory: \<^verbatim>\<open>7_basic_append.c\<close>,
  \<^verbatim>\<open>8_dup.c\<close>, \<^verbatim>\<open>9_fork_dup.c\<close>, \<^verbatim>\<open>10_pipe.c\<close>, \<^verbatim>\<open>11_advanced_pipe.c\<close>, \<^verbatim>\<open>4_shared_mem.c\<close>. An open file description
  has one position, which all descriptors that were duplicated or inherited from one \<^verbatim>\<open>open\<close> share; each \<^verbatim>\<open>open\<close> makes a new one.
\<close>

section \<open>Open file descriptions\<close>

record disk =
  tmp_txt :: string
  ofds :: "(nat \<times> nat) list"

text \<open>A description is its position and the number of descriptors that refer to it.\<close>

definition open_tmp :: "'a disk_scheme \<Rightarrow> 'a disk_scheme \<times> nat" where
  "open_tmp d = (d\<lparr>ofds := ofds d @ [(0, 1)]\<rparr>, length (ofds d))"

definition refer :: "int \<Rightarrow> nat \<Rightarrow> 'a disk_scheme \<Rightarrow> 'a disk_scheme" where
  "refer k fd d = d\<lparr>ofds := (ofds d)[fd := (fst (ofds d ! fd), nat (int (snd (ofds d ! fd)) + k))]\<rparr>"

definition dprintf :: "nat \<Rightarrow> string \<Rightarrow> 'a disk_scheme \<Rightarrow> 'a disk_scheme" where
  "dprintf fd s d = d\<lparr>tmp_txt := blit (tmp_txt d) (fst (ofds d ! fd)) s,
     ofds := (ofds d)[fd := (fst (ofds d ! fd) + length s, snd (ofds d ! fd))]\<rparr>"

definition dup_fd :: "nat \<Rightarrow> 'a disk_scheme \<Rightarrow> 'a disk_scheme \<times> nat" where
  "dup_fd fd d = (refer 1 fd d, fd)"

definition close_fd :: "nat \<Rightarrow> 'a disk_scheme \<Rightarrow> 'a disk_scheme" where
  "close_fd fd d = refer (- 1) fd d"

lemmas disk_defs = open_tmp_def refer_def dprintf_def dup_fd_def close_fd_def

definition pid_text :: "int \<Rightarrow> string" where
  "pid_text pid = show_int pid @ '' ''"

section \<open>dup\<close>

definition dup_main :: "disk \<Rightarrow> disk" where
  "dup_main d =
     (let (d, fd) = open_tmp d; (d, fd2) = dup_fd fd d; d = dprintf fd2 ''1 '' d; d = close_fd fd2 d;
        d = dprintf fd ''2 '' d
      in close_fd fd d)"

lemma dup_main_writes: "dup_main d = d\<lparr>tmp_txt := blit (tmp_txt d) 0 ''1 2 '', ofds := ofds d @ [(4, 0)]\<rparr>"
proof -
  have "blit (blit (tmp_txt d) 0 ''1 '') (length ''1 '') ''2 '' = blit (tmp_txt d) 0 (''1 '' @ ''2 '')"
    using blit_blit_adjacent[of 0 "tmp_txt d" "''1 ''" "''2 ''"] by simp
  then show ?thesis by (simp add: dup_main_def disk_defs)
qed

section \<open>A description inherited by fork\<close>

text \<open>The child starts when the parent has forked, with copies of the parent's variables; \<^verbatim>\<open>wait\<close> comes back when it has ended.\<close>

record fork_disk = disk +
  forked :: "(nat \<times> nat) option"
  child_ended :: bool

datatype fork_pc =
    F_Open
  | F_Dup nat
  | F_Fork nat nat
  | F_Close2 nat nat
  | F_Wait nat
  | F_Print nat
  | F_Close nat
  | F_End
  | K_Unborn
  | K_Close nat nat
  | K_Print nat
  | K_Close2 nat
  | K_End

definition fork_parent :: "int \<Rightarrow> fork_disk \<Rightarrow> fork_pc \<Rightarrow> (fork_disk \<times> fork_pc) list" where
  "fork_parent pid g l = (case l of
       F_Open \<Rightarrow> [(let (g, fd) = open_tmp g in (g, F_Dup fd))]
     | F_Dup fd \<Rightarrow> [(let (g, fd2) = dup_fd fd g in (g, F_Fork fd fd2))]
     | F_Fork fd fd2 \<Rightarrow> [(refer 1 fd (refer 1 fd2 (g\<lparr>forked := Some (fd, fd2)\<rparr>)), F_Close2 fd fd2)]
     | F_Close2 fd fd2 \<Rightarrow> [(close_fd fd2 g, F_Wait fd)]
     | F_Wait fd \<Rightarrow> if child_ended g then [(g, F_Print fd)] else []
     | F_Print fd \<Rightarrow> [(dprintf fd (pid_text pid) g, F_Close fd)]
     | F_Close fd \<Rightarrow> [(close_fd fd g, F_End)]
     | _ \<Rightarrow> [])"

definition fork_child :: "int \<Rightarrow> fork_disk \<Rightarrow> fork_pc \<Rightarrow> (fork_disk \<times> fork_pc) list" where
  "fork_child pid g l = (case l of
       K_Unborn \<Rightarrow> (case forked g of None \<Rightarrow> [] | Some (fd, fd2) \<Rightarrow> [(g, K_Close fd fd2)])
     | K_Close fd fd2 \<Rightarrow> [(close_fd fd g, K_Print fd2)]
     | K_Print fd2 \<Rightarrow> [(dprintf fd2 (pid_text pid) g, K_Close2 fd2)]
     | K_Close2 fd2 \<Rightarrow> [((close_fd fd2 g)\<lparr>child_ended := True\<rparr>, K_End)]
     | _ \<Rightarrow> [])"

definition fork_prog :: "int \<Rightarrow> int \<Rightarrow> (fork_disk, fork_pc) prog" where
  "fork_prog parent child i g l = (if i = 0 then fork_parent parent g l else fork_child child g l)"

definition fork_start :: "string \<Rightarrow> fork_disk \<times> (nat \<Rightarrow> fork_pc)" where
  "fork_start start = (\<lparr>tmp_txt = start, ofds = [], forked = None, child_ended = False\<rparr>, \<lambda>i. if i = 0 then F_Open else K_Unborn)"

text \<open>One description, the references each process has to it, and the text written so far.\<close>

definition fork_refs :: "fork_pc \<Rightarrow> nat" where
  "fork_refs l = (case l of F_Dup _ \<Rightarrow> 1 | F_Fork _ _ \<Rightarrow> 2 | F_Close2 _ _ \<Rightarrow> 2 | F_Wait _ \<Rightarrow> 1 | F_Print _ \<Rightarrow> 1
     | F_Close _ \<Rightarrow> 1 | K_Close _ _ \<Rightarrow> 2 | K_Print _ \<Rightarrow> 1 | K_Close2 _ \<Rightarrow> 1 | _ \<Rightarrow> 0)"

definition fork_text :: "int \<Rightarrow> fork_pc \<Rightarrow> string" where
  "fork_text pid l = (case l of F_Close _ \<Rightarrow> pid_text pid | F_End \<Rightarrow> pid_text pid | K_Close2 _ \<Rightarrow> pid_text pid
     | K_End \<Rightarrow> pid_text pid | _ \<Rightarrow> [])"

definition fork_inv :: "string \<Rightarrow> int \<Rightarrow> int \<Rightarrow> fork_disk \<Rightarrow> (nat \<Rightarrow> fork_pc) \<Rightarrow> bool" where
  "fork_inv start p c g ls \<longleftrightarrow>
     (let w = fork_text c (ls 1) @ fork_text p (ls 0) in
      tmp_txt g = blit start 0 w \<and> child_ended g = (ls 1 = K_End) \<and>
      ofds g = (if ls 0 = F_Open then [] else [(length w, fork_refs (ls 0) + fork_refs (ls 1) +
        (if forked g \<noteq> None \<and> ls 1 = K_Unborn then 2 else 0))])) \<and>
     (forked g = None \<longrightarrow> ls 1 = K_Unborn) \<and>
     (case ls 0 of
        F_Open \<Rightarrow> forked g = None | F_Dup fd \<Rightarrow> forked g = None \<and> fd = 0 | F_Fork fd fd2 \<Rightarrow> forked g = None \<and> fd = 0 \<and> fd2 = 0
      | F_Close2 fd fd2 \<Rightarrow> forked g = Some (0, 0) \<and> fd = 0 \<and> fd2 = 0 | F_Wait fd \<Rightarrow> forked g = Some (0, 0) \<and> fd = 0
      | F_Print fd \<Rightarrow> forked g = Some (0, 0) \<and> fd = 0 \<and> ls 1 = K_End | F_Close fd \<Rightarrow> forked g = Some (0, 0) \<and> fd = 0 \<and> ls 1 = K_End
      | F_End \<Rightarrow> forked g = Some (0, 0) \<and> ls 1 = K_End | _ \<Rightarrow> False) \<and>
     (case ls 1 of K_Unborn \<Rightarrow> True | K_Close fd fd2 \<Rightarrow> fd = 0 \<and> fd2 = 0 | K_Print fd2 \<Rightarrow> fd2 = 0 | K_Close2 fd2 \<Rightarrow> fd2 = 0
      | K_End \<Rightarrow> True | _ \<Rightarrow> False)"

lemmas fork_defs = Let_def fork_parent_def fork_child_def fork_refs_def fork_text_def disk_defs

lemma blit_more: "blit (blit s 0 w) (length w) t = blit s 0 (w @ t)"
  using blit_blit_adjacent[of 0 s w t] by simp

interpretation fo: invariant "fork_prog p c" 2 "fork_start start" "fork_inv start p c" for p c start
proof
  show "fork_inv start p c (fst (fork_start start)) (snd (fork_start start))"
    by (simp add: fork_inv_def fork_start_def fork_text_def)
next
  fix g ls i g' l'
  assume inv: "fork_inv start p c g ls" and i: "i < 2" and s: "(g', l') \<in> set (fork_prog p c i g (ls i))"
  show "fork_inv start p c g' (ls(i := l'))"
  proof (cases "i = 0")
    case True
    with inv s show ?thesis
      by (cases "ls 0"; cases "ls 1") (auto simp: fork_prog_def fork_inv_def fork_defs blit_more split: if_splits)
  next
    case False
    with i have [simp]: "i = 1" by simp
    from inv s show ?thesis
      by (cases "ls 0"; cases "ls 1") (auto simp: fork_prog_def fork_inv_def fork_defs blit_more[of start "[]", simplified] split: if_splits option.splits)
  qed
qed

text \<open>Whatever the order of their steps, neither overwrites the other: the child's number comes first, the parent's behind it,
  and the description is freed by the last close.\<close>

lemma fork_dup_appends:
  assumes "reach (fork_prog p c) 2 (fork_start start) (g, ls)" and "\<forall>i < 2. fork_prog p c i g (ls i) = []"
  shows "ls 0 = F_End \<and> ls 1 = K_End \<and> tmp_txt g = blit start 0 (pid_text c @ pid_text p) \<and> snd (ofds g ! 0) = 0"
proof -
  have inv: "fork_inv start p c g ls" by (rule fo.reach_inv[OF assms(1)])
  have stuck: "fork_parent p g (ls 0) = []" "fork_child c g (ls 1) = []"
    using assms(2) by (auto simp: fork_prog_def less_2_cases_iff)
  from inv stuck show ?thesis
    by (cases "ls 0"; cases "ls 1") (auto simp: fork_inv_def fork_defs split: if_splits option.splits)
qed

section \<open>Files opened twice\<close>

text \<open>Several runs of \<^verbatim>\<open>7_basic_append.c\<close> at the same time: each opens the file for itself.\<close>

datatype append_pc = A_Open | A_Key nat | A_Print nat | A_Close nat | A_End

definition append_main :: "(nat \<Rightarrow> int) \<Rightarrow> nat \<Rightarrow> disk \<Rightarrow> append_pc \<Rightarrow> (disk \<times> append_pc) list" where
  "append_main pid i g l = (case l of
       A_Open \<Rightarrow> [(let (g, fd) = open_tmp g in (g, A_Key fd))]
     | A_Key fd \<Rightarrow> [(g, A_Print fd)]
     | A_Print fd \<Rightarrow> [(dprintf fd (pid_text (pid i)) g, A_Close fd)]
     | A_Close fd \<Rightarrow> [(close_fd fd g, A_End)]
     | A_End \<Rightarrow> [])"

definition append_start :: "string \<Rightarrow> disk \<times> (nat \<Rightarrow> append_pc)" where
  "append_start start = (\<lparr>tmp_txt = start, ofds = []\<rparr>, \<lambda>_. A_Open)"

definition unwritten :: "append_pc \<Rightarrow> nat option" where
  "unwritten l = (case l of A_Key fd \<Rightarrow> Some fd | A_Print fd \<Rightarrow> Some fd | _ \<Rightarrow> None)"

definition written :: "nat \<Rightarrow> (nat \<Rightarrow> append_pc) \<Rightarrow> nat set" where
  "written n ls = {i. i < n \<and> (ls i = A_End \<or> (\<exists>fd. ls i = A_Close fd))}"

text \<open>Nobody else has the description one is going to write to, and it stands at the beginning.\<close>

definition own_fds :: "nat \<Rightarrow> disk \<Rightarrow> (nat \<Rightarrow> append_pc) \<Rightarrow> bool" where
  "own_fds n g ls \<longleftrightarrow> (\<forall>i < n. \<forall>fd. unwritten (ls i) = Some fd \<longrightarrow> fd < length (ofds g) \<and> fst (ofds g ! fd) = 0) \<and>
     (\<forall>i < n. \<forall>j < n. \<forall>fd. unwritten (ls i) = Some fd \<longrightarrow> unwritten (ls j) = Some fd \<longrightarrow> i = j)"

lemma own_fds_keep:
  assumes "own_fds n g ls" and "\<And>j fd. j < n \<Longrightarrow> unwritten (ls' j) = Some fd \<Longrightarrow> unwritten (ls j) = Some fd"
    and "\<And>j fd. j < n \<Longrightarrow> unwritten (ls' j) = Some fd \<Longrightarrow> length (ofds g') = length (ofds g) \<and> ofds g' ! fd = ofds g ! fd"
  shows "own_fds n g' ls'"
  using assms unfolding own_fds_def by metis

definition append_inv :: "(nat \<Rightarrow> int) \<Rightarrow> string \<Rightarrow> nat \<Rightarrow> disk \<Rightarrow> (nat \<Rightarrow> append_pc) \<Rightarrow> bool" where
  "append_inv pid start n g ls \<longleftrightarrow>
     (\<exists>is. distinct is \<and> set is = written n ls \<and> tmp_txt g = foldl (\<lambda>s i. blit s 0 (pid_text (pid i))) start is) \<and>
     own_fds n g ls"

lemma written_upd:
  "i < n \<Longrightarrow> written n (ls(i := l)) = (if l = A_End \<or> (\<exists>fd. l = A_Close fd) then insert i (written n ls) else written n ls - {i})"
  by (auto simp: written_def)

interpretation ap: invariant "append_main pid" n "append_start start" "append_inv pid start n" for pid n start
proof
  show "append_inv pid start n (fst (append_start start)) (snd (append_start start))"
    by (auto simp: append_inv_def append_start_def written_def own_fds_def unwritten_def intro!: exI[of _ "[]"])
next
  fix g ls i g' l'
  assume inv: "append_inv pid start n g ls" and i: "i < n" and s: "(g', l') \<in> set (append_main pid i g (ls i))"
  from inv obtain js where js: "distinct js" "set js = written n ls"
    "tmp_txt g = foldl (\<lambda>s i. blit s 0 (pid_text (pid i))) start js" by (auto simp: append_inv_def)
  from inv have own: "own_fds n g ls" by (simp add: append_inv_def)
  show "append_inv pid start n g' (ls(i := l'))"
  proof (cases "ls i")
    case A_Open
    then have e: "g' = g\<lparr>ofds := ofds g @ [(0, 1)]\<rparr>" "l' = A_Key (length (ofds g))" using s by (simp_all add: append_main_def open_tmp_def)
    have "i \<notin> written n ls" using A_Open by (simp add: written_def)
    with js e i have "\<exists>is. distinct is \<and> set is = written n (ls(i := l')) \<and>
        tmp_txt g' = foldl (\<lambda>s i. blit s 0 (pid_text (pid i))) start is"
      by (intro exI[of _ js]) (simp add: written_upd)
    moreover have "unwritten (ls j) \<noteq> Some (length (ofds g))" if "j < n" for j using own that by (auto simp: own_fds_def)
    then have "own_fds n g' (ls(i := l'))" using own e i by (auto simp: own_fds_def unwritten_def nth_append)
    ultimately show ?thesis by (simp add: append_inv_def)
  next
    case (A_Key fd)
    then have e: "g' = g" "l' = A_Print fd" using s by (simp_all add: append_main_def)
    have "i \<notin> written n ls" using A_Key by (simp add: written_def)
    with js e i have "\<exists>is. distinct is \<and> set is = written n (ls(i := l')) \<and>
        tmp_txt g' = foldl (\<lambda>s i. blit s 0 (pid_text (pid i))) start is"
      by (intro exI[of _ js]) (simp add: written_upd)
    moreover have "own_fds n g' (ls(i := l'))"
      by (rule own_fds_keep[OF own]) (use A_Key e in \<open>auto simp: unwritten_def split: if_splits\<close>)
    ultimately show ?thesis by (simp add: append_inv_def)
  next
    case (A_Print fd)
    then have u: "unwritten (ls i) = Some fd" by (simp add: unwritten_def)
    with own i have fd: "fd < length (ofds g)" "fst (ofds g ! fd) = 0" by (auto simp: own_fds_def)
    have e: "g' = dprintf fd (pid_text (pid i)) g" "l' = A_Close fd" using s A_Print by (simp_all add: append_main_def)
    have "i \<notin> written n ls" using A_Print by (simp add: written_def)
    with js e i fd have "\<exists>is. distinct is \<and> set is = written n (ls(i := l')) \<and>
        tmp_txt g' = foldl (\<lambda>s i. blit s 0 (pid_text (pid i))) start is"
      by (intro exI[of _ "js @ [i]"]) (simp add: written_upd dprintf_def)
    moreover have "own_fds n g' (ls(i := l'))"
    proof (rule own_fds_keep[OF own])
      fix j fd' assume j: "j < n" "unwritten ((ls(i := l')) j) = Some fd'"
      with e have ji: "j \<noteq> i" by (auto simp: unwritten_def)
      with j show jf: "unwritten (ls j) = Some fd'" by simp
      with own u i j(1) ji have "fd \<noteq> fd'" unfolding own_fds_def by blast
      then show "length (ofds g') = length (ofds g) \<and> ofds g' ! fd' = ofds g ! fd'" using e by (simp add: dprintf_def)
    qed
    ultimately show ?thesis by (simp add: append_inv_def)
  next
    case (A_Close fd)
    then have e: "g' = close_fd fd g" "l' = A_End" using s by (simp_all add: append_main_def)
    have "i \<in> written n ls" using A_Close i by (simp add: written_def)
    with js e i have "\<exists>is. distinct is \<and> set is = written n (ls(i := l')) \<and>
        tmp_txt g' = foldl (\<lambda>s i. blit s 0 (pid_text (pid i))) start is"
      by (intro exI[of _ js]) (simp add: written_upd disk_defs insert_absorb)
    moreover have "own_fds n g' (ls(i := l'))"
    proof -
      have "length (ofds g') = length (ofds g)" "fst (ofds g' ! k) = fst (ofds g ! k)" if "k < length (ofds g)" for k
        using that e by (cases "k = fd"; simp add: close_fd_def refer_def)+
      moreover have "unwritten ((ls(i := l')) j) = (if j = i then None else unwritten (ls j))" for j
        using e by (simp add: unwritten_def)
      ultimately show ?thesis using own unfolding own_fds_def by (metis option.distinct(1))
    qed
    ultimately show ?thesis by (simp add: append_inv_def)
  qed (use s in \<open>simp add: append_main_def\<close>)
qed

lemma overwritten_last:
  "(\<And>i. i \<in> set is \<Longrightarrow> length (pid_text (pid i)) = k) \<Longrightarrow> length start \<le> k \<Longrightarrow> is \<noteq> [] \<Longrightarrow>
   foldl (\<lambda>s i. blit s 0 (pid_text (pid i))) start is = pid_text (pid (last is))"
proof (induction "is" rule: rev_induct)
  case (snoc i "is")
  have "length (foldl (\<lambda>s i. blit s 0 (pid_text (pid i))) start is) \<le> k"
    using snoc by (cases "is = []") auto
  then show ?case using snoc.prems(1) by (simp add: blit_def)
qed simp

text \<open>Nothing is appended: every run writes its number over the beginning of the file, and of runs with numbers
  of the same length only the last to write is left.\<close>

lemma basic_append_overwrites:
  assumes "reach (append_main pid) n (append_start start) (g, ls)"
    and "\<And>i. i < n \<Longrightarrow> length (pid_text (pid i)) = k" and "length start \<le> k" and "written n ls \<noteq> {}"
  shows "\<exists>i \<in> written n ls. tmp_txt g = pid_text (pid i)"
proof -
  from ap.reach_inv[OF assms(1)] obtain js where js: "set js = written n ls"
    "tmp_txt g = foldl (\<lambda>s i. blit s 0 (pid_text (pid i))) start js" by (auto simp: append_inv_def)
  have ne: "js \<noteq> []" using js(1) assms(4) by auto
  have "length (pid_text (pid i)) = k" if "i \<in> set js" for i using assms(2) that js(1) by (auto simp: written_def)
  from overwritten_last[OF this assms(3) ne] js last_in_set[OF ne] show ?thesis by auto
qed

end
