(* ===== verification/Pipes.thy ===== *)
theory Pipes
  imports C_Text Interleaving
begin

text \<open>
  Parents and children of \<^verbatim>\<open>lecture_examples/2_processes\<close> that talk through pipes or memory: \<^verbatim>\<open>10_pipe.c\<close>,
  \<^verbatim>\<open>11_advanced_pipe.c\<close> and \<^verbatim>\<open>4_shared_mem.c\<close>. A read of an empty pipe waits while somebody can still write to it. The programs are
  small enough to list all their states: \<open>explore\<close> collects them, and the kernel checks that the list is closed.
\<close>

section \<open>Listing the states of two processes\<close>

definition after :: "('g, 'l) prog \<Rightarrow> 'g \<times> 'l \<times> 'l \<Rightarrow> ('g \<times> 'l \<times> 'l) list" where
  "after prog s = (case s of (g, a, b) \<Rightarrow>
     map (\<lambda>(g', a'). (g', a', b)) (prog 0 g a) @ map (\<lambda>(g', b'). (g', a, b')) (prog 1 g b))"

fun explore :: "('g, 'l) prog \<Rightarrow> nat \<Rightarrow> ('g \<times> 'l \<times> 'l) list \<Rightarrow> ('g \<times> 'l \<times> 'l) list \<Rightarrow> ('g \<times> 'l \<times> 'l) list" where
  "explore prog 0 seen new = seen @ new"
| "explore prog (Suc n) seen new = (if new = [] then seen else
     (let seen = seen @ new in
      explore prog n seen (remdups (filter (\<lambda>s. s \<notin> set seen) (concat (map (after prog) new))))))"

definition closed_under :: "('g, 'l) prog \<Rightarrow> ('g \<times> 'l \<times> 'l) list \<Rightarrow> bool" where
  "closed_under prog ss \<longleftrightarrow> list_all (\<lambda>s. list_all (\<lambda>t. t \<in> set ss) (after prog s)) ss"

lemma reach_listed:
  assumes c: "closed_under prog ss" and start: "(g0, ls0 0, ls0 1) \<in> set ss" and r: "reach prog 2 (g0, ls0) (g, ls)"
  shows "(g, ls 0, ls 1) \<in> set ss"
proof -
  have "reach prog 2 (g0, ls0) s \<Longrightarrow> (fst s, snd s 0, snd s 1) \<in> set ss" for s
  proof (induction rule: reach.induct)
    case (step g ls i g' l')
    let ?t = "(g', (ls(i := l')) 0, (ls(i := l')) 1)"
    have "(g, ls 0, ls 1) \<in> set ss" using step.IH by simp
    moreover have "?t \<in> set (after prog (g, ls 0, ls 1))"
    proof (cases "i = 0")
      case False
      with step.hyps(2) have [simp]: "i = 1" by simp
      from step.hyps(3) show ?thesis by (force simp: after_def)
    qed (use step.hyps(3) in \<open>force simp: after_def\<close>)
    ultimately show ?case using c by (auto simp: closed_under_def list_all_iff)
  qed (use start in simp)
  from this[OF r] show ?thesis by simp
qed

section \<open>Pipes\<close>

record pipe =
  chars :: string
  readers :: nat
  writers :: nat

definition new_pipe :: pipe where
  "new_pipe = \<lparr>chars = [], readers = 1, writers = 1\<rparr>"

definition pipe_read :: "nat \<Rightarrow> pipe \<Rightarrow> (string \<times> pipe) option" where
  "pipe_read n p = (if chars p = [] \<and> 0 < writers p then None else Some (take n (chars p), p\<lparr>chars := drop n (chars p)\<rparr>))"

definition pipe_write :: "string \<Rightarrow> pipe \<Rightarrow> pipe" where
  "pipe_write s p = (if readers p = 0 then p else p\<lparr>chars := chars p @ s\<rparr>)"

definition fork_pipe :: "pipe \<Rightarrow> pipe" where
  "fork_pipe p = p\<lparr>readers := 2 * readers p, writers := 2 * writers p\<rparr>"

definition close_read :: "pipe \<Rightarrow> pipe" where
  "close_read p = p\<lparr>readers := readers p - 1\<rparr>"

definition close_write :: "pipe \<Rightarrow> pipe" where
  "close_write p = p\<lparr>writers := writers p - 1\<rparr>"

text \<open>What \<open>%s\<close> prints of a buffer; \<open>None\<close> when it runs into bytes that were never written.\<close>

definition c_text :: "char option list \<Rightarrow> string option" where
  "c_text buf = (let cs = takeWhile (\<lambda>c. c \<noteq> Some (CHR 0x00)) buf in
     if length cs < length buf \<and> None \<notin> set cs then Some (map the cs) else None)"

section \<open>Two pipes\<close>

record pipes =
  to_child :: pipe
  to_parent :: pipe
  child_born :: bool
  child_dead :: bool
  read_lines :: "string option list"

datatype pipe_pc =
    Q_Fork
  | Q_Close_Read
  | Q_Close_Write
  | Q_Write
  | Q_Read
  | Q_Print "char option list"
  | Q_Wait
  | Q_End
  | R_Unborn
  | R_Close_Read
  | R_Close_Write
  | R_Read
  | R_Print "char option list"
  | R_Write
  | R_Exit
  | R_End

definition buf16 :: "char option list" where
  "buf16 = replicate 16 None"

definition read_into :: "string \<Rightarrow> char option list" where
  "read_into s = blit buf16 0 (map Some s)"

definition pipe_parent :: "pipes \<Rightarrow> pipe_pc \<Rightarrow> (pipes \<times> pipe_pc) list" where
  "pipe_parent g l = (case l of
       Q_Fork \<Rightarrow> [(g\<lparr>to_child := fork_pipe (to_child g), to_parent := fork_pipe (to_parent g), child_born := True\<rparr>, Q_Close_Write)]
     | Q_Close_Write \<Rightarrow> [(g\<lparr>to_parent := close_write (to_parent g)\<rparr>, Q_Close_Read)]
     | Q_Close_Read \<Rightarrow> [(g\<lparr>to_child := close_read (to_child g)\<rparr>, Q_Write)]
     | Q_Write \<Rightarrow> [(g\<lparr>to_child := pipe_write ''hello1'' (to_child g)\<rparr>, Q_Read)]
     | Q_Read \<Rightarrow> (case pipe_read 16 (to_parent g) of None \<Rightarrow> []
         | Some (s, p) \<Rightarrow> [(g\<lparr>to_parent := p\<rparr>, Q_Print (read_into s))])
     | Q_Print buf \<Rightarrow> [(g\<lparr>read_lines := read_lines g @ [c_text buf]\<rparr>, Q_Wait)]
     | Q_Wait \<Rightarrow> if child_dead g then [(g, Q_End)] else []
     | _ \<Rightarrow> [])"

definition pipe_child :: "pipes \<Rightarrow> pipe_pc \<Rightarrow> (pipes \<times> pipe_pc) list" where
  "pipe_child g l = (case l of
       R_Unborn \<Rightarrow> if child_born g then [(g, R_Close_Read)] else []
     | R_Close_Read \<Rightarrow> [(g\<lparr>to_parent := close_read (to_parent g)\<rparr>, R_Close_Write)]
     | R_Close_Write \<Rightarrow> [(g\<lparr>to_child := close_write (to_child g)\<rparr>, R_Read)]
     | R_Read \<Rightarrow> (case pipe_read 16 (to_child g) of None \<Rightarrow> []
         | Some (s, p) \<Rightarrow> [(g\<lparr>to_child := p\<rparr>, R_Print (read_into s))])
     | R_Print buf \<Rightarrow> [(g\<lparr>read_lines := read_lines g @ [c_text buf]\<rparr>, R_Write)]
     | R_Write \<Rightarrow> [(g\<lparr>to_parent := pipe_write (''hello2'' @ [CHR 0x00]) (to_parent g)\<rparr>, R_Exit)]
     | R_Exit \<Rightarrow> [(g\<lparr>to_child := close_read (to_child g), to_parent := close_write (to_parent g), child_dead := True\<rparr>, R_End)]
     | _ \<Rightarrow> [])"

definition pipe_prog :: "(pipes, pipe_pc) prog" where
  "pipe_prog i g l = (if i = 0 then pipe_parent g l else pipe_child g l)"

definition pipe_start :: "pipes \<times> (nat \<Rightarrow> pipe_pc)" where
  "pipe_start = (\<lparr>to_child = new_pipe, to_parent = new_pipe, child_born = False, child_dead = False, read_lines = []\<rparr>,
     \<lambda>i. if i = 0 then Q_Fork else R_Unborn)"

definition pipe_states :: "(pipes \<times> pipe_pc \<times> pipe_pc) list" where
  "pipe_states = explore pipe_prog 40 [] [(fst pipe_start, Q_Fork, R_Unborn)]"

definition pipe_outcome :: "pipes \<times> pipe_pc \<times> pipe_pc \<Rightarrow> bool" where
  "pipe_outcome s = (case s of (g, a, b) \<Rightarrow> after pipe_prog s = [] \<longrightarrow>
     a = Q_End \<and> b = R_End \<and> read_lines g = [None, Some ''hello2''])"

lemma pipe_states_ok:
  "closed_under pipe_prog pipe_states \<and> list_all pipe_outcome pipe_states \<and> (fst pipe_start, Q_Fork, R_Unborn) \<in> set pipe_states"
  by code_simp

text \<open>The two never block each other. \<^verbatim>\<open>sizeof("hello")\<close> leaves out the terminating zero of \<^verbatim>\<open>"hello1"\<close>, so what the child
  prints runs into bytes of its buffer that nobody has written.\<close>

lemma pipe_exchange:
  assumes "reach pipe_prog 2 pipe_start (g, ls)" and "\<forall>i < 2. pipe_prog i g (ls i) = []"
  shows "ls 0 = Q_End \<and> ls 1 = R_End \<and> read_lines g = [None, Some ''hello2'']"
proof -
  have "(g, ls 0, ls 1) \<in> set pipe_states"
    using reach_listed[of pipe_prog pipe_states "fst pipe_start" "snd pipe_start"] pipe_states_ok assms(1) by (simp add: pipe_start_def)
  with pipe_states_ok have "pipe_outcome (g, ls 0, ls 1)" by (simp add: list_all_iff)
  with assms(2) show ?thesis by (simp add: pipe_outcome_def after_def)
qed

section \<open>A pipe as standard input\<close>

text \<open>\<^verbatim>\<open>scanf("%d")\<close> cannot tell that a number has ended before it has seen the character behind it or the end of the input.
  Descriptor 0 of both processes is a further reading end. \<open>message\<close> is what the parent writes.\<close>

record stdin_pipe =
  pipe_in :: pipe
  kid_born :: bool
  kid_dead :: bool
  kid_read :: "int option"

datatype stdin_pc = I_Fork | I_Close | I_Write | I_Wait | I_End | J_Unborn | J_Close | J_Scan | J_Exit | J_End

definition scan_pipe :: "pipe \<Rightarrow> (int option \<times> pipe) option" where
  "scan_pipe p = (case scan_int (chars p) of
       Some (n, rest) \<Rightarrow> if rest = [] \<and> 0 < writers p then None else Some (Some n, p\<lparr>chars := rest\<rparr>)
     | None \<Rightarrow> if list_all is_space (chars p) \<and> 0 < writers p then None else Some (None, p))"

definition stdin_parent :: "string \<Rightarrow> stdin_pipe \<Rightarrow> stdin_pc \<Rightarrow> (stdin_pipe \<times> stdin_pc) list" where
  "stdin_parent message g l = (case l of
       I_Fork \<Rightarrow> [(let p = pipe_in g; p = p\<lparr>readers := readers p + 1\<rparr> in g\<lparr>pipe_in := fork_pipe p, kid_born := True\<rparr>, I_Close)]
     | I_Close \<Rightarrow> [(g\<lparr>pipe_in := close_read (pipe_in g)\<rparr>, I_Write)]
     | I_Write \<Rightarrow> [(g\<lparr>pipe_in := pipe_write message (pipe_in g)\<rparr>, I_Wait)]
     | I_Wait \<Rightarrow> if kid_dead g then [(g, I_End)] else []
     | _ \<Rightarrow> [])"

definition stdin_child :: "stdin_pipe \<Rightarrow> stdin_pc \<Rightarrow> (stdin_pipe \<times> stdin_pc) list" where
  "stdin_child g l = (case l of
       J_Unborn \<Rightarrow> if kid_born g then [(g, J_Close)] else []
     | J_Close \<Rightarrow> [(g\<lparr>pipe_in := close_write (pipe_in g)\<rparr>, J_Scan)]
     | J_Scan \<Rightarrow> (case scan_pipe (pipe_in g) of None \<Rightarrow> [] | Some (n, p) \<Rightarrow> [(g\<lparr>pipe_in := p, kid_read := n\<rparr>, J_Exit)])
     | J_Exit \<Rightarrow> [(g\<lparr>kid_dead := True\<rparr>, J_End)]
     | _ \<Rightarrow> [])"

definition stdin_prog :: "string \<Rightarrow> (stdin_pipe, stdin_pc) prog" where
  "stdin_prog message i g l = (if i = 0 then stdin_parent message g l else stdin_child g l)"

definition stdin_start :: "stdin_pipe \<times> (nat \<Rightarrow> stdin_pc)" where
  "stdin_start = (\<lparr>pipe_in = new_pipe, kid_born = False, kid_dead = False, kid_read = None\<rparr>, \<lambda>i. if i = 0 then I_Fork else J_Unborn)"

definition stdin_states :: "string \<Rightarrow> (stdin_pipe \<times> stdin_pc \<times> stdin_pc) list" where
  "stdin_states message = explore (stdin_prog message) 30 [] [(fst stdin_start, I_Fork, J_Unborn)]"

definition stdin_outcome :: "string \<Rightarrow> stdin_pc \<Rightarrow> stdin_pc \<Rightarrow> int option \<Rightarrow> bool" where
  "stdin_outcome message a b n \<longleftrightarrow> closed_under (stdin_prog message) (stdin_states message) \<and>
     (fst stdin_start, I_Fork, J_Unborn) \<in> set (stdin_states message) \<and>
     list_all (\<lambda>(g, c, d). after (stdin_prog message) (g, c, d) = [] \<longrightarrow> c = a \<and> d = b \<and> kid_read g = n) (stdin_states message)"

lemma stdin_listed:
  assumes "stdin_outcome message a b n" and "reach (stdin_prog message) 2 stdin_start (g, ls)" and "\<forall>i < 2. stdin_prog message i g (ls i) = []"
  shows "ls 0 = a \<and> ls 1 = b \<and> kid_read g = n"
proof -
  have "(g, ls 0, ls 1) \<in> set (stdin_states message)"
    using reach_listed[of "stdin_prog message" "stdin_states message" "fst stdin_start" "snd stdin_start"] assms(1,2)
    by (simp add: stdin_outcome_def stdin_start_def)
  moreover have "after (stdin_prog message) (g, ls 0, ls 1) = []" using assms(3) by (simp add: after_def)
  ultimately show ?thesis using assms(1) by (auto simp: stdin_outcome_def list_all_iff)
qed

lemma stdin_outcomes: "stdin_outcome (''100'' @ [CHR 0x00]) I_End J_End (Some 100)" "stdin_outcome ''100'' I_Wait J_Scan None"
  by code_simp+

text \<open>The zero that \<^verbatim>\<open>sizeof("100")\<close> counts ends the number, and the child goes on; the parent keeps its end open while it
  waits, so with the three digits alone both would wait for ever.\<close>

lemma advanced_pipe_ends:
  assumes "reach (stdin_prog (''100'' @ [CHR 0x00])) 2 stdin_start (g, ls)" and "\<forall>i < 2. stdin_prog (''100'' @ [CHR 0x00]) i g (ls i) = []"
  shows "ls 0 = I_End \<and> ls 1 = J_End \<and> kid_read g = Some 100"
  using stdin_listed[OF stdin_outcomes(1) assms] .

lemma advanced_pipe_needs_zero:
  assumes "reach (stdin_prog ''100'') 2 stdin_start (g, ls)" and "\<forall>i < 2. stdin_prog ''100'' i g (ls i) = []"
  shows "ls 0 = I_Wait \<and> ls 1 = J_Scan \<and> kid_read g = None"
  using stdin_listed[OF stdin_outcomes(2) assms] .

section \<open>Shared and private memory\<close>

record memories =
  shared_mem :: int
  private_parent :: int
  private_child :: int
  son_born :: bool
  son_dead :: bool
  mem_line :: "(int \<times> int) option"

datatype mem_pc = T_Shared | T_Private | T_Fork | T_Wait | T_Print | T_End | U_Unborn | U_Shared | U_Private | U_Exit | U_End

definition mem_parent :: "memories \<Rightarrow> mem_pc \<Rightarrow> (memories \<times> mem_pc) list" where
  "mem_parent g l = (case l of
       T_Shared \<Rightarrow> [(g\<lparr>shared_mem := 55\<rparr>, T_Private)]
     | T_Private \<Rightarrow> [(g\<lparr>private_parent := 55\<rparr>, T_Fork)]
     | T_Fork \<Rightarrow> [(g\<lparr>private_child := private_parent g, son_born := True\<rparr>, T_Wait)]
     | T_Wait \<Rightarrow> if son_dead g then [(g, T_Print)] else []
     | T_Print \<Rightarrow> [(g\<lparr>mem_line := Some (shared_mem g, private_parent g)\<rparr>, T_End)]
     | _ \<Rightarrow> [])"

definition mem_child :: "memories \<Rightarrow> mem_pc \<Rightarrow> (memories \<times> mem_pc) list" where
  "mem_child g l = (case l of
       U_Unborn \<Rightarrow> if son_born g then [(g, U_Shared)] else []
     | U_Shared \<Rightarrow> [(g\<lparr>shared_mem := 56\<rparr>, U_Private)]
     | U_Private \<Rightarrow> [(g\<lparr>private_child := 56\<rparr>, U_Exit)]
     | U_Exit \<Rightarrow> [(g\<lparr>son_dead := True\<rparr>, U_End)]
     | _ \<Rightarrow> [])"

definition mem_prog :: "(memories, mem_pc) prog" where
  "mem_prog i g l = (if i = 0 then mem_parent g l else mem_child g l)"

definition mem_start :: "memories \<times> (nat \<Rightarrow> mem_pc)" where
  "mem_start = (\<lparr>shared_mem = 0, private_parent = 0, private_child = 0, son_born = False, son_dead = False, mem_line = None\<rparr>,
     \<lambda>i. if i = 0 then T_Shared else U_Unborn)"

definition mem_states :: "(memories \<times> mem_pc \<times> mem_pc) list" where
  "mem_states = explore mem_prog 30 [] [(fst mem_start, T_Shared, U_Unborn)]"

lemma mem_states_ok:
  "closed_under mem_prog mem_states \<and> (fst mem_start, T_Shared, U_Unborn) \<in> set mem_states \<and>
   list_all (\<lambda>(g, a, b). after mem_prog (g, a, b) = [] \<longrightarrow> a = T_End \<and> b = U_End \<and> mem_line g = Some (56, 55)) mem_states"
  by code_simp

lemma shared_not_private:
  assumes "reach mem_prog 2 mem_start (g, ls)" and "\<forall>i < 2. mem_prog i g (ls i) = []"
  shows "ls 0 = T_End \<and> ls 1 = U_End \<and> mem_line g = Some (56, 55)"
proof -
  have "(g, ls 0, ls 1) \<in> set mem_states"
    using reach_listed[of mem_prog mem_states "fst mem_start" "snd mem_start"] mem_states_ok assms(1) by (simp add: mem_start_def)
  moreover have "after mem_prog (g, ls 0, ls 1) = []" using assms(2) by (simp add: after_def)
  ultimately show ?thesis using mem_states_ok by (auto simp: list_all_iff)
qed

end
