(* ===== verification/Flock.thy ===== *)
theory Flock
  imports Prelude Interleaving
begin

text \<open>
  \<^verbatim>\<open>lecture_examples/9_aio/2_flock.c\<close>: \<open>n\<close> processes that read commands and lock one file with \<^verbatim>\<open>flock\<close>. Asking for the lock one has
  is answered at once; any other request first gives up the lock the process has, as \<^verbatim>\<open>flock\<close>(2) says of conversions, and then
  waits, or fails, while others hold locks that conflict. A word of 100 characters or more overflows \<^verbatim>\<open>cmd\<close>, after
  which nothing is known of the process.
\<close>

section \<open>The code\<close>

datatype lock_kind = Unlocked | Shared | Exclusive

datatype flock_reply = Reply_Ok | Reply_Error | Reply_Unknown

datatype flock_pc = Scan | Take lock_kind bool | Closed | Smashed

record locker =
  cmd_words :: "string list"
  lock_of :: lock_kind
  file_pos :: nat
  at_pc :: flock_pc

record locked_file =
  shared_locks :: nat
  exclusive_lock :: bool
  file_data :: string
  replies :: "(nat \<times> flock_reply) list"

definition answer :: "nat \<Rightarrow> flock_reply \<Rightarrow> locked_file \<Rightarrow> locked_file" where
  "answer i r g = g\<lparr>replies := replies g @ [(i, r)]\<rparr>"

definition give_up :: "lock_kind \<Rightarrow> locked_file \<Rightarrow> locked_file" where
  "give_up k g = (case k of
       Unlocked \<Rightarrow> g
     | Shared \<Rightarrow> g\<lparr>shared_locks := shared_locks g - 1\<rparr>
     | Exclusive \<Rightarrow> g\<lparr>exclusive_lock := False\<rparr>)"

definition lock_free :: "lock_kind \<Rightarrow> locked_file \<Rightarrow> bool" where
  "lock_free k g \<longleftrightarrow> \<not> exclusive_lock g \<and> (k = Exclusive \<longrightarrow> shared_locks g = 0)"

definition take_lock :: "lock_kind \<Rightarrow> locked_file \<Rightarrow> locked_file" where
  "take_lock k g = (case k of
       Unlocked \<Rightarrow> g
     | Shared \<Rightarrow> g\<lparr>shared_locks := shared_locks g + 1\<rparr>
     | Exclusive \<Rightarrow> g\<lparr>exclusive_lock := True\<rparr>)"

definition ask_lock :: "nat \<Rightarrow> lock_kind \<Rightarrow> bool \<Rightarrow> locked_file \<Rightarrow> locker \<Rightarrow> locked_file \<times> locker" where
  "ask_lock i k nb g l = (if lock_of l = k then (answer i Reply_Ok g, l)
     else (give_up (lock_of l) g, l\<lparr>lock_of := Unlocked, at_pc := Take k nb\<rparr>))"

definition flock_command :: "nat \<Rightarrow> string \<Rightarrow> locked_file \<Rightarrow> locker \<Rightarrow> locked_file \<times> locker" where
  "flock_command i cmd g l =
     (if cmd = ''excl'' then ask_lock i Exclusive False g l
      else if cmd = ''exclnb'' then ask_lock i Exclusive True g l
      else if cmd = ''shared'' then ask_lock i Shared False g l
      else if cmd = ''sharednb'' then ask_lock i Shared True g l
      else if cmd = ''unlock'' then (answer i Reply_Ok (give_up (lock_of l) g), l\<lparr>lock_of := Unlocked\<rparr>)
      else if cmd = ''write'' then
        (answer i Reply_Ok (g\<lparr>file_data := blit (file_data g) (file_pos l) ''data''\<rparr>), l\<lparr>file_pos := file_pos l + 4\<rparr>)
      else (answer i Reply_Unknown g, l))"

definition flock_main :: "nat \<Rightarrow> locked_file \<Rightarrow> locker \<Rightarrow> (locked_file \<times> locker) list" where
  "flock_main i g l = (case at_pc l of
       Scan \<Rightarrow> (case cmd_words l of
           [] \<Rightarrow> [(give_up (lock_of l) g, l\<lparr>lock_of := Unlocked, at_pc := Closed\<rparr>)]
         | cmd # rest \<Rightarrow> if 100 \<le> length cmd then [(g, l\<lparr>at_pc := Smashed\<rparr>)]
             else [flock_command i cmd g (l\<lparr>cmd_words := rest\<rparr>)])
     | Take k nb \<Rightarrow> if lock_free k g then [(answer i Reply_Ok (take_lock k g), l\<lparr>lock_of := k, at_pc := Scan\<rparr>)]
         else if nb then [(answer i Reply_Error g, l\<lparr>at_pc := Scan\<rparr>)] else []
     | _ \<Rightarrow> [])"

definition flock_start :: "(nat \<Rightarrow> string list) \<Rightarrow> string \<Rightarrow> locked_file \<times> (nat \<Rightarrow> locker)" where
  "flock_start input start = (\<lparr>shared_locks = 0, exclusive_lock = False, file_data = start, replies = []\<rparr>,
     \<lambda>i. \<lparr>cmd_words = input i, lock_of = Unlocked, file_pos = 0, at_pc = Scan\<rparr>)"

section \<open>The lock counts its holders\<close>

definition has :: "lock_kind \<Rightarrow> locker \<Rightarrow> int" where
  "has k l = of_bool (lock_of l = k)"

definition waits_free :: "locker \<Rightarrow> bool" where
  "waits_free l \<longleftrightarrow> (case at_pc l of Take k nb \<Rightarrow> lock_of l = Unlocked \<and> k \<noteq> Unlocked | Closed \<Rightarrow> lock_of l = Unlocked | _ \<Rightarrow> True)"

definition flock_inv :: "nat \<Rightarrow> locked_file \<Rightarrow> (nat \<Rightarrow> locker) \<Rightarrow> bool" where
  "flock_inv n g ls \<longleftrightarrow> int (shared_locks g) = (\<Sum>j<n. has Shared (ls j)) \<and>
     of_bool (exclusive_lock g) = (\<Sum>j<n. has Exclusive (ls j)) \<and> (exclusive_lock g \<longrightarrow> shared_locks g = 0) \<and>
     (\<forall>j<n. waits_free (ls j))"

lemma holder_counted:
  fixes n :: nat
  assumes "i < n" and "lock_of (ls i) = k"
  shows "1 \<le> (\<Sum>j<n. has k (ls j))"
proof -
  have "has k (ls i) \<le> (\<Sum>j<n. has k (ls j))" by (rule member_le_sum) (use assms in \<open>auto simp: has_def\<close>)
  with assms(2) show ?thesis by (simp add: has_def)
qed

lemma holder_locked:
  assumes "flock_inv n g ls" and "i < n"
  shows "lock_of (ls i) = Shared \<Longrightarrow> 0 < shared_locks g" "lock_of (ls i) = Exclusive \<Longrightarrow> exclusive_lock g"
proof -
  assume "lock_of (ls i) = Shared"
  from holder_counted[where ls = ls, OF assms(2) this] assms(1) show "0 < shared_locks g" by (simp add: flock_inv_def)
next
  assume "lock_of (ls i) = Exclusive"
  from holder_counted[where ls = ls, OF assms(2) this] assms(1) have "(1 :: int) \<le> of_bool (exclusive_lock g)" by (simp add: flock_inv_def)
  then show "exclusive_lock g" by (cases "exclusive_lock g") simp_all
qed

lemma flock_effect:
  assumes "(g', l') \<in> set (flock_main i g l)" and "waits_free l"
    and "lock_of l = Shared \<Longrightarrow> 0 < shared_locks g" and "lock_of l = Exclusive \<Longrightarrow> exclusive_lock g"
    and "exclusive_lock g \<longrightarrow> shared_locks g = 0"
  shows "int (shared_locks g') = int (shared_locks g) - has Shared l + has Shared l' \<and>
    (of_bool (exclusive_lock g') :: int) = of_bool (exclusive_lock g) - has Exclusive l + has Exclusive l' \<and>
    (exclusive_lock g' \<longrightarrow> shared_locks g' = 0) \<and> waits_free l'"
proof (cases "at_pc l")
  case Scan
  show ?thesis
  proof (cases "cmd_words l")
    case Nil
    with Scan assms show ?thesis
      by (cases "lock_of l") (auto simp: flock_main_def give_up_def has_def waits_free_def)
  next
    case (Cons cmd rest)
    with Scan assms show ?thesis
      by (cases "lock_of l")
        (auto simp: flock_main_def flock_command_def ask_lock_def give_up_def answer_def has_def waits_free_def split: if_splits)
  qed
next
  case (Take k nb)
  with assms show ?thesis
    by (cases k) (auto simp: flock_main_def lock_free_def take_lock_def answer_def has_def waits_free_def split: if_splits)
qed (use assms in \<open>auto simp: flock_main_def\<close>)

interpretation fk: invariant flock_main n "flock_start input start" "flock_inv n" for n input start
proof
  show "flock_inv n (fst (flock_start input start)) (snd (flock_start input start))"
    by (simp add: flock_inv_def flock_start_def has_def waits_free_def)
next
  fix g ls i g' l'
  assume inv: "flock_inv n g ls" and i: "i < n" and s: "(g', l') \<in> set (flock_main i g (ls i))"
  note iv = inv[unfolded flock_inv_def]
  from flock_effect[OF s _ holder_locked[OF inv i]] iv i have e: "int (shared_locks g') = int (shared_locks g) - has Shared (ls i) + has Shared l'"
    "(of_bool (exclusive_lock g') :: int) = of_bool (exclusive_lock g) - has Exclusive (ls i) + has Exclusive l'"
    "exclusive_lock g' \<longrightarrow> shared_locks g' = 0" "waits_free l'" by auto
  have "(\<Sum>j<n. has k ((ls(i := l')) j)) = (\<Sum>j<n. has k (ls j)) - has k (ls i) + has k l'" for k
    using sum_upd[OF i, of "\<lambda>_. has k"] by simp
  with e iv show "flock_inv n g' (ls(i := l'))" by (simp add: flock_inv_def)
qed

section \<open>Exclusion and progress\<close>

lemma flock_excludes:
  assumes "reach flock_main n (flock_start input start) (g, ls)" and "i < n" "j < n" "i \<noteq> j" and "lock_of (ls i) = Exclusive"
  shows "lock_of (ls j) = Unlocked"
proof (rule ccontr)
  assume nj: "lock_of (ls j) \<noteq> Unlocked"
  have inv: "flock_inv n g ls" by (rule fk.reach_inv[OF assms(1)])
  from holder_locked(2)[OF this assms(2,5)] have ex: "exclusive_lock g" .
  then have s: "(\<Sum>j<n. has Shared (ls j)) = 0" "(\<Sum>j<n. has Exclusive (ls j)) = 1" using inv by (simp_all add: flock_inv_def)
  have "lock_of (ls j) \<noteq> Shared" using holder_counted[of j n ls Shared] assms(3) s(1) by auto
  with nj have x: "lock_of (ls j) = Exclusive" by (cases "lock_of (ls j)") auto
  have "(\<Sum>m\<in>{i, j}. has Exclusive (ls m)) \<le> (\<Sum>m<n. has Exclusive (ls m))"
    by (rule sum_mono2) (use assms in \<open>auto simp: has_def\<close>)
  with s(2) x assms(4,5) show False by (simp add: has_def)
qed

text \<open>Nobody waits with a lock in hand, so the processes never block each other for good.\<close>

lemma flock_progress:
  assumes "reach flock_main n (flock_start input start) (g, ls)"
  shows "(\<exists>i<n. flock_main i g (ls i) \<noteq> []) \<or> (\<forall>i<n. at_pc (ls i) = Closed) \<or> (\<exists>i<n. at_pc (ls i) = Smashed)"
proof (rule ccontr)
  assume c: "\<not> ?thesis"
  have inv: "flock_inv n g ls" by (rule fk.reach_inv[OF assms])
  have wait: "lock_of (ls i) = Unlocked \<and> (at_pc (ls i) = Closed \<or> (\<exists>k. at_pc (ls i) = Take k False \<and> \<not> lock_free k g))" if "i < n" for i
  proof -
    have "flock_main i g (ls i) = []" "at_pc (ls i) \<noteq> Smashed" "waits_free (ls i)" using c inv that by (auto simp: flock_inv_def)
    then show ?thesis by (cases "at_pc (ls i)") (auto simp: flock_main_def waits_free_def split: list.splits if_splits)
  qed
  then have "(\<Sum>j<n. has k (ls j)) = 0" if "k \<noteq> Unlocked" for k using that by (intro sum.neutral) (auto simp: has_def)
  then have "lock_free k g" for k using inv by (simp add: flock_inv_def lock_free_def)
  with wait c show False by blast
qed

end
