(* ===== verification/Small_Ipc.thy ===== *)
theory Small_Ipc
  imports Prelude Interleaving
begin

text \<open>
  Three small programs: \<^verbatim>\<open>7_ipc/12_sem_posix.c\<close> (ten threads share five places of a named semaphore),
  \<^verbatim>\<open>7_ipc/13_socketpair.c\<close> (a parent writes messages of typed sizes to a child) and \<^verbatim>\<open>5_files/2_fstat.c\<close> (what the bits
  of a file mode say), all under \<^verbatim>\<open>lecture_examples\<close>.
\<close>

unbundle bit_operations_syntax

section \<open>A POSIX semaphore\<close>

text \<open>Threads \<open>0\<close> to \<open>n - 1\<close> are the workers, thread \<open>n\<close> is \<^verbatim>\<open>main\<close>. Using the semaphore after \<^verbatim>\<open>sem_close\<close> is undefined
  (\<open>W_Broken\<close>); the end of \<^verbatim>\<open>main\<close> ends all threads.\<close>

record named_sem =
  sem_exists :: bool
  sem_open_here :: bool
  sem_value :: nat
  started :: nat
  ended :: bool
  got :: "nat list"

datatype posix_pc =
    W_Wait
  | W_Print
  | W_Work
  | W_Sleep
  | W_Broken
  | M_Open
  | M_Create nat
  | M_Key
  | M_Close
  | M_Unlink
  | M_End

definition WORKER_COUNT :: nat where
  "WORKER_COUNT = 10"

definition sem_worker_f :: "nat \<Rightarrow> named_sem \<Rightarrow> posix_pc \<Rightarrow> (named_sem \<times> posix_pc) list" where
  "sem_worker_f i g l = (if \<not> i < started g \<or> ended g then [] else case l of
       W_Wait \<Rightarrow> if \<not> sem_open_here g then [(g, W_Broken)]
         else if 0 < sem_value g then [(g\<lparr>sem_value := sem_value g - 1\<rparr>, W_Print)] else []
     | W_Print \<Rightarrow> [(g\<lparr>got := got g @ [i]\<rparr>, W_Work)]
     | W_Work \<Rightarrow> if \<not> sem_open_here g then [(g, W_Broken)] else [(g\<lparr>sem_value := sem_value g + 1\<rparr>, W_Sleep)]
     | W_Sleep \<Rightarrow> [(g, W_Wait)]
     | _ \<Rightarrow> [])"

text \<open>A semaphore left over from an earlier run is unlinked and the program starts again (\<^verbatim>\<open>retry\<close>).\<close>

definition sem_open_main :: "nat \<Rightarrow> named_sem \<Rightarrow> posix_pc \<Rightarrow> (named_sem \<times> posix_pc) list" where
  "sem_open_main n g l = (case l of
       M_Open \<Rightarrow> if sem_exists g then [(g\<lparr>sem_exists := False\<rparr>, M_Open)]
         else [(g\<lparr>sem_exists := True, sem_open_here := True, sem_value := 5\<rparr>, M_Create 0)]
     | M_Create i \<Rightarrow> if i < n then [(g\<lparr>started := started g + 1\<rparr>, M_Create (Suc i))] else [(g, M_Key)]
     | M_Key \<Rightarrow> [(g, M_Close)]
     | M_Close \<Rightarrow> [(g\<lparr>sem_open_here := False\<rparr>, M_Unlink)]
     | M_Unlink \<Rightarrow> [(g\<lparr>sem_exists := False\<rparr>, M_End)]
     | M_End \<Rightarrow> if ended g then [] else [(g\<lparr>ended := True\<rparr>, M_End)]
     | _ \<Rightarrow> [])"

definition posix_prog :: "nat \<Rightarrow> (named_sem, posix_pc) prog" where
  "posix_prog n i g l = (if i = n then sem_open_main n g l else sem_worker_f i g l)"

definition posix_start :: "nat \<Rightarrow> bool \<Rightarrow> named_sem \<times> (nat \<Rightarrow> posix_pc)" where
  "posix_start n leftover = (\<lparr>sem_exists = leftover, sem_open_here = False, sem_value = 0, started = 0, ended = False, got = []\<rparr>,
     \<lambda>i. if i = n then M_Open else W_Wait)"

definition holds_place :: "nat \<Rightarrow> posix_pc \<Rightarrow> int" where
  "holds_place i l = of_bool (l = W_Print \<or> l = W_Work)"

definition posix_inv :: "nat \<Rightarrow> named_sem \<Rightarrow> (nat \<Rightarrow> posix_pc) \<Rightarrow> bool" where
  "posix_inv n g ls \<longleftrightarrow> (case ls n of
       M_Open \<Rightarrow> \<not> sem_open_here g \<and> started g = 0 \<and> \<not> ended g \<and> (\<forall>i<n. ls i = W_Wait)
     | M_Create k \<Rightarrow> sem_open_here g \<and> started g = k \<and> k \<le> n \<and> \<not> ended g
     | M_Key \<Rightarrow> sem_open_here g \<and> started g = n \<and> \<not> ended g
     | M_Close \<Rightarrow> sem_open_here g \<and> started g = n \<and> \<not> ended g
     | M_Unlink \<Rightarrow> \<not> sem_open_here g
     | M_End \<Rightarrow> \<not> sem_open_here g
     | _ \<Rightarrow> False) \<and>
     (ls n \<noteq> M_Open \<and> sem_open_here g \<longrightarrow> int (sem_value g) + (\<Sum>j<n. holds_place j (ls j)) = 5 \<and> (\<forall>i<n. ls i \<noteq> W_Broken)) \<and>
     (\<forall>i<n. ls i \<in> {W_Wait, W_Print, W_Work, W_Sleep, W_Broken})"

lemma worker_effect:
  assumes "(g', l') \<in> set (sem_worker_f i g l)" and "l \<in> {W_Wait, W_Print, W_Work, W_Sleep, W_Broken}"
  shows "sem_open_here g' = sem_open_here g \<and> started g' = started g \<and> ended g' = ended g \<and> \<not> ended g \<and> i < started g \<and>
    l' \<in> {W_Wait, W_Print, W_Work, W_Sleep, W_Broken} \<and>
    (sem_open_here g \<longrightarrow> l' \<noteq> W_Broken \<and> int (sem_value g') + holds_place i l' = int (sem_value g) + holds_place i l)"
  using assms by (cases l) (auto simp: sem_worker_f_def holds_place_def split: if_splits)

interpretation px: invariant "posix_prog n" "Suc n" "posix_start n leftover" "posix_inv n" for n leftover
proof
  show "posix_inv n (fst (posix_start n leftover)) (snd (posix_start n leftover))"
    by (simp add: posix_inv_def posix_start_def)
next
  fix g ls i g' l'
  assume inv: "posix_inv n g ls" and i: "i < Suc n" and s: "(g', l') \<in> set (posix_prog n i g (ls i))"
  show "posix_inv n g' (ls(i := l'))"
  proof (cases "i = n")
    case True
    have eq: "(\<Sum>j<n. holds_place j ((ls(n := l')) j)) = (\<Sum>j<n. holds_place j (ls j))" by (rule sum_upd_other)
    have z: "(\<And>j. j < n \<Longrightarrow> ls j = W_Wait) \<Longrightarrow> (\<Sum>j<n. holds_place j (ls j)) = 0"
      by (intro sum.neutral) (auto simp: holds_place_def)
    from True s have "(g', l') \<in> set (sem_open_main n g (ls n))" by (simp add: posix_prog_def)
    with inv eq z True show ?thesis by (cases "ls n") (auto simp: posix_inv_def sem_open_main_def split: if_splits)
  next
    case False
    with i have i: "i < n" by simp
    from False s have w: "(g', l') \<in> set (sem_worker_f i g (ls i))" by (simp add: posix_prog_def)
    have m: "(ls(i := l')) n = ls n" using False by simp
    have sm: "(\<Sum>j<n. holds_place j ((ls(i := l')) j)) = (\<Sum>j<n. holds_place j (ls j)) - holds_place i (ls i) + holds_place i l'"
      by (rule sum_upd[OF i])
    from worker_effect[OF w] inv i have e: "sem_open_here g' = sem_open_here g" "started g' = started g" "ended g' = ended g" "i < started g"
      "l' \<in> {W_Wait, W_Print, W_Work, W_Sleep, W_Broken}"
      "sem_open_here g \<Longrightarrow> l' \<noteq> W_Broken \<and> int (sem_value g') + holds_place i l' = int (sem_value g) + holds_place i (ls i)"
      by (auto simp: posix_inv_def)
    have "case ls n of M_Open \<Rightarrow> False | _ \<Rightarrow> True" using e(4) inv by (auto simp: posix_inv_def split: posix_pc.splits)
    with inv e m sm show ?thesis by (cases "ls n") (auto simp: posix_inv_def)
  qed
qed

text \<open>At most five threads hold a place at a time, and while the semaphore is open some thread can always go on; the
  threads that are still at work when \<^verbatim>\<open>main\<close> has closed it use a semaphore that is gone.\<close>

lemma five_places:
  assumes "reach (posix_prog n) (Suc n) (posix_start n leftover) (g, ls)" and "sem_open_here g"
  shows "int (sem_value g) + (\<Sum>j<n. holds_place j (ls j)) = 5"
proof -
  have "posix_inv n g ls" by (rule px.reach_inv[OF assms(1)])
  with assms(2) show ?thesis by (auto simp: posix_inv_def split: posix_pc.splits)
qed

lemma sem_closed_too_early:
  "\<exists>g ls. reach (posix_prog 1) 2 (posix_start 1 True) (g, ls) \<and> ls 0 = W_Broken \<and> \<not> ended g"
proof -
  let ?sch = "[(1, 0), (1, 0), (1, 0), (0, 0), (0, 0), (1, 0), (1, 0), (1, 0), (0, 0)] :: (nat \<times> nat) list"
  obtain g ls where e: "exec (posix_prog 1) ?sch (posix_start 1 True) = Some (g, ls)" and l: "ls 0 = W_Broken" "\<not> ended g"
    by (simp add: Let_def posix_prog_def posix_start_def sem_open_main_def sem_worker_f_def)
  from e have "reach (posix_prog 1) 2 (posix_start 1 True) (g, ls)" by (rule exec_reach) simp
  with l show ?thesis by blast
qed

section \<open>A pair of sockets\<close>

datatype socket_kind = SOCK_STREAM | SOCK_DGRAM

text \<open>The arguments after the program's name; \<open>None\<close> is the exit for want of one.\<close>

definition socket_type :: "string list \<Rightarrow> socket_kind option" where
  "socket_type args = (if args = [] then None else Some (if hd args \<noteq> ''stream'' then SOCK_STREAM else SOCK_DGRAM))"

definition MAX_MSG_SIZE :: nat where
  "MAX_MSG_SIZE = 1024 * 1024"

text \<open>The parent: every size is printed and written; a negative one is a huge \<^verbatim>\<open>size_t\<close>, which \<^verbatim>\<open>write\<close> refuses. The
  result are the sizes printed and the sizes of the messages sent.\<close>

fun pair_server :: "int list \<Rightarrow> (int list \<times> nat list) run" where
  "pair_server [] = ret ([], [])"
| "pair_server (sz # szs) =
     (if int MAX_MSG_SIZE < sz then fault Out_Of_Bounds
      else bnd (pair_server szs) (\<lambda>(lines, msgs). ret (sz # lines, (if sz < 0 then msgs else nat sz # msgs))))"

text \<open>The child, over the answers of \<^verbatim>\<open>read\<close>: it prints sizes until one is not positive.\<close>

fun pair_worker :: "int list \<Rightarrow> int list" where
  "pair_worker [] = []"
| "pair_worker (sz # szs) = (if 0 < sz then sz # pair_worker szs else [])"

lemma pair_server_ret:
  "pair_server szs = (if \<forall>sz \<in> set szs. sz \<le> int MAX_MSG_SIZE
     then ret (szs, map nat (filter (\<lambda>sz. 0 \<le> sz) szs)) else fault Out_Of_Bounds)"
  by (induction szs) auto

text \<open>Datagrams arrive as they were sent, but an empty one looks like the end of the input.\<close>

lemma pair_datagrams:
  assumes "pair_server szs = ret (lines, msgs)" and "0 \<notin> set szs"
  shows "pair_worker (map int msgs @ [0]) = filter (\<lambda>sz. 0 < sz) lines"
proof -
  have m: "lines = szs" "msgs = map nat (filter (\<lambda>sz. 0 \<le> sz) szs)" using assms(1) by (auto simp: pair_server_ret split: if_splits)
  have "pair_worker (map int (map nat (filter (\<lambda>sz. 0 \<le> sz) xs)) @ [0]) = filter (\<lambda>sz. 0 < sz) xs" if "0 \<notin> set xs" for xs
    using that by (induction xs) auto
  with m assms(2) show ?thesis by simp
qed

lemma socket_type_inverted: "socket_type [''stream''] = Some SOCK_DGRAM" "socket_type [''dgram''] = Some SOCK_STREAM"
  by (simp_all add: socket_type_def)

section \<open>What a file mode says\<close>

type_synonym mode = "32 word"

definition S_IFMT :: mode where "S_IFMT = 0xF000"
definition S_IFIFO :: mode where "S_IFIFO = 0x1000"
definition S_IFCHR :: mode where "S_IFCHR = 0x2000"
definition S_IFDIR :: mode where "S_IFDIR = 0x4000"
definition S_IFBLK :: mode where "S_IFBLK = 0x6000"
definition S_IFREG :: mode where "S_IFREG = 0x8000"
definition S_IFLNK :: mode where "S_IFLNK = 0xA000"
definition S_IFSOCK :: mode where "S_IFSOCK = 0xC000"
definition S_IRUSR :: mode where "S_IRUSR = 0x100"
definition S_IWUSR :: mode where "S_IWUSR = 0x80"
definition S_IXUSR :: mode where "S_IXUSR = 0x40"

lemmas mode_defs = S_IFMT_def S_IFIFO_def S_IFCHR_def S_IFDIR_def S_IFBLK_def S_IFREG_def S_IFLNK_def S_IFSOCK_def
  S_IRUSR_def S_IWUSR_def S_IXUSR_def

datatype mode_line = Is_Directory | Is_Regular | Is_Link | Can_Read | Can_Write | Can_Execute

definition show_mode :: "mode \<Rightarrow> mode_line list" where
  "show_mode m =
     (if m AND S_IFDIR = S_IFDIR then [Is_Directory] else []) @
     (if m AND S_IFREG = S_IFREG then [Is_Regular] else []) @
     (if m AND S_IFLNK = S_IFLNK then [Is_Link] else []) @
     (if m AND S_IRUSR = S_IRUSR then [Can_Read] else []) @
     (if m AND S_IWUSR = S_IWUSR then [Can_Write] else []) @
     (if m AND S_IXUSR = S_IXUSR then [Can_Execute] else [])"

lemma kind_bits:
  "b \<in> {S_IFDIR, S_IFREG, S_IFLNK} \<Longrightarrow> m AND b = (m AND S_IFMT) AND b"
  by (auto simp: and.assoc mode_defs)

text \<open>The type of a file is a number in four bits, not a set of bits: directories and regular files are named, but a block
  device is called a directory, a symbolic link a regular file too, and a socket both.\<close>

lemma mode_kinds:
  "filter (\<lambda>x. x \<in> {Is_Directory, Is_Regular, Is_Link}) (show_mode m) =
     (let t = m AND S_IFMT in
      if t = S_IFDIR \<or> t = S_IFBLK then [Is_Directory] else if t = S_IFREG then [Is_Regular]
      else if t = S_IFLNK then [Is_Regular, Is_Link] else if t = S_IFSOCK then [Is_Directory, Is_Regular]
      else if t = S_IFIFO \<or> t = S_IFCHR then [] else filter (\<lambda>x. x \<in> {Is_Directory, Is_Regular, Is_Link}) (show_mode t))"
proof -
  have k: "m AND S_IFDIR = (m AND S_IFMT) AND S_IFDIR" "m AND S_IFREG = (m AND S_IFMT) AND S_IFREG"
    "m AND S_IFLNK = (m AND S_IFMT) AND S_IFLNK" by (rule kind_bits, simp)+
  show ?thesis unfolding show_mode_def k Let_def by (auto simp: mode_defs)
qed

end
