(* ===== verification/Msg_Programs.thy ===== *)
theory Msg_Programs
  imports Messages Interleaving
begin

text \<open>
  The client and the two servers of the first message example (\<^verbatim>\<open>7_msgsend_client.c\<close>, \<^verbatim>\<open>7_msgsend_server.c\<close> and
  \<^verbatim>\<open>7_msgsend_server_flag.c\<close> of \<^verbatim>\<open>lecture_examples/7_ipc\<close>) at work on one queue: the first server waits inside \<^verbatim>\<open>msgrcv\<close>,
  the second (\<open>nowait\<close>) asks again and again.
\<close>

section \<open>The programs\<close>

definition c_literal :: "string \<Rightarrow> byte list" where
  "c_literal s = map of_char s @ [0]"

definition client_sends :: "(int \<times> byte list) list" where
  "client_sends = [(100, c_literal ''hello, world''), (50, c_literal ''hello, world of type 50''),
     (60, c_literal ''hello, world of type 60'')]"

definition server_asks :: "int list" where
  "server_asks = [0, 60, - 200]"

record msg_sys =
  msgs :: "message list"
  lines_seen :: "(int \<times> int \<times> byte list) list"
  queue_gone :: bool

datatype msg_pc = Client nat | Poll | Server nat | Server_End

definition steps_of :: "'a run \<Rightarrow> ('a \<Rightarrow> 'b) \<Rightarrow> 'b list" where
  "steps_of m f = (case m of None \<Rightarrow> [] | Some r \<Rightarrow> (case r of Inl _ \<Rightarrow> [] | Inr x \<Rightarrow> [f x]))"

definition msgsend_client :: "byte list \<Rightarrow> msg_sys \<Rightarrow> msg_pc \<Rightarrow> (msg_sys \<times> msg_pc) list" where
  "msgsend_client junk g l = (case l of
       Client k \<Rightarrow> if k < length client_sends
         then steps_of (send_msg junk (fst (client_sends ! k)) (snd (client_sends ! k)) (msgs g))
           (\<lambda>q. (g\<lparr>msgs := q\<rparr>, Client (Suc k)))
         else []
     | _ \<Rightarrow> [])"

definition msgsend_server :: "bool \<Rightarrow> byte list \<Rightarrow> msg_sys \<Rightarrow> msg_pc \<Rightarrow> (msg_sys \<times> msg_pc) list" where
  "msgsend_server nowait junk g l = (case l of
       Poll \<Rightarrow> [(g, if nowait \<or> msgs g \<noteq> [] then Server 0 else Poll)]
     | Server k \<Rightarrow> if k < length server_asks
         then (if msgrcv (server_asks ! k) (msgs g) = None then (if nowait then [(g, Server k)] else [])
           else steps_of (recv_msg junk (server_asks ! k) (msgs g))
             (\<lambda>(line, q). (g\<lparr>msgs := q, lines_seen := lines_seen g @ [line]\<rparr>, Server (Suc k))))
         else [(g\<lparr>queue_gone := True\<rparr>, Server_End)]
     | _ \<Rightarrow> [])"

definition msg_prog :: "bool \<Rightarrow> byte list \<Rightarrow> byte list \<Rightarrow> (msg_sys, msg_pc) prog" where
  "msg_prog nowait junk junk' i g l = (if i = 0 then msgsend_client junk g l else msgsend_server nowait junk' g l)"

definition msg_start :: "msg_sys \<times> (nat \<Rightarrow> msg_pc)" where
  "msg_start = (\<lparr>msgs = [], lines_seen = [], queue_gone = False\<rparr>, \<lambda>i. if i = 0 then Client 0 else Poll)"

section \<open>Every order leads to the same lines\<close>

definition sent_entry :: "byte list \<Rightarrow> nat \<Rightarrow> message" where
  "sent_entry junk k = entry junk (fst (client_sends ! k)) (snd (client_sends ! k))"

definition seen_line :: "nat \<Rightarrow> int \<times> int \<times> byte list" where
  "seen_line k = (fst (client_sends ! k), int (length (snd (client_sends ! k))), butlast (snd (client_sends ! k)))"

text \<open>The state after \<open>k\<close> messages have been sent, for each place of the server.\<close>

fun msg_state :: "byte list \<Rightarrow> nat \<Rightarrow> msg_pc \<Rightarrow> msg_sys \<Rightarrow> bool" where
  "msg_state junk k (Server 0) g \<longleftrightarrow> k \<le> 3 \<and> msgs g = map (sent_entry junk) [0..<k] \<and> lines_seen g = []"
| "msg_state junk k Poll g \<longleftrightarrow> k \<le> 3 \<and> msgs g = map (sent_entry junk) [0..<k] \<and> lines_seen g = []"
| "msg_state junk k (Server (Suc 0)) g \<longleftrightarrow> 1 \<le> k \<and> k \<le> 3 \<and> msgs g = map (sent_entry junk) [1..<k] \<and> lines_seen g = [seen_line 0]"
| "msg_state junk k (Server (Suc (Suc 0))) g \<longleftrightarrow> k = 3 \<and> msgs g = [sent_entry junk 1] \<and> lines_seen g = [seen_line 0, seen_line 2]"
| "msg_state junk k (Server (Suc (Suc (Suc 0)))) g \<longleftrightarrow> k = 3 \<and> msgs g = [] \<and> lines_seen g = [seen_line 0, seen_line 2, seen_line 1]"
| "msg_state junk k Server_End g \<longleftrightarrow> k = 3 \<and> msgs g = [] \<and> queue_gone g \<and> lines_seen g = [seen_line 0, seen_line 2, seen_line 1]"
| "msg_state junk k _ g \<longleftrightarrow> False"

definition msg_inv :: "byte list \<Rightarrow> msg_sys \<Rightarrow> (nat \<Rightarrow> msg_pc) \<Rightarrow> bool" where
  "msg_inv junk g ls \<longleftrightarrow> (\<exists>k. ls 0 = Client k \<and> msg_state junk k (ls 1) g)"

lemma client_sends_bounds:
  assumes "k < 3"
  shows "length (snd (client_sends ! k)) \<le> 492" "1 \<le> fst (client_sends ! k)" "fst (client_sends ! k) < 2 ^ 63"
    "0 \<in> set (snd (client_sends ! k))" "takeWhile (\<lambda>b. b \<noteq> 0) (snd (client_sends ! k)) = butlast (snd (client_sends ! k))"
proof -
  have "k = 0 \<or> k = 1 \<or> k = 2" using assms by auto
  then show "length (snd (client_sends ! k)) \<le> 492" "1 \<le> fst (client_sends ! k)" "fst (client_sends ! k) < 2 ^ 63"
    "0 \<in> set (snd (client_sends ! k))" "takeWhile (\<lambda>b. b \<noteq> 0) (snd (client_sends ! k)) = butlast (snd (client_sends ! k))"
    by (elim disjE; simp add: client_sends_def c_literal_def)+
qed

lemma send_one:
  assumes "length junk = MSG_SIZE" and "k < 3"
  shows "send_msg junk (fst (client_sends ! k)) (snd (client_sends ! k)) q = ret (q @ [sent_entry junk k])"
  using send_msg_ret[OF assms(1)] client_sends_bounds[OF assms(2)] by (simp add: sent_entry_def)

lemma show_one:
  assumes "length junk = MSG_SIZE" "length junk' = MSG_SIZE" and "k < 3"
  shows "show_msg junk' (sent_entry junk k) = ret (seen_line k)"
  using show_entry[OF assms(1,2)] client_sends_bounds[OF assms(3)]
  by (simp add: sent_entry_def seen_line_def c_string_terminated)

lemma upto_small: "[Suc 0..<2] = [1]" "[Suc 0..<3] = [1, 2 :: nat]"
  by (simp_all add: upt_rec numeral_eq_Suc)

lemma entry_types [simp]: "fst (sent_entry junk 0) = 100" "fst (sent_entry junk (Suc 0)) = 50" "fst (sent_entry junk 2) = 60"
  by (simp_all add: sent_entry_def entry_def client_sends_def)

text \<open>What each question finds in the queue.\<close>

lemma first_answer:
  "k \<le> 3 \<Longrightarrow> msgrcv 0 (map (sent_entry junk) [0..<k]) =
     (if k = 0 then None else Some (sent_entry junk 0, map (sent_entry junk) [1..<k]))"
  by (cases k) (simp_all add: msgrcv_def upt_conv_Cons del: upt_Suc)

lemma second_answer:
  assumes "1 \<le> k" and "k \<le> 3"
  shows "msgrcv 60 (map (sent_entry junk) [1..<k]) = (if k < 3 then None else Some (sent_entry junk 2, [sent_entry junk 1]))"
proof -
  have "k = 1 \<or> k = 2 \<or> k = 3" using assms by auto
  then show ?thesis by (elim disjE) (simp_all add: msgrcv_def upto_small del: upt_Suc)
qed

lemma third_answer: "msgrcv (- 200) [sent_entry junk 1] = Some (sent_entry junk 1, [])"
  by (simp add: msgrcv_def smallest_def)

lemma recv_one:
  assumes "length junk = MSG_SIZE" "length junk' = MSG_SIZE" and "j < 3" and "msgrcv type q = Some (sent_entry junk j, q')"
  shows "recv_msg junk' type q = ret (seen_line j, q')"
  using assms(4) show_one[OF assms(1-3)] by (simp add: recv_msg_def)

lemma asks: "server_asks ! 0 = 0" "server_asks ! Suc 0 = 60" "server_asks ! Suc (Suc 0) = - 200" "length server_asks = 3"
  "length client_sends = 3"
  by (simp_all add: server_asks_def client_sends_def)

lemma server_keeps:
  assumes junk: "length junk = MSG_SIZE" "length junk' = MSG_SIZE" and st: "msg_state junk k l g"
    and s: "(g', l') \<in> set (msgsend_server nowait junk' g l)"
  shows "msg_state junk k l' g'"
  using st s
proof (cases "(junk, k, l, g)" rule: msg_state.cases)
  case (1 junk k g)
  then show ?thesis using st s first_answer[of k junk] recv_one[OF junk, of 0 0 "msgs g" "map (sent_entry junk) [1..<k]"]
    by (auto simp: msgsend_server_def asks steps_of_def split: if_splits)
next
  case (2 junk k g)
  then show ?thesis using st s by (auto simp: msgsend_server_def split: if_splits)
next
  case (3 junk k g)
  then show ?thesis using st s second_answer[of k junk] recv_one[OF junk, of 2 60 "msgs g" "[sent_entry junk 1]"]
    by (auto simp: msgsend_server_def asks steps_of_def split: if_splits)
next
  case (4 junk k g)
  then show ?thesis using st s third_answer[of junk] recv_one[OF junk, of 1 "- 200" "msgs g" "[]"]
    by (auto simp: msgsend_server_def asks steps_of_def split: if_splits)
next
  case (5 junk k g)
  then show ?thesis using st s by (auto simp: msgsend_server_def asks)
next
  case (6 junk k g)
  then show ?thesis using st s by (auto simp: msgsend_server_def asks)
qed auto

lemma client_keeps:
  assumes junk: "length junk = MSG_SIZE" and st: "msg_state junk k l g" and s: "(g', l') \<in> set (msgsend_client junk g (Client k))"
  shows "l' = Client (Suc k) \<and> msg_state junk (Suc k) l g'"
proof -
  have k: "k < 3" and g': "g' = g\<lparr>msgs := msgs g @ [sent_entry junk k]\<rparr>" "l' = Client (Suc k)"
    using s send_one[OF junk, of k "msgs g"] by (auto simp: msgsend_client_def asks steps_of_def split: if_splits)
  with st show ?thesis by (cases "(junk, k, l, g)" rule: msg_state.cases) auto
qed

definition good_junk :: "byte list \<Rightarrow> byte list \<Rightarrow> bool" where
  "good_junk junk junk' \<longleftrightarrow> length junk = MSG_SIZE \<and> length junk' = MSG_SIZE"

interpretation mp: invariant "msg_prog nowait junk junk'" 2 msg_start "\<lambda>g ls. good_junk junk junk' \<longrightarrow> msg_inv junk g ls" for nowait junk junk'
proof
  show "good_junk junk junk' \<longrightarrow> msg_inv junk (fst msg_start) (snd msg_start)" by (simp add: msg_inv_def msg_start_def)
next
  fix g ls i g' l'
  assume inv: "good_junk junk junk' \<longrightarrow> msg_inv junk g ls" and i: "i < 2" and s: "(g', l') \<in> set (msg_prog nowait junk junk' i g (ls i))"
  show "good_junk junk junk' \<longrightarrow> msg_inv junk g' (ls(i := l'))"
  proof
    assume "good_junk junk junk'"
    then have junk: "length junk = MSG_SIZE" "length junk' = MSG_SIZE" by (simp_all add: good_junk_def)
    from inv \<open>good_junk junk junk'\<close> obtain k where k: "ls 0 = Client k" "msg_state junk k (ls 1) g" by (auto simp: msg_inv_def)
    show "msg_inv junk g' (ls(i := l'))"
    proof (cases "i = 0")
      case True
      then have "(g', l') \<in> set (msgsend_client junk g (Client k))" using s k(1) by (simp add: msg_prog_def)
      from client_keeps[OF junk(1) k(2) this] True show ?thesis by (simp add: msg_inv_def)
    next
      case False
      with i have [simp]: "i = 1" by simp
      have "(g', l') \<in> set (msgsend_server nowait junk' g (ls 1))" using s by (simp add: msg_prog_def)
      from server_keeps[OF junk k(2) this] k(1) show ?thesis by (simp add: msg_inv_def)
    qed
  qed
qed

text \<open>Whatever the interleaving and whatever the buffers held before, the server prints the first message, the one of type 60 and
  then the one of the smallest type, none is lost, and neither program is left waiting.\<close>

lemma messages_taken:
  assumes junk: "length junk = MSG_SIZE" "length junk' = MSG_SIZE" and r: "reach (msg_prog nowait junk junk') 2 msg_start (g, ls)"
  shows "(\<exists>i < 2. msg_prog nowait junk junk' i g (ls i) \<noteq> []) \<or>
    ls 0 = Client 3 \<and> ls 1 = Server_End \<and> msgs g = [] \<and> lines_seen g = [seen_line 0, seen_line 2, seen_line 1]"
proof -
  from mp.reach_inv[OF r] junk obtain k where k: "ls 0 = Client k" "msg_state junk k (ls 1) g"
    by (auto simp: msg_inv_def good_junk_def)
  have "k < 3 \<Longrightarrow> msgsend_client junk g (Client k) \<noteq> []"
    using send_one[OF junk(1), of k "msgs g"] by (simp add: msgsend_client_def asks steps_of_def)
  then have c: "msg_prog nowait junk junk' 0 g (ls 0) \<noteq> []" if "k < 3" using that k(1) by (simp add: msg_prog_def)
  have "msgsend_server nowait junk' g (ls 1) \<noteq> [] \<or> k < 3 \<or>
    ls 1 = Server_End \<and> msgs g = [] \<and> lines_seen g = [seen_line 0, seen_line 2, seen_line 1]"
    using k(2)
  proof (cases "(junk, k, ls 1, g)" rule: msg_state.cases)
    case (1 junk k g)
    then show ?thesis using k(2) first_answer[of k junk] recv_one[OF junk, of 0 0 "msgs g" "map (sent_entry junk) [1..<k]"]
      by (auto simp: msgsend_server_def asks steps_of_def)
  next
    case (3 junk k g)
    then show ?thesis using k(2) second_answer[of k junk] recv_one[OF junk, of 2 60 "msgs g" "[sent_entry junk 1]"]
      by (auto simp: msgsend_server_def asks steps_of_def)
  next
    case (4 junk k g)
    then show ?thesis using k(2) third_answer[of junk] recv_one[OF junk, of 1 "- 200" "msgs g" "[]"]
      by (auto simp: msgsend_server_def asks steps_of_def)
  qed (auto simp: msgsend_server_def asks)
  moreover have "k \<le> 3" using k(2) by (cases "(junk, k, ls 1, g)" rule: msg_state.cases) auto
  moreover have "msg_prog nowait junk junk' 1 g (ls 1) = msgsend_server nowait junk' g (ls 1)" by (simp add: msg_prog_def)
  ultimately have "msg_prog nowait junk junk' 0 g (ls 0) \<noteq> [] \<or> msg_prog nowait junk junk' 1 g (ls 1) \<noteq> [] \<or>
    k = 3 \<and> ls 1 = Server_End \<and> msgs g = [] \<and> lines_seen g = [seen_line 0, seen_line 2, seen_line 1]"
    using c by fastforce
  with k(1) show ?thesis by (metis one_less_numeral_iff semiring_norm(76) zero_less_numeral)
qed

end
