(* ===== verification/Shell_Jobs.thy ===== *)
theory Shell_Jobs
  imports Shell_Exec Interleaving "HOL-Library.Multiset"
begin

text \<open>
  The shell as a whole, \<^verbatim>\<open>2/shell.c\<close>. First the process that \<^verbatim>\<open>execute\<close> forks for a line: it runs the pipelines of the line one
  after the other, in its own table of descriptors, and exits. Then the shell itself, which forks one such process per
  line, waits for those in the foreground and collects the others when they have ended (\<^verbatim>\<open>kill_zombie\<close>); a child
  may end between any two steps of the shell.
\<close>

unbundle bit_operations_syntax

section \<open>The process of a line\<close>

record job =
  tbl :: fds
  ran :: nat
  spawned :: "child list list"

text \<open>\<open>pids k\<close> are the process ids of the \<open>k\<close>-th pipeline of the process, \<open>waits k\<close> what \<^verbatim>\<open>wait\<close> returns for it.\<close>

definition run_pipeline :: "(string \<Rightarrow> open_mode \<Rightarrow> bool) \<Rightarrow> (nat \<Rightarrow> nat \<Rightarrow> nat) \<Rightarrow> (nat \<Rightarrow> token list \<Rightarrow> (nat \<times> 32 word) list) \<Rightarrow>
    token list \<Rightarrow> job \<Rightarrow> int \<times> job" where
  "run_pipeline openable pids waits p j =
     (let (code, cs, T) = execute_pipeline openable (pids (ran j)) (waits (ran j) p) p (tbl j)
      in (code, \<lparr>tbl = T, ran = Suc (ran j), spawned = spawned j @ [cs]\<rparr>))"

text \<open>The status word of a process that has called \<^verbatim>\<open>exit\<close>.\<close>

definition exit_status :: "int \<Rightarrow> 32 word" where
  "exit_status code = push_bit 8 (word_of_int (code mod 256))"

definition line_process :: "(string \<Rightarrow> open_mode \<Rightarrow> bool) \<Rightarrow> (nat \<Rightarrow> nat \<Rightarrow> nat) \<Rightarrow> (nat \<Rightarrow> token list \<Rightarrow> (nat \<times> 32 word) list) \<Rightarrow>
    token list \<Rightarrow> fds \<Rightarrow> 32 word \<times> job" where
  "line_process openable pids waits p T =
     (let (code, j) = execute_logic (run_pipeline openable pids waits) p \<lparr>tbl = T, ran = 0, spawned = []\<rparr>
      in (exit_status code, j))"

lemma exit_status_bits:
  fixes w :: "32 word"
  assumes "take_bit 8 w = w"
  shows "push_bit 8 w AND 0x7F = 0" "drop_bit 8 (push_bit 8 w AND 0xFF00) = w"
proof -
  have *: "(0x7F :: 32 word) = mask 7" by (simp add: mask_numeral)
  show "push_bit 8 w AND 0x7F = 0" unfolding * by (auto intro!: bit_word_eqI simp: bit_simps)
  have *: "(0xFF00 :: 32 word) = push_bit 8 (mask 8)" by (simp add: mask_numeral)
  have "push_bit 8 w AND 0xFF00 = push_bit 8 (take_bit 8 w)" unfolding * by (auto intro!: bit_word_eqI simp: bit_simps)
  moreover have "drop_bit 8 (push_bit 8 (take_bit 8 w)) = take_bit 8 w" by (auto intro!: bit_word_eqI simp: bit_simps)
  ultimately show "drop_bit 8 (push_bit 8 w AND 0xFF00) = w" using assms by simp
qed

lemma exit_status_read: "WIFEXITED (exit_status code)" "WEXITSTATUS (exit_status code) = code mod 256"
proof -
  have u: "uint (word_of_int (code mod 256) :: 32 word) = code mod 256"
    by (simp add: uint_word_of_int)
  have "uint (take_bit 8 (word_of_int (code mod 256) :: 32 word)) = take_bit 8 (code mod 256)"
    using unsigned_take_bit_eq[of 8 "word_of_int (code mod 256) :: 32 word", where ?'a = int] u by simp
  then have "take_bit 8 (word_of_int (code mod 256) :: 32 word) = word_of_int (code mod 256)"
    by (intro word_uint_eqI) (simp add: u take_bit_eq_mod[of _ "_ :: int"])
  from exit_status_bits[OF this] u show "WIFEXITED (exit_status code)" "WEXITSTATUS (exit_status code) = code mod 256"
    by (simp_all add: WIFEXITED_def WEXITSTATUS_def exit_status_def)
qed

text \<open>The exit code of the last command of the \<open>k\<close>-th pipeline.\<close>

definition last_code :: "(nat \<Rightarrow> nat \<Rightarrow> nat) \<Rightarrow> (nat \<Rightarrow> token list \<Rightarrow> (nat \<times> 32 word) list) \<Rightarrow> token list \<Rightarrow> nat \<Rightarrow> int \<times> nat" where
  "last_code pids waits p k =
     (death_analys (the (map_of (waits k p) (pids k (length (fst (pipeline_commands p)) - 1)))), Suc k)"

text \<open>\<^verbatim>\<open>wait\<close> returns every child of the pipeline once, in any order.\<close>

definition waits_ok :: "(nat \<Rightarrow> nat \<Rightarrow> nat) \<Rightarrow> (nat \<Rightarrow> token list \<Rightarrow> (nat \<times> 32 word) list) \<Rightarrow> bool" where
  "waits_ok pids waits \<longleftrightarrow> (\<forall>k p. inj (pids k) \<and>
     mset (map fst (waits k p)) = mset (map (pids k) [0..<length (fst (pipeline_commands p))]))"

lemma spawn_length: "spawn openable p n fd T = (cs, fd', T') \<Longrightarrow> length cs = length (fst (pipeline_commands p))"
proof (induction p arbitrary: n fd T cs fd' T' rule: pipeline_commands.induct)
  case (1 p)
  obtain l cmd tail where sp: "split_pipeline p = (l, cmd, tail)" by (cases "split_pipeline p") auto
  consider "l = PIPE_EMPTY" | "l = PIPE_LAST" | "l \<noteq> PIPE_EMPTY" "l \<noteq> PIPE_LAST" by blast
  then show ?case
  proof cases
    case 1
    with "1.prems" sp show ?thesis by (simp add: pipeline_commands.simps[of p] spawn.simps[of _ p])
  next
    case 2
    with sp split_pipeline_last have "tail = []" by blast
    with "1.prems" sp 2 show ?thesis
      by (auto simp: pipeline_commands.simps[of p] spawn.simps[of _ p] spawn.simps[of _ "[]"] Let_def split: prod.splits)
  next
    case 3
    then obtain cs' fd1 T1 where "spawn openable tail (Suc n) fd1 T1 = (cs', fd', T')" "length cs = Suc (length cs')"
      using "1.prems" sp by (subst (asm) spawn.simps) (auto simp: Let_def split: prod.splits)
    with "1.IH"[OF sp[symmetric] refl refl 3] sp 3 show ?thesis
      by (auto simp: pipeline_commands.simps[of p] split: prod.split)
  qed
qed

lemma commands_nonempty: "p \<noteq> [] \<Longrightarrow> fst (pipeline_commands p) \<noteq> []"
  using split_pipeline_empty[of p] by (subst pipeline_commands.simps) (auto split: prod.splits)

lemma pipeline_code:
  assumes "waits_ok pids waits" and "p \<noteq> []" and "execute_pipeline openable (pids k) (waits k p) p T = (code, cs, T')"
  shows "code = fst (last_code pids waits p k)"
proof -
  let ?n = "length (fst (pipeline_commands p))"
  have m: "mset (map fst (waits k p)) = mset (map (pids k) [0..<?n])" and inj: "inj (pids k)"
    using assms(1) by (auto simp: waits_ok_def)
  obtain fd where s: "start_pipeline openable p T = (cs, fd, T')"
    and code: "code = wait_loop (length cs) (pids k (length cs - 1)) 1 (waits k p)"
    using assms(3) by (auto simp: execute_pipeline_def split: prod.splits)
  from s spawn_length have n: "length cs = ?n" by (auto simp: start_pipeline_def)
  have "length (waits k p) = ?n" using arg_cong[OF m, of size] by simp
  with n code have c: "code = wait_loop (length (waits k p)) (pids k (?n - 1)) 1 (waits k p)" by simp
  have d: "distinct (map fst (waits k p))"
    using m inj by (metis distinct_map distinct_upt inj_on_subset mset_eq_imp_distinct_iff subset_UNIV)
  have "?n - 1 < ?n" using commands_nonempty[OF assms(2)] by simp
  then have "pids k (?n - 1) \<in> set (map (pids k) [0..<?n])" by simp
  then have "pids k (?n - 1) \<in> set (map fst (waits k p))" using mset_eq_setD[OF m] by simp
  then obtain st where st: "(pids k (?n - 1), st) \<in> set (waits k p)" by auto
  from shell_pipeline_exit_code[OF d st] map_of_is_SomeI[OF d st] c show ?thesis by (simp add: last_code_def)
qed

lemma short_circuit_abs:
  assumes "\<And>cmd s c s'. cmd \<in> fst ` set cmds \<Longrightarrow> f cmd s = (c, s') \<Longrightarrow> g cmd (a s) = (c, a s')"
    and "short_circuit f before cmds code s = (c, s')"
  shows "short_circuit g before cmds code (a s) = (c, a s')"
  using assms
proof (induction cmds arbitrary: before code s)
  case (Cons x cmds)
  obtain cmd after where x: "x = (cmd, after)" by (cases x)
  obtain code1 s1 where f: "f cmd s = (code1, s1)" by force
  then have g: "g cmd (a s) = (code1, a s1)" using Cons.prems(1) x by auto
  show ?case
  proof (cases "before = LOGIC_AND \<and> code \<noteq> 0 \<or> before = LOGIC_OR \<and> code = 0")
    case True
    with Cons x show ?thesis by simp
  next
    case False
    with Cons.prems(2) x f have "short_circuit f after cmds code1 s1 = (c, s')" by simp
    from Cons.IH[OF Cons.prems(1) this] x g False show ?thesis by auto
  qed
qed simp

lemma parse_logic_heads: "cmd \<in> fst ` set (parse_logic p) \<Longrightarrow> cmd \<noteq> []"
proof -
  have "cmd \<in> fst ` set (commands acc p) \<Longrightarrow> cmd \<noteq> []" for acc
    by (induction acc p rule: commands.induct) (auto split: if_splits)
  then show "cmd \<in> fst ` set (parse_logic p) \<Longrightarrow> cmd \<noteq> []" by (simp add: parse_logic_def)
qed

text \<open>The status of the process is the short-circuit value of the line, where a pipeline counts as its last command, modulo 256.\<close>

lemma line_process_status:
  assumes "waits_ok pids waits"
  shows "fst (line_process openable pids waits p T) =
    exit_status (fst (short_circuit (last_code pids waits) LOGIC_LAST (parse_logic p) 0 0))"
proof -
  obtain code j where r: "short_circuit (run_pipeline openable pids waits) LOGIC_LAST (parse_logic p) 0 \<lparr>tbl = T, ran = 0, spawned = []\<rparr> = (code, j)"
    by force
  have "short_circuit (last_code pids waits) LOGIC_LAST (parse_logic p) 0 (ran \<lparr>tbl = T, ran = 0, spawned = []\<rparr>) = (code, ran j)"
  proof (rule short_circuit_abs[OF _ r])
    fix cmd s c s'
    assume h: "cmd \<in> fst ` set (parse_logic p)" and run: "run_pipeline openable pids waits cmd s = (c, s')"
    have "cmd \<noteq> []" by (rule parse_logic_heads[OF h])
    from run obtain cs T' where "execute_pipeline openable (pids (ran s)) (waits (ran s) cmd) cmd (tbl s) = (c, cs, T')"
      "ran s' = Suc (ran s)" by (auto simp: run_pipeline_def Let_def split: prod.splits)
    with pipeline_code[OF assms \<open>cmd \<noteq> []\<close>] show "last_code pids waits cmd (ran s) = (c, ran s')"
      by (auto simp: last_code_def)
  qed
  with r show ?thesis by (simp add: line_process_def execute_logic_def logic_loop_spec)
qed

section \<open>The shell and its children\<close>

datatype sh_line =
    Fork_Error
  | Job_Started nat
  | Job_Finished nat int
  | Job_Killed nat int

text \<open>What \<^verbatim>\<open>death_analys\<close> prints.\<close>

definition death_line :: "nat \<Rightarrow> 32 word \<Rightarrow> sh_line" where
  "death_line pid s = (if WIFEXITED s then Job_Finished pid (WEXITSTATUS s) else Job_Killed pid (uint (s AND 0x7F)))"

text \<open>
  The children that have not been waited for, with their status once they have ended; every process forked so far (its
  id is its place), whether it runs in the foreground; the calls of \<^verbatim>\<open>chdir\<close>; what was printed.
\<close>

record shell =
  kids :: "(nat \<times> 32 word option) list"
  forked :: "(token list \<times> bool) list"
  chdirs :: "string list"
  printed :: "sh_line list"

datatype sh_pc =
    Sh_Line "token list list"
  | Sh_Wait nat "token list list"
  | Sh_Reap "token list list"
  | Sh_Kernel

definition forget :: "nat \<Rightarrow> shell \<Rightarrow> shell" where
  "forget pid g = g\<lparr>kids := filter (\<lambda>k. fst k \<noteq> pid) (kids g)\<rparr>"

definition zombies :: "shell \<Rightarrow> (nat \<times> 32 word) list" where
  "zombies g = concat (map (\<lambda>(pid, st). case st of None \<Rightarrow> [] | Some s \<Rightarrow> [(pid, s)]) (kids g))"

text \<open>The rest of \<^verbatim>\<open>execute\<close> for the line \<open>p\<close>: \<^verbatim>\<open>fork\<close> succeeds or fails.\<close>

definition fork_line :: "token list \<Rightarrow> bool \<Rightarrow> token list list \<Rightarrow> shell \<Rightarrow> (shell \<times> sh_pc) list" where
  "fork_line p block ls g =
     (let pid = length (forked g); g' = g\<lparr>forked := forked g @ [(p, block)], kids := kids g @ [(pid, None)]\<rparr> in
      [if block then (g', Sh_Wait pid ls) else (g'\<lparr>printed := printed g @ [Job_Started pid]\<rparr>, Sh_Reap ls),
       (g\<lparr>printed := printed g @ [Fork_Error]\<rparr>, Sh_Line ls)])"

text \<open>\<^verbatim>\<open>waitpid\<close> for the child in the foreground.\<close>

definition wait_foreground :: "nat \<Rightarrow> token list list \<Rightarrow> shell \<Rightarrow> (shell \<times> sh_pc) list" where
  "wait_foreground pid ls g = (case map_of (kids g) pid of None \<Rightarrow> [(g, Sh_Reap ls)]
     | Some None \<Rightarrow> [] | Some (Some s) \<Rightarrow> [(forget pid g, Sh_Reap ls)])"

text \<open>One turn of \<^verbatim>\<open>kill_zombie\<close>: \<^verbatim>\<open>waitpid\<close> returns any child that has ended, or there is none.\<close>

definition kill_zombie :: "token list list \<Rightarrow> shell \<Rightarrow> (shell \<times> sh_pc) list" where
  "kill_zombie ls g = (if zombies g = [] then [(g, Sh_Line ls)]
     else map (\<lambda>(pid, s). ((forget pid g)\<lparr>printed := printed g @ [death_line pid s]\<rparr>, Sh_Reap ls)) (zombies g))"

text \<open>The shell over the lines it reads, and the system, in which process \<open>pid\<close> ends with \<open>status pid\<close>.\<close>

definition shell_main :: "shell \<Rightarrow> sh_pc \<Rightarrow> (shell \<times> sh_pc) list" where
  "shell_main g l = (case l of
       Sh_Line [] \<Rightarrow> []
     | Sh_Line (p # ls) \<Rightarrow> (case execute p of
           Change_Dir d \<Rightarrow> [(g\<lparr>chdirs := chdirs g @ (case d of None \<Rightarrow> [] | Some w \<Rightarrow> [w])\<rparr>, Sh_Line ls)]
         | Run p block \<Rightarrow> fork_line p block ls g)
     | Sh_Wait pid ls \<Rightarrow> wait_foreground pid ls g
     | Sh_Reap ls \<Rightarrow> kill_zombie ls g
     | Sh_Kernel \<Rightarrow> [])"

definition children_end :: "(nat \<Rightarrow> 32 word) \<Rightarrow> shell \<Rightarrow> (shell \<times> sh_pc) list" where
  "children_end status g = map (\<lambda>(pid, _). (g\<lparr>kids := map (\<lambda>k. if fst k = pid then (pid, Some (status pid)) else k) (kids g)\<rparr>, Sh_Kernel))
     (filter (\<lambda>k. snd k = None) (kids g))"

definition shell_prog :: "(nat \<Rightarrow> 32 word) \<Rightarrow> (shell, sh_pc) prog" where
  "shell_prog status i g l = (if i = 0 then shell_main g l else children_end status g)"

definition shell_start :: "token list list \<Rightarrow> (shell, sh_pc) sys" where
  "shell_start ls = (\<lparr>kids = [], forked = [], chdirs = [], printed = []\<rparr>, \<lambda>i. if i = 0 then Sh_Line ls else Sh_Kernel)"

section \<open>Every child is waited for once\<close>

definition background :: "shell \<Rightarrow> nat list" where
  "background g = filter (\<lambda>i. \<not> snd (forked g ! i)) [0..<length (forked g)]"

definition announced :: "sh_line list \<Rightarrow> nat list" where
  "announced out = concat (map (\<lambda>x. case x of Job_Started pid \<Rightarrow> [pid] | _ \<Rightarrow> []) out)"

definition buried :: "sh_line list \<Rightarrow> nat list" where
  "buried out = concat (map (\<lambda>x. case x of Job_Finished pid _ \<Rightarrow> [pid] | Job_Killed pid _ \<Rightarrow> [pid] | _ \<Rightarrow> []) out)"

definition deaths :: "sh_line list \<Rightarrow> sh_line list" where
  "deaths out = filter (\<lambda>x. case x of Job_Finished _ _ \<Rightarrow> True | Job_Killed _ _ \<Rightarrow> True | _ \<Rightarrow> False) out"

definition waited :: "sh_pc \<Rightarrow> nat list" where
  "waited l = (case l of Sh_Wait pid _ \<Rightarrow> [pid] | _ \<Rightarrow> [])"

definition still_to_read :: "sh_pc \<Rightarrow> token list list" where
  "still_to_read l = (case l of Sh_Line ls \<Rightarrow> ls | Sh_Wait _ ls \<Rightarrow> ls | Sh_Reap ls \<Rightarrow> ls | Sh_Kernel \<Rightarrow> [])"

definition dirs :: "token list list \<Rightarrow> string list" where
  "dirs ls = concat (map (\<lambda>p. case execute p of Change_Dir (Some w) \<Rightarrow> [w] | _ \<Rightarrow> []) ls)"

definition runs :: "token list list \<Rightarrow> (token list \<times> bool) list" where
  "runs ls = concat (map (\<lambda>p. case execute p of Run q block \<Rightarrow> [(q, block)] | _ \<Rightarrow> []) ls)"

definition jobs_inv :: "(nat \<Rightarrow> 32 word) \<Rightarrow> token list list \<Rightarrow> shell \<Rightarrow> sh_pc \<Rightarrow> bool" where
  "jobs_inv status input g l \<longleftrightarrow> l \<noteq> Sh_Kernel \<and>
     mset (map fst (kids g)) + mset (buried (printed g)) = mset (background g) + mset (waited l) \<and>
     distinct (map fst (kids g)) \<and> set (waited l) \<subseteq> set (map fst (kids g)) \<and>
     (\<forall>pid \<in> set (waited l). pid < length (forked g) \<and> snd (forked g ! pid)) \<and>
     (\<forall>pid s. (pid, Some s) \<in> set (kids g) \<longrightarrow> s = status pid) \<and>
     announced (printed g) = background g \<and>
     deaths (printed g) = map (\<lambda>pid. death_line pid (status pid)) (buried (printed g)) \<and>
     chdirs g @ dirs (still_to_read l) = dirs input \<and> subseq (forked g @ runs (still_to_read l)) (runs input) \<and>
     (Fork_Error \<notin> set (printed g) \<longrightarrow> forked g @ runs (still_to_read l) = runs input)"

lemma printed_simps [simp]:
  "announced (out @ [x]) = announced out @ (case x of Job_Started pid \<Rightarrow> [pid] | _ \<Rightarrow> [])"
  "buried (out @ [x]) = buried out @ (case x of Job_Finished pid _ \<Rightarrow> [pid] | Job_Killed pid _ \<Rightarrow> [pid] | _ \<Rightarrow> [])"
  "deaths (out @ [x]) = deaths out @ (case x of Job_Finished _ _ \<Rightarrow> [x] | Job_Killed _ _ \<Rightarrow> [x] | _ \<Rightarrow> [])"
  by (auto simp: announced_def buried_def deaths_def split: sh_line.split)

lemma death_line_simps [simp]:
  "case_sh_line a b (\<lambda>pid _. c pid) (\<lambda>pid _. c pid) (death_line pid s) = c pid"
  "case_sh_line a b (\<lambda>_ _. e) (\<lambda>_ _. e) (death_line pid s) = e"
  "Fork_Error \<noteq> death_line pid s"
  by (simp_all add: death_line_def)

lemma zombies_set: "(pid, s) \<in> set (zombies g) \<longleftrightarrow> (pid, Some s) \<in> set (kids g)"
  by (force simp: zombies_def split: option.splits)

lemma background_fork:
  "forked g' = forked g @ [(p, block)] \<Longrightarrow> background g' = background g @ (if block then [] else [length (forked g)])"
  by (auto simp: background_def nth_append intro: filter_cong)

lemma background_cong: "forked g' = forked g \<Longrightarrow> background g' = background g"
  by (simp add: background_def)

lemma forget_kids:
  assumes "distinct (map fst (kids g))" and "pid \<in> set (map fst (kids g))"
  shows "mset (map fst (kids g)) = mset (map fst (kids (forget pid g))) + {#pid#}"
    and "distinct (map fst (kids (forget pid g)))" and "set (map fst (kids (forget pid g))) = set (map fst (kids g)) - {pid}"
proof -
  have f: "map fst (kids (forget pid g)) = filter (\<lambda>x. x \<noteq> pid) (map fst (kids g))"
    by (simp add: forget_def filter_map comp_def)
  also have "\<dots> = remove1 pid (map fst (kids g))" unfolding distinct_remove1_removeAll[OF assms(1)] removeAll_filter_not_eq by (rule filter_cong) auto
  finally have r: "map fst (kids (forget pid g)) = remove1 pid (map fst (kids g))" .
  from assms(2) show "mset (map fst (kids g)) = mset (map fst (kids (forget pid g))) + {#pid#}" unfolding r by simp
  from assms(1) show "distinct (map fst (kids (forget pid g)))" unfolding r by (rule distinct_remove1)
  from assms(1) show "set (map fst (kids (forget pid g))) = set (map fst (kids g)) - {pid}" unfolding r by (rule set_remove1_eq)
qed

lemma kids_forked: "jobs_inv status input g l \<Longrightarrow> pid \<in> set (map fst (kids g)) \<Longrightarrow> pid < length (forked g)"
proof -
  assume inv: "jobs_inv status input g l" and pid: "pid \<in> set (map fst (kids g))"
  then have "pid \<in># mset (background g) + mset (waited l)"
    unfolding jobs_inv_def by (metis UnI1 set_mset_mset set_mset_union)
  with inv show ?thesis by (auto simp: jobs_inv_def background_def)
qed

lemma jobs_fork:
  assumes inv: "jobs_inv status input g (Sh_Line (p # ls))" and e: "execute p = Run q block"
    and s: "(g', l') \<in> set (fork_line q block ls g)"
  shows "jobs_inv status input g' l'"
proof -
  let ?pid = "length (forked g)"
  let ?g = "g\<lparr>forked := forked g @ [(q, block)], kids := kids g @ [(?pid, None)]\<rparr>"
  have new: "?pid \<notin> set (map fst (kids g))" using kids_forked[OF inv] by blast
  have bg: "background ?g = background g @ (if block then [] else [?pid])" by (rule background_fork) simp
  have pr: "background (h\<lparr>printed := out\<rparr>) = background h" for h out by (rule background_cong) simp
  from s consider (fg) "block" "g' = ?g" "l' = Sh_Wait ?pid ls"
    | (bg) "\<not> block" "g' = ?g\<lparr>printed := printed g @ [Job_Started ?pid]\<rparr>" "l' = Sh_Reap ls"
    | (no) "g' = g\<lparr>printed := printed g @ [Fork_Error]\<rparr>" "l' = Sh_Line ls"
    by (auto simp: fork_line_def Let_def split: if_splits)
  then show ?thesis
  proof cases
    case fg
    with inv e new bg show ?thesis by (auto simp: jobs_inv_def waited_def still_to_read_def dirs_def runs_def)
  next
    case bg': bg
    with inv e new bg show ?thesis by (auto simp: jobs_inv_def waited_def still_to_read_def dirs_def runs_def pr)
  next
    case no
    have "subseq (forked g @ runs ls) (forked g @ runs (p # ls))" by (rule list_emb_append_mono) (simp_all add: runs_def list_emb_append2)
    moreover have "subseq (forked g @ runs (p # ls)) (runs input)" using inv by (simp add: jobs_inv_def still_to_read_def)
    ultimately have "subseq (forked g @ runs ls) (runs input)" by (rule subseq_order.order_trans)
    with no inv e show ?thesis by (auto simp: jobs_inv_def waited_def still_to_read_def dirs_def pr)
  qed
qed

lemma jobs_forget:
  assumes inv: "jobs_inv status input g l" and pid: "pid \<in> set (map fst (kids g))"
  shows "mset (map fst (kids (forget pid g))) + mset (buried (printed g)) + {#pid#} = mset (background g) + mset (waited l)"
    "distinct (map fst (kids (forget pid g)))" "\<forall>i s. (i, Some s) \<in> set (kids (forget pid g)) \<longrightarrow> s = status i"
    "background (forget pid g) = background g" "forked (forget pid g) = forked g" "chdirs (forget pid g) = chdirs g"
    "printed (forget pid g) = printed g" "set (map fst (kids (forget pid g))) = set (map fst (kids g)) - {pid}"
proof -
  have d: "distinct (map fst (kids g))" using inv by (simp add: jobs_inv_def)
  note f = forget_kids[OF d pid]
  show "distinct (map fst (kids (forget pid g)))" "set (map fst (kids (forget pid g))) = set (map fst (kids g)) - {pid}" by (rule f)+
  show "mset (map fst (kids (forget pid g))) + mset (buried (printed g)) + {#pid#} = mset (background g) + mset (waited l)"
    using inv f(1) by (simp add: jobs_inv_def)
  show "\<forall>i s. (i, Some s) \<in> set (kids (forget pid g)) \<longrightarrow> s = status i" using inv by (simp add: jobs_inv_def forget_def)
  show "background (forget pid g) = background g" by (rule background_cong) (simp add: forget_def)
qed (simp_all add: forget_def)

lemma jobs_wait:
  assumes inv: "jobs_inv status input g (Sh_Wait pid ls)" and s: "(g', l') \<in> set (wait_foreground pid ls g)"
  shows "jobs_inv status input g' l'"
proof -
  have pid: "pid \<in> set (map fst (kids g))" using inv by (simp add: jobs_inv_def waited_def)
  then obtain st where st: "map_of (kids g) pid = Some (Some st)" "g' = forget pid g" "l' = Sh_Reap ls"
    using s by (auto simp: wait_foreground_def map_of_eq_None_iff split: option.splits)
  note f = jobs_forget[OF inv pid]
  have "mset (map fst (kids g')) + mset (buried (printed g')) = mset (background g')"
    using f(1) unfolding st(2) f(4,7) by (simp add: waited_def)
  with inv f(2,3) show ?thesis
    unfolding jobs_inv_def st(2,3) f(4-7) by (simp add: waited_def still_to_read_def)
qed

lemma jobs_reap:
  assumes inv: "jobs_inv status input g (Sh_Reap ls)" and s: "(g', l') \<in> set (kill_zombie ls g)"
  shows "jobs_inv status input g' l'"
proof (cases "zombies g = []")
  case True
  with inv s show ?thesis by (simp add: kill_zombie_def jobs_inv_def waited_def still_to_read_def)
next
  case False
  with s obtain pid st where z: "(pid, Some st) \<in> set (kids g)" "l' = Sh_Reap ls"
    "g' = (forget pid g)\<lparr>printed := printed g @ [death_line pid st]\<rparr>"
    by (auto simp: kill_zombie_def zombies_set)
  have pid: "pid \<in> set (map fst (kids g))" using imageI[OF z(1), of fst] by simp
  have st: "st = status pid" using inv z(1) unfolding jobs_inv_def by blast
  note f = jobs_forget[OF inv pid]
  have g': "kids g' = kids (forget pid g)" "chdirs g' = chdirs g" "forked g' = forked g"
    "printed g' = printed g @ [death_line pid (status pid)]" by (simp_all add: z(3) st f(5,6))
  have b: "background g' = background g" by (rule background_cong) (rule g')
  have "mset (map fst (kids g')) + mset (buried (printed g')) = mset (background g')"
    using f(1) unfolding g' b by (simp add: waited_def)
  with inv f(2,3) show ?thesis
    unfolding jobs_inv_def z(2) g' b by (simp add: waited_def still_to_read_def)
qed

lemma jobs_end:
  assumes inv: "jobs_inv status input g l" and s: "(g', l') \<in> set (children_end status g)"
  shows "jobs_inv status input g' l"
proof -
  obtain pid where g': "g' = g\<lparr>kids := map (\<lambda>k. if fst k = pid then (pid, Some (status pid)) else k) (kids g)\<rparr>"
    using s by (auto simp: children_end_def)
  then have m: "map fst (kids g') = map fst (kids g)" by (auto simp: comp_def intro!: map_cong)
  have "\<forall>i s. (i, Some s) \<in> set (kids g') \<longrightarrow> s = status i" using inv g' by (auto simp: jobs_inv_def)
  moreover have "background g' = background g" by (rule background_cong) (simp add: g')
  moreover have "forked g' = forked g" "chdirs g' = chdirs g" "printed g' = printed g" by (simp_all add: g')
  ultimately show ?thesis using inv unfolding jobs_inv_def m by simp
qed

lemma jobs_shell:
  assumes inv: "jobs_inv status input g l" and s: "(g', l') \<in> set (shell_main g l)"
  shows "jobs_inv status input g' l'"
proof (cases l)
  case (Sh_Line ls)
  show ?thesis
  proof (cases ls)
    case Nil
    with Sh_Line s show ?thesis by (simp add: shell_main_def)
  next
    case (Cons p ls')
    show ?thesis
    proof (cases "execute p")
      case (Change_Dir d)
      with Sh_Line Cons s have g': "g' = g\<lparr>chdirs := chdirs g @ (case d of None \<Rightarrow> [] | Some w \<Rightarrow> [w])\<rparr>" "l' = Sh_Line ls'"
        by (simp_all add: shell_main_def)
      have "background g' = background g" by (rule background_cong) (simp add: g')
      with inv Sh_Line Cons g' Change_Dir show ?thesis
        by (auto simp: jobs_inv_def waited_def still_to_read_def dirs_def runs_def split: option.splits)
    next
      case (Run q block)
      with Sh_Line Cons s inv jobs_fork[of status input g p ls' q block g' l'] show ?thesis by (simp add: shell_main_def)
    qed
  qed
next
  case (Sh_Wait pid ls)
  with inv s jobs_wait show ?thesis by (simp add: shell_main_def)
next
  case (Sh_Reap ls)
  with inv s jobs_reap show ?thesis by (simp add: shell_main_def)
next
  case Sh_Kernel
  with s show ?thesis by (simp add: shell_main_def)
qed

interpretation sj: invariant "shell_prog status" 2 "shell_start input" "\<lambda>g ls. jobs_inv status input g (ls 0)" for status input
proof
  show "jobs_inv status input (fst (shell_start input)) (snd (shell_start input) 0)"
    by (simp add: jobs_inv_def shell_start_def background_def waited_def still_to_read_def announced_def buried_def deaths_def)
  fix g ls i g' l'
  assume inv: "jobs_inv status input g (ls 0)" and i: "i < 2" and s: "(g', l') \<in> set (shell_prog status i g (ls i))"
  then show "jobs_inv status input g' ((ls(i := l')) 0)"
    by (cases "i = 0") (auto simp: shell_prog_def intro: jobs_shell jobs_end)
qed

section \<open>What is executed\<close>

lemma execute_run:
  assumes "execute l = Run q block" and "l \<noteq> []" and "operators_ok False l"
  shows "q \<noteq> [] \<and> operators_ok False q \<and> l = q @ (if block then [] else [Tok ''&'' SPEC_FIRST])"
proof -
  obtain b l' where c: "check_block l = (b, l')" by force
  then have e: "b = block" "q = l'" using assms(1) by (auto simp: execute_def execute_cd_def split: option.splits list.splits if_splits)
  show ?thesis
  proof (cases "length l < 2 \<or> \<not> op_at (last l) ''&'' SPEC_FIRST")
    case True
    with c e assms(2,3) show ?thesis by (auto simp: check_block_def split: if_splits)
  next
    case False
    with c e have q: "q = butlast l" "\<not> block" by (auto simp: check_block_def)
    have l: "l = butlast l @ [last l]" using assms(2) by simp
    then have "operators_ok False (butlast l)" "operators_ok (ends_spec False (butlast l)) [last l]"
      using assms(3) by (metis operators_ok_append)+
    moreover have "butlast l \<noteq> []" using False by (cases l) (auto simp: not_less)
    moreover have "last l = Tok ''&'' SPEC_FIRST"
      using False calculation(2) by (cases "last l") (auto simp: op_at_def word_is_def c_str_def split: if_splits)
    ultimately show ?thesis using q l by simp
  qed
qed

lemma runs_member: "(q, block) \<in> set (runs ls) \<Longrightarrow> \<exists>l \<in> set ls. execute l = Run q block"
  by (auto simp: runs_def split: action.splits)

lemma forked_lines:
  assumes "jobs_inv status (lx_out s) g l" and "lex_input cs lex_init = ret s" and "(q, block) \<in> set (forked g)"
  shows "q \<noteq> [] \<and> operators_ok False q"
proof -
  have "subseq (forked g @ runs (still_to_read l)) (runs (lx_out s))" using assms(1) by (simp add: jobs_inv_def)
  then have "set (forked g) \<subseteq> set (runs (lx_out s))" by (auto dest: list_emb_set simp: subset_iff)
  then obtain l where "l \<in> set (lx_out s)" "execute l = Run q block" using assms(3) runs_member by blast
  with lines_read_ok[OF assms(2)] execute_run show ?thesis by blast
qed

lemma shell_blocked: "l \<noteq> Sh_Kernel \<Longrightarrow> shell_main g l = [] \<Longrightarrow> l = Sh_Line [] \<or> (\<exists>pid ls. l = Sh_Wait pid ls \<and> (pid, None) \<in> set (kids g))"
  by (auto simp: shell_main_def fork_line_def wait_foreground_def kill_zombie_def Let_def dest: map_of_SomeD
      split: sh_pc.splits list.splits action.splits option.splits if_splits)

section \<open>Properties\<close>

text \<open>C18: the exit status of the process that runs a line is the value of the line under left-to-right short-circuit evaluation,
  where a pipeline counts as the exit code of its last command, in whatever order the commands of each pipeline
  end; the status keeps the value modulo 256.\<close>

theorem line_status:
  assumes "waits_ok pids waits"
  shows "WIFEXITED (fst (line_process openable pids waits p T)) \<and> WEXITSTATUS (fst (line_process openable pids waits p T)) =
    fst (short_circuit (last_code pids waits) LOGIC_LAST (parse_logic p) 0 0) mod 256"
  unfolding line_process_status[OF assms] by (simp add: exit_status_read)

definition demo_waits :: "nat \<Rightarrow> token list \<Rightarrow> (nat \<times> 32 word) list" where
  "demo_waits k p = map (\<lambda>i. (i, exit_status (int k + 3))) [0..<length (fst (pipeline_commands p))]"

definition demo_or :: "token list" where
  "demo_or = [Tok ''a'' SPEC_DEFAULT, Tok ''|'' SPEC_FIRST, Tok ''|'' SPEC_SECOND, Tok ''b'' SPEC_DEFAULT]"

theorem line_status_witness:
  "WEXITSTATUS (fst (line_process (\<lambda>_ _. True) (\<lambda>_ i. i) demo_waits demo_or three_std)) = 4"
proof -
  have "waits_ok (\<lambda>_ i. i) demo_waits" by (simp add: waits_ok_def demo_waits_def comp_def)
  from line_status[OF this, of "\<lambda>_ _. True" demo_or three_std]
  have "WEXITSTATUS (fst (line_process (\<lambda>_ _. True) (\<lambda>_ i. i) demo_waits demo_or three_std)) =
      fst (short_circuit (last_code (\<lambda>_ i. i) demo_waits) LOGIC_LAST (parse_logic demo_or) 0 0) mod 256" by simp
  also have "\<dots> = 4" by code_simp
  finally show ?thesis .
qed

text \<open>C17: whatever is typed, whenever the children end and whichever forks fail: the processes not yet waited for and those
  reported are the background processes and the one in the foreground, each once; every background
  process is announced, in order, and every report gives the status its process ended with; the processes are
  those of the lines, well-formed ones, without any missing unless a fork failed; and the shell stands still only
  at the end of its input or while the process in the foreground runs.\<close>

theorem shell_jobs_accounted:
  assumes "lex_input cs lex_init = ret s" and "reach (shell_prog status) 2 (shell_start (lx_out s)) (g, ls)"
  shows "mset (map fst (kids g)) + mset (buried (printed g)) = mset (background g) + mset (waited (ls 0)) \<and>
    announced (printed g) = background g \<and>
    deaths (printed g) = map (\<lambda>pid. death_line pid (status pid)) (buried (printed g)) \<and>
    list_all (\<lambda>(q, _). q \<noteq> [] \<and> operators_ok False q) (forked g) \<and>
    (Fork_Error \<in> set (printed g) \<or> forked g @ runs (still_to_read (ls 0)) = runs (lx_out s)) \<and>
    (shell_main g (ls 0) \<noteq> [] \<or> ls 0 = Sh_Line [] \<or> (\<exists>pid rest. ls 0 = Sh_Wait pid rest \<and> (pid, None) \<in> set (kids g)))"
proof -
  have inv: "jobs_inv status (lx_out s) g (ls 0)" by (rule sj.reach_inv[OF assms(2)])
  have "list_all (\<lambda>(q, _). q \<noteq> [] \<and> operators_ok False q) (forked g)"
    using forked_lines[OF inv assms(1)] by (auto simp: list_all_iff)
  moreover have "shell_main g (ls 0) \<noteq> [] \<or> ls 0 = Sh_Line [] \<or> (\<exists>pid rest. ls 0 = Sh_Wait pid rest \<and> (pid, None) \<in> set (kids g))"
    using shell_blocked[of "ls 0" g] inv by (auto simp: jobs_inv_def)
  ultimately show ?thesis using inv unfolding jobs_inv_def by blast
qed

definition two_lines :: string where
  "two_lines = ''a &'' @ [nl] @ ''b'' @ [nl]"

definition demo_schedule :: "(nat \<times> nat) list" where
  "demo_schedule = [(0, 0), (0, 0), (0, 0), (1, 0), (1, 0), (0, 0), (0, 0), (0, 0)]"

theorem shell_jobs_accounted_witness:
  "\<exists>g ls. reach (shell_prog (\<lambda>pid. exit_status 3)) 2 (shell_start (rd_out (rd_input two_lines rd_init))) (g, ls) \<and>
    ls 0 = Sh_Line [] \<and> buried (printed g) = [0] \<and> deaths (printed g) = [Job_Finished 0 3]"
proof -
  let ?P = "shell_prog (\<lambda>pid. exit_status 3)" and ?in = "rd_out (rd_input two_lines rd_init)"
  obtain s where s: "lex_input two_lines lex_init = ret s" "lx_out s = ?in"
    using lex_input_reads[OF reads_init, of two_lines] by (auto simp: reads_def elim!: wpE)
  have "case exec ?P demo_schedule (shell_start ?in) of None \<Rightarrow> False
      | Some (g, ls) \<Rightarrow> ls 0 = Sh_Line [] \<and> buried (printed g) = [0]" by code_simp
  then obtain g ls where e: "exec ?P demo_schedule (shell_start ?in) = Some (g, ls)" "ls 0 = Sh_Line []" "buried (printed g) = [0]"
    by (auto split: option.splits)
  have r: "reach ?P 2 (shell_start ?in) (g, ls)"
    by (rule exec_reach[OF e(1)]) (simp add: demo_schedule_def)
  from shell_jobs_accounted[OF s(1), unfolded s(2), OF r] e
  have "deaths (printed g) = [death_line 0 (exit_status 3)]" by simp
  with r e(2,3) show ?thesis by (auto simp: death_line_def exit_status_read)
qed

text \<open>At the end of the input the shell waits for nobody: a process in the background that is still running is never
  reported.\<close>

lemma shell_leaves_jobs:
  "\<exists>g ls. reach (shell_prog status) 2 (shell_start [[Tok ''a'' SPEC_DEFAULT, Tok ''&'' SPEC_FIRST]]) (g, ls) \<and>
    ls 0 = Sh_Line [] \<and> kids g = [(0, None)] \<and> deaths (printed g) = []"
proof -
  let ?l = "[Tok ''a'' SPEC_DEFAULT, Tok ''&'' SPEC_FIRST]"
  have x: "execute ?l = Run [Tok ''a'' SPEC_DEFAULT] False" by code_simp
  have "\<exists>ls. exec (shell_prog status) [(0, 0), (0, 0)] (shell_start [?l]) =
      Some (\<lparr>kids = [(0, None)], forked = [([Tok ''a'' SPEC_DEFAULT], False)], chdirs = [], printed = [Job_Started 0]\<rparr>, ls) \<and> ls 0 = Sh_Line []"
    by (simp add: shell_prog_def shell_start_def shell_main_def x fork_line_def kill_zombie_def zombies_def Let_def)
  then obtain ls where e: "exec (shell_prog status) [(0, 0), (0, 0)] (shell_start [?l]) =
      Some (\<lparr>kids = [(0, None)], forked = [([Tok ''a'' SPEC_DEFAULT], False)], chdirs = [], printed = [Job_Started 0]\<rparr>, ls)"
    "ls 0 = Sh_Line []" by blast
  have "reach (shell_prog status) 2 (shell_start [?l]) (\<lparr>kids = [(0, None)], forked = [([Tok ''a'' SPEC_DEFAULT], False)],
      chdirs = [], printed = [Job_Started 0]\<rparr>, ls)" by (rule exec_reach[OF e(1)]) simp
  with e(2) show ?thesis
    by (intro exI[of _ "\<lparr>kids = [(0, None)], forked = [([Tok ''a'' SPEC_DEFAULT], False)], chdirs = [], printed = [Job_Started 0]\<rparr>"]
        exI[of _ ls]) (simp add: deaths_def)
qed

end
