(* ===== verification/Server_Start.thy ===== *)
theory Server_Start
  imports More_Servers Sockets
begin

text \<open>
  The servers and clients of \<^verbatim>\<open>lecture_examples/9_aio\<close>, \<^verbatim>\<open>7_ipc/15_sock_server.c\<close> and \<^verbatim>\<open>8_net\<close> as whole programs: the calls that
  make a socket with their errors, the main loops of theories \<^verbatim>\<open>Servers\<close> and \<^verbatim>\<open>More_Servers\<close>, the closing of the
  descriptors, the loop that starts a thread per client, and the loops of a client and of such a thread over
  whatever \<^verbatim>\<open>read\<close> and \<^verbatim>\<open>write\<close> answer. A program that stops tells why and which descriptors it leaves open.
\<close>

section \<open>Making a socket\<close>

text \<open>What the calls of the start return; \<open>c_queue\<close> is \<^verbatim>\<open>epoll_create\<close> or \<^verbatim>\<open>kqueue\<close>, \<open>c_watch\<close> adds the listening socket to it.\<close>

record calls =
  c_socket :: int
  c_bind :: int
  c_listen :: int
  c_queue :: int
  c_watch :: int

datatype stage = Socket_Error | Bind_Error | Listen_Error | Queue_Error | Watch_Error

type_synonym 'a start = "(stage \<times> int list) + 'a"

definition listen_on :: "calls \<Rightarrow> int start" where
  "listen_on A = (let server = c_socket A in
     if server = - 1 then Inl (Socket_Error, [])
     else if c_bind A \<noteq> 0 then Inl (Bind_Error, [server])
     else if c_listen A = - 1 then Inl (Listen_Error, [server])
     else Inr server)"

definition epoll_open :: "calls \<Rightarrow> (int \<times> int) start" where
  "epoll_open A = (case listen_on A of Inl e \<Rightarrow> Inl e | Inr server \<Rightarrow> let ep = c_queue A in
     if ep = - 1 then Inl (Queue_Error, remove1 server [server])
     else if c_watch A = - 1 then Inl (Watch_Error, remove1 server [server, ep])
     else Inr (server, ep))"

definition kqueue_open :: "calls \<Rightarrow> (int \<times> int) start" where
  "kqueue_open A = (case listen_on A of Inl e \<Rightarrow> Inl e | Inr server \<Rightarrow> let kq = c_queue A in
     if kq = - 1 then Inl (Queue_Error, remove1 server [server])
     else if c_watch A = - 1 then Inl (Watch_Error, remove1 server [server, kq])
     else Inr (server, kq))"

section \<open>Whole servers\<close>

text \<open>\<open>Failed_Start\<close> is the exit with -1; \<open>Serving\<close> a server whose answers have run out, \<open>Stopped\<close> the exit with 0.\<close>

datatype server_state =
    Failed_Start stage "int list"
  | Serving "int list" "event list"
  | Stopped "int list" "event list"

definition select_program :: "calls \<Rightarrow> turn list \<Rightarrow> server_state run" where
  "select_program A Ts = (case listen_on A of Inl (e, open) \<Rightarrow> ret (Failed_Start e open)
     | Inr server \<Rightarrow> bnd (select_main server Ts (select_start server)) (\<lambda>(on, s).
         ret ((if on then Serving else Stopped) (opened s) (events s))))"

text \<open>The poll server with its open descriptors. \<^verbatim>\<open>accept\<close> is called when the first entry is ready.\<close>

definition poll_accepts :: "turn \<Rightarrow> poll_server \<Rightarrow> bool" where
  "poll_accepts T s \<longleftrightarrow> t_nfds T \<noteq> 0 \<and> t_nfds T \<noteq> - 1 \<and> t_ready T (fd (hd (fds s))) \<and> t_accept T \<noteq> - 1"

fun poll_main :: "(nat \<Rightarrow> bool) \<Rightarrow> turn list \<Rightarrow> poll_server \<Rightarrow> int list \<Rightarrow> bool \<times> poll_server \<times> int list" where
  "poll_main garbage [] s open = (True, s, open)"
| "poll_main garbage (T # Ts) s open =
     (let open = open @ (if poll_accepts T s then [t_accept T] else []);
          (on, s) = poll_turn (garbage (length Ts)) T s in
      if on then poll_main garbage Ts s open else (False, s, open))"

definition poll_program :: "(nat \<Rightarrow> bool) \<Rightarrow> calls \<Rightarrow> turn list \<Rightarrow> server_state" where
  "poll_program garbage A Ts = (case listen_on A of Inl (e, open) \<Rightarrow> Failed_Start e open
     | Inr server \<Rightarrow> let (on, s, open) = poll_main garbage Ts (poll_start server) [server] in
         if on then Serving open (poll_events s)
         else Stopped (remove1 server (fold (\<lambda>p. remove1 (fd p)) (fds s) open)) (poll_events s))"

definition epoll_program :: "calls \<Rightarrow> (int \<times> int \<times> turn) list \<Rightarrow> server_state" where
  "epoll_program A Ts = (case epoll_open A of Inl (e, open) \<Rightarrow> Failed_Start e open
     | Inr (server, ep) \<Rightarrow> let (on, s) = epoll_loop server Ts (epoll_start server) in
         if on then Serving (ep # ep_opened s) (ep_events s)
         else Stopped (remove1 server (remove1 ep (ep # ep_opened s))) (ep_events s))"

definition kqueue_program :: "calls \<Rightarrow> (int \<times> bool \<times> int \<times> turn) list \<Rightarrow> server_state" where
  "kqueue_program A Ts = (case kqueue_open A of Inl (e, open) \<Rightarrow> Failed_Start e open
     | Inr (server, kq) \<Rightarrow> let (on, s) = kqueue_loop server Ts (epoll_start server) in
         if on then Serving (kq # ep_opened s) (ep_events s)
         else Stopped (remove1 server (remove1 kq (kq # ep_opened s))) (ep_events s))"

section \<open>What a server leaves open\<close>

lemma mset_remove_client: "i < length cl \<Longrightarrow> mset cl = add_mset (cl ! i) (mset (remove_client cl i))"
proof -
  assume i: "i < length cl"
  then have "remove_client cl i = take i cl @ drop (i + 1) cl" by (simp add: remove_client_def)
  moreover have "cl = take i cl @ cl ! i # drop (i + 1) cl" using i by (simp add: id_take_nth_drop)
  then have "mset cl = mset (take i cl) + add_mset (cl ! i) (mset (drop (i + 1) cl))" by (metis mset.simps(2) mset_append)
  ultimately show ?thesis by simp
qed

lemma map_remove_client: "map f (remove_client cl i) = remove_client (map f cl) i"
  by (simp add: remove_client_def Let_def take_map drop_map)

definition poll_kept :: "poll_server \<Rightarrow> int multiset" where
  "poll_kept s = mset (map fd (fds s)) + mset (gone (poll_events s))"

lemma serve_fds_kept: "poll_kept (serve_fds T i n s) = poll_kept s"
proof (induction T i n s rule: serve_fds.induct)
  case (1 T i n s)
  show ?case
  proof (cases "i < length (fds s) \<and> n > 0 \<and> revents (fds s ! i)")
    case False
    with 1 show ?thesis by (subst serve_fds.simps) (auto simp: Let_def)
  next
    case True
    obtain rc out where io: "interact T (fd (fds s ! i)) = (rc, out)" by force
    let ?s = "s\<lparr>poll_events := poll_events s @ Interact (fd (fds s ! i)) # out\<rparr>"
    have k: "poll_kept ?s = poll_kept s" using io by (simp add: poll_kept_def)
    show ?thesis
    proof (cases "rc = 0")
      case rc: True
      let ?s' = "?s\<lparr>poll_events := poll_events ?s @ [Disconnected (fd (fds s ! i))], fds := remove_client (fds s) i\<rparr>"
      have "mset (map fd (fds s)) = add_mset (fd (fds s ! i)) (mset (map fd (remove_client (fds s) i)))"
        using True mset_remove_client[of i "map fd (fds s)"] by (simp add: map_remove_client)
      with io have "poll_kept ?s' = poll_kept s" by (simp add: poll_kept_def)
      with 1 True io rc show ?thesis by (subst serve_fds.simps) (simp add: Let_def)
    next
      case False
      with 1 True io k show ?thesis by (subst serve_fds.simps) (auto simp: Let_def poll_kept_def)
    qed
  qed
qed

lemma poll_turn_kept:
  assumes "poll_turn garbage T s = (on, s')" and "fds s \<noteq> []"
  shows "poll_kept s' = poll_kept s + (if poll_accepts T s then {#t_accept T#} else {#})"
proof -
  let ?s = "s\<lparr>fds := poll_results T (fds s)\<rparr>"
  have m: "map fd (poll_results T (fds s)) = map fd (fds s)" by (simp add: poll_results_def comp_def)
  have h: "revents (hd (poll_results T (fds s))) = t_ready T (fd (hd (fds s)))"
    using assms(2) by (cases "fds s") (simp_all add: poll_results_def)
  have e: "poll_kept (?s\<lparr>poll_events := poll_events s @ [x]\<rparr>) = poll_kept s" if "x = Timeout \<or> x = Failed" for x
    using m that by (auto simp: poll_kept_def simp flip: mset_map)
  have a: "poll_kept (?s\<lparr>poll_events := poll_events s @ [New_Client], fds := poll_results T (fds s) @ [\<lparr>fd = c, revents = g\<rparr>]\<rparr>) =
      poll_kept s + {#c#}" for c g
    using m by (auto simp: poll_kept_def simp flip: mset_map)
  have k: "poll_kept ?s = poll_kept s" using m by (auto simp: poll_kept_def simp flip: mset_map)
  show ?thesis
    using assms(1) h e a k by (auto simp: poll_turn_def poll_accepts_def Let_def serve_fds_kept split: if_splits)
qed

text \<open>\<^verbatim>\<open>read\<close> fails on the listening socket, so its entry stays the first one.\<close>

definition listener_first :: "int \<Rightarrow> poll_server \<Rightarrow> bool" where
  "listener_first server s \<longleftrightarrow> fds s \<noteq> [] \<and> fd (hd (fds s)) = server"

lemma hd_remove_client: "i < length cl \<Longrightarrow> i \<noteq> 0 \<Longrightarrow> remove_client cl i \<noteq> [] \<and> hd (remove_client cl i) = hd cl"
  by (cases cl; cases i) (auto simp: remove_client_def)

lemma serve_fds_first:
  "fst (t_read T server) = - 1 \<Longrightarrow> listener_first server s \<Longrightarrow> listener_first server (serve_fds T i n s)"
proof (induction T i n s rule: serve_fds.induct)
  case (1 T i n s)
  show ?case
  proof (cases "i < length (fds s) \<and> n > 0 \<and> revents (fds s ! i)")
    case False
    with 1 show ?thesis by (subst serve_fds.simps) (auto simp: Let_def)
  next
    case True
    obtain rc out where io: "interact T (fd (fds s ! i)) = (rc, out)" by force
    show ?thesis
    proof (cases "rc = 0")
      case rc: True
      have "i \<noteq> 0"
      proof
        assume "i = 0"
        with "1.prems" True have "fd (fds s ! i) = server" by (simp add: listener_first_def flip: hd_conv_nth)
        with io "1.prems"(1) rc show False by (auto simp: interact_def split: prod.splits)
      qed
      let ?s = "s\<lparr>poll_events := (poll_events s @ Interact (fd (fds s ! i)) # out) @ [Disconnected (fd (fds s ! i))],
        fds := remove_client (fds s) i\<rparr>"
      have "listener_first server ?s"
        using "1.prems"(2) True hd_remove_client[of i "fds s"] \<open>i \<noteq> 0\<close> by (simp add: listener_first_def)
      with 1 True io rc show ?thesis by (subst serve_fds.simps) (simp add: Let_def)
    next
      case False
      with 1 True io show ?thesis by (subst serve_fds.simps) (auto simp: Let_def listener_first_def)
    qed
  qed
qed

lemma poll_turn_first:
  assumes "poll_turn garbage T s = (on, s')" and "listener_first server s" and "fst (t_read T server) = - 1"
  shows "listener_first server s'"
proof -
  have m: "listener_first server (s\<lparr>fds := poll_results T (fds s), poll_events := es\<rparr>)"
    "listener_first server (s\<lparr>poll_events := es, fds := poll_results T (fds s) @ ps\<rparr>)"
    "listener_first server (s\<lparr>fds := poll_results T (fds s)\<rparr>)" for es ps
    using assms(2) by (cases "fds s"; simp add: listener_first_def poll_results_def)+
  show ?thesis
    using assms(1,3) m by (auto simp: poll_turn_def Let_def split: if_splits intro!: serve_fds_first)
qed

lemma poll_main_kept:
  assumes "poll_main garbage Ts s open = (on, s', open')" and "mset open = poll_kept s" and "listener_first server s"
    and "\<forall>T \<in> set Ts. fst (t_read T server) = - 1"
  shows "mset open' = poll_kept s' \<and> listener_first server s'"
  using assms
proof (induction Ts arbitrary: s "open")
  case (Cons T Ts)
  let ?open = "open @ (if poll_accepts T s then [t_accept T] else [])"
  obtain on1 s1 where t: "poll_turn (garbage (length Ts)) T s = (on1, s1)" by force
  have "fds s \<noteq> []" using Cons.prems(3) by (simp add: listener_first_def)
  from poll_turn_kept[OF t this] Cons.prems(2) have k: "mset ?open = poll_kept s1" by simp
  have f: "listener_first server s1" by (rule poll_turn_first[OF t Cons.prems(3)]) (use Cons.prems(4) in simp)
  show ?case
  proof (cases on1)
    case True
    with Cons.prems(1) t have "poll_main garbage Ts s1 ?open = (on, s', open')" by (simp add: Let_def)
    from Cons.IH[OF this k f] Cons.prems(4) show ?thesis by simp
  next
    case False
    with Cons.prems(1) t k f show ?thesis by (simp add: Let_def)
  qed
qed simp

lemma mset_close_all: "mset (fold (\<lambda>p. remove1 (f p)) ps xs) = mset xs - mset (map f ps)"
  by (induction ps arbitrary: xs) simp_all

lemma listen_on_fails:
  "listen_on A = Inl (e, open) \<Longrightarrow> (if e = Socket_Error then open = [] else open = [c_socket A]) \<and> e \<in> {Socket_Error, Bind_Error, Listen_Error}"
  by (auto simp: listen_on_def Let_def split: if_splits)

text \<open>The poll server, as the select server, closes everything but the clients that have gone; the listening socket is closed
  a second time.\<close>

lemma poll_leaves_open:
  assumes "listen_on A = Inr server" and "\<forall>T \<in> set Ts. fst (t_read T server) = - 1"
  shows "case poll_program garbage A Ts of Failed_Start e open \<Rightarrow> False
    | Serving open es \<Rightarrow> \<exists>live. mset open = add_mset server live + mset (gone es)
    | Stopped open es \<Rightarrow> mset open = mset (gone es) - {#server#}"
proof -
  obtain on s "open" where m: "poll_main garbage Ts (poll_start server) [server] = (on, s, open)" by (metis prod_cases3)
  have "mset [server] = poll_kept (poll_start server)" "listener_first server (poll_start server)"
    by (simp_all add: poll_kept_def poll_start_def listener_first_def)
  from poll_main_kept[OF m this assms(2)] have k: "mset open = poll_kept s" "listener_first server s" by simp_all
  then have h: "mset (map fd (fds s)) = add_mset server (mset (map fd (tl (fds s))))"
    by (cases "fds s") (auto simp: listener_first_def)
  show ?thesis
  proof (cases "on")
    case True
    from k(1) h have "mset open = add_mset server (mset (map fd (tl (fds s)))) + mset (gone (poll_events s))"
      by (simp add: poll_kept_def)
    with True m assms(1) show ?thesis by (auto simp: poll_program_def)
  next
    case False
    have "mset (remove1 server (fold (\<lambda>p. remove1 (fd p)) (fds s) open)) = mset (gone (poll_events s)) - {#server#}"
      using k(1) by (simp add: mset_close_all poll_kept_def)
    with False m assms(1) show ?thesis by (simp add: poll_program_def)
  qed
qed

text \<open>The servers with epoll and kqueue close the clients that have gone; when they stop, those that are still there stay open.\<close>

lemma epoll_turn_stops:
  assumes "epoll_turn server ready ctl T s = (False, s')" and "mset (ep_opened s) = add_mset server (mset (watched s))"
  shows "\<exists>new. size new \<le> 1 \<and> mset (ep_opened s') = add_mset server (mset (watched s')) + new"
  using assms by (auto simp: epoll_turn_def Let_def split: if_splits prod.splits intro: exI[of _ "{#}"] exI[of _ "{#t_accept T#}"])

lemma kqueue_turn_stops:
  assumes "kqueue_turn server ident eof ctl T s = (False, s')" and "mset (ep_opened s) = add_mset server (mset (watched s))"
  shows "\<exists>new. size new \<le> 1 \<and> mset (ep_opened s') = add_mset server (mset (watched s')) + new"
  using assms by (auto simp: kqueue_turn_def Let_def split: if_splits prod.splits intro: exI[of _ "{#}"] exI[of _ "{#t_accept T#}"])

lemma epoll_loop_stops:
  "epoll_loop server Ts s = (False, s') \<Longrightarrow> mset (ep_opened s) = add_mset server (mset (watched s)) \<Longrightarrow>
    \<exists>new. size new \<le> 1 \<and> mset (ep_opened s') = add_mset server (mset (watched s')) + new"
proof (induction Ts arbitrary: s)
  case (Cons x Ts)
  obtain ready ctl T where x: "x = (ready, ctl, T)" by (cases x)
  obtain on s1 where t: "epoll_turn server ready ctl T s = (on, s1)" by force
  show ?case
  proof (cases "on")
    case True
    with Cons t x epoll_turn_accounted[of server ready ctl T s s1] show ?thesis by simp
  next
    case False
    with Cons.prems t x epoll_turn_stops show ?thesis by (cases "on") auto
  qed
qed simp

lemma kqueue_loop_stops:
  "kqueue_loop server Ts s = (False, s') \<Longrightarrow> mset (ep_opened s) = add_mset server (mset (watched s)) \<Longrightarrow>
    \<exists>new. size new \<le> 1 \<and> mset (ep_opened s') = add_mset server (mset (watched s')) + new"
proof (induction Ts arbitrary: s)
  case (Cons x Ts)
  obtain ident eof ctl T where x: "x = (ident, eof, ctl, T)" by (cases x)
  obtain on s1 where t: "kqueue_turn server ident eof ctl T s = (on, s1)" by force
  show ?case
  proof (cases "on")
    case True
    with Cons t x kqueue_turn_accounted[of server ident eof ctl T s s1] show ?thesis by simp
  next
    case False
    with Cons.prems t x kqueue_turn_stops show ?thesis by (cases "on") auto
  qed
qed simp

definition watching :: "int \<Rightarrow> int \<Rightarrow> epoll_server \<Rightarrow> server_state \<Rightarrow> bool" where
  "watching server q s r \<longleftrightarrow> (case r of Failed_Start e open \<Rightarrow> False
     | Serving open es \<Rightarrow> es = ep_events s \<and> mset open = {#q, server#} + mset (watched s)
     | Stopped open es \<Rightarrow> es = ep_events s \<and> (\<exists>new. size new \<le> 1 \<and> mset open = mset (watched s) + new))"

lemma epoll_leaves_open:
  assumes "epoll_open A = Inr (server, ep)"
  shows "\<exists>s. watching server ep s (epoll_program A Ts)"
proof -
  obtain on s where l: "epoll_loop server Ts (epoll_start server) = (on, s)" by force
  show ?thesis
  proof (cases "on")
    case True
    with l epoll_descriptors[of server Ts s] have "mset (ep_opened s) = {#server#} + mset (watched s)" by simp
    with l True assms show ?thesis by (intro exI[of _ s]) (simp add: epoll_program_def watching_def)
  next
    case False
    with l epoll_loop_stops[of server Ts "epoll_start server" s]
    obtain new where "size new \<le> 1" "mset (ep_opened s) = add_mset server (mset (watched s)) + new"
      by (auto simp: epoll_start_def)
    with l False assms show ?thesis by (intro exI[of _ s]) (auto simp: epoll_program_def watching_def)
  qed
qed

lemma kqueue_leaves_open:
  assumes "kqueue_open A = Inr (server, kq)"
  shows "\<exists>s. watching server kq s (kqueue_program A Ts)"
proof -
  obtain on s where l: "kqueue_loop server Ts (epoll_start server) = (on, s)" by force
  show ?thesis
  proof (cases "on")
    case True
    with l kqueue_descriptors[of server Ts "epoll_start server" s] have "mset (ep_opened s) = {#server#} + mset (watched s)"
      by (simp add: epoll_start_def)
    with l True assms show ?thesis by (intro exI[of _ s]) (simp add: kqueue_program_def watching_def)
  next
    case False
    with l kqueue_loop_stops[of server Ts "epoll_start server" s]
    obtain new where "size new \<le> 1" "mset (ep_opened s) = add_mset server (mset (watched s)) + new"
      by (auto simp: epoll_start_def)
    with l False assms show ?thesis by (intro exI[of _ s]) (auto simp: kqueue_program_def watching_def)
  qed
qed

text \<open>A server that fails to watch its listening socket closes that socket, but not the queue.\<close>

lemma queue_left_open:
  assumes "listen_on A = Inr server" and "c_queue A \<noteq> - 1" and "c_watch A = - 1"
  shows "epoll_program A Ts = Failed_Start Watch_Error [c_queue A]" "kqueue_program A Ts' = Failed_Start Watch_Error [c_queue A]"
  using assms by (simp_all add: epoll_program_def kqueue_program_def epoll_open_def kqueue_open_def Let_def)

section \<open>A thread per client\<close>

text \<open>One turn of the loop: what \<^verbatim>\<open>accept\<close> and \<^verbatim>\<open>pthread_create\<close> return.\<close>

record acceptor =
  serving :: "int list"
  acc_open :: "int list"
  acc_log :: "sock_line list"

definition accept_turn :: "int \<Rightarrow> int \<Rightarrow> acceptor \<Rightarrow> acceptor" where
  "accept_turn client_sock rc s =
     (if client_sock = - 1 then s\<lparr>acc_log := acc_log s @ [Sock_Error]\<rparr>
      else if rc \<noteq> 0 then s\<lparr>acc_log := acc_log s @ [Sock_Error], acc_open := remove1 client_sock (acc_open s @ [client_sock])\<rparr>
      else s\<lparr>serving := serving s @ [client_sock], acc_open := acc_open s @ [client_sock]\<rparr>)"

fun accept_loop :: "(int \<times> int) list \<Rightarrow> acceptor \<Rightarrow> acceptor" where
  "accept_loop [] s = s"
| "accept_loop ((client_sock, rc) # Ts) s = accept_loop Ts (accept_turn client_sock rc s)"

definition sock_server :: "calls \<Rightarrow> (int \<times> int) list \<Rightarrow> acceptor start" where
  "sock_server A Ts = (case listen_on A of Inl e \<Rightarrow> Inl e
     | Inr sock \<Rightarrow> Inr (accept_loop Ts \<lparr>serving = [], acc_open = [sock], acc_log = []\<rparr>))"

text \<open>\<^verbatim>\<open>worker_f\<close> over the answers of the system: the result of \<^verbatim>\<open>read\<close>, the number then in the buffer, the result of \<^verbatim>\<open>write\<close>.
  The flag says whether the thread has closed its socket and returned.\<close>

fun net_worker :: "(int \<times> int \<times> int) list \<Rightarrow> sock_line list \<times> bool" where
  "net_worker [] = ([], False)"
| "net_worker ((sz, buffer, written) # as) =
     (if sz = - 1 then let (log, closed) = net_worker as in (Sock_Error # log, closed)
      else if sz = 0 then ([Closed_Connection], True)
      else let buffer' = wrap_int (buffer + 1); (log, closed) = net_worker as in
        (Sock_Received buffer # (if written = - 1 then Sock_Error else Sock_Sent buffer') # log, closed))"

definition net_server :: "calls \<Rightarrow> (int \<times> int) list \<Rightarrow> (int \<Rightarrow> (int \<times> int \<times> int) list) \<Rightarrow> (acceptor \<times> (int \<times> sock_line list) list) start" where
  "net_server A Ts answers = (case sock_server A Ts of Inl e \<Rightarrow> Inl e
     | Inr s \<Rightarrow> Inr (fold (\<lambda>c s. if snd (net_worker (answers c)) then s\<lparr>acc_open := remove1 c (acc_open s)\<rparr> else s) (serving s) s,
         map (\<lambda>c. (c, New_Client_Created # fst (net_worker (answers c)))) (serving s)))"

section \<open>A client\<close>

datatype client_stage = No_Socket | Addrinfo_Error | Not_Found | Connect_Error

text \<open>The loop of the client over the numbers it scans; an answer is the results of \<^verbatim>\<open>write\<close> and \<^verbatim>\<open>read\<close> and the number then in
  the variable. The flag says whether the loop was left because the server has gone.\<close>

fun net_talk :: "int list \<Rightarrow> (int \<times> int \<times> int) list \<Rightarrow> sock_line list \<times> bool" where
  "net_talk [] as = ([], False)"
| "net_talk (n # ns) [] = ([], False)"
| "net_talk (n # ns) ((written, sz, reply) # as) =
     (if written = - 1 then let (log, left) = net_talk ns as in (Sock_Error # log, left)
      else if sz = 0 then ([Sock_Sent n, Closed_Connection], True)
      else let (log, left) = net_talk ns as in
        (Sock_Sent n # (if sz = - 1 then Sock_Error else Sock_Received reply) # log, left))"

definition aio_client :: "int \<Rightarrow> int \<Rightarrow> int list \<Rightarrow> (int \<times> int \<times> int) list \<Rightarrow> (client_stage \<times> int list) + (sock_line list \<times> int list)" where
  "aio_client sock connected input as =
     (if sock = - 1 then Inl (No_Socket, [])
      else if connected \<noteq> 0 then Inl (Connect_Error, remove1 sock [sock])
      else Inr (fst (net_talk input as), remove1 sock [sock]))"

text \<open>\<open>info\<close> is the result of \<^verbatim>\<open>getaddrinfo\<close>, \<open>found\<close> whether its list is not empty.\<close>

definition net_client :: "int \<Rightarrow> int \<Rightarrow> bool \<Rightarrow> int \<Rightarrow> int list \<Rightarrow> (int \<times> int \<times> int) list \<Rightarrow>
    (client_stage \<times> int list) + (sock_line list \<times> int list)" where
  "net_client sock info found connected input as =
     (if sock = - 1 then Inl (No_Socket, [])
      else if info \<noteq> 0 then Inl (Addrinfo_Error, remove1 sock [sock])
      else if \<not> found then Inl (Not_Found, remove1 sock [sock])
      else if connected \<noteq> 0 then Inl (Connect_Error, remove1 sock [sock])
      else Inr (fst (net_talk input as), remove1 sock [sock]))"

section \<open>Threads and clients\<close>

lemma accept_loop_open:
  "mset (acc_open s) = add_mset sock (mset (serving s)) \<Longrightarrow>
    mset (acc_open (accept_loop Ts s)) = add_mset sock (mset (serving (accept_loop Ts s)))"
  by (induction Ts s rule: accept_loop.induct) (auto simp: accept_turn_def)

text \<open>Every socket accepted has a thread or is closed again, whatever fails.\<close>

lemma accepted_served:
  assumes "sock_server A Ts = Inr s"
  shows "mset (acc_open s) = add_mset (c_socket A) (mset (serving s)) \<and> set (serving s) \<subseteq> fst ` set Ts"
proof -
  have sock: "listen_on A = Inr (c_socket A)" "s = accept_loop Ts \<lparr>serving = [], acc_open = [c_socket A], acc_log = []\<rparr>"
    using assms by (auto simp: sock_server_def listen_on_def Let_def split: sum.splits if_splits)
  have "set (serving (accept_loop Ts s)) \<subseteq> set (serving s) \<union> fst ` set Ts" for s
    by (induction Ts s rule: accept_loop.induct) (auto simp: accept_turn_def split: if_splits)
  with sock accept_loop_open show ?thesis by fastforce
qed

text \<open>Over a connection that works, thread and client print what they do in the interleavings of theory \<^verbatim>\<open>Sockets\<close>.\<close>

lemma net_worker_talk:
  "net_worker (map (\<lambda>n. (4, n, 4)) ns @ [(0, b, w)]) = (server_talk ns @ [Closed_Connection], True)"
  by (induction ns) (auto simp: server_talk_def increased_simps)

lemma net_talk_talk: "net_talk ns (map (\<lambda>n. (4, 4, increased 1 n)) ns) = (client_talk ns, False)"
  by (induction ns) (auto simp: client_talk_def)

text \<open>A thread whose \<^verbatim>\<open>read\<close> keeps failing, as on a connection that was reset, never ends and never closes its socket.\<close>

lemma net_worker_stuck: "net_worker (replicate k (- 1, b, w)) = (replicate k Sock_Error, False)"
  by (induction k) simp_all

text \<open>A client closes its socket on every way out.\<close>

lemma clients_close:
  "case net_client sock info found connected input as of Inl (e, open) \<Rightarrow> open = [] | Inr (log, open) \<Rightarrow> open = []"
  "case aio_client sock connected input as of Inl (e, open) \<Rightarrow> open = [] | Inr (log, open) \<Rightarrow> open = []"
  by (simp_all add: net_client_def aio_client_def)

end
