(* ===== verification/Stacks.thy ===== *)
theory Stacks
  imports Small_Coros
begin

text \<open>
  Stacks that programs allocate themselves: the three ways of \<^verbatim>\<open>1/example_swap.c\<close>, with the start of its \<^verbatim>\<open>main\<close>, and the alternate
  signal stack of \<^verbatim>\<open>lecture_examples/4_signals/10_sigaltstack.c\<close>. The addresses that \<^verbatim>\<open>malloc\<close> and \<^verbatim>\<open>mmap\<close> return, the size of a
  page and \<^verbatim>\<open>SIGSTKSZ\<close> are parameters; \<^verbatim>\<open>mprotect\<close> refuses an address that is not at the start of a page.
\<close>

section \<open>Areas of memory\<close>

record area =
  base :: nat
  bytes :: nat
  executable :: bool

record vm =
  areas :: "area list"
  alt_stack :: "(nat \<times> nat) option"

definition sys_malloc :: "nat \<Rightarrow> nat \<Rightarrow> vm \<Rightarrow> vm" where
  "sys_malloc a n m = m\<lparr>areas := areas m @ [\<lparr>base = a, bytes = n, executable = False\<rparr>]\<rparr>"

definition sys_mmap :: "nat \<Rightarrow> nat \<Rightarrow> vm \<Rightarrow> vm" where
  "sys_mmap a n m = m\<lparr>areas := areas m @ [\<lparr>base = a, bytes = n, executable = True\<rparr>]\<rparr>"

definition sys_mprotect :: "nat \<Rightarrow> nat \<Rightarrow> vm \<Rightarrow> int \<times> vm" where
  "sys_mprotect page a m = (if a mod page \<noteq> 0 then (- 1, m)
     else (0, m\<lparr>areas := map (\<lambda>r. if base r = a then r\<lparr>executable := True\<rparr> else r) (areas m)\<rparr>))"

section \<open>The stacks of the coroutines\<close>

datatype stack_type = STACK_MMAP | STACK_SIG | STACK_MPROT

definition stack_size :: nat where
  "stack_size = 1024 * 1024"

definition allocate_stack_sig :: "nat \<Rightarrow> vm \<Rightarrow> vm" where
  "allocate_stack_sig a m = (sys_malloc a stack_size m)\<lparr>alt_stack := Some (a, stack_size)\<rparr>"

definition allocate_stack_mmap :: "nat \<Rightarrow> vm \<Rightarrow> vm" where
  "allocate_stack_mmap a m = sys_mmap a stack_size m"

definition allocate_stack_mprot :: "nat \<Rightarrow> nat \<Rightarrow> vm \<Rightarrow> vm" where
  "allocate_stack_mprot page a m = snd (sys_mprotect page a (sys_malloc a stack_size m))"

definition allocate_stack :: "nat \<Rightarrow> stack_type \<Rightarrow> nat \<Rightarrow> vm \<Rightarrow> vm" where
  "allocate_stack page t a m = (case t of
       STACK_MMAP \<Rightarrow> allocate_stack_mmap a m
     | STACK_SIG \<Rightarrow> allocate_stack_sig a m
     | STACK_MPROT \<Rightarrow> allocate_stack_mprot page a m)"

text \<open>\<^verbatim>\<open>main\<close>: \<open>None\<close> is the exit of \<^verbatim>\<open>handle_error\<close>, when one of the calls of \<^verbatim>\<open>getcontext\<close> fails.\<close>

definition swap_example_main :: "nat \<Rightarrow> nat \<Rightarrow> nat \<Rightarrow> int \<Rightarrow> int \<Rightarrow> int \<Rightarrow> vm \<Rightarrow> vm \<times> swaps run option" where
  "swap_example_main page a1 a2 get1 get2 argc m =
     (let m = allocate_stack page STACK_SIG a1 m; m = allocate_stack page STACK_MPROT a2 m in
      (m, if get1 = - 1 \<or> get2 = - 1 then None else Some (sw_main argc)))"

definition apart :: "area \<Rightarrow> area \<Rightarrow> bool" where
  "apart r q \<longleftrightarrow> base r + bytes r \<le> base q \<or> base q + bytes q \<le> base r"

text \<open>
  The three ways give a new area of the same size, but they are not the same: the first coroutine's stack becomes the
  signal stack of the process, and a stack that does not start a page stays without the right to execute.
\<close>

lemma allocate_stack_area:
  assumes "a \<notin> base ` set (areas m)"
  shows "\<exists>x. areas (allocate_stack page t a m) = areas m @ [\<lparr>base = a, bytes = stack_size, executable = x\<rparr>] \<and>
    (x \<longleftrightarrow> t = STACK_MMAP \<or> t = STACK_MPROT \<and> a mod page = 0) \<and>
    alt_stack (allocate_stack page t a m) = (if t = STACK_SIG then Some (a, stack_size) else alt_stack m)"
proof -
  have "map (\<lambda>r. if base r = a then r\<lparr>executable := True\<rparr> else r) (areas m) = areas m"
    by (rule map_idI) (use assms in auto)
  then show ?thesis
    by (cases t) (auto simp: allocate_stack_def allocate_stack_mmap_def allocate_stack_sig_def allocate_stack_mprot_def
        sys_malloc_def sys_mmap_def sys_mprotect_def)
qed

lemma example_stacks:
  assumes "a1 + stack_size \<le> a2 \<or> a2 + stack_size \<le> a1" and "areas m = []" and "get1 \<noteq> - 1" and "get2 \<noteq> - 1"
  shows "\<exists>r1 r2 s. areas (fst (swap_example_main page a1 a2 get1 get2 argc m)) = [r1, r2] \<and> apart r1 r2 \<and> \<not> executable r1 \<and>
    (executable r2 \<longleftrightarrow> a2 mod page = 0) \<and> alt_stack (fst (swap_example_main page a1 a2 get1 get2 argc m)) = Some (base r1, bytes r1) \<and>
    snd (swap_example_main page a1 a2 get1 get2 argc m) = Some (ret s) \<and>
    (''main: exiting'' \<in> set (sw_out s) \<longleftrightarrow> argc \<le> 1)"
proof -
  let ?m1 = "allocate_stack page STACK_SIG a1 m"
  have 1: "areas ?m1 = [\<lparr>base = a1, bytes = stack_size, executable = False\<rparr>]" "alt_stack ?m1 = Some (a1, stack_size)"
    using allocate_stack_area[of a1 m page STACK_SIG] assms(2) by auto
  have "a2 \<noteq> a1" using assms(1) by (auto simp: stack_size_def)
  with 1 have 2: "areas (allocate_stack page STACK_MPROT a2 ?m1) =
      [\<lparr>base = a1, bytes = stack_size, executable = False\<rparr>, \<lparr>base = a2, bytes = stack_size, executable = a2 mod page = 0\<rparr>]"
    "alt_stack (allocate_stack page STACK_MPROT a2 ?m1) = Some (a1, stack_size)"
    using allocate_stack_area[of a2 ?m1 page STACK_MPROT] by auto
  obtain s where s: "sw_main argc = ret s" "''main: exiting'' \<in> set (sw_out s) \<longleftrightarrow> argc \<le> 1"
    using swap_outputs[of argc] by (auto split: if_splits)
  from 1 2 s assms show ?thesis
    by (intro exI[of _ "\<lparr>base = a1, bytes = stack_size, executable = False\<rparr>"]
        exI[of _ "\<lparr>base = a2, bytes = stack_size, executable = a2 mod page = 0\<rparr>"] exI[of _ s])
      (simp add: swap_example_main_def Let_def apart_def)
qed

section \<open>A signal handler on its own stack\<close>

datatype handler_place = On_Main | On_Alt nat nat

text \<open>\<open>onstack\<close>: the handler and whether it was installed with \<^verbatim>\<open>SA_ONSTACK\<close>; \<open>ran_on\<close>: where it has run.\<close>

record alt_proc =
  mem :: vm
  onstack :: "bool option"
  finished :: nat
  ran_on :: "handler_place list"

text \<open>The size that \<^verbatim>\<open>stack_create\<close> asks for.\<close>

definition round_size :: "nat \<Rightarrow> nat \<Rightarrow> nat \<Rightarrow> nat" where
  "round_size page_size sigstksz sz =
     (let sz = sz + (page_size - sz mod page_size) in if sz < sigstksz then sigstksz else sz)"

text \<open>\<^verbatim>\<open>sigaltstack\<close> refuses a stack below its minimum; \<open>None\<close> is \<^verbatim>\<open>handle_error\<close>.\<close>

definition set_alt_stack :: "nat \<Rightarrow> nat \<times> nat \<Rightarrow> vm \<Rightarrow> vm option" where
  "set_alt_stack minsz s m = (if snd s < minsz then None else Some (m\<lparr>alt_stack := Some s\<rparr>))"

definition stack_create :: "nat \<Rightarrow> nat \<Rightarrow> nat \<Rightarrow> nat \<Rightarrow> nat \<Rightarrow> alt_proc \<Rightarrow> alt_proc option" where
  "stack_create page_size sigstksz minsz a sz g =
     (let sz = round_size page_size sigstksz sz in
      case set_alt_stack minsz (a, sz) (sys_malloc a sz (mem g)) of None \<Rightarrow> None | Some m \<Rightarrow> Some (g\<lparr>mem := m\<rparr>))"

definition stack_destroy :: "alt_proc \<Rightarrow> alt_proc" where
  "stack_destroy g = (case alt_stack (mem g) of None \<Rightarrow> g
     | Some (sp, _) \<Rightarrow> g\<lparr>mem := (mem g)\<lparr>alt_stack := None, areas := filter (\<lambda>r. base r \<noteq> sp) (areas (mem g))\<rparr>\<rparr>)"

definition on_new_signal :: "handler_place \<Rightarrow> alt_proc \<Rightarrow> alt_proc" where
  "on_new_signal p g = g\<lparr>ran_on := ran_on g @ [p], finished := finished g + 1\<rparr>"

text \<open>\<^verbatim>\<open>raise\<close> returns when the handler has; without one the process ends.\<close>

definition sys_raise :: "alt_proc \<Rightarrow> alt_proc option" where
  "sys_raise g = (case onstack g of None \<Rightarrow> None
     | Some x \<Rightarrow> Some (on_new_signal (case alt_stack (mem g) of Some (sp, n) \<Rightarrow> if x then On_Alt sp n else On_Main | None \<Rightarrow> On_Main) g))"

text \<open>The inner result is the loop of \<^verbatim>\<open>wait_signal\<close>: it never ends unless the handler has run.\<close>

definition wait_signal :: "alt_proc \<Rightarrow> alt_proc run option" where
  "wait_signal g = (let need = finished g + 1 in case sys_raise g of None \<Rightarrow> None
     | Some g \<Rightarrow> Some (if finished g < need then None else ret g))"

definition altstack_main :: "nat \<Rightarrow> nat \<Rightarrow> nat \<Rightarrow> nat \<Rightarrow> alt_proc run option" where
  "altstack_main page_size sigstksz minsz a =
     (case stack_create page_size sigstksz minsz a (1024 * 64)
          \<lparr>mem = \<lparr>areas = [], alt_stack = None\<rparr>, onstack = None, finished = 0, ran_on = []\<rparr> of None \<Rightarrow> None
      | Some g \<Rightarrow> (case wait_signal (g\<lparr>onstack := Some True\<rparr>) of None \<Rightarrow> None
          | Some r \<Rightarrow> (case r of None \<Rightarrow> Some None | Some (Inl e) \<Rightarrow> Some (fault e)
              | Some (Inr g) \<Rightarrow> wait_signal ((stack_destroy g)\<lparr>onstack := Some False\<rparr>))))"

text \<open>The size is more than what was asked for, whole pages unless the least size is taken; a size that is whole
  pages gets one page more.\<close>

lemma round_size_pages:
  assumes "0 < page_size"
  shows "sz < round_size page_size sigstksz sz \<and> sigstksz \<le> round_size page_size sigstksz sz \<and>
    (round_size page_size sigstksz sz = sigstksz \<or> page_size dvd round_size page_size sigstksz sz \<and> round_size page_size sigstksz sz \<le> sz + page_size)"
proof -
  have r: "sz mod page_size < page_size" using assms by simp
  have "sz = page_size * (sz div page_size) + sz mod page_size" by simp
  with r have "sz + (page_size - sz mod page_size) = page_size * (sz div page_size) + page_size" by linarith
  then have "sz + (page_size - sz mod page_size) = page_size * (sz div page_size + 1)" by simp
  then have d: "page_size dvd sz + (page_size - sz mod page_size)" by (metis dvd_triv_left)
  show ?thesis using r d by (auto simp: round_size_def Let_def)
qed

text \<open>The first signal is handled on the new stack, the second on the main one, after the new one has been freed.\<close>

lemma altstack_places:
  assumes "0 < page_size" and "minsz \<le> sigstksz"
  shows "\<exists>g. altstack_main page_size sigstksz minsz a = Some (ret g) \<and>
    ran_on g = [On_Alt a (round_size page_size sigstksz (1024 * 64)), On_Main] \<and> areas (mem g) = [] \<and> alt_stack (mem g) = None"
proof -
  have "\<not> round_size page_size sigstksz (1024 * 64) < minsz"
    using round_size_pages[OF assms(1), of "1024 * 64" sigstksz] assms(2) by linarith
  then show ?thesis
    by (simp add: altstack_main_def stack_create_def set_alt_stack_def sys_malloc_def wait_signal_def sys_raise_def on_new_signal_def
        stack_destroy_def Let_def)
qed

end
