(* ===== verification/Events.thy ===== *)
theory Events
  imports Messages Interleaving
begin

text \<open>
  The event system of \<^verbatim>\<open>7_ipc/9_sem_event_source.c\<close> and \<^verbatim>\<open>9_sem_event_cons.c\<close> at work: producers send a message and
  raise their semaphore, a consumer lowers all four semaphores at once and reads one message of every
  producer. All operations carry \<^verbatim>\<open>SEM_UNDO\<close>, so the system also keeps for every process what it would
  have to add to each semaphore at the process's end, and \<^verbatim>\<open>semop\<close> fails with \<^verbatim>\<open>ERANGE\<close> when a semaphore or
  such an adjustment would leave its range (the limits of Linux). The programs ignore the failure.
  Here nobody ends; theory \<^verbatim>\<open>Event_Life\<close> has the start and the end.
\<close>

section \<open>Semaphores with undo\<close>

text \<open>\<open>vals\<close>: the values; \<open>adjs p\<close>: the adjustments of process \<open>p\<close>.\<close>

record sem_set =
  vals :: "int list"
  adjs :: "nat \<Rightarrow> int list"

definition SEMVMX :: int where
  "SEMVMX = 32767"

datatype sem_result = Sem_Done sem_set | Sem_Waits | Sem_Fails

text \<open>The operations \<open>(sem_num, sem_op)\<close> of one call, in their order, all of them or none.\<close>

fun semop_undo :: "nat \<Rightarrow> (nat \<times> int) list \<Rightarrow> sem_set \<Rightarrow> sem_result" where
  "semop_undo p [] s = Sem_Done s"
| "semop_undo p ((k, d) # ops) s = (let v = vals s ! k + d; u = adjs s p ! k - d in
     if v < 0 then Sem_Waits
     else if SEMVMX < v \<or> u < - SEMVMX - 1 \<or> SEMVMX < u then Sem_Fails
     else semop_undo p ops (s\<lparr>vals := (vals s)[k := v], adjs := (adjs s)(p := (adjs s p)[k := u])\<rparr>))"

section \<open>The programs\<close>

text \<open>
  Processes 0 to 2 are the producers, with identifiers 1 to 3, whose endless input lines are \<open>input i\<close>;
  all further processes are consumers. The queue has room for every message.
\<close>

record event_sys =
  queue :: "message list"
  sems :: sem_set
  taken :: "message list"

datatype event_pc =
    Send nat
  | Inc nat
  | Lock_Events
  | Recv nat
  | Unlock_Events

text \<open>A call whose result nobody looks at: when it fails nothing has changed.\<close>

definition semop_ignored :: "nat \<Rightarrow> (nat \<times> int) list \<Rightarrow> event_sys \<Rightarrow> event_sys option" where
  "semop_ignored p ops g = (case semop_undo p ops (sems g) of
       Sem_Done s \<Rightarrow> Some (g\<lparr>sems := s\<rparr>) | Sem_Fails \<Rightarrow> Some g | Sem_Waits \<Rightarrow> None)"

definition goes :: "event_sys option \<Rightarrow> event_pc \<Rightarrow> (event_sys \<times> event_pc) list" where
  "goes r l = (case r of None \<Rightarrow> [] | Some g \<Rightarrow> [(g, l)])"

definition sem_inc :: "nat \<Rightarrow> nat \<Rightarrow> event_sys \<Rightarrow> event_sys option" where
  "sem_inc p myid g = semop_ignored p [(myid - 1, 1)] g"

definition producer :: "byte list \<Rightarrow> (nat \<Rightarrow> nat \<Rightarrow> byte list) \<Rightarrow> nat \<Rightarrow> event_sys \<Rightarrow> event_pc \<Rightarrow> (event_sys \<times> event_pc) list" where
  "producer junk input i g l = (let myid = i + 1 in case l of
       Send j \<Rightarrow> (case send_msg junk (int myid) (input i j) (queue g) of Some (Inr q) \<Rightarrow> [(g\<lparr>queue := q\<rparr>, Inc j)] | _ \<Rightarrow> [])
     | Inc j \<Rightarrow> goes (sem_inc i myid g) (Send (j + 1))
     | _ \<Rightarrow> [])"

definition lock_events :: "nat \<Rightarrow> event_sys \<Rightarrow> event_sys option" where
  "lock_events p g = semop_ignored p (map (\<lambda>i. (i, - 1)) [0..<4]) g"

definition unlock_events :: "nat \<Rightarrow> event_sys \<Rightarrow> event_sys option" where
  "unlock_events p g = semop_ignored p [(3, 1)] g"

text \<open>\<open>has_sems\<close>, \<open>has_queue\<close>: the identifiers the consumer holds are valid; calls on others fail at once.\<close>

definition consumer :: "nat \<Rightarrow> bool \<Rightarrow> bool \<Rightarrow> event_sys \<Rightarrow> event_pc \<Rightarrow> (event_sys \<times> event_pc) list" where
  "consumer p has_sems has_queue g l = (case l of
       Lock_Events \<Rightarrow> goes (if has_sems then lock_events p g else Some g) (Recv 0)
     | Recv k \<Rightarrow> if k < 3 then
           if has_queue then (case msgrcv (int k + 1) (queue g) of None \<Rightarrow> []
             | Some (m, q) \<Rightarrow> [(g\<lparr>queue := q, taken := taken g @ [m]\<rparr>, Recv (k + 1))])
           else [(g, Recv (k + 1))]
         else [(g, Unlock_Events)]
     | Unlock_Events \<Rightarrow> goes (if has_sems then unlock_events p g else Some g) Lock_Events
     | _ \<Rightarrow> [])"

definition event_prog :: "byte list \<Rightarrow> (nat \<Rightarrow> nat \<Rightarrow> byte list) \<Rightarrow> (event_sys, event_pc) prog" where
  "event_prog junk input i g l = (if i < 3 then producer junk input i g l else consumer i True True g l)"

definition event_start :: "(event_sys, event_pc) sys" where
  "event_start = (\<lparr>queue = [], sems = \<lparr>vals = [0, 0, 0, 1], adjs = \<lambda>_. [0, 0, 0, 0]\<rparr>, taken = []\<rparr>,
     \<lambda>i. if i < 3 then Send 0 else Lock_Events)"

section \<open>The calls, one by one\<close>

lemma upt_four: "[0..<4] = [0, 1, 2, 3 :: nat]"
  by (simp add: upt_rec)

lemma less_three: "(i :: nat) < 3 \<longleftrightarrow> i = 0 \<or> i = 1 \<or> i = 2"
  by auto

lemma less_four: "(i :: nat) < 4 \<longleftrightarrow> i = 0 \<or> i = 1 \<or> i = 2 \<or> i = 3"
  by auto

lemma all_less_four: "(\<forall>i < 4. P i) \<longleftrightarrow> P 0 \<and> P 1 \<and> P 2 \<and> P (3 :: nat)"
  unfolding less_four by blast

lemma length_four: "length xs = 4 \<longleftrightarrow> (\<exists>a b c d. xs = [a, b, c, d])"
  by (auto simp: numeral_eq_Suc length_Suc_conv)

text \<open>The ranges of the values and of the adjustments of a process.\<close>

definition in_range :: "nat \<Rightarrow> sem_set \<Rightarrow> bool" where
  "in_range p s \<longleftrightarrow> length (vals s) = 4 \<and> length (adjs s p) = 4 \<and> (\<forall>i < 4. 0 \<le> vals s ! i \<and> vals s ! i \<le> SEMVMX) \<and>
     (\<forall>i < 4. - SEMVMX - 1 \<le> adjs s p ! i \<and> adjs s p ! i \<le> SEMVMX)"

definition lowered :: "nat \<Rightarrow> sem_set \<Rightarrow> sem_set" where
  "lowered p s = s\<lparr>vals := map (\<lambda>v. v - 1) (vals s), adjs := (adjs s)(p := map (\<lambda>u. u + 1) (adjs s p))\<rparr>"

lemma lock_events_cases:
  assumes "in_range p (sems g)"
  shows "\<forall>i < 4. 0 < vals (sems g) ! i \<and> adjs (sems g) p ! i < SEMVMX \<Longrightarrow> lock_events p g = Some (g\<lparr>sems := lowered p (sems g)\<rparr>)"
    and "i < 4 \<Longrightarrow> vals (sems g) ! i = 0 \<Longrightarrow> \<forall>i < 4. 0 < vals (sems g) ! i \<longrightarrow> adjs (sems g) p ! i < SEMVMX \<Longrightarrow>
      lock_events p g = None"
    and "0 < vals (sems g) ! 0 \<Longrightarrow> adjs (sems g) p ! 0 = SEMVMX \<Longrightarrow> lock_events p g = Some g"
proof -
  obtain a b c d a' b' c' d' where e: "vals (sems g) = [a, b, c, d]" "adjs (sems g) p = [a', b', c', d']"
    using assms by (auto simp: in_range_def length_four)
  have v: "0 \<le> a" "0 \<le> b" "0 \<le> c" "0 \<le> d" "a \<le> 32767" "b \<le> 32767" "c \<le> 32767" "d \<le> 32767"
    and u: "- 32768 \<le> a'" "- 32768 \<le> b'" "- 32768 \<le> c'" "- 32768 \<le> d'"
    using assms e by (simp_all add: in_range_def all_less_four SEMVMX_def)
  note defs = lock_events_def semop_ignored_def upt_four SEMVMX_def
  show "lock_events p g = Some (g\<lparr>sems := lowered p (sems g)\<rparr>)"
    if "\<forall>i < 4. 0 < vals (sems g) ! i \<and> adjs (sems g) p ! i < SEMVMX"
  proof -
    have "0 < a" "0 < b" "0 < c" "0 < d" "a' < 32767" "b' < 32767" "c' < 32767" "d' < 32767"
      using that e by (simp_all add: all_less_four SEMVMX_def)
    with v u show ?thesis by (simp add: defs e lowered_def)
  qed
  show "lock_events p g = None" if "i < 4" "vals (sems g) ! i = 0" "\<forall>i < 4. 0 < vals (sems g) ! i \<longrightarrow> adjs (sems g) p ! i < SEMVMX"
  proof -
    have s: "0 < a \<Longrightarrow> a' < 32767" "0 < b \<Longrightarrow> b' < 32767" "0 < c \<Longrightarrow> c' < 32767" using that(3) e by (simp_all add: all_less_four SEMVMX_def)
    have "a \<le> 0 \<or> b \<le> 0 \<or> c \<le> 0 \<or> d \<le> 0" using that(1,2) e by (auto simp: less_four)
    then consider "a \<le> 0" | "0 < a" "b \<le> 0" | "0 < a" "0 < b" "c \<le> 0" | "0 < a" "0 < b" "0 < c" "d \<le> 0" by linarith
    then show ?thesis by cases (use v u s in \<open>simp_all add: defs e\<close>)
  qed
  show "lock_events p g = Some g" if "0 < vals (sems g) ! 0" "adjs (sems g) p ! 0 = SEMVMX"
    using that e by (simp add: defs)
qed

definition shifted :: "nat \<Rightarrow> nat \<Rightarrow> sem_set \<Rightarrow> sem_set" where
  "shifted p k s = s\<lparr>vals := (vals s)[k := vals s ! k + 1], adjs := (adjs s)(p := (adjs s p)[k := adjs s p ! k - 1])\<rparr>"

lemma raise_cases:
  assumes "0 \<le> vals (sems g) ! k" and "adjs (sems g) p ! k \<le> SEMVMX"
  shows "semop_ignored p [(k, 1)] g = Some (if vals (sems g) ! k < SEMVMX \<and> - SEMVMX - 1 < adjs (sems g) p ! k
    then g\<lparr>sems := shifted p k (sems g)\<rparr> else g)"
  using assms by (simp add: semop_ignored_def shifted_def Let_def)

section \<open>What the semaphores count\<close>

definition of_type :: "nat \<Rightarrow> message list \<Rightarrow> message list" where
  "of_type i q = filter (\<lambda>m. fst m = int i + 1) q"

text \<open>How many messages of producer \<open>i\<close> a process still has to its credit; whether it holds the lock; the
  lines a producer has sent and counted.\<close>

definition owed :: "nat \<Rightarrow> event_pc \<Rightarrow> int" where
  "owed i l = (case l of Recv k \<Rightarrow> of_bool (k \<le> i) | _ \<Rightarrow> 0)"

definition inside :: "event_pc \<Rightarrow> int" where
  "inside l = (case l of Recv k \<Rightarrow> 1 | Unlock_Events \<Rightarrow> 1 | _ \<Rightarrow> 0)"

definition sent :: "event_pc \<Rightarrow> nat" where
  "sent l = (case l of Send j \<Rightarrow> j | Inc j \<Rightarrow> j + 1 | _ \<Rightarrow> 0)"

definition counted :: "event_pc \<Rightarrow> int" where
  "counted l = (case l of Send j \<Rightarrow> int j | Inc j \<Rightarrow> int j | _ \<Rightarrow> 0)"

text \<open>The adjustment that consumer \<open>p\<close> has run up on semaphore \<open>i\<close>.\<close>

definition run_up :: "nat \<Rightarrow> nat \<Rightarrow> int list \<Rightarrow> int" where
  "run_up i p u = (if 3 \<le> p then u ! i else 0)"

definition shape :: "nat \<Rightarrow> event_sys \<Rightarrow> (nat \<Rightarrow> event_pc) \<Rightarrow> bool" where
  "shape n g ls \<longleftrightarrow> length (vals (sems g)) = 4 \<and> (\<forall>p. length (adjs (sems g) p) = 4) \<and>
     (\<forall>i < 3. case ls i of Send _ \<Rightarrow> True | Inc _ \<Rightarrow> True | _ \<Rightarrow> False) \<and>
     (\<forall>i < n. 3 \<le> i \<longrightarrow> (case ls i of Lock_Events \<Rightarrow> True | Recv k \<Rightarrow> k \<le> 3 | Unlock_Events \<Rightarrow> True | _ \<Rightarrow> False))"

definition lock_inv :: "nat \<Rightarrow> event_sys \<Rightarrow> (nat \<Rightarrow> event_pc) \<Rightarrow> bool" where
  "lock_inv n g ls \<longleftrightarrow> 0 \<le> vals (sems g) ! 3 \<and> vals (sems g) ! 3 + (\<Sum>p<n. inside (ls p)) = 1 \<and>
     (\<forall>p < n. 3 \<le> p \<longrightarrow> adjs (sems g) p ! 3 = inside (ls p))"

definition count_inv :: "nat \<Rightarrow> event_sys \<Rightarrow> (nat \<Rightarrow> event_pc) \<Rightarrow> nat \<Rightarrow> bool" where
  "count_inv n g ls i \<longleftrightarrow> 0 \<le> vals (sems g) ! i \<and> (\<forall>p < n. 3 \<le> p \<longrightarrow> 0 \<le> adjs (sems g) p ! i) \<and>
     vals (sems g) ! i + (\<Sum>p<n. run_up i p (adjs (sems g) p)) = counted (ls i) \<and>
     adjs (sems g) i ! i = - counted (ls i)"

definition order_inv :: "byte list \<Rightarrow> (nat \<Rightarrow> nat \<Rightarrow> byte list) \<Rightarrow> nat \<Rightarrow> event_sys \<Rightarrow> (nat \<Rightarrow> event_pc) \<Rightarrow> nat \<Rightarrow> bool" where
  "order_inv junk input n g ls i \<longleftrightarrow>
     int (length (of_type i (queue g))) = vals (sems g) ! i + of_bool (\<exists>j. ls i = Inc j) + (\<Sum>c<n. owed i (ls c)) \<and>
     of_type i (taken g @ queue g) = map (\<lambda>j. entry junk (int i + 1) (input i j)) [0..<sent (ls i)]"

definition event_inv :: "byte list \<Rightarrow> (nat \<Rightarrow> nat \<Rightarrow> byte list) \<Rightarrow> nat \<Rightarrow> event_sys \<Rightarrow> (nat \<Rightarrow> event_pc) \<Rightarrow> bool" where
  "event_inv junk input n g ls \<longleftrightarrow> shape n g ls \<and> lock_inv n g ls \<and>
     (\<forall>i < 3. count_inv n g ls i \<and> order_inv junk input n g ls i)"

definition valid_input :: "byte list \<Rightarrow> (nat \<Rightarrow> nat \<Rightarrow> byte list) \<Rightarrow> bool" where
  "valid_input junk input \<longleftrightarrow> length junk = MSG_SIZE \<and> (\<forall>i j. length (input i j) \<le> 492)"

text \<open>No producer has sent more lines than a semaphore and an adjustment can count.\<close>

definition few_lines :: "(nat \<Rightarrow> event_pc) \<Rightarrow> bool" where
  "few_lines ls \<longleftrightarrow> (\<forall>i < 3. int (sent (ls i)) \<le> SEMVMX)"

lemma of_type_simps [simp]:
  "of_type i (q @ q') = of_type i q @ of_type i q'" "of_type i [] = []"
  "of_type i (m # q) = (if fst m = int i + 1 then m # of_type i q else of_type i q)"
  by (simp_all add: of_type_def)

lemma inside_range: "0 \<le> inside l" "inside l \<le> 1"
  by (cases l; simp add: inside_def)+

lemma owed_range: "0 \<le> owed i l"
  by (cases l) (simp_all add: owed_def)

lemma sum_inside:
  fixes n p :: nat
  shows "p < n \<Longrightarrow> inside (ls p) \<le> (\<Sum>q<n. inside (ls q))"
  by (rule member_le_sum) (simp_all add: inside_range)

lemma event_sums:
  fixes n p :: nat
  assumes "p < n"
  shows "(\<Sum>q<n. inside ((ls(p := l)) q)) = (\<Sum>q<n. inside (ls q)) - inside (ls p) + inside l"
    and "(\<Sum>q<n. owed i ((ls(p := l)) q)) = (\<Sum>q<n. owed i (ls q)) - owed i (ls p) + owed i l"
    and "(\<Sum>q<n. run_up i q ((a(p := u)) q)) = (\<Sum>q<n. run_up i q (a q)) - run_up i p (a p) + run_up i p u"
  using sum_upd[OF assms, of "\<lambda>_. inside"] sum_upd[OF assms, of "\<lambda>_. owed i"] sum_upd[OF assms, of "run_up i"]
  by simp_all

text \<open>A value is at most what has been counted, and so is an adjustment of a consumer.\<close>

lemma counts_bound:
  assumes "count_inv n g ls i"
  shows "vals (sems g) ! i \<le> counted (ls i)" "p < n \<Longrightarrow> 3 \<le> p \<Longrightarrow> vals (sems g) ! i + adjs (sems g) p ! i \<le> counted (ls i)"
proof -
  have nn: "0 \<le> run_up i p (adjs (sems g) p)" if "p < n" for p
    using assms that by (simp add: count_inv_def run_up_def)
  then have "0 \<le> (\<Sum>p<n. run_up i p (adjs (sems g) p))" by (intro sum_nonneg) simp
  with assms show "vals (sems g) ! i \<le> counted (ls i)" by (simp add: count_inv_def)
  assume p: "p < n" "3 \<le> p"
  have "run_up i p (adjs (sems g) p) \<le> (\<Sum>p<n. run_up i p (adjs (sems g) p))"
    by (rule member_le_sum) (use nn p in auto)
  with assms p show "vals (sems g) ! i + adjs (sems g) p ! i \<le> counted (ls i)" by (simp add: count_inv_def run_up_def)
qed

lemma counted_sent: "counted l \<le> int (sent l)"
  by (cases l) (simp_all add: counted_def sent_def)

section \<open>The steps keep the counts\<close>

lemma send_inv:
  assumes inv: "event_inv junk input n g ls" and i: "i < 3" "i < n" "ls i = Send j"
  shows "event_inv junk input n (g\<lparr>queue := queue g @ [entry junk (int i + 1) (input i j)]\<rparr>) (ls(i := Inc j))"
proof -
  have t: "fst (entry junk (int i + 1) (input i j)) = int i + 1" by (simp add: entry_def)
  have z: "inside (Inc j) = inside (ls i)" "owed k (Inc j) = owed k (ls i)" "counted (Inc j) = counted (ls i)" for k
    using i by (simp_all add: inside_def owed_def counted_def)
  have "shape n g ls" "lock_inv n g ls" and "\<forall>k < 3. count_inv n g ls k" "\<forall>k < 3. order_inv junk input n g ls k"
    using inv by (simp_all add: event_inv_def)
  then have "shape n (g\<lparr>queue := queue g @ [entry junk (int i + 1) (input i j)]\<rparr>) (ls(i := Inc j))"
    "lock_inv n (g\<lparr>queue := queue g @ [entry junk (int i + 1) (input i j)]\<rparr>) (ls(i := Inc j))"
    "\<forall>k < 3. count_inv n (g\<lparr>queue := queue g @ [entry junk (int i + 1) (input i j)]\<rparr>) (ls(i := Inc j)) k"
    "\<forall>k < 3. order_inv junk input n (g\<lparr>queue := queue g @ [entry junk (int i + 1) (input i j)]\<rparr>) (ls(i := Inc j)) k"
    using i z t unfolding shape_def lock_inv_def count_inv_def order_inv_def event_sums(1,2)[OF i(2)]
    by (auto simp: sent_def)
  then show ?thesis by (simp add: event_inv_def)
qed

lemma inc_inv:
  assumes inv: "event_inv junk input n g ls" and i: "i < 3" "i < n" "ls i = Inc j" and few: "int j < SEMVMX"
    and s: "sem_inc i (i + 1) g = Some g'"
  shows "event_inv junk input n g' (ls(i := Send (j + 1)))"
proof -
  have c: "count_inv n g ls i" using inv i by (simp add: event_inv_def)
  have "0 \<le> vals (sems g) ! i" "vals (sems g) ! i \<le> int j" "adjs (sems g) i ! i = - int j"
    using c counts_bound(1)[OF c] i by (simp_all add: count_inv_def counted_def)
  with few s have g': "g' = g\<lparr>sems := shifted i i (sems g)\<rparr>"
    using raise_cases[of g i i] by (simp add: sem_inc_def SEMVMX_def)
  have z: "inside (Send (j + 1)) = inside (ls i)" "owed k (Send (j + 1)) = owed k (ls i)"
    "counted (Send (j + 1)) = counted (ls i) + 1" for k
    using i by (simp_all add: inside_def owed_def counted_def)
  have i': "i < 4" "i \<noteq> 3" using i by simp_all
  have sh: "shape n g ls" "lock_inv n g ls" and co: "\<forall>k < 3. count_inv n g ls k" and od: "\<forall>k < 3. order_inv junk input n g ls k"
    using inv by (simp_all add: event_inv_def)
  have len: "length (vals (sems g)) = 4" "length (adjs (sems g) p) = 4" for p using sh(1) by (simp_all add: shape_def)
  have v: "vals (sems g') ! k = vals (sems g) ! k + of_bool (k = i)" if "k < 4" for k
    using that i' len by (simp add: g' shifted_def nth_list_update)
  have u: "adjs (sems g') p ! k = adjs (sems g) p ! k - of_bool (p = i \<and> k = i)" if "k < 4" for p k
    using that i' len by (simp add: g' shifted_def nth_list_update)
  have run: "(\<Sum>p<n. run_up k p (adjs (sems g') p)) = (\<Sum>p<n. run_up k p (adjs (sems g) p))" for k
    by (rule sum.cong) (use i in \<open>auto simp: g' shifted_def run_up_def\<close>)
  have "shape n g' (ls(i := Send (j + 1)))" using sh(1) i by (simp add: shape_def g' shifted_def)
  moreover have "lock_inv n g' (ls(i := Send (j + 1)))"
    using sh(2) i i' z v[of 3] u[of 3] unfolding lock_inv_def event_sums(1,2)[OF i(2)] by auto
  moreover have "count_inv n g' (ls(i := Send (j + 1))) k" if "k < 3" for k
    using co[rule_format, OF that] that i z v[of k] u[of k] run[of k] unfolding count_inv_def by (cases "k = i") auto
  moreover have "order_inv junk input n g' (ls(i := Send (j + 1))) k" if "k < 3" for k
    using od[rule_format, OF that] that i z v[of k] unfolding order_inv_def event_sums(1,2)[OF i(2)]
    by (cases "k = i") (auto simp: sent_def g')
  ultimately show ?thesis by (simp add: event_inv_def)
qed

lemma consumer_range:
  assumes inv: "event_inv junk input n g ls" and few: "few_lines ls" and c: "3 \<le> c" "c < n"
  shows "in_range c (sems g)" "\<forall>i < 4. 0 < vals (sems g) ! i \<longrightarrow> adjs (sems g) c ! i < SEMVMX"
proof -
  have sh: "shape n g ls" and lk: "lock_inv n g ls" and co: "\<forall>k < 3. count_inv n g ls k"
    using inv by (simp_all add: event_inv_def)
  have v3: "0 \<le> vals (sems g) ! 3" "vals (sems g) ! 3 \<le> 1" "0 \<le> adjs (sems g) c ! 3" "adjs (sems g) c ! 3 \<le> 1"
    using lk c inside_range[of "ls c"] sum_nonneg[of "{..<n}" "\<lambda>p. inside (ls p)"] inside_range
    by (auto simp: lock_inv_def)
  have v: "0 \<le> vals (sems g) ! i" "vals (sems g) ! i \<le> SEMVMX" "0 \<le> adjs (sems g) c ! i"
    "vals (sems g) ! i + adjs (sems g) c ! i \<le> SEMVMX" if i: "i < 3" for i
  proof -
    have ci: "count_inv n g ls i" using co i by blast
    have "counted (ls i) \<le> SEMVMX" using few i counted_sent[of "ls i"] by (auto simp: few_lines_def)
    with counts_bound(1)[OF ci] counts_bound(2)[OF ci c(2,1)] ci c
    show "0 \<le> vals (sems g) ! i" "vals (sems g) ! i \<le> SEMVMX" "0 \<le> adjs (sems g) c ! i"
      "vals (sems g) ! i + adjs (sems g) c ! i \<le> SEMVMX" by (auto simp: count_inv_def)
  qed
  show "in_range c (sems g)"
    using sh v3 v(1-4)[of 0] v(1-4)[of 1] v(1-4)[of 2] by (simp add: in_range_def all_less_four shape_def SEMVMX_def)
  show "\<forall>i < 4. 0 < vals (sems g) ! i \<longrightarrow> adjs (sems g) c ! i < SEMVMX"
    using v3 v(4)[of 0] v(4)[of 1] v(4)[of 2] by (simp add: all_less_four SEMVMX_def)
qed

lemma lock_inv_step:
  assumes inv: "event_inv junk input n g ls" and few: "few_lines ls" and c: "3 \<le> c" "c < n" "ls c = Lock_Events"
    and s: "lock_events c g = Some g'"
  shows "event_inv junk input n g' (ls(c := Recv 0))"
proof -
  note r = consumer_range[OF inv few c(1,2)]
  have "\<forall>i < 4. vals (sems g) ! i \<noteq> 0" using lock_events_cases(2)[OF r(1) _ _ r(2)] s by force
  with r(1) have pos: "\<forall>i < 4. 0 < vals (sems g) ! i" unfolding in_range_def by (metis order_le_imp_less_or_eq)
  with r(2) lock_events_cases(1)[OF r(1)] s have g': "g' = g\<lparr>sems := lowered c (sems g)\<rparr>" by simp
  have sh: "shape n g ls" "lock_inv n g ls" and co: "\<forall>k < 3. count_inv n g ls k" and od: "\<forall>k < 3. order_inv junk input n g ls k"
    using inv by (simp_all add: event_inv_def)
  have len: "length (vals (sems g)) = 4" "length (adjs (sems g) p) = 4" for p using sh(1) by (simp_all add: shape_def)
  have v: "vals (sems g') ! k = vals (sems g) ! k - 1" if "k < 4" for k using that len by (simp add: g' lowered_def)
  have u: "adjs (sems g') p ! k = adjs (sems g) p ! k + of_bool (p = c)" if "k < 4" for p k
    using that len by (simp add: g' lowered_def)
  have a: "adjs (sems g') = (adjs (sems g))(c := map (\<lambda>u. u + 1) (adjs (sems g) c))" by (simp add: g' lowered_def)
  have run: "(\<Sum>p<n. run_up k p (adjs (sems g') p)) = (\<Sum>p<n. run_up k p (adjs (sems g) p)) + 1" if "k < 4" for k
    unfolding a event_sums(3)[OF c(2)] using that c len by (simp add: run_up_def)
  have z: "inside (Recv 0) = 1" "inside (ls c) = 0" "owed k (Recv 0) = 1" "owed k (ls c) = 0" for k
    using c by (simp_all add: inside_def owed_def)
  have same: "i < 3 \<Longrightarrow> (ls(c := Recv 0)) i = ls i" for i using c by simp
  have "shape n g' (ls(c := Recv 0))" using sh(1) c same by (simp add: shape_def g' lowered_def)
  moreover have "lock_inv n g' (ls(c := Recv 0))"
    using sh(2) v[of 3] u[of 3] pos[rule_format, of 3] z unfolding lock_inv_def event_sums(1)[OF c(2)] by auto
  moreover have "count_inv n g' (ls(c := Recv 0)) k" if "k < 3" for k
    using co[rule_format, OF that] that v[of k] u[of k] run[of k] pos[rule_format, of k] same[OF that] c
    unfolding count_inv_def by auto
  moreover have "order_inv junk input n g' (ls(c := Recv 0)) k" if "k < 3" for k
    using od[rule_format, OF that] that v[of k] z same[OF that] unfolding order_inv_def event_sums(2)[OF c(2)] by (simp add: g')
  ultimately show ?thesis by (simp add: event_inv_def)
qed

lemma unlock_inv_step:
  assumes inv: "event_inv junk input n g ls" and c: "3 \<le> c" "c < n" "ls c = Unlock_Events"
    and s: "unlock_events c g = Some g'"
  shows "event_inv junk input n g' (ls(c := Lock_Events))"
proof -
  have sh: "shape n g ls" and lk: "lock_inv n g ls" and co: "\<forall>k < 3. count_inv n g ls k" and od: "\<forall>k < 3. order_inv junk input n g ls k"
    using inv by (simp_all add: event_inv_def)
  have len: "length (vals (sems g)) = 4" "length (adjs (sems g) p) = 4" for p using sh by (simp_all add: shape_def)
  have z: "inside Lock_Events = 0" "inside (ls c) = 1" "owed k Lock_Events = 0" "owed k (ls c) = 0" for k
    using c by (simp_all add: inside_def owed_def)
  have a3: "adjs (sems g) c ! 3 = 1" "vals (sems g) ! 3 = 0"
    using lk c z sum_inside[OF c(2), of ls] by (auto simp: lock_inv_def)
  with s raise_cases[of g 3 c] have g': "g' = g\<lparr>sems := shifted c 3 (sems g)\<rparr>" by (simp add: unlock_events_def SEMVMX_def)
  have v: "vals (sems g') ! k = vals (sems g) ! k + of_bool (k = 3)" if "k < 4" for k
    using that len by (simp add: g' shifted_def nth_list_update)
  have u: "adjs (sems g') p ! k = adjs (sems g) p ! k - of_bool (p = c \<and> k = 3)" if "k < 4" for p k
    using that len by (simp add: g' shifted_def nth_list_update)
  have run: "(\<Sum>p<n. run_up k p (adjs (sems g') p)) = (\<Sum>p<n. run_up k p (adjs (sems g) p))" if "k < 3" for k
    by (rule sum.cong) (use that in \<open>auto simp: g' shifted_def run_up_def\<close>)
  have same: "i < 3 \<Longrightarrow> (ls(c := Lock_Events)) i = ls i" for i using c by simp
  have "shape n g' (ls(c := Lock_Events))" using sh c same by (simp add: shape_def g' shifted_def)
  moreover have "lock_inv n g' (ls(c := Lock_Events))"
    using lk v[of 3] u[of 3] a3 z unfolding lock_inv_def event_sums(1)[OF c(2)] by auto
  moreover have "count_inv n g' (ls(c := Lock_Events)) k" if "k < 3" for k
    using co[rule_format, OF that] that v[of k] u[of k] run[of k] same[OF that] unfolding count_inv_def by auto
  moreover have "order_inv junk input n g' (ls(c := Lock_Events)) k" if "k < 3" for k
    using od[rule_format, OF that] that v[of k] z same[OF that] unfolding order_inv_def event_sums(2)[OF c(2)] by (simp add: g')
  ultimately show ?thesis by (simp add: event_inv_def)
qed

lemma recv_inv_step:
  assumes inv: "event_inv junk input n g ls" and c: "3 \<le> c" "c < n" "ls c = Recv k" and k: "k < 3"
    and m: "msgrcv (int k + 1) (queue g) = Some (m, q)"
  shows "event_inv junk input n (g\<lparr>queue := q, taken := taken g @ [m]\<rparr>) (ls(c := Recv (k + 1)))"
proof -
  have m': "take_first (\<lambda>m. fst m = int k + 1) (queue g) = Some (m, q)" using m by (simp add: msgrcv_def)
  have kk: "fst m = int k + 1" "of_type k (queue g) = m # of_type k q" using take_first_Some[OF m'] by (simp_all add: of_type_def)
  have other: "of_type i (queue g) = of_type i q" if "i \<noteq> k" for i
  proof -
    have "filter (\<lambda>x. fst x = int i + 1) (filter (\<lambda>x. fst x \<noteq> int k + 1) q) =
        filter (\<lambda>x. fst x = int i + 1) (filter (\<lambda>x. fst x \<noteq> int k + 1) (queue g))"
      using take_first_Some[OF m'] by simp
    moreover have "(fst x = int i + 1 \<and> fst x \<noteq> int k + 1) = (fst x = int i + 1)" for x :: message using that by auto
    ultimately show ?thesis by (simp add: of_type_def conj_commute)
  qed
  have q: "int (length (of_type i q)) = int (length (of_type i (queue g))) - of_bool (i = k)"
    "of_type i (taken g @ [m] @ q) = of_type i (taken g @ queue g)" for i
    using kk other[of i] by (cases "i = k"; auto)+
  have z: "inside (Recv (k + 1)) = inside (ls c)" "owed i (Recv (k + 1)) = owed i (ls c) - of_bool (i = k)" for i
    using c by (simp_all add: inside_def owed_def)
  have same: "i < 3 \<Longrightarrow> (ls(c := Recv (k + 1))) i = ls i" for i using c by simp
  have sh: "shape n g ls" and lk: "lock_inv n g ls" and co: "\<forall>k < 3. count_inv n g ls k" and od: "\<forall>k < 3. order_inv junk input n g ls k"
    using inv by (simp_all add: event_inv_def)
  let ?g = "g\<lparr>queue := q, taken := taken g @ [m]\<rparr>"
  have "shape n ?g (ls(c := Recv (k + 1)))" using sh c same k by (simp add: shape_def)
  moreover have "lock_inv n ?g (ls(c := Recv (k + 1)))"
    using lk z unfolding lock_inv_def event_sums(1)[OF c(2)] by auto
  moreover have "count_inv n ?g (ls(c := Recv (k + 1))) i" if "i < 3" for i
    using co[rule_format, OF that] same[OF that] unfolding count_inv_def by simp
  moreover have "order_inv junk input n ?g (ls(c := Recv (k + 1))) i" if "i < 3" for i
    using od[rule_format, OF that] z q[of i] same[OF that] unfolding order_inv_def event_sums(2)[OF c(2)] by simp
  ultimately show ?thesis by (simp add: event_inv_def)
qed

lemma consumer_inv:
  assumes inv: "event_inv junk input n g ls" and few: "few_lines ls" and c: "3 \<le> c" "c < n"
    and s: "(g', l') \<in> set (consumer c True True g (ls c))"
  shows "event_inv junk input n g' (ls(c := l'))"
proof (cases "ls c")
  case Lock_Events
  with s show ?thesis
    using lock_inv_step[OF inv few c Lock_Events] by (auto simp: consumer_def goes_def split: option.splits)
next
  case (Recv k)
  show ?thesis
  proof (cases "k < 3")
    case True
    with s Recv recv_inv_step[OF inv c Recv True] show ?thesis by (auto simp: consumer_def split: option.splits)
  next
    case False
    with s Recv have g': "g' = g" "l' = Unlock_Events" by (simp_all add: consumer_def)
    have z: "inside Unlock_Events = inside (ls c)" using Recv by (simp add: inside_def)
    have "k = 3" using inv c Recv False by (force simp: event_inv_def shape_def)
    then have o: "owed i Unlock_Events = owed i (ls c)" if "i < 3" for i using that Recv by (simp add: owed_def)
    have same: "i < 3 \<Longrightarrow> (ls(c := Unlock_Events)) i = ls i" for i using c by simp
    have sh: "shape n g ls" and lk: "lock_inv n g ls" and co: "\<forall>k < 3. count_inv n g ls k" and od: "\<forall>k < 3. order_inv junk input n g ls k"
      using inv by (simp_all add: event_inv_def)
    have "shape n g (ls(c := Unlock_Events))" using sh c same by (simp add: shape_def)
    moreover have "lock_inv n g (ls(c := Unlock_Events))"
      using lk z unfolding lock_inv_def event_sums(1)[OF c(2)] by auto
    moreover have "count_inv n g (ls(c := Unlock_Events)) i \<and> order_inv junk input n g (ls(c := Unlock_Events)) i" if "i < 3" for i
      using co[rule_format, OF that] od[rule_format, OF that] same[OF that] o[OF that]
      unfolding count_inv_def order_inv_def event_sums(2)[OF c(2)] by simp
    ultimately show ?thesis using g' by (simp add: event_inv_def)
  qed
next
  case Unlock_Events
  with s show ?thesis
    using unlock_inv_step[OF inv c Unlock_Events] by (auto simp: consumer_def goes_def split: option.splits)
qed (use s in \<open>simp_all add: consumer_def\<close>)

lemma producer_inv:
  assumes inv: "event_inv junk input n g ls" and v: "valid_input junk input" and few: "few_lines (ls(i := l'))" and i: "i < 3" "i < n"
    and s: "(g', l') \<in> set (producer junk input i g (ls i))"
  shows "event_inv junk input n g' (ls(i := l'))"
proof (cases "ls i")
  case (Send j)
  have "send_msg junk (int i + 1) (input i j) (queue g) = ret (queue g @ [entry junk (int i + 1) (input i j)])"
    using v i by (intro send_msg_ret) (simp_all add: valid_input_def)
  with s Send send_inv[OF inv i Send] show ?thesis by (simp add: producer_def Let_def add.commute)
next
  case (Inc j)
  then have l: "l' = Send (j + 1)" and g: "sem_inc i (i + 1) g = Some g'"
    using s by (auto simp: producer_def goes_def Let_def split: option.splits)
  have "int j < SEMVMX" using few i l by (auto simp: few_lines_def sent_def)
  from inc_inv[OF inv i Inc this g] l show ?thesis by simp
qed (use s in \<open>simp_all add: producer_def Let_def\<close>)

lemma sent_grows:
  assumes "(g', l') \<in> set (event_prog junk input i g l)" and "i < 3"
  shows "sent l \<le> sent l'"
  using assms by (cases l) (auto simp: event_prog_def producer_def goes_def sent_def Let_def split: option.splits sum.splits)

interpretation ev: invariant "event_prog junk input" n event_start
  "\<lambda>g ls. valid_input junk input \<and> 3 \<le> n \<and> few_lines ls \<longrightarrow> event_inv junk input n g ls" for junk input n
proof
  have z: "(\<Sum>c<n. inside (if c < 3 then Send 0 else Lock_Events)) = 0"
    "(\<Sum>c<n. owed k (if c < 3 then Send 0 else Lock_Events)) = 0" "k < 4 \<Longrightarrow> (\<Sum>c<n. run_up k c [0, 0, 0, 0]) = 0" for k
    by (rule sum.neutral; auto simp: inside_def owed_def run_up_def less_four)+
  have "shape n (fst event_start) (snd event_start)" by (simp add: shape_def event_start_def)
  moreover have "lock_inv n (fst event_start) (snd event_start)" using z(1) by (simp add: lock_inv_def event_start_def inside_def)
  moreover have "count_inv n (fst event_start) (snd event_start) i" if "i < 3" for i
    using that z(3)[of i] by (auto simp: count_inv_def event_start_def counted_def less_three)
  moreover have "order_inv junk input n (fst event_start) (snd event_start) i" if "i < 3" for i
    using that z(2)[of i] by (auto simp: order_inv_def event_start_def sent_def less_three)
  ultimately show "valid_input junk input \<and> 3 \<le> n \<and> few_lines (snd event_start) \<longrightarrow>
      event_inv junk input n (fst event_start) (snd event_start)"
    by (simp add: event_inv_def)
  fix g ls i g' l'
  assume inv: "valid_input junk input \<and> 3 \<le> n \<and> few_lines ls \<longrightarrow> event_inv junk input n g ls" and i: "i < n"
    and s: "(g', l') \<in> set (event_prog junk input i g (ls i))"
  show "valid_input junk input \<and> 3 \<le> n \<and> few_lines (ls(i := l')) \<longrightarrow> event_inv junk input n g' (ls(i := l'))"
  proof
    assume v: "valid_input junk input \<and> 3 \<le> n \<and> few_lines (ls(i := l'))"
    have few: "few_lines ls"
      unfolding few_lines_def
    proof (intro allI impI)
      fix k :: nat assume k: "k < 3"
      with v have "int (sent ((ls(i := l')) k)) \<le> SEMVMX" by (simp add: few_lines_def)
      with sent_grows[OF s] k show "int (sent (ls k)) \<le> SEMVMX" by (cases "k = i") auto
    qed
    with inv v have inv': "event_inv junk input n g ls" by blast
    show "event_inv junk input n g' (ls(i := l'))"
    proof (cases "i < 3")
      case True
      with s v producer_inv[OF inv' _ _ True i] show ?thesis by (simp add: event_prog_def)
    next
      case False
      with s consumer_inv[OF inv' few _ i] show ?thesis by (simp add: event_prog_def)
    qed
  qed
qed

lemma one_inside:
  assumes inv: "event_inv junk input n g ls" and i: "i < n" "j < n" "i \<noteq> j"
  shows "inside (ls i) = 0 \<or> inside (ls j) = 0"
proof -
  have "(\<Sum>c\<in>{i, j}. inside (ls c)) \<le> (\<Sum>c<n. inside (ls c))"
    using i inside_range by (intro sum_mono2) auto
  moreover have "(\<Sum>c<n. inside (ls c)) \<le> 1" using inv by (simp add: event_inv_def lock_inv_def)
  ultimately have "inside (ls i) + inside (ls j) \<le> 1" using i(3) by simp
  with inside_range[of "ls i"] inside_range[of "ls j"] show ?thesis by linarith
qed

lemma message_waits:
  assumes inv: "event_inv junk input n g ls" and c: "c < n" "ls c = Recv k" "k < 3"
  shows "of_type k (queue g) \<noteq> []"
proof -
  have "owed k (ls c) \<le> (\<Sum>d<n. owed k (ls d))" by (rule member_le_sum) (use c owed_range in auto)
  moreover have "owed k (ls c) = 1" using c by (simp add: owed_def)
  moreover have "count_inv n g ls k" "order_inv junk input n g ls k" using inv c by (simp_all add: event_inv_def)
  ultimately have "int (length (of_type k (queue g))) \<ge> 1" by (auto simp: order_inv_def count_inv_def)
  then show ?thesis by auto
qed


section \<open>Properties\<close>

text \<open>C35: in the event system at work, with lines of at most 492 bytes and at most 32767 of them from every producer, a
  consumer that reads the messages never waits for one, at most one consumer is at it, and what has been taken
  and what is queued of each producer are its lines in the order sent, whatever the interleaving and the number
  of consumers.\<close>

theorem events_in_order:
  assumes "valid_input junk input" and "3 \<le> n" and "reach (event_prog junk input) n event_start (g, ls)" and "few_lines ls"
  shows "(\<nexists>c k. c < n \<and> ls c = Recv k \<and> k < 3 \<and> msgrcv (int k + 1) (queue g) = None) \<and>
    (\<nexists>c d. c < n \<and> d < n \<and> c \<noteq> d \<and> inside (ls c) = 1 \<and> inside (ls d) = 1) \<and>
    (\<forall>i < 3. of_type i (taken g @ queue g) = map (\<lambda>j. entry junk (int i + 1) (input i j)) [0..<sent (ls i)])"
proof -
  have inv: "event_inv junk input n g ls" using ev.reach_inv[OF assms(3)] assms(1,2,4) by blast
  have "\<nexists>c k. c < n \<and> ls c = Recv k \<and> k < 3 \<and> msgrcv (int k + 1) (queue g) = None"
    using message_waits[OF inv] by (auto simp: msgrcv_def take_first_None of_type_def)
  moreover have "\<nexists>c d. c < n \<and> d < n \<and> c \<noteq> d \<and> inside (ls c) = 1 \<and> inside (ls d) = 1"
    using one_inside[OF inv] by force
  moreover have "\<forall>i < 3. of_type i (taken g @ queue g) = map (\<lambda>j. entry junk (int i + 1) (input i j)) [0..<sent (ls i)]"
    using inv by (simp add: event_inv_def order_inv_def)
  ultimately show ?thesis by blast
qed

lemma send_A:
  "send_msg (replicate 512 0) 1 [65] q = ret (q @ [entry (replicate 512 0) 1 [65]])"
  "send_msg (replicate 512 0) 2 [65] q = ret (q @ [entry (replicate 512 0) 2 [65]])"
  "send_msg (replicate 512 0) 3 [65] q = ret (q @ [entry (replicate 512 0) 3 [65]])"
  by (rule send_msg_ret; simp add: MSG_SIZE_def)+

lemma fst_entry [simp]: "fst (entry junk i d) = i"
  by (simp add: entry_def)

lemmas event_steps = event_prog_def producer_def sem_inc_def consumer_def lock_events_def unlock_events_def
  semop_ignored_def goes_def SEMVMX_def upt_four msgrcv_def Let_def

theorem events_in_order_witness:
  "\<exists>g ls. reach (event_prog (replicate 512 0) (\<lambda>i j. [65])) 4 event_start (g, ls) \<and> ls 3 = Recv 3 \<and>
     of_type 1 (taken g @ queue g) = [entry (replicate 512 0) 2 [65]]"
proof -
  let ?junk = "replicate 512 0" and ?in = "\<lambda>(i :: nat) (j :: nat). [65]"
  let ?e = "\<lambda>i. entry ?junk i [65]"
  have v: "valid_input ?junk ?in" by (simp add: valid_input_def MSG_SIZE_def)
  let ?adjs = "(\<lambda>_. [0, 0, 0, 0])(0 := [- 1, 0, 0, 0], 1 := [0, - 1, 0, 0], 2 := [0, 0, - 1, 0], 3 := [1, 1, 1, 1])"
  let ?g = "\<lparr>queue = [], sems = \<lparr>vals = [0, 0, 0, 0], adjs = ?adjs\<rparr>, taken = [?e 1, ?e 2, ?e 3]\<rparr>"
  let ?ls = "\<lambda>i. if i < 3 then Send 1 else if i = 3 then Recv 3 else Lock_Events"
  have r: "reach (event_prog ?junk ?in) 4 event_start (?g, ?ls)"
    by (rule exec_reach[where sch = "[(0, 0), (0, 0), (1, 0), (1, 0), (2, 0), (2, 0), (3, 0), (3, 0), (3, 0), (3, 0)]"])
      (auto simp: event_start_def event_steps fun_eq_iff send_A)
  have f: "few_lines ?ls" by (simp add: few_lines_def sent_def SEMVMX_def)
  have "\<forall>i < 3. of_type i (taken ?g @ queue ?g) = map (\<lambda>j. entry ?junk (int i + 1) (?in i j)) [0..<sent (?ls i)]"
    by (rule conjunct2[OF conjunct2[OF events_in_order[OF v _ r f]]]) simp
  from this[rule_format, of 1] have "of_type 1 (taken ?g @ queue ?g) = [?e 2]" by (simp add: sent_def)
  moreover have "?ls (3 :: nat) = Recv 3" by simp
  ultimately show ?thesis using r by (intro exI[of _ ?g] exI[of _ ?ls]) (simp only: simp_thms)
qed

section \<open>Too many lines\<close>

text \<open>
  A consumer's adjustments only grow: it lowers the semaphores that others raise. After 32767 rounds its lock
  fails with \<^verbatim>\<open>ERANGE\<close> and it goes on without it.
\<close>

definition after_rounds :: "nat \<Rightarrow> message list \<Rightarrow> (event_sys, event_pc) sys" where
  "after_rounds k t = (\<lparr>queue = [], sems = \<lparr>vals = [0, 0, 0, 1], adjs = (\<lambda>_. [0, 0, 0, 0])
       (0 := [- int k, 0, 0, 0], 1 := [0, - int k, 0, 0], 2 := [0, 0, - int k, 0], 3 := [int k, int k, int k, 0])\<rparr>, taken = t\<rparr>,
     \<lambda>i. if i < 3 then Send k else Lock_Events)"

lemma one_round:
  assumes "reach (event_prog (replicate 512 0) (\<lambda>_ _. [65])) 5 event_start (after_rounds k t)" and "k < 32767"
  shows "\<exists>t. reach (event_prog (replicate 512 0) (\<lambda>_ _. [65])) 5 event_start (after_rounds (k + 1) t)"
proof -
  let ?e = "\<lambda>i. entry (replicate 512 0) i [65]"
  have "exec (event_prog (replicate 512 0) (\<lambda>_ _. [65]))
      [(0, 0), (0, 0), (1, 0), (1, 0), (2, 0), (2, 0), (3, 0), (3, 0), (3, 0), (3, 0), (3, 0), (3, 0)] (after_rounds k t) =
      Some (after_rounds (k + 1) (t @ [?e 1, ?e 2, ?e 3]))"
    using assms(2) by (auto simp: after_rounds_def event_steps fun_eq_iff send_A)
  from exec_reach_from[OF this _ assms(1)] show ?thesis by fastforce
qed

lemma many_rounds: "k \<le> 32767 \<Longrightarrow> \<exists>t. reach (event_prog (replicate 512 0) (\<lambda>_ _. [65])) 5 event_start (after_rounds k t)"
proof (induction k)
  case 0
  have "after_rounds 0 [] = event_start" by (auto simp: after_rounds_def event_start_def)
  then show ?case using reach.start by metis
next
  case (Suc k)
  then show ?case using one_round by fastforce
qed

text \<open>Two consumers are at the messages at once, and one of them waits for a message.\<close>

lemma events_collide:
  "\<exists>g ls. reach (event_prog (replicate 512 0) (\<lambda>_ _. [65])) 5 event_start (g, ls) \<and> (\<forall>i<3. sent (ls i) = 32768) \<and>
    ls 3 = Recv 0 \<and> ls 4 = Recv 1 \<and> msgrcv 1 (queue g) = None"
proof -
  let ?e = "\<lambda>i. entry (replicate 512 0) i [65]" and ?prog = "event_prog (replicate 512 0) (\<lambda>_ _. [65])"
  obtain t where r: "reach ?prog 5 event_start (after_rounds 32767 t)" using many_rounds[of 32767] by blast
  have "case exec ?prog [(0, 0), (0, 0), (1, 0), (1, 0), (2, 0), (2, 0), (3, 0), (4, 0), (4, 0)] (after_rounds 32767 t) of
      None \<Rightarrow> False | Some (g, ls) \<Rightarrow> (\<forall>i<3. sent (ls i) = 32768) \<and> ls 3 = Recv 0 \<and> ls 4 = Recv 1 \<and> queue g = [?e 2, ?e 3]"
    by (simp add: after_rounds_def event_steps send_A less_three sent_def)
  then obtain g ls where x: "exec ?prog [(0, 0), (0, 0), (1, 0), (1, 0), (2, 0), (2, 0), (3, 0), (4, 0), (4, 0)]
      (after_rounds 32767 t) = Some (g, ls)" and l: "\<forall>i<3. sent (ls i) = 32768" "ls 3 = Recv 0" "ls 4 = Recv 1" "queue g = [?e 2, ?e 3]"
    by (auto split: option.splits)
  have "reach ?prog 5 event_start (g, ls)" by (rule exec_reach_from[OF x _ r]) simp
  moreover have "msgrcv 1 (queue g) = None" by (simp add: l(4) msgrcv_def)
  ultimately show ?thesis using l by blast
qed

end
