(* ===== verification/Event_Life.thy ===== *)
theory Event_Life
  imports Events
begin

text \<open>
  The event system of \<^verbatim>\<open>7_ipc/9_sem_event_source.c\<close> and \<^verbatim>\<open>9_sem_event_cons.c\<close> from its start to its end, which theory \<^verbatim>\<open>Events\<close>
  leaves out: the semaphores and the queue are made by whoever comes first, a producer ends with its input, and the producer
  with identifier 1 removes both. Any process can also be killed. At the end of a process, however it comes, the system
  adds the process's adjustments to the semaphores (\<^verbatim>\<open>SEM_UNDO\<close>).

  Process \<open>i < 3\<close> is the one producer with identifier \<open>i + 1\<close>, with the lines \<open>input i\<close>; the others are consumers, started at any time.
  A set and a queue have identifiers, never used again; a process keeps those it got, \<open>None\<close> for the \<^verbatim>\<open>-1\<close> of a consumer that came too
  early, and its calls on anything that is no longer there fail without effect, which the programs ignore.
  Errors of \<^verbatim>\<open>semget\<close> and \<^verbatim>\<open>msgget\<close> other than \<^verbatim>\<open>EEXIST\<close> and \<^verbatim>\<open>ENOENT\<close> are left out, and what a consumer prints after a failed \<^verbatim>\<open>msgrcv\<close>
  (its uninitialised buffer) is not followed.
\<close>

record event_life =
  ev :: event_sys
  set_id :: "nat option"
  queue_id :: "nat option"
  next_id :: nat

datatype life_pc =
    Ev_Start
  | Ev_Set_All nat
  | Ev_Connect
  | Ev_Queue nat
  | Ev_Send nat nat "byte list list"
  | Ev_Inc nat nat "byte list list"
  | Ev_Remove_Queue nat nat
  | Ev_Remove_Sems nat
  | Ev_Exit
  | Ev_Done
  | Ev_Get_Queue "nat option"
  | Ev_Consume "nat option" "nat option" event_pc

section \<open>The calls\<close>

definition with_sems :: "sem_set \<Rightarrow> event_life \<Rightarrow> event_life" where
  "with_sems s g = g\<lparr>ev := (ev g)\<lparr>sems := s\<rparr>\<rparr>"

definition fresh_sems :: "int list \<Rightarrow> sem_set" where
  "fresh_sems vs = \<lparr>vals = vs, adjs = \<lambda>_. [0, 0, 0, 0]\<rparr>"

text \<open>\<^verbatim>\<open>sem_get_or_create\<close> is up to two calls of the system: create and set, or find that it exists and connect.\<close>

definition sem_create :: "event_life \<Rightarrow> event_life \<times> life_pc" where
  "sem_create g = (case set_id g of
       None \<Rightarrow> ((with_sems (fresh_sems [0, 0, 0, 0]) g)\<lparr>set_id := Some (next_id g), next_id := next_id g + 1\<rparr>, Ev_Set_All (next_id g))
     | Some _ \<Rightarrow> (g, Ev_Connect))"

definition sem_connect :: "event_life \<Rightarrow> life_pc" where
  "sem_connect g = (case set_id g of None \<Rightarrow> Ev_Exit | Some s \<Rightarrow> Ev_Queue s)"

text \<open>\<^verbatim>\<open>SETALL\<close> also forgets all adjustments.\<close>

definition set_all :: "nat \<Rightarrow> event_life \<Rightarrow> event_life" where
  "set_all sid g = (if set_id g = Some sid then with_sems (fresh_sems [0, 0, 0, 1]) g else g)"

definition msg_queue_get_or_create :: "event_life \<Rightarrow> event_life \<times> nat" where
  "msg_queue_get_or_create g = (case queue_id g of
       None \<Rightarrow> (g\<lparr>queue_id := Some (next_id g), next_id := next_id g + 1, ev := (ev g)\<lparr>queue := []\<rparr>\<rparr>, next_id g)
     | Some q \<Rightarrow> (g, q))"

definition remove_queue :: "nat \<Rightarrow> event_life \<Rightarrow> event_life" where
  "remove_queue qid g = (if queue_id g = Some qid then g\<lparr>queue_id := None, ev := (ev g)\<lparr>queue := []\<rparr>\<rparr> else g)"

definition remove_sems :: "nat \<Rightarrow> event_life \<Rightarrow> event_life" where
  "remove_sems sid g = (if set_id g = Some sid then (with_sems (fresh_sems [0, 0, 0, 0]) g)\<lparr>set_id := None\<rparr> else g)"

text \<open>The end of a process: values stay in their range.\<close>

definition undo_all :: "nat \<Rightarrow> sem_set \<Rightarrow> sem_set" where
  "undo_all p s = s\<lparr>vals := map (\<lambda>k. max 0 (min SEMVMX (vals s ! k + adjs s p ! k))) [0..<4], adjs := (adjs s)(p := [0, 0, 0, 0])\<rparr>"

definition life_ends :: "nat \<Rightarrow> event_life \<Rightarrow> event_life \<times> life_pc" where
  "life_ends p g = (with_sems (undo_all p (sems (ev g))) g, Ev_Done)"

section \<open>The programs\<close>

definition source_main :: "byte list \<Rightarrow> (nat \<Rightarrow> byte list list) \<Rightarrow> nat \<Rightarrow> event_life \<Rightarrow> life_pc \<Rightarrow> (event_life \<times> life_pc) list" where
  "source_main junk input i g l = (let myid = i + 1 in case l of
       Ev_Start \<Rightarrow> [sem_create g]
     | Ev_Set_All sid \<Rightarrow> [(set_all sid g, Ev_Queue sid)]
     | Ev_Connect \<Rightarrow> [(g, sem_connect g)]
     | Ev_Queue sid \<Rightarrow> (case msg_queue_get_or_create g of (g, qid) \<Rightarrow> [(g, Ev_Send sid qid (input i))])
     | Ev_Send sid qid [] \<Rightarrow> [(g, if myid = 1 then Ev_Remove_Queue sid qid else Ev_Exit)]
     | Ev_Send sid qid (x # xs) \<Rightarrow> if queue_id g \<noteq> Some qid then [(g, Ev_Inc sid qid xs)]
         else (case send_msg junk (int myid) x (queue (ev g)) of
             Some (Inr q) \<Rightarrow> [(g\<lparr>ev := (ev g)\<lparr>queue := q\<rparr>\<rparr>, Ev_Inc sid qid xs)] | _ \<Rightarrow> [])
     | Ev_Inc sid qid xs \<Rightarrow> if set_id g \<noteq> Some sid then [(g, Ev_Send sid qid xs)]
         else (case sem_inc i myid (ev g) of None \<Rightarrow> [] | Some e \<Rightarrow> [(g\<lparr>ev := e\<rparr>, Ev_Send sid qid xs)])
     | Ev_Remove_Queue sid qid \<Rightarrow> [(remove_queue qid g, Ev_Remove_Sems sid)]
     | Ev_Remove_Sems sid \<Rightarrow> [(remove_sems sid g, Ev_Exit)]
     | Ev_Exit \<Rightarrow> [life_ends i g]
     | _ \<Rightarrow> [])"

definition valid_id :: "nat option \<Rightarrow> nat option \<Rightarrow> bool" where
  "valid_id mine current \<longleftrightarrow> mine \<noteq> None \<and> mine = current"

definition cons_main :: "nat \<Rightarrow> event_life \<Rightarrow> life_pc \<Rightarrow> (event_life \<times> life_pc) list" where
  "cons_main p g l = (case l of
       Ev_Start \<Rightarrow> [(g, Ev_Get_Queue (set_id g))]
     | Ev_Get_Queue sid \<Rightarrow> [(g, Ev_Consume sid (queue_id g) Lock_Events)]
     | Ev_Consume sid qid c \<Rightarrow> map (\<lambda>(e, c). (g\<lparr>ev := e\<rparr>, Ev_Consume sid qid c))
         (consumer p (valid_id sid (set_id g)) (valid_id qid (queue_id g)) (ev g) c)
     | _ \<Rightarrow> [])"

definition killed :: "nat \<Rightarrow> event_life \<Rightarrow> life_pc \<Rightarrow> (event_life \<times> life_pc) list" where
  "killed p g l = (if l = Ev_Done then [] else [life_ends p g])"

definition life_prog :: "byte list \<Rightarrow> (nat \<Rightarrow> byte list list) \<Rightarrow> (event_life, life_pc) prog" where
  "life_prog junk input i g l = (if i < 3 then source_main junk input i g l else cons_main i g l) @ killed i g l"

definition life_start :: "(event_life, life_pc) sys" where
  "life_start = (\<lparr>ev = \<lparr>queue = [], sems = fresh_sems [0, 0, 0, 0], taken = []\<rparr>, set_id = None, queue_id = None, next_id = 0\<rparr>, \<lambda>_. Ev_Start)"

section \<open>What is owed for a semaphore\<close>

text \<open>A producer's semaphore never counts more than what the producer's end would take back.\<close>

definition balanced :: "sem_set \<Rightarrow> bool" where
  "balanced s \<longleftrightarrow> (\<forall>p. in_range p s) \<and> (\<forall>i<3. vals s ! i \<le> - adjs s i ! i \<and> (\<forall>j<3. j \<noteq> i \<longrightarrow> adjs s j ! i = 0))"

text \<open>A step of process \<open>p\<close> leaves the other producers' adjustments alone, or resets them.\<close>

definition settles :: "nat \<Rightarrow> sem_set \<Rightarrow> sem_set \<Rightarrow> bool" where
  "settles p s s' \<longleftrightarrow> balanced s' \<and> (\<forall>i<3. i \<noteq> p \<longrightarrow> adjs s' i ! i = adjs s i ! i \<or> adjs s' i ! i = 0)"

lemma settles_refl: "balanced s \<Longrightarrow> settles p s s"
  by (simp add: settles_def)

lemma fresh_settles:
  assumes "length vs = 4" and "\<forall>i<3. vs ! i = 0" and "0 \<le> vs ! 3" and "vs ! 3 \<le> SEMVMX"
  shows "settles p s (fresh_sems vs)"
  using assms by (simp add: settles_def balanced_def in_range_def fresh_sems_def less_three all_less_four SEMVMX_def)

lemma fresh_zero: "settles p s (fresh_sems [0, 0, 0, 0])" "settles p s (fresh_sems [0, 0, 0, 1])"
  by (rule fresh_settles; simp add: less_three SEMVMX_def)+

lemma nth_upd: "length xs = 4 \<Longrightarrow> i < 4 \<Longrightarrow> xs[k := v] ! i = (if i = k then v else xs ! i)"
  by simp

text \<open>Operations that raise only the last semaphore, by a consumer.\<close>

lemma lower_settles:
  assumes "semop_undo p ops s = Sem_Done s'" and "balanced s" and "3 \<le> p" and "\<forall>(k, d) \<in> set ops. k < 4 \<and> (k < 3 \<longrightarrow> d \<le> 0)"
  shows "settles p s s'"
  using assms
proof (induction p ops s rule: semop_undo.induct)
  case (1 p s)
  then show ?case by (simp add: settles_refl)
next
  case (2 p k d ops s)
  define s1 where "s1 = s\<lparr>vals := (vals s)[k := vals s ! k + d], adjs := (adjs s)(p := (adjs s p)[k := adjs s p ! k - d])\<rparr>"
  from 2(2) have c: "0 \<le> vals s ! k + d" "vals s ! k + d \<le> SEMVMX" "- SEMVMX - 1 \<le> adjs s p ! k - d" "adjs s p ! k - d \<le> SEMVMX"
    and r: "semop_undo p ops s1 = Sem_Done s'" by (auto simp: Let_def s1_def split: if_splits)
  have b: "in_range q s" for q using 2(3) by (simp add: balanced_def)
  then have len: "length (vals s) = 4" "length (adjs s q) = 4" for q by (simp_all add: in_range_def)
  have v: "vals s1 ! i = (if i = k then vals s ! k + d else vals s ! i)" if "i < 4" for i
    using that len by (simp add: s1_def nth_upd)
  have u: "adjs s1 q ! i = (if q = p \<and> i = k then adjs s p ! k - d else adjs s q ! i)" if "i < 4" for q i
    using that len by (simp add: s1_def nth_upd)
  have "in_range q s1" for q
  proof -
    have "length (vals s1) = 4" "length (adjs s1 q) = 4" using len by (simp_all add: s1_def)
    with c v u b[of q] show ?thesis unfolding in_range_def by auto
  qed
  moreover have "vals s1 ! i \<le> - adjs s1 i ! i \<and> (\<forall>j<3. j \<noteq> i \<longrightarrow> adjs s1 j ! i = 0)" if "i < 3" for i
    using that v[of i] u[of i] 2(3,4,5) by (auto simp: balanced_def)
  ultimately have b1: "balanced s1" by (simp add: balanced_def)
  have "settles p s1 s'" using 2(1)[OF refl refl] c r b1 2(4,5) by (simp add: s1_def not_less)
  moreover have "adjs s1 i ! i = adjs s i ! i" if "i < 3" "i \<noteq> p" for i using that u[of i i] by simp
  ultimately show ?case by (simp add: settles_def)
qed

lemma raise_settles:
  assumes "sem_inc i (i + 1) e = Some e'" and "balanced (sems e)" and i: "i < 3"
  shows "settles i (sems e) (sems e')"
proof -
  have b: "in_range q (sems e)" for q using assms(2) by (simp add: balanced_def)
  then have len: "length (vals (sems e)) = 4" "length (adjs (sems e) q) = 4" for q by (simp_all add: in_range_def)
  have c: "0 \<le> vals (sems e) ! i" "adjs (sems e) i ! i \<le> SEMVMX" using b[of i] i by (simp_all add: in_range_def)
  show ?thesis
  proof (cases "vals (sems e) ! i < SEMVMX \<and> - SEMVMX - 1 < adjs (sems e) i ! i")
    case True
    with assms(1) raise_cases[OF c] have e': "sems e' = shifted i i (sems e)" by (auto simp: sem_inc_def)
    have v: "vals (sems e') ! k = vals (sems e) ! k + of_bool (k = i)" if "k < 4" for k
      using that len by (simp add: e' shifted_def nth_upd)
    have u: "adjs (sems e') q ! k = adjs (sems e) q ! k - of_bool (q = i \<and> k = i)" if "k < 4" for q k
      using that len by (simp add: e' shifted_def nth_upd)
    have "in_range q (sems e')" for q
    proof -
      have "length (vals (sems e')) = 4" "length (adjs (sems e') q) = 4" using len by (simp_all add: e' shifted_def)
      with v u b[of q] True c show ?thesis unfolding in_range_def by auto
    qed
    moreover have "vals (sems e') ! k \<le> - adjs (sems e') k ! k \<and> (\<forall>j<3. j \<noteq> k \<longrightarrow> adjs (sems e') j ! k = 0)" if "k < 3" for k
      using that v[of k] u[of k] assms(2) by (auto simp: balanced_def)
    ultimately have "balanced (sems e')" by (simp add: balanced_def)
    with u show ?thesis by (simp add: settles_def)
  next
    case False
    with assms(1) raise_cases[OF c] have "e' = e" by (auto simp: sem_inc_def)
    with assms(2) show ?thesis by (simp add: settles_refl)
  qed
qed

lemma undo_settles:
  assumes "balanced s" and i: "i < 3"
  shows "settles i s (undo_all i s)" "adjs (undo_all i s) i ! i = 0"
proof -
  have b: "in_range q s" for q using assms(1) by (simp add: balanced_def)
  have v: "vals (undo_all i s) ! k = (if k = i then 0 else vals s ! k)" if "k < 3" for k
    using that assms b[of i] by (auto simp: undo_all_def upt_four less_three balanced_def in_range_def all_less_four SEMVMX_def)
  have "in_range q (undo_all i s)" for q
    using b[of q] by (auto simp: in_range_def undo_all_def upt_four all_less_four SEMVMX_def)
  moreover have "vals (undo_all i s) ! k \<le> - adjs (undo_all i s) k ! k \<and> (\<forall>j<3. j \<noteq> k \<longrightarrow> adjs (undo_all i s) j ! k = 0)" if "k < 3" for k
    using that v[of k] assms by (auto simp: balanced_def undo_all_def less_three)
  ultimately show "settles i s (undo_all i s)" by (simp add: settles_def balanced_def undo_all_def)
  show "adjs (undo_all i s) i ! i = 0" using i by (auto simp: undo_all_def less_three)
qed

section \<open>The steps keep the balance\<close>

lemma sems_with_sems [simp]: "sems (ev (with_sems s g)) = s"
  by (simp add: with_sems_def)

lemma source_settles:
  assumes b: "balanced (sems (ev g))" and i: "i < 3" and s: "(g', l') \<in> set (source_main junk input i g l @ killed i g l)"
  shows "settles i (sems (ev g)) (sems (ev g')) \<and> (l' = Ev_Done \<longrightarrow> adjs (sems (ev g')) i ! i = 0)"
proof -
  note keep = settles_refl[OF b, of i] and undo = undo_settles[OF b i]
  have ends: "settles i (sems (ev g)) (sems (ev (fst (life_ends i g)))) \<and> adjs (sems (ev (fst (life_ends i g)))) i ! i = 0"
    using undo by (simp add: life_ends_def)
  consider "(g', l') = life_ends i g" | "(g', l') \<in> set (source_main junk input i g l)" "l \<noteq> Ev_Exit"
    using s by (cases "l = Ev_Exit") (auto simp: killed_def source_main_def split: if_splits)
  then show ?thesis
  proof cases
    case 1
    with ends show ?thesis by (metis fst_conv)
  next
    case 2
    then show ?thesis
    proof (cases l)
      case (Ev_Inc sid qid xs)
      with 2 raise_settles[OF _ b i] keep show ?thesis by (auto simp: source_main_def split: if_splits option.splits)
    next
      case (Ev_Send sid qid xs)
      with 2 keep show ?thesis by (cases xs) (auto simp: source_main_def split: if_splits option.splits sum.splits)
    qed (use keep fresh_zero in \<open>auto simp: source_main_def sem_create_def sem_connect_def set_all_def msg_queue_get_or_create_def
        remove_queue_def remove_sems_def split: option.splits\<close>)
  qed
qed

lemma ignored_settles:
  assumes "semop_ignored p ops e = Some e'" and "balanced (sems e)" and "3 \<le> p" and "\<forall>(k, d) \<in> set ops. k < 4 \<and> (k < 3 \<longrightarrow> d \<le> 0)"
  shows "settles p (sems e) (sems e')"
  using assms lower_settles[OF _ assms(2-4)] settles_refl[OF assms(2)]
  by (auto simp: semop_ignored_def split: sem_result.splits)

lemma consumer_settles:
  assumes b: "balanced (sems (ev g))" and p: "3 \<le> p" and s: "(g', l') \<in> set (cons_main p g l)"
  shows "settles p (sems (ev g)) (sems (ev g'))"
proof (cases l)
  case (Ev_Consume sid qid c)
  then obtain e c' where e: "(e, c') \<in> set (consumer p (valid_id sid (set_id g)) (valid_id qid (queue_id g)) (ev g) c)"
    and g': "g' = g\<lparr>ev := e\<rparr>" using s by (auto simp: cons_main_def)
  have lock: "settles p (sems (ev g)) (sems e)" if "lock_events p (ev g) = Some e"
    using ignored_settles[OF _ b p] that by (simp add: lock_events_def upt_four)
  have unlock: "settles p (sems (ev g)) (sems e)" if "unlock_events p (ev g) = Some e"
    using ignored_settles[OF _ b p] that by (simp add: unlock_events_def)
  show ?thesis
    using e lock unlock settles_refl[OF b] unfolding g'
    by (cases c) (auto simp: consumer_def goes_def split: option.splits if_splits)
qed (use s settles_refl[OF b] in \<open>auto simp: cons_main_def\<close>)

text \<open>As long as no consumer has been killed.\<close>

definition consumers_live :: "nat \<Rightarrow> (nat \<Rightarrow> life_pc) \<Rightarrow> bool" where
  "consumers_live n ls \<longleftrightarrow> (\<forall>c<n. 3 \<le> c \<longrightarrow> ls c \<noteq> Ev_Done)"

definition life_inv :: "event_life \<Rightarrow> (nat \<Rightarrow> life_pc) \<Rightarrow> bool" where
  "life_inv g ls \<longleftrightarrow> balanced (sems (ev g)) \<and> (\<forall>i<3. ls i = Ev_Done \<longrightarrow> adjs (sems (ev g)) i ! i = 0)"

lemma life_inv_settles:
  assumes "life_inv g ls" and "settles p (sems (ev g)) (sems (ev g'))" and "p < 3 \<Longrightarrow> l' = Ev_Done \<Longrightarrow> adjs (sems (ev g')) p ! p = 0"
  shows "life_inv g' (ls(p := l'))"
  unfolding life_inv_def
proof (intro conjI allI impI)
  show "balanced (sems (ev g'))" using assms(2) by (simp add: settles_def)
  fix i :: nat assume "i < 3" "(ls(p := l')) i = Ev_Done"
  with assms show "adjs (sems (ev g')) i ! i = 0" by (cases "i = p") (auto simp: life_inv_def settles_def)
qed

interpretation li: invariant "life_prog junk input" n life_start "\<lambda>g ls. consumers_live n ls \<longrightarrow> life_inv g ls" for junk input n
proof
  show "consumers_live n (snd life_start) \<longrightarrow> life_inv (fst life_start) (snd life_start)"
    using fresh_zero(1) by (simp add: life_inv_def life_start_def settles_def)
  fix g ls i g' l'
  assume inv: "consumers_live n ls \<longrightarrow> life_inv g ls" and i: "i < n" and s: "(g', l') \<in> set (life_prog junk input i g (ls i))"
  show "consumers_live n (ls(i := l')) \<longrightarrow> life_inv g' (ls(i := l'))"
  proof
    assume live: "consumers_live n (ls(i := l'))"
    have "ls i \<noteq> Ev_Done" using s by (auto simp: life_prog_def killed_def source_main_def cons_main_def split: if_splits)
    with live have "consumers_live n ls" unfolding consumers_live_def by (metis fun_upd_other)
    with inv have li: "life_inv g ls" by blast
    then have b: "balanced (sems (ev g))" by (simp add: life_inv_def)
    show "life_inv g' (ls(i := l'))"
    proof (cases "i < 3")
      case True
      with s have "(g', l') \<in> set (source_main junk input i g (ls i) @ killed i g (ls i))" by (simp add: life_prog_def)
      with source_settles[OF b True] show ?thesis by (intro life_inv_settles[OF li]) blast+
    next
      case False
      with live i have "l' \<noteq> Ev_Done" by (force simp: consumers_live_def)
      with s False have "(g', l') \<in> set (cons_main i g (ls i))" by (auto simp: life_prog_def killed_def life_ends_def split: if_splits)
      with consumer_settles[OF b] False show ?thesis by (intro life_inv_settles[OF li]) auto
    qed
  qed
qed

section \<open>Properties\<close>

text \<open>C34: in every interleaving in which no consumer is killed, once a producer has ended, by the end of its input or killed, its
  semaphore is 0 whatever has been sent and not been taken: the system takes back what the producer has counted. A consumer
  about to enter then waits, as long as its set of semaphores is the one in use and its own adjustments have room;
  one whose set has been removed enters at once.\<close>

theorem producer_end_blocks:
  assumes "reach (life_prog junk input) n life_start (g, ls)" and "i < 3" and "ls i = Ev_Done" and "consumers_live n ls"
  shows "vals (sems (ev g)) ! i = 0 \<and>
    (\<forall>c<n. \<forall>s q. 3 \<le> c \<and> ls c = Ev_Consume s q Lock_Events \<longrightarrow>
      (if valid_id s (set_id g)
       then (\<forall>k<4. 0 < vals (sems (ev g)) ! k \<longrightarrow> adjs (sems (ev g)) c ! k < SEMVMX) \<longrightarrow> cons_main c g (ls c) = []
       else cons_main c g (ls c) = [(g, Ev_Consume s q (Recv 0))]))"
proof -
  have inv: "life_inv g ls" using li.reach_inv[OF assms(1)] assms(4) by blast
  then have r: "in_range c (sems (ev g))" for c by (simp add: life_inv_def balanced_def)
  have "vals (sems (ev g)) ! i \<le> 0" using inv assms(2,3) by (force simp: life_inv_def balanced_def)
  moreover have "0 \<le> vals (sems (ev g)) ! i" using r[of 0] assms(2) by (simp add: in_range_def)
  ultimately have z: "vals (sems (ev g)) ! i = 0" by simp
  have "lock_events c (ev g) = None" if "\<forall>k<4. 0 < vals (sems (ev g)) ! k \<longrightarrow> adjs (sems (ev g)) c ! k < SEMVMX" for c
    using lock_events_cases(2)[OF r _ z that] assms(2) by simp
  with z show ?thesis by (auto simp: cons_main_def consumer_def goes_def)
qed

lemmas life_steps = life_start_def life_prog_def killed_def life_ends_def undo_all_def source_main_def cons_main_def sem_create_def
  sem_connect_def set_all_def msg_queue_get_or_create_def remove_queue_def remove_sems_def with_sems_def fresh_sems_def valid_id_def
  event_steps

text \<open>Three lines have been sent, one by each producer, but one of the producers has ended: nothing can be taken.\<close>

theorem producer_end_blocks_witness:
  "\<exists>g ls. reach (life_prog (replicate 512 0) (\<lambda>_. [[65]])) 4 life_start (g, ls) \<and>
    (\<forall>i<3. length (of_type i (queue (ev g))) = 1) \<and> ls 1 = Ev_Done \<and> ls 3 = Ev_Consume (Some 0) (Some 1) Lock_Events \<and>
    vals (sems (ev g)) = [1, 0, 1, 1] \<and> cons_main 3 g (ls 3) = []"
proof -
  let ?junk = "replicate 512 0" and ?e = "\<lambda>i. entry (replicate 512 0) i [65]"
  let ?g = "\<lparr>ev = \<lparr>queue = [?e 1, ?e 2, ?e 3], sems = \<lparr>vals = [1, 0, 1, 1],
      adjs = (\<lambda>_. [0, 0, 0, 0])(0 := [- 1, 0, 0, 0], 2 := [0, 0, - 1, 0])\<rparr>, taken = []\<rparr>, set_id = Some 0, queue_id = Some 1, next_id = 2\<rparr>"
  let ?ls = "(\<lambda>_. Ev_Start)(0 := Ev_Send 0 1 [], 1 := Ev_Done, 2 := Ev_Send 0 1 [], 3 := Ev_Consume (Some 0) (Some 1) Lock_Events)"
  have r: "reach (life_prog ?junk (\<lambda>_. [[65]])) 4 life_start (?g, ?ls)"
    by (rule exec_reach[where sch = "[(0, 0), (0, 0), (0, 0), (3, 0), (3, 0), (0, 0), (0, 0), (1, 0), (1, 0), (1, 0), (1, 0), (1, 0),
        (2, 0), (2, 0), (2, 0), (2, 0), (2, 0), (1, 0), (1, 0)]"])
      (auto simp: life_steps send_A fun_eq_iff)
  have "\<forall>i<3. length (of_type i (queue (ev ?g))) = 1" by (auto simp: less_three of_type_def)
  moreover have "cons_main 3 ?g (?ls 3) = []"
    using conjunct2[OF producer_end_blocks[OF r, of 1], rule_format, of 3 "Some 0" "Some 1"]
    by (simp add: consumers_live_def valid_id_def all_less_four SEMVMX_def less_four)
  ultimately show ?thesis using r by (intro exI[of _ ?g] exI[of _ ?ls]) simp
qed

section \<open>What goes wrong\<close>

text \<open>A consumer that is killed gives back what it has taken: the semaphore of a producer that has ended rises again, and
  the next consumer enters and waits for a message that does not exist.\<close>

lemma killed_consumer_raises:
  "\<exists>g ls. reach (life_prog (replicate 512 0) (\<lambda>_. [[65]])) 5 life_start (g, ls) \<and> ls 1 = Ev_Done \<and> ls 3 = Ev_Done \<and>
    vals (sems (ev g)) = [0, 0, 0, 0] \<and> ls 4 = Ev_Consume (Some 0) (Some 1) (Recv 0) \<and> msgrcv 1 (queue (ev g)) = None"
proof -
  let ?junk = "replicate 512 0" and ?e = "\<lambda>i. entry (replicate 512 0) i [65]"
  let ?sch = "[(0, 0), (0, 0), (0, 0), (3, 0), (3, 0), (4, 0), (4, 0), (0, 0), (0, 0), (1, 0), (1, 0), (1, 0), (1, 0), (1, 0),
    (2, 0), (2, 0), (2, 0), (2, 0), (2, 0), (3, 0), (3, 0), (3, 0), (3, 0), (3, 0), (3, 0), (1, 0), (1, 0), (3, 0), (4, 0)]"
  have "case exec (life_prog ?junk (\<lambda>_. [[65]])) ?sch life_start of None \<Rightarrow> False | Some (g, ls) \<Rightarrow> ls 1 = Ev_Done \<and> ls 3 = Ev_Done \<and>
      vals (sems (ev g)) = [0, 0, 0, 0] \<and> ls 4 = Ev_Consume (Some 0) (Some 1) (Recv 0) \<and> queue (ev g) = []"
    by (simp add: life_steps send_A)
  then obtain g ls where x: "exec (life_prog ?junk (\<lambda>_. [[65]])) ?sch life_start = Some (g, ls)"
    and l: "ls 1 = Ev_Done" "ls 3 = Ev_Done" "vals (sems (ev g)) = [0, 0, 0, 0]" "ls 4 = Ev_Consume (Some 0) (Some 1) (Recv 0)" "queue (ev g) = []"
    by (auto split: option.splits)
  have "reach (life_prog ?junk (\<lambda>_. [[65]])) 5 life_start (g, ls)" by (rule exec_reach[OF x]) simp
  moreover have "msgrcv 1 (queue (ev g)) = None" using l(5) by (simp add: msgrcv_def)
  ultimately show ?thesis using l by blast
qed

text \<open>Consumers whose set has been removed, or that came before it was made, are inside together.\<close>

lemma stale_consumers_enter:
  "\<exists>g ls. reach (life_prog (replicate 512 0) (\<lambda>_. [])) 5 life_start (g, ls) \<and> set_id g = None \<and>
    ls 3 = Ev_Consume (Some 0) (Some 1) (Recv 0) \<and> ls 4 = Ev_Consume None None (Recv 0)"
proof -
  let ?ls = "(\<lambda>_. Ev_Start)(0 := Ev_Done, 3 := Ev_Consume (Some 0) (Some 1) (Recv 0), 4 := Ev_Consume None None (Recv 0))"
  have "reach (life_prog (replicate 512 0) (\<lambda>_. [])) 5 life_start
      (\<lparr>ev = \<lparr>queue = [], sems = \<lparr>vals = [0, 0, 0, 0], adjs = \<lambda>_. [0, 0, 0, 0]\<rparr>, taken = []\<rparr>, set_id = None, queue_id = None, next_id = 2\<rparr>, ?ls)"
    by (rule exec_reach[where sch = "[(4, 0), (4, 0), (0, 0), (0, 0), (0, 0), (3, 0), (3, 0), (0, 0), (0, 0), (0, 0), (0, 0), (3, 0), (4, 0)]"])
      (auto simp: life_steps fun_eq_iff)
  then show ?thesis by fastforce
qed

text \<open>A producer that connects between the creation of the semaphores and \<^verbatim>\<open>SETALL\<close> loses what it has counted.\<close>

lemma set_all_loses:
  "\<exists>g ls. reach (life_prog (replicate 512 0) (\<lambda>_. [[65]])) 3 life_start (g, ls) \<and>
    length (of_type 1 (queue (ev g))) = 1 \<and> vals (sems (ev g)) = [0, 0, 0, 1] \<and> ls 1 = Ev_Send 0 1 []"
proof -
  let ?junk = "replicate 512 0" and ?e = "entry (replicate 512 0) 2 [65]"
  let ?g = "\<lparr>ev = \<lparr>queue = [?e], sems = fresh_sems [0, 0, 0, 1], taken = []\<rparr>, set_id = Some 0, queue_id = Some 1, next_id = 2\<rparr>"
  let ?ls = "(\<lambda>_. Ev_Start)(0 := Ev_Queue 0, 1 := Ev_Send 0 1 [])"
  have "reach (life_prog ?junk (\<lambda>_. [[65]])) 3 life_start (?g, ?ls)"
    by (rule exec_reach[where sch = "[(0, 0), (1, 0), (1, 0), (1, 0), (1, 0), (1, 0), (0, 0)]"])
      (auto simp: life_steps send_A fun_eq_iff)
  then show ?thesis by (intro exI[of _ ?g] exI[of _ ?ls]) (simp add: of_type_def fresh_sems_def)
qed

end
