(* ===== verification/Robust_Mutex.thy ===== *)
theory Robust_Mutex
  imports Pipes
begin

text \<open>
  Two examples about who owns what. \<^verbatim>\<open>7_ipc/11_shm.c\<close>: a mutex in shared memory whose owner, a child process, dies; the mutex is
  robust, as POSIX describes it. \<^verbatim>\<open>6_threads/15_gcc_thread.c\<close>: threads with a variable of their own, here for any number of
  threads; \<^verbatim>\<open>16_pthread_key.c\<close> does the same with \<^verbatim>\<open>pthread_setspecific\<close>. Both are interleavings.
\<close>

section \<open>A mutex whose owner dies\<close>

text \<open>Where the mutex is put in the shared memory: behind \<open>mem\<close>, aligned.\<close>

definition mutex_place :: "nat \<Rightarrow> nat \<Rightarrow> nat" where
  "mutex_place mem align = mem + align - mem mod align"

lemma mutex_place_aligned:
  assumes "0 < align"
  shows "align dvd mutex_place mem align \<and> mem < mutex_place mem align \<and> mutex_place mem align \<le> mem + align"
proof -
  have r: "mem mod align < align" using assms by simp
  have "mem = align * (mem div align) + mem mod align" by simp
  with r have "mutex_place mem align = align * (mem div align) + align" unfolding mutex_place_def by linarith
  then have "mutex_place mem align = align * (mem div align + 1)" by simp
  then have "align dvd mutex_place mem align" by (metis dvd_triv_left)
  moreover from r have "mem < mutex_place mem align" "mutex_place mem align \<le> mem + align" by (simp_all add: mutex_place_def)
  ultimately show ?thesis by blast
qed

datatype proc = Parent | Child

datatype shm_line =
    Child_Holds
  | Child_Dies
  | Parent_Waits
  | Parent_Tries
  | Owner_Dead
  | Destroy_Mutex
  | Free_Shmem

text \<open>\<open>ruined\<close>: unlocked while inconsistent, so that nobody can lock it any more.\<close>

record robust =
  shm_data :: int
  mx_owner :: "proc option"
  inconsistent :: bool
  ruined :: bool
  destroyed :: bool
  kid_lives :: bool
  segment :: bool
  shm_out :: "shm_line list"

datatype robust_pc =
    P_Fork
  | P_Print_Wait
  | P_Spin
  | P_Print_Try
  | P_Lock
  | P_Test bool
  | P_Restore
  | P_Print_Destroy
  | P_Unlock
  | P_Destroy
  | P_Print_Free
  | P_Remove
  | P_End
  | K_Unborn
  | K_Print_Holds
  | K_Lock
  | K_Set
  | K_Print_Dies
  | K_Exit
  | K_End

text \<open>The flag is \<^verbatim>\<open>EOWNERDEAD\<close>: the mutex is locked, but its state has to be repaired. A living owner makes the caller wait.\<close>

definition robust_lock :: "proc \<Rightarrow> robust \<Rightarrow> (bool \<times> robust) list" where
  "robust_lock who g = (case mx_owner g of
       None \<Rightarrow> if ruined g then [(False, g)] else [(False, g\<lparr>mx_owner := Some who\<rparr>)]
     | Some p \<Rightarrow> if p = Child \<and> \<not> kid_lives g then [(True, g\<lparr>mx_owner := Some who, inconsistent := True\<rparr>)] else [])"

definition robust_unlock :: "proc \<Rightarrow> robust \<Rightarrow> robust" where
  "robust_unlock who g = (if mx_owner g \<noteq> Some who then g
     else g\<lparr>mx_owner := None, ruined := ruined g \<or> inconsistent g, inconsistent := False\<rparr>)"

definition shm_print :: "shm_line \<Rightarrow> robust \<Rightarrow> robust" where
  "shm_print x g = g\<lparr>shm_out := shm_out g @ [x]\<rparr>"

definition shm_parent :: "robust \<Rightarrow> robust_pc \<Rightarrow> (robust \<times> robust_pc) list" where
  "shm_parent g l = (case l of
       P_Fork \<Rightarrow> [(g\<lparr>kid_lives := True\<rparr>, P_Print_Wait)]
     | P_Print_Wait \<Rightarrow> [(shm_print Parent_Waits g, P_Spin)]
     | P_Spin \<Rightarrow> if shm_data g \<noteq> 1 then [(g, P_Spin)] else [(g, P_Print_Try)]
     | P_Print_Try \<Rightarrow> [(shm_print Parent_Tries g, P_Lock)]
     | P_Lock \<Rightarrow> map (\<lambda>(d, g). (g, P_Test d)) (robust_lock Parent g)
     | P_Test d \<Rightarrow> if d then [(shm_print Owner_Dead g, P_Restore)] else [(g, P_Print_Destroy)]
     | P_Restore \<Rightarrow> [(g\<lparr>inconsistent := False\<rparr>, P_Print_Destroy)]
     | P_Print_Destroy \<Rightarrow> [(shm_print Destroy_Mutex g, P_Unlock)]
     | P_Unlock \<Rightarrow> [(robust_unlock Parent g, P_Destroy)]
     | P_Destroy \<Rightarrow> [(g\<lparr>destroyed := True\<rparr>, P_Print_Free)]
     | P_Print_Free \<Rightarrow> [(shm_print Free_Shmem g, P_Remove)]
     | P_Remove \<Rightarrow> [(g\<lparr>segment := False\<rparr>, P_End)]
     | _ \<Rightarrow> [])"

definition shm_child :: "robust \<Rightarrow> robust_pc \<Rightarrow> (robust \<times> robust_pc) list" where
  "shm_child g l = (case l of
       K_Unborn \<Rightarrow> if kid_lives g then [(g, K_Print_Holds)] else []
     | K_Print_Holds \<Rightarrow> [(shm_print Child_Holds g, K_Lock)]
     | K_Lock \<Rightarrow> map (\<lambda>(_, g). (g, K_Set)) (robust_lock Child g)
     | K_Set \<Rightarrow> [(g\<lparr>shm_data := 1\<rparr>, K_Print_Dies)]
     | K_Print_Dies \<Rightarrow> [(shm_print Child_Dies g, K_Exit)]
     | K_Exit \<Rightarrow> [(g\<lparr>kid_lives := False\<rparr>, K_End)]
     | _ \<Rightarrow> [])"

definition robust_prog :: "(robust, robust_pc) prog" where
  "robust_prog i g l = (if i = 0 then shm_parent g l else shm_child g l)"

definition robust_start :: "robust \<times> (nat \<Rightarrow> robust_pc)" where
  "robust_start = (\<lparr>shm_data = 0, mx_owner = None, inconsistent = False, ruined = False, destroyed = False, kid_lives = False,
     segment = True, shm_out = []\<rparr>, \<lambda>i. if i = 0 then P_Fork else K_Unborn)"

definition shm_states :: "(robust \<times> robust_pc \<times> robust_pc) list" where
  "shm_states = explore robust_prog 40 [] [(fst robust_start, P_Fork, K_Unborn)]"

text \<open>In no state is the mutex ruined, and the shared memory is there as long as the child uses it; a state without a step, or with
  the idle turn of the spin loop only, is the end.\<close>

definition shm_ok :: "robust \<times> robust_pc \<times> robust_pc \<Rightarrow> bool" where
  "shm_ok s = (case s of (g, a, b) \<Rightarrow> \<not> ruined g \<and> (\<not> segment g \<longrightarrow> b = K_End) \<and>
     (list_all (\<lambda>t. t = s) (after robust_prog s) \<longrightarrow> a = P_End \<and> b = K_End \<and> Owner_Dead \<in> set (shm_out g) \<and>
        destroyed g \<and> mx_owner g = None \<and> \<not> segment g))"

lemma shm_states_ok:
  "closed_under robust_prog shm_states \<and> list_all shm_ok shm_states \<and> (fst robust_start, P_Fork, K_Unborn) \<in> set shm_states"
  by code_simp

text \<open>In every interleaving the parent finds the dead owner, repairs the mutex and removes everything; it never stops before.\<close>

lemma dead_owner_found:
  assumes "reach robust_prog 2 robust_start (g, ls)"
  shows "shm_ok (g, ls 0, ls 1)"
proof -
  have "(g, ls 0, ls 1) \<in> set shm_states"
    using reach_listed[of robust_prog shm_states "fst robust_start" "snd robust_start"] shm_states_ok assms by (simp add: robust_start_def)
  with shm_states_ok show ?thesis by (simp add: list_all_iff)
qed

section \<open>Variables of a thread\<close>

text \<open>Threads \<open>0\<close> to \<open>n - 1\<close> are started with the arguments \<open>1\<close> to \<open>n\<close>, thread \<open>n\<close> is \<^verbatim>\<open>main\<close> (\<open>n = 2\<close> in the code).\<close>

record own_vars =
  own_a :: "nat \<Rightarrow> int"
  born :: nat
  ready_to_print :: nat
  print_now :: bool
  own_out :: "(nat \<times> int) list"

datatype own_pc =
    T_Set
  | T_Ready
  | T_Spin
  | T_Done
  | N_Zero
  | N_Create nat
  | N_Spin
  | N_Join nat
  | N_Done

definition own_thread_f :: "nat \<Rightarrow> own_vars \<Rightarrow> own_pc \<Rightarrow> (own_vars \<times> own_pc) list" where
  "own_thread_f i g l = (if \<not> i < born g then [] else case l of
       T_Set \<Rightarrow> [(g\<lparr>own_a := (own_a g)(i := int i + 1)\<rparr>, T_Ready)]
     | T_Ready \<Rightarrow> [(g\<lparr>ready_to_print := ready_to_print g + 1\<rparr>, T_Spin)]
     | T_Spin \<Rightarrow> if print_now g then [(g\<lparr>own_out := own_out g @ [(i, own_a g i)]\<rparr>, T_Done)] else [(g, T_Spin)]
     | _ \<Rightarrow> [])"

text \<open>\<open>joined\<close>: whether thread \<open>k\<close> has ended, which \<^verbatim>\<open>pthread_join\<close> waits for.\<close>

definition own_main :: "nat \<Rightarrow> (nat \<Rightarrow> bool) \<Rightarrow> own_vars \<Rightarrow> own_pc \<Rightarrow> (own_vars \<times> own_pc) list" where
  "own_main n joined g l = (case l of
       N_Zero \<Rightarrow> [(g\<lparr>own_a := (own_a g)(n := 0)\<rparr>, N_Create 0)]
     | N_Create k \<Rightarrow> if k < n then [(g\<lparr>born := born g + 1\<rparr>, N_Create (k + 1))] else [(g, N_Spin)]
     | N_Spin \<Rightarrow> if ready_to_print g \<noteq> n then [(g, N_Spin)] else [(g\<lparr>print_now := True\<rparr>, N_Join 0)]
     | N_Join k \<Rightarrow> if k < n then if joined k then [(g, N_Join (k + 1))] else []
         else [(g\<lparr>own_out := own_out g @ [(n, own_a g n)]\<rparr>, N_Done)]
     | _ \<Rightarrow> [])"

text \<open>A thread has ended when it has printed.\<close>

definition own_prog :: "nat \<Rightarrow> (own_vars, own_pc) prog" where
  "own_prog n i g l = (if i < n then own_thread_f i g l else own_main n (\<lambda>k. k \<in> fst ` set (own_out g)) g l)"

definition own_start :: "nat \<Rightarrow> (own_vars, own_pc) sys" where
  "own_start n = (\<lparr>own_a = \<lambda>_. - 1, born = 0, ready_to_print = 0, print_now = False, own_out = []\<rparr>, \<lambda>i. if i < n then T_Set else N_Zero)"

definition own_inv :: "nat \<Rightarrow> own_vars \<Rightarrow> (nat \<Rightarrow> own_pc) \<Rightarrow> bool" where
  "own_inv n g ls \<longleftrightarrow>
     (\<forall>i<n. ls i \<in> {T_Set, T_Ready, T_Spin, T_Done} \<and> (ls i \<noteq> T_Set \<longrightarrow> own_a g i = int i + 1) \<and> (ls i = T_Done \<longleftrightarrow> i \<in> fst ` set (own_out g))) \<and>
     (ls n \<in> {N_Zero, N_Spin, N_Done} \<or> (\<exists>k\<le>n. ls n = N_Create k \<or> ls n = N_Join k)) \<and>
     (ls n \<noteq> N_Zero \<longrightarrow> own_a g n = 0) \<and>
     (\<forall>k. ls n = N_Join k \<longrightarrow> (\<forall>i<k. i \<in> fst ` set (own_out g))) \<and>
     list_all (\<lambda>(i, a). i \<le> n \<and> a = (if i = n then 0 else int i + 1)) (own_out g) \<and>
     distinct (map fst (own_out g)) \<and> (n \<in> fst ` set (own_out g) \<longleftrightarrow> ls n = N_Done) \<and>
     (ls n = N_Done \<longrightarrow> (\<forall>i<n. i \<in> fst ` set (own_out g)) \<and> fst (last (own_out g)) = n)"

lemma own_inv_thread:
  "own_inv n g ls \<Longrightarrow> i < n \<Longrightarrow> (ls i \<noteq> T_Set \<longrightarrow> own_a g i = int i + 1) \<and> (ls i = T_Done \<longleftrightarrow> i \<in> fst ` set (own_out g))"
  unfolding own_inv_def by blast

interpretation ov: invariant "own_prog n" "Suc n" "own_start n" "own_inv n" for n
proof
  show "own_inv n (fst (own_start n)) (snd (own_start n))" by (simp add: own_inv_def own_start_def)
next
  fix g ls i g' l'
  assume inv: "own_inv n g ls" and i: "i < Suc n" and s: "(g', l') \<in> set (own_prog n i g (ls i))"
  show "own_inv n g' (ls(i := l'))"
  proof (cases "i = n")
    case True
    with s have m: "(g', l') \<in> set (own_main n (\<lambda>k. k \<in> fst ` set (own_out g)) g (ls n))" by (simp add: own_prog_def)
    show ?thesis
    proof (cases "ls n")
      case (N_Join k)
      show ?thesis
      proof (cases "k < n")
        case True
        with m N_Join inv \<open>i = n\<close> show ?thesis
          by (auto simp: own_main_def own_inv_def less_Suc_eq split: if_splits)
      next
        case False
        with m N_Join inv \<open>i = n\<close> show ?thesis
          by (force simp: own_main_def own_inv_def split: if_splits)
      qed
    qed (use m inv True in \<open>auto simp: own_main_def own_inv_def split: if_splits\<close>)
  next
    case False
    with i have i: "i < n" by simp
    with s have w: "(g', l') \<in> set (own_thread_f i g (ls i))" by (simp add: own_prog_def)
    have m: "(ls(i := l')) n = ls n" using False by simp
    show ?thesis
    proof (cases "ls i = T_Spin \<and> print_now g")
      case True
      with w i have g': "g' = g\<lparr>own_out := own_out g @ [(i, own_a g i)]\<rparr>" "l' = T_Done"
        by (simp_all add: own_thread_f_def split: if_splits)
      have h: "i \<notin> fst ` set (own_out g)" "own_a g i = int i + 1" using own_inv_thread[OF inv i] True by auto
      moreover have "ls n = N_Done \<longrightarrow> i \<in> fst ` set (own_out g)" using inv i unfolding own_inv_def by blast
      ultimately have "ls n \<noteq> N_Done" by blast
      with inv h i False show ?thesis unfolding own_inv_def m g'(2) by (simp add: g'(1)) blast
    next
      case idle: False
      then have g': "own_out g' = own_out g" "l' \<in> {T_Ready, T_Spin}" "ls i \<noteq> T_Done" "\<forall>j. j \<noteq> i \<longrightarrow> own_a g' j = own_a g j"
        "own_a g' i = (if ls i = T_Set then int i + 1 else own_a g i)"
        using w by (cases "ls i"; simp add: own_thread_f_def split: if_splits)+
      from inv i False show ?thesis
        unfolding own_inv_def m g'(1) using g'(2-5) by simp blast
    qed
  qed
qed

text \<open>Every thread prints its own value, once, and \<^verbatim>\<open>main\<close> prints last, a value that no thread has changed.\<close>

lemma own_values:
  assumes "reach (own_prog n) (Suc n) (own_start n) (g, ls)" and "ls n = N_Done"
  shows "set (own_out g) = insert (n, 0) ((\<lambda>i. (i, int i + 1)) ` {..<n}) \<and> length (own_out g) = Suc n \<and> last (own_out g) = (n, 0)"
proof -
  have inv: "own_inv n g ls" by (rule ov.reach_inv[OF assms(1)])
  let ?v = "\<lambda>i. if i = n then 0 else int i + 1"
  have la: "list_all (\<lambda>(i, a). i \<le> n \<and> a = ?v i) (own_out g)" using inv by (simp only: own_inv_def)
  have val: "fst x \<le> n \<and> snd x = ?v (fst x)" if "x \<in> set (own_out g)" for x
  proof -
    have "(\<lambda>(i, a). i \<le> n \<and> a = ?v i) x" using la that unfolding list_all_iff by (rule bspec)
    then show ?thesis by (simp only: split_beta)
  qed
  have "\<forall>i<n. i \<in> fst ` set (own_out g)" "n \<in> fst ` set (own_out g)"
    using inv assms(2) unfolding own_inv_def by blast+
  then have all: "i \<le> n \<Longrightarrow> i \<in> fst ` set (own_out g)" for i by (cases "i = n") simp_all
  have f: "fst ` set (own_out g) = {..n}" using val all by force
  have "(\<lambda>i. (i, ?v i)) ` (fst ` set (own_out g)) = id ` set (own_out g)"
    unfolding image_image by (rule image_cong) (use val in \<open>simp_all add: prod_eq_iff\<close>)
  then have "set (own_out g) = (\<lambda>i. (i, ?v i)) ` {..n}" by (simp add: f)
  also have "{..n} = insert n {..<n}" by auto
  finally have "set (own_out g) = (\<lambda>i. (i, ?v i)) ` insert n {..<n}" .
  moreover have "(\<lambda>i. (i, ?v i)) ` {..<n} = (\<lambda>i. (i, int i + 1)) ` {..<n}" by (rule image_cong) auto
  ultimately have s: "set (own_out g) = insert (n, 0) ((\<lambda>i. (i, int i + 1)) ` {..<n})" by simp
  have d: "distinct (map fst (own_out g))" using inv by (simp only: own_inv_def)
  have "length (own_out g) = card (fst ` set (own_out g))"
    using distinct_card[OF d] by simp
  then have l: "length (own_out g) = Suc n" by (simp add: f)
  then have ne: "own_out g \<noteq> []" by auto
  have "fst (last (own_out g)) = n" using inv assms(2) by (simp add: own_inv_def)
  with val[OF last_in_set[OF ne]] have "last (own_out g) = (n, 0)" by (simp add: prod_eq_iff)
  with s l show ?thesis by simp
qed

end
