(* ===== verification/Identities.thy ===== *)
theory Identities
  imports C_Text
begin

text \<open>
  The user ids of a process, \<^verbatim>\<open>lecture_examples/10_users/5_seteuid.c\<close>: the calls \<^verbatim>\<open>seteuid\<close> and \<^verbatim>\<open>setuid\<close> as their manual
  describes them on Linux, where an effective id of 0 carries the privilege. The arguments are taken to be ids (not -1).
\<close>

record ids =
  uid :: int
  euid :: int
  suid :: int

definition seteuid :: "int \<Rightarrow> ids \<Rightarrow> int \<times> ids" where
  "seteuid u p = (if euid p = 0 \<or> u \<in> {uid p, euid p, suid p} then (0, p\<lparr>euid := u\<rparr>) else (- 1, p))"

definition setuid :: "int \<Rightarrow> ids \<Rightarrow> int \<times> ids" where
  "setuid u p = (if euid p = 0 then (0, \<lparr>uid = u, euid = u, suid = u\<rparr>)
     else if u \<in> {uid p, suid p} then (0, p\<lparr>euid := u\<rparr>) else (- 1, p))"

datatype ids_line = Uids ids | Set_Euid int | Set_Uid int | Ids_Error

definition show_uids :: "ids \<Rightarrow> ids_line list" where
  "show_uids p = [Uids p]"

text \<open>What is printed, and the ids at the end; \<open>args\<close> are the three arguments.\<close>

definition seteuid_main :: "string list \<Rightarrow> ids \<Rightarrow> ids_line list \<times> ids" where
  "seteuid_main args p =
     (let new_uid1 = atoi (args ! 0); new_uid2 = atoi (args ! 1); new_uid3 = atoi (args ! 2);
          out = show_uids p @ [Set_Euid new_uid1]; (rc, p) = seteuid new_uid1 p;
          out = out @ (if rc = - 1 then [Ids_Error] else []) @ show_uids p @ [Set_Euid new_uid2]; (rc, p) = seteuid new_uid2 p;
          out = out @ (if rc = - 1 then [Ids_Error] else []) @ show_uids p @ [Set_Uid new_uid3]; (rc, p) = setuid new_uid3 p;
          out = out @ (if rc = - 1 then [Ids_Error] else []) @ show_uids p
      in (out, p))"

text \<open>Any further calls.\<close>

datatype ids_call = Call_Seteuid int | Call_Setuid int

fun ids_calls :: "ids_call list \<Rightarrow> ids \<Rightarrow> ids" where
  "ids_calls [] p = p"
| "ids_calls (Call_Seteuid u # cs) p = ids_calls cs (snd (seteuid u p))"
| "ids_calls (Call_Setuid u # cs) p = ids_calls cs (snd (setuid u p))"

lemma calls_unprivileged: "0 \<notin> {uid p, euid p, suid p} \<Longrightarrow> 0 \<notin> {uid (ids_calls cs p), euid (ids_calls cs p), suid (ids_calls cs p)}"
  by (induction cs p rule: ids_calls.induct) (auto simp: seteuid_def setuid_def)

text \<open>Root that takes another effective id can take its own one back, and a process without any id of root never gets one; once root has
  given up all its ids with \<^verbatim>\<open>setuid\<close>, no sequence of calls makes it root again.\<close>

lemma root_for_a_while: "euid p = 0 \<Longrightarrow> suid p = 0 \<Longrightarrow> snd (seteuid 0 (snd (seteuid u p))) = p\<lparr>euid := 0\<rparr>"
  by (auto simp: seteuid_def)

lemma root_given_up:
  assumes "euid (snd (seteuid (atoi (args ! 1)) (snd (seteuid (atoi (args ! 0)) p)))) = 0" and "atoi (args ! 2) \<noteq> 0"
  shows "0 \<notin> {uid (ids_calls cs (snd (seteuid_main args p))), euid (ids_calls cs (snd (seteuid_main args p))),
    suid (ids_calls cs (snd (seteuid_main args p)))}"
proof (rule calls_unprivileged)
  have "snd (seteuid_main args p) = snd (setuid (atoi (args ! 2)) (snd (seteuid (atoi (args ! 1)) (snd (seteuid (atoi (args ! 0)) p)))))"
    by (simp add: seteuid_main_def Let_def split: prod.split)
  with assms show "0 \<notin> {uid (snd (seteuid_main args p)), euid (snd (seteuid_main args p)), suid (snd (seteuid_main args p))}"
    by (simp add: setuid_def)
qed

lemma never_root: "0 \<notin> {uid p, euid p, suid p} \<Longrightarrow> 0 \<notin> {uid (snd (seteuid_main args p)), euid (snd (seteuid_main args p)), suid (snd (seteuid_main args p))}"
  by (simp add: seteuid_main_def Let_def seteuid_def setuid_def split: prod.split)

end
