(* ===== verification/Spec2Isabelle.thy ===== *)
theory Spec2Isabelle
  imports UserFS_Stress Shell_Exec File_Sort Libcoro Counters Thing_Lock Futex Cthreads Round_Robin Jmp_Coros
    Condvar Shared_Mem Servers Messages Small_Coros
    Sem_Mutex Sem_Shell Fcntl_Shell Sockets More_Servers
    Signals Fork_Files Pipes Flock Small_Ipc Msg_Programs
    Shell_Jobs Server_Start Stacks Events Event_Life Robust_Mutex Identities
begin

text \<open>
  A verification library for the homework programs (directories 1 to 4) and the lecture examples of
  this repository. Every definition that models code is a translation of the C function named beside
  it; executions are functions, interleavings are a step relation.

  \<^bold>\<open>How C is modelled.\<close> Theory \<^verbatim>\<open>Prelude\<close>: running a piece of code gives \<open>ret x\<close>, \<open>fault e\<close> (a null pointer, a freed
  address, an access outside an object) or \<open>None\<close> (it never returns); \<open>bnd\<close> sequences, \<open>wp\<close> and \<open>safe\<close> judge.
  Loops that may run for ever are \<open>partial_function (option)\<close>, so a statement \<open>f x = ret y\<close> includes
  termination; no fuel is used. Structures are records, pointers are addresses into a store
  (\<^verbatim>\<open>Linked\<close> has singly and doubly linked lists in a store), bytes that nobody has written are \<open>None\<close>.
  Sizes that the code can make wrap around are kept at their width (\<open>size_t_add\<close>, \<open>wrap_int\<close>, the 64-bit
  clock of \<^verbatim>\<open>Round_Robin\<close>); counters that stay small by an invariant are natural numbers. \<^verbatim>\<open>C_Text\<close>: decimal
  numbers as \<^verbatim>\<open>atoi\<close>, \<^verbatim>\<open>scanf\<close> and \<^verbatim>\<open>printf\<close> read and write them; \<^verbatim>\<open>Bytes\<close>: integers as bytes in memory.
  \<^verbatim>\<open>Interleaving\<close>: threads with shared memory, atomic steps in any order, sequentially consistent.
  What the system answers (descriptors ready, bytes returned by a read, exit order of children, the
  clock, random numbers) is a parameter, and the theorems hold for every answer.

  \<^bold>\<open>Contracts\<close> (locales, each interpreted on the model it is about): \<^verbatim>\<open>Buffers.growable\<close> for the growable
  arrays of the shell, of the file sort and of the presorting programs; \<^verbatim>\<open>Interleaving.invariant\<close> and
  \<^verbatim>\<open>Interleaving.lock_contract\<close> for everything with threads (mutual exclusion is proved once);
  \<^verbatim>\<open>Round_Robin.coroutines\<close> for what the scheduler of \<^verbatim>\<open>1/main.c\<close> asks of a coroutine, interpreted on \<^verbatim>\<open>sort_file\<close> and on
  coroutines that only offer to switch; \<^verbatim>\<open>Runs.countdown\<close> for the transfer through shared memory, which must come to an
  end, and \<^verbatim>\<open>Runs.call_stack\<close> for the return points of the \<^verbatim>\<open>setjmp\<close> coroutines.

  \<^bold>\<open>The in-memory file system\<close>, \<^verbatim>\<open>3/userfs.c\<close>: \<^verbatim>\<open>UserFS\<close> translates every function pointer by pointer.
  \<^verbatim>\<open>UserFS_Inv\<close> states the well-formedness invariant with its ghosts, \<^verbatim>\<open>UserFS_Ops\<close>, \<^verbatim>\<open>UserFS_IO\<close>, \<^verbatim>\<open>UserFS_API\<close>
  and \<^verbatim>\<open>UserFS_Resize\<close> prove that every function keeps it and what it does; \<^verbatim>\<open>UserFS_Spec\<close> is the abstract view
  (names, bytes of a file, bytes ahead of a descriptor) and \<^verbatim>\<open>UserFS_Theorems\<close> has the properties: reachable
  states are well-formed and leak nothing, calls fault only when a non-empty file is resized to nothing, writing
  refines the function \<open>put\<close> on segments (including the writes that never return), reads return the
  bytes ahead, bytes written are read back, and each call's result and errors.
  \<^verbatim>\<open>UserFS_Tests\<close> and \<^verbatim>\<open>UserFS_Stress\<close> have the test program \<^verbatim>\<open>3/test.c\<close>, which passes on the model, whether \<^verbatim>\<open>NEED_OPEN_FLAGS\<close> is
  defined there (\<^verbatim>\<open>test_rights\<close> then has a body) or not, as in the repository: the short tests by
  running them, the two long ones (a thousand files, a file of the largest size) from what \<^verbatim>\<open>UserFS_Client\<close> says of every
  call (its result, the names, and that nobody else's descriptor moves), for any number of files and any buffer.

  \<^bold>\<open>The shell\<close>, \<^verbatim>\<open>2/shell.c\<close>: \<^verbatim>\<open>Shell_Lexer\<close> is the reader (quotes, escapes, comments, operators) with a
  reference reader it refines and a round trip for words written bare with backslashes, in single and in double quotes;
  \<^verbatim>\<open>Shell_Logic\<close> splits lines and evaluates \<open>&&\<close> and \<open>||\<close>
  (equal to left-to-right short-circuit evaluation of the line as an independent definition, \<open>parse_logic\<close>, cuts it); \<^verbatim>\<open>Shell_Exec\<close> has pipelines, redirections and exit
  codes over explicit descriptor tables. \<^verbatim>\<open>Shell_Jobs\<close> puts them together: the process of a line, whose exit status is the
  short-circuit value of the line, and the shell that forks one per line, waits for those in the foreground and reports the
  others, as an interleaving with the ends of its children: from any input text, every child is waited for once.

  \<^bold>\<open>Sorting files with coroutines\<close>, \<^verbatim>\<open>1/main.c\<close>: \<^verbatim>\<open>Quick_Sort\<close> (the in-place sort, any random choices),
  \<^verbatim>\<open>Round_Robin\<close> (the contexts, \<^verbatim>\<open>swap\<close> and \<^verbatim>\<open>terminate\<close>: who runs when) and \<^verbatim>\<open>File_Sort\<close> (reading, sorting, rewriting as
  coroutines that switch at every call of \<^verbatim>\<open>swap\<close>, merging, the whole program). \<^verbatim>\<open>terminate\<close> sets \<^verbatim>\<open>uc_link\<close> after \<^verbatim>\<open>makecontext\<close>:
  the parameter \<open>late\<close> says whether the system looks at it when the coroutine returns. If it does, every coroutine
  comes to its end for any clock and time slice, in the order of the circle, and the files are merged; if not, as in
  POSIX, the first return follows a link that was never set.

  \<^bold>\<open>Coroutine libraries\<close>: \<^verbatim>\<open>Libcoro\<close> (\<^verbatim>\<open>4_signals/12_libcoro.c\<close> and its example: the list of coroutines, creation
  by signals, the wait loop that collects every result) and \<^verbatim>\<open>Jmp_Coros\<close> (\<^verbatim>\<open>1/coro_jmp.h\<close> and its
  example: calls and returns by jumps nest to any depth); \<^verbatim>\<open>Small_Coros\<close> (\<^verbatim>\<open>examples/coro_alloca.c\<close>: the
  coroutines run in step at every depth of their calls; \<^verbatim>\<open>1/example_swap.c\<close>: the order of the swaps). \<^verbatim>\<open>Stacks\<close> has the ways in which
  the latter allocates its stacks, and the alternate signal stack of \<^verbatim>\<open>4_signals/10_sigaltstack.c\<close>.

  \<^bold>\<open>Threads\<close>, \<^verbatim>\<open>lecture_examples/6_threads\<close>: \<^verbatim>\<open>Counters\<close> (4, 5), \<^verbatim>\<open>Thing_Lock\<close> (6, 7), \<^verbatim>\<open>Futex\<close> (8: no update
  is lost, no sleeper is forgotten, any number of threads), \<^verbatim>\<open>Cthreads\<close> (10 to 12: join, detach,
  the list of stacks to be freed), \<^verbatim>\<open>Condvar\<close> (13, 14: every signal is taken by exactly one thread).

  \<^bold>\<open>Processes\<close>, \<^verbatim>\<open>lecture_examples/7_ipc\<close>: \<^verbatim>\<open>Presort\<close> (1, 2: one process; pipes cut into any reads) and
  \<^verbatim>\<open>Shared_Mem\<close> (3: the two-flag protocol on shared memory delivers every message and can always be completed);
  the three programs compute the same array. \<^verbatim>\<open>Messages\<close> (7, 9): packing and sending lines; \<^verbatim>\<open>Events\<close> (9): the event system at
  work, in which a consumer's semaphores promise it a message of every producer as long as no adjustment of \<^verbatim>\<open>SEM_UNDO\<close>
  leaves its range (after 32767 rounds two consumers meet); \<^verbatim>\<open>Event_Life\<close> adds start, end and death of its processes, where
  \<^verbatim>\<open>SEM_UNDO\<close> takes the promise back, and the identifiers that have become invalid. \<^verbatim>\<open>Sem_Shell\<close> (8: the interpreter of semaphore
  commands, whose transactions are single calls of \<^verbatim>\<open>semop\<close>), \<^verbatim>\<open>Sem_Mutex\<close> (10: a semaphore made of a mutex and a
  condition variable, any threads and calls, with spurious wake-ups), \<^verbatim>\<open>Sockets\<close> (14, 15: the ring of datagram
  sockets; a client and the thread that serves it). \<^bold>\<open>Servers\<close>, \<^verbatim>\<open>lecture_examples/9_aio\<close>: \<^verbatim>\<open>Servers\<close> has the main
  loops of the select, poll and epoll servers (4, 5, 7) over the answers of the system, \<^verbatim>\<open>More_Servers\<close> the kqueue
  server (6) and the daemon \<^verbatim>\<open>10_users/9_daemon.c\<close> with its table of descriptors. \<^verbatim>\<open>Server_Start\<close> makes
  whole programs of the servers (the calls that create a socket and their errors, the end of the program, the descriptors it
  leaves open) and has the loop that starts a thread per client and the clients of \<^verbatim>\<open>8_net\<close> and \<^verbatim>\<open>9_aio\<close>. \<^verbatim>\<open>Fcntl_Shell\<close> (3) is the interpreter of
  lock commands, \<^verbatim>\<open>Flock\<close> (2) any number of processes that lock a whole file: locks exclude, and nobody waits for ever.
  \<^verbatim>\<open>Msg_Programs\<close> (\<^verbatim>\<open>7_ipc\<close> 7: client and servers of the message queue come to the same lines in every order),
  \<^verbatim>\<open>Small_Ipc\<close> (\<^verbatim>\<open>7_ipc\<close> 12, 13: a named semaphore, a pair of sockets; \<^verbatim>\<open>5_files/2_fstat.c\<close>: the bits of a file mode), \<^verbatim>\<open>Robust_Mutex\<close> (\<^verbatim>\<open>7_ipc/11_shm.c\<close>: a mutex whose
  owner dies; \<^verbatim>\<open>6_threads/15_gcc_thread.c\<close>: variables of a thread), \<^verbatim>\<open>Identities\<close> (\<^verbatim>\<open>10_users/5_seteuid.c\<close>).

  \<^bold>\<open>Signals\<close>, \<^verbatim>\<open>lecture_examples/4_signals\<close>: \<^verbatim>\<open>Signals\<close> (2, 4, 6 to 9) runs one process against a sender that may strike between
  any two steps: the pause loop can sleep through its signal, the \<^verbatim>\<open>sigsuspend\<close> loop cannot, jumps out of a handler keep or
  restore the mask. \<^bold>\<open>Fork\<close>, \<^verbatim>\<open>lecture_examples/2_processes\<close>: \<^verbatim>\<open>Fork_Files\<close> (7, 8, 9: descriptors that share a position or do not)
  and \<^verbatim>\<open>Pipes\<close> (4, 10, 11: parent and child, all of whose states are listed and checked by the kernel).

  \<^bold>\<open>Bounds.\<close> Thread programs are proved for any number of threads and rounds, except the locked string,
  whose six threads and 127 characters are those of the code, and \<^verbatim>\<open>Cthreads\<close>, which has one thread and its
  creator. The presorting programs hold at most \<open>2 ^ 30\<close> numbers of a file (their \<^verbatim>\<open>int\<close> capacity doubles), and those that send their
  sizes as an \<^verbatim>\<open>int\<close> number of bytes need files of fewer than \<open>2 ^ 29\<close> numbers. The event system has one producer for each
  of its three identifiers and any number of consumers; values and adjustments of its semaphores lie within the limits of Linux (32767). The shared area of
  \<^verbatim>\<open>Shared_Mem\<close> may have any positive size (65534 bytes in the code).

  \<^bold>\<open>Not modelled.\<close> \<^verbatim>\<open>4/thread_pool.c\<close> holds only stubs. Printing and
  timing of the sorting programs. The examples that consist of single system
  calls (the others of \<^verbatim>\<open>2_processes\<close>, \<^verbatim>\<open>4_signals\<close> and \<^verbatim>\<open>5_files\<close>, \<^verbatim>\<open>3_memory\<close>, most of \<^verbatim>\<open>8_net\<close> and \<^verbatim>\<open>10_users\<close>) have
  no logic of their own. Partial reads of a number are only modelled where the code handles them (\<^verbatim>\<open>Presort\<close>) or takes
  what it gets (\<^verbatim>\<open>Server_Start\<close>). Failing calls of \<^verbatim>\<open>chdir\<close>, and of \<^verbatim>\<open>pipe\<close> and \<^verbatim>\<open>fork\<close> inside a pipeline, in the shell; of
  \<^verbatim>\<open>getcontext\<close>, \<^verbatim>\<open>makecontext\<close> and \<^verbatim>\<open>swapcontext\<close> in the file sort, whose files are distinct; of \<^verbatim>\<open>semget\<close> and \<^verbatim>\<open>msgget\<close> in the event
  system other than for what exists or does not exist; a full message queue; and handlers that jump into a function that has returned are left out. The end of the input of \<^verbatim>\<open>8_sem.c\<close>, which the program
  does not test for, is left out.
\<close>

end
